(* ===== verification/Prelude.thy ===== *)
theory Prelude
  imports Main "HOL-Library.Word" "HOL-Library.Sublist"
begin

section \<open>Prelude: C strings, character classes, bounded buffers\<close>

text \<open>
  Shared vocabulary of the development.

  A C string is the list of its characters without the terminating NUL, and a
  \<open>char *\<close> that walks over a string is the suffix that is still to be read: the
  dereference of a pointer is \<open>deref\<close>, which is NUL at the end of the string. A pointer
  that the code compares with NULL is a \<open>string option\<close>.

  The character classes are those of the C locale, which the server never leaves
  (it does not call \<open>setlocale\<close>). \<open>ToLower\<close> is the macro of hdrs/externs.h.

  An output buffer is the string written so far; hdrs/alloc.h bounds it by the macros
  \<open>safe_str\<close> and \<open>safe_chr\<close>.
\<close>

named_theorems cstring_simps \<open>facts about C strings and their loops\<close>
named_theorems bounds_intro \<open>length bounds of results written into buffers\<close>

subsection \<open>Characters\<close>

abbreviation NUL :: char where
  "NUL \<equiv> CHR 0x00"

abbreviation ccode :: "char \<Rightarrow> nat" where
  "ccode \<equiv> of_char"

definition is_space :: "char \<Rightarrow> bool" where
  "is_space c \<longleftrightarrow> ccode c = 32 \<or> (9 \<le> ccode c \<and> ccode c \<le> 13)"

definition is_upper :: "char \<Rightarrow> bool" where
  "is_upper c \<longleftrightarrow> 65 \<le> ccode c \<and> ccode c \<le> 90"

definition is_lower :: "char \<Rightarrow> bool" where
  "is_lower c \<longleftrightarrow> 97 \<le> ccode c \<and> ccode c \<le> 122"

definition is_digit :: "char \<Rightarrow> bool" where
  "is_digit c \<longleftrightarrow> 48 \<le> ccode c \<and> ccode c \<le> 57"

definition is_alpha :: "char \<Rightarrow> bool" where
  "is_alpha c \<longleftrightarrow> is_upper c \<or> is_lower c"

definition is_alnum :: "char \<Rightarrow> bool" where
  "is_alnum c \<longleftrightarrow> is_alpha c \<or> is_digit c"

definition ToLower :: "char \<Rightarrow> char" where
  "ToLower c = (if is_upper c then char_of (ccode c + 32) else c)"

definition ToUpper :: "char \<Rightarrow> char" where
  "ToUpper c = (if is_lower c then char_of (ccode c - 32) else c)"

text \<open>A \<open>char\<close> is signed on the platforms the server is built for.\<close>

definition schar :: "char \<Rightarrow> int" where
  "schar c = (if ccode c < 128 then int (ccode c) else int (ccode c) - 256)"

lemma ccode_less [simp]: "ccode c < 256"
proof -
  have "ccode c mod 256 < 256" by (rule mod_less_divisor) simp
  then show ?thesis by simp
qed

lemma ccode_eqI: "ccode c = ccode d \<Longrightarrow> c = d"
  by (rule of_char_eqI [where ?'a = nat])

lemma ccode_char_of: "n < 256 \<Longrightarrow> ccode (char_of n) = n"
  by simp

lemma ccode_ToLower: "ccode (ToLower c) = (if is_upper c then ccode c + 32 else ccode c)"
  by (auto simp: ToLower_def is_upper_def)

lemma ccode_ToUpper: "ccode (ToUpper c) = (if is_lower c then ccode c - 32 else ccode c)"
  by (auto simp: ToUpper_def is_lower_def)

lemma ToLower_idem [simp]: "ToLower (ToLower c) = ToLower c"
  by (rule ccode_eqI) (auto simp: ccode_ToLower is_upper_def)

lemma ToUpper_idem [simp]: "ToUpper (ToUpper c) = ToUpper c"
  by (rule ccode_eqI) (auto simp: ccode_ToUpper is_lower_def)

lemma not_is_lower_ToUpper [simp]: "\<not> is_lower (ToUpper c)"
  by (auto simp: is_lower_def ccode_ToUpper)

lemma is_space_ToLower [simp]: "is_space (ToLower c) = is_space c"
  by (auto simp: is_space_def ccode_ToLower is_upper_def)

lemma ToLower_space [simp]: "is_space c \<Longrightarrow> ToLower c = c"
  by (auto simp: is_space_def ToLower_def is_upper_def)

lemma ToLower_NUL_iff [simp]: "ToLower c = NUL \<longleftrightarrow> c = NUL"
proof
  assume "ToLower c = NUL"
  then have "ccode (ToLower c) = 0" by simp
  then have "ccode c = ccode NUL" by (auto simp: ccode_ToLower split: if_splits)
  then show "c = NUL" by (rule ccode_eqI)
next
  assume "c = NUL"
  then show "ToLower c = NUL" by (simp add: ToLower_def is_upper_def)
qed

lemma NUL_ToLower_iff [simp]: "NUL = ToLower c \<longleftrightarrow> c = NUL"
  by (metis ToLower_NUL_iff)

lemma ToLower_NUL [simp]: "ToLower NUL = NUL"
  by (simp add: ToLower_def is_upper_def)

lemma is_space_NUL [simp]: "\<not> is_space NUL"
  by (simp add: is_space_def)

lemma is_space_blank [simp]: "is_space (CHR '' '')"
  by (simp add: is_space_def)

lemma is_digit_not_space: "is_digit c \<Longrightarrow> \<not> is_space c"
  by (auto simp: is_digit_def is_space_def)

lemma schar_eq_iff: "schar c = schar d \<longleftrightarrow> c = d"
proof
  assume "schar c = schar d"
  moreover have "int (ccode c) < 256" "int (ccode d) < 256"
    using ccode_less [of c] ccode_less [of d] by simp_all
  ultimately have "int (ccode c) = int (ccode d)"
    unfolding schar_def by (smt (verit) of_nat_0_le_iff)
  then show "c = d" by (intro ccode_eqI) simp
qed simp

lemma schar_NUL_iff: "schar c = 0 \<longleftrightarrow> c = NUL"
  using schar_eq_iff [of c NUL] by (simp add: schar_def)

subsection \<open>C strings\<close>

definition cstring :: "string \<Rightarrow> bool" where
  "cstring s \<longleftrightarrow> NUL \<notin> set s"

fun deref :: "string \<Rightarrow> char" where
  "deref [] = NUL"
| "deref (c # s) = c"

lemma cstring_simps_list [simp]:
  "cstring []"
  "cstring (c # s) \<longleftrightarrow> c \<noteq> NUL \<and> cstring s"
  "cstring (s @ t) \<longleftrightarrow> cstring s \<and> cstring t"
  by (auto simp: cstring_def)

lemma cstring_drop: "cstring s \<Longrightarrow> cstring (drop n s)"
  by (auto simp: cstring_def dest: in_set_dropD)

lemma cstring_dropWhile: "cstring s \<Longrightarrow> cstring (dropWhile P s)"
  by (auto simp: cstring_def dest: set_dropWhileD)

lemma cstring_takeWhile: "cstring s \<Longrightarrow> cstring (takeWhile P s)"
  by (auto simp: cstring_def dest: set_takeWhileD)

lemma deref_NUL_iff: "cstring s \<Longrightarrow> deref s = NUL \<longleftrightarrow> s = []"
  by (cases s) auto

text \<open>Comparison without case.\<close>

definition lower :: "string \<Rightarrow> string" where
  "lower s = map ToLower s"

lemma lower_simps [simp]:
  "lower [] = []"
  "lower (c # s) = ToLower c # lower s"
  "lower (s @ t) = lower s @ lower t"
  "length (lower s) = length s"
  "lower s = [] \<longleftrightarrow> s = []"
  "[] = lower s \<longleftrightarrow> s = []"
  by (auto simp: lower_def)

lemma lower_take: "lower (take n s) = take n (lower s)"
  by (simp add: lower_def take_map)

lemma lower_drop: "lower (drop n s) = drop n (lower s)"
  by (simp add: lower_def drop_map)

subsection \<open>Machine integers\<close>

text \<open>
  A C \<open>int\<close> has 32 bits; \<open>wrap32\<close> is the value an operation leaves there when its exact
  result does not fit (the compilers used wrap around).
\<close>

definition INT_MAX :: int where
  "INT_MAX = 2147483647"

definition INT_MIN :: int where
  "INT_MIN = - 2147483648"

definition wrap32 :: "int \<Rightarrow> int" where
  "wrap32 n = (n + 2147483648) mod 4294967296 - 2147483648"

lemma wrap32_id: "INT_MIN \<le> n \<Longrightarrow> n \<le> INT_MAX \<Longrightarrow> wrap32 n = n"
  by (simp add: wrap32_def INT_MIN_def INT_MAX_def)

lemma sint_word_of_int:
  "- (2 ^ 31) \<le> x \<Longrightarrow> x < 2 ^ 31 \<Longrightarrow> sint (word_of_int x :: 32 word) = x"
  by (simp add: signed_of_int signed_take_bit_int_eq_self)

lemma wrap32_range: "INT_MIN \<le> wrap32 n \<and> wrap32 n \<le> INT_MAX"
proof -
  have "0 \<le> (n + 2147483648) mod 4294967296 \<and> (n + 2147483648) mod 4294967296 < 4294967296"
    by simp
  then show ?thesis by (simp add: wrap32_def INT_MIN_def INT_MAX_def)
qed

text \<open>C division truncates towards zero.\<close>

definition cdiv :: "int \<Rightarrow> int \<Rightarrow> int" where
  "cdiv a b = (if (0 \<le> a) = (0 \<le> b) then \<bar>a\<bar> div \<bar>b\<bar> else - (\<bar>a\<bar> div \<bar>b\<bar>))"

definition cmod :: "int \<Rightarrow> int \<Rightarrow> int" where
  "cmod a b = a - b * cdiv a b"

lemma cdiv_nonneg [simp]: "0 \<le> a \<Longrightarrow> 0 < b \<Longrightarrow> cdiv a b = a div b"
  by (simp add: cdiv_def)

lemma cmod_nonneg [simp]: "0 \<le> a \<Longrightarrow> 0 < b \<Longrightarrow> cmod a b = a mod b"
  by (simp add: cmod_def minus_mult_div_eq_mod)

text \<open>
  \<open>atoi\<close> of the C library: leading space, an optional sign, the digits that follow;
  outside the range of \<open>int\<close> it saturates, as \<open>strtol\<close> does where \<open>long\<close> has 32 bits.
\<close>

fun digits_val :: "int \<Rightarrow> string \<Rightarrow> int" where
  "digits_val acc [] = acc"
| "digits_val acc (c # s) =
     (if is_digit c then digits_val (10 * acc + (int (ccode c) - 48)) s else acc)"

definition clamp32 :: "int \<Rightarrow> int" where
  "clamp32 n = max INT_MIN (min INT_MAX n)"

definition atoi :: "string \<Rightarrow> int" where
  "atoi s =
     (case dropWhile is_space s of
        [] \<Rightarrow> 0
      | c # t \<Rightarrow>
          if c = CHR ''-'' then clamp32 (- digits_val 0 t)
          else if c = CHR ''+'' then clamp32 (digits_val 0 t)
          else clamp32 (digits_val 0 (c # t)))"

lemma digits_val_append:
  "\<forall>c\<in>set s. is_digit c \<Longrightarrow> digits_val acc (s @ t) = digits_val (digits_val acc s) t"
  by (induction s arbitrary: acc) auto

subsection \<open>Object numbers\<close>

type_synonym dbref = int

abbreviation NOTHING :: dbref where
  "NOTHING \<equiv> - 1"

subsection \<open>Bounded buffers\<close>

text \<open>
  hdrs/alloc.h: a large buffer has 4000 bytes, and \<open>safe_str\<close> and \<open>safe_chr\<close> stop
  copying once 3998 have been written.
\<close>

definition LBUF_SIZE :: nat where
  "LBUF_SIZE = 4000"

definition LBUF_MAX :: nat where
  "LBUF_MAX = LBUF_SIZE - 2"

lemma LBUF_MAX_eq: "LBUF_MAX = 3998"
  by (simp add: LBUF_MAX_def LBUF_SIZE_def)

subsection \<open>Lists\<close>

lemma dropWhile_eq_drop: "dropWhile P s = drop (length (takeWhile P s)) s"
  by (induction s) auto

lemma takeWhile_all: "\<forall>x\<in>set xs. P x \<Longrightarrow> takeWhile P (xs @ ys) = xs @ takeWhile P ys"
  by (induction xs) auto

lemma dropWhile_all: "\<forall>x\<in>set xs. P x \<Longrightarrow> dropWhile P (xs @ ys) = dropWhile P ys"
  by (induction xs) auto

lemma prefix_Cons_iff:
  "prefix (x # xs) (y # ys) \<longleftrightarrow> x = y \<and> prefix xs ys"
  by auto

text \<open>The sum of a per-bucket count, for arrays of chains.\<close>

lemma sum_list_update_nat:
  fixes f :: "'a \<Rightarrow> nat"
  assumes "i < length xs"
  shows "sum_list (map f (xs[i := x])) + f (xs ! i) = sum_list (map f xs) + f x"
  using assms
proof (induction xs arbitrary: i)
  case (Cons a xs)
  then show ?case by (cases i) (auto simp: algebra_simps)
qed simp

lemma sum_list_ge_nth:
  fixes f :: "'a \<Rightarrow> nat"
  assumes "i < length xs"
  shows "f (xs ! i) \<le> sum_list (map f xs)"
  using assms by (intro member_le_sum_list) auto

lemma length_filter_update:
  assumes "i < length xs"
  shows "length (filter P (xs[i := x])) + (if P (xs ! i) then 1 else 0) =
         length (filter P xs) + (if P x then 1 else 0)"
  using assms
proof (induction xs arbitrary: i)
  case (Cons a xs)
  then show ?case by (cases i) (auto split: if_splits)
qed simp

subsection \<open>Sequences of operations\<close>

text \<open>Runs a list of operations on a state and collects their results.\<close>

fun run_ops :: "('op \<Rightarrow> 't \<Rightarrow> 'r \<times> 't) \<Rightarrow> 'op list \<Rightarrow> 't \<Rightarrow> 'r list \<times> 't" where
  "run_ops step [] t = ([], t)"
| "run_ops step (x # xs) t = (let (r, t1) = step x t; (rs, t2) = run_ops step xs t1 in (r # rs, t2))"

end
