(* ===== verification/Stringutil.thy ===== *)
theory Stringutil
  imports Prelude
begin

section \<open>String utilities (src/Server/src/stringutil.c)\<close>

text \<open>
  The string functions of stringutil.c, in the order of the file: space handling,
  comparison and word matching, replacement into bounded buffers, the bounded copies
  themselves, exit names, integer printing and the translation of ANSI codes.
  A pointer result is the suffix it points to; an output pointer \<open>*bufp\<close> into a buffer
  is the string written so far. Each function is followed by the lemmas that say what it
  computes.
\<close>

subsection \<open>Space handling\<close>

definition skip_space :: "string option \<Rightarrow> string option" where
  "skip_space s = map_option (dropWhile is_space) s"

definition seek_char :: "string option \<Rightarrow> char \<Rightarrow> string option" where
  "seek_char s c = map_option (dropWhile (\<lambda>x. x \<noteq> c)) s"

text \<open>\<open>while (*p && isspace(*++p)) ;\<close> of \<open>munge_space\<close>: the pointer moves before the test.\<close>

fun munge_skip :: "string \<Rightarrow> string" where
  "munge_skip [] = []"
| "munge_skip (c # s) = (if is_space (deref s) then munge_skip s else s)"

lemma munge_skip_length: "length (munge_skip s) \<le> length s - 1"
  by (induction s rule: munge_skip.induct) auto

lemma munge_skip_less [termination_simp]: "s \<noteq> [] \<Longrightarrow> length (munge_skip s) < length s"
  using munge_skip_length [of s] by (cases s) auto

lemma munge_skip_dropWhile_less [termination_simp]:
  "length (munge_skip (dropWhile P s)) < Suc (length s)"
  using munge_skip_length [of "dropWhile P s"] length_dropWhile_le [of P s] by linarith

lemma munge_step_less: "length (munge_skip (dropWhile P (c # s))) < Suc (length s)"
proof (cases "P c")
  case True
  then show ?thesis using munge_skip_dropWhile_less [of P s] by simp
next
  case False
  then show ?thesis using munge_skip_length [of "c # s"] by simp
qed

function munge_loop :: "string \<Rightarrow> string" where
  "munge_loop [] = []"
| "munge_loop (c # s) =
     (let w = takeWhile (\<lambda>x. \<not> is_space x) (c # s);
          p = munge_skip (dropWhile (\<lambda>x. \<not> is_space x) (c # s))
      in w @ (if p \<noteq> [] then CHR '' '' # munge_loop p else []))"
  by pat_completeness auto
termination
  by (relation "measure length") (simp_all del: dropWhile.simps add: munge_step_less)

definition munge_space :: "string option \<Rightarrow> string" where
  "munge_space string = (case string of None \<Rightarrow> [] | Some s \<Rightarrow> munge_loop (dropWhile is_space s))"

function trim_loop :: "string \<Rightarrow> string" where
  "trim_loop [] = []"
| "trim_loop (c # s) =
     (let w = takeWhile (\<lambda>x. \<not> is_space x) (c # s);
          p = dropWhile is_space (dropWhile (\<lambda>x. \<not> is_space x) (c # s))
      in w @ (if p \<noteq> [] then CHR '' '' # trim_loop p else []))"
  by pat_completeness auto

lemma dropWhile_twice_less:
  "length (dropWhile is_space (dropWhile (\<lambda>x. \<not> is_space x) (c # s))) < Suc (length s)"
  using length_dropWhile_le [of is_space "dropWhile (\<lambda>x. \<not> is_space x) s"]
    length_dropWhile_le [of "\<lambda>x. \<not> is_space x" s] length_dropWhile_le [of is_space s]
  by (cases "is_space c") auto

termination trim_loop
  by (relation "measure length") (simp_all del: dropWhile.simps add: dropWhile_twice_less)

definition trim_spaces :: "string option \<Rightarrow> string" where
  "trim_spaces string = (case string of None \<Rightarrow> [] | Some s \<Rightarrow> trim_loop (dropWhile is_space s))"

text \<open>\<open>grabto\<close> returns the token and leaves the rest of the string in \<open>*str\<close>.\<close>

definition grabto :: "string option \<Rightarrow> char \<Rightarrow> (string \<times> string) option" where
  "grabto str targ =
     (case str of
        None \<Rightarrow> None
      | Some [] \<Rightarrow> None
      | Some s \<Rightarrow>
          (let cp = dropWhile (\<lambda>x. x \<noteq> targ) s
           in Some (takeWhile (\<lambda>x. x \<noteq> targ) s, if cp \<noteq> [] then tl cp else cp)))"

subsection \<open>Comparison and matching\<close>

fun string_compare_plain :: "string \<Rightarrow> string \<Rightarrow> int" where
  "string_compare_plain (a # s1) (b # s2) =
     (if ToLower a = ToLower b then string_compare_plain s1 s2
      else schar (ToLower a) - schar (ToLower b))"
| "string_compare_plain s1 s2 = schar (ToLower (deref s1)) - schar (ToLower (deref s2))"

function (sequential) string_compare_loop :: "string \<Rightarrow> string \<Rightarrow> string \<times> string" where
  "string_compare_loop (a # s1) (b # s2) =
     (if ToLower a = ToLower b \<or> (is_space a \<and> is_space b) then
        (if is_space a \<and> is_space b then
           string_compare_loop (dropWhile is_space (a # s1)) (dropWhile is_space (b # s2))
         else string_compare_loop s1 s2)
      else (a # s1, b # s2))"
| "string_compare_loop s1 s2 = (s1, s2)"
  by pat_completeness auto
termination
  by (relation "measure (\<lambda>(s1, s2). length s1)")
     (auto simp: le_imp_less_Suc length_dropWhile_le)

definition string_compare :: "bool \<Rightarrow> string \<Rightarrow> string \<Rightarrow> int" where
  "string_compare space_compress s1 s2 =
     (if \<not> space_compress then string_compare_plain s1 s2
      else
        (let (t1, t2) = string_compare_loop (dropWhile is_space s1) (dropWhile is_space s2)
         in if t1 \<noteq> [] \<and> t2 \<noteq> [] then 1
            else if is_space (deref t1) then schar (deref (dropWhile is_space t1))
            else if is_space (deref t2) then schar (deref (dropWhile is_space t2))
            else if t1 \<noteq> [] \<or> t2 \<noteq> [] then 1
            else 0))"

fun string_prefix_loop :: "string \<Rightarrow> string \<Rightarrow> nat \<Rightarrow> nat \<times> string" where
  "string_prefix_loop (a # s) (b # p) count =
     (if ToLower a = ToLower b then string_prefix_loop s p (Suc count) else (count, b # p))"
| "string_prefix_loop s p count = (count, p)"

definition string_prefix :: "string \<Rightarrow> string \<Rightarrow> nat" where
  "string_prefix s p = (let (count, p') = string_prefix_loop s p 0 in if p' = [] then count else 0)"

function string_match_loop :: "string \<Rightarrow> string \<Rightarrow> string option" where
  "string_match_loop [] sub = None"
| "string_match_loop (c # src) sub =
     (if string_prefix (c # src) sub \<noteq> 0 then Some (c # src)
      else string_match_loop
             (dropWhile (\<lambda>x. \<not> is_alnum x) (dropWhile is_alnum (c # src))) sub)"
  by pat_completeness auto

lemma word_skip_less:
  "length (dropWhile (\<lambda>x. \<not> is_alnum x) (dropWhile is_alnum (c # s))) < Suc (length s)"
  using length_dropWhile_le [of "\<lambda>x. \<not> is_alnum x" "dropWhile is_alnum s"]
    length_dropWhile_le [of is_alnum s] length_dropWhile_le [of "\<lambda>x. \<not> is_alnum x" s]
  by (cases "is_alnum c") auto

termination string_match_loop
  by (relation "measure (\<lambda>(s, _). length s)")
     (simp_all del: dropWhile.simps add: word_skip_less)

definition string_match :: "string option \<Rightarrow> string \<Rightarrow> string option" where
  "string_match src sub =
     (case src of
        None \<Rightarrow> None
      | Some s \<Rightarrow> if sub \<noteq> [] then string_match_loop s sub else None)"

fun prefix_match :: "string \<Rightarrow> string \<Rightarrow> nat" where
  "prefix_match (a # s1) (b # s2) =
     (if ToLower a = ToLower b then Suc (prefix_match s1 s2) else 0)"
| "prefix_match [] [] = 1"
| "prefix_match s1 s2 = 0"

fun minmatch :: "string \<Rightarrow> string \<Rightarrow> int \<Rightarrow> bool" where
  "minmatch (a # str) (b # target) n =
     (if ToLower a = ToLower b then minmatch str target (n - 1) else False)"
| "minmatch (a # str) [] n = False"
| "minmatch [] [] n = True"
| "minmatch [] (b # target) n = (n \<le> 0)"

fun count_chars :: "string option \<Rightarrow> char \<Rightarrow> nat" where
  "count_chars None c = 0"
| "count_chars (Some []) c = 0"
| "count_chars (Some (x # s)) c = (if x = c then 1 else 0) + count_chars (Some s) c"

subsection \<open>Bounded copies\<close>

text \<open>
  The result pairs the C return value with the new contents of the buffer.
  \<open>safe_copy_buf\<close> is called with at most \<open>strlen(src)\<close> bytes to copy.
\<close>

definition safe_copy_buf :: "string \<Rightarrow> nat \<Rightarrow> string \<Rightarrow> nat \<times> string" where
  "safe_copy_buf src nLen buff =
     (let left = LBUF_SIZE - length buff - 1;
          n = (if left < nLen then left else nLen)
      in (n, buff @ take n src))"

fun copy_while_room :: "string \<Rightarrow> string \<Rightarrow> nat \<Rightarrow> string \<times> string" where
  "copy_while_room [] buff mx = ([], buff)"
| "copy_while_room (c # src) buff mx =
     (if length buff < mx then copy_while_room src (buff @ [c]) mx else (c # src, buff))"

definition safe_copy_str :: "string option \<Rightarrow> string \<Rightarrow> nat \<Rightarrow> nat \<times> string" where
  "safe_copy_str src buff mx =
     (case src of
        None \<Rightarrow> (0, buff)
      | Some s \<Rightarrow> (let (rest, buff') = copy_while_room s buff mx in (length rest, buff')))"

definition safe_copy_strmax :: "string option \<Rightarrow> string \<Rightarrow> nat \<Rightarrow> nat \<times> string" where
  "safe_copy_strmax src buff mx =
     (case src of
        None \<Rightarrow> (0, buff)
      | Some s \<Rightarrow>
          (let left = int mx - int (length buff) - int (length s)
           in if left < 1 then (0, buff)
              else (let (rest, buff') = copy_while_room s buff mx in (length rest, buff'))))"

definition safe_copy_chr :: "char \<Rightarrow> string \<Rightarrow> nat \<Rightarrow> nat \<times> string" where
  "safe_copy_chr c buff mx = (if length buff < mx then (0, buff @ [c]) else (1, buff))"

text \<open>The macros of hdrs/alloc.h that the callers use.\<close>

definition safe_str :: "string \<Rightarrow> string \<Rightarrow> string" where
  "safe_str s buff = snd (safe_copy_str (Some s) buff LBUF_MAX)"

definition safe_chr :: "char \<Rightarrow> string \<Rightarrow> string" where
  "safe_chr c buff = snd (safe_copy_chr c buff LBUF_MAX)"

subsection \<open>Replacement\<close>

text \<open>
  \<open>while (*s && *s != *old)\<close>: the scan stops at the first character of \<open>old\<close>; an empty
  \<open>old\<close> has NUL there, which no character of the string equals.
\<close>

fun copy_upto :: "string \<Rightarrow> string \<Rightarrow> string \<Rightarrow> string \<times> string" where
  "copy_upto old [] result = ([], result)"
| "copy_upto old (c # s) result =
     (if old \<noteq> [] \<and> c = hd old then (c # s, result) else copy_upto old s (safe_chr c result))"

lemma copy_upto_length: "length (fst (copy_upto old s r)) \<le> length s"
  by (induction old s r rule: copy_upto.induct) auto

lemma copy_upto_old: "fst (copy_upto old s r) \<noteq> [] \<Longrightarrow> old \<noteq> []"
  by (induction old s r rule: copy_upto.induct) auto

function replace_loop :: "string \<Rightarrow> string \<Rightarrow> bool \<Rightarrow> string \<Rightarrow> string \<Rightarrow> bool \<Rightarrow> string" where
  "replace_loop old new i_value s result i_once =
     (if s = [] then result
      else
        (let (s', r') = copy_upto old s result
         in if s' = [] then r'
            else if \<not> i_once \<and> take (length old) s' = old then
              replace_loop old new i_value (drop (length old) s') (safe_str new r')
                (if i_value then True else i_once)
            else replace_loop old new i_value (tl s') (safe_chr (hd s') r') i_once))"
  by pat_completeness auto
termination
proof (relation "measure (\<lambda>(old, new, iv, s, r, i). length s)", goal_cases)
  case (2 old new iv s r i x s' r')
  then have "length s' \<le> length s" "old \<noteq> []"
    using copy_upto_length [of old s r] copy_upto_old [of old s r] by (auto simp: prod_eq_iff)
  moreover from this have "0 < length old" by simp
  moreover from 2 have "0 < length s" by simp
  ultimately have "length (drop (length old) s') < length s" by (simp only: length_drop)
  then show ?case by simp
next
  case (3 old new iv s r i x s' r')
  then have "length s' \<le> length s"
    using copy_upto_length [of old s r] by (auto simp: prod_eq_iff)
  with 3 show ?case by (cases s') auto
qed simp

declare replace_loop.simps [simp del]

definition replace_string :: "string \<Rightarrow> string \<Rightarrow> string option \<Rightarrow> bool \<Rightarrow> string option" where
  "replace_string old new string i_value =
     map_option (\<lambda>s. replace_loop old new i_value s [] False) string"

definition replace_string_inplace :: "string \<Rightarrow> string \<Rightarrow> string \<Rightarrow> string" where
  "replace_string_inplace old new string = the (replace_string old new (Some string) False)"

text \<open>\<open>replace_tokens\<close>: \<open>##\<close>, \<open>#@\<close> and \<open>#$\<close> stand for the three optional strings.\<close>

function replace_tokens_loop ::
  "string option \<Rightarrow> string option \<Rightarrow> string option \<Rightarrow> string \<Rightarrow> string \<Rightarrow> string" where
  "replace_tokens_loop pBound pListPlace pSwitch s result =
     (if s = [] then result
      else
        (let p = dropWhile (\<lambda>c. c \<noteq> CHR ''#'') s
         in if p \<noteq> [] then
              (let n = length s - length p;
                   r = (if n \<noteq> 0 then snd (safe_copy_buf s n result) else result);
                   c = deref (tl p)
               in if c = CHR ''#'' \<and> pBound \<noteq> None then
                    replace_tokens_loop pBound pListPlace pSwitch (drop 2 p) (safe_str (the pBound) r)
                  else if c = CHR ''@'' \<and> pListPlace \<noteq> None then
                    replace_tokens_loop pBound pListPlace pSwitch (drop 2 p) (safe_str (the pListPlace) r)
                  else if c = CHR ''$'' \<and> pSwitch \<noteq> None then
                    replace_tokens_loop pBound pListPlace pSwitch (drop 2 p) (safe_str (the pSwitch) r)
                  else
                    replace_tokens_loop pBound pListPlace pSwitch (tl p) (safe_chr (hd p) r))
            else safe_str s result))"
  by pat_completeness auto

lemma drop_dropWhile_less: "dropWhile P s \<noteq> [] \<Longrightarrow> 0 < n \<Longrightarrow> length (drop n (dropWhile P s)) < length s"
  using length_dropWhile_le [of P s] by (cases "dropWhile P s") auto

lemma tl_dropWhile_less: "dropWhile P s \<noteq> [] \<Longrightarrow> length (tl (dropWhile P s)) < length s"
  using drop_dropWhile_less [of P s 1] by (simp add: drop_Suc)

termination replace_tokens_loop
  by (relation "measure (\<lambda>(a, b, c, s, r). length s)")
     (auto simp del: length_drop length_tl simp add: drop_dropWhile_less tl_dropWhile_less)

declare replace_tokens_loop.simps [simp del]

definition replace_tokens ::
  "string option \<Rightarrow> string option \<Rightarrow> string option \<Rightarrow> string option \<Rightarrow> string option" where
  "replace_tokens s pBound pListPlace pSwitch =
     map_option (\<lambda>t. replace_tokens_loop pBound pListPlace pSwitch t []) s"

subsection \<open>Exit names\<close>

text \<open>The inner loop of \<open>matches_exit_from_list\<close>: it returns both pointers.\<close>

fun exit_walk :: "string \<Rightarrow> string \<Rightarrow> string \<times> string" where
  "exit_walk (a # s) (b # pattern) =
     (if ToLower a = ToLower b \<and> b \<noteq> CHR '';'' then exit_walk s pattern else (a # s, b # pattern))"
| "exit_walk s pattern = (s, pattern)"

lemma exit_walk_length: "length (snd (exit_walk s p)) \<le> length p"
  by (induction s p rule: exit_walk.induct) auto

text \<open>\<open>while (*pattern && *pattern++ != ';') ;\<close> and the spaces after it.\<close>

fun skip_past_delim :: "string \<Rightarrow> string" where
  "skip_past_delim [] = []"
| "skip_past_delim (c # pattern) = (if c = CHR '';'' then pattern else skip_past_delim pattern)"

lemma skip_past_delim_length: "length (skip_past_delim p) \<le> length p - 1"
  by (induction p) auto

function matches_exit_from_list :: "string \<Rightarrow> string \<Rightarrow> bool" where
  "matches_exit_from_list str pattern =
     (if pattern = [] then False
      else
        (let (s, p) = exit_walk str pattern;
             p1 = (if s = [] then dropWhile is_space p else p)
         in if s = [] \<and> (p1 = [] \<or> hd p1 = CHR '';'') then True
            else matches_exit_from_list str (dropWhile is_space (skip_past_delim p1))))"
  by pat_completeness auto
termination
proof (relation "measure (\<lambda>(s, p). length p)", goal_cases)
  case (2 str pattern x s p p1)
  have "length p1 \<le> length pattern"
    using 2 exit_walk_length [of str pattern] length_dropWhile_le [of is_space p]
    by (auto simp: prod_eq_iff)
  moreover have "length (dropWhile is_space (skip_past_delim p1)) \<le> length p1 - 1"
    using length_dropWhile_le [of is_space "skip_past_delim p1"] skip_past_delim_length [of p1]
    by linarith
  ultimately show ?case using \<open>pattern \<noteq> []\<close> by (cases pattern) auto
qed simp

declare matches_exit_from_list.simps [simp del]

subsection \<open>Printing an integer\<close>

definition itoa_digit :: "int \<Rightarrow> char" where
  "itoa_digit n = char_of (nat (cmod n 10 + 48))"

function itoa_loop :: "int \<Rightarrow> string \<Rightarrow> string" where
  "itoa_loop n buf =
     (let buf' = itoa_digit n # buf; n' = cdiv n 10
      in if n' > 0 then itoa_loop n' buf' else buf')"
  by pat_completeness auto
termination
proof (relation "measure (\<lambda>(n, b). nat n)", goal_cases)
  case (2 n buf b n')
  then have "0 \<le> n" by (auto simp: cdiv_def split: if_splits)
  with 2 have "0 < n div 10" by simp
  then have "nat (n div 10) < nat n" by arith
  with 2 \<open>0 \<le> n\<close> show ?case by simp
qed simp

declare itoa_loop.simps [simp del]

text \<open>\<open>sprintf("%d")\<close>\<close>

definition sprintf_d :: "int \<Rightarrow> string" where
  "sprintf_d n = (if n < 0 then CHR ''-'' # itoa_loop (- n) [] else itoa_loop n [])"

definition myitoa :: "int \<Rightarrow> string" where
  "myitoa n =
     (let m = (if n < 0 then wrap32 (- n) else n);
          ds = itoa_loop m []
      in if n < 0 then CHR ''-'' # ds else ds)"

text \<open>\<open>is_number\<close> and \<open>is_integer\<close> of predicates.c.\<close>

definition is_number :: "string \<Rightarrow> bool" where
  "is_number str =
     (let s1 = dropWhile is_space str;
          minus = (deref s1 = CHR ''-'');
          s2 = (if minus then tl s1 else s1);
          s3 = dropWhile is_digit s2;
          s4 = (if deref s3 = CHR ''.'' then tl s3 else s3);
          got_one = (is_digit (deref s2) \<or> is_digit (deref s4));
          s5 = dropWhile is_space (dropWhile is_digit s4)
      in \<not> (minus \<and> s2 = []) \<and> s5 = [] \<and> got_one)"

definition is_integer :: "string \<Rightarrow> bool" where
  "is_integer str =
     (let s1 = dropWhile is_space str;
          minus = (deref s1 = CHR ''-'');
          s2 = (if minus then tl s1 else s1)
      in \<not> (minus \<and> s2 = []) \<and> is_digit (deref s2) \<and> dropWhile is_space (dropWhile is_digit s2) = [])"

subsection \<open>ANSI codes\<close>

text \<open>
  \<open>translate_string\<close> with a nonzero \<open>type\<close> rewrites ANSI sequences into calls of the
  \<open>ansi()\<close> function and escapes the characters the evaluator would read; with type 0 it
  strips them. \<open>i_keyval\<close> is the state of the translation: 0 outside \<open>[ansi(\<close>, 1 while
  codes are collected, 3 in the text of a call, 4 after a reset code.
\<close>

abbreviation ESC_CHAR :: char where
  "ESC_CHAR \<equiv> CHR 0x1B"

text \<open>The switch over the number of the code.\<close>

definition ansi_letter :: "int \<Rightarrow> char option" where
  "ansi_letter i =
     map_of [(1, CHR ''h''), (5, CHR ''f''), (7, CHR ''i''),
             (30, CHR ''x''), (31, CHR ''r''), (32, CHR ''g''), (33, CHR ''y''),
             (34, CHR ''b''), (35, CHR ''m''), (36, CHR ''c''), (37, CHR ''w''),
             (40, CHR ''X''), (41, CHR ''R''), (42, CHR ''G''), (43, CHR ''Y''),
             (44, CHR ''B''), (45, CHR ''M''), (46, CHR ''C''), (47, CHR ''W'')] i"

definition translate_code :: "int \<Rightarrow> nat \<Rightarrow> string \<Rightarrow> nat \<times> string" where
  "translate_code i k0 b0 =
     (let (k1, b1) = (if k0 = 0 then (1, safe_str ''[ansi('' b0) else (k0, b0));
          (k2, b2) = (if k1 = 3 \<and> i \<noteq> 0 then (1, safe_chr (CHR '','') b1) else (k1, b1));
          (k3, b3) = (if k2 = 4 \<and> i \<noteq> 0 then (1, safe_chr (CHR '','') b2) else (k2, b2))
      in if i = 0 then (if k3 = 4 then 1 else 4, if k3 = 4 then safe_str '',n'' b3 else b3)
         else (case ansi_letter i of Some c \<Rightarrow> (k3, safe_chr c b3) | None \<Rightarrow> (k3, b3)))"

text \<open>What every other character does first to an open call.\<close>

definition translate_flush :: "nat \<Rightarrow> string \<Rightarrow> nat \<times> string" where
  "translate_flush k b =
     (let (k1, b1) = (if k = 1 then (3, safe_chr (CHR '','') b) else (k, b))
      in if k1 = 4 then (0, safe_str '')]'' b1) else (k1, b1))"

text \<open>The text a character other than ESC and carriage return stands for.\<close>

definition translate_plain :: "bool \<Rightarrow> char \<Rightarrow> string \<Rightarrow> string" where
  "translate_plain type c rest =
     (if c = CHR '' '' then (if deref rest = CHR '' '' \<and> type then ''%b'' else '' '')
      else if c = CHR 0x5C then [CHR 0x5C]
      else if c \<in> set ''%[]{}()'' then (if type then [CHR ''%'', c] else [c])
      else if c = CHR 0x0A then (if type then ''%r'' else '' '')
      else if c = CHR 0x09 then (if type then ''%t'' else '' '')
      else [c])"

text \<open>
  \<open>atoi(j + 2)\<close> after \<open>*c = 0\<close>: the digits between the bracket and the \<open>m\<close>; in a
  sequence without a bracket, \<open>j + 2\<close> is already past the \<open>m\<close>.
\<close>

definition code_number :: "string \<Rightarrow> int" where
  "code_number rest =
     (let between = takeWhile (\<lambda>x. x \<noteq> CHR ''m'') rest;
          after = tl (dropWhile (\<lambda>x. x \<noteq> CHR ''m'') rest)
      in if between = [] then atoi after else atoi (tl between))"

function translate_loop :: "bool \<Rightarrow> string \<Rightarrow> nat \<Rightarrow> string \<Rightarrow> nat \<times> string" where
  "translate_loop type [] k b = (k, b)"
| "translate_loop type (c # rest) k b =
     (if c = ESC_CHAR then
        (let m = dropWhile (\<lambda>x. x \<noteq> CHR ''m'') rest
         in if m = [] then translate_loop type rest k (safe_chr c b)
            else if \<not> type then translate_loop type (tl m) k b
            else (let (k', b') = translate_code (code_number rest) k b
                  in translate_loop type (tl m) k' b'))
      else if c = CHR 0x0D then translate_loop type rest k b
      else (let (k', b') = translate_flush k b
            in translate_loop type rest k' (safe_str (translate_plain type c rest) b')))"
  by pat_completeness auto
termination
  by (relation "measure (\<lambda>(t, s, k, b). length s)")
     (auto simp del: length_tl simp add: tl_dropWhile_less less_SucI)

definition translate_string :: "string \<Rightarrow> bool \<Rightarrow> string" where
  "translate_string str type =
     (let (k, b) = translate_loop type (take LBUF_SIZE str) 0 []
      in if k \<noteq> 0 then safe_str '')]'' b else b)"

subsection \<open>What the functions compute\<close>

subsubsection \<open>Spaces\<close>

lemma munge_skip_Cons: "munge_skip (c # s) = dropWhile is_space s"
  by (induction s arbitrary: c) auto

lemma deref_dropWhile_space: "\<not> is_space (deref (dropWhile is_space s))"
  by (induction s) auto

lemma deref_dropWhile_word: "r = dropWhile (\<lambda>x. \<not> is_space x) s \<Longrightarrow> r \<noteq> [] \<Longrightarrow> is_space (deref r)"
  by (induction s) (auto split: if_splits)

lemma munge_skip_at_space: "r = [] \<or> is_space (deref r) \<Longrightarrow> munge_skip r = dropWhile is_space r"
  by (cases r) (auto simp: munge_skip_Cons simp del: munge_skip.simps(2))

lemma munge_skip_word: "munge_skip (dropWhile (\<lambda>x. \<not> is_space x) s) =
    dropWhile is_space (dropWhile (\<lambda>x. \<not> is_space x) s)"
  by (rule munge_skip_at_space) (use deref_dropWhile_word [OF refl] in blast)

lemma munge_loop_eq_trim_loop: "munge_loop s = trim_loop s"
proof (induction s rule: trim_loop.induct)
  case (2 c s)
  define p where "p = dropWhile is_space (dropWhile (\<lambda>x. \<not> is_space x) (c # s))"
  have IH: "p \<noteq> [] \<Longrightarrow> munge_loop p = trim_loop p" using 2 unfolding p_def by blast
  have "munge_loop (c # s) = takeWhile (\<lambda>x. \<not> is_space x) (c # s) @
      (if p \<noteq> [] then CHR '' '' # munge_loop p else [])"
    by (simp only: munge_loop.simps munge_skip_word Let_def p_def)
  moreover have "trim_loop (c # s) = takeWhile (\<lambda>x. \<not> is_space x) (c # s) @
      (if p \<noteq> [] then CHR '' '' # trim_loop p else [])"
    by (simp only: trim_loop.simps Let_def p_def)
  ultimately show ?case using IH by (cases "p = []") (simp_all only: if_True if_False simp_thms)
qed simp

text \<open>
  The canonical form of a text: spaces at the end dropped, every other run of spaces one
  blank, and (with \<open>f = ToLower\<close>) case folded.
\<close>

fun squeeze :: "string \<Rightarrow> string" where
  "squeeze [] = []"
| "squeeze (c # s) =
     (if is_space c then
        (if dropWhile is_space s = [] then [] else
           if is_space (deref s) then squeeze s else CHR '' '' # squeeze s)
      else c # squeeze s)"

lemma squeeze_spaces:
  assumes "is_space c"
  shows "squeeze (c # s) = (let t = dropWhile is_space s in if t = [] then [] else CHR '' '' # squeeze t)"
  using assms by (induction s arbitrary: c) (auto simp: Let_def)

lemma squeeze_word: "squeeze s = takeWhile (\<lambda>x. \<not> is_space x) s @ squeeze (dropWhile (\<lambda>x. \<not> is_space x) s)"
  by (induction s) auto

lemma squeeze_at_space:
  assumes "is_space (deref r)"
  shows "squeeze r = (if dropWhile is_space r = [] then [] else CHR '' '' # squeeze (dropWhile is_space r))"
proof (cases r)
  case (Cons d t)
  then have d: "is_space d" using assms by simp
  show ?thesis unfolding Cons squeeze_spaces [OF d] Let_def using d by simp
qed (use assms in simp)

lemma trim_loop_eq_squeeze: "\<not> is_space (deref s) \<Longrightarrow> trim_loop s = squeeze s"
proof (induction s rule: trim_loop.induct)
  case (2 c s)
  define r where "r = dropWhile (\<lambda>x. \<not> is_space x) (c # s)"
  define p where "p = dropWhile is_space r"
  have IH: "p \<noteq> [] \<Longrightarrow> trim_loop p = squeeze p"
    using "2.IH" deref_dropWhile_space unfolding p_def r_def by blast
  have "trim_loop (c # s) = takeWhile (\<lambda>x. \<not> is_space x) (c # s) @
      (if p \<noteq> [] then CHR '' '' # trim_loop p else [])"
    by (simp only: trim_loop.simps Let_def p_def r_def)
  moreover have "squeeze (c # s) = takeWhile (\<lambda>x. \<not> is_space x) (c # s) @ squeeze r"
    unfolding r_def by (rule squeeze_word)
  moreover have "squeeze r = (if p = [] then [] else CHR '' '' # squeeze p)"
  proof (cases "r = []")
    case False
    then have "is_space (deref r)" by (rule deref_dropWhile_word [OF r_def])
    then show ?thesis unfolding p_def by (rule squeeze_at_space)
  qed (simp add: p_def)
  ultimately show ?case using IH by (cases "p = []") (simp_all only: if_True if_False simp_thms)
qed simp

lemma munge_space_eq_squeeze: "munge_space (Some s) = squeeze (dropWhile is_space s)"
  by (simp add: munge_space_def munge_loop_eq_trim_loop trim_loop_eq_squeeze deref_dropWhile_space)

lemma munge_space_length: "length (munge_space (Some s)) \<le> length s"
proof -
  have "length (squeeze t) \<le> length t" for t
    by (induction t) auto
  then show ?thesis
    unfolding munge_space_eq_squeeze using length_dropWhile_le le_trans by blast
qed

subsubsection \<open>Comparison\<close>

lemma lower_squeeze_eq_Nil: "squeeze s = [] \<longleftrightarrow> dropWhile is_space s = []"
  by (induction s rule: squeeze.induct) auto

lemma squeeze_hd_nonspace: "\<not> is_space c \<Longrightarrow> squeeze (c # s) \<noteq> []"
  by simp

definition compare_outcome :: "string \<times> string \<Rightarrow> int" where
  "compare_outcome ts =
     (let (t1, t2) = ts
      in if t1 \<noteq> [] \<and> t2 \<noteq> [] then 1
         else if is_space (deref t1) then schar (deref (dropWhile is_space t1))
         else if is_space (deref t2) then schar (deref (dropWhile is_space t2))
         else if t1 \<noteq> [] \<or> t2 \<noteq> [] then 1
         else 0)"

lemma string_compare_True:
  "string_compare True s1 s2 =
     compare_outcome (string_compare_loop (dropWhile is_space s1) (dropWhile is_space s2))"
  by (simp add: string_compare_def compare_outcome_def)

lemma schar_deref_0: "cstring s \<Longrightarrow> schar (deref s) = 0 \<longleftrightarrow> s = []"
  by (simp add: schar_NUL_iff deref_NUL_iff)

lemma one_side_outcome:
  assumes "cstring s"
  shows "compare_outcome (s, []) = 0 \<longleftrightarrow> squeeze s = []"
    and "compare_outcome ([], s) = 0 \<longleftrightarrow> squeeze s = []"
proof -
  have *: "schar (deref (dropWhile is_space s)) = 0 \<longleftrightarrow> dropWhile is_space s = []"
    using assms by (intro schar_deref_0 cstring_dropWhile)
  show "compare_outcome (s, []) = 0 \<longleftrightarrow> squeeze s = []"
    unfolding compare_outcome_def lower_squeeze_eq_Nil Let_def using *
    by (cases s) (auto simp del: dropWhile_eq_Nil_conv)
  show "compare_outcome ([], s) = 0 \<longleftrightarrow> squeeze s = []"
    unfolding compare_outcome_def lower_squeeze_eq_Nil Let_def using *
    by (cases s) (auto simp del: dropWhile_eq_Nil_conv)
qed

lemma squeeze_both_spaces:
  assumes "is_space a" "is_space b"
  shows "lower (squeeze (a # s1)) = lower (squeeze (b # s2)) \<longleftrightarrow>
         lower (squeeze (dropWhile is_space s1)) = lower (squeeze (dropWhile is_space s2))"
proof -
  define t1 t2 where "t1 = dropWhile is_space s1" and "t2 = dropWhile is_space s2"
  have nil: "squeeze t = [] \<longleftrightarrow> t = []" if "t = dropWhile is_space s" for t s
    using deref_dropWhile_space [of s] unfolding that [symmetric] by (cases t) auto
  show ?thesis
    unfolding squeeze_spaces [OF assms(1)] squeeze_spaces [OF assms(2)] Let_def
      t1_def [symmetric] t2_def [symmetric]
    using nil [OF t1_def] nil [OF t2_def]
    by (cases "t1 = []"; cases "t2 = []") auto
qed

lemma squeeze_differ:
  assumes "ToLower a \<noteq> ToLower b" "\<not> (is_space a \<and> is_space b)"
  shows "lower (squeeze (a # s1)) \<noteq> lower (squeeze (b # s2))"
proof -
  have ns: "ToLower c \<noteq> CHR '' ''" if "\<not> is_space c" for c
    using that by (metis is_space_ToLower is_space_blank)
  have sp: "lower (squeeze (c # s)) \<noteq> ToLower d # t" if "is_space c" "\<not> is_space d" for c d s t
    unfolding squeeze_spaces [OF that(1)] Let_def using ns [OF that(2)] by auto
  have plain: "lower (squeeze (c # s)) = ToLower c # lower (squeeze s)" if "\<not> is_space c" for c s
    using that by simp
  consider "is_space a" "\<not> is_space b" | "\<not> is_space a" "is_space b" | "\<not> is_space a" "\<not> is_space b"
    using assms(2) by blast
  then show ?thesis
  proof cases
    case 1
    show ?thesis unfolding plain [OF 1(2)] by (rule sp [OF 1])
  next
    case 2
    show ?thesis unfolding plain [OF 2(1)] using sp [OF 2(2) 2(1)] by metis
  next
    case 3
    show ?thesis unfolding plain [OF 3(1)] plain [OF 3(2)] using assms(1) by simp
  qed
qed

lemma string_compare_loop_outcome:
  "cstring s1 \<Longrightarrow> cstring s2 \<Longrightarrow>
     compare_outcome (string_compare_loop s1 s2) = 0 \<longleftrightarrow> lower (squeeze s1) = lower (squeeze s2)"
proof (induction s1 s2 rule: string_compare_loop.induct)
  case (1 a s1 b s2)
  consider (both) "is_space a" "is_space b"
    | (same) "ToLower a = ToLower b" "\<not> is_space a" "\<not> is_space b"
    | (diff) "ToLower a \<noteq> ToLower b" "\<not> (is_space a \<and> is_space b)"
    by (metis is_space_ToLower)
  then show ?case
  proof cases
    case both
    then have "compare_outcome (string_compare_loop (dropWhile is_space s1) (dropWhile is_space s2)) = 0 \<longleftrightarrow>
        lower (squeeze (dropWhile is_space s1)) = lower (squeeze (dropWhile is_space s2))"
      using "1.IH"(1) "1.prems" by (simp add: cstring_dropWhile)
    with both squeeze_both_spaces [OF both] show ?thesis by (simp del: squeeze.simps)
  next
    case same
    with "1.IH"(2) "1.prems" show ?thesis by simp
  next
    case diff
    have "string_compare_loop (a # s1) (b # s2) = (a # s1, b # s2)" using diff by auto
    then show ?thesis using squeeze_differ [OF diff] by (simp add: compare_outcome_def)
  qed
qed (use one_side_outcome in auto)

lemma string_compare_plain_eq_0:
  "cstring s1 \<Longrightarrow> cstring s2 \<Longrightarrow> string_compare_plain s1 s2 = 0 \<longleftrightarrow> lower s1 = lower s2"
proof -
  have nul: "NUL = ToLower (deref s) \<longleftrightarrow> deref s = NUL" for s
    by (metis ToLower_NUL_iff)
  assume "cstring s1" "cstring s2"
  then show ?thesis
    by (induction s1 s2 rule: string_compare_plain.induct) (auto simp: schar_eq_iff deref_NUL_iff nul)
qed

subsubsection \<open>Matching words\<close>

lemma string_prefix_loop_eq:
  "string_prefix_loop s p n =
     (let k = length (takeWhile (\<lambda>(a, b). ToLower a = ToLower b) (zip s p)) in (n + k, drop k p))"
  by (induction s p n rule: string_prefix_loop.induct) (auto simp: Let_def)

lemma zip_takeWhile_prefix:
  "drop (length (takeWhile (\<lambda>(a, b). ToLower a = ToLower b) (zip s p))) p = [] \<longleftrightarrow> prefix (lower p) (lower s)"
proof (induction p arbitrary: s)
  case (Cons b p)
  then show ?case by (cases s) auto
qed simp

lemma string_prefix_eq:
  "string_prefix s p = (if prefix (lower p) (lower s) then length p else 0)"
proof -
  let ?k = "length (takeWhile (\<lambda>(a, b). ToLower a = ToLower b) (zip s p))"
  have "drop ?k p = [] \<Longrightarrow> ?k = length p"
    using length_takeWhile_le [of "\<lambda>(a, b). ToLower a = ToLower b" "zip s p"] by simp
  then show ?thesis
    unfolding string_prefix_def string_prefix_loop_eq Let_def prod.case
    using zip_takeWhile_prefix [of s p] by (simp del: drop_eq_Nil)
qed

text \<open>
  The suffixes of a text at which a word may be matched: the text itself, and every suffix
  that starts a word, that is, whose first character is alphanumeric and follows one that
  is not.
\<close>

fun word_suffixes :: "char option \<Rightarrow> string \<Rightarrow> string list" where
  "word_suffixes prev [] = []"
| "word_suffixes prev (c # s) =
     (if (case prev of None \<Rightarrow> True | Some d \<Rightarrow> is_alnum c \<and> \<not> is_alnum d) then [c # s] else [])
       @ word_suffixes (Some c) s"

lemma word_suffixes_in_word:
  "is_alnum d \<Longrightarrow> word_suffixes (Some d) s = word_suffixes (Some CHR ''a'') (dropWhile is_alnum s)"
proof (induction s arbitrary: d)
  case (Cons c s)
  have a: "is_alnum (CHR ''a'')" by (simp add: is_alnum_def is_alpha_def is_lower_def)
  show ?case
  proof (cases "is_alnum c")
    case True
    with Cons show ?thesis by simp
  next
    case False
    with a Cons.prems show ?thesis by simp
  qed
qed simp

lemma word_suffixes_between:
  "\<not> is_alnum d \<Longrightarrow> word_suffixes (Some d) s = word_suffixes None (dropWhile (\<lambda>x. \<not> is_alnum x) s)"
  by (induction s arbitrary: d) auto

lemma word_suffixes_next:
  "word_suffixes (Some c) s =
     word_suffixes None (dropWhile (\<lambda>x. \<not> is_alnum x) (dropWhile is_alnum (c # s)))"
proof (cases "is_alnum c")
  case True
  then have "word_suffixes (Some c) s = word_suffixes (Some CHR ''a'') (dropWhile is_alnum s)"
    by (rule word_suffixes_in_word)
  also have "\<dots> = word_suffixes None (dropWhile (\<lambda>x. \<not> is_alnum x) (dropWhile is_alnum s))"
  proof (cases "dropWhile is_alnum s")
    case (Cons d t)
    then have "\<not> is_alnum d" using hd_dropWhile [of is_alnum s] by auto
    then show ?thesis unfolding Cons by (simp add: word_suffixes_between)
  next
    case Nil
    show ?thesis unfolding Nil by simp
  qed
  finally show ?thesis using True by simp
qed (simp add: word_suffixes_between)

lemma string_match_loop_find:
  "sub \<noteq> [] \<Longrightarrow> string_match_loop src sub =
     List.find (\<lambda>t. prefix (lower sub) (lower t)) (word_suffixes None src)"
proof (induction src sub rule: string_match_loop.induct)
  case (2 c src sub)
  show ?case
  proof (cases "prefix (lower sub) (lower (c # src))")
    case True
    then have "string_prefix (c # src) sub \<noteq> 0" using "2.prems" by (simp add: string_prefix_eq)
    with True show ?thesis by simp
  next
    case False
    then have "string_prefix (c # src) sub = 0" unfolding string_prefix_eq by (rule if_not_P)
    with False "2.IH" "2.prems" word_suffixes_next [of c src] show ?thesis
      by (simp del: dropWhile.simps lower_simps(2))
  qed
qed simp

subsubsection \<open>Buffers\<close>

lemma copy_while_room_eq:
  "copy_while_room s b mx = (drop (mx - length b) s, b @ take (mx - length b) s)"
proof (induction s b mx rule: copy_while_room.induct)
  case (2 c src b mx)
  then show ?case by (auto simp: Suc_diff_Suc [symmetric] simp del: diff_Suc_Suc)
qed simp

lemma safe_copy_str_eq:
  "safe_copy_str (Some s) b mx = (length s - (mx - length b), b @ take (mx - length b) s)"
  by (simp add: safe_copy_str_def copy_while_room_eq)

text \<open>
  A buffer under the \<open>safe_\<close> macros always holds the first 3998 characters of what was
  written to it.
\<close>

definition cap :: "string \<Rightarrow> string" where
  "cap s = take LBUF_MAX s"

lemma cap_Nil [simp]: "cap [] = []"
  by (simp add: cap_def)

lemma cap_length [bounds_intro]: "length (cap s) \<le> LBUF_MAX"
  by (simp add: cap_def)

lemma safe_str_cap [simp]: "safe_str s (cap b) = cap (b @ s)"
  by (cases "length b \<le> LBUF_MAX") (simp_all add: safe_str_def safe_copy_str_eq cap_def)

lemma safe_chr_cap [simp]: "safe_chr c (cap b) = cap (b @ [c])"
  by (auto simp: safe_chr_def safe_copy_chr_def cap_def take_Cons')

lemma safe_str_eq: "safe_str s b = b @ take (LBUF_MAX - length b) s"
  by (simp add: safe_str_def safe_copy_str_eq)

lemma safe_chr_eq: "safe_chr c b = safe_str [c] b"
  by (auto simp: safe_chr_def safe_copy_chr_def safe_str_eq take_Cons')

subsubsection \<open>Replacement\<close>

text \<open>What \<open>replace_string\<close> means, without buffer and without the scan.\<close>

function replace_spec :: "string \<Rightarrow> string \<Rightarrow> bool \<Rightarrow> string \<Rightarrow> string" where
  "replace_spec old new only_first s =
     (if s = [] then []
      else if old \<noteq> [] \<and> prefix old s then
        new @ (if only_first then drop (length old) s
               else replace_spec old new only_first (drop (length old) s))
      else hd s # replace_spec old new only_first (tl s))"
  by pat_completeness auto
termination
  by (relation "measure (\<lambda>(a, b, f, s). length s)") auto

declare replace_spec.simps [simp del]

lemma copy_upto_cap:
  "copy_upto old s (cap b) =
     (let w = takeWhile (\<lambda>c. \<not> (old \<noteq> [] \<and> c = hd old)) s
      in (dropWhile (\<lambda>c. \<not> (old \<noteq> [] \<and> c = hd old)) s, cap (b @ w)))"
  by (induction s arbitrary: b) (auto simp: Let_def)

lemma replace_spec_skip:
  "\<forall>c\<in>set t. \<not> (old \<noteq> [] \<and> c = hd old) \<Longrightarrow> replace_spec old new f (t @ s) = t @ replace_spec old new f s"
proof (induction t)
  case (Cons c t)
  then have "\<not> (old \<noteq> [] \<and> prefix old ((c # t) @ s))" by (cases old) auto
  then have "replace_spec old new f ((c # t) @ s) = c # replace_spec old new f (t @ s)"
    by (subst replace_spec.simps) auto
  with Cons show ?case by simp
qed simp

lemma replace_spec_scan:
  "replace_spec old new f s =
     takeWhile (\<lambda>c. \<not> (old \<noteq> [] \<and> c = hd old)) s @
     replace_spec old new f (dropWhile (\<lambda>c. \<not> (old \<noteq> [] \<and> c = hd old)) s)"
  using replace_spec_skip [of "takeWhile (\<lambda>c. \<not> (old \<noteq> [] \<and> c = hd old)) s" old new f
      "dropWhile (\<lambda>c. \<not> (old \<noteq> [] \<and> c = hd old)) s"]
  by (auto dest: set_takeWhileD)

lemma prefix_take_iff: "take (length p) s = p \<longleftrightarrow> prefix p s"
  by (metis append_eq_conv_conj prefix_def take_is_prefix)

lemma replace_loop_cap:
  "replace_loop old new iv s (cap b) once =
     cap (b @ (if once then s else replace_spec old new iv s))" if "once \<longrightarrow> iv"
  using that
proof (induction "length s" arbitrary: s b once rule: less_induct)
  case less
  define P where "P = (\<lambda>c. \<not> (old \<noteq> [] \<and> c = hd old))"
  define t s' where "t = takeWhile P s" and "s' = dropWhile P s"
  have s: "s = t @ s'" by (simp add: t_def s'_def)
  have cu: "copy_upto old s (cap b) = (s', cap (b @ t))"
    by (simp add: copy_upto_cap Let_def P_def t_def s'_def)
  have spec: "replace_spec old new iv s = t @ replace_spec old new iv s'"
    unfolding t_def s'_def P_def by (rule replace_spec_scan)
  have step: "replace_loop old new iv s (cap b) once =
      (if s' = [] then cap (b @ t)
       else if \<not> once \<and> prefix old s' then
         replace_loop old new iv (drop (length old) s') (cap (b @ t @ new)) (iv \<or> once)
       else replace_loop old new iv (tl s') (cap (b @ t @ [hd s'])) once)"
  proof (cases "s = []")
    case True
    then show ?thesis by (simp add: replace_loop.simps s'_def t_def)
  next
    case False
    then show ?thesis
      by (subst replace_loop.simps) (auto simp: cu prefix_take_iff)
  qed
  have spec': "replace_spec old new iv s' =
      (if s' = [] then [] else if old \<noteq> [] \<and> prefix old s' then
        new @ (if iv then drop (length old) s' else replace_spec old new iv (drop (length old) s'))
      else hd s' # replace_spec old new iv (tl s'))"
    by (rule replace_spec.simps)
  show ?case
  proof (cases "s' = []")
    case True
    then show ?thesis using s spec spec' step by simp
  next
    case False
    then have ne: "s \<noteq> []" "old \<noteq> []"
      using s copy_upto_old [of old s "cap b"] cu by auto
    have len: "length s' \<le> length s" using s by simp
    show ?thesis
    proof (cases "\<not> once \<and> prefix old s'")
      case True
      have "0 < length old" "0 < length s'" using ne False by simp_all
      then have "length (drop (length old) s') < length s"
        unfolding length_drop using len by linarith
      then have IH: "replace_loop old new iv (drop (length old) s') (cap x) iv =
          cap (x @ (if iv then drop (length old) s' else replace_spec old new iv (drop (length old) s')))" for x
        using less.hyps [of "drop (length old) s'" iv] by blast
      show ?thesis
        using True False ne spec spec' IH [of "b @ t @ new"] step by simp
    next
      case F: False
      obtain c u where cu': "s' = c # u" using False by (cases s') auto
      have "length u < length s" using len cu' by simp
      then have IH: "replace_loop old new iv u (cap x) once =
          cap (x @ (if once then u else replace_spec old new iv u))" for x
        using less.hyps [of u once] less.prems by blast
      show ?thesis
        using F ne spec spec' s IH [of "b @ t @ [c]"] less.prems step unfolding cu'
        by (cases once) auto
    qed
  qed
qed

text \<open>What \<open>replace_tokens\<close> means.\<close>

fun expand_tokens ::
  "string option \<Rightarrow> string option \<Rightarrow> string option \<Rightarrow> string \<Rightarrow> string" where
  "expand_tokens bound place switch [] = []"
| "expand_tokens bound place switch [c] = [c]"
| "expand_tokens bound place switch (c # d # s) =
     (if c = CHR ''#'' \<and> d = CHR ''#'' \<and> bound \<noteq> None then the bound @ expand_tokens bound place switch s
      else if c = CHR ''#'' \<and> d = CHR ''@'' \<and> place \<noteq> None then the place @ expand_tokens bound place switch s
      else if c = CHR ''#'' \<and> d = CHR ''$'' \<and> switch \<noteq> None then the switch @ expand_tokens bound place switch s
      else c # expand_tokens bound place switch (d # s))"

lemma expand_tokens_skip:
  "CHR ''#'' \<notin> set t \<Longrightarrow> expand_tokens b p w (t @ s) = t @ expand_tokens b p w s"
proof (induction t)
  case (Cons c t)
  then show ?case by (cases "t @ s") auto
qed simp

lemma expand_tokens_scan:
  "expand_tokens b p w s = takeWhile (\<lambda>c. c \<noteq> CHR ''#'') s @
     expand_tokens b p w (dropWhile (\<lambda>c. c \<noteq> CHR ''#'') s)"
  using expand_tokens_skip [of "takeWhile (\<lambda>c. c \<noteq> CHR ''#'') s" b p w
      "dropWhile (\<lambda>c. c \<noteq> CHR ''#'') s"]
  by (auto dest: set_takeWhileD)

lemma expand_tokens_hash:
  "expand_tokens b p w (CHR ''#'' # u) =
     (let c = deref u
      in if c = CHR ''#'' \<and> b \<noteq> None then the b @ expand_tokens b p w (drop 1 u)
         else if c = CHR ''@'' \<and> p \<noteq> None then the p @ expand_tokens b p w (drop 1 u)
         else if c = CHR ''$'' \<and> w \<noteq> None then the w @ expand_tokens b p w (drop 1 u)
         else CHR ''#'' # expand_tokens b p w u)"
  by (cases u) (auto simp: Let_def)

text \<open>
  \<open>safe_copy_buf\<close> may fill one character more than the macros allow, so a buffer holds at
  most 3999 characters here, and the text copied is exact as long as it fits.
\<close>

lemma safe_copy_buf_eq:
  "n \<le> length s \<Longrightarrow> snd (safe_copy_buf s n b) = b @ take (min n (LBUF_SIZE - length b - 1)) s"
  by (simp add: safe_copy_buf_def Let_def min_def)

lemma replace_tokens_loop_inv:
  "length b \<le> LBUF_SIZE - 1 \<Longrightarrow>
     length (replace_tokens_loop bd pl sw s b) \<le> LBUF_SIZE - 1 \<and>
     (length (b @ expand_tokens bd pl sw s) \<le> LBUF_MAX \<longrightarrow>
        replace_tokens_loop bd pl sw s b = b @ expand_tokens bd pl sw s)"
proof (induction "length s" arbitrary: s b rule: less_induct)
  case less
  define t p where "t = takeWhile (\<lambda>c. c \<noteq> CHR ''#'') s" and "p = dropWhile (\<lambda>c. c \<noteq> CHR ''#'') s"
  have s: "s = t @ p" by (simp add: t_def p_def)
  have ex: "expand_tokens bd pl sw s = t @ expand_tokens bd pl sw p"
    unfolding t_def p_def by (rule expand_tokens_scan)
  have room: "LBUF_MAX < LBUF_SIZE - 1" by (simp add: LBUF_MAX_def LBUF_SIZE_def)
  show ?case
  proof (cases p)
    case Nil
    have "replace_tokens_loop bd pl sw s b = safe_str s b"
    proof (cases "s = []")
      case True
      then show ?thesis by (simp add: replace_tokens_loop.simps safe_str_eq)
    next
      case False
      then show ?thesis by (subst replace_tokens_loop.simps) (simp add: p_def [symmetric] Nil Let_def)
    qed
    then show ?thesis using s ex Nil less.prems room by (auto simp: safe_str_eq)
  next
    case (Cons h u)
    have h: "h = CHR ''#''" using hd_dropWhile [of "\<lambda>c. c \<noteq> CHR ''#''" s] Cons unfolding p_def [symmetric] by simp
    define r where "r = b @ take (min (length t) (LBUF_SIZE - length b - 1)) t"
    define c where "c = deref u"
    have r: "(if length s - length p \<noteq> 0 then snd (safe_copy_buf s (length s - length p) b) else b) = r"
      using s by (auto simp: r_def safe_copy_buf_eq)
    have step: "replace_tokens_loop bd pl sw s b =
        (if c = CHR ''#'' \<and> bd \<noteq> None then replace_tokens_loop bd pl sw (drop 1 u) (safe_str (the bd) r)
         else if c = CHR ''@'' \<and> pl \<noteq> None then replace_tokens_loop bd pl sw (drop 1 u) (safe_str (the pl) r)
         else if c = CHR ''$'' \<and> sw \<noteq> None then replace_tokens_loop bd pl sw (drop 1 u) (safe_str (the sw) r)
         else replace_tokens_loop bd pl sw u (safe_str ''#'' r))"
      by (subst replace_tokens_loop.simps, unfold p_def [symmetric] Let_def r)
         (use s Cons in \<open>auto simp: c_def h safe_chr_eq\<close>)
    have r_len: "length r \<le> LBUF_SIZE - 1" using less.prems by (auto simp: r_def)
    have r_exact: "length (b @ t) \<le> LBUF_MAX \<Longrightarrow> r = b @ t" using room by (auto simp: r_def)
    have str_len: "length (safe_str x r) \<le> LBUF_SIZE - 1" for x
      using r_len room by (auto simp: safe_str_eq)
    have str_exact: "length (b @ t @ x) \<le> LBUF_MAX \<Longrightarrow> safe_str x r = b @ t @ x" for x
      using r_exact by (auto simp: safe_str_eq)
    have IH: "length (replace_tokens_loop bd pl sw v (safe_str x r)) \<le> LBUF_SIZE - 1 \<and>
        (length (b @ t @ x @ expand_tokens bd pl sw v) \<le> LBUF_MAX \<longrightarrow>
          replace_tokens_loop bd pl sw v (safe_str x r) = b @ t @ x @ expand_tokens bd pl sw v)"
      if "length v \<le> length u" for v x
      using less.hyps [of v "safe_str x r"] str_len [of x] str_exact [of x] that s Cons by auto
    show ?thesis
      unfolding step ex Cons h expand_tokens_hash c_def [symmetric] Let_def
      using IH [of "drop 1 u" "the bd"] IH [of "drop 1 u" "the pl"] IH [of "drop 1 u" "the sw"]
        IH [of u "''#''"]
      by (cases "c = CHR ''#'' \<and> bd \<noteq> None"; cases "c = CHR ''@'' \<and> pl \<noteq> None";
          cases "c = CHR ''$'' \<and> sw \<noteq> None") auto
  qed
qed

subsubsection \<open>Exit names\<close>

text \<open>The names of an exit: the parts between semicolons, without the blanks that start them.\<close>

function exit_names :: "string \<Rightarrow> string list" where
  "exit_names pattern =
     (if pattern = [] then []
      else takeWhile (\<lambda>c. c \<noteq> CHR '';'') pattern #
           exit_names (dropWhile is_space (drop 1 (dropWhile (\<lambda>c. c \<noteq> CHR '';'') pattern))))"
  by pat_completeness auto
termination
proof (relation "measure length", goal_cases)
  case (2 p)
  have "length (dropWhile is_space (drop 1 q)) < length p" if "length q \<le> length p" for q
    using that 2 length_dropWhile_le [of is_space "drop 1 q"] by (cases q; cases p) auto
  then show ?case by (simp add: length_dropWhile_le)
qed simp

declare exit_names.simps [simp del]

definition names_exit :: "string \<Rightarrow> string \<Rightarrow> bool" where
  "names_exit str name \<longleftrightarrow>
     prefix (lower str) (lower name) \<and> (\<forall>c\<in>set (drop (length str) name). is_space c)"

lemma skip_past_delim_eq: "skip_past_delim p = drop 1 (dropWhile (\<lambda>c. c \<noteq> CHR '';'') p)"
  by (induction p) auto

lemma exit_walk_eq:
  "exit_walk s p =
     (let k = length (takeWhile (\<lambda>(a, b). ToLower a = ToLower b)
                        (zip s (takeWhile (\<lambda>c. c \<noteq> CHR '';'') p)))
      in (drop k s, drop k p))"
proof (induction s p rule: exit_walk.induct)
  case (1 a s b p)
  then show ?case by (cases "ToLower a = ToLower b"; cases "b = CHR '';''") (auto simp: Let_def)
qed (auto simp: Let_def)

lemma zip_takeWhile_prefix_left:
  "drop (length (takeWhile (\<lambda>(a, b). ToLower a = ToLower b) (zip s p))) s = [] \<longleftrightarrow> prefix (lower s) (lower p)"
proof (induction s arbitrary: p)
  case (Cons b s)
  then show ?case by (cases p) auto
qed simp

lemma skip_past_delim_drop:
  "k \<le> length (takeWhile (\<lambda>c. c \<noteq> CHR '';'') p) \<Longrightarrow> skip_past_delim (drop k p) = skip_past_delim p"
proof (induction p arbitrary: k)
  case (Cons c p)
  then show ?case by (cases k) (auto split: if_splits)
qed simp

lemma skip_past_delim_spaces: "skip_past_delim (dropWhile is_space p) = skip_past_delim p"
proof (induction p)
  case (Cons c p)
  have "\<not> is_space (CHR '';'')" by (simp add: is_space_def)
  with Cons show ?case by auto
qed simp

lemma rest_all_spaces:
  "(dropWhile is_space p = [] \<or> hd (dropWhile is_space p) = CHR '';'') \<longleftrightarrow>
     (\<forall>c\<in>set (takeWhile (\<lambda>c. c \<noteq> CHR '';'') p). is_space c)"
proof (induction p)
  case (Cons c p)
  have "\<not> is_space (CHR '';'')" by (simp add: is_space_def)
  with Cons show ?case by auto
qed simp

lemma matches_exit_step:
  assumes "pattern \<noteq> []"
  shows "matches_exit_from_list str pattern \<longleftrightarrow>
    names_exit str (takeWhile (\<lambda>c. c \<noteq> CHR '';'') pattern) \<or>
    matches_exit_from_list str (dropWhile is_space (skip_past_delim pattern))"
proof -
  define seg where "seg = takeWhile (\<lambda>c. c \<noteq> CHR '';'') pattern"
  define k where "k = length (takeWhile (\<lambda>(a, b). ToLower a = ToLower b) (zip str seg))"
  have k: "k \<le> length seg" "k \<le> length str"
    using length_takeWhile_le [of "\<lambda>(a, b). ToLower a = ToLower b" "zip str seg"] by (auto simp: k_def)
  have walk: "exit_walk str pattern = (drop k str, drop k pattern)"
    by (simp add: exit_walk_eq seg_def [symmetric] k_def [symmetric] Let_def)
  have full: "drop k str = [] \<longleftrightarrow> prefix (lower str) (lower seg)"
    unfolding k_def by (rule zip_takeWhile_prefix_left)
  have seg_rest: "takeWhile (\<lambda>c. c \<noteq> CHR '';'') (drop k pattern) = drop k seg"
    unfolding seg_def
  proof -
    have "k \<le> length (takeWhile (\<lambda>c. c \<noteq> CHR '';'') pattern)" using k(1) by (simp add: seg_def)
    then show "takeWhile (\<lambda>c. c \<noteq> CHR '';'') (drop k pattern) = drop k (takeWhile (\<lambda>c. c \<noteq> CHR '';'') pattern)"
    proof (induction pattern arbitrary: k)
      case (Cons c p)
      then show ?case by (cases k) (auto split: if_splits)
    qed simp
  qed
  have delim: "skip_past_delim (if drop k str = [] then dropWhile is_space (drop k pattern) else drop k pattern)
      = skip_past_delim pattern"
    using skip_past_delim_drop [of k pattern] k(1) by (simp add: skip_past_delim_spaces seg_def)
  have N: "names_exit str seg \<longleftrightarrow> drop k str = [] \<and>
      (dropWhile is_space (drop k pattern) = [] \<or> hd (dropWhile is_space (drop k pattern)) = CHR '';'')"
  proof (cases "drop k str = []")
    case True
    then have kl: "length str = k" using k(2) by simp
    show ?thesis unfolding names_exit_def full [symmetric] rest_all_spaces seg_rest kl by (rule refl)
  next
    case False
    then show ?thesis unfolding names_exit_def full [symmetric] by blast
  qed
  have M: "matches_exit_from_list str pattern \<longleftrightarrow>
      (drop k str = [] \<and> (dropWhile is_space (drop k pattern) = [] \<or> hd (dropWhile is_space (drop k pattern)) = CHR '';'')) \<or>
      matches_exit_from_list str (dropWhile is_space (skip_past_delim pattern))"
  proof (cases "drop k str = []")
    case True
    with delim have "skip_past_delim (dropWhile is_space (drop k pattern)) = skip_past_delim pattern" by metis
    then show ?thesis using assms True
      by (subst matches_exit_from_list.simps) (simp only: walk Let_def prod.case if_True if_False simp_thms split: if_splits, blast)
  next
    case False
    with delim have "skip_past_delim (drop k pattern) = skip_past_delim pattern" by metis
    then show ?thesis using assms False
      by (subst matches_exit_from_list.simps) (simp only: walk Let_def prod.case if_True if_False simp_thms)
  qed
  show ?thesis unfolding seg_def [symmetric] N M by (rule refl)
qed

lemma matches_exit_iff:
  "matches_exit_from_list str pattern \<longleftrightarrow> (\<exists>name\<in>set (exit_names pattern). names_exit str name)"
proof (induction pattern rule: exit_names.induct)
  case (1 pattern)
  show ?case
  proof (cases "pattern = []")
    case True
    then show ?thesis by (simp add: exit_names.simps matches_exit_from_list.simps)
  next
    case False
    let ?rest = "dropWhile is_space (skip_past_delim pattern)"
    have names: "exit_names pattern = takeWhile (\<lambda>c. c \<noteq> CHR '';'') pattern # exit_names ?rest"
      unfolding skip_past_delim_eq by (subst exit_names.simps) (simp only: False if_False)
    have "matches_exit_from_list str ?rest \<longleftrightarrow> (\<exists>name\<in>set (exit_names ?rest). names_exit str name)"
      using "1.IH" [OF False] by (simp only: skip_past_delim_eq)
    then show ?thesis
      by (simp only: matches_exit_step [OF False] names) simp
  qed
qed

subsubsection \<open>Integers\<close>

lemma itoa_digit:
  assumes "0 \<le> n"
  shows "is_digit (itoa_digit n)" "int (ccode (itoa_digit n)) - 48 = n mod 10"
proof -
  have "0 \<le> n mod 10" "n mod 10 < 10" by simp_all
  then have "nat (n mod 10 + 48) < 256" by linarith
  then have "ccode (itoa_digit n) = nat (n mod 10 + 48)"
    using assms by (simp add: itoa_digit_def)
  then show "is_digit (itoa_digit n)" "int (ccode (itoa_digit n)) - 48 = n mod 10"
    using \<open>0 \<le> n mod 10\<close> \<open>n mod 10 < 10\<close> by (auto simp: is_digit_def)
qed

lemma itoa_loop_digits:
  "0 \<le> n \<Longrightarrow> \<exists>ds. itoa_loop n buf = ds @ buf \<and> ds \<noteq> [] \<and> (\<forall>c\<in>set ds. is_digit c) \<and>
     digits_val 0 ds = n \<and> 10 ^ (length ds - 1) \<le> max 1 n"
proof (induction "nat n" arbitrary: n buf rule: less_induct)
  case less
  note d = itoa_digit [OF less.prems]
  show ?case
  proof (cases "n < 10")
    case True
    have "itoa_loop n buf = [itoa_digit n] @ buf"
      using True less.prems by (simp add: itoa_loop.simps [of n buf] Let_def)
    moreover have "digits_val 0 [itoa_digit n] = n"
      using d True less.prems by simp
    ultimately show ?thesis using d by (intro exI [of _ "[itoa_digit n]"]) auto
  next
    case False
    then have "nat (n div 10) < nat n" "0 \<le> n div 10" "0 < n div 10" by auto
    then obtain ds where ds: "itoa_loop (n div 10) (itoa_digit n # buf) = ds @ itoa_digit n # buf"
      "ds \<noteq> []" "\<forall>c\<in>set ds. is_digit c" "digits_val 0 ds = n div 10" "10 ^ (length ds - 1) \<le> max 1 (n div 10)"
      using less.hyps [of "n div 10" "itoa_digit n # buf"] by blast
    have "itoa_loop n buf = (ds @ [itoa_digit n]) @ buf"
      using ds(1) \<open>0 < n div 10\<close> less.prems by (simp add: itoa_loop.simps [of n buf] Let_def)
    moreover have "digits_val 0 (ds @ [itoa_digit n]) = n"
      using ds(3,4) d by (simp add: digits_val_append)
    moreover have "10 ^ (length (ds @ [itoa_digit n]) - 1) \<le> max 1 n"
    proof -
      have "(10::int) ^ length ds = 10 * 10 ^ (length ds - 1)"
        using ds(2) by (cases ds) auto
      also have "\<dots> \<le> 10 * (n div 10)" using ds(5) \<open>0 < n div 10\<close> by simp
      also have "\<dots> \<le> n" by simp
      finally show ?thesis by simp
    qed
    ultimately show ?thesis using ds d by (intro exI [of _ "ds @ [itoa_digit n]"]) auto
  qed
qed

lemma atoi_digits:
  assumes "ds \<noteq> []" "\<forall>c\<in>set ds. is_digit c"
  shows "atoi ds = clamp32 (digits_val 0 ds)" "atoi (CHR ''-'' # ds) = clamp32 (- digits_val 0 ds)"
proof -
  obtain c t where ds: "ds = c # t" using assms(1) by (cases ds) auto
  have c: "is_digit c" using assms ds by simp
  then have "\<not> is_space c" "c \<noteq> CHR ''-''" "c \<noteq> CHR ''+''"
    by (auto simp: is_digit_def is_space_def)
  then show "atoi ds = clamp32 (digits_val 0 ds)" unfolding atoi_def ds by simp
  show "atoi (CHR ''-'' # ds) = clamp32 (- digits_val 0 ds)"
    by (simp add: atoi_def is_space_def)
qed

lemma clamp32_id: "INT_MIN \<le> n \<Longrightarrow> n \<le> INT_MAX \<Longrightarrow> clamp32 n = n"
  by (simp add: clamp32_def)

text \<open>Numbers that \<open>sprintf\<close> prints.\<close>

lemma sprintf_d_digits:
  assumes "0 \<le> n"
  shows "sprintf_d n \<noteq> []" "\<forall>c\<in>set (sprintf_d n). is_digit c" "n \<le> INT_MAX \<Longrightarrow> atoi (sprintf_d n) = n"
proof -
  from itoa_loop_digits [OF assms, of "[]"] obtain ds where
    ds: "itoa_loop n [] = ds" "ds \<noteq> []" "\<forall>c\<in>set ds. is_digit c" "digits_val 0 ds = n" by auto
  have s: "sprintf_d n = ds" using assms ds(1) by (simp add: sprintf_d_def)
  show "sprintf_d n \<noteq> []" "\<forall>c\<in>set (sprintf_d n). is_digit c" using s ds by simp_all
  assume "n \<le> INT_MAX"
  then show "atoi (sprintf_d n) = n"
    using atoi_digits(1) [OF ds(2,3)] ds(4) assms by (simp add: s clamp32_id INT_MIN_def)
qed

subsubsection \<open>ANSI codes\<close>

text \<open>The text without its ANSI sequences.\<close>

function strip_ansi :: "string \<Rightarrow> string" where
  "strip_ansi [] = []"
| "strip_ansi (c # rest) =
     (if c = ESC_CHAR then
        (let m = dropWhile (\<lambda>x. x \<noteq> CHR ''m'') rest
         in if m = [] then c # strip_ansi rest else strip_ansi (tl m))
      else if c = CHR 0x0D then strip_ansi rest
      else (if c = CHR 0x0A \<or> c = CHR 0x09 then CHR '' '' else c) # strip_ansi rest)"
  by pat_completeness auto
termination
  by (relation "measure length") (auto simp del: length_tl simp add: tl_dropWhile_less less_SucI)

lemma translate_plain_False:
  "translate_plain False c rest = [if c = CHR 0x0A \<or> c = CHR 0x09 then CHR '' '' else c]"
  by (auto simp: translate_plain_def)

lemma translate_loop_strip:
  "type = False \<Longrightarrow> k = 0 \<Longrightarrow> translate_loop type s k (cap b) = (0, cap (b @ strip_ansi s))"
proof (induction s arbitrary: b rule: strip_ansi.induct)
  case (2 c rest)
  let ?m = "dropWhile (\<lambda>x. x \<noteq> CHR ''m'') rest"
  show ?case
  proof (cases "c = ESC_CHAR")
    case True
    show ?thesis
    proof (cases "?m = []")
      case m: True
      have "translate_loop type rest 0 (cap (b @ [c])) = (0, cap ((b @ [c]) @ strip_ansi rest))"
        using 2 True m by blast
      then show ?thesis using True m 2(5,6) by (simp add: Let_def del: dropWhile_eq_Nil_conv)
    next
      case m: False
      have "translate_loop type (tl ?m) 0 (cap b) = (0, cap (b @ strip_ansi (tl ?m)))"
        using 2 True m by blast
      then show ?thesis using True m 2(5,6) by (simp add: Let_def del: dropWhile_eq_Nil_conv)
    qed
  next
    case esc: False
    show ?thesis
    proof (cases "c = CHR 0x0D")
      case True
      with 2 esc show ?thesis by simp
    next
      case False
      then have "translate_loop type rest 0 (cap x) = (0, cap (x @ strip_ansi rest))" for x
        using 2 esc by blast
      then show ?thesis using esc False 2(5,6)
        by (simp add: Let_def translate_flush_def translate_plain_False)
    qed
  qed
qed simp

subsection \<open>Properties\<close>

text \<open>
  \<open>munge_space\<close> and \<open>trim_spaces\<close>, two loops with different pointer steps, are the same
  function; it drops the spaces at both ends and leaves one blank for every run of spaces
  between, and never returns a longer text than it was given.
\<close>

theorem munge_space_trim_spaces:
  "munge_space str = trim_spaces str \<and>
   munge_space str = (case str of None \<Rightarrow> [] | Some s \<Rightarrow> squeeze (dropWhile is_space s)) \<and>
   length (munge_space str) \<le> (case str of None \<Rightarrow> 0 | Some s \<Rightarrow> length s)"
  using munge_space_length
  by (cases str) (simp_all add: munge_space_eq_squeeze trim_spaces_def trim_loop_eq_squeeze
      deref_dropWhile_space, simp add: munge_space_def)

text \<open>
  C31: \<open>string_compare\<close> returns 0 exactly when the two strings agree up to case and, when
  spaces are compressed, up to the number of spaces between words and at both ends.
\<close>

theorem string_compare_eq_0:
  assumes "cstring s1" "cstring s2"
  shows "string_compare space_compress s1 s2 = 0 \<longleftrightarrow>
    (if space_compress then lower (munge_space (Some s1)) = lower (munge_space (Some s2))
     else lower s1 = lower s2)"
  using assms
  by (cases space_compress)
     (simp_all add: string_compare_True string_compare_loop_outcome cstring_dropWhile
        munge_space_eq_squeeze, simp add: string_compare_def string_compare_plain_eq_0)

theorem string_compare_eq_0_witness:
  "string_compare True ''  red  Door'' ''Red door '' = 0 \<and> string_compare True ''reddoor'' ''Red door'' \<noteq> 0"
proof -
  have "cstring ''  red  Door''" "cstring ''Red door ''" "cstring ''reddoor''" "cstring ''Red door''"
    by (simp_all add: cstring_def)
  then show ?thesis
    by (simp add: string_compare_eq_0 munge_space_eq_squeeze is_space_def lower_def ToLower_def is_upper_def char_of_def bit_iff_odd)
qed

text \<open>
  \<open>string_match\<close> finds the first word of the text that starts, up to case, with the
  string asked for, where a word starts at the beginning of the text or at an alphanumeric
  character after one that is not; it finds nothing for the empty string.
\<close>

theorem string_match_finds_word:
  "string_match src sub =
     (if sub = [] then None
      else Option.bind src (\<lambda>s. List.find (\<lambda>t. prefix (lower sub) (lower t)) (word_suffixes None s)))"
  by (cases src) (simp_all add: string_match_def string_match_loop_find)

text \<open>
  C17: \<open>replace_string\<close> returns the text with every occurrence of \<open>old\<close>, found from the left
  without overlap (or only the first one), replaced by \<open>new\<close>, cut to the 3998 characters that
  fit the buffer; an empty \<open>old\<close> changes nothing.
\<close>

theorem replace_string_spec:
  "replace_string old new str i_value =
     map_option (\<lambda>s. take LBUF_MAX (replace_spec old new i_value s)) str"
  using replace_loop_cap [of False i_value old new _ "[]"]
  by (cases str) (simp_all add: replace_string_def cap_def)

text \<open>
  C34: \<open>replace_tokens\<close> never writes more than 3999 characters, and when the text with
  \<open>##\<close>, \<open>#@\<close> and \<open>#$\<close> replaced has at most 3998 of them, it returns that text.
\<close>

theorem replace_tokens_expands:
  assumes "replace_tokens (Some s) bound place switch = Some r"
  shows "length r \<le> LBUF_SIZE - 1 \<and>
    (length (expand_tokens bound place switch s) \<le> LBUF_MAX \<longrightarrow> r = expand_tokens bound place switch s)"
  using assms replace_tokens_loop_inv [of "[]" bound place switch s] by (auto simp: replace_tokens_def)

theorem replace_tokens_expands_witness:
  "replace_tokens (Some ''say ## #x'') (Some ''hi'') None None = Some ''say hi #x''"
proof -
  obtain r where r: "replace_tokens (Some ''say ## #x'') (Some ''hi'') None None = Some r"
    by (simp add: replace_tokens_def)
  have "r = expand_tokens (Some ''hi'') None None ''say ## #x''"
    using replace_tokens_expands [OF r] by (simp add: LBUF_MAX_eq)
  with r show ?thesis by simp
qed

text \<open>
  C30: \<open>matches_exit_from_list\<close> accepts a string exactly when it equals, up to case and
  blanks after it, one of the names that semicolons separate in the exit's name.
\<close>

theorem matches_exit_names:
  "matches_exit_from_list str pattern \<longleftrightarrow> (\<exists>name\<in>set (exit_names pattern). names_exit str name)"
  by (rule matches_exit_iff)

text \<open>
  C35: for every integer except the smallest, \<open>atoi\<close> reads back what \<open>myitoa\<close> prints, and
  the text has at most eleven characters, so the 32-byte buffers of the callers suffice.
\<close>

theorem myitoa_atoi:
  assumes "INT_MIN < n" "n \<le> INT_MAX"
  shows "atoi (myitoa n) = n \<and> length (myitoa n) \<le> 11"
proof -
  define m where "m = (if n < 0 then - n else n)"
  have m: "0 \<le> m" "m \<le> INT_MAX" using assms by (auto simp: m_def INT_MIN_def INT_MAX_def)
  have w: "(if n < 0 then wrap32 (- n) else n) = m"
    using assms by (auto simp: m_def INT_MIN_def INT_MAX_def intro!: wrap32_id)
  from itoa_loop_digits [OF m(1), of "[]"] obtain ds where
    ds: "itoa_loop m [] = ds" "ds \<noteq> []" "\<forall>c\<in>set ds. is_digit c" "digits_val 0 ds = m"
      "10 ^ (length ds - 1) \<le> max 1 m" by auto
  have "max 1 m < (10::int) ^ 10" using m by (simp add: INT_MAX_def)
  then have "(10::int) ^ (length ds - 1) < 10 ^ 10" using ds(5) by (rule order_le_less_trans [rotated])
  then have "length ds - 1 < 10" by (rule power_less_imp_less_exp [rotated]) simp
  then have len: "length ds \<le> 10" by simp
  have eq: "myitoa n = (if n < 0 then CHR ''-'' # ds else ds)"
    by (simp only: myitoa_def Let_def w ds(1))
  have "atoi (myitoa n) = clamp32 n"
  proof (cases "n < 0")
    case True
    then show ?thesis using atoi_digits(2) [OF ds(2,3)] unfolding eq ds(4) by (simp add: m_def)
  next
    case False
    then show ?thesis using atoi_digits(1) [OF ds(2,3)] unfolding eq ds(4) by (simp add: m_def)
  qed
  also have "\<dots> = n" using assms by (simp add: clamp32_id)
  finally show ?thesis using len unfolding eq by (cases "n < 0") simp_all
qed

theorem myitoa_atoi_witness: "atoi (myitoa (- 2147483647)) = - 2147483647"
proof -
  have "INT_MIN < - 2147483647" "- 2147483647 \<le> INT_MAX" by (simp_all add: INT_MIN_def INT_MAX_def)
  then show ?thesis using myitoa_atoi [of "- 2147483647"] by blast
qed

lemma myitoa_INT_MIN: "myitoa INT_MIN = ''-(''"
proof -
  have w: "wrap32 (- INT_MIN) = - 2147483648" by (simp add: wrap32_def INT_MIN_def)
  have "itoa_loop (- 2147483648) [] = [itoa_digit (- 2147483648)]"
    by (subst itoa_loop.simps) (simp add: Let_def cdiv_def)
  moreover have "itoa_digit (- 2147483648) = CHR ''(''" by (simp add: itoa_digit_def cmod_def cdiv_def char_of_def bit_iff_odd)
  ultimately show ?thesis using w by (simp add: myitoa_def Let_def INT_MIN_def)
qed

text \<open>
  With type 0, \<open>translate_string\<close> removes every ANSI sequence (ESC to the next \<open>m\<close>) and
  every carriage return of the first 4000 characters, turns tabs and newlines into blanks,
  keeps every other character in order, and cuts the result at 3998 characters.
\<close>

theorem translate_string_strips:
  "translate_string str False = take LBUF_MAX (strip_ansi (take LBUF_SIZE str))"
  using translate_loop_strip [OF refl refl, of "take LBUF_SIZE str" "[]"]
  by (simp add: translate_string_def cap_def)

end
