(* ===== verification/Htab.thy ===== *)
theory Htab
  imports Prelude
begin

section \<open>Hash tables (src/Server/src/htab.c, src/Server/hdrs/htab.h)\<close>

text \<open>
  The string-keyed and the number-keyed hash tables. A chain, linked through \<open>next\<close> in the
  code, is the list of its entries from the head; \<open>element\<close> is the list of the chains. The
  two tables share the layout of their first fields (the code casts one to the other in
  \<open>nhashinit\<close>), so the record of the string table extends the common one, and so do the
  entries.

  \<open>last_entry\<close> points into a chain: the entry is named by its key, which no two entries of a
  table share; an entry that is freed while the pointer still holds it leaves it dangling.
  The pointer \<open>htab\<close> is never NULL here, a NULL key or NULL data is \<open>None\<close>, and the data of
  an entry is never NULL because \<open>hashadd2\<close> refuses it. The log lines are left out.
\<close>

unbundle bit_operations_syntax

subsection \<open>Data\<close>

record ('k, 'd) hent =
  target :: 'k
  data :: 'd

record 'd HASHENT = "(string, 'd) hent" +
  bIsOriginal :: bool

type_synonym 'd NHSHENT = "(32 word, 'd) hent"

record 'e htable =
  hashsize :: nat
  mask :: "32 word"
  checks :: int
  scans :: int
  max_scan :: int
  hits :: int
  entries :: int
  deletes :: int
  nulls :: int
  element :: "'e list list"

datatype entry_ptr = NULL_entry | Entry string | Dangling

record 'd HASHTAB = "'d HASHENT htable" +
  last_hval :: nat
  last_entry :: entry_ptr
  bOnlyOriginals :: bool

type_synonym 'd NHSHTAB = "'d NHSHENT htable"

subsection \<open>Hashing\<close>

text \<open>\<open>hash = (hash << 5) + hash + *sp\<close> on 32-bit integers, with a signed \<open>char\<close>.\<close>

fun hash_loop :: "32 word \<Rightarrow> string \<Rightarrow> 32 word" where
  "hash_loop hash [] = hash"
| "hash_loop hash (c # sp) = hash_loop (push_bit 5 hash + hash + word_of_int (schar c)) sp"

definition hashval :: "string option \<Rightarrow> 32 word \<Rightarrow> 32 word" where
  "hashval str hashmask = (case str of None \<Rightarrow> 0 | Some s \<Rightarrow> hash_loop 0 s AND hashmask)"

text \<open>
  \<open>for (tsize = 1; tsize < *size; tsize = tsize << 1) ;\<close> The result is the new \<open>*SIZE_PTR\<close> and
  the mask; \<open>None\<close> when the loop does not end.
\<close>

partial_function (option) hashmask_loop :: "32 word \<Rightarrow> 32 word \<Rightarrow> 32 word option" where
  "hashmask_loop tsize siz =
     (if sint tsize < sint siz then hashmask_loop (push_bit 1 tsize) siz else Some tsize)"

definition get_hashmask :: "32 word \<Rightarrow> (32 word \<times> 32 word) option" where
  "get_hashmask siz = map_option (\<lambda>tsize. (tsize, tsize - 1)) (hashmask_loop 1 siz)"

subsection \<open>Whole tables\<close>

definition hashinit :: "('e, 'z) htable_scheme \<Rightarrow> 32 word \<Rightarrow> ('e, 'z) htable_scheme option" where
  "hashinit htab siz =
     (let siz2 = (if sint siz < 0 then 50 else siz)
      in map_option (\<lambda>(tsize, m). htab
           \<lparr> mask := m, hashsize := unat tsize, checks := 0, scans := 0, max_scan := 0, hits := 0,
             entries := 0, deletes := 0, nulls := uint tsize,
             element := replicate (unat tsize) [] \<rparr>)
         (get_hashmask siz2))"

definition hashreset :: "('e, 'z) htable_scheme \<Rightarrow> ('e, 'z) htable_scheme" where
  "hashreset htab = htab \<lparr> checks := 0, scans := 0, hits := 0 \<rparr>"

text \<open>\<open>hashflush\<close> and \<open>nhashflush\<close> are the same code on the two types.\<close>

definition flush_table :: "('e, 'z) htable_scheme \<Rightarrow> 32 word \<Rightarrow> ('e, 'z) htable_scheme option" where
  "flush_table htab siz =
     (let siz2 = (if sint siz < 0 then 50 else siz);
          emptied = htab \<lparr> element := map (\<lambda>_. []) (element htab) \<rparr>
      in if sint siz2 > 0 \<and> siz2 \<noteq> of_nat (hashsize htab) then hashinit emptied siz2
         else Some (emptied \<lparr> checks := 0, scans := 0, max_scan := 0, hits := 0,
                     entries := 0, deletes := 0, nulls := int (hashsize htab) \<rparr>))"

subsection \<open>Chains\<close>

text \<open>The loops over one chain: the search that counts its steps, the removal and the update
  of the first entry that matches.\<close>

fun chain_scan :: "('e \<Rightarrow> bool) \<Rightarrow> 'e list \<Rightarrow> int \<Rightarrow> int \<times> 'e option" where
  "chain_scan P [] numchecks = (numchecks, None)"
| "chain_scan P (hptr # nxt) numchecks =
     (if P hptr then (numchecks + 1, Some hptr) else chain_scan P nxt (numchecks + 1))"

fun chain_unlink :: "('e \<Rightarrow> bool) \<Rightarrow> 'e list \<Rightarrow> 'e list option" where
  "chain_unlink P [] = None"
| "chain_unlink P (hptr # nxt) = (if P hptr then Some nxt else map_option ((#) hptr) (chain_unlink P nxt))"

fun chain_replace :: "('e \<Rightarrow> bool) \<Rightarrow> ('e \<Rightarrow> 'e) \<Rightarrow> 'e list \<Rightarrow> 'e list option" where
  "chain_replace P f [] = None"
| "chain_replace P f (hptr # nxt) =
     (if P hptr then Some (f hptr # nxt) else map_option ((#) hptr) (chain_replace P f nxt))"

text \<open>The part of a lookup that both tables share: scan the chain and keep the statistics.\<close>

definition probe :: "('e \<Rightarrow> bool) \<Rightarrow> nat \<Rightarrow> ('e, 'z) htable_scheme \<Rightarrow> 'e option \<times> ('e, 'z) htable_scheme" where
  "probe P hval htab =
     (let (numchecks, found) = chain_scan P (element htab ! hval) 0;
          h1 = htab \<lparr> scans := scans htab + 1 \<rparr>;
          h2 = (if found \<noteq> None then h1 \<lparr> hits := hits h1 + 1 \<rparr> else h1);
          h3 = (if numchecks > max_scan h2 then h2 \<lparr> max_scan := numchecks \<rparr> else h2)
      in (found, h3 \<lparr> checks := checks h3 + numchecks \<rparr>))"

text \<open>Linking a new entry in at the head of its chain, and unlinking one.\<close>

definition link_entry :: "nat \<Rightarrow> 'e \<Rightarrow> ('e, 'z) htable_scheme \<Rightarrow> ('e, 'z) htable_scheme" where
  "link_entry hval hptr htab = htab
     \<lparr> entries := entries htab + 1,
       nulls := (if element htab ! hval = [] then nulls htab - 1 else nulls htab),
       element := (element htab)[hval := hptr # element htab ! hval] \<rparr>"

definition unlink_entry :: "('e \<Rightarrow> bool) \<Rightarrow> nat \<Rightarrow> ('e, 'z) htable_scheme \<Rightarrow> ('e, 'z) htable_scheme" where
  "unlink_entry P hval htab =
     (case chain_unlink P (element htab ! hval) of
        None \<Rightarrow> htab
      | Some chain \<Rightarrow> htab
          \<lparr> element := (element htab)[hval := chain],
            deletes := deletes htab + 1,
            entries := entries htab - 1,
            nulls := (if chain = [] then nulls htab + 1 else nulls htab) \<rparr>)"

definition replace_entry ::
  "('e \<Rightarrow> bool) \<Rightarrow> ('e \<Rightarrow> 'e) \<Rightarrow> nat \<Rightarrow> ('e, 'z) htable_scheme \<Rightarrow> int \<times> ('e, 'z) htable_scheme" where
  "replace_entry P f hval htab =
     (case chain_replace P f (element htab ! hval) of
        None \<Rightarrow> (0, htab)
      | Some chain \<Rightarrow> (1, htab \<lparr> element := (element htab)[hval := chain] \<rparr>))"

subsection \<open>The string-keyed table\<close>

definition bucket :: "string \<Rightarrow> ('e, 'z) htable_scheme \<Rightarrow> nat" where
  "bucket str htab = unat (hashval (Some str) (mask htab))"

definition hashfind2 :: "string option \<Rightarrow> 'd HASHTAB \<Rightarrow> bool \<Rightarrow> 'd option \<times> 'd HASHTAB" where
  "hashfind2 str htab bNeedOriginal =
     (case str of
        None \<Rightarrow> (None, htab)
      | Some s \<Rightarrow>
          (case probe (\<lambda>e. s = target e \<and> (bNeedOriginal \<longrightarrow> bIsOriginal e)) (bucket s htab) htab of
             (None, h) \<Rightarrow> (None, h)
           | (Some e, h) \<Rightarrow> (Some (data e), h \<lparr> last_entry := Entry (target e) \<rparr>)))"

definition hashfind :: "string option \<Rightarrow> 'd HASHTAB \<Rightarrow> 'd option \<times> 'd HASHTAB" where
  "hashfind str htab = hashfind2 str htab False"

text \<open>\<open>free(hptr)\<close> leaves a \<open>last_entry\<close> that points to the entry dangling.\<close>

definition free_entry :: "string \<Rightarrow> 'd HASHTAB \<Rightarrow> 'd HASHTAB" where
  "free_entry s htab = (if last_entry htab = Entry s then htab \<lparr> last_entry := Dangling \<rparr> else htab)"

definition hashdelete :: "string option \<Rightarrow> 'd HASHTAB \<Rightarrow> 'd HASHTAB" where
  "hashdelete str htab =
     (case str of
        None \<Rightarrow> htab
      | Some s \<Rightarrow>
          (if chain_unlink (\<lambda>e. s = target e) (element htab ! bucket s htab) = None then htab
           else free_entry s (unlink_entry (\<lambda>e. s = target e) (bucket s htab) htab)))"

definition hashadd2 :: "string option \<Rightarrow> 'd option \<Rightarrow> 'd HASHTAB \<Rightarrow> int \<Rightarrow> int \<times> 'd HASHTAB" where
  "hashadd2 str hashdata htab bOriginal =
     (case (str, hashdata) of
        (Some s, Some d) \<Rightarrow>
          (if s = [] \<or> (bOriginal \<noteq> 0 \<and> bOriginal \<noteq> 1) then (0, htab)
           else
             (let (refused, h) =
                (if bOriginal \<noteq> 0 then
                   (let (p, h1) = hashfind2 str htab True
                    in if p \<noteq> None then (True, h1)
                       else (let (q, h2) = hashfind2 str h1 False
                             in (False, if q \<noteq> None then hashdelete str h2 else h2)))
                 else (let (q, h1) = hashfind2 str htab False in (q \<noteq> None, h1)))
              in if refused then (- 1, h)
                 else (0, link_entry (bucket s h)
                            \<lparr> target = s, data = d, bIsOriginal = (bOriginal \<noteq> 0) \<rparr> h)))
      | _ \<Rightarrow> (0, htab))"

definition hashadd :: "string option \<Rightarrow> 'd option \<Rightarrow> 'd HASHTAB \<Rightarrow> int \<times> 'd HASHTAB" where
  "hashadd str hashdata htab = hashadd2 str hashdata htab 0"

definition hashrepl2 :: "string option \<Rightarrow> 'd option \<Rightarrow> 'd HASHTAB \<Rightarrow> int \<Rightarrow> int \<times> 'd HASHTAB" where
  "hashrepl2 str hashdata htab bOriginal =
     (case (str, hashdata) of
        (Some s, Some d) \<Rightarrow>
          (if s = [] \<or> (bOriginal \<noteq> 0 \<and> bOriginal \<noteq> 1) then (0, htab)
           else replace_entry (\<lambda>e. s = target e)
                  (\<lambda>e. e \<lparr> data := d, bIsOriginal := (bOriginal \<noteq> 0) \<rparr>) (bucket s htab) htab)
      | _ \<Rightarrow> (0, htab))"

definition hashrepl :: "string option \<Rightarrow> 'd option \<Rightarrow> 'd HASHTAB \<Rightarrow> int \<times> 'd HASHTAB" where
  "hashrepl str hashdata htab = hashrepl2 str hashdata htab 0"

definition hashflush :: "'d HASHTAB \<Rightarrow> 32 word \<Rightarrow> 'd HASHTAB option" where
  "hashflush htab siz =
     flush_table (case last_entry htab of Entry _ \<Rightarrow> htab \<lparr> last_entry := Dangling \<rparr> | _ \<Rightarrow> htab) siz"

subsection \<open>Iteration\<close>

text \<open>\<open>hash_firstentry2\<close>: the loop over the chains from \<open>hval\<close> on.\<close>

fun firstentry_loop :: "bool \<Rightarrow> 'd HASHENT list list \<Rightarrow> nat \<Rightarrow> (nat \<times> 'd HASHENT) option" where
  "firstentry_loop only [] hval = None"
| "firstentry_loop only (chain # rest) hval =
     (case List.find (\<lambda>e. \<not> only \<or> bIsOriginal e) chain of
        Some e \<Rightarrow> Some (hval, e)
      | None \<Rightarrow> firstentry_loop only rest (Suc hval))"

definition hash_firstentry2 :: "'d HASHTAB \<Rightarrow> int \<Rightarrow> 'd option \<times> 'd HASHTAB" where
  "hash_firstentry2 htab only =
     (if only \<noteq> 0 \<and> only \<noteq> 1 then (None, htab)
      else (case firstentry_loop (only \<noteq> 0) (element htab) 0 of
              None \<Rightarrow> (None, htab)
            | Some (hval, e) \<Rightarrow>
                (Some (data e),
                 htab \<lparr> last_hval := hval, last_entry := Entry (target e), bOnlyOriginals := (only \<noteq> 0) \<rparr>)))"

definition hash_firstentry :: "'d HASHTAB \<Rightarrow> 'd option \<times> 'd HASHTAB" where
  "hash_firstentry htab = hash_firstentry2 htab 0"

text \<open>\<open>while (hval < htab->hashsize)\<close> of \<open>next_hashent\<close>.\<close>

fun next_chain :: "'e list list \<Rightarrow> nat \<Rightarrow> (nat \<times> 'e) option" where
  "next_chain [] hval = None"
| "next_chain (chain # rest) hval =
     (if chain \<noteq> [] then Some (hval, hd chain) else next_chain rest (Suc hval))"

text \<open>
  \<open>next_hashent\<close>. The result is \<open>None\<close> where the code follows a NULL or dangling
  \<open>last_entry\<close>, and otherwise the entry (or NULL) and the table.
\<close>

definition next_hashent :: "'d HASHTAB \<Rightarrow> ('d HASHENT option \<times> 'd HASHTAB) option" where
  "next_hashent htab =
     (case last_entry htab of
        Entry s \<Rightarrow>
          (case dropWhile (\<lambda>e. target e \<noteq> s) (element htab ! bucket s htab) of
             [] \<Rightarrow> None
           | hptr # nxt \<Rightarrow>
               (if nxt \<noteq> [] then
                  Some (Some (hd nxt), htab \<lparr> last_entry := Entry (target (hd nxt)) \<rparr>)
                else
                  (case next_chain (drop (Suc (last_hval htab)) (element htab)) (Suc (last_hval htab)) of
                     None \<Rightarrow> Some (None, htab)
                   | Some (hval, e) \<Rightarrow>
                       Some (Some e, htab \<lparr> last_hval := hval, last_entry := Entry (target e) \<rparr>))))
      | _ \<Rightarrow> None)"

partial_function (option) nextentry_loop ::
  "bool \<Rightarrow> 'd HASHTAB \<Rightarrow> ('d HASHENT option \<times> 'd HASHTAB) option" where
  "nextentry_loop only htab =
     Option.bind (next_hashent htab) (\<lambda>(hptr, h).
       (case hptr of
          None \<Rightarrow> Some (None, h)
        | Some e \<Rightarrow> (if \<not> only \<or> bIsOriginal e then Some (Some e, h) else nextentry_loop only h)))"

definition hash_nextentry :: "'d HASHTAB \<Rightarrow> ('d option \<times> 'd HASHTAB) option" where
  "hash_nextentry htab =
     map_option (\<lambda>(hptr, h). (map_option data hptr, h)) (nextentry_loop (bOnlyOriginals htab) htab)"

subsection \<open>The number-keyed table\<close>

definition nbucket :: "32 word \<Rightarrow> ('e, 'z) htable_scheme \<Rightarrow> nat" where
  "nbucket val htab = unat (val AND mask htab)"

definition nhashfind :: "32 word \<Rightarrow> 'd NHSHTAB \<Rightarrow> 'd option \<times> 'd NHSHTAB" where
  "nhashfind val htab =
     (let (e, h) = probe (\<lambda>e. val = target e) (nbucket val htab) htab in (map_option data e, h))"

definition nhashadd :: "32 word \<Rightarrow> 'd option \<Rightarrow> 'd NHSHTAB \<Rightarrow> int \<times> 'd NHSHTAB" where
  "nhashadd val hashdata htab =
     (case hashdata of
        None \<Rightarrow> (0, htab)
      | Some d \<Rightarrow>
          (let (p, h) = nhashfind val htab
           in if p \<noteq> None then (- 1, h)
              else (0, link_entry (nbucket val h) \<lparr> target = val, data = d \<rparr> h)))"

definition nhashdelete :: "32 word \<Rightarrow> 'd NHSHTAB \<Rightarrow> 'd NHSHTAB" where
  "nhashdelete val htab = unlink_entry (\<lambda>e. val = target e) (nbucket val htab) htab"

definition nhashflush :: "'d NHSHTAB \<Rightarrow> 32 word \<Rightarrow> 'd NHSHTAB option" where
  "nhashflush htab siz = flush_table htab siz"

definition nhashrepl :: "32 word \<Rightarrow> 'd option \<Rightarrow> 'd NHSHTAB \<Rightarrow> int \<times> 'd NHSHTAB" where
  "nhashrepl val hashdata htab =
     (case hashdata of
        None \<Rightarrow> (0, htab)
      | Some d \<Rightarrow> replace_entry (\<lambda>e. target e = val) (\<lambda>e. e \<lparr> data := d \<rparr>) (nbucket val htab) htab)"

subsection \<open>Initial tables\<close>

text \<open>A table before \<open>hashinit\<close>: the tables are fields of static structures, all zero.\<close>

definition blank_table :: "'d HASHTAB" where
  "blank_table = \<lparr> hashsize = 0, mask = 0, checks = 0, scans = 0, max_scan = 0, hits = 0, entries = 0,
     deletes = 0, nulls = 0, element = [], last_hval = 0, last_entry = NULL_entry, bOnlyOriginals = False \<rparr>"

definition blank_ntable :: "'d NHSHTAB" where
  "blank_ntable = \<lparr> hashsize = 0, mask = 0, checks = 0, scans = 0, max_scan = 0, hits = 0, entries = 0,
     deletes = 0, nulls = 0, element = [] \<rparr>"

end
