(* ===== verification/Htab_Laws.thy ===== *)
theory Htab_Laws
  imports Htab
begin

section \<open>Hash tables as finite maps\<close>

text \<open>
  The invariant of a table (every entry in the chain of its hash, keys distinct, the counters
  right), that every operation of htab.c keeps it, and the map the table stands for. The
  interface \<open>map_table\<close> states the laws of a table once; the string-keyed and the
  number-keyed tables are its instances. The last part is about walking a table.
\<close>

subsection \<open>The table invariant\<close>

definition hbucket :: "('k \<Rightarrow> 32 word) \<Rightarrow> 'k \<Rightarrow> ('e, 'z) htable_scheme \<Rightarrow> nat" where
  "hbucket hv k htab = unat (hv k AND mask htab)"

definition placed :: "('k \<Rightarrow> 32 word) \<Rightarrow> 32 word \<Rightarrow> ('k, 'd, 'y) hent_scheme list list \<Rightarrow> bool" where
  "placed hv m elts \<longleftrightarrow>
     (\<forall>i<length elts. distinct (map target (elts ! i)) \<and>
        (\<forall>e\<in>set (elts ! i). unat (hv (target e) AND m) = i))"

definition table_inv :: "('k \<Rightarrow> 32 word) \<Rightarrow> (('k, 'd, 'y) hent_scheme, 'z) htable_scheme \<Rightarrow> bool" where
  "table_inv hv htab \<longleftrightarrow>
     length (element htab) = hashsize htab \<and>
     hashsize htab = Suc (unat (mask htab)) \<and>
     placed hv (mask htab) (element htab) \<and>
     entries htab = int (sum_list (map length (element htab))) \<and>
     nulls htab = int (length (filter (\<lambda>c. c = []) (element htab)))"

text \<open>The map a table stands for: the entry found for a key.\<close>

definition table_map ::
  "('k \<Rightarrow> 32 word) \<Rightarrow> (('k, 'd, 'y) hent_scheme, 'z) htable_scheme \<Rightarrow> 'k \<Rightarrow> ('k, 'd, 'y) hent_scheme option" where
  "table_map hv htab k = List.find (\<lambda>e. target e = k) (element htab ! hbucket hv k htab)"

lemma hbucket_less: "table_inv hv htab \<Longrightarrow> hbucket hv k htab < length (element htab)"
proof -
  assume "table_inv hv htab"
  moreover have "unat (hv k AND mask htab) \<le> unat (mask htab)"
    by (simp add: word_le_nat_alt [symmetric] word_and_le1)
  ultimately show ?thesis by (simp add: table_inv_def hbucket_def)
qed

lemma find_Some_iff_distinct:
  "distinct (map target es) \<Longrightarrow> List.find (\<lambda>e. target e = k) es = Some e \<longleftrightarrow> e \<in> set es \<and> target e = k"
  by (induction es) auto

lemma table_map_Some_iff:
  assumes "table_inv hv htab"
  shows "table_map hv htab k = Some e \<longleftrightarrow> e \<in> set (concat (element htab)) \<and> target e = k"
proof -
  have b: "hbucket hv k htab < length (element htab)" using assms by (rule hbucket_less)
  have "distinct (map target (element htab ! hbucket hv k htab))"
    using assms b by (simp add: table_inv_def placed_def)
  then have 1: "table_map hv htab k = Some e \<longleftrightarrow> e \<in> set (element htab ! hbucket hv k htab) \<and> target e = k"
    by (simp add: table_map_def find_Some_iff_distinct)
  have "e \<in> set (element htab ! hbucket hv (target e) htab)" if "e \<in> set (concat (element htab))"
  proof -
    from that obtain c where c: "c \<in> set (element htab)" "e \<in> set c" by auto
    then obtain i where i: "i < length (element htab)" "e \<in> set (element htab ! i)"
      by (metis in_set_conv_nth)
    then have "unat (hv (target e) AND mask htab) = i" using assms by (auto simp: table_inv_def placed_def)
    with i show ?thesis by (simp add: hbucket_def)
  qed
  with 1 b show ?thesis by auto
qed

lemma chain_scan_eq:
  "snd (chain_scan P es n) = List.find P es"
  "fst (chain_scan P es n) = n + int (case List.find P es of None \<Rightarrow> length es
     | Some _ \<Rightarrow> Suc (length (takeWhile (\<lambda>e. \<not> P e) es)))"
  by (induction es arbitrary: n) (auto split: option.splits)

lemma probe_found: "fst (probe P hval htab) = List.find P (element htab ! hval)"
  by (simp add: probe_def Let_def split_beta chain_scan_eq)

lemma probe_keeps [simp]:
  "element (snd (probe P hval htab)) = element htab"
  "mask (snd (probe P hval htab)) = mask htab"
  "hashsize (snd (probe P hval htab)) = hashsize htab"
  "entries (snd (probe P hval htab)) = entries htab"
  "nulls (snd (probe P hval htab)) = nulls htab"
  "deletes (snd (probe P hval htab)) = deletes htab"
  "htable.more (snd (probe P hval htab)) = htable.more htab"
  by (simp_all add: probe_def Let_def split_beta)

lemma chain_unlink_None: "chain_unlink P es = None \<longleftrightarrow> (\<forall>e\<in>set es. \<not> P e)"
  by (induction es) auto

lemma chain_unlink_Some:
  "chain_unlink P es = Some es' \<Longrightarrow>
     \<exists>xs e ys. es = xs @ e # ys \<and> es' = xs @ ys \<and> P e \<and> (\<forall>x\<in>set xs. \<not> P x)"
proof (induction es arbitrary: es')
  case (Cons a es)
  show ?case
  proof (cases "P a")
    case True
    with Cons.prems show ?thesis by (intro exI [of _ "[]"]) auto
  next
    case False
    with Cons.prems obtain t where t: "chain_unlink P es = Some t" "es' = a # t" by auto
    from Cons.IH [OF t(1)] obtain xs e ys where
      "es = xs @ e # ys \<and> t = xs @ ys \<and> P e \<and> (\<forall>x\<in>set xs. \<not> P x)" by blast
    with False t show ?thesis by (intro exI [of _ "a # xs"]) auto
  qed
qed simp

lemma chain_replace_None: "chain_replace P f es = None \<longleftrightarrow> (\<forall>e\<in>set es. \<not> P e)"
  by (induction es) auto

lemma chain_replace_Some:
  "chain_replace P f es = Some es' \<Longrightarrow>
     \<exists>xs e ys. es = xs @ e # ys \<and> es' = xs @ f e # ys \<and> P e \<and> (\<forall>x\<in>set xs. \<not> P x)"
proof (induction es arbitrary: es')
  case (Cons a es)
  show ?case
  proof (cases "P a")
    case True
    with Cons.prems show ?thesis by (intro exI [of _ "[]"]) auto
  next
    case False
    with Cons.prems obtain t where t: "chain_replace P f es = Some t" "es' = a # t" by auto
    from Cons.IH [OF t(1)] obtain xs e ys where
      "es = xs @ e # ys \<and> t = xs @ f e # ys \<and> P e \<and> (\<forall>x\<in>set xs. \<not> P x)" by blast
    with False t show ?thesis by (intro exI [of _ "a # xs"]) auto
  qed
qed simp


text \<open>Every operation changes one chain; this is what it has to keep.\<close>

lemma table_inv_update:
  assumes inv: "table_inv hv htab" and i: "i < length (element htab)"
    and new: "distinct (map target c)" "\<forall>e\<in>set c. unat (hv (target e) AND mask htab) = i"
    and counts: "n = entries htab + int (length c) - int (length (element htab ! i))"
      "z = nulls htab + (if c = [] then 1 else 0) - (if element htab ! i = [] then 1 else 0)"
  shows "table_inv hv (htab \<lparr> entries := n, nulls := z, element := (element htab)[i := c] \<rparr>)"
proof -
  have "placed hv (mask htab) ((element htab)[i := c])"
    using inv new i by (auto simp: table_inv_def placed_def nth_list_update)
  moreover have "n = int (sum_list (map length ((element htab)[i := c])))"
    using sum_list_update_nat [OF i, of length c] inv counts by (simp add: table_inv_def)
  moreover have "z = int (length (filter (\<lambda>c. c = []) ((element htab)[i := c])))"
    using length_filter_update [OF i, of "\<lambda>c. c = []" c] inv counts
    by (auto simp: table_inv_def split: if_splits)
  ultimately show ?thesis using inv by (simp add: table_inv_def)
qed

lemma table_inv_cong:
  "element h = element g \<Longrightarrow> hashsize h = hashsize g \<Longrightarrow> mask h = mask g \<Longrightarrow>
     entries h = entries g \<Longrightarrow> nulls h = nulls g \<Longrightarrow> table_inv hv h = table_inv hv g"
  by (simp add: table_inv_def)

lemma table_map_cong:
  "element h = element g \<Longrightarrow> mask h = mask g \<Longrightarrow> table_map hv h = table_map hv g"
  by (rule ext) (simp add: table_map_def hbucket_def)

lemma table_map_update_other:
  assumes "hbucket hv k htab \<noteq> i" "element h = (element htab)[i := c]" "mask h = mask htab"
  shows "table_map hv h k = table_map hv htab k"
  using assms by (simp add: table_map_def hbucket_def)

lemma probe_inv [simp]: "table_inv hv (snd (probe P i htab)) = table_inv hv htab"
  by (rule table_inv_cong) simp_all

lemma probe_map [simp]: "table_map hv (snd (probe P i htab)) = table_map hv htab"
  by (rule table_map_cong) simp_all

lemma probe_key:
  "b = hbucket hv k htab \<Longrightarrow> fst (probe (\<lambda>e. target e = k) b htab) = table_map hv htab k"
  by (simp add: probe_found table_map_def)

lemma chain_of_bucket:
  assumes "table_inv hv htab" "b = hbucket hv k htab"
  shows "distinct (map target (element htab ! b))"
    "\<forall>e\<in>set (element htab ! b). unat (hv (target e) AND mask htab) = b"
  using assms hbucket_less [OF assms(1), of k] by (simp_all add: table_inv_def placed_def)

lemma link_entry_correct:
  assumes inv: "table_inv hv htab" and b: "b = hbucket hv (target e) htab"
    and new: "table_map hv htab (target e) = None"
  shows "table_inv hv (link_entry b e htab)"
    "table_map hv (link_entry b e htab) = (table_map hv htab)(target e \<mapsto> e)"
proof -
  have lt: "b < length (element htab)" unfolding b by (rule hbucket_less [OF inv])
  have "\<forall>x\<in>set (element htab ! b). target x \<noteq> target e"
    using new by (simp add: table_map_def b find_None_iff)
  then have d: "distinct (map target (e # element htab ! b))"
    using chain_of_bucket(1) [OF inv b] by auto
  have p: "\<forall>x\<in>set (e # element htab ! b). unat (hv (target x) AND mask htab) = b"
    using chain_of_bucket(2) [OF inv b] by (simp add: b hbucket_def)
  show "table_inv hv (link_entry b e htab)"
    unfolding link_entry_def by (rule table_inv_update [OF inv lt d p]) simp_all
  show "table_map hv (link_entry b e htab) = (table_map hv htab)(target e \<mapsto> e)"
  proof
    fix k
    show "table_map hv (link_entry b e htab) k = ((table_map hv htab)(target e \<mapsto> e)) k"
    proof (cases "hbucket hv k htab = b")
      case True
      with lt show ?thesis by (simp add: table_map_def link_entry_def hbucket_def)
    next
      case False
      then have "k \<noteq> target e" by (auto simp: b)
      with table_map_update_other [OF False, of "link_entry b e htab" "e # element htab ! b"] show ?thesis
        by (simp add: link_entry_def)
    qed
  qed
qed

lemma unlink_entry_correct:
  assumes inv: "table_inv hv htab" and b: "b = hbucket hv k htab"
  shows "table_inv hv (unlink_entry (\<lambda>e. target e = k) b htab)"
    "table_map hv (unlink_entry (\<lambda>e. target e = k) b htab) = (table_map hv htab)(k := None)"
proof -
  have lt: "b < length (element htab)" unfolding b by (rule hbucket_less [OF inv])
  let ?u = "unlink_entry (\<lambda>e. target e = k) b htab"
  have "table_inv hv ?u \<and> table_map hv ?u = (table_map hv htab)(k := None)"
  proof (cases "chain_unlink (\<lambda>e. target e = k) (element htab ! b)")
    case None
    then have "table_map hv htab k = None"
      by (simp add: chain_unlink_None table_map_def b find_None_iff)
    with None inv show ?thesis by (auto simp: unlink_entry_def)
  next
    case (Some c)
    obtain xs e ys where c: "element htab ! b = xs @ e # ys" "c = xs @ ys" "target e = k"
      using chain_unlink_Some [OF Some] by blast
    have d: "distinct (map target c)" "\<forall>x\<in>set c. unat (hv (target x) AND mask htab) = b"
      and notin: "k \<notin> target ` set c"
      using chain_of_bucket [OF inv b] c by auto
    from notin have gone: "\<forall>x\<in>set c. target x \<noteq> k" by blast
    define z where "z = (if c = [] then nulls htab + 1 else nulls htab)"
    define h1 where "h1 = htab \<lparr> entries := entries htab - 1, nulls := z, element := (element htab)[b := c] \<rparr>"
    have u: "?u = h1 \<lparr> deletes := deletes htab + 1 \<rparr>"
      by (simp add: unlink_entry_def Some h1_def z_def)
    have "table_inv hv h1"
      unfolding h1_def by (rule table_inv_update [OF inv lt d]) (auto simp: c z_def)
    moreover have "table_map hv h1 k' = ((table_map hv htab)(k := None)) k'" for k'
    proof (cases "hbucket hv k' htab = b")
      case True
      have "List.find (\<lambda>e. target e = k') (xs @ ys) =
          (if k' = k then None else List.find (\<lambda>e. target e = k') (xs @ e # ys))"
      proof (cases "k' = k")
        case True
        then show ?thesis using gone c by (auto simp: find_None_iff)
      next
        case False
        then show ?thesis using c(3) by (induction xs) auto
      qed
      then show ?thesis using True lt c by (simp add: table_map_def h1_def hbucket_def)
    next
      case False
      then have "k' \<noteq> k" by (auto simp: b)
      with table_map_update_other [OF False, of h1 c] show ?thesis by (simp add: h1_def)
    qed
    ultimately show ?thesis
      unfolding u by (simp add: table_inv_def table_map_def hbucket_def fun_eq_iff)
  qed
  then show "table_inv hv ?u" "table_map hv ?u = (table_map hv htab)(k := None)" by blast+
qed

lemma replace_entry_correct:
  assumes inv: "table_inv hv htab" and b: "b = hbucket hv k htab" and f: "\<And>e. target (f e) = target e"
  shows "table_inv hv (snd (replace_entry (\<lambda>e. target e = k) f b htab))"
    "table_map hv (snd (replace_entry (\<lambda>e. target e = k) f b htab)) =
       (table_map hv htab)(k := map_option f (table_map hv htab k))"
    "fst (replace_entry (\<lambda>e. target e = k) f b htab) = (if table_map hv htab k = None then 0 else 1)"
proof -
  have lt: "b < length (element htab)" unfolding b by (rule hbucket_less [OF inv])
  let ?u = "replace_entry (\<lambda>e. target e = k) f b htab"
  have "table_inv hv (snd ?u) \<and>
      table_map hv (snd ?u) = (table_map hv htab)(k := map_option f (table_map hv htab k)) \<and>
      fst ?u = (if table_map hv htab k = None then 0 else 1)"
  proof (cases "chain_replace (\<lambda>e. target e = k) f (element htab ! b)")
    case None
    then have "table_map hv htab k = None"
      by (simp add: chain_replace_None table_map_def b find_None_iff)
    with None inv show ?thesis by (auto simp: replace_entry_def)
  next
    case (Some c)
    obtain xs e ys where c: "element htab ! b = xs @ e # ys" "c = xs @ f e # ys" "target e = k"
        "\<forall>x\<in>set xs. target x \<noteq> k"
      using chain_replace_Some [OF Some] by blast
    have d: "distinct (map target c)" "\<forall>x\<in>set c. unat (hv (target x) AND mask htab) = b"
      using chain_of_bucket [OF inv b] c f by auto
    have u: "snd ?u = htab \<lparr> entries := entries htab, nulls := nulls htab, element := (element htab)[b := c] \<rparr>"
      by (simp add: replace_entry_def Some)
    have found: "table_map hv htab k = Some e"
      using c find_Some_iff_distinct [OF chain_of_bucket(1) [OF inv b]] by (simp add: table_map_def b [symmetric])
    have "table_inv hv (snd ?u)"
      unfolding u by (rule table_inv_update [OF inv lt d]) (auto simp: c)
    moreover have "table_map hv (snd ?u) k' = ((table_map hv htab)(k := map_option f (table_map hv htab k))) k'" for k'
    proof (cases "hbucket hv k' htab = b")
      case True
      have "List.find (\<lambda>e. target e = k') (xs @ f e # ys) =
          (if k' = k then Some (f e) else List.find (\<lambda>e. target e = k') (xs @ e # ys))"
        using c(3,4) f by (induction xs) auto
      then show ?thesis using True lt c found by (simp add: table_map_def u hbucket_def)
    next
      case False
      then have "k' \<noteq> k" by (auto simp: b)
      with table_map_update_other [OF False, of "snd ?u" c] show ?thesis by (simp add: u)
    qed
    moreover have "fst ?u = 1" by (simp add: replace_entry_def Some)
    ultimately show ?thesis using found by (simp add: fun_eq_iff)
  qed
  then show "table_inv hv (snd ?u)"
    "table_map hv (snd ?u) = (table_map hv htab)(k := map_option f (table_map hv htab k))"
    "fst ?u = (if table_map hv htab k = None then 0 else 1)" by blast+
qed

subsection \<open>The size of a table\<close>

lemma sint_power_2: "k \<le> 30 \<Longrightarrow> sint (2 ^ k :: 32 word) = 2 ^ k"
proof -
  assume "k \<le> 30"
  then have "(2::int) ^ k \<le> 2 ^ 30" by (intro power_increasing) auto
  moreover have "- (2 ^ 31) \<le> (2::int) ^ k" by (rule order_trans [of _ 0]) simp_all
  ultimately show ?thesis using sint_word_of_int [of "2 ^ k"] by simp
qed

lemma hashmask_loop_returns:
  assumes "k \<le> 30" "sint siz \<le> 2 ^ 30" "k = 0 \<or> 2 ^ (k - 1) < sint siz"
  shows "\<exists>m\<le>30. hashmask_loop (2 ^ k) siz = Some (2 ^ m) \<and> sint siz \<le> 2 ^ m \<and>
    (m = 0 \<or> 2 ^ (m - 1) < sint siz)"
  using assms
proof (induction "30 - k" arbitrary: k)
  case 0
  then have k: "k = 30" by simp
  have "sint (2 ^ k :: 32 word) = 2 ^ 30" by (simp add: k)
  with 0 show ?case by (intro exI [of _ 30]) (simp add: k hashmask_loop.simps)
next
  case (Suc n)
  then have k: "k < 30" by simp
  have s: "sint (2 ^ k :: 32 word) = 2 ^ k"
    using k by (intro sint_power_2) simp
  show ?case
  proof (cases "(2::int) ^ k < sint siz")
    case True
    have "push_bit 1 (2 ^ k :: 32 word) = 2 ^ Suc k" by (simp add: push_bit_eq_mult)
    moreover have "\<exists>m\<le>30. hashmask_loop (2 ^ Suc k) siz = Some (2 ^ m) \<and> sint siz \<le> 2 ^ m \<and>
        (m = 0 \<or> 2 ^ (m - 1) < sint siz)"
      using Suc.hyps(1) [of "Suc k"] Suc.hyps(2) Suc.prems k True by simp
    ultimately show ?thesis using True s by (simp add: hashmask_loop.simps [of "2 ^ k"] mult.commute)
  next
    case False
    with Suc.prems s k show ?thesis
      by (intro exI [of _ k]) (simp add: hashmask_loop.simps [of "2 ^ k"])
  qed
qed

text \<open>The values the loop variable takes.\<close>

definition doubling :: "32 word \<Rightarrow> bool" where
  "doubling w \<longleftrightarrow> w = 0 \<or> (\<exists>k\<le>30. w = 2 ^ k) \<or> w = 2 ^ 31"

lemma doubling_step: "doubling w \<Longrightarrow> doubling (push_bit 1 w)"
proof -
  assume "doubling w"
  then consider "w = 0" | k where "k \<le> 30" "w = 2 ^ k" | "w = 2 ^ 31"
    unfolding doubling_def by blast
  then show ?thesis
  proof cases
    case 2
    have p: "push_bit 1 w = 2 ^ Suc k" unfolding 2 by (simp add: push_bit_eq_mult)
    show ?thesis
    proof (cases "k = 30")
      case True
      then show ?thesis unfolding p doubling_def by simp
    next
      case False
      with 2 have "Suc k \<le> 30" by simp
      then show ?thesis unfolding p doubling_def by blast
    qed
  qed (simp_all add: push_bit_eq_mult doubling_def)
qed

lemma doubling_small: "doubling w \<Longrightarrow> sint w \<le> 2 ^ 30"
proof -
  assume "doubling w"
  then consider "w = 0" | k where "k \<le> 30" "w = 2 ^ k" | "w = 2 ^ 31"
    unfolding doubling_def by blast
  then show ?thesis
  proof cases
    case 2
    show ?thesis using power_increasing [OF 2(1), of "2::int"] unfolding 2(2) sint_power_2 [OF 2(1)] by simp
  qed simp_all
qed

lemma hashmask_loop_large:
  "hashmask_loop tsize siz = Some r \<Longrightarrow> sint siz > 2 ^ 30 \<longrightarrow> \<not> doubling tsize"
proof (rule hashmask_loop.raw_induct [where P = "\<lambda>t s _. sint s > 2 ^ 30 \<longrightarrow> \<not> doubling t"])
  fix f t s u
  assume IH: "\<And>t s u. f t s = Some u \<Longrightarrow> 2 ^ 30 < sint s \<longrightarrow> \<not> doubling t"
    and eq: "(if sint t < sint s then f (push_bit 1 t) s else Some t) = Some (u :: 32 word)"
  show "2 ^ 30 < sint s \<longrightarrow> \<not> doubling t"
  proof (intro impI notI)
    assume big: "2 ^ 30 < sint s" and t: "doubling t"
    then have "sint t < sint s" using doubling_small [OF t] by linarith
    then have "f (push_bit 1 t) s = Some u" using eq by simp
    then show False using IH big doubling_step [OF t] by blast
  qed
qed

lemma get_hashmask_returns:
  "sint siz \<le> 2 ^ 30 \<Longrightarrow> \<exists>m\<le>30. get_hashmask siz = Some (2 ^ m, 2 ^ m - 1) \<and>
     sint siz \<le> 2 ^ m \<and> (m = 0 \<or> 2 ^ (m - 1) < sint siz)"
  using hashmask_loop_returns [of 0 siz] by (auto simp: get_hashmask_def)

lemma get_hashmask_None_iff: "get_hashmask siz = None \<longleftrightarrow> sint siz > 2 ^ 30"
proof
  assume "sint siz > 2 ^ 30"
  moreover have "doubling 1" unfolding doubling_def by (rule disjI2, rule disjI1, rule exI [of _ 0]) simp
  ultimately have "hashmask_loop 1 siz \<noteq> Some r" for r using hashmask_loop_large by blast
  then have "hashmask_loop 1 siz = None" by fast
  then show "get_hashmask siz = None" by (simp add: get_hashmask_def)
next
  assume "get_hashmask siz = None"
  then show "sint siz > 2 ^ 30" using get_hashmask_returns [of siz] by force
qed

lemma unat_power_2: "m \<le> 30 \<Longrightarrow> unat (2 ^ m :: 32 word) = 2 ^ m"
proof -
  assume "m \<le> 30"
  then have "(2::nat) ^ m \<le> 2 ^ 30" by (intro power_increasing) auto
  then have "(2::nat) ^ m < 2 ^ LENGTH(32)" by simp
  then have "unat (of_nat (2 ^ m) :: 32 word) = 2 ^ m" by (simp only: unat_of_nat mod_less)
  then show ?thesis by simp
qed

text \<open>A new or flushed table satisfies the invariant and is empty.\<close>

lemma placed_empty: "\<forall>c\<in>set elts. c = [] \<Longrightarrow> placed hv m elts"
  unfolding placed_def by (metis distinct.simps(1) empty_iff empty_set list.map_disc_iff nth_mem)

lemma find_in_empty: "\<forall>c\<in>set elts. c = [] \<Longrightarrow> i < length elts \<Longrightarrow> List.find P (elts ! i) = None"
  by (metis find.simps(1) nth_mem)

lemma sum_list_empty_chains: "\<forall>c\<in>set elts. c = [] \<Longrightarrow> sum_list (map length elts) = 0"
  by (induction elts) auto

lemma filter_empty_chains: "\<forall>c\<in>set elts. c = [] \<Longrightarrow> filter (\<lambda>c. c = []) elts = elts"
  by (induction elts) auto

lemma empty_table_inv:
  assumes "\<forall>c\<in>set (element h). c = []" "length (element h) = hashsize h" "hashsize h = Suc (unat (mask h))"
    "entries h = 0" "nulls h = int (hashsize h)"
  shows "table_inv hv h" "table_map hv h = (\<lambda>_. None)"
proof -
  show inv: "table_inv hv h"
    using assms placed_empty [OF assms(1), of hv "mask h"] sum_list_empty_chains [OF assms(1)]
      filter_empty_chains [OF assms(1)] by (simp add: table_inv_def)
  show "table_map hv h = (\<lambda>_. None)"
    using find_in_empty [OF assms(1) hbucket_less [OF inv]] by (simp add: table_map_def fun_eq_iff)
qed

lemma hashinit_correct:
  assumes "sint siz \<le> 2 ^ 30"
  shows "\<exists>h m. hashinit htab siz = Some h \<and> table_inv hv h \<and> table_map hv h = (\<lambda>_. None) \<and>
    hashsize h = 2 ^ m \<and> int (hashsize h) \<ge> sint siz"
proof -
  define siz2 where "siz2 = (if sint siz < 0 then 50 else siz)"
  have "sint siz2 \<le> 2 ^ 30" and le: "sint siz \<le> sint siz2" using assms by (auto simp: siz2_def)
  then obtain m where m: "m \<le> 30" "get_hashmask siz2 = Some (2 ^ m, 2 ^ m - 1)" "sint siz2 \<le> 2 ^ m"
    using get_hashmask_returns by blast
  define h where "h = htab \<lparr> mask := 2 ^ m - 1, hashsize := unat (2 ^ m :: 32 word), checks := 0, scans := 0,
      max_scan := 0, hits := 0, entries := 0, deletes := 0, nulls := uint (2 ^ m :: 32 word),
      element := replicate (unat (2 ^ m :: 32 word)) [] \<rparr>"
  have h: "hashinit htab siz = Some h" by (simp add: hashinit_def siz2_def [symmetric] m(2) h_def)
  have u: "unat (2 ^ m :: 32 word) = 2 ^ m" using m(1) by (rule unat_power_2)
  have "(2 ^ m :: 32 word) \<noteq> 0" using u by (metis unat_0 power_eq_0_iff zero_neq_numeral)
  then have p: "Suc (unat (2 ^ m - 1 :: 32 word)) = unat (2 ^ m :: 32 word)" by (simp add: unat_minus_one u)
  have e: "\<forall>c\<in>set (element h). c = []" "length (element h) = hashsize h"
    "hashsize h = Suc (unat (mask h))" "entries h = 0" "nulls h = int (hashsize h)"
    using p by (simp_all add: h_def)
  have "int (hashsize h) \<ge> sint siz" using m(3) le by (simp add: h_def u)
  then show ?thesis using h empty_table_inv [OF e] u by (auto simp: h_def)
qed

lemma flush_table_correct:
  assumes "table_inv hv htab" "sint siz \<le> 2 ^ 30"
  shows "\<exists>h. flush_table htab siz = Some h \<and> table_inv hv h \<and> table_map hv h = (\<lambda>_. None)"
proof -
  define siz2 where "siz2 = (if sint siz < 0 then 50 else siz)"
  define e where "e = htab \<lparr> element := map (\<lambda>_. []) (element htab) \<rparr>"
  show ?thesis
  proof (cases "sint siz2 > 0 \<and> siz2 \<noteq> of_nat (hashsize htab)")
    case True
    have "sint siz2 \<le> 2 ^ 30" using assms(2) by (auto simp: siz2_def)
    from hashinit_correct [OF this, of e hv] True show ?thesis
      by (auto simp: flush_table_def Let_def siz2_def [symmetric] e_def [symmetric])
  next
    case False
    define h where "h = e \<lparr> checks := 0, scans := 0, max_scan := 0, hits := 0,
       entries := 0, deletes := 0, nulls := int (hashsize htab) \<rparr>"
    have "flush_table htab siz = Some h"
      using False by (auto simp: flush_table_def Let_def siz2_def [symmetric] e_def [symmetric] h_def)
    moreover have "\<forall>c\<in>set (element h). c = []" "length (element h) = hashsize h"
      "hashsize h = Suc (unat (mask h))" "entries h = 0" "nulls h = int (hashsize h)"
      using assms(1) by (auto simp: h_def e_def table_inv_def)
    ultimately show ?thesis using empty_table_inv [of h] by blast
  qed
qed

subsection \<open>The string-keyed table as a map\<close>

text \<open>The hash before the mask.\<close>

abbreviation str_hash :: "string \<Rightarrow> 32 word" where
  "str_hash \<equiv> hash_loop 0"

lemma bucket_hbucket: "bucket s htab = hbucket str_hash s htab"
  by (simp add: bucket_def hbucket_def hashval_def)

lemma flip_target: "(\<lambda>e. k = target e) = (\<lambda>e. target e = k)"
  by auto

definition str_inv :: "'d HASHTAB \<Rightarrow> bool" where
  "str_inv htab \<longleftrightarrow> table_inv str_hash htab"

definition str_map :: "'d HASHTAB \<Rightarrow> string \<Rightarrow> ('d \<times> bool) option" where
  "str_map htab s = map_option (\<lambda>e. (data e, bIsOriginal e)) (table_map str_hash htab s)"

lemma str_inv_cursor [simp]: "str_inv (htab \<lparr> last_entry := p \<rparr>) = str_inv htab"
  by (simp add: str_inv_def table_inv_def)

lemma str_map_cursor [simp]: "str_map (htab \<lparr> last_entry := p \<rparr>) = str_map htab"
  by (simp add: str_map_def table_map_def hbucket_def fun_eq_iff)

lemma free_entry_keeps [simp]: "str_inv (free_entry s htab) = str_inv htab" "str_map (free_entry s htab) = str_map htab"
  by (simp_all add: free_entry_def)

lemma find_key_and:
  "distinct (map target es) \<Longrightarrow> List.find (\<lambda>e. k = target e \<and> Q e) es =
     (case List.find (\<lambda>e. target e = k) es of None \<Rightarrow> None | Some e \<Rightarrow> if Q e then Some e else None)"
proof (induction es)
  case (Cons a es)
  show ?case
  proof (cases "target a = k")
    case True
    moreover have "target a \<notin> target ` set es" using Cons.prems by simp
    ultimately have "\<forall>e\<in>set es. target e \<noteq> k" by blast
    then have "List.find (\<lambda>e. k = target e \<and> Q e) es = None" by (auto simp: find_None_iff)
    with True show ?thesis by simp
  next
    case False
    then show ?thesis using Cons by simp
  qed
qed simp

lemma hashfind2_correct:
  assumes inv: "str_inv htab"
  shows "fst (hashfind2 (Some s) htab need) =
      (case str_map htab s of Some (d, orig) \<Rightarrow> if need \<longrightarrow> orig then Some d else None | None \<Rightarrow> None)"
    "str_inv (snd (hashfind2 str htab need))"
    "str_map (snd (hashfind2 str htab need)) = str_map htab"
proof -
  have d: "distinct (map target (element htab ! bucket s htab))" for s
    using inv chain_of_bucket(1) bucket_hbucket unfolding str_inv_def by metis
  have f: "fst (probe (\<lambda>e. s = target e \<and> (need \<longrightarrow> bIsOriginal e)) (bucket s htab) htab) =
      (case table_map str_hash htab s of None \<Rightarrow> None
       | Some e \<Rightarrow> if need \<longrightarrow> bIsOriginal e then Some e else None)" for s
    unfolding probe_found find_key_and [OF d] by (simp add: table_map_def bucket_hbucket)
  show "fst (hashfind2 (Some s) htab need) =
      (case str_map htab s of Some (d, orig) \<Rightarrow> if need \<longrightarrow> orig then Some d else None | None \<Rightarrow> None)"
    using f [of s]
    by (cases "table_map str_hash htab s"; cases need)
      (auto simp: hashfind2_def str_map_def split: option.splits prod.splits if_splits)
  have keep: "str_inv (snd (probe P b htab)) = str_inv htab" "str_map (snd (probe P b htab)) = str_map htab" for P b
    by (simp_all add: str_inv_def str_map_def fun_eq_iff)
  have "str_inv (snd (hashfind2 str htab need)) \<and> str_map (snd (hashfind2 str htab need)) = str_map htab"
  proof (cases str)
    case (Some t)
    obtain r h where p: "probe (\<lambda>e. t = target e \<and> (need \<longrightarrow> bIsOriginal e)) (bucket t htab) htab = (r, h)"
      by fastforce
    have "str_inv h" "str_map h = str_map htab"
      using keep [of "\<lambda>e. t = target e \<and> (need \<longrightarrow> bIsOriginal e)" "bucket t htab"] inv unfolding p by simp_all
    then show ?thesis by (simp add: hashfind2_def Some p split: option.split)
  qed (simp add: hashfind2_def inv)
  then show "str_inv (snd (hashfind2 str htab need))" "str_map (snd (hashfind2 str htab need)) = str_map htab"
    by blast+
qed

lemma hashfind2_pair:
  assumes "str_inv htab" "hashfind2 (Some s) htab need = (p, h)"
  shows "str_inv h" "str_map h = str_map htab"
    "p \<noteq> None \<longleftrightarrow> (\<exists>d orig. str_map htab s = Some (d, orig) \<and> (need \<longrightarrow> orig))"
  using hashfind2_correct(1) [OF assms(1), of s need] hashfind2_correct(2,3) [OF assms(1), of "Some s" need] assms(2)
  by (auto split: option.splits if_splits)

lemma str_map_update:
  "table_map str_hash h = (table_map str_hash htab)(s := e) \<Longrightarrow>
     str_map h = (str_map htab)(s := map_option (\<lambda>e. (data e, bIsOriginal e)) e)"
  by (auto simp: str_map_def fun_eq_iff)

lemma hashdelete_correct:
  assumes "str_inv htab"
  shows "str_inv (hashdelete (Some s) htab)" "str_map (hashdelete (Some s) htab) = (str_map htab)(s := None)"
proof -
  let ?u = "unlink_entry (\<lambda>e. target e = s) (bucket s htab) htab"
  have u: "str_inv ?u" "str_map ?u = (str_map htab)(s := None)"
    using unlink_entry_correct [of str_hash htab "bucket s htab" s] assms str_map_update [of ?u htab s None]
    by (simp_all add: bucket_hbucket str_inv_def)
  have "?u = htab" if "chain_unlink (\<lambda>e. target e = s) (element htab ! bucket s htab) = None"
    by (simp add: unlink_entry_def that)
  then show "str_inv (hashdelete (Some s) htab)" "str_map (hashdelete (Some s) htab) = (str_map htab)(s := None)"
    using u by (auto simp: hashdelete_def flip_target)
qed

lemma link_str_entry:
  assumes "str_inv h" "str_map h s = None"
  shows "str_inv (link_entry (bucket s h) \<lparr> target = s, data = d, bIsOriginal = orig \<rparr> h)"
    "str_map (link_entry (bucket s h) \<lparr> target = s, data = d, bIsOriginal = orig \<rparr> h) = (str_map h)(s \<mapsto> (d, orig))"
proof -
  let ?e = "\<lparr> target = s, data = d, bIsOriginal = orig \<rparr>"
  have "table_map str_hash h (target ?e) = None" using assms(2) by (simp add: str_map_def)
  from link_entry_correct [OF _ _ this, of "bucket s h"] assms(1)
  show "str_inv (link_entry (bucket s h) ?e h)" "str_map (link_entry (bucket s h) ?e h) = (str_map h)(s \<mapsto> (d, orig))"
    using str_map_update [of "link_entry (bucket s h) ?e h" h s "Some ?e"]
    by (simp_all add: str_inv_def bucket_hbucket)
qed

text \<open>Every branch of \<open>hashadd2\<close>: the returned code and the map afterwards.\<close>

definition add_spec ::
  "string option \<Rightarrow> 'd option \<Rightarrow> int \<Rightarrow> (string \<Rightarrow> ('d \<times> bool) option) \<Rightarrow> int \<times> (string \<Rightarrow> ('d \<times> bool) option)" where
  "add_spec str hashdata bOriginal m =
     (case (str, hashdata) of
        (Some s, Some d) \<Rightarrow>
          if s = [] \<or> bOriginal \<notin> {0, 1} then (0, m)
          else if (if bOriginal = 1 then (\<exists>x. m s = Some (x, True)) else m s \<noteq> None) then (- 1, m)
          else (0, m(s \<mapsto> (d, bOriginal = 1)))
      | _ \<Rightarrow> (0, m))"

lemma hashadd2_correct:
  assumes inv: "str_inv htab"
  shows "str_inv (snd (hashadd2 str hashdata htab b)) \<and>
    (fst (hashadd2 str hashdata htab b), str_map (snd (hashadd2 str hashdata htab b))) =
      add_spec str hashdata b (str_map htab)"
proof -
  consider (bad) "str = None \<or> str = Some [] \<or> hashdata = None \<or> b \<notin> {0, 1}"
    | (orig) s d where "str = Some s" "s \<noteq> []" "hashdata = Some d" "b = 1"
    | (plain) s d where "str = Some s" "s \<noteq> []" "hashdata = Some d" "b = 0"
    by (cases str; cases hashdata) auto
  then show ?thesis
  proof cases
    case bad
    then show ?thesis
      using inv by (auto simp: hashadd2_def add_spec_def split: option.split)
  next
    case orig
    obtain p h1 where f1: "hashfind2 (Some s) htab True = (p, h1)" by fastforce
    obtain q h2 where f2: "hashfind2 (Some s) h1 False = (q, h2)" by fastforce
    note 1 = hashfind2_pair [OF inv f1]
    note 2 = hashfind2_pair [OF 1(1) f2]
    have q: "q = None \<longleftrightarrow> str_map htab s = None" using 1(2) 2(3) by (cases "str_map htab s") auto
    define h3 where "h3 = (if q \<noteq> None then hashdelete (Some s) h2 else h2)"
    have 3: "str_inv h3" "str_map h3 = (str_map htab)(s := None)"
      using 1(2) 2 hashdelete_correct [OF 2(1), of s] q
      by (auto simp: h3_def fun_upd_idem)
    then have "str_map h3 s = None" by simp
    note l = link_str_entry [OF 3(1) this, of d True]
    have "hashadd2 str hashdata htab b = (if p \<noteq> None then (- 1, h1)
        else (0, link_entry (bucket s h3) \<lparr> target = s, data = d, bIsOriginal = True \<rparr> h3))"
      using orig by (simp add: hashadd2_def f1 f2 h3_def Let_def)
    then show ?thesis
      using orig 1 3 l by (cases "\<exists>x. str_map htab s = Some (x, True)") (auto simp: add_spec_def)
  next
    case plain
    obtain q h1 where f1: "hashfind2 (Some s) htab False = (q, h1)" by fastforce
    note 1 = hashfind2_pair [OF inv f1]
    have "hashadd2 str hashdata htab b = (if q \<noteq> None then (- 1, h1)
        else (0, link_entry (bucket s h1) \<lparr> target = s, data = d, bIsOriginal = False \<rparr> h1))"
      using plain by (simp add: hashadd2_def f1)
    then show ?thesis
      using plain 1 link_str_entry [OF 1(1), of s d False] by (cases "str_map htab s") (auto simp: add_spec_def)
  qed
qed

lemma hashrepl2_correct:
  assumes inv: "str_inv htab" and args: "s \<noteq> []" "b \<in> {0, 1}"
  shows "str_inv (snd (hashrepl2 (Some s) (Some d) htab b))"
    "str_map (snd (hashrepl2 (Some s) (Some d) htab b)) =
       (if str_map htab s = None then str_map htab else (str_map htab)(s \<mapsto> (d, b = 1)))"
    "fst (hashrepl2 (Some s) (Some d) htab b) = (if str_map htab s = None then 0 else 1)"
proof -
  let ?f = "\<lambda>e. e \<lparr> data := d, bIsOriginal := (b \<noteq> 0) \<rparr>"
  let ?u = "replace_entry (\<lambda>e. target e = s) ?f (bucket s htab) htab"
  have r: "hashrepl2 (Some s) (Some d) htab b = ?u"
    using args by (auto simp: hashrepl2_def flip_target)
  have inv': "table_inv str_hash htab" using inv by (simp add: str_inv_def)
  note c = replace_entry_correct [OF inv' bucket_hbucket, of ?f]
  show "str_inv (snd (hashrepl2 (Some s) (Some d) htab b))"
    using c(1) by (simp add: r str_inv_def)
  show "str_map (snd (hashrepl2 (Some s) (Some d) htab b)) =
       (if str_map htab s = None then str_map htab else (str_map htab)(s \<mapsto> (d, b = 1)))"
    using str_map_update [OF c(2)] args(2) unfolding r
    by (auto simp: str_map_def fun_eq_iff)
  show "fst (hashrepl2 (Some s) (Some d) htab b) = (if str_map htab s = None then 0 else 1)"
    using c(3) by (simp add: r str_map_def)
qed

subsection \<open>The number-keyed table as a map\<close>

definition num_inv :: "'d NHSHTAB \<Rightarrow> bool" where
  "num_inv htab \<longleftrightarrow> table_inv (\<lambda>v. v) htab"

definition num_map :: "'d NHSHTAB \<Rightarrow> 32 word \<Rightarrow> 'd option" where
  "num_map htab v = map_option data (table_map (\<lambda>v. v) htab v)"

lemma nbucket_hbucket: "nbucket v htab = hbucket (\<lambda>v. v) v htab"
  by (simp add: nbucket_def hbucket_def)

lemma num_map_update:
  "table_map (\<lambda>v. v) h = (table_map (\<lambda>v. v) htab)(k := e) \<Longrightarrow> num_map h = (num_map htab)(k := map_option data e)"
  by (auto simp: num_map_def fun_eq_iff)

lemma nhashfind_correct:
  assumes "num_inv htab"
  shows "fst (nhashfind v htab) = num_map htab v" "num_inv (snd (nhashfind v htab))"
    "num_map (snd (nhashfind v htab)) = num_map htab"
  using assms probe_key [OF nbucket_hbucket, of v htab]
  by (simp_all add: nhashfind_def split_beta num_map_def num_inv_def flip_target fun_eq_iff)

lemma nhashadd_correct:
  assumes inv: "num_inv htab"
  shows "num_inv (snd (nhashadd v (Some d) htab))"
    "num_map (snd (nhashadd v (Some d) htab)) = (if num_map htab v = None then (num_map htab)(v \<mapsto> d) else num_map htab)"
    "fst (nhashadd v (Some d) htab) = (if num_map htab v = None then 0 else - 1)"
proof -
  obtain q h where f: "nhashfind v htab = (q, h)" by fastforce
  have 1: "q = num_map htab v" "num_inv h" "num_map h = num_map htab"
    using nhashfind_correct [OF inv, of v] by (simp_all add: f)
  let ?e = "\<lparr> target = v, data = d \<rparr>"
  have a: "nhashadd v (Some d) htab = (if q \<noteq> None then (- 1, h) else (0, link_entry (nbucket v h) ?e h))"
    by (simp add: nhashadd_def f)
  have l: "num_inv (link_entry (nbucket v h) ?e h)"
    "num_map (link_entry (nbucket v h) ?e h) = (num_map h)(v \<mapsto> d)" if "num_map htab v = None"
  proof -
    have "table_map (\<lambda>v. v) h (target ?e) = None" using that 1(3) [symmetric] by (simp add: num_map_def)
    from link_entry_correct [OF _ _ this, of "nbucket v h"] 1(2)
    show "num_inv (link_entry (nbucket v h) ?e h)" "num_map (link_entry (nbucket v h) ?e h) = (num_map h)(v \<mapsto> d)"
      using num_map_update [of "link_entry (nbucket v h) ?e h" h v "Some ?e"]
      by (simp_all add: num_inv_def nbucket_hbucket)
  qed
  show "num_inv (snd (nhashadd v (Some d) htab))"
    "num_map (snd (nhashadd v (Some d) htab)) = (if num_map htab v = None then (num_map htab)(v \<mapsto> d) else num_map htab)"
    "fst (nhashadd v (Some d) htab) = (if num_map htab v = None then 0 else - 1)"
    using 1 l unfolding a by (auto)
qed

lemma nhashdelete_correct:
  assumes "num_inv htab"
  shows "num_inv (nhashdelete v htab)" "num_map (nhashdelete v htab) = (num_map htab)(v := None)"
  using unlink_entry_correct [OF _ nbucket_hbucket, of htab v] assms
    num_map_update [of "nhashdelete v htab" htab v None]
  by (simp_all add: num_inv_def nhashdelete_def flip_target)

lemma nhashrepl_correct:
  assumes inv: "num_inv htab"
  shows "num_inv (snd (nhashrepl v (Some d) htab))"
    "num_map (snd (nhashrepl v (Some d) htab)) = (if num_map htab v = None then num_map htab else (num_map htab)(v \<mapsto> d))"
    "fst (nhashrepl v (Some d) htab) = (if num_map htab v = None then 0 else 1)"
proof -
  let ?f = "\<lambda>e. e \<lparr> data := d \<rparr>"
  let ?u = "replace_entry (\<lambda>e. target e = v) ?f (nbucket v htab) htab"
  have r: "nhashrepl v (Some d) htab = ?u" by (simp add: nhashrepl_def)
  have inv': "table_inv (\<lambda>v. v) htab" using inv by (simp add: num_inv_def)
  note c = replace_entry_correct [OF inv' nbucket_hbucket, of ?f]
  show "num_inv (snd (nhashrepl v (Some d) htab))" using c(1) by (simp add: r num_inv_def)
  show "num_map (snd (nhashrepl v (Some d) htab)) = (if num_map htab v = None then num_map htab else (num_map htab)(v \<mapsto> d))"
    using num_map_update [OF c(2)] unfolding r by (auto simp: num_map_def fun_eq_iff)
  show "fst (nhashrepl v (Some d) htab) = (if num_map htab v = None then 0 else 1)"
    using c(3) by (simp add: r num_map_def)
qed

subsection \<open>The interface of a table\<close>

datatype ('k, 'v) table_op = Find 'k | Add 'k 'v | Delete 'k | Replace 'k 'v

datatype 'v outcome = Found "'v option" | Code int | Done

fun op_key :: "('k, 'v) table_op \<Rightarrow> 'k" where
  "op_key (Find k) = k"
| "op_key (Add k v) = k"
| "op_key (Delete k) = k"
| "op_key (Replace k v) = k"

text \<open>One call on a table and one step of a finite map.\<close>

fun table_step ::
  "('k \<Rightarrow> 't \<Rightarrow> 'v option \<times> 't) \<Rightarrow> ('k \<Rightarrow> 'v \<Rightarrow> 't \<Rightarrow> int \<times> 't) \<Rightarrow> ('k \<Rightarrow> 't \<Rightarrow> 't) \<Rightarrow>
   ('k \<Rightarrow> 'v \<Rightarrow> 't \<Rightarrow> int \<times> 't) \<Rightarrow> ('k, 'v) table_op \<Rightarrow> 't \<Rightarrow> 'v outcome \<times> 't" where
  "table_step lookup add delete repl (Find k) t = (let (r, t') = lookup k t in (Found r, t'))"
| "table_step lookup add delete repl (Add k v) t = (let (r, t') = add k v t in (Code r, t'))"
| "table_step lookup add delete repl (Delete k) t = (Done, delete k t)"
| "table_step lookup add delete repl (Replace k v) t = (let (r, t') = repl k v t in (Code r, t'))"

fun map_step :: "('k, 'v) table_op \<Rightarrow> ('k \<Rightarrow> 'v option) \<Rightarrow> 'v outcome \<times> ('k \<Rightarrow> 'v option)" where
  "map_step (Find k) m = (Found (m k), m)"
| "map_step (Add k v) m = (if m k = None then (Code 0, m(k \<mapsto> v)) else (Code (- 1), m))"
| "map_step (Delete k) m = (Done, m(k := None))"
| "map_step (Replace k v) m = (if m k = None then (Code 0, m) else (Code 1, m(k \<mapsto> v)))"

text \<open>
  What a client of a table relies on: under an invariant that every operation keeps, the
  operations are those of a finite map.
\<close>

locale map_table =
  fixes good :: "'t \<Rightarrow> bool"
    and model :: "'t \<Rightarrow> 'k \<Rightarrow> 'v option"
    and key_ok :: "'k \<Rightarrow> bool"
    and lookup :: "'k \<Rightarrow> 't \<Rightarrow> 'v option \<times> 't"
    and add :: "'k \<Rightarrow> 'v \<Rightarrow> 't \<Rightarrow> int \<times> 't"
    and delete :: "'k \<Rightarrow> 't \<Rightarrow> 't"
    and repl :: "'k \<Rightarrow> 'v \<Rightarrow> 't \<Rightarrow> int \<times> 't"
  assumes lookup_result: "good t \<Longrightarrow> fst (lookup k t) = model t k"
    and lookup_keeps: "good t \<Longrightarrow> good (snd (lookup k t)) \<and> model (snd (lookup k t)) = model t"
    and add_new: "good t \<Longrightarrow> key_ok k \<Longrightarrow> model t k = None \<Longrightarrow>
      fst (add k v t) = 0 \<and> good (snd (add k v t)) \<and> model (snd (add k v t)) = (model t)(k \<mapsto> v)"
    and add_old: "good t \<Longrightarrow> key_ok k \<Longrightarrow> model t k \<noteq> None \<Longrightarrow>
      fst (add k v t) = - 1 \<and> good (snd (add k v t)) \<and> model (snd (add k v t)) = model t"
    and delete_removes: "good t \<Longrightarrow> good (delete k t) \<and> model (delete k t) = (model t)(k := None)"
    and repl_old: "good t \<Longrightarrow> key_ok k \<Longrightarrow> model t k \<noteq> None \<Longrightarrow>
      fst (repl k v t) = 1 \<and> good (snd (repl k v t)) \<and> model (snd (repl k v t)) = (model t)(k \<mapsto> v)"
    and repl_new: "good t \<Longrightarrow> key_ok k \<Longrightarrow> model t k = None \<Longrightarrow>
      fst (repl k v t) = 0 \<and> good (snd (repl k v t)) \<and> model (snd (repl k v t)) = model t"
begin

abbreviation step :: "('k, 'v) table_op \<Rightarrow> 't \<Rightarrow> 'v outcome \<times> 't" where
  "step \<equiv> table_step lookup add delete repl"

lemma step_refines:
  assumes "good t" "key_ok (op_key x)"
  shows "good (snd (step x t)) \<and> map_step x (model t) = (fst (step x t), model (snd (step x t)))"
proof (cases x)
  case (Add k v)
  with assms add_new [of t k v] add_old [of t k v] show ?thesis
    by (cases "model t k") (simp_all add: split_beta)
next
  case (Replace k v)
  with assms repl_new [of t k v] repl_old [of t k v] show ?thesis
    by (cases "model t k") (simp_all add: split_beta)
qed (use assms lookup_result lookup_keeps delete_removes in \<open>simp_all add: split_beta\<close>)

lemma run_refines:
  "good t \<Longrightarrow> \<forall>x\<in>set xs. key_ok (op_key x) \<Longrightarrow>
     good (snd (run_ops step xs t)) \<and>
     run_ops map_step xs (model t) = (fst (run_ops step xs t), model (snd (run_ops step xs t)))"
proof (induction xs arbitrary: t)
  case (Cons x xs)
  then have x: "good (snd (step x t))" "map_step x (model t) = (fst (step x t), model (snd (step x t)))"
    using step_refines [of t x] by auto
  from Cons.IH [OF x(1)] Cons.prems(2) show ?case by (simp add: x(2) split_beta Let_def)
qed simp

text \<open>A key that was added is found, whatever is done to the other keys.\<close>

lemma map_run_other:
  "\<forall>x\<in>set xs. op_key x \<noteq> k \<Longrightarrow> snd (run_ops map_step xs m) k = m k"
proof (induction xs arbitrary: m)
  case (Cons x xs)
  have "snd (map_step x m) k = m k" using Cons.prems by (cases x) auto
  with Cons show ?case by (simp add: split_beta Let_def)
qed simp

lemma find_after_others:
  assumes "good t" "\<forall>x\<in>set xs. key_ok (op_key x) \<and> op_key x \<noteq> k"
  shows "fst (lookup k (snd (run_ops step xs t))) = model t k"
proof -
  have r: "good (snd (run_ops step xs t))"
    "run_ops map_step xs (model t) = (fst (run_ops step xs t), model (snd (run_ops step xs t)))"
    using run_refines [OF assms(1), of xs] assms(2) by auto
  have "model (snd (run_ops step xs t)) k = model t k"
    using map_run_other [of xs k "model t"] assms(2) r(2) by simp
  then show ?thesis using lookup_result [OF r(1)] by simp
qed

end

abbreviation str_step :: "(string, 'd) table_op \<Rightarrow> 'd HASHTAB \<Rightarrow> 'd outcome \<times> 'd HASHTAB" where
  "str_step \<equiv> table_step (\<lambda>k. hashfind (Some k)) (\<lambda>k d. hashadd (Some k) (Some d))
     (\<lambda>k. hashdelete (Some k)) (\<lambda>k d. hashrepl (Some k) (Some d))"

abbreviation num_step :: "(32 word, 'd) table_op \<Rightarrow> 'd NHSHTAB \<Rightarrow> 'd outcome \<times> 'd NHSHTAB" where
  "num_step \<equiv> table_step nhashfind (\<lambda>k d. nhashadd k (Some d)) nhashdelete (\<lambda>k d. nhashrepl k (Some d))"

definition str_data :: "'d HASHTAB \<Rightarrow> string \<Rightarrow> 'd option" where
  "str_data htab s = map_option fst (str_map htab s)"

lemma hashadd_correct:
  assumes "str_inv t" "k \<noteq> []"
  shows "str_inv (snd (hashadd (Some k) (Some v) t))"
    "str_map (snd (hashadd (Some k) (Some v) t)) = (if str_map t k = None then (str_map t)(k \<mapsto> (v, False)) else str_map t)"
    "fst (hashadd (Some k) (Some v) t) = (if str_map t k = None then 0 else - 1)"
  using hashadd2_correct [OF assms(1), of "Some k" "Some v" 0] assms(2)
  by (auto simp: hashadd_def add_spec_def split: if_splits)

interpretation strtab: map_table str_inv str_data "\<lambda>k. k \<noteq> []" "\<lambda>k. hashfind (Some k)"
  "\<lambda>k d. hashadd (Some k) (Some d)" "\<lambda>k. hashdelete (Some k)" "\<lambda>k d. hashrepl (Some k) (Some d)"
proof (unfold_locales, goal_cases)
  case (1 t k)
  then show ?case
    using hashfind2_correct(1) [of t k False] by (simp add: hashfind_def str_data_def split: option.splits)
next
  case (2 t k)
  then show ?case using hashfind2_correct(2,3) [of t "Some k" False] by (simp add: hashfind_def str_data_def fun_eq_iff)
next
  case (3 t k v)
  then show ?case using hashadd_correct [of t k v] by (simp add: str_data_def fun_eq_iff)
next
  case (4 t k v)
  then show ?case using hashadd_correct [of t k v] by (simp add: str_data_def fun_eq_iff)
next
  case (5 t k)
  then show ?case using hashdelete_correct [of t k] by (simp add: str_data_def fun_eq_iff)
next
  case (6 t k v)
  then show ?case using hashrepl2_correct [of t k 0 v] by (simp add: hashrepl_def str_data_def fun_eq_iff)
next
  case (7 t k v)
  then show ?case using hashrepl2_correct [of t k 0 v] by (simp add: hashrepl_def str_data_def fun_eq_iff)
qed

interpretation numtab: map_table num_inv num_map "\<lambda>_. True" nhashfind "\<lambda>k d. nhashadd k (Some d)"
  nhashdelete "\<lambda>k d. nhashrepl k (Some d)"
  by unfold_locales
    (simp_all add: nhashfind_correct nhashadd_correct nhashdelete_correct nhashrepl_correct)

text \<open>The counter \<open>entries\<close> is the number of keys.\<close>

lemma distinct_targets:
  assumes "table_inv hv htab"
  shows "distinct (map target (concat (element htab)))"
proof -
  have "distinct (map target (concat elts))"
    if "\<forall>i<length elts. distinct (map target (elts ! i)) \<and> (\<forall>e\<in>set (elts ! i). f (target e) = i + d)"
    for f :: "_ \<Rightarrow> nat" and d elts
    using that
  proof (induction elts arbitrary: d)
    case (Cons c elts)
    have "distinct (map target (concat elts))"
      using Cons.prems by (intro Cons.IH [of "Suc d"]) (auto dest: spec [of _ "Suc _"])
    moreover have "\<forall>e\<in>set c. f (target e) = d" "distinct (map target c)" using Cons.prems by force+
    moreover have "\<forall>e\<in>set (concat elts). f (target e) \<noteq> d"
    proof
      fix e assume "e \<in> set (concat elts)"
      then obtain i where "i < length elts" "e \<in> set (elts ! i)" by (metis UN_E in_set_conv_nth set_concat)
      then have "f (target e) = Suc i + d" using Cons.prems [rule_format, of "Suc i"] by simp
      then show "f (target e) \<noteq> d" by simp
    qed
    ultimately show ?case by (auto simp: image_iff) metis+
  qed simp
  from this [of "element htab" "\<lambda>k. unat (hv k AND mask htab)" 0] assms show ?thesis
    by (simp add: table_inv_def placed_def)
qed

lemma entries_card:
  assumes "table_inv hv htab"
  shows "finite (dom (table_map hv htab))" "entries htab = int (card (dom (table_map hv htab)))"
proof -
  have d: "dom (table_map hv htab) = set (map target (concat (element htab)))"
    using table_map_Some_iff [OF assms] by (auto simp: dom_def)
  then show "finite (dom (table_map hv htab))" by simp
  have "entries htab = int (length (concat (element htab)))"
    using assms by (simp add: table_inv_def length_concat)
  also have "length (concat (element htab)) = card (set (map target (concat (element htab))))"
    using distinct_card [OF distinct_targets [OF assms]] by simp
  finally show "entries htab = int (card (dom (table_map hv htab)))" by (simp only: d)
qed

subsection \<open>Walking a table\<close>

text \<open>
  The callers' loop \<open>for (x = hash_firstentry2(htab, b); x; x = hash_nextentry(htab))\<close>; the
  fuel bounds the number of calls, and \<open>None\<close> says that it ran out or that a call did not
  return.
\<close>

fun walk_rest :: "nat \<Rightarrow> 'd HASHTAB \<Rightarrow> 'd list option" where
  "walk_rest 0 htab = None"
| "walk_rest (Suc fuel) htab =
     (case hash_nextentry htab of
        None \<Rightarrow> None
      | Some (None, h) \<Rightarrow> Some []
      | Some (Some d, h) \<Rightarrow> map_option ((#) d) (walk_rest fuel h))"

definition hash_walk :: "nat \<Rightarrow> 'd HASHTAB \<Rightarrow> int \<Rightarrow> 'd list option" where
  "hash_walk fuel htab only =
     (case hash_firstentry2 htab only of
        (None, h) \<Rightarrow> Some []
      | (Some d, h) \<Rightarrow> map_option ((#) d) (walk_rest fuel h))"

text \<open>What is still to come: the rest of the cursor's chain and the chains after it.\<close>

definition cursor_at :: "'d HASHTAB \<Rightarrow> 'd HASHENT \<Rightarrow> bool" where
  "cursor_at htab e \<longleftrightarrow> last_entry htab = Entry (target e) \<and> last_hval htab = bucket (target e) htab \<and>
     e \<in> set (element htab ! last_hval htab)"

definition to_come :: "'d HASHTAB \<Rightarrow> 'd HASHENT \<Rightarrow> 'd HASHENT list" where
  "to_come htab e =
     tl (dropWhile (\<lambda>x. target x \<noteq> target e) (element htab ! last_hval htab)) @
     concat (drop (Suc (last_hval htab)) (element htab))"

definition same_table :: "'d HASHTAB \<Rightarrow> 'd HASHTAB \<Rightarrow> bool" where
  "same_table h htab \<longleftrightarrow> element h = element htab \<and> mask h = mask htab \<and> hashsize h = hashsize htab \<and>
     entries h = entries htab \<and> nulls h = nulls htab \<and> bOnlyOriginals h = bOnlyOriginals htab"

lemma same_table_inv: "same_table h htab \<Longrightarrow> str_inv h = str_inv htab"
  by (simp add: same_table_def str_inv_def table_inv_def)

lemma next_chain_None: "next_chain elts n = None \<longleftrightarrow> concat elts = []"
  by (induction elts n rule: next_chain.induct) auto

lemma next_chain_Some:
  "next_chain elts n = Some (i, e) \<Longrightarrow>
     n \<le> i \<and> i - n < length elts \<and> elts ! (i - n) \<noteq> [] \<and> hd (elts ! (i - n)) = e \<and>
     concat elts = elts ! (i - n) @ concat (drop (Suc (i - n)) elts)"
proof (induction elts n rule: next_chain.induct)
  case (2 c elts n)
  show ?case
  proof (cases "c = []")
    case True
    with 2 have "Suc n \<le> i" "i - Suc n < length elts" "elts ! (i - Suc n) \<noteq> []" "hd (elts ! (i - Suc n)) = e"
      "concat elts = elts ! (i - Suc n) @ concat (drop (Suc (i - Suc n)) elts)" by auto
    moreover from this(1) have "i - n = Suc (i - Suc n)" by simp
    ultimately show ?thesis using True by simp
  next
    case False
    with 2 show ?thesis by simp
  qed
qed simp

lemma drop_after_target:
  assumes "distinct (map target es)" "dropWhile (\<lambda>x. target x \<noteq> k) es = y # z # zs"
  shows "z \<in> set es" "dropWhile (\<lambda>x. target x \<noteq> target z) es = z # zs"
proof -
  define xs where "xs = takeWhile (\<lambda>x. target x \<noteq> k) es"
  have es: "es = xs @ y # z # zs" using assms(2) by (metis takeWhile_dropWhile_id xs_def)
  then show "z \<in> set es" by simp
  have "\<forall>x\<in>set (xs @ [y]). target x \<noteq> target z" using assms(1) unfolding es by (auto simp: image_iff)
  then show "dropWhile (\<lambda>x. target x \<noteq> target z) es = z # zs"
    using dropWhile_append2 [of "xs @ [y]" "\<lambda>x. target x \<noteq> target z" "z # zs"] unfolding es by simp
qed

lemma next_hashent_step:
  assumes inv: "str_inv htab" and at: "cursor_at htab e"
  shows "case to_come htab e of
      [] \<Rightarrow> next_hashent htab = Some (None, htab)
    | e' # rest \<Rightarrow> \<exists>h. next_hashent htab = Some (Some e', h) \<and> same_table h htab \<and>
        cursor_at h e' \<and> to_come h e' = rest"
proof -
  define b where "b = last_hval htab"
  have e: "last_entry htab = Entry (target e)" "bucket (target e) htab = b" "e \<in> set (element htab ! b)"
    using at by (auto simp: cursor_at_def b_def)
  have lt: "b < length (element htab)"
    using hbucket_less [of str_hash htab "target e"] inv e(2) by (simp add: str_inv_def bucket_hbucket)
  have chain: "distinct (map target (element htab ! i))"
    "\<forall>x\<in>set (element htab ! i). bucket (target x) htab = i" if "i < length (element htab)" for i
    using inv that by (auto simp: str_inv_def table_inv_def placed_def bucket_hbucket hbucket_def)
  obtain hp nxt where d: "dropWhile (\<lambda>x. target x \<noteq> target e) (element htab ! b) = hp # nxt"
    using e(3) by (cases "dropWhile (\<lambda>x. target x \<noteq> target e) (element htab ! b)") auto
  have come: "to_come htab e = nxt @ concat (drop (Suc b) (element htab))"
    by (simp add: to_come_def b_def [symmetric] d)
  show ?thesis
  proof (cases nxt)
    case (Cons z zs)
    define h where "h = htab \<lparr> last_entry := Entry (target z) \<rparr>"
    note z = drop_after_target [OF chain(1) [OF lt] d [unfolded Cons]]
    have "next_hashent htab = Some (Some z, h)"
      by (simp add: next_hashent_def e d Cons h_def)
    moreover have "cursor_at h z"
      using z(1) chain(2) [OF lt] by (simp add: cursor_at_def h_def b_def [symmetric] bucket_def)
    moreover have "to_come h z = zs @ concat (drop (Suc b) (element htab))"
      using z(2) by (simp add: to_come_def h_def b_def [symmetric])
    moreover have "same_table h htab" by (simp add: same_table_def h_def)
    ultimately show ?thesis by (simp add: come Cons)
  next
    case Nil
    show ?thesis
    proof (cases "next_chain (drop (Suc b) (element htab)) (Suc b)")
      case None
      then have "to_come htab e = []" by (simp add: come Nil next_chain_None)
      moreover have "next_hashent htab = Some (None, htab)"
        using None by (simp add: next_hashent_def e b_def [symmetric] d Nil)
      ultimately show ?thesis by simp
    next
      case (Some p)
      obtain i z where p: "p = (i, z)" by fastforce
      define c where "c = element htab ! i"
      have i: "Suc b \<le> i" "i < length (element htab)" "c \<noteq> []" "hd c = z"
        "concat (drop (Suc b) (element htab)) = c @ concat (drop (Suc i) (element htab))"
        using next_chain_Some [OF Some [unfolded p]] by (auto simp: c_def)
      define h where "h = htab \<lparr> last_hval := i, last_entry := Entry (target z) \<rparr>"
      obtain zs where c: "c = z # zs" using i(3,4) by (cases c) auto
      have "next_hashent htab = Some (Some z, h)"
        using Some p by (simp add: next_hashent_def e b_def [symmetric] d Nil h_def)
      moreover have "cursor_at h z"
        using chain(2) [OF i(2)] c by (simp add: cursor_at_def h_def c_def bucket_def)
      moreover have "to_come h z = zs @ concat (drop (Suc i) (element htab))"
        using c by (simp add: to_come_def h_def c_def)
      moreover have "same_table h htab" by (simp add: same_table_def h_def)
      ultimately show ?thesis by (simp add: come Nil i(5) c)
    qed
  qed
qed

lemma same_table_trans: "same_table h g \<Longrightarrow> same_table g htab \<Longrightarrow> same_table h htab"
  by (simp add: same_table_def)

lemma nextentry_loop_correct:
  "str_inv htab \<Longrightarrow> cursor_at htab e \<Longrightarrow> to_come htab e = es \<Longrightarrow>
     (case filter (\<lambda>x. \<not> only \<or> bIsOriginal x) es of
        [] \<Rightarrow> \<exists>h. nextentry_loop only htab = Some (None, h)
      | e' # rest \<Rightarrow> \<exists>h. nextentry_loop only htab = Some (Some e', h) \<and> same_table h htab \<and>
          cursor_at h e' \<and> filter (\<lambda>x. \<not> only \<or> bIsOriginal x) (to_come h e') = rest)"
proof (induction es arbitrary: htab e)
  case Nil
  then have "next_hashent htab = Some (None, htab)" using next_hashent_step [of htab e] by simp
  then show ?case by (simp add: nextentry_loop.simps [of only htab])
next
  case (Cons e' es)
  then obtain h where h: "next_hashent htab = Some (Some e', h)" "same_table h htab" "cursor_at h e'"
    "to_come h e' = es"
    using next_hashent_step [of htab e] by auto
  show ?case
  proof (cases "\<not> only \<or> bIsOriginal e'")
    case True
    then show ?thesis using h by (simp add: nextentry_loop.simps [of only htab])
  next
    case False
    have l: "nextentry_loop only htab = nextentry_loop only h"
      using False by (subst nextentry_loop.simps) (simp add: h(1))
    have "str_inv h" using h(2) Cons.prems(1) by (simp add: same_table_inv)
    from Cons.IH [OF this h(3,4)] h(2) False show ?thesis
      unfolding l by (auto split: list.splits intro: same_table_trans)
  qed
qed

lemma walk_rest_correct:
  "str_inv htab \<Longrightarrow> cursor_at htab e \<Longrightarrow> bOnlyOriginals htab = only \<Longrightarrow>
     filter (\<lambda>x. \<not> only \<or> bIsOriginal x) (to_come htab e) = es \<Longrightarrow> length es < fuel \<Longrightarrow>
     walk_rest fuel htab = Some (map data es)"
proof (induction es arbitrary: htab e fuel)
  case Nil
  then obtain h where "nextentry_loop only htab = Some (None, h)"
    using nextentry_loop_correct [OF Nil(1,2) refl, of only] by auto
  with Nil show ?case by (cases fuel) (auto simp: hash_nextentry_def)
next
  case (Cons e' es)
  then obtain h where h: "nextentry_loop only htab = Some (Some e', h)" "same_table h htab" "cursor_at h e'"
    "filter (\<lambda>x. \<not> only \<or> bIsOriginal x) (to_come h e') = es"
    using nextentry_loop_correct [OF Cons(2,3) refl, of only] by auto
  obtain f where f: "fuel = Suc f" "length es < f" using Cons.prems(5) by (cases fuel) auto
  have "str_inv h" "bOnlyOriginals h = only"
    using h(2) Cons.prems by (simp_all add: same_table_inv) (simp add: same_table_def)
  from Cons.IH [OF this(1) h(3) this(2) h(4) f(2)] h(1) Cons.prems(3) show ?case
    by (simp add: f(1) hash_nextentry_def)
qed

lemma filter_from_first:
  assumes "List.find P c = Some e" "distinct (map target c)"
  shows "filter P c = e # filter P (tl (dropWhile (\<lambda>x. target x \<noteq> target e) c))"
  using assms
proof (induction c)
  case (Cons a c)
  show ?case
  proof (cases "P a")
    case True
    with Cons.prems(1) show ?thesis by simp
  next
    case False
    then have f: "List.find P c = Some e" using Cons.prems(1) by simp
    then have "e \<in> set c" by (auto simp: find_Some_iff)
    then have "target a \<noteq> target e" using Cons.prems(2) by auto
    then show ?thesis using Cons.IH [OF f] Cons.prems(2) False by simp
  qed
qed simp

lemma firstentry_loop_None:
  "firstentry_loop only elts n = None \<Longrightarrow> filter (\<lambda>x. \<not> only \<or> bIsOriginal x) (concat elts) = []"
proof (induction elts arbitrary: n)
  case (Cons c elts)
  have "List.find (\<lambda>x. \<not> only \<or> bIsOriginal x) c = None" "firstentry_loop only elts (Suc n) = None"
    using Cons.prems by (auto split: option.splits)
  with Cons.IH [of "Suc n"] show ?case by (simp add: find_None_iff filter_empty_conv)
qed simp

lemma firstentry_loop_Some:
  "firstentry_loop only elts n = Some (i, e) \<Longrightarrow>
     \<exists>k. i = n + k \<and> k < length elts \<and> List.find (\<lambda>x. \<not> only \<or> bIsOriginal x) (elts ! k) = Some e \<and>
       filter (\<lambda>x. \<not> only \<or> bIsOriginal x) (concat elts) =
         filter (\<lambda>x. \<not> only \<or> bIsOriginal x) (elts ! k @ concat (drop (Suc k) elts))"
proof (induction elts arbitrary: n)
  case (Cons c elts)
  show ?case
  proof (cases "List.find (\<lambda>x. \<not> only \<or> bIsOriginal x) c")
    case None
    then have c: "filter (\<lambda>x. \<not> only \<or> bIsOriginal x) c = []" by (simp add: find_None_iff filter_empty_conv)
    have "firstentry_loop only elts (Suc n) = Some (i, e)" using Cons.prems None by simp
    from Cons.IH [OF this] obtain k where
      "i = Suc n + k" "k < length elts" "List.find (\<lambda>x. \<not> only \<or> bIsOriginal x) (elts ! k) = Some e"
      "filter (\<lambda>x. \<not> only \<or> bIsOriginal x) (concat elts) =
         filter (\<lambda>x. \<not> only \<or> bIsOriginal x) (elts ! k @ concat (drop (Suc k) elts))" by blast
    then show ?thesis using c by (intro exI [of _ "Suc k"]) simp
  next
    case (Some x)
    then show ?thesis using Cons.prems by (intro exI [of _ 0]) simp
  qed
qed simp

lemma hash_walk_correct:
  assumes inv: "str_inv htab" and only: "only \<in> {0, 1}" and fuel: "nat (entries htab) \<le> fuel"
  shows "hash_walk fuel htab only =
    Some (map data (filter (\<lambda>e. only = 0 \<or> bIsOriginal e) (concat (element htab))))"
proof (cases "firstentry_loop (only \<noteq> 0) (element htab) 0")
  case None
  then show ?thesis
    using only firstentry_loop_None [OF None] by (auto simp: hash_walk_def hash_firstentry2_def)
next
  case (Some p)
  obtain i e where p: "p = (i, e)" by fastforce
  let ?P = "\<lambda>e. only = 0 \<or> bIsOriginal e"
  define h where "h = htab \<lparr> last_hval := i, last_entry := Entry (target e), bOnlyOriginals := (only \<noteq> 0) \<rparr>"
  have i: "i < length (element htab)" "List.find ?P (element htab ! i) = Some e"
    "filter ?P (concat (element htab)) = filter ?P (element htab ! i @ concat (drop (Suc i) (element htab)))"
    using firstentry_loop_Some [OF Some [unfolded p]] by simp_all
  have e: "e \<in> set (element htab ! i)" using i(2) by (auto simp: find_Some_iff)
  have c: "distinct (map target (element htab ! i))" "bucket (target e) htab = i"
    using inv i(1) e by (auto simp: str_inv_def table_inv_def placed_def bucket_hbucket hbucket_def)
  have eq: "filter ?P (concat (element htab)) = e # filter ?P (to_come h e)"
    using i(3) filter_from_first [OF i(2) c(1)] by (simp add: to_come_def h_def)
  have "length (filter ?P (concat (element htab))) \<le> nat (entries htab)"
    using inv by (simp add: str_inv_def table_inv_def length_concat [symmetric])
  then have len: "length (filter ?P (to_come h e)) < fuel" using fuel eq by simp
  have "str_inv h" "cursor_at h e"
    using inv e c by (simp_all add: h_def str_inv_def table_inv_def cursor_at_def bucket_def)
  from walk_rest_correct [OF this, of "only \<noteq> 0" "filter ?P (to_come h e)" fuel] len
  have "walk_rest fuel h = Some (map data (filter ?P (to_come h e)))" by (simp add: h_def)
  then show ?thesis
    using only Some p by (auto simp: hash_walk_def hash_firstentry2_def h_def [symmetric] eq)
qed

subsection \<open>Properties\<close>

lemma str_map_empty: "table_map str_hash h = (\<lambda>_. None) \<Longrightarrow> str_data h = (\<lambda>_. None)"
  by (simp add: str_data_def str_map_def fun_eq_iff)

text \<open>
  C9: a string table that was initialised behaves under every sequence of \<open>hashfind\<close>,
  \<open>hashadd\<close>, \<open>hashdelete\<close> and \<open>hashrepl\<close> calls on nonempty keys exactly like a finite map:
  every call returns what the map gives, and the counter of entries is the number of keys.
\<close>

theorem string_table_is_map:
  assumes "sint siz \<le> 2 ^ 30" "\<forall>x\<in>set ops. op_key x \<noteq> []"
  shows "\<exists>h. hashinit htab siz = Some h \<and>
    fst (run_ops str_step ops h) = fst (run_ops map_step ops (\<lambda>_. None)) \<and>
    entries (snd (run_ops str_step ops h)) = int (card (dom (snd (run_ops map_step ops (\<lambda>_. None)))))"
proof -
  obtain h where h: "hashinit htab siz = Some h" "table_inv str_hash h" "table_map str_hash h = (\<lambda>_. None)"
    using hashinit_correct [OF assms(1)] by metis
  have "str_inv h" "str_data h = (\<lambda>_. None)" using h by (simp_all add: str_inv_def str_map_empty)
  from strtab.run_refines [OF this(1) assms(2)] this(2)
  have r: "str_inv (snd (run_ops str_step ops h))"
    "run_ops map_step ops (\<lambda>_. None) = (fst (run_ops str_step ops h), str_data (snd (run_ops str_step ops h)))"
    by simp_all
  have "dom (str_data (snd (run_ops str_step ops h))) = dom (table_map str_hash (snd (run_ops str_step ops h)))"
    by (auto simp: str_data_def str_map_def dom_def)
  with entries_card(2) r h(1) show ?thesis by (fastforce simp: str_inv_def)
qed

theorem string_table_is_map_witness:
  "\<exists>h. hashinit blank_table 8 = Some h \<and>
     fst (run_ops str_step [Add ''look'' (1::nat), Add ''look'' 2, Delete ''say'', Find ''look''] h) =
       [Code 0, Code (- 1), Done, Found (Some 1)]"
  using string_table_is_map [of 8 "[Add ''look'' (1::nat), Add ''look'' 2, Delete ''say'', Find ''look'']" blank_table]
  by (auto simp: Let_def)

text \<open>
  C20: what \<open>hashadd2\<close> returns and does to the table on every branch: 0 without a change for a
  NULL or empty key, NULL data or a flag other than 0 and 1; -1 without a change when the key
  is there (or, for an original entry, when an original one is there); otherwise 0, the entry
  added, and a non-original entry of the same key replaced by an original one.
\<close>

theorem hashadd2_branches:
  assumes "str_inv htab"
  shows "str_inv (snd (hashadd2 str hashdata htab bOriginal)) \<and>
    (fst (hashadd2 str hashdata htab bOriginal), str_map (snd (hashadd2 str hashdata htab bOriginal))) =
      add_spec str hashdata bOriginal (str_map htab)"
  using assms by (rule hashadd2_correct)

theorem hashadd2_branches_witness:
  "\<exists>h h2. hashinit blank_table 8 = Some h \<and> hashadd2 (Some ''look'') (Some (1::nat)) h 0 = (0, h2) \<and>
     fst (hashadd2 (Some ''look'') (Some 2) h2 0) = - 1 \<and>
     str_map (snd (hashadd2 (Some ''look'') (Some 2) h2 1)) ''look'' = Some (2, True)"
proof -
  have "sint (8 :: 32 word) \<le> 2 ^ 30" by simp
  then obtain h :: "nat HASHTAB" where h: "hashinit blank_table 8 = Some h" "table_inv str_hash h"
    "table_map str_hash h = (\<lambda>_. None)"
    using hashinit_correct by metis
  have inv: "str_inv h" "str_map h = (\<lambda>_. None)" using h by (simp_all add: str_inv_def str_map_def fun_eq_iff)
  obtain c h2 where a: "hashadd2 (Some ''look'') (Some 1) h 0 = (c, h2)" by fastforce
  have b: "str_inv h2" "c = 0" "str_map h2 = [''look'' \<mapsto> (1, False)]"
    using hashadd2_branches [OF inv(1), of "Some ''look''" "Some 1" 0] inv(2) a by (simp_all add: add_spec_def)
  have "fst (hashadd2 (Some ''look'') (Some 2) h2 0) = - 1"
    "str_map (snd (hashadd2 (Some ''look'') (Some 2) h2 1)) ''look'' = Some (2, True)"
    using hashadd2_branches [OF b(1), of "Some ''look''" "Some 2" 0]
      hashadd2_branches [OF b(1), of "Some ''look''" "Some 2" 1] by (simp_all add: b(3) add_spec_def)
  with h(1) a b(2) show ?thesis by blast
qed

text \<open>
  C19: the walk \<open>hash_firstentry2\<close>, \<open>hash_nextentry\<close>, \<open>hash_nextentry\<close>, ... over a table
  that is not changed meanwhile ends after at most \<open>entries\<close> calls, and visits every entry
  (or every original one) exactly once, chain by chain.
\<close>

theorem walk_visits_all:
  assumes "str_inv htab" "only \<in> {0, 1}" "nat (entries htab) \<le> fuel"
  shows "hash_walk fuel htab only =
      Some (map data (filter (\<lambda>e. only = 0 \<or> bIsOriginal e) (concat (element htab)))) \<and>
    distinct (map target (concat (element htab))) \<and>
    (\<forall>s d b. str_map htab s = Some (d, b) \<longleftrightarrow> \<lparr> target = s, data = d, bIsOriginal = b \<rparr> \<in> set (concat (element htab)))"
proof -
  have inv: "table_inv str_hash htab" using assms(1) by (simp add: str_inv_def)
  have "str_map htab s = Some (d, b) \<longleftrightarrow> \<lparr> target = s, data = d, bIsOriginal = b \<rparr> \<in> set (concat (element htab))" for s d b
  proof -
    have rec: "e = \<lparr> target = s, data = d, bIsOriginal = b \<rparr> \<longleftrightarrow> target e = s \<and> data e = d \<and> bIsOriginal e = b"
      for e :: "'a HASHENT"
      by (cases e) auto
    have "str_map htab s = Some (d, b) \<longleftrightarrow> (\<exists>e. table_map str_hash htab s = Some e \<and> data e = d \<and> bIsOriginal e = b)"
      by (auto simp: str_map_def)
    also have "\<dots> \<longleftrightarrow> (\<exists>e. e \<in> set (concat (element htab)) \<and> e = \<lparr> target = s, data = d, bIsOriginal = b \<rparr>)"
      unfolding table_map_Some_iff [OF inv] rec by blast
    finally show ?thesis by blast
  qed
  then show ?thesis using hash_walk_correct [OF assms] distinct_targets [OF inv] by blast
qed

theorem walk_visits_all_witness:
  "\<exists>h. hashinit blank_table 8 = Some h \<and>
     hash_walk 1 (snd (hashadd2 (Some ''look'') (Some (7::nat)) h 1)) 1 = Some [7]"
proof -
  have "sint (8 :: 32 word) \<le> 2 ^ 30" by simp
  then obtain h :: "nat HASHTAB" where h: "hashinit blank_table 8 = Some h" "table_inv str_hash h"
    "table_map str_hash h = (\<lambda>_. None)"
    using hashinit_correct by metis
  have inv: "str_inv h" "str_map h = (\<lambda>_. None)" using h by (simp_all add: str_inv_def str_map_def fun_eq_iff)
  define g where "g = snd (hashadd2 (Some ''look'') (Some 7) h 1)"
  have g: "str_inv g" "str_map g = [''look'' \<mapsto> (7, True)]"
    using hashadd2_correct [OF inv(1), of "Some ''look''" "Some 7" 1] inv(2) by (simp_all add: g_def add_spec_def)
  have "table_map str_hash g s = None \<longleftrightarrow> str_map g s = None" for s by (simp add: str_map_def)
  then have dom: "dom (table_map str_hash g) = {''look''}" by (auto simp: dom_def g(2) split: if_splits)
  then have n: "entries g = 1" using entries_card(2) [of str_hash g] g(1) by (simp add: str_inv_def)
  have v: "hash_walk 1 g 1 = Some (map data (filter bIsOriginal (concat (element g))))"
    "distinct (map target (concat (element g)))"
    "\<And>s d b. str_map g s = Some (d, b) \<longleftrightarrow> \<lparr> target = s, data = d, bIsOriginal = b \<rparr> \<in> set (concat (element g))"
    using walk_visits_all [OF g(1), of 1 1] n by (simp_all del: set_concat)
  have len: "length (concat (element g)) = 1"
    using g(1) n by (simp add: str_inv_def table_inv_def length_concat)
  then obtain e where e: "concat (element g) = [e]" by (cases "concat (element g)") auto
  have "\<lparr> target = ''look'', data = 7, bIsOriginal = True \<rparr> \<in> set (concat (element g))"
    using v(3) [of "''look''" 7 True] g(2) by (simp del: set_concat)
  with e have "hash_walk 1 g 1 = Some [7]" using v(1) by auto
  with h(1) show ?thesis unfolding g_def by blast
qed

text \<open>
  C36: \<open>get_hashmask\<close> returns exactly for the sizes up to \<open>2 ^ 30\<close>, and then the size is the
  smallest power of two that is not below the one asked for, and the mask is one less. For a
  larger size the loop variable overflows and the loop never ends.
\<close>

theorem get_hashmask_smallest:
  "(get_hashmask siz = None \<longleftrightarrow> sint siz > 2 ^ 30) \<and>
   (get_hashmask siz = Some (tsize, m) \<longrightarrow>
      m = tsize - 1 \<and> (\<exists>k\<le>30. tsize = 2 ^ k \<and> sint siz \<le> 2 ^ k \<and> (k = 0 \<or> 2 ^ (k - 1) < sint siz)))"
proof (intro conjI impI)
  assume a: "get_hashmask siz = Some (tsize, m)"
  then have "sint siz \<le> 2 ^ 30" using get_hashmask_None_iff [of siz] by (metis linorder_not_le option.distinct(1))
  then obtain k where k: "k \<le> 30" "get_hashmask siz = Some (2 ^ k, 2 ^ k - 1)"
     "sint siz \<le> 2 ^ k" "k = 0 \<or> 2 ^ (k - 1) < sint siz"
    using get_hashmask_returns by blast
  with a show "m = tsize - 1" "\<exists>k\<le>30. tsize = 2 ^ k \<and> sint siz \<le> 2 ^ k \<and> (k = 0 \<or> 2 ^ (k - 1) < sint siz)"
    by auto
qed (rule get_hashmask_None_iff)

theorem get_hashmask_smallest_witness: "get_hashmask 5 = Some (8, 7)"
proof -
  have "get_hashmask 5 = Some (8, 7)"
    by (simp add: get_hashmask_def hashmask_loop.simps)
  with get_hashmask_smallest [of 5 8 7] show ?thesis by blast
qed

text \<open>
  C33: a number-keyed table that was initialised behaves under every sequence of
  \<open>nhashfind\<close>, \<open>nhashadd\<close>, \<open>nhashdelete\<close> and \<open>nhashrepl\<close> calls exactly like a finite map
  from 32-bit numbers, negative ones included, and counts its keys.
\<close>

theorem number_table_is_map:
  assumes "sint siz \<le> 2 ^ 30"
  shows "\<exists>h. hashinit htab siz = Some h \<and>
    fst (run_ops num_step ops h) = fst (run_ops map_step ops (\<lambda>_. None)) \<and>
    entries (snd (run_ops num_step ops h)) = int (card (dom (snd (run_ops map_step ops (\<lambda>_. None)))))"
proof -
  obtain h where h: "hashinit htab siz = Some h" "table_inv (\<lambda>v. v) h" "table_map (\<lambda>v. v) h = (\<lambda>_. None)"
    using hashinit_correct [OF assms(1)] by metis
  have "num_inv h" "num_map h = (\<lambda>_. None)" using h by (simp_all add: num_inv_def num_map_def fun_eq_iff)
  from numtab.run_refines [OF this(1), of ops] this(2)
  have r: "num_inv (snd (run_ops num_step ops h))"
    "run_ops map_step ops (\<lambda>_. None) = (fst (run_ops num_step ops h), num_map (snd (run_ops num_step ops h)))"
    by simp_all
  have "dom (num_map (snd (run_ops num_step ops h))) = dom (table_map (\<lambda>v. v) (snd (run_ops num_step ops h)))"
    by (auto simp: num_map_def dom_def)
  with entries_card(2) r h(1) show ?thesis by (fastforce simp: num_inv_def)
qed

theorem number_table_is_map_witness:
  "\<exists>h. hashinit blank_ntable 8 = Some h \<and>
     fst (run_ops num_step [Add (- 1) (1::nat), Replace 7 2, Find (- 1), Delete (- 1), Find (- 1)] h) =
       [Code 0, Code 0, Found (Some 1), Done, Found None]"
  using number_table_is_map [of 8 blank_ntable "[Add (- 1) (1::nat), Replace 7 2, Find (- 1), Delete (- 1), Find (- 1)]"]
  by (auto simp: Let_def)

end
