(* ===== verification/Nametab.thy ===== *)
theory Nametab
  imports Stringutil
begin

section \<open>Name tables (src/Server/src/htab.c)\<close>

text \<open>
  A name table is an array of names with flags, ended by an entry with a NULL name; it is the
  list of the entries before that one. \<open>check_access\<close> and \<open>God\<close> (predicates of the player
  object) are parameters. The texts are built in a buffer without a bound check and handed to
  \<open>notify\<close>; a function returns the text it sends, or \<open>None\<close> when it sends nothing.
\<close>

unbundle bit_operations_syntax

record NAMETAB =
  name :: string
  minlen :: int
  perm :: "32 word"
  perm2 :: "32 word"
  flag :: "32 word"

type_synonym 'p access = "'p \<Rightarrow> 32 word \<Rightarrow> 32 word \<Rightarrow> int \<Rightarrow> bool"

subsection \<open>Searching\<close>

fun search_loop :: "'p access \<Rightarrow> 'p \<Rightarrow> NAMETAB list \<Rightarrow> string \<Rightarrow> int" where
  "search_loop check_access player [] flagname = - 1"
| "search_loop check_access player (nt # rest) flagname =
     (if minmatch flagname (name nt) (minlen nt) then
        (if check_access player (perm nt) (perm2 nt) 0 then sint (flag nt)
         else search_loop check_access player rest flagname)
      else search_loop check_access player rest flagname)"

definition search_nametab :: "'p access \<Rightarrow> 'p \<Rightarrow> NAMETAB list option \<Rightarrow> string option \<Rightarrow> int" where
  "search_nametab check_access player ntab flagname =
     (case (ntab, flagname) of
        (Some t, Some s) \<Rightarrow> if s = [] then - 1 else search_loop check_access player t s
      | _ \<Rightarrow> - 1)"

fun find_loop :: "'p access \<Rightarrow> 'p \<Rightarrow> NAMETAB list \<Rightarrow> string \<Rightarrow> NAMETAB option" where
  "find_loop check_access player [] flagname = None"
| "find_loop check_access player (nt # rest) flagname =
     (if minmatch flagname (name nt) (minlen nt) then
        (if check_access player (perm nt) (perm2 nt) 0 then Some nt
         else find_loop check_access player rest flagname)
      else find_loop check_access player rest flagname)"

definition find_nametab_ent :: "'p access \<Rightarrow> 'p \<Rightarrow> NAMETAB list option \<Rightarrow> string option \<Rightarrow> NAMETAB option" where
  "find_nametab_ent check_access player ntab flagname =
     (case (ntab, flagname) of
        (Some t, Some s) \<Rightarrow> if s = [] then None else find_loop check_access player t s
      | _ \<Rightarrow> None)"

subsection \<open>Listing\<close>

fun display_loop :: "('p \<Rightarrow> bool) \<Rightarrow> 'p access \<Rightarrow> 'p \<Rightarrow> NAMETAB list \<Rightarrow> string \<Rightarrow> bool \<Rightarrow> string \<times> bool" where
  "display_loop God check_access player [] buf got_one = (buf, got_one)"
| "display_loop God check_access player (nt # rest) buf got_one =
     (if God player \<or> check_access player (perm nt) (perm2 nt) 0
      then display_loop God check_access player rest (buf @ CHR '' '' # name nt) True
      else display_loop God check_access player rest buf got_one)"

definition display_nametab ::
  "('p \<Rightarrow> bool) \<Rightarrow> 'p access \<Rightarrow> 'p \<Rightarrow> NAMETAB list option \<Rightarrow> string option \<Rightarrow> bool \<Rightarrow> string option" where
  "display_nametab God check_access player ntab prefix_text list_if_none =
     (case (ntab, prefix_text) of
        (Some t, Some p) \<Rightarrow>
          (if p = [] then None
           else (let (buf, got_one) = display_loop God check_access player t p False
                 in if got_one \<or> list_if_none then Some buf else None))
      | _ \<Rightarrow> None)"

text \<open>
  \<open>interp_nametab\<close> steps to the next entry only inside the \<open>if\<close>: at an entry the player has
  no access to, the loop repeats itself for ever.
\<close>

partial_function (option) interp_loop ::
  "('p \<Rightarrow> bool) \<Rightarrow> 'p access \<Rightarrow> 'p \<Rightarrow> 32 word \<Rightarrow> string \<Rightarrow> string \<Rightarrow> NAMETAB list \<Rightarrow> string \<Rightarrow> string option" where
  "interp_loop God check_access player flagword true_text false_text nts buf =
     (case nts of
        [] \<Rightarrow> Some buf
      | nt # rest \<Rightarrow>
          (if God player \<or> check_access player (perm nt) (perm2 nt) 0 then
             (let cp = (if flagword AND flag nt \<noteq> 0 then true_text else false_text);
                  buf' = buf @ CHR '' '' # name nt @ ''...'' @ cp
              in interp_loop God check_access player flagword true_text false_text rest
                   (if rest \<noteq> [] then buf' @ '';'' else buf'))
           else interp_loop God check_access player flagword true_text false_text nts buf))"

text \<open>\<open>None\<close>: the call does not return; \<open>Some None\<close>: nothing is sent.\<close>

definition interp_nametab ::
  "('p \<Rightarrow> bool) \<Rightarrow> 'p access \<Rightarrow> 'p \<Rightarrow> NAMETAB list option \<Rightarrow> 32 word \<Rightarrow> string \<Rightarrow> string \<Rightarrow> string \<Rightarrow>
   string option option" where
  "interp_nametab God check_access player ntab flagword prefix_text true_text false_text =
     (case ntab of
        None \<Rightarrow> Some None
      | Some t \<Rightarrow> map_option Some
          (interp_loop God check_access player flagword true_text false_text t prefix_text))"

fun listset_loop ::
  "('p \<Rightarrow> bool) \<Rightarrow> 'p access \<Rightarrow> 'p \<Rightarrow> 32 word \<Rightarrow> NAMETAB list \<Rightarrow> string \<Rightarrow> bool \<Rightarrow> string \<times> bool" where
  "listset_loop God check_access player flagword [] buf got_one = (buf, got_one)"
| "listset_loop God check_access player flagword (nt # rest) buf got_one =
     (if flagword AND flag nt \<noteq> 0 \<and> (God player \<or> check_access player (perm nt) (perm2 nt) 0)
      then listset_loop God check_access player flagword rest (buf @ CHR '' '' # name nt) True
      else listset_loop God check_access player flagword rest buf got_one)"

text \<open>The second table's loop asks for \<open>perm2\<close> twice.\<close>

fun listset_loop2 ::
  "('p \<Rightarrow> bool) \<Rightarrow> 'p access \<Rightarrow> 'p \<Rightarrow> 32 word \<Rightarrow> NAMETAB list \<Rightarrow> string \<Rightarrow> bool \<Rightarrow> string \<times> bool" where
  "listset_loop2 God check_access player flagword2 [] buf2 got_two = (buf2, got_two)"
| "listset_loop2 God check_access player flagword2 (nt # rest) buf2 got_two =
     (if flagword2 AND flag nt \<noteq> 0 \<and> (God player \<or> check_access player (perm2 nt) (perm2 nt) 0)
      then listset_loop2 God check_access player flagword2 rest
             (buf2 @ (if \<not> got_two then CHR ''['' else CHR '' '') # name nt) True
      else listset_loop2 God check_access player flagword2 rest buf2 got_two)"

definition listset_nametab ::
  "('p \<Rightarrow> bool) \<Rightarrow> 'p access \<Rightarrow> 'p \<Rightarrow> NAMETAB list option \<Rightarrow> NAMETAB list option \<Rightarrow> 32 word \<Rightarrow> 32 word \<Rightarrow>
   string \<Rightarrow> bool \<Rightarrow> string option" where
  "listset_nametab God check_access player ntab ntab2 flagword flagword2 prefix_text list_if_none =
     (case ntab of
        None \<Rightarrow> None
      | Some t \<Rightarrow>
          (let (buf, got_one) = listset_loop God check_access player flagword t prefix_text False;
               (buf', got_two) =
                 (case ntab2 of
                    None \<Rightarrow> (buf, False)
                  | Some t2 \<Rightarrow>
                      (let (buf2, got_two) = listset_loop2 God check_access player flagword2 t2 [] False;
                           buf2' = (if got_two then buf2 @ '']'' else buf2)
                       in (safe_str buf2' (buf @ '' ''), got_two)))
           in if got_one \<or> got_two \<or> list_if_none then Some buf' else None))"

subsection \<open>Changing the access of an entry\<close>

text \<open>
  \<open>cf_modify_multibits\<close> is a parameter: it gets the two permission words and the rest of the
  line and returns its code and the new words. The name ends at the first blank.
\<close>

fun ntab_access_loop ::
  "(32 word \<Rightarrow> 32 word \<Rightarrow> string \<Rightarrow> int \<times> 32 word \<times> 32 word) \<Rightarrow> string \<Rightarrow> string \<Rightarrow> NAMETAB list \<Rightarrow>
   int \<times> NAMETAB list" where
  "ntab_access_loop modify str ap [] = (- 1, [])"
| "ntab_access_loop modify str ap (np # rest) =
     (if minmatch str (name np) (minlen np) then
        (let (code, p1, p2) = modify (perm np) (perm2 np) ap
         in (code, np \<lparr> perm := p1, perm2 := p2 \<rparr> # rest))
      else (let (code, rest') = ntab_access_loop modify str ap rest in (code, np # rest')))"

definition cf_ntab_access ::
  "(32 word \<Rightarrow> 32 word \<Rightarrow> string \<Rightarrow> int \<times> 32 word \<times> 32 word) \<Rightarrow> NAMETAB list \<Rightarrow> string \<Rightarrow>
   int \<times> NAMETAB list" where
  "cf_ntab_access modify vp str =
     (let nm = takeWhile (\<lambda>c. \<not> is_space c) str;
          ap = dropWhile is_space (tl (dropWhile (\<lambda>c. \<not> is_space c) str))
      in ntab_access_loop modify nm ap vp)"

subsection \<open>What they compute\<close>

definition may_see :: "('p \<Rightarrow> bool) \<Rightarrow> 'p access \<Rightarrow> 'p \<Rightarrow> NAMETAB \<Rightarrow> bool" where
  "may_see God check_access player nt \<longleftrightarrow> God player \<or> check_access player (perm nt) (perm2 nt) 0"

text \<open>The text of one entry, and the texts joined by semicolons.\<close>

definition interp_entry :: "32 word \<Rightarrow> string \<Rightarrow> string \<Rightarrow> NAMETAB \<Rightarrow> string" where
  "interp_entry flagword true_text false_text nt =
     '' '' @ name nt @ ''...'' @ (if flagword AND flag nt \<noteq> 0 then true_text else false_text)"

fun joined :: "string \<Rightarrow> string list \<Rightarrow> string" where
  "joined sep [] = []"
| "joined sep [x] = x"
| "joined sep (x # y # xs) = x @ sep @ joined sep (y # xs)"

lemma interp_loop_accessible:
  "\<forall>nt\<in>set nts. may_see God access p nt \<Longrightarrow>
     interp_loop God access p fw tt ft nts buf = Some (buf @ joined '';'' (map (interp_entry fw tt ft) nts))"
proof (induction nts arbitrary: buf)
  case Nil
  show ?case by (simp add: interp_loop.simps)
next
  case (Cons nt nts)
  then have "God p \<or> access p (perm nt) (perm2 nt) 0" by (auto simp: may_see_def)
  with Cons show ?case
    by (subst interp_loop.simps) (cases nts; simp add: Let_def; simp add: interp_entry_def)
qed

lemma interp_loop_stuck:
  "interp_loop God access p fw tt ft nts buf = Some r \<Longrightarrow> \<forall>nt\<in>set nts. may_see God access p nt"
proof (rule interp_loop.raw_induct [where P = "\<lambda>G a p _ _ _ nts _ _. \<forall>nt\<in>set nts. may_see G a p nt"])
  fix f God fw tt ft buf r access and p :: 'p and nts
  assume IH: "\<And>God access p fw tt ft nts buf r. f God access p fw tt ft nts buf = Some r \<Longrightarrow>
      \<forall>nt\<in>set nts. may_see God access p nt"
    and eq: "(case nts of [] \<Rightarrow> Some buf
      | nt # rest \<Rightarrow>
          if God p \<or> access p (perm nt) (perm2 nt) 0 then
             let cp = if fw AND flag nt \<noteq> 0 then tt else ft;
                  buf' = buf @ CHR '' '' # name nt @ ''...'' @ cp
              in f God access p fw tt ft rest (if rest \<noteq> [] then buf' @ '';'' else buf')
           else f God access p fw tt ft nts buf) = Some r"
  show "\<forall>nt\<in>set nts. may_see God access p nt"
  proof (cases nts)
    case (Cons nt rest)
    show ?thesis
    proof (cases "may_see God access p nt")
      case True
      then obtain b where "f God access p fw tt ft rest b = Some r"
        using eq Cons by (auto simp: may_see_def Let_def)
      from IH [OF this] True Cons show ?thesis by simp
    next
      case False
      then have "f God access p fw tt ft nts buf = Some r" using eq Cons by (simp add: may_see_def)
      then show ?thesis by (rule IH)
    qed
  qed simp
qed

lemma find_loop_eq:
  "find_loop access p nts s = List.find (\<lambda>nt. minmatch s (name nt) (minlen nt) \<and> access p (perm nt) (perm2 nt) 0) nts"
  by (induction nts) auto

lemma search_loop_eq:
  "search_loop access p nts s = (case find_loop access p nts s of None \<Rightarrow> - 1 | Some nt \<Rightarrow> sint (flag nt))"
  by (induction nts) auto

subsection \<open>Properties\<close>

text \<open>
  \<open>search_nametab\<close> and \<open>find_nametab_ent\<close> agree: both pick the first entry of the table
  that matches the name and that the player may use, and the first returns its flag (or -1).
\<close>

theorem search_find_agree:
  "search_nametab check_access player ntab flagname =
     (case find_nametab_ent check_access player ntab flagname of None \<Rightarrow> - 1 | Some nt \<Rightarrow> sint (flag nt)) \<and>
   find_nametab_ent check_access player (Some t) (Some (c # s)) =
     List.find (\<lambda>nt. minmatch (c # s) (name nt) (minlen nt) \<and> check_access player (perm nt) (perm2 nt) 0) t"
  by (auto simp: search_nametab_def find_nametab_ent_def find_loop_eq search_loop_eq split: option.splits)

text \<open>
  C32: \<open>interp_nametab\<close> returns exactly when the player may see every entry of the table; the
  text it sends then has one item per entry, in order, with its state, separated by
  semicolons. One entry that is out of reach makes the server loop for ever.
\<close>

theorem interp_nametab_returns:
  "interp_nametab God check_access player (Some t) flagword pre true_text false_text =
     (if \<forall>nt\<in>set t. may_see God check_access player nt
      then Some (Some (pre @ joined '';'' (map (interp_entry flagword true_text false_text) t)))
      else None)"
proof (cases "\<forall>nt\<in>set t. may_see God check_access player nt")
  case True
  from interp_loop_accessible [OF this] show ?thesis using True by (simp add: interp_nametab_def)
next
  case False
  then have "interp_loop God check_access player flagword true_text false_text t pre = None"
    using interp_loop_stuck by (metis option.exhaust)
  with False show ?thesis by (simp add: interp_nametab_def)
qed

theorem interp_nametab_returns_witness:
  "interp_nametab (\<lambda>_. False) (\<lambda>p a b c. a = 0) () (Some
     [\<lparr> name = ''color'', minlen = 2, perm = 0, perm2 = 0, flag = 1 \<rparr>,
      \<lparr> name = ''log'', minlen = 2, perm = 0, perm2 = 0, flag = 2 \<rparr>]) 2 ''Opts:'' ''on'' ''off''
     = Some (Some ''Opts: color...off; log...on'')"
  by (simp add: interp_nametab_returns may_see_def interp_entry_def)

end
