(* ===== verification/Wild.thy ===== *)
theory Wild
  imports Stringutil
begin

section \<open>Wildcard matching (src/Server/src/wild.c)\<close>

text \<open>
  \<open>quick_wild\<close> matches a pattern without remembering anything, \<open>wild1\<close> and \<open>wild\<close> also
  return what the wildcards matched, and \<open>wild_match\<close> adds the order comparisons. The loop
  counter is threaded through the calls and bounded by \<open>mudconf.wildmatch_lim\<close>; \<open>arglist\<close> and
  \<open>numargs\<close>, static variables of the file, are the arguments \<open>args\<close> and \<open>numargs\<close> of \<open>wild1\<close>,
  and a buffer \<open>args[i]\<close> is NULL (\<open>None\<close>) or its contents. The code is compiled without
  \<open>WILD_LIKE_PENN\<close>.
\<close>

subsection \<open>The quick matcher\<close>

definition NOTEQUAL :: "char \<Rightarrow> char \<Rightarrow> bool" where
  "NOTEQUAL a b \<longleftrightarrow> a \<noteq> b \<and> ToLower a \<noteq> ToLower b"

lemma NOTEQUAL_iff [simp]: "NOTEQUAL a b \<longleftrightarrow> ToLower a \<noteq> ToLower b"
  by (auto simp: NOTEQUAL_def)

abbreviation BACKSLASH :: char where
  "BACKSLASH \<equiv> CHR 0x5C"

text \<open>The first loop: up to a star, the result is known or the pointers stand at the star.\<close>

fun quick_head :: "string \<Rightarrow> string \<Rightarrow> bool + string \<times> string" where
  "quick_head tstr [] =
     (if deref tstr = CHR ''*'' then Inr (tstr, [])
      else if deref tstr = CHR ''?'' then Inl False
      else
        (let t = (if deref tstr = BACKSLASH then tl tstr else tstr)
         in if NOTEQUAL NUL (deref t) then Inl False else Inl True))"
| "quick_head tstr (d # dstr) =
     (if deref tstr = CHR ''*'' then Inr (tstr, d # dstr)
      else if deref tstr = CHR ''?'' then quick_head (tl tstr) dstr
      else
        (let t = (if deref tstr = BACKSLASH then tl tstr else tstr)
         in if NOTEQUAL d (deref t) then Inl False else quick_head (tl t) dstr))"

text \<open>Skipping over wildcards after a star.\<close>

fun skip_wilds :: "string \<Rightarrow> string \<Rightarrow> (string \<times> string) option" where
  "skip_wilds [] dstr = Some ([], dstr)"
| "skip_wilds (c # tstr) dstr =
     (if c = CHR ''?'' then (if dstr = [] then None else skip_wilds tstr (tl dstr))
      else if c = CHR ''*'' then skip_wilds tstr dstr
      else Some (c # tstr, dstr))"

lemma quick_head_shrinks: "quick_head t d = Inr (t', d') \<Longrightarrow> length t' \<le> length t \<and> deref t' = CHR ''*''"
proof (induction t d rule: quick_head.induct)
  case (2 t d ds)
  define u where "u = (if deref t = BACKSLASH then tl t else t)"
  consider "deref t = CHR ''*''" | "deref t = CHR ''?''"
    | "deref t \<noteq> CHR ''*''" "deref t \<noteq> CHR ''?''" by blast
  then show ?case
  proof cases
    case 3
    then have "quick_head (tl u) ds = Inr (t', d')"
      using "2.prems" by (auto simp: u_def [symmetric] Let_def split: if_splits)
    then have "length t' \<le> length (tl u) \<and> deref t' = CHR ''*''"
      using 3 "2.IH"(2) [OF _ _ u_def] "2.prems" by (auto simp: u_def [symmetric] Let_def split: if_splits)
    moreover have "length (tl u) \<le> length t" by (simp add: u_def)
    ultimately show ?thesis by linarith
  next
    case 2
    then have "length t' \<le> length (tl t) \<and> deref t' = CHR ''*''"
      using "2.IH"(1) "2.prems" by auto
    moreover have "length (tl t) \<le> length t" by simp
    ultimately show ?thesis by linarith
  qed (use "2.prems" in simp)
qed (auto simp: Let_def split: if_splits)

lemma skip_wilds_shrinks: "skip_wilds t d = Some (t', d') \<Longrightarrow> length t' \<le> length t"
  by (induction t d rule: skip_wilds.induct) (auto split: if_splits intro: le_SucI)

text \<open>
  \<open>quick_wild_internal\<close> and its last loop, which scans for the literal \<open>c\<close> that follows the
  wildcards. The result is the return value and the counter.
\<close>

function quick_wild_internal :: "int \<Rightarrow> string \<Rightarrow> string \<Rightarrow> int \<Rightarrow> bool \<times> int"
  and quick_scan :: "int \<Rightarrow> char \<Rightarrow> string \<Rightarrow> string \<Rightarrow> int \<Rightarrow> bool \<times> int" where
  "quick_wild_internal wildmatch_lim tstr dstr loopCntr =
     (if loopCntr > wildmatch_lim then (False, loopCntr)
      else
        (let cnt = loopCntr + 1
         in if tstr = [] \<and> dstr = [] then (True, cnt)
            else if tstr = [] then (False, cnt)
            else (case quick_head tstr dstr of
                    Inl r \<Rightarrow> (r, cnt)
                  | Inr (t1, d1) \<Rightarrow>
                      (if tl t1 = [] then (True, cnt)
                       else (case skip_wilds (tl t1) d1 of
                               None \<Rightarrow> (False, cnt)
                             | Some (t3, d3) \<Rightarrow>
                                 (case (if deref t3 = BACKSLASH then tl t3 else t3) of
                                    [] \<Rightarrow> (True, cnt)
                                  | c # t4 \<Rightarrow> quick_scan wildmatch_lim c t4 d3 cnt))))))"
| "quick_scan wildmatch_lim c tstr [] cnt = (False, cnt)"
| "quick_scan wildmatch_lim c tstr (d # dstr) cnt =
     (if ToLower d = ToLower c then
        (let r = quick_wild_internal wildmatch_lim tstr dstr cnt
         in if fst r then (True, snd r) else quick_scan wildmatch_lim c tstr dstr (snd r))
      else quick_scan wildmatch_lim c tstr dstr cnt)"
  by pat_completeness auto

lemma quick_star_less:
  assumes "quick_head t d = Inr (t1, d1)" "skip_wilds (tl t1) d1 = Some (t3, d3)"
    "(if deref t3 = BACKSLASH then tl t3 else t3) = c # t4"
  shows "Suc (length t4) < length t"
proof -
  have "Suc (length t4) \<le> length t3" using assms(3) arg_cong [OF assms(3), of length] by (cases t3) (auto split: if_splits)
  moreover have "length t3 \<le> length (tl t1)" by (rule skip_wilds_shrinks [OF assms(2)])
  moreover have "length (tl t1) < length t"
    using quick_head_shrinks [OF assms(1)] by (cases t1) auto
  ultimately show ?thesis by linarith
qed

termination quick_wild_internal
  by (relation "measures [\<lambda>x. case x of Inl (_, t, d, _) \<Rightarrow> length t | Inr (_, c, t, d, _) \<Rightarrow> Suc (length t),
                          \<lambda>x. case x of Inl (_, t, d, _) \<Rightarrow> length d | Inr (_, c, t, d, _) \<Rightarrow> length d]")
     (auto simp: quick_star_less)

declare quick_wild_internal.simps [simp del]

definition quick_wild :: "int \<Rightarrow> string \<Rightarrow> string \<Rightarrow> bool" where
  "quick_wild wildmatch_lim tstr dstr = fst (quick_wild_internal wildmatch_lim tstr dstr 0)"

subsection \<open>The matcher that remembers\<close>

type_synonym args = "string option list"

text \<open>\<open>arglist[i][0] = c; arglist[i][1] = 0\<close>\<close>

definition char_arg :: "char \<Rightarrow> string" where
  "char_arg c = (if c = NUL then [] else [c])"

datatype head_result = HDone bool args | HFast string string args | HStar string string nat args

fun wild_head :: "nat \<Rightarrow> string \<Rightarrow> string \<Rightarrow> nat \<Rightarrow> args \<Rightarrow> head_result" where
  "wild_head numargs tstr [] arg args =
     (if deref tstr = CHR ''*'' then HStar tstr [] arg args
      else if deref tstr = CHR ''?'' then HDone False args
      else
        (let t = (if deref tstr = BACKSLASH then tl tstr else tstr)
         in if NOTEQUAL NUL (deref t) then HDone False args else HDone True args))"
| "wild_head numargs tstr (d # dstr) arg args =
     (if deref tstr = CHR ''*'' then HStar tstr (d # dstr) arg args
      else if deref tstr = CHR ''?'' then
        (let args' = args[arg := Some (char_arg d)]
         in if Suc arg \<ge> numargs then HFast (tl tstr) dstr args'
            else wild_head numargs (tl tstr) dstr (Suc arg) args')
      else
        (let t = (if deref tstr = BACKSLASH then tl tstr else tstr)
         in if NOTEQUAL d (deref t) then HDone False args else wild_head numargs (tl t) dstr arg args))"

text \<open>\<open>while (argpos < arg)\<close>: fill in the characters of intervening question marks; the first
  component says that the argument space is used up.\<close>

function wild_fill :: "nat \<Rightarrow> nat \<Rightarrow> string \<Rightarrow> nat \<Rightarrow> args \<Rightarrow> bool \<times> string \<times> nat \<times> args" where
  "wild_fill numargs arg datapos argpos args =
     (if argpos < arg then
        (let args' = args[argpos := Some (char_arg (deref datapos))]
         in if Suc argpos \<ge> numargs then (True, tl datapos, Suc argpos, args')
            else wild_fill numargs arg (tl datapos) (Suc argpos) args')
      else (False, datapos, argpos, args))"
  by pat_completeness auto
termination
  by (relation "measure (\<lambda>(n, arg, dp, argpos, args). arg - argpos)") auto

declare wild_fill.simps [simp del]

text \<open>Skipping over question marks after a star, counting them.\<close>

fun wild_questions :: "string \<Rightarrow> string \<Rightarrow> nat \<Rightarrow> nat \<Rightarrow> (string \<times> string \<times> nat \<times> nat) option" where
  "wild_questions [] dstr arg numextra = Some ([], dstr, arg, numextra)"
| "wild_questions (c # tstr) dstr arg numextra =
     (if c = CHR ''?'' then
        (if dstr = [] then None else wild_questions tstr (tl dstr) (Suc arg) (Suc numextra))
      else Some (c # tstr, dstr, arg, numextra))"

lemma wild_questions_shrinks: "wild_questions t d a n = Some (t', d', a', n') \<Longrightarrow> length t' \<le> length t"
  by (induction t d a n rule: wild_questions.induct) (auto split: if_splits)

text \<open>The \<open>do ... while (*tstr == '*')\<close> loop: scan forward until a non-wildcard.\<close>

datatype stars_result = SFail args | SFast string string args | SScan string string string nat nat nat args

function wild_stars :: "nat \<Rightarrow> string \<Rightarrow> string \<Rightarrow> string \<Rightarrow> nat \<Rightarrow> nat \<Rightarrow> args \<Rightarrow> stars_result" where
  "wild_stars numargs tstr dstr datapos arg argpos args =
     (let (full, datapos1, argpos1, args1) =
            (if argpos < arg then
               (let a = args[argpos := Some []]
                in if Suc argpos \<ge> numargs then (True, datapos, Suc argpos, a)
                   else wild_fill numargs arg datapos (Suc argpos) a)
             else (False, datapos, argpos, args))
      in if full then SFast tstr dstr args1
         else (case wild_questions (tl tstr) dstr (Suc arg) 0 of
                 None \<Rightarrow> SFail args1
               | Some (t, d, arg', numextra) \<Rightarrow>
                   (if deref t = CHR ''*'' then wild_stars numargs t d datapos1 arg' argpos1 args1
                    else SScan t d datapos1 arg' argpos1 numextra args1)))"
  by pat_completeness auto

lemma wild_questions_tl_less:
  "wild_questions (tl t) d a n = Some (t', d', a', n') \<Longrightarrow> deref t' = CHR ''*'' \<Longrightarrow> length t' < length t"
  using wild_questions_shrinks [of "tl t" d a n t' d' a' n'] by (cases t; cases t') auto

termination wild_stars
  by (relation "measure (\<lambda>(n, t, d, dp, arg, ap, args). length t)") (auto dest: wild_questions_tl_less)

declare wild_stars.simps [simp del]

text \<open>A match was found: fill in the star and the question marks that are left.\<close>

function wild_trailing :: "nat \<Rightarrow> string \<Rightarrow> nat \<Rightarrow> nat \<Rightarrow> args \<Rightarrow> args" where
  "wild_trailing numargs datapos argpos numextra args =
     (if numextra = 0 \<or> argpos \<ge> numargs then args
      else wild_trailing numargs (tl datapos) (Suc argpos) (numextra - 1)
             (args[argpos := Some (char_arg (deref datapos))]))"
  by pat_completeness auto
termination
  by (relation "measure (\<lambda>(n, dp, ap, ne, args). ne)") auto

declare wild_trailing.simps [simp del]

definition wild_finish :: "nat \<Rightarrow> string \<Rightarrow> string \<Rightarrow> nat \<Rightarrow> nat \<Rightarrow> args \<Rightarrow> args" where
  "wild_finish numargs datapos dstr argpos numextra args =
     (let k = length datapos - length dstr - numextra
      in wild_trailing numargs (drop k datapos) (Suc argpos) numextra (args[argpos := Some (take k datapos)]))"

lemma wild_head_shrinks: "wild_head n t d arg args = HStar t' d' arg' args' \<Longrightarrow> length t' \<le> length t \<and> deref t' = CHR ''*''"
proof (induction n t d arg args rule: wild_head.induct)
  case (2 n t d ds arg args)
  define u where "u = (if deref t = BACKSLASH then tl t else t)"
  consider "deref t = CHR ''*''" | "deref t = CHR ''?''"
    | "deref t \<noteq> CHR ''*''" "deref t \<noteq> CHR ''?''" by blast
  then show ?case
  proof cases
    case 3
    have "length t' \<le> length (tl u) \<and> deref t' = CHR ''*''"
      using 3 "2.IH"(2) [OF _ _ u_def] "2.prems" by (auto simp: u_def [symmetric] Let_def split: if_splits)
    moreover have "length (tl u) \<le> length t" by (simp add: u_def)
    ultimately show ?thesis by linarith
  next
    case 2
    then have "length t' \<le> length (tl t) \<and> deref t' = CHR ''*''"
      using "2.IH"(1) "2.prems" by (auto simp: Let_def split: if_splits)
    moreover have "length (tl t) \<le> length t" by simp
    ultimately show ?thesis by linarith
  qed (use "2.prems" in simp)
qed (auto simp: Let_def split: if_splits)

lemma wild_stars_shrinks:
  "wild_stars n t d dp arg ap args = SScan t' d' dp' arg' ap' ne args' \<Longrightarrow> length t' \<le> length (tl t)"
proof (induction n t d dp arg ap args rule: wild_stars.induct)
  case (1 n t d dp arg ap args)
  obtain full dp1 ap1 a1 where s: "(if ap < arg then
               (let a = args[ap := Some []]
                in if Suc ap \<ge> n then (True, dp, Suc ap, a) else wild_fill n arg dp (Suc ap) a)
             else (False, dp, ap, args)) = (full, dp1, ap1, a1)" by (metis surj_pair)
  have "\<not> full" using "1.prems" by (subst (asm) wild_stars.simps) (auto simp: s)
  then obtain t2 d2 arg2 ne2 where q: "wild_questions (tl t) d (Suc arg) 0 = Some (t2, d2, arg2, ne2)"
    using "1.prems" by (subst (asm) wild_stars.simps) (auto simp: s split: option.splits)
  have le: "length t2 \<le> length (tl t)" by (rule wild_questions_shrinks [OF q])
  show ?case
  proof (cases "deref t2 = CHR ''*''")
    case True
    have e: "wild_stars n t d dp arg ap args = wild_stars n t2 d2 dp1 arg2 ap1 a1"
      using \<open>\<not> full\<close> q True by (subst wild_stars.simps) (simp add: s)
    have "length t' \<le> length (tl t2)"
      using "1.IH" [OF s [symmetric] refl refl refl \<open>\<not> full\<close> q refl refl refl True] "1.prems" e by simp
    then show ?thesis using le by simp
  next
    case False
    then show ?thesis using "1.prems" le \<open>\<not> full\<close> q by (subst (asm) wild_stars.simps) (auto simp: s)
  qed
qed

function wild1 :: "int \<Rightarrow> nat \<Rightarrow> string \<Rightarrow> string \<Rightarrow> nat \<Rightarrow> int \<Rightarrow> args \<Rightarrow> bool \<times> int \<times> args"
  and wild1_scan :: "int \<Rightarrow> nat \<Rightarrow> char \<Rightarrow> string \<Rightarrow> string \<Rightarrow> nat \<Rightarrow> int \<Rightarrow> args \<Rightarrow> string option \<times> int \<times> args" where
  "wild1 wildmatch_lim numargs tstr dstr arg loopCntr args =
     (if loopCntr > wildmatch_lim then (False, loopCntr, args)
      else
        (let cnt = loopCntr + 1
         in case wild_head numargs tstr dstr arg args of
              HDone r a \<Rightarrow> (r, cnt, a)
            | HFast t d a \<Rightarrow> (let r = quick_wild_internal wildmatch_lim t d cnt in (fst r, snd r, a))
            | HStar t1 d1 arg1 a1 \<Rightarrow>
                (if tl t1 = [] then (True, cnt, a1[arg1 := Some (take (LBUF_SIZE - 1) d1)])
                 else
                   (case wild_stars numargs t1 d1 d1 arg1 arg1 a1 of
                      SFail a \<Rightarrow> (False, cnt, a)
                    | SFast t d a \<Rightarrow> (let r = quick_wild_internal wildmatch_lim t d cnt in (fst r, snd r, a))
                    | SScan t2 d2 datapos arg2 argpos numextra a2 \<Rightarrow>
                        (case (if deref t2 = BACKSLASH then tl t2 else t2) of
                           [] \<Rightarrow> (True, cnt, wild_finish numargs datapos [] argpos numextra a2)
                         | c # t4 \<Rightarrow>
                             (let s = wild1_scan wildmatch_lim numargs c t4 d2 arg2 cnt a2
                              in case fst s of
                                   None \<Rightarrow> (False, snd s)
                                 | Some d \<Rightarrow>
                                     (True, fst (snd s),
                                      wild_finish numargs datapos d argpos numextra (snd (snd s)))))))))"
| "wild1_scan wildmatch_lim numargs c tstr [] arg cnt args = (None, cnt, args)"
| "wild1_scan wildmatch_lim numargs c tstr (d # dstr) arg cnt args =
     (if NOTEQUAL d c then wild1_scan wildmatch_lim numargs c tstr dstr arg cnt args
      else
        (let r = (if arg < numargs then wild1 wildmatch_lim numargs tstr dstr arg cnt args
                  else (let q = quick_wild_internal wildmatch_lim tstr dstr cnt in (fst q, snd q, args)))
         in if fst r then (Some (d # dstr), snd r)
            else wild1_scan wildmatch_lim numargs c tstr dstr arg (fst (snd r)) (snd (snd r))))"
  by pat_completeness auto

lemma wild1_star_less:
  assumes "wild_head n t d arg args = HStar t1 d1 arg1 a1" "wild_stars n t1 d1 dp arg1 ap1 a = SScan t2 d2 dp2 arg2 ap2 ne a2"
    "(if deref t2 = BACKSLASH then tl t2 else t2) = c # t4"
  shows "Suc (length t4) < length t"
proof -
  have "Suc (length t4) \<le> length t2" using assms(3) arg_cong [OF assms(3), of length] by (cases t2) (auto split: if_splits)
  moreover have "length t2 \<le> length (tl t1)" by (rule wild_stars_shrinks [OF assms(2)])
  moreover have "length (tl t1) < length t" using wild_head_shrinks [OF assms(1)] by (cases t1) auto
  ultimately show ?thesis by linarith
qed

termination wild1
  by (relation "measures [\<lambda>x. case x of Inl (_, _, t, d, _) \<Rightarrow> length t | Inr (_, _, c, t, d, _) \<Rightarrow> Suc (length t),
                          \<lambda>x. case x of Inl (_, _, t, d, _) \<Rightarrow> length d | Inr (_, _, c, t, d, _) \<Rightarrow> length d]")
     (auto simp: wild1_star_less)

declare wild1.simps [simp del]

text \<open>The first loop of \<open>wild\<close>, up to a wildcard, and the allocation of the buffers.\<close>

fun wild_fast :: "string \<Rightarrow> string \<Rightarrow> bool + string \<times> string" where
  "wild_fast tstr [] =
     (if deref tstr = CHR ''*'' \<or> deref tstr = CHR ''?'' then Inr (tstr, [])
      else
        (let t = (if deref tstr = BACKSLASH then tl tstr else tstr)
         in if NOTEQUAL NUL (deref t) then Inl False else Inl True))"
| "wild_fast tstr (d # dstr) =
     (if deref tstr = CHR ''*'' \<or> deref tstr = CHR ''?'' then Inr (tstr, d # dstr)
      else
        (let t = (if deref tstr = BACKSLASH then tl tstr else tstr)
         in if NOTEQUAL d (deref t) then Inl False else wild_fast (tl t) dstr))"

fun wild_alloc :: "string \<Rightarrow> nat \<Rightarrow> nat \<Rightarrow> args \<Rightarrow> args" where
  "wild_alloc [] i nargs args = args"
| "wild_alloc (c # scan) i nargs args =
     (if i < nargs then
        (if c = CHR ''?'' \<or> c = CHR ''*'' then wild_alloc scan (Suc i) nargs (args[i := Some []])
         else wild_alloc scan i nargs args)
      else args)"

definition wild_clean :: "bool \<Rightarrow> args \<Rightarrow> args" where
  "wild_clean v args = map (\<lambda>a. case a of None \<Rightarrow> None | Some s \<Rightarrow> if s = [] \<or> \<not> v then None else Some s) args"

definition wild :: "int \<Rightarrow> string \<Rightarrow> string \<Rightarrow> nat \<Rightarrow> bool \<times> args" where
  "wild wildmatch_lim tstr dstr nargs =
     (let args = replicate nargs None
      in case wild_fast tstr dstr of
           Inl r \<Rightarrow> (r, args)
         | Inr (t, d) \<Rightarrow>
             (let a = wild_alloc t 0 nargs args;
                  (v, cnt, a') =
                    (if nargs \<noteq> 0 then wild1 wildmatch_lim nargs t d 0 0 a
                     else (let r = quick_wild_internal wildmatch_lim t d 0 in (fst r, snd r, a)))
              in (v, wild_clean v a')))"

text \<open>\<open>strcmp\<close>, as its sign is used.\<close>

fun strcmp :: "string \<Rightarrow> string \<Rightarrow> int" where
  "strcmp (a # s) (b # t) = (if a = b then strcmp s t else int (ccode a) - int (ccode b))"
| "strcmp s t = int (ccode (deref s)) - int (ccode (deref t))"

definition wild_match :: "int \<Rightarrow> string \<Rightarrow> string \<Rightarrow> nat \<Rightarrow> bool \<Rightarrow> bool \<times> args" where
  "wild_match wildmatch_lim tstr dstr nargs ck_arith =
     (let t = tl tstr; numeric = (is_digit (deref t) \<or> deref t = CHR ''-'')
      in if ck_arith \<and> deref tstr = CHR ''>'' then
           (if numeric then atoi t < atoi dstr else strcmp t dstr < 0, replicate nargs None)
         else if ck_arith \<and> deref tstr = CHR ''<'' then
           (if numeric then atoi t > atoi dstr else strcmp t dstr > 0, replicate nargs None)
         else if nargs \<noteq> 0 then wild wildmatch_lim tstr dstr nargs
         else (quick_wild wildmatch_lim tstr dstr, []))"

end
