(* ===== verification/Wild_Laws.thy ===== *)
theory Wild_Laws
  imports Wild
begin

section \<open>What a wildcard match returns\<close>

text \<open>
  The meaning of a pattern as a list of tokens, a match as a way to cut the text into one
  piece per token, and the proofs that the quick matcher decides it (as long as the call
  counter stays within its limit) and that \<open>wild\<close> returns the pieces of the wildcards.
\<close>

subsection \<open>What a pattern means\<close>

datatype wtok = Lit char | Any | Star

fun wtokens :: "string \<Rightarrow> wtok list" where
  "wtokens [] = []"
| "wtokens (c # t) =
     (if c = CHR ''*'' then Star # wtokens t
      else if c = CHR ''?'' then Any # wtokens t
      else if c = BACKSLASH then (case t of [] \<Rightarrow> [] | e # t' \<Rightarrow> Lit e # wtokens t')
      else Lit c # wtokens t)"

text \<open>The piece of the data that a token may stand for.\<close>

fun piece_ok :: "wtok \<Rightarrow> string \<Rightarrow> bool" where
  "piece_ok (Lit c) p = (case p of [x] \<Rightarrow> ToLower x = ToLower c | _ \<Rightarrow> False)"
| "piece_ok Any p = (length p = 1)"
| "piece_ok Star p = True"

text \<open>A pattern matches a text when the text can be cut into such pieces.\<close>

definition glob :: "wtok list \<Rightarrow> string \<Rightarrow> bool" where
  "glob p d \<longleftrightarrow> (\<exists>pieces. list_all2 piece_ok p pieces \<and> concat pieces = d)"

lemma glob_Nil [simp]: "glob [] d \<longleftrightarrow> d = []"
  by (auto simp: glob_def)

lemma glob_Cons: "glob (x # p) d \<longleftrightarrow> (\<exists>a b. d = a @ b \<and> piece_ok x a \<and> glob p b)"
proof
  assume "glob (x # p) d"
  then obtain a pieces where "d = a @ concat pieces" "piece_ok x a" "list_all2 piece_ok p pieces"
    by (auto simp: glob_def list_all2_Cons1)
  then show "\<exists>a b. d = a @ b \<and> piece_ok x a \<and> glob p b" unfolding glob_def by blast
next
  assume "\<exists>a b. d = a @ b \<and> piece_ok x a \<and> glob p b"
  then obtain a b pieces where "d = a @ b" "piece_ok x a" "list_all2 piece_ok p pieces" "concat pieces = b"
    by (auto simp: glob_def)
  then show "glob (x # p) d" unfolding glob_def by (intro exI [of _ "a # pieces"]) simp
qed

lemma piece_ok_iff:
  "piece_ok (Lit c) p \<longleftrightarrow> (\<exists>x. p = [x] \<and> ToLower x = ToLower c)"
  "piece_ok Any p \<longleftrightarrow> (\<exists>x. p = [x])"
  by (auto simp: length_Suc_conv split: list.splits)

declare piece_ok.simps(1,2) [simp del]

lemma one_piece: "(\<exists>a b. x # d = a @ b \<and> (\<exists>y. a = [y] \<and> P y) \<and> Q b) \<longleftrightarrow> P x \<and> Q d"
proof
  assume "P x \<and> Q d"
  then have "x # d = [x] @ d \<and> (\<exists>y. [x] = [y] \<and> P y) \<and> Q d" by simp
  then show "\<exists>a b. x # d = a @ b \<and> (\<exists>y. a = [y] \<and> P y) \<and> Q b" by blast
qed auto

lemma glob_Lit [simp]:
  "glob (Lit c # p) [] = False"
  "glob (Lit c # p) (x # d) \<longleftrightarrow> ToLower x = ToLower c \<and> glob p d"
  by (simp add: glob_Cons piece_ok_iff, simp add: glob_Cons piece_ok_iff one_piece)

lemma glob_Any [simp]:
  "glob (Any # p) [] = False"
  "glob (Any # p) (x # d) \<longleftrightarrow> glob p d"
  using one_piece [of x d "\<lambda>_. True" "glob p"] by (simp_all add: glob_Cons piece_ok_iff)

lemma glob_Star: "glob (Star # p) d \<longleftrightarrow> (\<exists>a b. d = a @ b \<and> glob p b)"
  by (simp add: glob_Cons)

lemma glob_Star_Nil [simp]: "glob [Star] d"
  by (auto simp: glob_Star)

lemma glob_Star_rec: "glob (Star # p) (x # d) \<longleftrightarrow> glob p (x # d) \<or> glob (Star # p) d"
  unfolding glob_Star by (metis append_Cons append_Nil append_eq_Cons_conv)

lemma glob_Star_empty: "glob (Star # p) [] \<longleftrightarrow> glob p []"
  by (auto simp: glob_Star)

lemma glob_Star_Star [simp]: "glob (Star # Star # p) d \<longleftrightarrow> glob (Star # p) d"
  unfolding glob_Star [of "Star # p"] glob_Star [of p] by (metis append.assoc append_Nil)

lemma glob_Star_Any [simp]: "glob (Star # Any # p) d \<longleftrightarrow> (\<exists>x d'. d = x # d' \<and> glob (Star # p) d')"
proof (induction d)
  case Nil
  show ?case by (simp add: glob_Star_empty)
next
  case (Cons x d)
  have "glob (Star # p) d \<or> glob (Star # Any # p) d \<longleftrightarrow> glob (Star # p) d"
    using Cons.IH glob_Star_rec by (cases d) auto
  moreover have "glob p d \<Longrightarrow> glob (Star # p) d" by (auto simp: glob_Star)
  moreover have "glob (Star # p) d \<Longrightarrow> glob p d \<or> glob (Star # Any # p) d"
    using Cons.IH glob_Star_rec [of p] glob_Star_empty [of p] by (cases d) auto
  ultimately show ?case by (auto simp: glob_Star_rec)
qed

subsection \<open>The quick matcher is right\<close>

lemma deref_not_NUL: "cstring t \<Longrightarrow> deref t \<noteq> NUL \<Longrightarrow> t = deref t # tl t"
  by (cases t) auto

lemma wtokens_literal:
  assumes "cstring t" "deref t \<noteq> CHR ''*''" "deref t \<noteq> CHR ''?''"
  shows "wtokens t =
    (let u = (if deref t = BACKSLASH then tl t else t)
     in if u = [] then [] else Lit (hd u) # wtokens (tl u))"
  using assms by (cases t) (auto simp: Let_def split: list.splits)

lemma quick_head_correct:
  "cstring t \<Longrightarrow> cstring d \<Longrightarrow>
     (case quick_head t d of
        Inl r \<Rightarrow> r = glob (wtokens t) d
      | Inr (t', d') \<Rightarrow> cstring t' \<and> cstring d' \<and> (\<exists>u. t' = CHR ''*'' # u) \<and>
          glob (wtokens t) d = glob (wtokens t') d')"
proof (induction t d rule: quick_head.induct)
  case (1 t)
  define u where "u = (if deref t = BACKSLASH then tl t else t)"
  have u: "cstring u" using "1.prems" by (cases t) (auto simp: u_def)
  show ?case
  proof (cases "deref t = CHR ''*'' \<or> deref t = CHR ''?''")
    case True
    then show ?thesis using "1.prems" by (cases t) auto
  next
    case False
    then show ?thesis
      using "1.prems" wtokens_literal [of t] u
      by (cases u) (auto simp: u_def [symmetric] Let_def)
  qed
next
  case (2 t x d)
  define u where "u = (if deref t = BACKSLASH then tl t else t)"
  have u: "cstring u" using "2.prems" by (cases t) (auto simp: u_def)
  consider "deref t = CHR ''*''" | "deref t = CHR ''?''" | "deref t \<noteq> CHR ''*''" "deref t \<noteq> CHR ''?''"
    by blast
  then show ?case
  proof cases
    case 1
    then show ?thesis using "2.prems" by (cases t) auto
  next
    case 2
    then obtain v where v: "t = CHR ''?'' # v" by (cases t) auto
    then show ?thesis using "2.IH"(1) "2.prems" by (auto split: sum.splits)
  next
    case 3
    have w: "wtokens t = (if u = [] then [] else Lit (hd u) # wtokens (tl u))"
      using wtokens_literal [OF "2.prems"(1) 3] by (simp add: u_def [symmetric] Let_def)
    have q: "quick_head t (x # d) = (if NOTEQUAL x (deref u) then Inl False else quick_head (tl u) d)"
      using 3 by (simp add: u_def [symmetric] Let_def)
    have x: "ToLower x \<noteq> NUL" using "2.prems"(2) by simp
    show ?thesis
    proof (cases "u = [] \<or> ToLower x \<noteq> ToLower (hd u)")
      case True
      then have "quick_head t (x # d) = Inl False"
        using x by (cases u) (auto simp: q simp del: quick_head.simps)
      then show ?thesis using True w by (cases u) (auto simp del: quick_head.simps)
    next
      case False
      then have eq: "quick_head t (x # d) = quick_head (tl u) d" "glob (wtokens t) (x # d) = glob (wtokens (tl u)) d"
        by (cases u; simp add: q w del: quick_head.simps)+
      have "cstring (tl u)" "cstring d" using u "2.prems" by (cases u; simp)+
      then have "case quick_head (tl u) d of
          Inl r \<Rightarrow> r = glob (wtokens (tl u)) d
        | Inr (t', d') \<Rightarrow> cstring t' \<and> cstring d' \<and> (\<exists>v. t' = CHR ''*'' # v) \<and>
            glob (wtokens (tl u)) d = glob (wtokens t') d'"
        using "2.IH"(2) [OF 3 u_def] False by (cases u) auto
      then show ?thesis unfolding eq .
    qed
  qed
qed

lemma skip_wilds_correct:
  "cstring t \<Longrightarrow> cstring d \<Longrightarrow>
     (case skip_wilds t d of
        None \<Rightarrow> \<not> glob (Star # wtokens t) d
      | Some (t', d') \<Rightarrow> cstring t' \<and> cstring d' \<and> deref t' \<noteq> CHR ''*'' \<and> deref t' \<noteq> CHR ''?'' \<and>
          glob (Star # wtokens t) d = glob (Star # wtokens t') d')"
proof (induction t d rule: skip_wilds.induct)
  case (2 c t d)
  show ?case
  proof (cases "c = CHR ''?''")
    case True
    show ?thesis
    proof (cases d)
      case Nil
      with True show ?thesis by simp
    next
      case (Cons x e)
      with True 2 show ?thesis by (auto split: option.splits)
    qed
  next
    case False
    with 2 show ?thesis by (auto split: option.splits)
  qed
qed simp

text \<open>
  A positive answer is always right; a negative one is when the counter stayed within its
  limit, so that no call was refused.
\<close>

lemma counter_grows:
  "loopCntr \<le> snd (quick_wild_internal lim t d loopCntr)"
  "cnt \<le> snd (quick_scan lim c t d cnt)"
proof (induction lim t d loopCntr and lim c t d cnt rule: quick_wild_internal_quick_scan.induct)
  case (1 lim t d cnt)
  then show ?case
    by (subst quick_wild_internal.simps) (fastforce simp: Let_def split: sum.splits option.splits list.splits)
next
  case (3 lim c t d ds cnt)
  show ?case
  proof (cases "ToLower d = ToLower c")
    case True
    define r where "r = quick_wild_internal lim t ds cnt"
    have "cnt \<le> snd r" using 3(1) True by (simp add: r_def)
    moreover have "\<not> fst r \<Longrightarrow> snd r \<le> snd (quick_scan lim c t ds (snd r))"
      using 3(2) [OF True r_def] .
    ultimately show ?thesis using True by (auto simp: r_def [symmetric] Let_def)
  next
    case False
    then show ?thesis using 3(3) by simp
  qed
qed simp

definition answer_ok :: "int \<Rightarrow> bool \<times> int \<Rightarrow> bool \<Rightarrow> bool" where
  "answer_ok lim r spec \<longleftrightarrow> (fst r \<longrightarrow> spec) \<and> (snd r \<le> lim \<longrightarrow> spec \<longrightarrow> fst r)"

lemma quick_correct:
  "cstring t \<Longrightarrow> cstring d \<Longrightarrow>
     answer_ok lim (quick_wild_internal lim t d cnt) (glob (wtokens t) d)"
  "cstring t \<Longrightarrow> cstring d \<Longrightarrow>
     answer_ok lim (quick_scan lim c t d cnt) (glob (Star # Lit c # wtokens t) d)"
proof (induction lim t d cnt and lim c t d cnt rule: quick_wild_internal_quick_scan.induct)
  case (1 lim t d cnt)
  show ?case
  proof (cases "cnt > lim")
    case True
    then show ?thesis by (subst quick_wild_internal.simps) (simp add: answer_ok_def)
  next
    case lim: False
    show ?thesis
    proof (cases "t = []")
      case True
      then show ?thesis using lim by (subst quick_wild_internal.simps) (simp add: answer_ok_def Let_def)
    next
      case t: False
      show ?thesis
      proof (cases "quick_head t d")
        case (Inl r)
        then show ?thesis using quick_head_correct [OF "1.prems"] lim t
          by (subst quick_wild_internal.simps) (simp add: answer_ok_def Let_def)
      next
        case (Inr p)
        then obtain u d1 where p: "quick_head t d = Inr (CHR ''*'' # u, d1)" "cstring u" "cstring d1"
          "glob (wtokens t) d = glob (Star # wtokens u) d1"
          using quick_head_correct [OF "1.prems"] by (cases p) auto
        show ?thesis
        proof (cases "u = []")
          case True
          then show ?thesis using p lim t
            by (subst quick_wild_internal.simps) (simp add: answer_ok_def Let_def)
        next
          case u: False
          show ?thesis
          proof (cases "skip_wilds u d1")
            case None
            then show ?thesis using skip_wilds_correct [OF p(2,3)] p(1,4) lim t u
              by (subst quick_wild_internal.simps) (simp add: answer_ok_def Let_def)
          next
            case (Some q)
            then obtain t3 d3 where q: "skip_wilds u d1 = Some (t3, d3)" "cstring t3" "cstring d3"
              "deref t3 \<noteq> CHR ''*''" "deref t3 \<noteq> CHR ''?''"
              "glob (wtokens t) d = glob (Star # wtokens t3) d3"
              using skip_wilds_correct [OF p(2,3)] p(4) by (cases q) auto
            define v where "v = (if deref t3 = BACKSLASH then tl t3 else t3)"
            have w: "wtokens t3 = (if v = [] then [] else Lit (hd v) # wtokens (tl v))"
              using wtokens_literal [OF q(2,4,5)] by (simp add: v_def [symmetric] Let_def)
            show ?thesis
            proof (cases v)
              case Nil
              then show ?thesis using p(1) q(1,6) w lim t u
                by (subst quick_wild_internal.simps) (simp add: answer_ok_def Let_def v_def [symmetric])
            next
              case (Cons c t4)
              have "cstring t4" using q(2) Cons by (cases t3) (auto simp: v_def split: if_splits)
              with "1.IH" have "answer_ok lim (quick_scan lim c t4 d3 (cnt + 1)) (glob (Star # Lit c # wtokens t4) d3)"
                using lim t p(1) u q(1,3) Cons by (auto simp: v_def)
              moreover have "quick_wild_internal lim t d cnt = quick_scan lim c t4 d3 (cnt + 1)"
                using p(1) q(1) lim t u Cons
                by (subst quick_wild_internal.simps) (simp add: Let_def v_def [symmetric])
              ultimately show ?thesis using q(6) w Cons by simp
            qed
          qed
        qed
      qed
    qed
  qed
next
  case (2 lim c t cnt)
  then show ?case by (simp add: answer_ok_def glob_Star_empty)
next
  case (3 lim c t x d cnt)
  have cs: "cstring d" using "3.prems" by simp
  show ?case
  proof (cases "ToLower x = ToLower c")
    case True
    define r where "r = quick_wild_internal lim t d cnt"
    have 1: "answer_ok lim r (glob (wtokens t) d)" using "3.IH"(1) True "3.prems"(1) cs by (simp add: r_def)
    show ?thesis
    proof (cases "fst r")
      case f: True
      then show ?thesis using 1 True by (simp add: r_def [symmetric] answer_ok_def glob_Star_rec Let_def)
    next
      case f: False
      have 2: "answer_ok lim (quick_scan lim c t d (snd r)) (glob (Star # Lit c # wtokens t) d)"
        using "3.IH"(2) [OF True r_def f "3.prems"(1) cs] .
      have "snd r \<le> snd (quick_scan lim c t d (snd r))" by (rule counter_grows)
      then show ?thesis using 1 2 True f
        by (auto simp: r_def [symmetric] answer_ok_def glob_Star_rec Let_def)
    qed
  next
    case False
    then show ?thesis using "3.IH"(3) "3.prems"(1) cs by (simp add: answer_ok_def glob_Star_rec)
  qed
qed

subsection \<open>What the arguments hold\<close>

text \<open>The pieces that wildcards stand for, in order.\<close>

fun caps :: "wtok list \<Rightarrow> string list \<Rightarrow> string list" where
  "caps (Lit c # p) (x # xs) = caps p xs"
| "caps (w # p) (x # xs) = x # caps p xs"
| "caps _ _ = []"

fun wilds :: "wtok list \<Rightarrow> nat" where
  "wilds [] = 0"
| "wilds (Lit c # p) = wilds p"
| "wilds (w # p) = Suc (wilds p)"

lemma length_caps: "list_all2 piece_ok p xs \<Longrightarrow> length (caps p xs) = wilds p"
  by (induction p xs rule: caps.induct) auto

lemma wilds_append: "wilds (p @ q) = wilds p + wilds q"
  by (induction p rule: wilds.induct) auto

text \<open>The arguments from \<open>arg\<close> on hold what the wildcards of \<open>p\<close> match in \<open>d\<close>.\<close>

definition captured :: "nat \<Rightarrow> nat \<Rightarrow> wtok list \<Rightarrow> string \<Rightarrow> args \<Rightarrow> bool" where
  "captured n arg p d a \<longleftrightarrow>
     (\<exists>xs. list_all2 piece_ok p xs \<and> concat xs = d \<and>
        (\<forall>j<wilds p. arg + j < n \<longrightarrow> a ! (arg + j) = Some (caps p xs ! j)))"

text \<open>Two argument lists agree outside of \<open>k\<close> places from \<open>lo\<close> on.\<close>

definition within :: "nat \<Rightarrow> nat \<Rightarrow> args \<Rightarrow> args \<Rightarrow> bool" where
  "within lo k a b \<longleftrightarrow> length a = length b \<and> (\<forall>i. i < lo \<or> lo + k \<le> i \<longrightarrow> a ! i = b ! i)"

lemma within_refl [simp]: "within lo k a a"
  by (simp add: within_def)

lemma within_trans: "within lo k a b \<Longrightarrow> within lo k b c \<Longrightarrow> within lo k a c"
  by (simp add: within_def)

lemma within_mono: "within lo k a b \<Longrightarrow> lo' \<le> lo \<Longrightarrow> lo + k \<le> lo' + k' \<Longrightarrow> within lo' k' a b"
  unfolding within_def by auto

lemma within_update: "lo \<le> i \<Longrightarrow> i < lo + k \<Longrightarrow> within lo k a (a[i := x])"
  by (auto simp: within_def nth_list_update)

lemma captured_glob: "captured n arg p d a \<Longrightarrow> glob p d"
  by (auto simp: captured_def glob_def)

lemma captured_full: "n \<le> arg \<Longrightarrow> captured n arg p d a \<longleftrightarrow> glob p d"
  by (auto simp: captured_def glob_def)

lemma captured_Nil [simp]: "captured n arg [] d a \<longleftrightarrow> d = []"
  by (auto simp: captured_def)

lemma captured_Lit:
  "ToLower x = ToLower c \<Longrightarrow> captured n arg p d a \<Longrightarrow> captured n arg (Lit c # p) (x # d) a"
proof -
  assume "ToLower x = ToLower c" "captured n arg p d a"
  then obtain xs where "list_all2 piece_ok p xs" "concat xs = d"
    "\<forall>j<wilds p. arg + j < n \<longrightarrow> a ! (arg + j) = Some (caps p xs ! j)" by (auto simp: captured_def)
  with \<open>ToLower x = ToLower c\<close> show ?thesis
    unfolding captured_def by (intro exI [of _ "[x] # xs"]) (simp add: piece_ok_iff)
qed

lemma captured_wild:
  assumes "w = Any \<and> length s = 1 \<or> w = Star" "arg < n \<Longrightarrow> a ! arg = Some s" "captured n (Suc arg) p d a"
  shows "captured n arg (w # p) (s @ d) a"
proof -
  obtain xs where xs: "list_all2 piece_ok p xs" "concat xs = d"
    "\<forall>j<wilds p. Suc arg + j < n \<longrightarrow> a ! (Suc arg + j) = Some (caps p xs ! j)"
    using assms(3) by (auto simp: captured_def)
  have w: "wilds (w # p) = Suc (wilds p)" "caps (w # p) (s # xs) = s # caps p xs" "piece_ok w s"
    using assms(1) by (cases s; auto simp: piece_ok_iff)+
  have "a ! (arg + j) = Some (caps (w # p) (s # xs) ! j)" if "j < wilds (w # p)" "arg + j < n" for j
    using that xs(3) assms(2) w by (cases j) auto
  then show ?thesis unfolding captured_def using xs w by (intro exI [of _ "s # xs"]) simp
qed

lemma captured_agree:
  "captured n arg p d a \<Longrightarrow> (\<And>i. arg \<le> i \<Longrightarrow> i < arg + wilds p \<Longrightarrow> i < n \<Longrightarrow> a ! i = b ! i) \<Longrightarrow> captured n arg p d b"
  unfolding captured_def by (metis le_add1 nat_add_left_cancel_less)

lemma char_arg [simp]: "c \<noteq> NUL \<Longrightarrow> char_arg c = [c]"
  by (simp add: char_arg_def)

lemma captured_Any:
  "x \<noteq> NUL \<Longrightarrow> (arg < n \<Longrightarrow> a ! arg = Some (char_arg x)) \<Longrightarrow> captured n (Suc arg) p d a \<Longrightarrow>
     captured n arg (Any # p) (x # d) a"
  using captured_wild [of Any "[x]" arg n a p d] by simp

subsection \<open>The first loop\<close>

fun head_ok :: "nat \<Rightarrow> string \<Rightarrow> string \<Rightarrow> nat \<Rightarrow> args \<Rightarrow> head_result \<Rightarrow> bool" where
  "head_ok n t d arg args (HDone r a) \<longleftrightarrow>
     r = glob (wtokens t) d \<and> within arg (wilds (wtokens t)) args a \<and>
     (r \<longrightarrow> captured n arg (wtokens t) d a)"
| "head_ok n t d arg args (HFast t' d' a) \<longleftrightarrow>
     cstring t' \<and> cstring d' \<and> glob (wtokens t) d = glob (wtokens t') d' \<and>
     within arg (wilds (wtokens t)) args a \<and>
     (glob (wtokens t') d' \<longrightarrow> captured n arg (wtokens t) d a)"
| "head_ok n t d arg args (HStar t' d' arg' a) \<longleftrightarrow>
     cstring t' \<and> cstring d' \<and> (\<exists>u. t' = CHR ''*'' # u) \<and>
     glob (wtokens t) d = glob (wtokens t') d' \<and> arg \<le> arg' \<and> arg' < n \<and> length d' \<le> length d \<and>
     arg' + wilds (wtokens t') = arg + wilds (wtokens t) \<and> within arg (arg' - arg) args a \<and>
     (\<forall>b. (\<forall>i<arg'. b ! i = a ! i) \<longrightarrow> captured n arg' (wtokens t') d' b \<longrightarrow> captured n arg (wtokens t) d b)"

lemma wild_head_correct:
  "cstring t \<Longrightarrow> cstring d \<Longrightarrow> arg < n \<Longrightarrow> length args = n \<Longrightarrow>
     head_ok n t d arg args (wild_head n t d arg args)"
proof (induction n t d arg args rule: wild_head.induct)
  case (1 n t arg args)
  define u where "u = (if deref t = BACKSLASH then tl t else t)"
  show ?case
  proof (cases "deref t = CHR ''*'' \<or> deref t = CHR ''?''")
    case True
    then show ?thesis using "1.prems" by (cases t) auto
  next
    case False
    then have w: "wtokens t = (if u = [] then [] else Lit (hd u) # wtokens (tl u))"
      using wtokens_literal [of t] "1.prems"(1) by (simp add: u_def [symmetric] Let_def)
    have "cstring u" using "1.prems"(1) by (cases t) (auto simp: u_def)
    then show ?thesis using False w by (cases u) (auto simp: u_def [symmetric] Let_def)
  qed
next
  case (2 n t x d arg args)
  have x: "x \<noteq> NUL" "cstring d" using "2.prems"(2) by simp_all
  define u where "u = (if deref t = BACKSLASH then tl t else t)"
  consider "deref t = CHR ''*''" | "deref t = CHR ''?''" | "deref t \<noteq> CHR ''*''" "deref t \<noteq> CHR ''?''"
    by blast
  then show ?case
  proof cases
    case 1
    then show ?thesis using "2.prems" by (cases t) auto
  next
    case 2
    then obtain v where v: "t = CHR ''?'' # v" by (cases t) auto
    define a1 where "a1 = args[arg := Some (char_arg x)]"
    have cv: "cstring v" using "2.prems"(1) v by simp
    have a1: "within arg (Suc k) args a1" "a1 ! arg = Some (char_arg x)" "length a1 = n" for k
      using "2.prems"(3,4) by (simp_all add: a1_def within_update)
    show ?thesis
    proof (cases "Suc arg \<ge> n")
      case True
      then have "wild_head n t (x # d) arg args = HFast v d a1" using v by (simp add: a1_def)
      then show ?thesis
        using v cv x a1 True captured_Any [OF x(1), of arg n a1 "wtokens v" d] captured_full [OF True, of "wtokens v" d a1]
        by simp
    next
      case False
      have h: "wild_head n t (x # d) arg args = wild_head n v d (Suc arg) a1"
        using False v by (simp add: a1_def Let_def)
      have tv: "tl t = v" by (simp add: v)
      have IH: "head_ok n v d (Suc arg) a1 (wild_head n v d (Suc arg) a1)"
        using "2.IH"(1) [OF _ 2 a1_def False] 2 cv x a1(3) False unfolding tv by simp
      have keep: "within arg (Suc k) args a \<and> a ! arg = Some (char_arg x)" if "within (Suc arg) k a1 a" for a k
        using that a1(2) within_trans [OF a1(1) within_mono [OF that, of arg "Suc k"]]
        by (simp add: within_def)
      have cap: "captured n arg (wtokens t) (x # d) a"
        if "captured n (Suc arg) (wtokens v) d a" "a ! arg = Some (char_arg x)" for a
        using captured_Any [OF x(1) _ that(1)] that(2) v by simp
      show ?thesis
      proof (cases "wild_head n v d (Suc arg) a1")
        case (HDone r a)
        then show ?thesis using IH keep cap v unfolding h by auto
      next
        case (HFast t' d' a)
        then show ?thesis using IH keep cap v unfolding h by auto
      next
        case (HStar t' d' arg' a)
        have "captured n arg (wtokens t) (x # d) b"
          if "\<forall>i<arg'. b ! i = a ! i" "captured n arg' (wtokens t') d' b" for b
          using that IH keep [of "arg' - Suc arg" a] HStar cap by simp
        moreover have "within arg (arg' - arg) args a"
          using IH HStar keep [of "arg' - Suc arg" a] by (simp add: Suc_diff_Suc)
        ultimately show ?thesis using IH HStar v unfolding h by simp
      qed
    qed
  next
    case 3
    have w: "wtokens t = (if u = [] then [] else Lit (hd u) # wtokens (tl u))"
      using wtokens_literal [OF "2.prems"(1) 3] by (simp add: u_def [symmetric] Let_def)
    have q: "wild_head n t (x # d) arg args =
        (if NOTEQUAL x (deref u) then HDone False args else wild_head n (tl u) d arg args)"
      using 3 by (simp add: u_def [symmetric] Let_def)
    have u: "cstring u" using "2.prems"(1) by (cases t) (auto simp: u_def)
    show ?thesis
    proof (cases "u = [] \<or> ToLower x \<noteq> ToLower (hd u)")
      case True
      then have "wild_head n t (x # d) arg args = HDone False args"
        using x by (cases u) (auto simp: q simp del: wild_head.simps)
      then show ?thesis using True w by (cases u) (auto simp del: wild_head.simps)
    next
      case False
      then obtain c v where c: "u = c # v" "ToLower x = ToLower c" by (cases u) auto
      have h: "wild_head n t (x # d) arg args = wild_head n v d arg args" using c unfolding q by simp
      have "cstring v" using u c by simp
      note IH = "2.IH"(2) [OF 3 u_def, unfolded c(1) deref.simps list.sel NOTEQUAL_iff not_not, OF c(2) this x(2) "2.prems"(3,4)]
      have wt: "wtokens t = Lit c # wtokens v" using w c by simp
      have g: "glob (wtokens t) (x # d) = glob (wtokens v) d" "wilds (wtokens t) = wilds (wtokens v)"
        using c(2) by (simp_all add: wt)
      have cap: "captured n arg (wtokens v) d a \<Longrightarrow> captured n arg (wtokens t) (x # d) a" for a
        unfolding wt by (rule captured_Lit [OF c(2)])
      show ?thesis unfolding h g using IH cap
        by (cases "wild_head n v d arg args") (auto simp: wt c(2))
    qed
  qed
qed

subsection \<open>The loop over a run of stars and question marks\<close>

lemma captured_anys:
  "length q = m \<Longrightarrow> cstring q \<Longrightarrow> (\<forall>j<m. arg + j < n \<longrightarrow> a ! (arg + j) = Some (char_arg (q ! j))) \<Longrightarrow>
     captured n (arg + m) p d a \<Longrightarrow> captured n arg (replicate m Any @ p) (q @ d) a"
proof (induction m arbitrary: q arg)
  case (Suc m)
  then obtain x r where q: "q = x # r" "length r = m" "x \<noteq> NUL" "cstring r" by (cases q) auto
  have "captured n (Suc arg) (replicate m Any @ p) (r @ d) a"
  proof (rule Suc.IH [OF q(2,4)])
    show "\<forall>j<m. Suc arg + j < n \<longrightarrow> a ! (Suc arg + j) = Some (char_arg (r ! j))"
    proof (intro allI impI)
      fix j assume "j < m" "Suc arg + j < n"
      then show "a ! (Suc arg + j) = Some (char_arg (r ! j))" using Suc.prems(3) [rule_format, of "Suc j"] q(1) by simp
    qed
    show "captured n (Suc arg + m) p d a" using Suc.prems(4) by simp
  qed
  moreover have "arg < n \<Longrightarrow> a ! arg = Some (char_arg x)" using Suc.prems(3) [rule_format, of 0] q(1) by simp
  ultimately show ?case using captured_Any [OF q(3)] by (simp add: q(1))
qed simp

lemma glob_Star_anys: "length q = m \<Longrightarrow> glob (Star # replicate m Any @ p) (q @ d) \<longleftrightarrow> glob (Star # p) d"
proof (induction m arbitrary: q)
  case (Suc m)
  then show ?case by (cases q) auto
qed simp

lemma wilds_anys [simp]: "wilds (replicate m Any @ p) = m + wilds p"
  by (induction m) auto

lemma wild_fill_correct:
  assumes "wild_fill n arg dp ap args = (full, dp', ap', a)" "ap \<le> arg" "ap < n" "arg - ap \<le> length dp"
    "length args = n"
  shows "full \<longleftrightarrow> n \<le> arg" "\<not> full \<Longrightarrow> ap' = arg \<and> dp' = drop (arg - ap) dp"
    "within ap (arg - ap) args a"
    "\<forall>j<arg - ap. ap + j < n \<longrightarrow> a ! (ap + j) = Some (char_arg (dp ! j))"
proof -
  have "(full \<longleftrightarrow> n \<le> arg) \<and> (\<not> full \<longrightarrow> ap' = arg \<and> dp' = drop (arg - ap) dp) \<and> within ap (arg - ap) args a \<and>
      (\<forall>j<arg - ap. ap + j < n \<longrightarrow> a ! (ap + j) = Some (char_arg (dp ! j)))"
    using assms
  proof (induction n arg dp ap args arbitrary: full dp' ap' a rule: wild_fill.induct)
    case (1 n arg dp ap args)
    show ?case
    proof (cases "ap < arg")
      case False
      have "(False, dp, ap, args) = (full, dp', ap', a)"
        using "1.prems"(1) False by (subst (asm) wild_fill.simps) simp
      then show ?thesis using "1.prems"(2,3) False by auto
    next
      case less: True
      then obtain x r where dp: "dp = x # r" using "1.prems"(4) by (cases dp) auto
      define b where "b = args[ap := Some (char_arg (deref dp))]"
      have b: "within ap (arg - ap) args b" "b ! ap = Some (char_arg x)" "length b = n"
        using less "1.prems"(3,5) by (simp_all add: b_def dp within_update)
      show ?thesis
      proof (cases "Suc ap \<ge> n")
        case True
        then have "full = True" "a = b"
          using "1.prems"(1) less by (auto simp: wild_fill.simps [of n arg dp ap args] b_def [symmetric])
        moreover have "n \<le> arg" using less True by simp
        moreover have "a ! (ap + j) = Some (char_arg (dp ! j))" if "ap + j < n" for j
        proof -
          have "j = 0" using that True by simp
          then show ?thesis using b(2) dp \<open>a = b\<close> by simp
        qed
        ultimately show ?thesis using b(1) by blast
      next
        case False
        have e: "wild_fill n arg (tl dp) (Suc ap) b = (full, dp', ap', a)"
          using "1.prems"(1) less False by (simp add: wild_fill.simps [of n arg dp ap args] b_def [symmetric])
        have IH: "(full \<longleftrightarrow> n \<le> arg) \<and> (\<not> full \<longrightarrow> ap' = arg \<and> dp' = drop (arg - Suc ap) (tl dp)) \<and>
            within (Suc ap) (arg - Suc ap) b a \<and>
            (\<forall>j<arg - Suc ap. Suc ap + j < n \<longrightarrow> a ! (Suc ap + j) = Some (char_arg (tl dp ! j)))"
          using "1.IH" [OF less b_def False e] less False "1.prems"(4) b(3) by simp
        have "drop (arg - Suc ap) (tl dp) = drop (arg - ap) dp" using less dp by (simp add: drop_Cons')
        moreover have "within ap (arg - ap) b a" using IH less by (auto intro: within_mono)
        moreover have "a ! ap = Some (char_arg x)" using IH b(2) by (simp add: within_def)
        moreover have "a ! (ap + j) = Some (char_arg (dp ! j))" if "j < arg - ap" "ap + j < n" for j
        proof (cases j)
          case 0
          then show ?thesis using \<open>a ! ap = Some (char_arg x)\<close> dp by simp
        next
          case (Suc k)
          then have "k < arg - Suc ap" "Suc ap + k < n" using that by auto
          then show ?thesis using IH Suc dp by simp
        qed
        ultimately show ?thesis using IH within_trans [OF b(1)] by auto
      qed
    qed
  qed
  then show "full \<longleftrightarrow> n \<le> arg" "\<not> full \<Longrightarrow> ap' = arg \<and> dp' = drop (arg - ap) dp"
    "within ap (arg - ap) args a" "\<forall>j<arg - ap. ap + j < n \<longrightarrow> a ! (ap + j) = Some (char_arg (dp ! j))" by blast+
qed

lemma wild_questions_correct:
  "cstring t \<Longrightarrow> cstring d \<Longrightarrow>
     (case wild_questions t d arg k of
        None \<Rightarrow> \<not> glob (Star # wtokens t) d
      | Some (t', d', arg', k') \<Rightarrow> cstring t' \<and> cstring d' \<and> deref t' \<noteq> CHR ''?'' \<and>
          (\<exists>q. d = q @ d' \<and> arg' = arg + length q \<and> k' = k + length q \<and>
             wtokens t = replicate (length q) Any @ wtokens t'))"
proof (induction t d arg k rule: wild_questions.induct)
  case (2 c t d arg k)
  show ?case
  proof (cases "c = CHR ''?''")
    case True
    show ?thesis
    proof (cases d)
      case Nil
      with True show ?thesis by simp
    next
      case (Cons x e)
      have IH: "case wild_questions t e (Suc arg) (Suc k) of
        None \<Rightarrow> \<not> glob (Star # wtokens t) e
      | Some (t', d', arg', k') \<Rightarrow> cstring t' \<and> cstring d' \<and> deref t' \<noteq> CHR ''?'' \<and>
          (\<exists>q. e = q @ d' \<and> arg' = Suc arg + length q \<and> k' = Suc k + length q \<and>
             wtokens t = replicate (length q) Any @ wtokens t')"
        using 2 True unfolding Cons list.sel by simp
      show ?thesis
      proof (cases "wild_questions t e (Suc arg) (Suc k)")
        case None
        with IH True Cons show ?thesis by simp
      next
        case (Some r)
        obtain t' d' arg' k' where r: "r = (t', d', arg', k')" by (cases r)
        from IH Some r obtain q where "e = q @ d'" "arg' = Suc arg + length q" "k' = Suc k + length q"
          "wtokens t = replicate (length q) Any @ wtokens t'" by auto
        then show ?thesis using IH Some r True Cons by (auto intro!: exI [of _ "x # q"])
      qed
    qed
  next
    case False
    then show ?thesis using 2 by simp
  qed
qed simp

fun pending :: "nat \<Rightarrow> nat \<Rightarrow> wtok list" where
  "pending argpos arg = (if argpos < arg then Star # replicate (arg - Suc argpos) Any else [])"

fun stars_ok :: "nat \<Rightarrow> string \<Rightarrow> string \<Rightarrow> string \<Rightarrow> nat \<Rightarrow> nat \<Rightarrow> args \<Rightarrow> stars_result \<Rightarrow> bool" where
  "stars_ok n t d dp arg ap args (SFail a) \<longleftrightarrow>
     \<not> glob (wtokens t) d \<and> within ap (arg - ap + wilds (wtokens t)) args a"
| "stars_ok n t d dp arg ap args (SFast t' d' a) \<longleftrightarrow>
     cstring t' \<and> cstring d' \<and> glob (wtokens t) d = glob (wtokens t') d' \<and>
     within ap (arg - ap + wilds (wtokens t)) args a \<and>
     (glob (wtokens t') d' \<longrightarrow> captured n ap (pending ap arg @ wtokens t) dp a)"
| "stars_ok n t d dp arg ap args (SScan t2 d2 dp2 arg2 ap2 ne a) \<longleftrightarrow>
     cstring t2 \<and> cstring d2 \<and> deref t2 \<noteq> CHR ''*'' \<and> deref t2 \<noteq> CHR ''?'' \<and>
     (\<exists>q. dp2 = q @ d2 \<and> length q = ne \<and> cstring q) \<and> arg2 = Suc (ap2 + ne) \<and> ap \<le> ap2 \<and> ap2 < n \<and>
     arg2 + wilds (wtokens t2) = arg + wilds (wtokens t) \<and> within ap (ap2 - ap) args a \<and>
     glob (wtokens t) d = glob (Star # wtokens t2) d2 \<and> length d2 \<le> length d \<and>
     (\<forall>b. (\<forall>i<ap2. b ! i = a ! i) \<longrightarrow> captured n ap2 (Star # replicate ne Any @ wtokens t2) dp2 b \<longrightarrow>
        captured n ap (pending ap arg @ wtokens t) dp b)"

lemma pending_fill:
  assumes step: "(if ap < arg then
         (let a = args[ap := Some []]
          in if Suc ap \<ge> n then (True, dp, Suc ap, a) else wild_fill n arg dp (Suc ap) a)
       else (False, dp, ap, args)) = (full, dp1, ap1, a1)"
    and st: "ap \<le> arg" "ap < n" "length args = n" "dp = q @ d" "length q = arg - Suc ap" "cstring q"
  shows "full \<longleftrightarrow> n \<le> arg" "\<not> full \<Longrightarrow> ap1 = arg \<and> dp1 = d" "within ap (arg - ap) args a1"
    "captured n arg p d b \<Longrightarrow> (\<forall>i<arg. i < n \<longrightarrow> b ! i = a1 ! i) \<Longrightarrow> captured n ap (pending ap arg @ p) dp b"
proof -
  have all: "(full \<longleftrightarrow> n \<le> arg) \<and> (\<not> full \<longrightarrow> ap1 = arg \<and> dp1 = d) \<and> within ap (arg - ap) args a1 \<and>
    (ap < arg \<longrightarrow> a1 ! ap = Some [] \<and>
       (\<forall>j<arg - Suc ap. Suc ap + j < n \<longrightarrow> a1 ! (Suc ap + j) = Some (char_arg (q ! j))))"
  proof (cases "ap < arg")
    case False
    then show ?thesis using step st by auto
  next
    case less: True
    define a0 where "a0 = args[ap := Some []]"
    have a0: "within ap (arg - ap) args a0" "a0 ! ap = Some []" "length a0 = n"
      using less st by (simp_all add: a0_def within_update)
    show ?thesis
    proof (cases "Suc ap \<ge> n")
      case True
      then show ?thesis using step less a0 by (auto simp: a0_def [symmetric])
    next
      case False
      have f: "wild_fill n arg dp (Suc ap) a0 = (full, dp1, ap1, a1)"
        using step less False by (simp add: a0_def [symmetric])
      have "Suc ap \<le> arg" "Suc ap < n" "arg - Suc ap \<le> length dp" using less False st(4,5) by auto
      note c = wild_fill_correct [OF f this a0(3)]
      have "within ap (arg - ap) a0 a1" using c(3) less by (auto intro: within_mono)
      moreover have "a1 ! ap = Some []" using c(3) a0(2) by (simp add: within_def)
      moreover have "\<forall>j<arg - Suc ap. Suc ap + j < n \<longrightarrow> a1 ! (Suc ap + j) = Some (char_arg (q ! j))"
        using c(4) st(4,5) by (simp add: nth_append)
      ultimately show ?thesis using c(1,2) within_trans [OF a0(1)] st(4,5) by auto
    qed
  qed
  then show "full \<longleftrightarrow> n \<le> arg" "\<not> full \<Longrightarrow> ap1 = arg \<and> dp1 = d" "within ap (arg - ap) args a1" by blast+
  assume b: "captured n arg p d b" "\<forall>i<arg. i < n \<longrightarrow> b ! i = a1 ! i"
  show "captured n ap (pending ap arg @ p) dp b"
  proof (cases "ap < arg")
    case False
    then show ?thesis using b st by auto
  next
    case True
    have "captured n (Suc ap) (replicate (arg - Suc ap) Any @ p) (q @ d) b"
    proof (rule captured_anys [OF st(5,6)])
      show "\<forall>j<arg - Suc ap. Suc ap + j < n \<longrightarrow> b ! (Suc ap + j) = Some (char_arg (q ! j))"
        using all b(2) True by auto
      show "captured n (Suc ap + (arg - Suc ap)) p d b" using b(1) True by simp
    qed
    then have "captured n ap (Star # replicate (arg - Suc ap) Any @ p) ([] @ q @ d) b"
      using all b(2) True st(2) by (intro captured_wild) auto
    then show ?thesis using True st(4) by simp
  qed
qed


lemma wild_stars_correct:
  "cstring t \<Longrightarrow> cstring d \<Longrightarrow> deref t = CHR ''*'' \<Longrightarrow> ap \<le> arg \<Longrightarrow> ap < n \<Longrightarrow> length args = n \<Longrightarrow>
     dp = q @ d \<Longrightarrow> length q = arg - Suc ap \<Longrightarrow> cstring q \<Longrightarrow>
     stars_ok n t d dp arg ap args (wild_stars n t d dp arg ap args)"
proof (induction n t d dp arg ap args arbitrary: q rule: wild_stars.induct)
  case (1 n t d dp arg ap args)
  obtain u where t: "t = CHR ''*'' # u" using "1.prems"(3) by (cases t) auto
  have u: "cstring u" using "1.prems"(1) t by simp
  obtain full dp1 ap1 a1 where s: "(if ap < arg then
         (let a = args[ap := Some []]
          in if Suc ap \<ge> n then (True, dp, Suc ap, a) else wild_fill n arg dp (Suc ap) a)
       else (False, dp, ap, args)) = (full, dp1, ap1, a1)" by (metis surj_pair)
  note f = pending_fill [OF s "1.prems"(4-9)]
  have wide: "within ap (arg - ap + k) args a1" for k using f(3) by (rule within_mono) simp_all
  show ?case
  proof (cases full)
    case True
    have e: "wild_stars n t d dp arg ap args = SFast t d a1"
      using True by (subst wild_stars.simps) (simp add: s)
    have "n \<le> arg" using f(1) True by simp
    then show ?thesis
      using "1.prems"(1,2) wide f(4) [of "wtokens t" a1] captured_full [of n arg "wtokens t" d a1] unfolding e by simp
  next
    case notfull: False
    then have arg: "arg < n" "ap1 = arg" "dp1 = d" using f(1,2) by auto
    have len: "length a1 = n" using f(3) "1.prems"(6) by (simp add: within_def)
    have Q: "case wild_questions u d (Suc arg) 0 of
        None \<Rightarrow> \<not> glob (Star # wtokens u) d
      | Some (t', d', arg', k') \<Rightarrow> cstring t' \<and> cstring d' \<and> deref t' \<noteq> CHR ''?'' \<and>
          (\<exists>q. d = q @ d' \<and> arg' = Suc arg + length q \<and> k' = 0 + length q \<and>
             wtokens u = replicate (length q) Any @ wtokens t')"
      by (rule wild_questions_correct [OF u "1.prems"(2)])
    show ?thesis
    proof (cases "wild_questions u d (Suc arg) 0")
      case None
      then have e: "wild_stars n t d dp arg ap args = SFail a1"
        using notfull by (subst wild_stars.simps) (simp add: s t)
      show ?thesis unfolding e using Q None wide [of "wilds (wtokens t)"] by (simp add: t)
    next
      case (Some r)
      obtain t2 d2 arg2 ne where r: "r = (t2, d2, arg2, ne)" by (cases r)
      with Some Q obtain q2 where q2: "cstring t2" "cstring d2" "deref t2 \<noteq> CHR ''?''" "d = q2 @ d2"
        "arg2 = Suc arg + length q2" "ne = length q2" "wtokens u = replicate (length q2) Any @ wtokens t2"
        by auto
      have qs: "wild_questions (tl t) d (Suc arg) 0 = Some (t2, d2, arg2, ne)" using Some r t by simp
      have cq2: "cstring q2" using "1.prems"(2) q2(4) by (simp add: cstring_def)
      have wt: "wtokens t = Star # replicate (length q2) Any @ wtokens t2" using t q2(7) by simp
      have gl: "glob (wtokens t) d = glob (Star # wtokens t2) d2"
        unfolding wt q2(4) by (rule glob_Star_anys [OF refl])
      have lift: "captured n ap (pending ap arg @ wtokens t) dp b"
        if "\<forall>i<arg. b ! i = a1 ! i" "captured n arg (wtokens t) d b" for b
        using f(4) [OF that(2)] that(1) by simp
      show ?thesis
      proof (cases "deref t2 = CHR ''*''")
        case False
        then have e: "wild_stars n t d dp arg ap args = SScan t2 d2 d arg2 arg ne a1"
          using notfull Some r arg by (subst wild_stars.simps) (simp add: s t)
        show ?thesis unfolding e
          using q2 False cq2 arg(1) "1.prems"(4) f(3) gl lift by (simp add: wt)
      next
        case True
        then have e: "wild_stars n t d dp arg ap args = wild_stars n t2 d2 d arg2 arg a1"
          using notfull Some r arg by (subst wild_stars.simps) (simp add: s t)
        obtain v where v: "t2 = CHR ''*'' # v" using True by (cases t2) auto
        have dq: "dp1 = q2 @ d2" using q2(4) arg(3) by simp
        have "ap1 \<le> arg2" "ap1 < n" "length q2 = arg2 - Suc ap1" using q2(5) arg(1,2) by simp_all
        then have "stars_ok n t2 d2 dp1 arg2 ap1 a1 (wild_stars n t2 d2 dp1 arg2 ap1 a1)"
          using "1.IH" [OF s [symmetric] refl refl refl notfull qs refl refl refl True q2(1,2) True _ _ len dq _ cq2]
          by blast
        then have IH: "stars_ok n t2 d2 d arg2 arg a1 (wild_stars n t2 d2 d arg2 arg a1)"
          unfolding arg(2,3) .
        have pend: "pending arg arg2 = Star # replicate (length q2) Any" using q2(5) by simp
        have wil: "arg2 + wilds (wtokens t2) = arg + wilds (wtokens t)" using q2(5) wt by simp
        have gl2: "glob (wtokens t) d = glob (wtokens t2) d2" using gl v by simp
        have cat: "pending arg arg2 @ wtokens t2 = wtokens t" using pend wt by simp
        have low: "\<forall>i<arg. a ! i = a1 ! i" if "within arg k a1 a" for a k using that by (simp add: within_def)
        have wid: "within ap (arg - ap + wilds (wtokens t)) args a" if "within arg k a1 a" "k \<le> wilds (wtokens t)" for a k
          using within_trans [OF wide within_mono [OF that(1), of ap]] that(2) "1.prems"(4) by simp
        show ?thesis
        proof (cases "wild_stars n t2 d2 d arg2 arg a1")
          case (SFail a)
          have k: "arg2 - arg + wilds (wtokens t2) = wilds (wtokens t)" using wil q2(5) by simp
          have i: "\<not> glob (wtokens t2) d2" "within arg (wilds (wtokens t)) a1 a"
            using IH unfolding SFail stars_ok.simps k by blast+
          show ?thesis unfolding e SFail stars_ok.simps using i(1) gl2 wid [OF i(2)] by blast
        next
          case (SFast t' d' a)
          have k: "arg2 - arg + wilds (wtokens t2) = wilds (wtokens t)" using wil q2(5) by simp
          have i: "cstring t'" "cstring d'" "glob (wtokens t2) d2 = glob (wtokens t') d'"
            "within arg (wilds (wtokens t)) a1 a" "glob (wtokens t') d' \<longrightarrow> captured n arg (wtokens t) d a"
            using IH unfolding SFast stars_ok.simps cat k by blast+
          show ?thesis unfolding e SFast stars_ok.simps
            using i gl2 wid [OF i(4)] lift [OF low [OF i(4)]] by blast
        next
          case (SScan t3 d3 dp3 arg3 ap3 ne3 a)
          have i: "cstring t3" "cstring d3" "deref t3 \<noteq> CHR ''*''" "deref t3 \<noteq> CHR ''?''"
            "\<exists>q. dp3 = q @ d3 \<and> length q = ne3 \<and> cstring q" "arg3 = Suc (ap3 + ne3)" "arg \<le> ap3" "ap3 < n"
            "arg3 + wilds (wtokens t3) = arg2 + wilds (wtokens t2)" "within arg (ap3 - arg) a1 a"
            "glob (wtokens t2) d2 = glob (Star # wtokens t3) d3" "length d3 \<le> length d2"
            "\<forall>b. (\<forall>i<ap3. b ! i = a ! i) \<longrightarrow> captured n ap3 (Star # replicate ne3 Any @ wtokens t3) dp3 b \<longrightarrow>
               captured n arg (wtokens t) d b"
            using IH unfolding SScan stars_ok.simps cat by blast+
          have w3: "within ap (ap3 - ap) args a"
            using within_trans [OF within_mono [OF f(3)] within_mono [OF i(10), of ap "ap3 - ap"]] i(7) "1.prems"(4)
            by simp
          have l3: "\<forall>b. (\<forall>i<ap3. b ! i = a ! i) \<longrightarrow>
              captured n ap3 (Star # replicate ne3 Any @ wtokens t3) dp3 b \<longrightarrow>
              captured n ap (pending ap arg @ wtokens t) dp b"
          proof (intro allI impI)
            fix b assume b: "\<forall>i<ap3. b ! i = a ! i" "captured n ap3 (Star # replicate ne3 Any @ wtokens t3) dp3 b"
            have "\<forall>i<arg. b ! i = a1 ! i" using b(1) low [OF i(10)] i(7) by simp
            then show "captured n ap (pending ap arg @ wtokens t) dp b" using lift i(13) b by blast
          qed
          have "ap \<le> ap3" "arg3 + wilds (wtokens t3) = arg + wilds (wtokens t)" "length d3 \<le> length d"
            using i(7,9,12) wil "1.prems"(4) q2(4) by simp_all
          then show ?thesis unfolding e SScan stars_ok.simps
            by (intro conjI i(1-6,8) w3 l3 trans [OF gl2 i(11)])
        qed
      qed
    qed
  qed
qed

subsection \<open>The matcher that remembers is right\<close>

lemma wild_trailing_correct:
  assumes "length args = n" "ne \<le> length dp"
  shows "within ap ne args (wild_trailing n dp ap ne args)"
    "\<forall>j<ne. ap + j < n \<longrightarrow> wild_trailing n dp ap ne args ! (ap + j) = Some (char_arg (dp ! j))"
proof -
  have "within ap ne args (wild_trailing n dp ap ne args) \<and>
    (\<forall>j<ne. ap + j < n \<longrightarrow> wild_trailing n dp ap ne args ! (ap + j) = Some (char_arg (dp ! j)))"
    using assms
  proof (induction n dp ap ne args rule: wild_trailing.induct)
    case (1 n dp ap ne args)
    show ?case
    proof (cases "ne = 0 \<or> ap \<ge> n")
      case True
      then show ?thesis by (auto simp: wild_trailing.simps [of n dp ap ne args])
    next
      case False
      define b where "b = args[ap := Some (char_arg (deref dp))]"
      define a where "a = wild_trailing n (tl dp) (Suc ap) (ne - 1) b"
      obtain x r where dp: "dp = x # r" using False "1.prems"(2) by (cases dp) auto
      have e: "wild_trailing n dp ap ne args = a"
        using False by (simp add: wild_trailing.simps [of n dp ap ne args] b_def a_def)
      have b: "within ap ne args b" "b ! ap = Some (char_arg x)" "length b = n"
        using False "1.prems"(1) by (simp_all add: b_def dp within_update)
      have IH: "within (Suc ap) (ne - 1) b a"
        "\<forall>j<ne - 1. Suc ap + j < n \<longrightarrow> a ! (Suc ap + j) = Some (char_arg (tl dp ! j))"
        using "1.IH" [OF False] b(3) "1.prems"(2) unfolding a_def b_def by simp_all
      have "within ap ne b a" using IH(1) False by (auto intro: within_mono)
      moreover have "a ! (ap + j) = Some (char_arg (dp ! j))" if "j < ne" "ap + j < n" for j
      proof (cases j)
        case 0
        then show ?thesis using IH(1) b(2) dp by (simp add: within_def)
      next
        case (Suc i)
        then show ?thesis using IH(2) that dp by simp
      qed
      ultimately show ?thesis using e within_trans [OF b(1)] by blast
    qed
  qed
  then show "within ap ne args (wild_trailing n dp ap ne args)"
    "\<forall>j<ne. ap + j < n \<longrightarrow> wild_trailing n dp ap ne args ! (ap + j) = Some (char_arg (dp ! j))" by blast+
qed

lemma wild_finish_correct:
  assumes dp: "dp = q @ r @ ds" "length q = ne" "cstring dp" and ap: "ap < n" "length args = n"
  shows "within ap (Suc ne) args (wild_finish n dp ds ap ne args)"
    "captured n (Suc (ap + ne)) p ds (wild_finish n dp ds ap ne args) \<Longrightarrow>
      captured n ap (Star # replicate ne Any @ p) dp (wild_finish n dp ds ap ne args)"
proof -
  define k where "k = length r"
  have k: "length dp - length ds - ne = k" using dp(1,2) by (simp add: k_def)
  define a0 where "a0 = args[ap := Some (take k dp)]"
  define q2 where "q2 = drop k (q @ r)"
  have d2: "drop k dp = q2 @ ds" "length q2 = ne" using dp(1,2) by (simp_all add: q2_def k_def)
  define a where "a = wild_trailing n (drop k dp) (Suc ap) ne a0"
  have e: "wild_finish n dp ds ap ne args = a" by (simp only: wild_finish_def k a0_def a_def Let_def)
  have t: "within (Suc ap) ne a0 a"
    "\<forall>j<ne. Suc ap + j < n \<longrightarrow> a ! (Suc ap + j) = Some (char_arg (drop k dp ! j))"
    using wild_trailing_correct [of a0 n ne "drop k dp" "Suc ap"] d2 ap by (simp_all add: a0_def a_def)
  have "within ap (Suc ne) args a0" unfolding a0_def by (rule within_update) simp_all
  moreover have "within ap (Suc ne) a0 a" using t(1) by (rule within_mono) simp_all
  ultimately show "within ap (Suc ne) args (wild_finish n dp ds ap ne args)"
    unfolding e by (rule within_trans)
  assume c: "captured n (Suc (ap + ne)) p ds (wild_finish n dp ds ap ne args)"
  have "captured n (Suc ap) (replicate ne Any @ p) (q2 @ ds) a"
  proof (rule captured_anys [OF d2(2)])
    have "cstring (drop k dp)" using dp(3) by (rule cstring_drop)
    then show "cstring q2" unfolding d2(1) by (simp add: cstring_def)
    show "\<forall>j<ne. Suc ap + j < n \<longrightarrow> a ! (Suc ap + j) = Some (char_arg (q2 ! j))"
      using t(2) d2 by (simp add: nth_append)
    show "captured n (Suc ap + ne) p ds a" using c e by simp
  qed
  moreover have "a0 ! ap = a ! ap" using t(1) unfolding within_def by (metis lessI)
  then have "a ! ap = Some (take k dp)" using ap by (simp add: a0_def)
  ultimately have "captured n ap (Star # replicate ne Any @ p) (take k dp @ q2 @ ds) a"
    by (intro captured_wild) auto
  then show "captured n ap (Star # replicate ne Any @ p) dp (wild_finish n dp ds ap ne args)"
    unfolding e d2(1) [symmetric] by simp
qed

lemma counter_grows_wild1:
  "loopCntr \<le> fst (snd (wild1 lim n t d arg loopCntr args))"
  "cnt \<le> fst (snd (wild1_scan lim n c t d arg cnt args))"
proof (induction lim n t d arg loopCntr args and lim n c t d arg cnt args rule: wild1_wild1_scan.induct)
  case (1 lim n t d arg cnt args)
  show ?case
  proof (cases "cnt > lim")
    case True
    then show ?thesis by (subst wild1.simps) simp
  next
    case False
    have q: "cnt \<le> snd (quick_wild_internal lim t' d' (cnt + 1))" for t' d'
      using counter_grows(1) [of "cnt + 1" lim t' d'] by simp
    show ?thesis using False q "1.IH"
      by (subst wild1.simps)
        (fastforce simp: Let_def split: head_result.splits stars_result.splits list.splits option.splits)
  qed
next
  case (3 lim n c t x d arg cnt args)
  show ?case
  proof (cases "NOTEQUAL x c")
    case True
    then show ?thesis using "3.IH"(1) by simp
  next
    case False
    define r where "r = (if arg < n then wild1 lim n t d arg cnt args
        else (let q = quick_wild_internal lim t d cnt in (fst q, snd q, args)))"
    have "cnt \<le> fst (snd r)"
      using "3.IH"(2) [OF False] counter_grows(1) [of cnt lim t d] by (simp add: r_def Let_def)
    moreover have "\<not> fst r \<Longrightarrow> fst (snd r) \<le> fst (snd (wild1_scan lim n c t d arg (fst (snd r)) (snd (snd r))))"
      using "3.IH"(3) [OF False r_def] .
    ultimately show ?thesis using False by (auto simp: r_def [symmetric] Let_def)
  qed
qed simp

fun wild1_ok :: "int \<Rightarrow> nat \<Rightarrow> string \<Rightarrow> string \<Rightarrow> nat \<Rightarrow> args \<Rightarrow> bool \<times> int \<times> args \<Rightarrow> bool" where
  "wild1_ok lim n t d arg args (r, c, a) \<longleftrightarrow>
     answer_ok lim (r, c) (glob (wtokens t) d) \<and> within arg (wilds (wtokens t)) args a \<and>
     (r \<longrightarrow> captured n arg (wtokens t) d a)"

fun scan_ok :: "int \<Rightarrow> nat \<Rightarrow> char \<Rightarrow> string \<Rightarrow> string \<Rightarrow> nat \<Rightarrow> args \<Rightarrow> string option \<times> int \<times> args \<Rightarrow> bool" where
  "scan_ok lim n c t d arg args (Some ds, cnt, a) \<longleftrightarrow>
     within arg (wilds (wtokens t)) args a \<and>
     (\<exists>r x d'. d = r @ ds \<and> ds = x # d' \<and> ToLower x = ToLower c \<and> captured n arg (wtokens t) d' a)"
| "scan_ok lim n c t d arg args (None, cnt, a) \<longleftrightarrow>
     within arg (wilds (wtokens t)) args a \<and> (cnt \<le> lim \<longrightarrow> \<not> glob (Star # Lit c # wtokens t) d)"

lemma wild1_fast:
  assumes "cstring t'" "cstring d'" "glob (wtokens t) d = glob (wtokens t') d'"
    "within arg (wilds (wtokens t)) args a" "glob (wtokens t') d' \<longrightarrow> captured n arg (wtokens t) d a"
  shows "wild1_ok lim n t d arg args
    (let r = quick_wild_internal lim t' d' cnt in (fst r, snd r, a))"
  using quick_correct(1) [OF assms(1,2), of lim cnt] assms(3-5) by (simp add: answer_ok_def Let_def)

lemma wild1_correct:
  "cstring t \<Longrightarrow> cstring d \<Longrightarrow> arg < n \<Longrightarrow> length args = n \<Longrightarrow> length d < LBUF_SIZE \<Longrightarrow>
     wild1_ok lim n t d arg args (wild1 lim n t d arg cnt args)"
  "cstring t \<Longrightarrow> cstring d \<Longrightarrow> length args = n \<Longrightarrow> length d < LBUF_SIZE \<Longrightarrow>
     scan_ok lim n c t d arg args (wild1_scan lim n c t d arg cnt args)"
proof (induction lim n t d arg cnt args and lim n c t d arg cnt args rule: wild1_wild1_scan.induct)
  case (1 lim n t d arg cnt args)
  show ?case
  proof (cases "cnt > lim")
    case True
    then show ?thesis by (subst wild1.simps) (simp add: answer_ok_def)
  next
    case lim: False
    have H: "head_ok n t d arg args (wild_head n t d arg args)" by (rule wild_head_correct [OF "1.prems"(1-4)])
    show ?thesis
    proof (cases "wild_head n t d arg args")
      case (HDone r a)
      then show ?thesis using H lim by (subst wild1.simps) (simp add: answer_ok_def Let_def)
    next
      case (HFast t' d' a)
      have "wild1 lim n t d arg cnt args = (let r = quick_wild_internal lim t' d' (cnt + 1) in (fst r, snd r, a))"
        using HFast lim by (subst wild1.simps) simp
      then show ?thesis using wild1_fast [of t' d' t d arg args a n lim "cnt + 1"] H HFast by simp
    next
      case (HStar t1 d1 arg1 a1)
      then obtain u where h: "t1 = CHR ''*'' # u" "cstring t1" "cstring d1" "glob (wtokens t) d = glob (wtokens t1) d1"
        "arg \<le> arg1" "arg1 < n" "length d1 \<le> length d" "arg1 + wilds (wtokens t1) = arg + wilds (wtokens t)"
        "within arg (arg1 - arg) args a1"
        "\<And>b. (\<forall>i<arg1. b ! i = a1 ! i) \<Longrightarrow> captured n arg1 (wtokens t1) d1 b \<Longrightarrow> captured n arg (wtokens t) d b"
        using H by auto
      have len: "length a1 = n" using h(9) "1.prems"(4) by (simp add: within_def)
      have d1: "length d1 < LBUF_SIZE" using h(7) "1.prems"(5) by simp
      have wid: "within arg (wilds (wtokens t)) args a" if "within arg1 (wilds (wtokens t1)) a1 a" for a
        using within_trans [OF within_mono [OF h(9)] within_mono [OF that]] h(5,8) by simp
      have low: "\<forall>i<arg1. a ! i = a1 ! i" if "within arg1 k a1 a" for a k using that by (simp add: within_def)
      show ?thesis
      proof (cases "u = []")
        case True
        define a where "a = a1[arg1 := Some d1]"
        have e: "wild1 lim n t d arg cnt args = (True, cnt + 1, a)"
          using HStar lim h(1) True d1 by (subst wild1.simps) (simp add: a_def Let_def)
        have w: "within arg1 (wilds (wtokens t1)) a1 a"
          using h(1) True by (simp add: a_def within_update)
        have "captured n arg1 [Star] (d1 @ []) a"
          using h(6) len by (intro captured_wild) (simp_all add: a_def)
        then have "captured n arg (wtokens t) d a" using h(10) low [OF w] h(1) True by simp
        then show ?thesis using wid [OF w] captured_glob unfolding e by (auto simp: answer_ok_def)
      next
        case u: False
        have S: "stars_ok n t1 d1 d1 arg1 arg1 a1 (wild_stars n t1 d1 d1 arg1 arg1 a1)"
          using wild_stars_correct [of t1 d1 arg1 arg1 n a1 d1 "[]"] h len by simp
        show ?thesis
        proof (cases "wild_stars n t1 d1 d1 arg1 arg1 a1")
          case (SFail a)
          have e: "wild1 lim n t d arg cnt args = (False, cnt + 1, a)"
            using HStar lim h(1) u SFail by (subst wild1.simps) (simp add: Let_def)
          show ?thesis using S SFail wid h(4) unfolding e by (simp add: answer_ok_def)
        next
          case (SFast t' d' a)
          have e: "wild1 lim n t d arg cnt args = (let r = quick_wild_internal lim t' d' (cnt + 1) in (fst r, snd r, a))"
            using HStar lim h(1) u SFast by (subst wild1.simps) simp
          have s: "cstring t'" "cstring d'" "glob (wtokens t1) d1 = glob (wtokens t') d'"
            "within arg1 (wilds (wtokens t1)) a1 a" "glob (wtokens t') d' \<longrightarrow> captured n arg1 (wtokens t1) d1 a"
            using S unfolding SFast stars_ok.simps by simp_all
          have "glob (wtokens t) d = glob (wtokens t') d'" using h(4) s(3) by simp
          moreover have "glob (wtokens t') d' \<longrightarrow> captured n arg (wtokens t) d a"
            using s(5) h(10) low [OF s(4)] by blast
          ultimately show ?thesis unfolding e using wild1_fast [OF s(1,2) _ wid [OF s(4)]] by blast
        next
          case (SScan t2 d2 dp arg2 ap ne a2)
          define v where "v = (if deref t2 = BACKSLASH then tl t2 else t2)"
          from S SScan obtain q where s: "cstring t2" "cstring d2" "deref t2 \<noteq> CHR ''*''" "deref t2 \<noteq> CHR ''?''"
            "dp = q @ d2" "length q = ne" "cstring q" "arg2 = Suc (ap + ne)" "arg1 \<le> ap" "ap < n"
            "arg2 + wilds (wtokens t2) = arg1 + wilds (wtokens t1)" "within arg1 (ap - arg1) a1 a2"
            "glob (wtokens t1) d1 = glob (Star # wtokens t2) d2" "length d2 \<le> length d1"
            "\<And>b. (\<forall>i<ap. b ! i = a2 ! i) \<Longrightarrow> captured n ap (Star # replicate ne Any @ wtokens t2) dp b \<Longrightarrow>
               captured n arg1 (wtokens t1) d1 b"
            unfolding stars_ok.simps by auto
          have w: "wtokens t2 = (if v = [] then [] else Lit (hd v) # wtokens (tl v))"
            using wtokens_literal [OF s(1,3,4)] by (simp add: v_def [symmetric] Let_def)
          have cdp: "cstring dp" using s(2,5,7) by (simp add: cstring_def)
          have la2: "length a2 = n" using s(12) len by (simp add: within_def)
          have fin: "within arg (wilds (wtokens t)) args b \<and>
              (captured n ap (Star # replicate ne Any @ wtokens t2) dp b \<longrightarrow> captured n arg (wtokens t) d b)"
            if "within ap (Suc (ne + wilds (wtokens t2))) a2 b" for b
          proof -
            have k: "ap + Suc (ne + wilds (wtokens t2)) = arg1 + wilds (wtokens t1)" using s(8,11) by simp
            have w1: "within arg1 (wilds (wtokens t1)) a1 b"
              using within_trans [OF within_mono [OF s(12), of arg1] within_mono [OF that, of arg1]] s(9) k by simp
            moreover have "\<forall>i<ap. b ! i = a2 ! i" using that by (simp add: within_def)
            ultimately show ?thesis using wid [OF w1] s(15) h(10) low [OF w1] by blast
          qed
          show ?thesis
          proof (cases v)
            case Nil
            define b where "b = wild_finish n dp [] ap ne a2"
            have e: "wild1 lim n t d arg cnt args = (True, cnt + 1, b)"
              using HStar lim h(1) u SScan Nil by (subst wild1.simps) (simp add: Let_def v_def [symmetric] b_def)
            note f = wild_finish_correct [of dp q d2 "[]" ne ap n a2, folded b_def]
            have "within ap (Suc (ne + wilds (wtokens t2))) a2 b"
              using f(1) s(5,6,10) cdp la2 by (auto intro: within_mono)
            moreover have "captured n ap (Star # replicate ne Any @ wtokens t2) dp b"
              using f(2) [of "wtokens t2"] s(5,6,10) cdp la2 w Nil by simp
            ultimately show ?thesis using fin [of b] captured_glob unfolding e by (auto simp: answer_ok_def)
          next
            case (Cons c t4)
            have wt: "wtokens t2 = Lit c # wtokens t4" using w Cons by simp
            have t4: "cstring t4" using s(1) Cons by (cases t2) (auto simp: v_def split: if_splits)
            obtain res cnt' a3 where r: "wild1_scan lim n c t4 d2 arg2 (cnt + 1) a2 = (res, cnt', a3)"
              using prod_cases3 by blast
            have d2: "length d2 < LBUF_SIZE" using s(14) d1 by simp
            have IH: "scan_ok lim n c t4 d2 arg2 a2 (res, cnt', a3)"
              using "1.IH" [OF lim refl HStar _ SScan] h(1) u Cons t4 s(2) la2 d2 r by (simp add: v_def [symmetric])
            have e: "wild1 lim n t d arg cnt args = (case res of None \<Rightarrow> (False, cnt', a3)
                | Some ds \<Rightarrow> (True, cnt', wild_finish n dp ds ap ne a3))"
              using HStar lim h(1) u SScan Cons r
              by (subst wild1.simps) (simp add: Let_def v_def [symmetric] split: option.split)
            have wa3: "within ap (Suc (ne + wilds (wtokens t2))) a2 a3" if "within arg2 (wilds (wtokens t4)) a2 a3"
              using that s(8) wt by (auto intro: within_mono)
            show ?thesis
            proof (cases res)
              case None
              then show ?thesis using IH fin [OF wa3] h(4) s(13) wt unfolding e by (simp add: answer_ok_def)
            next
              case (Some ds)
              then obtain rr x d' where sc: "within arg2 (wilds (wtokens t4)) a2 a3" "d2 = rr @ ds" "ds = x # d'"
                "ToLower x = ToLower c" "captured n arg2 (wtokens t4) d' a3"
                using IH by auto
              define b where "b = wild_finish n dp ds ap ne a3"
              have la3: "length a3 = n" using sc(1) la2 by (simp add: within_def)
              have eb: "wild1 lim n t d arg cnt args = (True, cnt', b)" using e Some by (simp add: b_def)
              note f = wild_finish_correct [of dp q rr ds ne ap n a3, folded b_def]
              have wb: "within ap (Suc ne) a3 b" using f(1) s(5,6,10) sc(2) cdp la3 by simp
              have "captured n arg2 (wtokens t4) d' b"
              proof (rule captured_agree [OF sc(5)])
                fix i assume "arg2 \<le> i"
                then show "a3 ! i = b ! i" using wb s(8) unfolding within_def by simp
              qed
              then have "captured n (Suc (ap + ne)) (wtokens t2) ds b"
                using captured_Lit [OF sc(4)] sc(3) s(8) wt by simp
              then have "captured n ap (Star # replicate ne Any @ wtokens t2) dp b"
                using f(2) s(5,6,10) sc(2) cdp la3 by simp
              moreover have "within ap (Suc (ne + wilds (wtokens t2))) a2 b"
                using within_trans [OF wa3 [OF sc(1)] within_mono [OF wb]] by simp
              ultimately show ?thesis using fin [of b] captured_glob unfolding eb by (auto simp: answer_ok_def)
            qed
          qed
        qed
      qed
    qed
  qed
next
  case (2 lim n c t arg cnt args)
  show ?case by (simp add: glob_Star_empty)
next
  case (3 lim n c t x d arg cnt args)
  have pre: "cstring t" "cstring d" "length args = n" "length d < LBUF_SIZE" using "3.prems" by simp_all
  show ?case
  proof (cases "NOTEQUAL x c")
    case True
    have e: "wild1_scan lim n c t (x # d) arg cnt args = wild1_scan lim n c t d arg cnt args" using True by simp
    obtain res cnt' a where r: "wild1_scan lim n c t d arg cnt args = (res, cnt', a)" using prod_cases3 by blast
    have IH: "scan_ok lim n c t d arg args (res, cnt', a)" using "3.IH"(1) [OF True pre] r by simp
    show ?thesis unfolding e r using IH True
      by (cases res) (auto simp: glob_Star_rec intro: exI [of _ "x # _"])
  next
    case False
    define r where "r = (if arg < n then wild1 lim n t d arg cnt args
        else (let q = quick_wild_internal lim t d cnt in (fst q, snd q, args)))"
    obtain b cnt' a where rr: "r = (b, cnt', a)" using prod_cases3 by blast
    have ok: "wild1_ok lim n t d arg args (b, cnt', a)"
    proof (cases "arg < n")
      case True
      then show ?thesis using "3.IH"(2) [OF False True pre(1,2) True pre(3,4)] rr by (simp add: r_def)
    next
      case full: False
      have "wild1_ok lim n t d arg args r" unfolding r_def using full pre captured_full [of n arg "wtokens t" d args]
        by (simp only: if_False) (rule wild1_fast, auto)
      then show ?thesis by (simp only: rr)
    qed
    have e: "wild1_scan lim n c t (x # d) arg cnt args =
        (if b then (Some (x # d), cnt', a) else wild1_scan lim n c t d arg cnt' a)"
      using False by (simp add: r_def [symmetric] rr Let_def)
    show ?thesis
    proof (cases b)
      case True
      then show ?thesis using ok False unfolding e by auto
    next
      case nb: False
      have la: "length a = n" using ok pre(3) by (simp add: within_def)
      obtain res c2 a2 where r2: "wild1_scan lim n c t d arg cnt' a = (res, c2, a2)" using prod_cases3 by blast
      have IH: "scan_ok lim n c t d arg a (res, c2, a2)"
        using "3.IH"(3) [OF False r_def] nb pre(1,2,4) la rr r2 by simp
      have "cnt' \<le> c2" using counter_grows_wild1(2) [of cnt' lim n c t d arg a] r2 by simp
      then have neg: "c2 \<le> lim \<Longrightarrow> \<not> glob (wtokens t) d" using ok nb by (auto simp: answer_ok_def)
      have w: "within arg (wilds (wtokens t)) args a" using ok by simp
      show ?thesis unfolding e r2 using IH nb False neg w
        by (cases res) (auto simp: glob_Star_rec r2 intro: within_trans exI [of _ "x # _"])
    qed
  qed
qed

subsection \<open>The whole match\<close>

fun fast_ok :: "string \<Rightarrow> string \<Rightarrow> bool + string \<times> string \<Rightarrow> bool" where
  "fast_ok t d (Inl r) \<longleftrightarrow> r = glob (wtokens t) d \<and> (r \<longrightarrow> wilds (wtokens t) = 0)"
| "fast_ok t d (Inr (t', d')) \<longleftrightarrow> cstring t' \<and> cstring d' \<and> length d' \<le> length d \<and>
     glob (wtokens t) d = glob (wtokens t') d' \<and> wilds (wtokens t) = wilds (wtokens t') \<and>
     (\<forall>n b. captured n 0 (wtokens t') d' b \<longrightarrow> captured n 0 (wtokens t) d b)"

lemma wild_fast_correct: "cstring t \<Longrightarrow> cstring d \<Longrightarrow> fast_ok t d (wild_fast t d)"
proof (induction t d rule: wild_fast.induct)
  case (1 t)
  define u where "u = (if deref t = BACKSLASH then tl t else t)"
  show ?case
  proof (cases "deref t = CHR ''*'' \<or> deref t = CHR ''?''")
    case False
    then have w: "wtokens t = (if u = [] then [] else Lit (hd u) # wtokens (tl u))"
      using wtokens_literal [of t] "1.prems"(1) by (simp add: u_def [symmetric] Let_def)
    have "cstring u" using "1.prems"(1) by (cases t) (auto simp: u_def)
    then show ?thesis using False w by (cases u) (auto simp: u_def [symmetric] Let_def)
  qed (use "1.prems" in simp)
next
  case (2 t x d)
  have x: "x \<noteq> NUL" "cstring d" using "2.prems"(2) by simp_all
  define u where "u = (if deref t = BACKSLASH then tl t else t)"
  show ?case
  proof (cases "deref t = CHR ''*'' \<or> deref t = CHR ''?''")
    case False
    then have w: "wtokens t = (if u = [] then [] else Lit (hd u) # wtokens (tl u))"
      using wtokens_literal [OF "2.prems"(1)] by (simp add: u_def [symmetric] Let_def)
    have q: "wild_fast t (x # d) = (if NOTEQUAL x (deref u) then Inl False else wild_fast (tl u) d)"
      using False by (simp add: u_def [symmetric] Let_def)
    have u: "cstring u" using "2.prems"(1) by (cases t) (auto simp: u_def)
    show ?thesis
    proof (cases "u = [] \<or> ToLower x \<noteq> ToLower (hd u)")
      case True
      then have "wild_fast t (x # d) = Inl False"
        using x by (cases u) (auto simp: q simp del: wild_fast.simps)
      then show ?thesis using True w by (cases u) (auto simp del: wild_fast.simps)
    next
      case lit: False
      then obtain c v where c: "u = c # v" "ToLower x = ToLower c" by (cases u) auto
      have h: "wild_fast t (x # d) = wild_fast v d" using c unfolding q by simp
      have wt: "wtokens t = Lit c # wtokens v" using w c by simp
      have "cstring v" using u c by simp
      then have IH: "fast_ok v d (wild_fast v d)"
        using "2.IH" [OF False u_def] x(2) c by simp
      have cap: "captured n 0 (wtokens v) d a \<Longrightarrow> captured n 0 (wtokens t) (x # d) a" for n a
        unfolding wt by (rule captured_Lit [OF c(2)])
      show ?thesis unfolding h using IH cap
        by (cases "wild_fast v d") (auto simp: wt c(2))
    qed
  qed (use "2.prems" in simp)
qed

lemma wild_alloc_blank:
  "\<forall>a\<in>set args. a = None \<or> a = Some [] \<Longrightarrow>
     length (wild_alloc t i n args) = length args \<and> (\<forall>a\<in>set (wild_alloc t i n args). a = None \<or> a = Some [])"
proof (induction t i n args rule: wild_alloc.induct)
  case (2 c t i n args)
  have "\<forall>a\<in>set (args[i := Some []]). a = None \<or> a = Some []"
    using "2.prems" set_update_subset_insert [of args i "Some []"] by blast
  with 2 show ?case by simp
qed simp

text \<open>What the caller finds in \<open>args\<close> after a match: what each wildcard stands for, and NULL for
  an empty piece and for the places that are left.\<close>

definition wild_args :: "nat \<Rightarrow> string list \<Rightarrow> args" where
  "wild_args nargs pieces =
     map (\<lambda>i. if i < length pieces \<and> pieces ! i \<noteq> [] then Some (pieces ! i) else None) [0..<nargs]"

lemma wild_clean_captured:
  assumes "captured n 0 p d a" "length a = n" "\<forall>i<n. wilds p \<le> i \<longrightarrow> a ! i = None \<or> a ! i = Some []"
  shows "\<exists>xs. list_all2 piece_ok p xs \<and> concat xs = d \<and> wild_clean True a = wild_args n (caps p xs)"
proof -
  obtain xs where xs: "list_all2 piece_ok p xs" "concat xs = d" "\<forall>j<wilds p. j < n \<longrightarrow> a ! j = Some (caps p xs ! j)"
    using assms(1) by (auto simp: captured_def)
  have "wild_clean True a = wild_args n (caps p xs)"
  proof (rule nth_equalityI)
    show "length (wild_clean True a) = length (wild_args n (caps p xs))"
      using assms(2) by (simp add: wild_clean_def wild_args_def)
    fix i assume "i < length (wild_clean True a)"
    then have i: "i < n" using assms(2) by (simp add: wild_clean_def)
    show "wild_clean True a ! i = wild_args n (caps p xs) ! i"
    proof (cases "i < wilds p")
      case True
      then show ?thesis using i xs assms(2) by (simp add: wild_clean_def wild_args_def length_caps)
    next
      case False
      then show ?thesis using i xs assms(2,3) by (auto simp: wild_clean_def wild_args_def length_caps)
    qed
  qed
  with xs show ?thesis by blast
qed

lemma wild_correct:
  assumes c: "cstring t" "cstring d" and len: "length d < LBUF_SIZE"
  shows "case wild lim t d nargs of (r, args) \<Rightarrow>
    if r then \<exists>xs. list_all2 piece_ok (wtokens t) xs \<and> concat xs = d \<and> args = wild_args nargs (caps (wtokens t) xs)
    else args = replicate nargs None"
proof -
  have F: "fast_ok t d (wild_fast t d)" by (rule wild_fast_correct [OF c])
  have blank: "wild_clean True (replicate nargs None) = replicate nargs None"
    by (simp add: wild_clean_def)
  show ?thesis
  proof (cases "wild_fast t d")
    case (Inl r)
    show ?thesis
    proof (cases r)
      case True
      then have "glob (wtokens t) d" "wilds (wtokens t) = 0" using F Inl by auto
      then have "captured nargs 0 (wtokens t) d (replicate nargs None)" by (simp add: captured_def glob_def)
      from wild_clean_captured [OF this] show ?thesis using Inl True blank by (simp add: wild_def)
    qed (simp add: wild_def Inl)
  next
    case (Inr p)
    obtain t1 d1 where p: "p = (t1, d1)" by fastforce
    define a where "a = wild_alloc t1 0 nargs (replicate nargs None)"
    have a: "length a = nargs" "\<forall>i<nargs. a ! i = None \<or> a ! i = Some []"
      using wild_alloc_blank [of "replicate nargs None" t1 0 nargs] by (auto simp: a_def all_set_conv_all_nth)
    have f: "cstring t1" "cstring d1" "length d1 < LBUF_SIZE" "wilds (wtokens t) = wilds (wtokens t1)"
      "\<And>b. captured nargs 0 (wtokens t1) d1 b \<Longrightarrow> captured nargs 0 (wtokens t) d b"
      using F Inr p len by auto
    obtain v cnt a' where m: "(if nargs \<noteq> 0 then wild1 lim nargs t1 d1 0 0 a
        else (let r = quick_wild_internal lim t1 d1 0 in (fst r, snd r, a))) = (v, cnt, a')"
      using prod_cases3 by blast
    have w: "wild lim t d nargs = (v, wild_clean v a')"
      by (simp only: wild_def Inr p a_def [symmetric] sum.case prod.case Let_def m [unfolded Let_def])
    have M: "within 0 (wilds (wtokens t1)) a a' \<and> (v \<longrightarrow> captured nargs 0 (wtokens t1) d1 a')"
    proof (cases "nargs = 0")
      case True
      then have "quick_wild_internal lim t1 d1 0 = (v, cnt)" "a' = a" using m by (auto simp: Let_def prod_eq_iff)
      then show ?thesis
        using quick_correct(1) [OF f(1,2), of lim 0] True captured_full [of nargs 0] by (simp add: answer_ok_def)
    next
      case False
      then have "wild1 lim nargs t1 d1 0 0 a = (v, cnt, a')" using m by simp
      then show ?thesis using wild1_correct(1) [OF f(1,2) _ a(1) f(3), of 0 lim 0] False by simp
    qed
    have la: "length a' = nargs" using M a(1) by (simp add: within_def)
    show ?thesis
    proof (cases v)
      case True
      have "\<forall>i<nargs. wilds (wtokens t) \<le> i \<longrightarrow> a' ! i = None \<or> a' ! i = Some []"
        using M a(2) f(4) by (metis add_0 within_def)
      from wild_clean_captured [OF f(5) la this] show ?thesis using M True w by simp
    next
      case False
      then show ?thesis using w la by (auto simp: wild_clean_def map_replicate_const split: option.split
            intro!: replicate_eqI)
    qed
  qed
qed

subsection \<open>Properties\<close>

text \<open>
  C18: \<open>quick_wild\<close> answers yes only for texts that the pattern matches (a star for any
  text, a question mark for one character, a backslash before a literal character, case
  ignored), and it answers yes for every such text unless the call counter reached
  \<open>mudconf.wildmatch_lim\<close>.
\<close>

theorem quick_wild_matches:
  assumes "cstring tstr" "cstring dstr"
  shows "(quick_wild lim tstr dstr \<longrightarrow> glob (wtokens tstr) dstr) \<and>
    (snd (quick_wild_internal lim tstr dstr 0) \<le> lim \<longrightarrow>
       quick_wild lim tstr dstr = glob (wtokens tstr) dstr)"
  using quick_correct(1) [OF assms, of lim 0] by (auto simp: quick_wild_def answer_ok_def)

theorem quick_wild_matches_witness:
  "quick_wild 1000 ''g*t ?old'' ''Get gold'' \<and> glob (wtokens ''g*t ?old'') ''Get gold''"
proof -
  have c: "cstring ''g*t ?old''" "cstring ''Get gold''" by (simp_all add: cstring_def)
  have "quick_wild 1000 ''g*t ?old'' ''Get gold''" by code_simp
  with quick_wild_matches [OF c, of 1000] show ?thesis by blast
qed

text \<open>
  C8: when \<open>wild\<close> succeeds, the pieces that the wildcards stand for put the text together
  again, and \<open>args\<close> holds these pieces in order (NULL for an empty one, as many as there is
  room for); when it fails, every argument is NULL.
\<close>

theorem wild_returns_pieces:
  assumes "cstring tstr" "cstring dstr" "length dstr < LBUF_SIZE" "wild lim tstr dstr nargs = (r, args)"
  shows "if r then \<exists>xs. list_all2 piece_ok (wtokens tstr) xs \<and> concat xs = dstr \<and>
       args = wild_args nargs (caps (wtokens tstr) xs)
    else args = replicate nargs None"
  using wild_correct [OF assms(1-3), of nargs lim] assms(4) by simp

theorem wild_returns_pieces_witness:
  "\<exists>xs. list_all2 piece_ok (wtokens ''say *=?'') xs \<and> concat xs = ''say hi=u'' \<and>
     [Some ''hi'', Some ''u'', None] = wild_args 3 (caps (wtokens ''say *=?'') xs)"
proof -
  have c: "cstring ''say *=?''" "cstring ''say hi=u''" "length ''say hi=u'' < LBUF_SIZE"
    by (simp_all add: cstring_def LBUF_SIZE_def)
  have "wild 1000 ''say *=?'' ''say hi=u'' 3 = (True, [Some ''hi'', Some ''u'', None])" by code_simp
  from wild_returns_pieces [OF c this] show ?thesis by simp
qed

end
