(* ===== verification/Boolexp.thy ===== *)
theory Boolexp
  imports Stringutil Wild
begin

section \<open>Locks (src/Server/src/boolexp.c, src/Server/src/unparse.c)\<close>

text \<open>
  Boolean lock expressions: the parser, the printer and the evaluator. \<open>TRUE_BOOLEXP\<close>, the
  NULL pointer, is \<open>None\<close>; the tagged struct \<open>BOOLEXP\<close> is a datatype whose attribute nodes
  carry their number and the text that the code keeps in \<open>sub1\<close>. \<open>parsebuf\<close> is the string
  still to be read, returned by each parsing function; the functions that meet
  \<open>TRUE_BOOLEXP\<close> return at once without reading on, so a failed parse has no rest. Memory is
  not modelled here.
\<close>

abbreviation AMBIGUOUS :: dbref where
  "AMBIGUOUS \<equiv> - 2"

abbreviation HOME :: dbref where
  "HOME \<equiv> - 3"

definition God :: "dbref \<Rightarrow> bool" where
  "God x \<longleftrightarrow> x = 1"

datatype BOOLEXP =
    BOOLEXP_AND BOOLEXP BOOLEXP
  | BOOLEXP_OR BOOLEXP BOOLEXP
  | BOOLEXP_NOT BOOLEXP
  | BOOLEXP_CONST dbref
  | BOOLEXP_ATR int string
  | BOOLEXP_INDIR BOOLEXP
  | BOOLEXP_CARRY BOOLEXP
  | BOOLEXP_IS BOOLEXP
  | BOOLEXP_OWNER BOOLEXP
  | BOOLEXP_EVAL int string

subsection \<open>The parser\<close>

text \<open>
  What the parser calls: \<open>atr_str_bool\<close> finds the number of the attribute of a name,
  \<open>Good_obj\<close> says whether a number is that of an object, and \<open>match_object\<close> is the object
  that \<open>match_everything\<close> finds for a name (or \<open>NOTHING\<close> or \<open>AMBIGUOUS\<close>).
\<close>

record parse_env =
  atr_str_bool :: "string \<Rightarrow> int option"
  Good_obj :: "dbref \<Rightarrow> bool"
  match_object :: "dbref \<Rightarrow> string \<Rightarrow> dbref"

definition test_atr :: "parse_env \<Rightarrow> dbref \<Rightarrow> string \<Rightarrow> BOOLEXP option" where
  "test_atr env parse_player s =
     (let name = takeWhile (\<lambda>c. c \<noteq> CHR '':'' \<and> c \<noteq> CHR ''/'') s;
          rest = dropWhile (\<lambda>c. c \<noteq> CHR '':'' \<and> c \<noteq> CHR ''/'') s
      in case rest of
           [] \<Rightarrow> None
         | sep # key \<Rightarrow>
             (let node = (\<lambda>anum. if sep = CHR ''/'' then BOOLEXP_EVAL anum key else BOOLEXP_ATR anum key)
              in case atr_str_bool env name of
                   Some anum \<Rightarrow> Some (node anum)
                 | None \<Rightarrow>
                     (if \<not> God parse_player then None
                      else if dropWhile is_digit name \<noteq> [] then None
                      else Some (node (atoi name)))))"

text \<open>
  Stripping trailing blanks: \<open>*p-- = 0; while (isspace(*p)) *p-- = 0\<close>. The leading blanks are
  gone, so the loop stops inside the buffer unless the name is empty; then the code reads the
  byte before the buffer, taken here not to be a blank.
\<close>

definition strip_trailing :: "string \<Rightarrow> string" where
  "strip_trailing buf = rev (dropWhile is_space (rev buf))"

definition parse_name :: "parse_env \<Rightarrow> dbref \<Rightarrow> bool \<Rightarrow> string \<Rightarrow> BOOLEXP option" where
  "parse_name env parse_player internal buf =
     (case test_atr env parse_player buf of
        Some b \<Rightarrow> Some b
      | None \<Rightarrow>
          (if internal then
             (if deref buf \<noteq> CHR ''#'' then None
              else (let thing = atoi (tl buf)
                    in if Good_obj env thing then Some (BOOLEXP_CONST thing) else None))
           else
             (let thing = match_object env parse_player buf
              in if thing = NOTHING \<or> thing = AMBIGUOUS then None else Some (BOOLEXP_CONST thing))))"

definition is_name_char :: "char \<Rightarrow> bool" where
  "is_name_char c \<longleftrightarrow> c \<noteq> CHR ''&'' \<and> c \<noteq> CHR ''|'' \<and> c \<noteq> CHR '')''"

fun is_const :: "BOOLEXP \<Rightarrow> bool" where
  "is_const (BOOLEXP_CONST n) = True"
| "is_const _ = False"

fun is_atr :: "BOOLEXP \<Rightarrow> bool" where
  "is_atr (BOOLEXP_ATR n key) = True"
| "is_atr _ = False"

function (domintros)
  parse_boolexp_L :: "parse_env \<Rightarrow> dbref \<Rightarrow> bool \<Rightarrow> string \<Rightarrow> (BOOLEXP \<times> string) option" and
  parse_boolexp_F :: "parse_env \<Rightarrow> dbref \<Rightarrow> bool \<Rightarrow> string \<Rightarrow> (BOOLEXP \<times> string) option" and
  parse_boolexp_T :: "parse_env \<Rightarrow> dbref \<Rightarrow> bool \<Rightarrow> string \<Rightarrow> (BOOLEXP \<times> string) option" and
  parse_boolexp_E :: "parse_env \<Rightarrow> dbref \<Rightarrow> bool \<Rightarrow> string \<Rightarrow> (BOOLEXP \<times> string) option" where
  "parse_boolexp_L env p i parsebuf =
     (let s = dropWhile is_space parsebuf
      in if deref s = CHR ''('' then
           (case parse_boolexp_E env p i (tl s) of
              None \<Rightarrow> None
            | Some (b, s1) \<Rightarrow>
                (let s2 = dropWhile is_space s1
                 in if deref s2 \<noteq> CHR '')'' then None else Some (b, tl s2)))
         else
           (case parse_name env p i (strip_trailing (takeWhile is_name_char s)) of
              None \<Rightarrow> None
            | Some b \<Rightarrow> Some (b, dropWhile is_name_char s)))"
| "parse_boolexp_F env p i parsebuf =
     (let s = dropWhile is_space parsebuf
      in if deref s = CHR ''!'' then
           (case parse_boolexp_F env p i (tl s) of
              None \<Rightarrow> None | Some (b, r) \<Rightarrow> Some (BOOLEXP_NOT b, r))
         else if deref s = CHR ''@'' then
           (case parse_boolexp_L env p i (tl s) of
              None \<Rightarrow> None
            | Some (b, r) \<Rightarrow> if \<not> is_const b then None else Some (BOOLEXP_INDIR b, r))
         else if deref s = CHR ''='' then
           (case parse_boolexp_L env p i (tl s) of
              None \<Rightarrow> None
            | Some (b, r) \<Rightarrow> if \<not> is_const b \<and> \<not> is_atr b then None else Some (BOOLEXP_IS b, r))
         else if deref s = CHR ''+'' then
           (case parse_boolexp_L env p i (tl s) of
              None \<Rightarrow> None
            | Some (b, r) \<Rightarrow> if \<not> is_const b \<and> \<not> is_atr b then None else Some (BOOLEXP_CARRY b, r))
         else if deref s = CHR ''$'' then
           (case parse_boolexp_L env p i (tl s) of
              None \<Rightarrow> None
            | Some (b, r) \<Rightarrow> if \<not> is_const b then None else Some (BOOLEXP_OWNER b, r))
         else parse_boolexp_L env p i s)"
| "parse_boolexp_T env p i parsebuf =
     (case parse_boolexp_F env p i parsebuf of
        None \<Rightarrow> None
      | Some (b, r) \<Rightarrow>
          (let s = dropWhile is_space r
           in if deref s = CHR ''&'' then
                (case parse_boolexp_T env p i (tl s) of
                   None \<Rightarrow> None | Some (b2, r2) \<Rightarrow> Some (BOOLEXP_AND b b2, r2))
              else Some (b, s)))"
| "parse_boolexp_E env p i parsebuf =
     (case parse_boolexp_T env p i parsebuf of
        None \<Rightarrow> None
      | Some (b, r) \<Rightarrow>
          (let s = dropWhile is_space r
           in if deref s = CHR ''|'' then
                (case parse_boolexp_E env p i (tl s) of
                   None \<Rightarrow> None | Some (b2, r2) \<Rightarrow> Some (BOOLEXP_OR b b2, r2))
              else Some (b, s)))"
  by pat_completeness auto

text \<open>Every parsing function returns a suffix that is not longer than what it was given.\<close>

lemma drop_spaces_le: "length r \<le> n \<Longrightarrow> length (dropWhile is_space r) \<le> n"
  using length_dropWhile_le [of is_space r] by linarith

lemma tl_spaces_less:
  "length r \<le> n \<Longrightarrow> deref (dropWhile is_space r) \<noteq> NUL \<Longrightarrow> length (tl (dropWhile is_space r)) < n"
  using drop_spaces_le [of r n] by (cases "dropWhile is_space r") auto

lemma spaces_less_iff: "length (dropWhile is_space s) < length s \<longleftrightarrow> length (dropWhile is_space s) \<noteq> length s"
  using length_dropWhile_le [of is_space s] by linarith

lemma parse_shrinks:
  "parse_boolexp_L_parse_boolexp_F_parse_boolexp_T_parse_boolexp_E_dom (Inl (Inl (env, p, i, s))) \<Longrightarrow>
     (\<forall>b r. parse_boolexp_L env p i s = Some (b, r) \<longrightarrow> length r \<le> length s)"
  "parse_boolexp_L_parse_boolexp_F_parse_boolexp_T_parse_boolexp_E_dom (Inl (Inr (env, p, i, s))) \<Longrightarrow>
     (\<forall>b r. parse_boolexp_F env p i s = Some (b, r) \<longrightarrow> length r \<le> length s)"
  "parse_boolexp_L_parse_boolexp_F_parse_boolexp_T_parse_boolexp_E_dom (Inr (Inl (env, p, i, s))) \<Longrightarrow>
     (\<forall>b r. parse_boolexp_T env p i s = Some (b, r) \<longrightarrow> length r \<le> length s)"
  "parse_boolexp_L_parse_boolexp_F_parse_boolexp_T_parse_boolexp_E_dom (Inr (Inr (env, p, i, s))) \<Longrightarrow>
     (\<forall>b r. parse_boolexp_E env p i s = Some (b, r) \<longrightarrow> length r \<le> length s)"
proof (induction rule: parse_boolexp_L_parse_boolexp_F_parse_boolexp_T_parse_boolexp_E.pinduct)
  case (1 env p i s)
  show ?case
  proof (intro allI impI)
    fix b r assume r: "parse_boolexp_L env p i s = Some (b, r)"
    show "length r \<le> length s"
    proof (cases "deref (dropWhile is_space s) = CHR ''(''")
      case True
      then obtain s1 where s1: "parse_boolexp_E env p i (tl (dropWhile is_space s)) = Some (b, s1)"
        "r = tl (dropWhile is_space s1)"
        using r 1(1) by (auto simp: parse_boolexp_L.psimps Let_def split: option.splits if_splits)
      have "length s1 \<le> length (tl (dropWhile is_space s))" using 1(2) True s1(1) by blast
      then have "length s1 \<le> length s" using drop_spaces_le [of s "length s"] by simp
      then show ?thesis using drop_spaces_le [of s1 "length s"] s1(2) by simp
    next
      case False
      then have "r = dropWhile is_name_char (dropWhile is_space s)"
        using r 1(1) by (auto simp: parse_boolexp_L.psimps Let_def split: option.splits)
      then show ?thesis
        using length_dropWhile_le [of is_name_char "dropWhile is_space s"] drop_spaces_le [of s "length s"] by simp
    qed
  qed
next
  case (2 env p i s)
  show ?case
  proof (intro allI impI)
    fix b r assume r: "parse_boolexp_F env p i s = Some (b, r)"
    let ?s = "dropWhile is_space s"
    have "\<exists>b'. parse_boolexp_F env p i (tl ?s) = Some (b', r) \<and> deref ?s = CHR ''!'' \<or>
        parse_boolexp_L env p i (tl ?s) = Some (b', r) \<and> deref ?s \<in> set ''@=+$'' \<or>
        parse_boolexp_L env p i ?s = Some (b', r) \<and> deref ?s \<notin> set ''!@=+$''"
      using r 2(1) by (auto simp: parse_boolexp_F.psimps Let_def split: option.splits if_splits)
    then have "length r \<le> length (tl ?s) \<or> length r \<le> length ?s" using 2(2-) by auto
    then show "length r \<le> length s" using drop_spaces_le [of s "length s"] by auto
  qed
next
  case (3 env p i s)
  show ?case
  proof (intro allI impI)
    fix b r assume r: "parse_boolexp_T env p i s = Some (b, r)"
    then obtain b1 r1 where F: "parse_boolexp_F env p i s = Some (b1, r1)"
      using 3(1) by (auto simp: parse_boolexp_T.psimps split: option.splits)
    have l1: "length r1 \<le> length s" using 3(2) F by blast
    show "length r \<le> length s"
    proof (cases "deref (dropWhile is_space r1) = CHR ''&''")
      case True
      then obtain b2 where "parse_boolexp_T env p i (tl (dropWhile is_space r1)) = Some (b2, r)"
        using r 3(1) F by (auto simp: parse_boolexp_T.psimps Let_def split: option.splits)
      then have "length r \<le> length (tl (dropWhile is_space r1))" using 3(3) [OF F refl refl True] by blast
      then show ?thesis using tl_spaces_less [OF l1] True by simp
    next
      case False
      then show ?thesis using r 3(1) F drop_spaces_le [OF l1] by (simp add: parse_boolexp_T.psimps Let_def)
    qed
  qed
next
  case (4 env p i s)
  show ?case
  proof (intro allI impI)
    fix b r assume r: "parse_boolexp_E env p i s = Some (b, r)"
    then obtain b1 r1 where F: "parse_boolexp_T env p i s = Some (b1, r1)"
      using 4(1) by (auto simp: parse_boolexp_E.psimps split: option.splits)
    have l1: "length r1 \<le> length s" using 4(2) F by blast
    show "length r \<le> length s"
    proof (cases "deref (dropWhile is_space r1) = CHR ''|''")
      case True
      then obtain b2 where "parse_boolexp_E env p i (tl (dropWhile is_space r1)) = Some (b2, r)"
        using r 4(1) F by (auto simp: parse_boolexp_E.psimps Let_def split: option.splits)
      then have "length r \<le> length (tl (dropWhile is_space r1))" using 4(3) [OF F refl refl True] by blast
      then show ?thesis using tl_spaces_less [OF l1] True by simp
    next
      case False
      then show ?thesis using r 4(1) F drop_spaces_le [OF l1] by (simp add: parse_boolexp_E.psimps Let_def)
    qed
  qed
qed

termination parse_boolexp_L
proof (relation "measures
    [\<lambda>x. case x of Inl (Inl (_, _, _, s)) \<Rightarrow> length s | Inl (Inr (_, _, _, s)) \<Rightarrow> length s
                 | Inr (Inl (_, _, _, s)) \<Rightarrow> length s | Inr (Inr (_, _, _, s)) \<Rightarrow> length s,
     \<lambda>x. case x of Inl (Inl _) \<Rightarrow> 0 | Inl (Inr _) \<Rightarrow> 1 | Inr (Inl _) \<Rightarrow> 2 | Inr (Inr _) \<Rightarrow> (3 :: nat)]",
    goal_cases)
  case 1
  show ?case by simp
qed (auto simp: tl_spaces_less tl_spaces_less [THEN less_imp_le] drop_spaces_le simp del: length_tl
       dest: parse_shrinks(2,3) simp add: spaces_less_iff)

declare parse_boolexp_L.simps [simp del] parse_boolexp_F.simps [simp del]
  parse_boolexp_T.simps [simp del] parse_boolexp_E.simps [simp del]

definition parse_boolexp :: "parse_env \<Rightarrow> dbref \<Rightarrow> string \<Rightarrow> bool \<Rightarrow> BOOLEXP option" where
  "parse_boolexp env player buf internal =
     (if buf = [] then None else map_option fst (parse_boolexp_E env player internal buf))"

subsection \<open>The printer\<close>

datatype lock_format = F_EXAMINE | F_QUIET | F_DECOMPILE | F_FUNCTION

datatype object_type = TYPE_ROOM | TYPE_THING | TYPE_EXIT | TYPE_PLAYER | TYPE_ZONE | TYPE_GARBAGE

text \<open>What the printer asks the database: \<open>atr_num\<close> is the number and name of an attribute.\<close>

record unparse_env =
  atr_num :: "int \<Rightarrow> (int \<times> string) option"
  Typeof :: "dbref \<Rightarrow> object_type"
  Name :: "dbref \<Rightarrow> string"
  unparse_object :: "dbref \<Rightarrow> dbref \<Rightarrow> string"

definition unparse_object_quiet :: "dbref \<Rightarrow> string" where
  "unparse_object_quiet loc =
     (if loc = NOTHING then ''-1'' else if loc = HOME then ''-3'' else ''(#'' @ sprintf_d loc @ '')'')"

datatype node_type = T_AND | T_OR | T_NOT | T_CONST | T_INDIR | T_IS | T_CARRY | T_OWNER

definition unparse_const :: "unparse_env \<Rightarrow> dbref \<Rightarrow> dbref \<Rightarrow> lock_format \<Rightarrow> string \<Rightarrow> string" where
  "unparse_const env player thing fmt buf =
     (case fmt of
        F_QUIET \<Rightarrow> safe_str (unparse_object_quiet thing) buf
      | F_EXAMINE \<Rightarrow> safe_str (unparse_object env player thing) buf
      | F_DECOMPILE \<Rightarrow>
          (case Typeof env thing of
             TYPE_PLAYER \<Rightarrow> safe_str (Name env thing) (safe_chr (CHR ''*'') buf)
           | TYPE_THING \<Rightarrow> safe_str (Name env thing) buf
           | _ \<Rightarrow> safe_str (CHR ''#'' # sprintf_d thing) buf)
      | F_FUNCTION \<Rightarrow>
          (case Typeof env thing of
             TYPE_PLAYER \<Rightarrow> safe_str (Name env thing) (safe_chr (CHR ''*'') buf)
           | _ \<Rightarrow> safe_str (CHR ''#'' # sprintf_d thing) buf))"

text \<open>
  An attribute node. For a number that is not positive and not that of an attribute the code
  prints \<open>sub2\<close>, a field that no code ever sets; the result is \<open>None\<close> there.
\<close>

definition unparse_attr :: "unparse_env \<Rightarrow> int \<Rightarrow> char \<Rightarrow> string \<Rightarrow> string \<Rightarrow> string option" where
  "unparse_attr env thing sep_ch key buf =
     (case atr_num env thing of
        Some (number, nm) \<Rightarrow>
          (if number \<noteq> 0 then Some (safe_str key (safe_chr sep_ch (safe_str nm buf)))
           else if thing > 0 then Some (safe_str key (safe_chr sep_ch (safe_str (sprintf_d thing) buf)))
           else None)
      | None \<Rightarrow>
          (if thing > 0 then Some (safe_str key (safe_chr sep_ch (safe_str (sprintf_d thing) buf)))
           else None))"

fun unparse_boolexp1 ::
  "unparse_env \<Rightarrow> dbref \<Rightarrow> BOOLEXP \<Rightarrow> node_type \<Rightarrow> lock_format \<Rightarrow> string \<Rightarrow> string option" where
  "unparse_boolexp1 env p (BOOLEXP_AND b1 b2) outer_type fmt buf =
     (let buf1 = (if outer_type = T_NOT then safe_chr (CHR ''('') buf else buf)
      in Option.bind (unparse_boolexp1 env p b1 T_AND fmt buf1) (\<lambda>buf2.
         Option.bind (unparse_boolexp1 env p b2 T_AND fmt (safe_chr (CHR ''&'') buf2)) (\<lambda>buf3.
         Some (if outer_type = T_NOT then safe_chr (CHR '')'') buf3 else buf3))))"
| "unparse_boolexp1 env p (BOOLEXP_OR b1 b2) outer_type fmt buf =
     (let paren = (outer_type = T_NOT \<or> outer_type = T_AND);
          buf1 = (if paren then safe_chr (CHR ''('') buf else buf)
      in Option.bind (unparse_boolexp1 env p b1 T_OR fmt buf1) (\<lambda>buf2.
         Option.bind (unparse_boolexp1 env p b2 T_OR fmt (safe_chr (CHR ''|'') buf2)) (\<lambda>buf3.
         Some (if paren then safe_chr (CHR '')'') buf3 else buf3))))"
| "unparse_boolexp1 env p (BOOLEXP_NOT b) outer_type fmt buf =
     unparse_boolexp1 env p b T_NOT fmt (safe_chr (CHR ''!'') buf)"
| "unparse_boolexp1 env p (BOOLEXP_INDIR b) outer_type fmt buf =
     unparse_boolexp1 env p b T_INDIR fmt (safe_chr (CHR ''@'') buf)"
| "unparse_boolexp1 env p (BOOLEXP_IS b) outer_type fmt buf =
     unparse_boolexp1 env p b T_IS fmt (safe_chr (CHR ''='') buf)"
| "unparse_boolexp1 env p (BOOLEXP_CARRY b) outer_type fmt buf =
     unparse_boolexp1 env p b T_CARRY fmt (safe_chr (CHR ''+'') buf)"
| "unparse_boolexp1 env p (BOOLEXP_OWNER b) outer_type fmt buf =
     unparse_boolexp1 env p b T_OWNER fmt (safe_chr (CHR ''$'') buf)"
| "unparse_boolexp1 env p (BOOLEXP_CONST thing) outer_type fmt buf =
     Some (unparse_const env p thing fmt buf)"
| "unparse_boolexp1 env p (BOOLEXP_ATR thing key) outer_type fmt buf =
     unparse_attr env thing (CHR '':'') key buf"
| "unparse_boolexp1 env p (BOOLEXP_EVAL thing key) outer_type fmt buf =
     unparse_attr env thing (CHR ''/'') key buf"

definition unparse_top :: "unparse_env \<Rightarrow> dbref \<Rightarrow> BOOLEXP option \<Rightarrow> lock_format \<Rightarrow> string option" where
  "unparse_top env player b fmt =
     (case b of
        None \<Rightarrow> Some (if fmt = F_EXAMINE then safe_str ''*UNLOCKED*'' [] else [])
      | Some b' \<Rightarrow> unparse_boolexp1 env player b' T_CONST fmt [])"

definition unparse_boolexp_quiet :: "unparse_env \<Rightarrow> dbref \<Rightarrow> BOOLEXP option \<Rightarrow> string option" where
  "unparse_boolexp_quiet env player b = unparse_top env player b F_QUIET"

definition unparse_boolexp :: "unparse_env \<Rightarrow> dbref \<Rightarrow> BOOLEXP option \<Rightarrow> string option" where
  "unparse_boolexp env player b = unparse_top env player b F_EXAMINE"

definition unparse_boolexp_decompile :: "unparse_env \<Rightarrow> dbref \<Rightarrow> BOOLEXP option \<Rightarrow> string option" where
  "unparse_boolexp_decompile env player b = unparse_top env player b F_DECOMPILE"

definition unparse_boolexp_function :: "unparse_env \<Rightarrow> dbref \<Rightarrow> BOOLEXP option \<Rightarrow> string option" where
  "unparse_boolexp_function env player b = unparse_top env player b F_FUNCTION"

subsection \<open>The evaluator\<close>

record ATTR =
  attr_number :: int
  attr_name :: string

abbreviation A_LOCK :: int where
  "A_LOCK \<equiv> 42"

abbreviation A_NAME :: int where
  "A_NAME \<equiv> 43"

text \<open>
  The state: the fields of \<open>mudstate\<close> that the evaluator writes, and the world, which only the
  environment changes. \<open>lock_nest_lev\<close> is an argument instead of a field, because every
  return of the code undoes its increment.
\<close>

record 'w lock_state =
  inside_locks :: bool
  chkcpu_locktog :: bool
  chkcpu_toggle :: bool
  world :: 'w

text \<open>
  What the evaluator calls. \<open>atr_pget\<close> and \<open>atr_get\<close> return the text, the owner and the flags
  of an attribute; \<open>Contents\<close> is the list that \<open>DOLIST\<close> and \<open>member\<close> walk; \<open>exec_lock\<close> is
  the call of \<open>exec\<close> with the source, the player and the text.
\<close>

record 'w lock_env =
  lock_parse :: "'w \<Rightarrow> parse_env"
  atr_pget :: "'w \<Rightarrow> dbref \<Rightarrow> int \<Rightarrow> string \<times> dbref \<times> int"
  atr_get :: "'w \<Rightarrow> dbref \<Rightarrow> int \<Rightarrow> string \<times> dbref \<times> int"
  See_attr :: "'w \<Rightarrow> dbref \<Rightarrow> dbref \<Rightarrow> ATTR \<Rightarrow> dbref \<Rightarrow> int \<Rightarrow> bool"
  Read_attr :: "'w \<Rightarrow> dbref \<Rightarrow> dbref \<Rightarrow> ATTR \<Rightarrow> dbref \<Rightarrow> int \<Rightarrow> bool"
  atr_num_bool :: "'w \<Rightarrow> int \<Rightarrow> ATTR option"
  Contents :: "'w \<Rightarrow> dbref \<Rightarrow> dbref list"
  Owner :: "'w \<Rightarrow> dbref \<Rightarrow> dbref"
  silent_effects :: "'w \<Rightarrow> dbref \<Rightarrow> bool"
  exec_lock :: "'w lock_state \<Rightarrow> dbref \<Rightarrow> dbref \<Rightarrow> string \<Rightarrow> string \<times> 'w lock_state"
  notify :: "'w \<Rightarrow> dbref \<Rightarrow> string \<Rightarrow> 'w"
  wildmatch_lim :: int
  space_compress :: bool
  lock_nest_lim :: int

definition check_attr :: "'w lock_env \<Rightarrow> 'w \<Rightarrow> dbref \<Rightarrow> dbref \<Rightarrow> ATTR \<Rightarrow> string \<Rightarrow> bool" where
  "check_attr env w player lockobj attr key =
     (let (buff, aowner, aflags) = atr_pget env w player (attr_number attr);
          checkit = (if See_attr env w lockobj player attr aowner aflags then True
                     else if attr_number attr = A_NAME then True else False)
      in if checkit \<and> \<not> fst (wild_match (wildmatch_lim env) key buff 0 True) then False else checkit)"

text \<open>\<open>DOLIST(obj, Contents(player)) if (check_attr(obj, ...)) return 1;\<close>\<close>

fun check_contents :: "'w lock_env \<Rightarrow> 'w \<Rightarrow> dbref list \<Rightarrow> dbref \<Rightarrow> ATTR \<Rightarrow> string \<Rightarrow> bool" where
  "check_contents env w [] from attr key = False"
| "check_contents env w (obj # rest) from attr key =
     (if check_attr env w obj from attr key then True else check_contents env w rest from attr key)"

text \<open>The case \<open>BOOLEXP_EVAL\<close>.\<close>

definition eval_attr_lock ::
  "'w lock_env \<Rightarrow> dbref \<Rightarrow> dbref \<Rightarrow> dbref \<Rightarrow> int \<Rightarrow> string \<Rightarrow> 'w lock_state \<Rightarrow> bool \<times> 'w lock_state" where
  "eval_attr_lock env player thing from n key st =
     (case atr_num_bool env (world st) n of
        None \<Rightarrow> (False, st)
      | Some a \<Rightarrow>
          (let (buff0, aowner0, aflags0) = atr_pget env (world st) from (attr_number a);
               (source, buff, aowner, aflags) =
                 (if buff0 = [] then (thing, atr_pget env (world st) thing (attr_number a))
                  else (from, buff0, aowner0, aflags0));
               checkit = (if Read_attr env (world st) source source a aowner aflags then True
                          else if attr_number a = A_NAME then True else False)
           in if \<not> checkit then (False, st)
              else
                (let boolchk = inside_locks st
                 in if silent_effects env (world st) source then (False, st)
                    else
                      (let st1 = st \<lparr> inside_locks := True, chkcpu_locktog := False \<rparr>;
                           lockchk = chkcpu_toggle st1;
                           (buff2, st2) = exec_lock env st1 source player buff;
                           st3 = (if chkcpu_toggle st2 \<and> \<not> lockchk then st2 \<lparr> chkcpu_locktog := True \<rparr> else st2)
                       in (string_compare (space_compress env) buff2 key = 0,
                           st3 \<lparr> inside_locks := boolchk \<rparr>)))))"

text \<open>\<open>IS\<close> and \<open>CARRY\<close> have an object or an attribute below them, \<open>OWNER\<close> an object; nothing
  else comes out of the parser.\<close>

definition eval_is :: "'w lock_env \<Rightarrow> dbref \<Rightarrow> dbref \<Rightarrow> BOOLEXP \<Rightarrow> 'w \<Rightarrow> bool" where
  "eval_is env player from b w =
     (case b of
        BOOLEXP_CONST t \<Rightarrow> t = player
      | BOOLEXP_ATR n key \<Rightarrow>
          (case atr_num_bool env w n of None \<Rightarrow> False | Some a \<Rightarrow> check_attr env w player from a key)
      | _ \<Rightarrow> False)"

definition eval_carry :: "'w lock_env \<Rightarrow> dbref \<Rightarrow> dbref \<Rightarrow> BOOLEXP \<Rightarrow> 'w \<Rightarrow> bool" where
  "eval_carry env player from b w =
     (case b of
        BOOLEXP_CONST t \<Rightarrow> t \<in> set (Contents env w player)
      | BOOLEXP_ATR n key \<Rightarrow>
          (case atr_num_bool env w n of
             None \<Rightarrow> False | Some a \<Rightarrow> check_contents env w (Contents env w player) from a key)
      | _ \<Rightarrow> False)"

definition eval_owner :: "'w lock_env \<Rightarrow> dbref \<Rightarrow> BOOLEXP \<Rightarrow> 'w \<Rightarrow> bool" where
  "eval_owner env player b w =
     (case b of BOOLEXP_CONST t \<Rightarrow> Owner env w t = Owner env w player | _ \<Rightarrow> False)"

definition eval_atr_lock :: "'w lock_env \<Rightarrow> dbref \<Rightarrow> dbref \<Rightarrow> int \<Rightarrow> string \<Rightarrow> 'w \<Rightarrow> bool" where
  "eval_atr_lock env player from n key w =
     (case atr_num_bool env w n of
        None \<Rightarrow> False
      | Some a \<Rightarrow>
          (if check_attr env w player from a key then True
           else check_contents env w (Contents env w player) from a key))"

definition broken_lock :: "'w lock_env \<Rightarrow> dbref \<Rightarrow> 'w lock_state \<Rightarrow> bool \<times> 'w lock_state" where
  "broken_lock env player st = (False, st \<lparr> world := notify env (world st) player ''Sorry, broken lock!'' \<rparr>)"

function eval_boolexp ::
  "'w lock_env \<Rightarrow> int \<Rightarrow> dbref \<Rightarrow> dbref \<Rightarrow> dbref \<Rightarrow> BOOLEXP \<Rightarrow> 'w lock_state \<Rightarrow> bool \<times> 'w lock_state" where
  "eval_boolexp env lev player thing from (BOOLEXP_AND b1 b2) st =
     (let r = eval_boolexp env lev player thing from b1 st
      in if fst r then eval_boolexp env lev player thing from b2 (snd r) else (False, snd r))"
| "eval_boolexp env lev player thing from (BOOLEXP_OR b1 b2) st =
     (let r = eval_boolexp env lev player thing from b1 st
      in if fst r then (True, snd r) else eval_boolexp env lev player thing from b2 (snd r))"
| "eval_boolexp env lev player thing from (BOOLEXP_NOT b) st =
     (let r = eval_boolexp env lev player thing from b st in (\<not> fst r, snd r))"
| "eval_boolexp env lev player thing from (BOOLEXP_INDIR b) st =
     (if lev + 1 \<ge> lock_nest_lim env then broken_lock env player st
      else (case b of
              BOOLEXP_CONST t \<Rightarrow>
                (if t < 0 then broken_lock env player st
                 else
                   (let (key, aowner, aflags) = atr_get env (world st) t A_LOCK
                    in case parse_boolexp (lock_parse env (world st)) player key True of
                         None \<Rightarrow> (True, st)
                       | Some b' \<Rightarrow> eval_boolexp env (lev + 1) player t from b' st))
            | _ \<Rightarrow> broken_lock env player st))"
| "eval_boolexp env lev player thing from (BOOLEXP_CONST t) st =
     (t = player \<or> t \<in> set (Contents env (world st) player), st)"
| "eval_boolexp env lev player thing from (BOOLEXP_ATR n key) st =
     (eval_atr_lock env player from n key (world st), st)"
| "eval_boolexp env lev player thing from (BOOLEXP_EVAL n key) st =
     eval_attr_lock env player thing from n key st"
| "eval_boolexp env lev player thing from (BOOLEXP_IS b) st = (eval_is env player from b (world st), st)"
| "eval_boolexp env lev player thing from (BOOLEXP_CARRY b) st = (eval_carry env player from b (world st), st)"
| "eval_boolexp env lev player thing from (BOOLEXP_OWNER b) st = (eval_owner env player b (world st), st)"
  by pat_completeness auto
termination
  by (relation "measures [\<lambda>(env, lev, p, t, f, b, st). nat (lock_nest_lim env - lev),
                          \<lambda>(env, lev, p, t, f, b, st). size b]") auto

text \<open>\<open>TRUE_BOOLEXP\<close> passes; \<open>def\<close> is what a lock that does not parse gives.\<close>

definition eval_lock ::
  "'w lock_env \<Rightarrow> int \<Rightarrow> dbref \<Rightarrow> dbref \<Rightarrow> dbref \<Rightarrow> BOOLEXP option \<Rightarrow> 'w lock_state \<Rightarrow> bool \<times> 'w lock_state" where
  "eval_lock env lev player thing from b st =
     (case b of None \<Rightarrow> (True, st) | Some b' \<Rightarrow> eval_boolexp env lev player thing from b' st)"

definition eval_boolexp_atr ::
  "'w lock_env \<Rightarrow> int \<Rightarrow> dbref \<Rightarrow> dbref \<Rightarrow> dbref \<Rightarrow> string \<Rightarrow> bool \<Rightarrow> 'w lock_state \<Rightarrow> bool \<times> 'w lock_state" where
  "eval_boolexp_atr env lev player thing from key def st =
     (case parse_boolexp (lock_parse env (world st)) player key True of
        None \<Rightarrow> (def, st)
      | Some b \<Rightarrow> eval_boolexp env lev player thing from b st)"

lemma eval_indir_atr:
  "eval_boolexp env lev player thing from (BOOLEXP_INDIR (BOOLEXP_CONST t)) st =
     (if lev + 1 \<ge> lock_nest_lim env \<or> t < 0 then broken_lock env player st
      else eval_boolexp_atr env (lev + 1) player t from (fst (atr_get env (world st) t A_LOCK)) True st)"
  by (simp add: eval_boolexp_atr_def split_beta split: option.split)

end
