(* ===== verification/Boolexp_Laws.thy ===== *)
theory Boolexp_Laws
  imports Boolexp
begin

section \<open>Locks: parsing, printing and evaluation agree\<close>

text \<open>
  The shape of parsed locks, the text a lock is printed as, the proof that reading that text
  back gives the same lock up to the association of AND and OR, and that evaluation does not
  depend on it, ends for circular locks, and restores the state it changes.
\<close>

subsection \<open>What the parser produces\<close>

fun wf_bool :: "BOOLEXP \<Rightarrow> bool" where
  "wf_bool (BOOLEXP_AND b1 b2) = (wf_bool b1 \<and> wf_bool b2)"
| "wf_bool (BOOLEXP_OR b1 b2) = (wf_bool b1 \<and> wf_bool b2)"
| "wf_bool (BOOLEXP_NOT b) = wf_bool b"
| "wf_bool (BOOLEXP_CONST n) = True"
| "wf_bool (BOOLEXP_ATR n key) = True"
| "wf_bool (BOOLEXP_EVAL n key) = True"
| "wf_bool (BOOLEXP_INDIR b) = is_const b"
| "wf_bool (BOOLEXP_CARRY b) = (is_const b \<or> is_atr b)"
| "wf_bool (BOOLEXP_IS b) = (is_const b \<or> is_atr b)"
| "wf_bool (BOOLEXP_OWNER b) = is_const b"

lemma test_atr_wf: "test_atr env p s = Some b \<Longrightarrow> wf_bool b"
proof (cases "dropWhile (\<lambda>c. c \<noteq> CHR '':'' \<and> c \<noteq> CHR ''/'') s")
  case (Cons sep key)
  assume "test_atr env p s = Some b"
  then obtain n where "b = (if sep = CHR ''/'' then BOOLEXP_EVAL n key else BOOLEXP_ATR n key)"
    unfolding test_atr_def Let_def Cons list.case
    by (cases "atr_str_bool env (takeWhile (\<lambda>c. c \<noteq> CHR '':'' \<and> c \<noteq> CHR ''/'') s)")
      (auto split: if_splits)
  then show ?thesis by simp
qed (simp add: test_atr_def)

lemma parse_name_wf: "parse_name env p i buf = Some b \<Longrightarrow> wf_bool b"
proof (cases "test_atr env p buf")
  case None
  assume "parse_name env p i buf = Some b"
  then have "\<exists>n. b = BOOLEXP_CONST n" using None by (auto simp: parse_name_def Let_def split: if_splits)
  then show ?thesis by auto
next
  case (Some c)
  assume "parse_name env p i buf = Some b"
  then show ?thesis using Some test_atr_wf by (simp add: parse_name_def)
qed

lemma parse_F_cases:
  assumes "parse_boolexp_F env p i s = Some (b, r)"
  obtains (NOT) b' where "b = BOOLEXP_NOT b'" "parse_boolexp_F env p i (tl (dropWhile is_space s)) = Some (b', r)"
      "deref (dropWhile is_space s) = CHR ''!''"
    | (prefixed) b' where "parse_boolexp_L env p i (tl (dropWhile is_space s)) = Some (b', r)"
      "deref (dropWhile is_space s) \<in> set ''@=+$''"
      "is_const b' \<and> (b = BOOLEXP_INDIR b' \<or> b = BOOLEXP_OWNER b') \<or>
       (is_const b' \<or> is_atr b') \<and> (b = BOOLEXP_IS b' \<or> b = BOOLEXP_CARRY b')"
    | (plain) "parse_boolexp_L env p i (dropWhile is_space s) = Some (b, r)"
      "deref (dropWhile is_space s) \<notin> set ''!@=+$''"
  using assms by (subst (asm) parse_boolexp_F.simps) (auto simp: Let_def split: option.splits if_splits)

lemma parse_wf:
  "(\<forall>b r. parse_boolexp_L env p i s = Some (b, r) \<longrightarrow> wf_bool b)"
  "(\<forall>b r. parse_boolexp_F env p i s = Some (b, r) \<longrightarrow> wf_bool b)"
  "(\<forall>b r. parse_boolexp_T env p i s = Some (b, r) \<longrightarrow> wf_bool b)"
  "(\<forall>b r. parse_boolexp_E env p i s = Some (b, r) \<longrightarrow> wf_bool b)"
proof (induction env p i s and env p i s and env p i s and env p i s
    rule: parse_boolexp_L_parse_boolexp_F_parse_boolexp_T_parse_boolexp_E.induct)
  case (1 env p i s)
  show ?case
  proof (intro allI impI)
    fix b r assume r: "parse_boolexp_L env p i s = Some (b, r)"
    show "wf_bool b"
    proof (cases "deref (dropWhile is_space s) = CHR ''(''")
      case True
      then have "\<exists>r'. parse_boolexp_E env p i (tl (dropWhile is_space s)) = Some (b, r')"
        using r by (subst (asm) parse_boolexp_L.simps) (auto simp: Let_def split: option.splits if_splits)
      then show ?thesis using "1.IH" True by blast
    next
      case False
      then have "parse_name env p i (strip_trailing (takeWhile is_name_char (dropWhile is_space s))) = Some b"
        using r by (subst (asm) parse_boolexp_L.simps) (simp add: Let_def split: option.splits)
      then show ?thesis by (rule parse_name_wf)
    qed
  qed
next
  case (2 env p i s)
  show ?case
  proof (intro allI impI)
    fix b r assume "parse_boolexp_F env p i s = Some (b, r)"
    then show "wf_bool b"
    proof (cases rule: parse_F_cases)
      case (NOT b')
      then show ?thesis using "2.IH"(1) by auto
    next
      case (prefixed b')
      then show ?thesis by auto
    next
      case plain
      then show ?thesis using "2.IH"(6) by auto
    qed
  qed
next
  case (3 env p i s)
  show ?case
  proof (intro allI impI)
    fix b r assume r: "parse_boolexp_T env p i s = Some (b, r)"
    then obtain b1 r1 where F: "parse_boolexp_F env p i s = Some (b1, r1)"
      by (auto simp: parse_boolexp_T.simps [of env p i s] split: option.splits)
    show "wf_bool b"
    proof (cases "deref (dropWhile is_space r1) = CHR ''&''")
      case True
      then obtain b2 where "parse_boolexp_T env p i (tl (dropWhile is_space r1)) = Some (b2, r)" "b = BOOLEXP_AND b1 b2"
        using r F by (auto simp: parse_boolexp_T.simps [of env p i s] Let_def split: option.splits)
      then show ?thesis using "3.IH"(1) "3.IH"(2) [OF F refl refl True] F by auto
    next
      case False
      then show ?thesis using r F "3.IH"(1) by (simp add: parse_boolexp_T.simps [of env p i s] Let_def)
    qed
  qed
next
  case (4 env p i s)
  show ?case
  proof (intro allI impI)
    fix b r assume r: "parse_boolexp_E env p i s = Some (b, r)"
    then obtain b1 r1 where F: "parse_boolexp_T env p i s = Some (b1, r1)"
      by (auto simp: parse_boolexp_E.simps [of env p i s] split: option.splits)
    show "wf_bool b"
    proof (cases "deref (dropWhile is_space r1) = CHR ''|''")
      case True
      then obtain b2 where "parse_boolexp_E env p i (tl (dropWhile is_space r1)) = Some (b2, r)" "b = BOOLEXP_OR b1 b2"
        using r F by (auto simp: parse_boolexp_E.simps [of env p i s] Let_def split: option.splits)
      then show ?thesis using "4.IH"(1) "4.IH"(2) [OF F refl refl True] F by auto
    next
      case False
      then show ?thesis using r F "4.IH"(1) by (simp add: parse_boolexp_E.simps [of env p i s] Let_def)
    qed
  qed
qed

subsection \<open>The printed text\<close>

definition attr_text :: "unparse_env \<Rightarrow> int \<Rightarrow> char \<Rightarrow> string \<Rightarrow> string" where
  "attr_text env n sep key = (case atr_num env n of Some (k, nm) \<Rightarrow> nm @ sep # key | None \<Rightarrow> [])"

text \<open>The text of a lock in the quiet format, without the buffer.\<close>

fun lock_text :: "unparse_env \<Rightarrow> BOOLEXP \<Rightarrow> node_type \<Rightarrow> string" where
  "lock_text env (BOOLEXP_AND b1 b2) outer =
     (let s = lock_text env b1 T_AND @ ''&'' @ lock_text env b2 T_AND
      in if outer = T_NOT then ''('' @ s @ '')'' else s)"
| "lock_text env (BOOLEXP_OR b1 b2) outer =
     (let s = lock_text env b1 T_OR @ ''|'' @ lock_text env b2 T_OR
      in if outer = T_NOT \<or> outer = T_AND then ''('' @ s @ '')'' else s)"
| "lock_text env (BOOLEXP_NOT b) outer = CHR ''!'' # lock_text env b T_NOT"
| "lock_text env (BOOLEXP_INDIR b) outer = CHR ''@'' # lock_text env b T_INDIR"
| "lock_text env (BOOLEXP_IS b) outer = CHR ''='' # lock_text env b T_IS"
| "lock_text env (BOOLEXP_CARRY b) outer = CHR ''+'' # lock_text env b T_CARRY"
| "lock_text env (BOOLEXP_OWNER b) outer = CHR ''$'' # lock_text env b T_OWNER"
| "lock_text env (BOOLEXP_CONST n) outer = unparse_object_quiet n"
| "lock_text env (BOOLEXP_ATR n key) outer = attr_text env n (CHR '':'') key"
| "lock_text env (BOOLEXP_EVAL n key) outer = attr_text env n (CHR ''/'') key"

text \<open>
  The locks that can be read back: objects that exist, attributes that have a name the parser
  takes as one name, and values without the characters that end a name.
\<close>

definition name_ok :: "parse_env \<Rightarrow> unparse_env \<Rightarrow> int \<Rightarrow> bool" where
  "name_ok penv uenv n =
     (case atr_num uenv n of
        None \<Rightarrow> False
      | Some (k, nm) \<Rightarrow> k \<noteq> 0 \<and> atr_str_bool penv nm = Some n \<and> nm \<noteq> [] \<and>
          (\<forall>c\<in>set nm. is_name_char c \<and> c \<noteq> CHR '':'' \<and> c \<noteq> CHR ''/'') \<and>
          \<not> is_space (hd nm) \<and> hd nm \<notin> set ''(!@=+$'')"

definition key_ok :: "string \<Rightarrow> bool" where
  "key_ok key \<longleftrightarrow> (\<forall>c\<in>set key. is_name_char c) \<and> (key \<noteq> [] \<longrightarrow> \<not> is_space (last key))"

fun printable :: "parse_env \<Rightarrow> unparse_env \<Rightarrow> BOOLEXP \<Rightarrow> bool" where
  "printable penv uenv (BOOLEXP_AND b1 b2) = (printable penv uenv b1 \<and> printable penv uenv b2)"
| "printable penv uenv (BOOLEXP_OR b1 b2) = (printable penv uenv b1 \<and> printable penv uenv b2)"
| "printable penv uenv (BOOLEXP_NOT b) = printable penv uenv b"
| "printable penv uenv (BOOLEXP_INDIR b) = printable penv uenv b"
| "printable penv uenv (BOOLEXP_IS b) = printable penv uenv b"
| "printable penv uenv (BOOLEXP_CARRY b) = printable penv uenv b"
| "printable penv uenv (BOOLEXP_OWNER b) = printable penv uenv b"
| "printable penv uenv (BOOLEXP_CONST n) = (0 \<le> n \<and> n \<le> INT_MAX \<and> Good_obj penv n)"
| "printable penv uenv (BOOLEXP_ATR n key) = (name_ok penv uenv n \<and> key_ok key)"
| "printable penv uenv (BOOLEXP_EVAL n key) = (name_ok penv uenv n \<and> key_ok key)"

lemma unparse_attr_text:
  "name_ok penv uenv n \<Longrightarrow> unparse_attr uenv n sep key (cap buf) = Some (cap (buf @ attr_text uenv n sep key))"
  by (auto simp: name_ok_def unparse_attr_def attr_text_def split: option.splits)

lemma unparse_lock_text:
  "printable penv uenv b \<Longrightarrow>
     unparse_boolexp1 uenv p b outer F_QUIET (cap buf) = Some (cap (buf @ lock_text uenv b outer))"
proof (induction b arbitrary: outer buf)
  case (BOOLEXP_AND b1 b2)
  then show ?case by (cases "outer = T_NOT") (simp_all add: Let_def)
next
  case (BOOLEXP_OR b1 b2)
  then show ?case by (cases "outer = T_NOT \<or> outer = T_AND") (auto simp: Let_def)
qed (simp_all add: unparse_attr_text [where penv = penv] unparse_const_def)

subsection \<open>Reading a lock back\<close>

text \<open>A chain of ANDs or ORs is read back associated to the right.\<close>

fun mk_and :: "BOOLEXP \<Rightarrow> BOOLEXP \<Rightarrow> BOOLEXP" where
  "mk_and (BOOLEXP_AND x y) z = BOOLEXP_AND x (mk_and y z)"
| "mk_and x z = BOOLEXP_AND x z"

fun mk_or :: "BOOLEXP \<Rightarrow> BOOLEXP \<Rightarrow> BOOLEXP" where
  "mk_or (BOOLEXP_OR x y) z = BOOLEXP_OR x (mk_or y z)"
| "mk_or x z = BOOLEXP_OR x z"

fun norm :: "BOOLEXP \<Rightarrow> BOOLEXP" where
  "norm (BOOLEXP_AND b1 b2) = mk_and (norm b1) (norm b2)"
| "norm (BOOLEXP_OR b1 b2) = mk_or (norm b1) (norm b2)"
| "norm (BOOLEXP_NOT b) = BOOLEXP_NOT (norm b)"
| "norm b = b"

lemma mk_and_assoc: "mk_and (mk_and x y) z = mk_and x (mk_and y z)"
  by (induction x arbitrary: y z) auto

lemma mk_or_assoc: "mk_or (mk_or x y) z = mk_or x (mk_or y z)"
  by (induction x arbitrary: y z) auto

definition fstop :: "string \<Rightarrow> bool" where
  "fstop r \<longleftrightarrow> r = [] \<or> \<not> is_name_char (hd r)"

definition tstop :: "string \<Rightarrow> bool" where
  "tstop r \<longleftrightarrow> r = [] \<or> hd r = CHR ''|'' \<or> hd r = CHR '')''"

definition estop :: "string \<Rightarrow> bool" where
  "estop r \<longleftrightarrow> r = [] \<or> hd r = CHR '')''"

lemma stops: "tstop r \<Longrightarrow> fstop r" "estop r \<Longrightarrow> tstop r"
  by (auto simp: fstop_def tstop_def estop_def is_name_char_def)

lemma fstop_spaces: "fstop r \<Longrightarrow> dropWhile is_space r = r"
  by (cases r) (auto simp: fstop_def is_name_char_def is_space_def)

lemma stop_deref: "tstop r \<Longrightarrow> deref r \<noteq> CHR ''&''" "estop r \<Longrightarrow> deref r \<noteq> CHR ''|''"
  by (cases r; auto simp: tstop_def estop_def)+

lemma strip_trailing_id: "buf \<noteq> [] \<Longrightarrow> \<not> is_space (last buf) \<Longrightarrow> strip_trailing buf = buf"
  by (cases buf rule: rev_cases) (auto simp: strip_trailing_def)

text \<open>One name, up to a character that ends it.\<close>

lemma parse_L_name:
  assumes "nm \<noteq> []" "\<forall>c\<in>set nm. is_name_char c" "\<not> is_space (hd nm)" "\<not> is_space (last nm)" "hd nm \<noteq> CHR ''(''"
    "fstop rest" "parse_name env p i nm = Some b"
  shows "parse_boolexp_L env p i (nm @ rest) = Some (b, rest)"
proof -
  have s: "dropWhile is_space (nm @ rest) = nm @ rest" using assms(1,3) by (cases nm) auto
  have "takeWhile is_name_char (nm @ rest) = nm @ takeWhile is_name_char rest" using assms(2) by (rule takeWhile_all)
  moreover have "dropWhile is_name_char (nm @ rest) = dropWhile is_name_char rest" using assms(2) by (rule dropWhile_all)
  moreover have "takeWhile is_name_char rest = []" "dropWhile is_name_char rest = rest"
    using assms(6) by (cases rest; auto simp: fstop_def)+
  ultimately have t: "takeWhile is_name_char (nm @ rest) = nm" "dropWhile is_name_char (nm @ rest) = rest" by simp_all
  have "deref (nm @ rest) \<noteq> CHR ''(''" using assms(1,5) by (cases nm) auto
  then show ?thesis
    by (subst parse_boolexp_L.simps) (simp add: s t strip_trailing_id assms(1,4,7) Let_def)
qed

lemma parse_F_L:
  assumes "deref (dropWhile is_space s) \<notin> set ''!@=+$''"
  shows "parse_boolexp_F env p i s = parse_boolexp_L env p i (dropWhile is_space s)"
  using assms by (subst parse_boolexp_F.simps) (simp add: Let_def)

lemma parse_T_stop:
  assumes "parse_boolexp_F env p i s = Some (b, r)" "tstop r"
  shows "parse_boolexp_T env p i s = Some (b, r)"
  using assms by (subst parse_boolexp_T.simps) (simp add: fstop_spaces stops stop_deref)

lemma parse_T_and:
  assumes "parse_boolexp_F env p i s = Some (b, CHR ''&'' # r)"
  shows "parse_boolexp_T env p i s = map_option (\<lambda>(b2, r2). (BOOLEXP_AND b b2, r2)) (parse_boolexp_T env p i r)"
proof -
  have "dropWhile is_space (CHR ''&'' # r) = CHR ''&'' # r" by (simp add: is_space_def)
  then show ?thesis
    using assms by (subst parse_boolexp_T.simps) (auto simp: Let_def split: option.split)
qed

lemma parse_E_stop:
  assumes "parse_boolexp_T env p i s = Some (b, r)" "estop r"
  shows "parse_boolexp_E env p i s = Some (b, r)"
  using assms by (subst parse_boolexp_E.simps) (simp add: fstop_spaces stops stop_deref)

lemma parse_E_or:
  assumes "parse_boolexp_T env p i s = Some (b, CHR ''|'' # r)"
  shows "parse_boolexp_E env p i s = map_option (\<lambda>(b2, r2). (BOOLEXP_OR b b2, r2)) (parse_boolexp_E env p i r)"
proof -
  have "dropWhile is_space (CHR ''|'' # r) = CHR ''|'' # r" by (simp add: is_space_def)
  then show ?thesis
    using assms by (subst parse_boolexp_E.simps) (auto simp: Let_def split: option.split)
qed

lemma parse_L_paren:
  assumes "parse_boolexp_E env p i (s @ CHR '')'' # rest) = Some (b, CHR '')'' # rest)"
  shows "parse_boolexp_L env p i (CHR ''('' # s @ CHR '')'' # rest) = Some (b, rest)"
proof -
  have 1: "dropWhile is_space (CHR ''('' # s @ CHR '')'' # rest) = CHR ''('' # s @ CHR '')'' # rest"
    "dropWhile is_space (CHR '')'' # rest) = CHR '')'' # rest" by (simp_all add: is_space_def)
  then show ?thesis by (subst parse_boolexp_L.simps) (simp add: assms)
qed

text \<open>An object: \<open>(#n)\<close>.\<close>

lemma digit_chars: "is_digit c \<Longrightarrow> is_name_char c \<and> \<not> is_space c \<and> c \<noteq> CHR '':'' \<and> c \<noteq> CHR ''/''"
  by (auto simp: is_digit_def is_name_char_def is_space_def)

lemma parse_const_text:
  assumes "0 \<le> n" "n \<le> INT_MAX" "Good_obj env n"
  shows "parse_boolexp_L env p True (unparse_object_quiet n @ rest) = Some (BOOLEXP_CONST n, rest)"
proof -
  note d = sprintf_d_digits [OF assms(1)]
  let ?nm = "CHR ''#'' # sprintf_d n"
  have nc: "\<forall>c\<in>set ?nm. c \<noteq> CHR '':'' \<and> c \<noteq> CHR ''/''" using d(2) digit_chars by auto
  then have "dropWhile (\<lambda>c. c \<noteq> CHR '':'' \<and> c \<noteq> CHR ''/'') (sprintf_d n) = []" by simp
  then have "test_atr env p ?nm = None" by (simp add: test_atr_def Let_def del: dropWhile_eq_Nil_conv)
  then have nm: "parse_name env p True ?nm = Some (BOOLEXP_CONST n)"
    using d(3) assms by (simp add: parse_name_def Let_def)
  have "parse_boolexp_L env p True (?nm @ CHR '')'' # rest) = Some (BOOLEXP_CONST n, CHR '')'' # rest)"
  proof (rule parse_L_name [OF _ _ _ _ _ _ nm])
    show "\<forall>c\<in>set ?nm. is_name_char c" using d(2) digit_chars by (auto simp: is_name_char_def)
    have "last ?nm \<in> set (sprintf_d n)" using d(1) by simp
    then show "\<not> is_space (last ?nm)" using d(2) digit_chars by blast
  qed (simp_all add: is_space_def fstop_def is_name_char_def)
  moreover have "deref (dropWhile is_space (?nm @ CHR '')'' # rest)) \<notin> set ''!@=+$''"
    "dropWhile is_space (?nm @ CHR '')'' # rest) = ?nm @ CHR '')'' # rest" by (simp_all add: is_space_def)
  ultimately have "parse_boolexp_F env p True (?nm @ CHR '')'' # rest) = Some (BOOLEXP_CONST n, CHR '')'' # rest)"
    by (metis parse_F_L)
  moreover have st: "tstop (CHR '')'' # rest)" "estop (CHR '')'' # rest)" by (simp_all add: tstop_def estop_def)
  ultimately have "parse_boolexp_E env p True (?nm @ CHR '')'' # rest) = Some (BOOLEXP_CONST n, CHR '')'' # rest)"
    by (intro parse_E_stop [OF _ st(2)] parse_T_stop [OF _ st(1)])
  from parse_L_paren [OF this] assms(1) show ?thesis by (simp add: unparse_object_quiet_def)
qed

text \<open>An attribute: \<open>name:value\<close> or \<open>name/value\<close>.\<close>

lemma parse_attr_text:
  assumes "name_ok penv uenv n" "key_ok key" "sep = CHR '':'' \<or> sep = CHR ''/''" "fstop rest"
  shows "parse_boolexp_L penv p True (attr_text uenv n sep key @ rest) =
      Some (if sep = CHR ''/'' then BOOLEXP_EVAL n key else BOOLEXP_ATR n key, rest)"
    "deref (attr_text uenv n sep key) \<notin> set ''!@=+$''"
    "dropWhile is_space (attr_text uenv n sep key @ rest) = attr_text uenv n sep key @ rest"
proof -
  obtain k nm where a: "atr_num uenv n = Some (k, nm)" using assms(1) by (auto simp: name_ok_def split: option.splits)
  then have nm: "atr_str_bool penv nm = Some n" "nm \<noteq> []" "\<not> is_space (hd nm)" "hd nm \<notin> set ''(!@=+$''"
    "\<forall>c\<in>set nm. is_name_char c \<and> c \<noteq> CHR '':'' \<and> c \<noteq> CHR ''/''"
    using assms(1) by (simp_all add: name_ok_def)
  have t: "attr_text uenv n sep key = nm @ sep # key" by (simp add: attr_text_def a)
  have "takeWhile (\<lambda>c. c \<noteq> CHR '':'' \<and> c \<noteq> CHR ''/'') (nm @ sep # key) = nm"
    "dropWhile (\<lambda>c. c \<noteq> CHR '':'' \<and> c \<noteq> CHR ''/'') (nm @ sep # key) = sep # key"
    using takeWhile_all [of nm "\<lambda>c. c \<noteq> CHR '':'' \<and> c \<noteq> CHR ''/''" "sep # key"]
      dropWhile_all [of nm "\<lambda>c. c \<noteq> CHR '':'' \<and> c \<noteq> CHR ''/''" "sep # key"] nm(5) assms(3) by auto
  then have "parse_name penv p True (nm @ sep # key) =
      Some (if sep = CHR ''/'' then BOOLEXP_EVAL n key else BOOLEXP_ATR n key)"
    by (simp add: parse_name_def test_atr_def nm(1) Let_def)
  then show "parse_boolexp_L penv p True (attr_text uenv n sep key @ rest) =
      Some (if sep = CHR ''/'' then BOOLEXP_EVAL n key else BOOLEXP_ATR n key, rest)"
    unfolding t
  proof (intro parse_L_name)
    show "\<forall>c\<in>set (nm @ sep # key). is_name_char c"
      using nm(5) assms(2,3) by (auto simp: key_ok_def is_name_char_def)
    show "\<not> is_space (last (nm @ sep # key))"
      using assms(2,3) by (auto simp: key_ok_def is_space_def)
  qed (use nm assms(4) in auto)
  show "deref (attr_text uenv n sep key) \<notin> set ''!@=+$''"
    "dropWhile is_space (attr_text uenv n sep key @ rest) = attr_text uenv n sep key @ rest"
    using nm(2,3,4) by (cases nm; auto simp: t)+
qed

lemma is_space_paren: "\<not> is_space (CHR ''('')"
  by (simp add: is_space_def)

lemma parse_F_prefix:
  assumes "parse_boolexp_L env p i s = Some (b, r)"
  shows "is_const b \<Longrightarrow> parse_boolexp_F env p i (CHR ''@'' # s) = Some (BOOLEXP_INDIR b, r)"
    "is_const b \<Longrightarrow> parse_boolexp_F env p i (CHR ''$'' # s) = Some (BOOLEXP_OWNER b, r)"
    "is_const b \<or> is_atr b \<Longrightarrow> parse_boolexp_F env p i (CHR ''='' # s) = Some (BOOLEXP_IS b, r)"
    "is_const b \<or> is_atr b \<Longrightarrow> parse_boolexp_F env p i (CHR ''+'' # s) = Some (BOOLEXP_CARRY b, r)"
proof -
  show "is_const b \<Longrightarrow> parse_boolexp_F env p i (CHR ''@'' # s) = Some (BOOLEXP_INDIR b, r)"
    by (subst parse_boolexp_F.simps) (simp add: is_space_def assms Let_def)
  show "is_const b \<Longrightarrow> parse_boolexp_F env p i (CHR ''$'' # s) = Some (BOOLEXP_OWNER b, r)"
    by (subst parse_boolexp_F.simps) (simp add: is_space_def assms Let_def)
  show "is_const b \<or> is_atr b \<Longrightarrow> parse_boolexp_F env p i (CHR ''='' # s) = Some (BOOLEXP_IS b, r)"
    by (subst parse_boolexp_F.simps) (auto simp: is_space_def assms Let_def)
  show "is_const b \<or> is_atr b \<Longrightarrow> parse_boolexp_F env p i (CHR ''+'' # s) = Some (BOOLEXP_CARRY b, r)"
    by (subst parse_boolexp_F.simps) (auto simp: is_space_def assms Let_def)
qed

lemma parse_F_not:
  "parse_boolexp_F env p i s = Some (b, r) \<Longrightarrow> parse_boolexp_F env p i (CHR ''!'' # s) = Some (BOOLEXP_NOT b, r)"
  by (subst parse_boolexp_F.simps) (simp add: is_space_def Let_def)

lemma parse_F_paren:
  assumes "parse_boolexp_E env p i (s @ CHR '')'' # rest) = Some (b, CHR '')'' # rest)"
  shows "parse_boolexp_F env p i (CHR ''('' # s @ CHR '')'' # rest) = Some (b, rest)"
proof -
  have "dropWhile is_space (CHR ''('' # s @ CHR '')'' # rest) = CHR ''('' # s @ CHR '')'' # rest"
    by (simp add: is_space_def)
  then show ?thesis using parse_L_paren [OF assms] by (subst parse_F_L) simp_all
qed

text \<open>
  Reading back at the three levels of the grammar. At the level of T (and of E) a text may be
  followed by one more conjunct (disjunct), to which it is then joined.
\<close>

definition reads_F :: "parse_env \<Rightarrow> dbref \<Rightarrow> string \<Rightarrow> BOOLEXP \<Rightarrow> bool" where
  "reads_F env p t b \<longleftrightarrow> (\<forall>rest. fstop rest \<longrightarrow> parse_boolexp_F env p True (t @ rest) = Some (b, rest))"

definition reads_T :: "parse_env \<Rightarrow> dbref \<Rightarrow> string \<Rightarrow> BOOLEXP \<Rightarrow> bool" where
  "reads_T env p t b \<longleftrightarrow>
     (\<forall>rest. tstop rest \<longrightarrow> parse_boolexp_T env p True (t @ rest) = Some (b, rest)) \<and>
     (\<forall>s. parse_boolexp_T env p True (t @ CHR ''&'' # s) =
        map_option (\<lambda>(b2, r). (mk_and b b2, r)) (parse_boolexp_T env p True s))"

definition reads_E :: "parse_env \<Rightarrow> dbref \<Rightarrow> string \<Rightarrow> BOOLEXP \<Rightarrow> bool" where
  "reads_E env p t b \<longleftrightarrow>
     (\<forall>rest. estop rest \<longrightarrow> parse_boolexp_E env p True (t @ rest) = Some (b, rest)) \<and>
     (\<forall>s. parse_boolexp_E env p True (t @ CHR ''|'' # s) =
        map_option (\<lambda>(b2, r). (mk_or b b2, r)) (parse_boolexp_E env p True s))"

fun is_and :: "BOOLEXP \<Rightarrow> bool" where
  "is_and (BOOLEXP_AND b1 b2) = True"
| "is_and _ = False"

fun is_or :: "BOOLEXP \<Rightarrow> bool" where
  "is_or (BOOLEXP_OR b1 b2) = True"
| "is_or _ = False"

lemma mk_and_plain: "\<not> is_and b \<Longrightarrow> mk_and b z = BOOLEXP_AND b z"
  by (cases b) auto

lemma mk_or_plain: "\<not> is_or b \<Longrightarrow> mk_or b z = BOOLEXP_OR b z"
  by (cases b) auto

lemma reads_F_T:
  assumes "reads_F env p t b" "\<not> is_and b"
  shows "reads_T env p t b"
  unfolding reads_T_def
proof (intro conjI allI impI)
  fix rest :: string assume "tstop rest"
  then show "parse_boolexp_T env p True (t @ rest) = Some (b, rest)"
    using assms(1) stops(1) parse_T_stop unfolding reads_F_def by blast
next
  fix s :: string
  have "fstop (CHR ''&'' # s)" by (simp add: fstop_def is_name_char_def)
  then have "parse_boolexp_F env p True (t @ CHR ''&'' # s) = Some (b, CHR ''&'' # s)"
    using assms(1) unfolding reads_F_def by blast
  from parse_T_and [OF this] show "parse_boolexp_T env p True (t @ CHR ''&'' # s) =
      map_option (\<lambda>(b2, r). (mk_and b b2, r)) (parse_boolexp_T env p True s)"
    by (simp add: mk_and_plain [OF assms(2)])
qed

lemma reads_T_E:
  assumes "reads_T env p t b" "\<not> is_or b"
  shows "reads_E env p t b"
  unfolding reads_E_def
proof (intro conjI allI impI)
  fix rest :: string assume e: "estop rest"
  then have "parse_boolexp_T env p True (t @ rest) = Some (b, rest)"
    using assms(1) stops(2) unfolding reads_T_def by blast
  then show "parse_boolexp_E env p True (t @ rest) = Some (b, rest)" using e by (rule parse_E_stop)
next
  fix s :: string
  have "tstop (CHR ''|'' # s)" by (simp add: tstop_def)
  then have "parse_boolexp_T env p True (t @ CHR ''|'' # s) = Some (b, CHR ''|'' # s)"
    using assms(1) unfolding reads_T_def by blast
  from parse_E_or [OF this] show "parse_boolexp_E env p True (t @ CHR ''|'' # s) =
      map_option (\<lambda>(b2, r). (mk_or b b2, r)) (parse_boolexp_E env p True s)"
    by (simp add: mk_or_plain [OF assms(2)])
qed

lemma reads_T_and:
  assumes "reads_T env p t1 b1" "reads_T env p t2 b2"
  shows "reads_T env p (t1 @ ''&'' @ t2) (mk_and b1 b2)"
  using assms unfolding reads_T_def by (auto simp: mk_and_assoc option.map_comp comp_def case_prod_unfold)

lemma reads_E_or:
  assumes "reads_E env p t1 b1" "reads_E env p t2 b2"
  shows "reads_E env p (t1 @ ''|'' @ t2) (mk_or b1 b2)"
  using assms unfolding reads_E_def by (auto simp: mk_or_assoc option.map_comp comp_def case_prod_unfold)

lemma reads_paren: "reads_E env p t b \<Longrightarrow> reads_F env p (''('' @ t @ '')'') b"
  unfolding reads_E_def reads_F_def
proof (intro allI impI)
  fix rest :: string
  assume E: "(\<forall>rest. estop rest \<longrightarrow> parse_boolexp_E env p True (t @ rest) = Some (b, rest)) \<and>
     (\<forall>s. parse_boolexp_E env p True (t @ CHR ''|'' # s) =
        map_option (\<lambda>(b2, r). (mk_or b b2, r)) (parse_boolexp_E env p True s))"
  have "estop (CHR '')'' # rest)" by (simp add: estop_def)
  then have "parse_boolexp_E env p True (t @ CHR '')'' # rest) = Some (b, CHR '')'' # rest)" using E by blast
  from parse_F_paren [OF this] show "parse_boolexp_F env p True ((''('' @ t @ '')'') @ rest) = Some (b, rest)"
    by simp
qed

lemma reads_F_const:
  assumes "printable env uenv (BOOLEXP_CONST n)"
  shows "reads_F env p (unparse_object_quiet n) (BOOLEXP_CONST n)"
  unfolding reads_F_def
proof (intro allI impI)
  fix rest :: string
  have "0 \<le> n" using assms by simp
  then have "unparse_object_quiet n = CHR ''('' # tl (unparse_object_quiet n)" by (simp add: unparse_object_quiet_def)
  then have d: "dropWhile is_space (unparse_object_quiet n @ rest) = unparse_object_quiet n @ rest"
    "deref (unparse_object_quiet n @ rest) = CHR ''(''"
    by (metis append_Cons deref.simps(2) dropWhile.simps(2) is_space_paren)
      (metis append_Cons deref.simps(2) \<open>unparse_object_quiet n = CHR ''('' # tl (unparse_object_quiet n)\<close>)
  show "parse_boolexp_F env p True (unparse_object_quiet n @ rest) = Some (BOOLEXP_CONST n, rest)"
    using parse_const_text [of n env p rest] assms d by (subst parse_F_L) simp_all
qed

lemma mk_shapes [simp]: "is_and (mk_and x y)" "\<not> is_or (mk_and x y)" "is_or (mk_or x y)" "\<not> is_and (mk_or x y)"
  by (cases x; simp)+

lemma reads_all_levels:
  assumes "reads_F env p t b" "\<not> is_and b" "\<not> is_or b"
  shows "reads_F env p t b \<and> reads_T env p t b \<and> reads_E env p t b"
  using assms reads_F_T reads_T_E by blast

lemma reads_prefixed:
  assumes "wf_bool (BOOLEXP_IS b)" "printable env uenv b"
  shows "fstop rest \<Longrightarrow> parse_boolexp_L env p True (lock_text uenv b o' @ rest) = Some (b, rest)"
  using assms parse_const_text parse_attr_text(1) [of env uenv _ _ "CHR '':''"] by (cases b) auto

lemma reads_lock_text:
  "wf_bool b \<Longrightarrow> printable env uenv b \<Longrightarrow>
     reads_F env p (lock_text uenv b T_NOT) (norm b) \<and> reads_T env p (lock_text uenv b T_AND) (norm b) \<and>
     reads_E env p (lock_text uenv b T_OR) (norm b)"
proof (induction b)
  case (BOOLEXP_AND b1 b2)
  let ?t = "lock_text uenv b1 T_AND @ ''&'' @ lock_text uenv b2 T_AND"
  have "reads_T env p ?t (mk_and (norm b1) (norm b2))"
    using BOOLEXP_AND by (intro reads_T_and) auto
  then have "reads_T env p ?t (mk_and (norm b1) (norm b2)) \<and> reads_E env p ?t (mk_and (norm b1) (norm b2))"
    using reads_T_E by simp
  then show ?case using reads_paren [of env p ?t "mk_and (norm b1) (norm b2)"] by simp
next
  case (BOOLEXP_OR b1 b2)
  let ?t = "lock_text uenv b1 T_OR @ ''|'' @ lock_text uenv b2 T_OR"
  have e: "reads_E env p ?t (mk_or (norm b1) (norm b2))"
    using BOOLEXP_OR by (intro reads_E_or) auto
  from reads_paren [OF this] have "reads_F env p (''('' @ ?t @ '')'') (mk_or (norm b1) (norm b2))" .
  then show ?case using e reads_F_T by simp
next
  case (BOOLEXP_NOT b)
  then have "reads_F env p (lock_text uenv b T_NOT) (norm b)" by simp
  then have "reads_F env p (CHR ''!'' # lock_text uenv b T_NOT) (BOOLEXP_NOT (norm b))"
    unfolding reads_F_def using parse_F_not by simp
  from reads_all_levels [OF this] show ?case by simp
next
  case (BOOLEXP_CONST n)
  from reads_all_levels [OF reads_F_const [OF BOOLEXP_CONST(2)]] show ?case by simp
next
  case (BOOLEXP_ATR n key)
  have "reads_F env p (attr_text uenv n (CHR '':'') key) (BOOLEXP_ATR n key)"
    unfolding reads_F_def
  proof (intro allI impI)
    fix rest assume "fstop rest"
    note a = parse_attr_text [of env uenv n key "CHR '':''", OF _ _ _ this]
    have "attr_text uenv n (CHR '':'') key \<noteq> []" using BOOLEXP_ATR by (auto simp: name_ok_def attr_text_def split: option.splits)
    then have "deref (attr_text uenv n (CHR '':'') key @ rest) = deref (attr_text uenv n (CHR '':'') key)"
      by (cases "attr_text uenv n (CHR '':'') key") auto
    then show "parse_boolexp_F env p True (attr_text uenv n (CHR '':'') key @ rest) = Some (BOOLEXP_ATR n key, rest)"
      using a BOOLEXP_ATR by (subst parse_F_L) simp_all
  qed
  from reads_all_levels [OF this] show ?case by simp
next
  case (BOOLEXP_EVAL n key)
  have "reads_F env p (attr_text uenv n (CHR ''/'') key) (BOOLEXP_EVAL n key)"
    unfolding reads_F_def
  proof (intro allI impI)
    fix rest assume "fstop rest"
    note a = parse_attr_text [of env uenv n key "CHR ''/''", OF _ _ _ this]
    have "attr_text uenv n (CHR ''/'') key \<noteq> []" using BOOLEXP_EVAL by (auto simp: name_ok_def attr_text_def split: option.splits)
    then have "deref (attr_text uenv n (CHR ''/'') key @ rest) = deref (attr_text uenv n (CHR ''/'') key)"
      by (cases "attr_text uenv n (CHR ''/'') key") auto
    then show "parse_boolexp_F env p True (attr_text uenv n (CHR ''/'') key @ rest) = Some (BOOLEXP_EVAL n key, rest)"
      using a BOOLEXP_EVAL by (subst parse_F_L) simp_all
  qed
  from reads_all_levels [OF this] show ?case by simp
next
  case (BOOLEXP_INDIR b)
  then have "reads_F env p (lock_text uenv (BOOLEXP_INDIR b) T_NOT) (BOOLEXP_INDIR b)"
    unfolding reads_F_def using parse_F_prefix(1) reads_prefixed by simp
  from reads_all_levels [OF this] show ?case by simp
next
  case (BOOLEXP_CARRY b)
  then have "reads_F env p (lock_text uenv (BOOLEXP_CARRY b) T_NOT) (BOOLEXP_CARRY b)"
    unfolding reads_F_def using parse_F_prefix(4) reads_prefixed by simp
  from reads_all_levels [OF this] show ?case by simp
next
  case (BOOLEXP_IS b)
  then have "reads_F env p (lock_text uenv (BOOLEXP_IS b) T_NOT) (BOOLEXP_IS b)"
    unfolding reads_F_def using parse_F_prefix(3) reads_prefixed by simp
  from reads_all_levels [OF this] show ?case by simp
next
  case (BOOLEXP_OWNER b)
  then have "reads_F env p (lock_text uenv (BOOLEXP_OWNER b) T_NOT) (BOOLEXP_OWNER b)"
    unfolding reads_F_def using parse_F_prefix(2) reads_prefixed by simp
  from reads_all_levels [OF this] show ?case by simp
qed

lemma lock_text_outer: "lock_text env b T_CONST = lock_text env b T_OR"
  by (cases b) (auto simp: Let_def)

lemma lock_text_nonempty: "printable env uenv b \<Longrightarrow> lock_text uenv b outer \<noteq> []"
  by (cases b) (auto simp: Let_def unparse_object_quiet_def attr_text_def name_ok_def split: option.splits)

lemma roundtrip:
  assumes "wf_bool b" "printable env uenv b" "length (lock_text uenv b T_CONST) \<le> LBUF_MAX"
  shows "unparse_boolexp_quiet uenv q (Some b) = Some (lock_text uenv b T_CONST)"
    "parse_boolexp env p (lock_text uenv b T_CONST) True = Some (norm b)"
proof -
  show "unparse_boolexp_quiet uenv q (Some b) = Some (lock_text uenv b T_CONST)"
    using unparse_lock_text [OF assms(2), of q T_CONST "[]"] assms(3)
    by (simp add: unparse_boolexp_quiet_def unparse_top_def cap_def)
  have "reads_E env p (lock_text uenv b T_CONST) (norm b)"
    using reads_lock_text [OF assms(1,2)] by (simp add: lock_text_outer)
  then have "parse_boolexp_E env p True (lock_text uenv b T_CONST @ []) = Some (norm b, [])"
    unfolding reads_E_def estop_def by blast
  then show "parse_boolexp env p (lock_text uenv b T_CONST) True = Some (norm b)"
    using lock_text_nonempty [OF assms(2)] by (simp add: parse_boolexp_def)
qed

subsection \<open>Evaluation\<close>

lemma eval_mk_and:
  "eval_boolexp env lev player thing from (mk_and a b) st =
     eval_boolexp env lev player thing from (BOOLEXP_AND a b) st"
proof (induction a arbitrary: st)
  case (BOOLEXP_AND a1 a2)
  then show ?case by (simp add: Let_def)
qed simp_all

lemma eval_mk_or:
  "eval_boolexp env lev player thing from (mk_or a b) st =
     eval_boolexp env lev player thing from (BOOLEXP_OR a b) st"
proof (induction a arbitrary: st)
  case (BOOLEXP_OR a1 a2)
  then show ?case by (simp add: Let_def)
qed simp_all

lemma eval_norm:
  "eval_boolexp env lev player thing from (norm b) st = eval_boolexp env lev player thing from b st"
proof (induction b arbitrary: st)
  case (BOOLEXP_AND b1 b2)
  then show ?case by (simp add: eval_mk_and Let_def)
next
  case (BOOLEXP_OR b1 b2)
  then show ?case by (simp add: eval_mk_or Let_def)
qed simp_all

lemma eval_attr_lock_restores: "inside_locks (snd (eval_attr_lock env player thing from n key st)) = inside_locks st"
  by (auto simp: eval_attr_lock_def Let_def split: option.split prod.split)

lemma eval_restores:
  "inside_locks (snd (eval_boolexp env lev player thing from b st)) = inside_locks st"
proof (induction env lev player thing "from" b st rule: eval_boolexp.induct)
  case (4 env lev player thing "from" b st)
  show ?case
  proof (cases "lev + 1 \<ge> lock_nest_lim env")
    case True
    then show ?thesis by (simp add: broken_lock_def)
  next
    case False
    then show ?thesis using 4
      by (cases b) (auto simp: broken_lock_def split: option.split prod.split)
  qed
qed (simp_all add: Let_def eval_attr_lock_restores)

text \<open>
  Locks that refer to each other. \<open>needs S b\<close> says that \<open>b\<close> cannot pass unless the lock of an object
  of \<open>S\<close> does: there is no way around the indirections to \<open>S\<close> through an OR, and no NOT above them.
\<close>

fun needs :: "int set \<Rightarrow> BOOLEXP \<Rightarrow> bool" where
  "needs S (BOOLEXP_AND a b) \<longleftrightarrow> needs S a \<or> needs S b"
| "needs S (BOOLEXP_OR a b) \<longleftrightarrow> needs S a \<and> needs S b"
| "needs S (BOOLEXP_INDIR (BOOLEXP_CONST n)) \<longleftrightarrow> n \<in> S"
| "needs S b \<longleftrightarrow> False"

text \<open>\<open>lock_of env w p n\<close> is the lock of the object \<open>n\<close> as it is parsed for the player \<open>p\<close>.\<close>

definition lock_of :: "'w lock_env \<Rightarrow> 'w \<Rightarrow> dbref \<Rightarrow> dbref \<Rightarrow> BOOLEXP option" where
  "lock_of env w p n = parse_boolexp (lock_parse env w) p (fst (atr_get env w n A_LOCK)) True"

definition circular :: "'w lock_env \<Rightarrow> int set \<Rightarrow> 'w \<Rightarrow> bool" where
  "circular env S w \<longleftrightarrow> (\<forall>n\<in>S. 0 \<le> n \<and> (\<forall>p. \<exists>b. lock_of env w p n = Some b \<and> needs S b))"

text \<open>Messages, and the softcode that locks evaluate, leave the circle as it is.\<close>

definition keeps_circle :: "'w lock_env \<Rightarrow> int set \<Rightarrow> bool" where
  "keeps_circle env S \<longleftrightarrow>
     (\<forall>w p m. circular env S w \<longrightarrow> circular env S (notify env w p m)) \<and>
     (\<forall>st s p t. circular env S (world st) \<longrightarrow> circular env S (world (snd (exec_lock env st s p t))))"

lemma eval_indir_lock:
  "eval_boolexp env lev player thing from (BOOLEXP_INDIR (BOOLEXP_CONST n)) st =
     (if lev + 1 \<ge> lock_nest_lim env \<or> n < 0 then broken_lock env player st
      else case lock_of env (world st) player n of
             None \<Rightarrow> (True, st)
           | Some b \<Rightarrow> eval_boolexp env (lev + 1) player n from b st)"
  by (simp add: lock_of_def split_beta)

lemma broken_keeps_circle:
  "keeps_circle env S \<Longrightarrow> circular env S (world st) \<Longrightarrow> circular env S (world (snd (broken_lock env player st)))"
  by (simp add: keeps_circle_def broken_lock_def)

lemma eval_attr_world:
  "world (snd (eval_attr_lock env player thing from n key st)) = world st \<or>
    (\<exists>s t. world (snd (eval_attr_lock env player thing from n key st)) =
       world (snd (exec_lock env (st\<lparr>inside_locks := True, chkcpu_locktog := False\<rparr>) s player t)))"
proof (cases "atr_num_bool env (world st) n")
  case None
  then show ?thesis by (simp add: eval_attr_lock_def)
next
  case (Some a)
  obtain b0 o0 f0 where 0: "atr_pget env (world st) from (attr_number a) = (b0, o0, f0)" by (metis prod.collapse)
  obtain source buff aowner aflags where r:
    "(if b0 = [] then (thing, atr_pget env (world st) thing (attr_number a)) else (from, b0, o0, f0)) = (source, buff, aowner, aflags)"
    by (metis prod.collapse)
  obtain b2 st2 where e: "exec_lock env (st\<lparr>inside_locks := True, chkcpu_locktog := False\<rparr>) source player buff = (b2, st2)"
    by (metis prod.collapse)
  have "snd (exec_lock env (st\<lparr>inside_locks := True, chkcpu_locktog := False\<rparr>) source player buff) = st2" using e by simp
  then have "\<exists>s t. world st2 = world (snd (exec_lock env (st\<lparr>inside_locks := True, chkcpu_locktog := False\<rparr>) s player t))" by metis
  then show ?thesis by (simp add: eval_attr_lock_def Some 0 r e Let_def)
qed

lemma eval_attr_keeps_circle:
  assumes k: "keeps_circle env S" "circular env S (world st)"
  shows "circular env S (world (snd (eval_attr_lock env player thing from n key st)))"
proof -
  have "circular env S (world (st\<lparr>inside_locks := True, chkcpu_locktog := False\<rparr>))" using k(2) by simp
  then have "circular env S (world (snd (exec_lock env (st\<lparr>inside_locks := True, chkcpu_locktog := False\<rparr>) s player t)))" for s t
    using k(1) unfolding keeps_circle_def by blast
  then show ?thesis using eval_attr_world [of env player thing "from" n key st] k(2) by metis
qed

lemma eval_keeps_circle:
  "keeps_circle env S \<Longrightarrow> circular env S (world st) \<Longrightarrow>
    circular env S (world (snd (eval_boolexp env lev player thing from b st)))"
proof (induction env lev player thing "from" b st rule: eval_boolexp.induct)
  case (4 env lev player thing "from" b st)
  note broken = broken_keeps_circle [OF 4(2,3)]
  show ?case
  proof (cases "lev + 1 \<ge> lock_nest_lim env")
    case False
    then show ?thesis using 4 broken by (cases b) (auto split: option.split prod.split)
  qed (simp add: broken)
qed (simp_all add: Let_def eval_attr_keeps_circle)

lemma eval_circle:
  "keeps_circle env S \<Longrightarrow> circular env S (world st) \<Longrightarrow> needs S b \<Longrightarrow>
    \<not> fst (eval_boolexp env lev player thing from b st)"
proof (induction env lev player thing "from" b st rule: eval_boolexp.induct)
  case (1 env lev player thing "from" b1 b2 st)
  then show ?case using eval_keeps_circle [OF 1(3,4)] by (auto simp: Let_def)
next
  case (2 env lev player thing "from" b1 b2 st)
  then show ?case using eval_keeps_circle [OF 2(3,4)] by (auto simp: Let_def)
next
  case (4 env lev player thing "from" b st)
  then obtain n where n: "b = BOOLEXP_CONST n" "n \<in> S" by (cases b) auto
  show ?case
  proof (cases "lev + 1 \<ge> lock_nest_lim env")
    case False
    obtain b' where b': "lock_of env (world st) player n = Some b'" "needs S b'" "0 \<le> n"
      using 4(3) n(2) by (auto simp: circular_def)
    obtain key o1 fl where g: "atr_get env (world st) n A_LOCK = (key, o1, fl)" by (metis prod.collapse)
    have "\<not> fst (eval_boolexp env (lev + 1) player n from b' st)"
      by (rule 4(1) [OF False n(1) _ g [symmetric] refl refl _ 4(2,3) b'(2)]) (use b' g in \<open>simp_all add: lock_of_def\<close>)
    then show ?thesis using False b' unfolding n(1) eval_indir_lock by simp
  qed (simp add: broken_lock_def)
qed simp_all

text \<open>When the locks of the circle are only indirections, the nesting limit ends the evaluation.\<close>

lemma eval_circle_broken:
  assumes c: "\<forall>n\<in>S. 0 \<le> n \<and> (\<exists>m\<in>S. lock_of env (world st) player n = Some (BOOLEXP_INDIR (BOOLEXP_CONST m)))"
  shows "n \<in> S \<Longrightarrow> eval_boolexp env lev player thing from (BOOLEXP_INDIR (BOOLEXP_CONST n)) st = broken_lock env player st"
proof (induction "nat (lock_nest_lim env - lev)" arbitrary: lev n thing rule: less_induct)
  case less
  show ?case
  proof (cases "lev + 1 \<ge> lock_nest_lim env")
    case True
    then show ?thesis by (simp add: eval_indir_lock)
  next
    case False
    obtain m where m: "m \<in> S" "lock_of env (world st) player n = Some (BOOLEXP_INDIR (BOOLEXP_CONST m))" "0 \<le> n"
      using c less.prems by blast
    have "eval_boolexp env (lev + 1) player n from (BOOLEXP_INDIR (BOOLEXP_CONST m)) st = broken_lock env player st"
      by (rule less.hyps [OF _ m(1)]) (use False in simp)
    then show ?thesis using False m(2,3) unfolding eval_indir_lock [of env lev player thing "from" n st] by simp
  qed
qed

text \<open>
  Below a NOT a circle does not deny: with the lock \<open>!@(#n)\<close> on \<open>n\<close> itself the result depends on
  whether the number of levels that are left is odd, as it is for the default limit of 20.
\<close>

lemma negated_circle:
  assumes c: "0 \<le> n" "lock_of env (world st) player n = Some (BOOLEXP_NOT (BOOLEXP_INDIR (BOOLEXP_CONST n)))"
  shows "fst (eval_boolexp env lev player thing from (BOOLEXP_INDIR (BOOLEXP_CONST n)) st) = odd (nat (lock_nest_lim env - 1 - lev))"
proof (induction "nat (lock_nest_lim env - 1 - lev)" arbitrary: lev thing)
  case 0
  then show ?case by (simp add: eval_indir_lock broken_lock_def)
next
  case (Suc k)
  then have lev: "\<not> lev + 1 \<ge> lock_nest_lim env" by linarith
  have k: "k = nat (lock_nest_lim env - 1 - (lev + 1))" using Suc(2) by linarith
  have "fst (eval_boolexp env lev player thing from (BOOLEXP_INDIR (BOOLEXP_CONST n)) st) =
      (\<not> fst (eval_boolexp env (lev + 1) player n from (BOOLEXP_INDIR (BOOLEXP_CONST n)) st))"
    using lev c unfolding eval_indir_lock [of env lev player thing "from" n st] by (simp add: Let_def)
  also have "\<dots> = (\<not> odd k)" using Suc(1) [OF k] k by simp
  also have "\<dots> = odd (nat (lock_nest_lim env - 1 - lev))" using Suc(2) by (metis odd_Suc_minus_one even_Suc)
  finally show ?case .
qed

subsection \<open>Properties\<close>

text \<open>
  C22: every lock the parser accepts is well formed: an indirection and an owner test have an
  object below them, a carry and an is test an object or an attribute. So the evaluator, which
  reads the fields of the node below without looking at its type, always finds them.
\<close>

theorem parsed_lock_wf:
  assumes "parse_boolexp env player buf internal = Some b"
  shows "wf_bool b"
  using assms parse_wf(4) [of env player internal buf] by (auto simp: parse_boolexp_def split: if_splits)

text \<open>
  C7: a lock that is written in the quiet format and read back as an internal lock is the same
  lock with its chains of ANDs and ORs associated to the right, and evaluates to the same
  result and the same state for everybody, provided that its objects exist, its attributes have
  readable names, its values contain no character that ends a name, and its text fits the
  buffer.
\<close>

theorem lock_write_read:
  assumes "wf_bool b" "printable env uenv b" "length (lock_text uenv b T_CONST) \<le> LBUF_MAX"
  shows "\<exists>text b'. unparse_boolexp_quiet uenv q (Some b) = Some text \<and>
    parse_boolexp env p text True = Some b' \<and> b' = norm b \<and>
    (\<forall>lev player thing from st. eval_boolexp lenv lev player thing from b' st =
       eval_boolexp lenv lev player thing from b st)"
  using roundtrip [OF assms] eval_norm by blast

text \<open>
  C21: let the lock of every object of a set be one that cannot pass unless the lock of an object of the
  set passes (\<open>needs\<close>: it may combine indirections with other conditions by AND and OR, but there is no
  way around them and no NOT above them). Then every lock of this kind, in particular an indirection to one of
  the objects, denies everybody, as long as the messages that are sent and the softcode that is
  evaluated leave these locks as they are. If the locks are nothing but indirections, the evaluation
  ends by the nesting limit: the result and all that happens is the message of a broken lock.
\<close>

theorem circular_locks_deny:
  assumes "circular env S (world st)" "keeps_circle env S" "needs S b"
  shows "\<not> fst (eval_boolexp env lev player thing from b st) \<and>
    ((\<forall>n\<in>S. \<exists>m\<in>S. lock_of env (world st) player n = Some (BOOLEXP_INDIR (BOOLEXP_CONST m))) \<longrightarrow>
     (\<forall>n\<in>S. eval_boolexp env lev player thing from (BOOLEXP_INDIR (BOOLEXP_CONST n)) st = broken_lock env player st))"
proof -
  have "\<forall>n\<in>S. 0 \<le> n" using assms(1) by (simp add: circular_def)
  then show ?thesis using eval_circle [OF assms(2,1,3)] eval_circle_broken [of S env st player] by blast
qed

text \<open>
  The evaluation of a lock leaves \<open>mudstate.inside_locks\<close> as it found it, whatever the
  code it executes does to it.
\<close>

theorem eval_keeps_inside_locks:
  "inside_locks (snd (eval_boolexp env lev player thing from b st)) = inside_locks st"
  by (rule eval_restores)

text \<open>Concrete environments for the witnesses: objects 0 to 9, one attribute, every lock \<open>@(#1)\<close>.\<close>

definition sample_parse_env :: parse_env where
  "sample_parse_env = \<lparr> atr_str_bool = (\<lambda>s. if s = ''Sex'' then Some 50 else None),
     Good_obj = (\<lambda>n. 0 \<le> n \<and> n < 10), match_object = (\<lambda>p s. NOTHING) \<rparr>"

definition sample_unparse_env :: unparse_env where
  "sample_unparse_env = \<lparr> atr_num = (\<lambda>n. if n = 50 then Some (50, ''Sex'') else None),
     Typeof = (\<lambda>n. TYPE_THING), Name = (\<lambda>n. ''thing''), unparse_object = (\<lambda>p n. ''thing'') \<rparr>"

definition sample_lock_env :: "unit lock_env" where
  "sample_lock_env = \<lparr> lock_parse = (\<lambda>w. sample_parse_env), atr_pget = (\<lambda>w t n. (''male'', 1, 0)),
     atr_get = (\<lambda>w t n. (''@(#1)'', 1, 0)), See_attr = (\<lambda>w l p a ow fl. True),
     Read_attr = (\<lambda>w l p a ow fl. True),
     atr_num_bool = (\<lambda>w n. if n = 50 then Some \<lparr> attr_number = 50, attr_name = ''Sex'' \<rparr> else None),
     Contents = (\<lambda>w n. []), Owner = (\<lambda>w n. 1), silent_effects = (\<lambda>w n. False),
     exec_lock = (\<lambda>st s p b. (b, st)), notify = (\<lambda>w p m. w),
     wildmatch_lim = 1000, space_compress = True, lock_nest_lim = 20 \<rparr>"

theorem parsed_lock_wf_witness:
  "\<exists>b. parse_boolexp sample_parse_env 1 ''=(#1)'' True = Some b \<and> wf_bool b"
proof -
  have "parse_boolexp_F sample_parse_env 1 True (CHR ''='' # unparse_object_quiet 1 @ []) =
      Some (BOOLEXP_IS (BOOLEXP_CONST 1), [])"
    by (rule parse_F_prefix(3) [OF parse_const_text]) (simp_all add: INT_MAX_def sample_parse_env_def)
  then have "parse_boolexp_E sample_parse_env 1 True (CHR ''='' # unparse_object_quiet 1 @ []) =
      Some (BOOLEXP_IS (BOOLEXP_CONST 1), [])"
    by (intro parse_E_stop parse_T_stop) (simp_all add: tstop_def estop_def)
  moreover have "unparse_object_quiet 1 = ''(#1)''" by code_simp
  ultimately have "parse_boolexp sample_parse_env 1 ''=(#1)'' True = Some (BOOLEXP_IS (BOOLEXP_CONST 1))"
    by (simp add: parse_boolexp_def)
  with parsed_lock_wf [OF this] show ?thesis by blast
qed

theorem lock_write_read_witness:
  "\<exists>text b'. unparse_boolexp_quiet sample_unparse_env 1
        (Some (BOOLEXP_AND (BOOLEXP_AND (BOOLEXP_CONST 3) (BOOLEXP_ATR 50 ''m*'')) (BOOLEXP_NOT (BOOLEXP_CONST 4)))) = Some text \<and>
     parse_boolexp sample_parse_env 1 text True = Some b' \<and>
     b' = BOOLEXP_AND (BOOLEXP_CONST 3) (BOOLEXP_AND (BOOLEXP_ATR 50 ''m*'') (BOOLEXP_NOT (BOOLEXP_CONST 4)))"
proof -
  let ?b = "BOOLEXP_AND (BOOLEXP_AND (BOOLEXP_CONST 3) (BOOLEXP_ATR 50 ''m*'')) (BOOLEXP_NOT (BOOLEXP_CONST 4))"
  have t: "lock_text sample_unparse_env ?b T_CONST = ''(#3)&Sex:m*&!(#4)''" by code_simp
  have p: "printable sample_parse_env sample_unparse_env ?b"
    by (simp add: sample_parse_env_def sample_unparse_env_def INT_MAX_def name_ok_def key_ok_def is_name_char_def is_space_def)
  have len: "length (lock_text sample_unparse_env ?b T_CONST) \<le> LBUF_MAX"
    unfolding t by (simp add: LBUF_MAX_eq)
  have n: "norm ?b = BOOLEXP_AND (BOOLEXP_CONST 3) (BOOLEXP_AND (BOOLEXP_ATR 50 ''m*'') (BOOLEXP_NOT (BOOLEXP_CONST 4)))"
    by simp
  have "wf_bool ?b" by simp
  from lock_write_read [OF this p len, of 1 1 sample_lock_env] show ?thesis unfolding n by blast
qed

text \<open>Two objects that refer to each other, the first one for player 5 only.\<close>

definition circle_env :: "unit lock_env" where
  "circle_env = sample_lock_env\<lparr>atr_get := (\<lambda>w t n. (if t = 1 then ''(#5)&@(#2)'' else ''@(#1)'', 1, 0))\<rparr>"

definition idle_locks :: "unit lock_state" where
  "idle_locks = \<lparr>inside_locks = False, chkcpu_locktog = False, chkcpu_toggle = False, world = ()\<rparr>"

lemma circle_locks:
  "lock_of circle_env w p 1 = Some (BOOLEXP_AND (BOOLEXP_CONST 5) (BOOLEXP_INDIR (BOOLEXP_CONST 2)))"
  "lock_of circle_env w p 2 = Some (BOOLEXP_INDIR (BOOLEXP_CONST 1))"
  by code_simp+

theorem circular_locks_deny_witness:
  "\<not> fst (eval_boolexp circle_env 0 5 1 1 (BOOLEXP_AND (BOOLEXP_CONST 5) (BOOLEXP_INDIR (BOOLEXP_CONST 2))) idle_locks)"
proof -
  have "circular circle_env {1, 2} (world idle_locks)" by (simp add: circular_def circle_locks)
  moreover have "keeps_circle circle_env {1, 2}" by (simp add: keeps_circle_def circular_def)
  ultimately show ?thesis by (rule conjunct1 [OF circular_locks_deny]) simp
qed

end
