(* ===== verification/Udb_obj.thy ===== *)
theory Udb_obj
  imports Prelude
begin

section \<open>Objects on disk (src/Server/src/udb_obj.c, src/Server/hdrs/udb.h)\<close>

text \<open>
  The \<open>Obj\<close> and \<open>Attrib\<close> structures, the stdio calls that the storage layer makes, and
  the two routines that carry an object to and from the chunk file.

  A \<open>FILE\<close> is the contents of the file, the position and the list \<open>file_faults\<close> of what
  the next calls are going to do: a call that finds \<open>True\<close> at its head fails. An empty list
  is a disk without faults. Writes go straight to the contents (a buffered write that is
  lost shows at the \<open>fflush\<close> that ends every use of the file).

  Integers are 32 bits wide and stored in little-endian order. \<open>atrs\<close> is the allocated
  array, \<open>None\<close> for NULL; \<open>malloc\<close> fails only when its size is that of a negative int.
\<close>

unbundle bit_operations_syntax

subsection \<open>Data\<close>

type_synonym Objname = "32 word"

record Attrib =
  attrnum :: "32 word"
  asize :: int
  data :: string

record Obj =
  name :: Objname
  at_count :: int
  atrs :: "Attrib list option"

subsection \<open>Files\<close>

record FILE =
  bytes :: string
  pos :: nat
  file_faults :: "bool list"

definition io_fails :: "FILE \<Rightarrow> bool" where
  "io_fails f = (case file_faults f of [] \<Rightarrow> False | b # _ \<Rightarrow> b)"

definition io_next :: "FILE \<Rightarrow> FILE" where
  "io_next f = f\<lparr>file_faults := tl (file_faults f)\<rparr>"

definition fread :: "nat \<Rightarrow> FILE \<Rightarrow> string \<times> FILE" where
  "fread n f =
     (if n = 0 then ([], f)
      else if io_fails f then ([], io_next f)
      else let s = take n (drop (pos f) (bytes f))
           in (s, (io_next f)\<lparr>pos := pos f + length s\<rparr>))"

definition write_at :: "nat \<Rightarrow> string \<Rightarrow> string \<Rightarrow> string" where
  "write_at p s c = take p c @ replicate (p - length c) NUL @ s @ drop (p + length s) c"

definition fwrite :: "string \<Rightarrow> FILE \<Rightarrow> bool \<times> FILE" where
  "fwrite s f =
     (if s = [] then (True, f)
      else if io_fails f then (False, io_next f)
      else (True, (io_next f)\<lparr>bytes := write_at (pos f) s (bytes f), pos := pos f + length s\<rparr>))"

definition fseek :: "nat \<Rightarrow> FILE \<Rightarrow> bool \<times> FILE" where
  "fseek off f = (if io_fails f then (False, io_next f) else (True, (io_next f)\<lparr>pos := off\<rparr>))"

definition fflush :: "FILE \<Rightarrow> bool \<times> FILE" where
  "fflush f = (\<not> io_fails f, io_next f)"

definition int_bytes :: "32 word \<Rightarrow> string" where
  "int_bytes w = (let n = unat w in
     [char_of n, char_of (n div 256), char_of (n div 65536), char_of (n div 16777216)])"

definition bytes_int :: "string \<Rightarrow> 32 word" where
  "bytes_int s = word_of_nat
     (ccode (s ! 0) + ccode (s ! 1) * 256 + ccode (s ! 2) * 65536 + ccode (s ! 3) * 16777216)"

subsection \<open>Reading and writing objects\<close>

definition OBJ_HEADER_SIZE :: int where
  "OBJ_HEADER_SIZE = 8"

definition ATTR_HEADER_SIZE :: int where
  "ATTR_HEADER_SIZE = 8"

text \<open>The loop over the attributes of \<open>objfromFILE\<close>, with its \<open>goto bail\<close> as \<open>None\<close>.\<close>

fun read_attrs :: "nat \<Rightarrow> FILE \<Rightarrow> Attrib list option \<times> FILE" where
  "read_attrs 0 f = (Some [], f)"
| "read_attrs (Suc n) f =
     (let (b, f1) = fread 4 f
      in if length b \<noteq> 4 then (None, f1)
         else let size = sint (bytes_int b); (c, f2) = fread 4 f1
              in if length c \<noteq> 4 then (None, f2)
                 else if size < 0 then (None, f2)
                 else let (d, f3) = fread (nat size) f2
                      in if int (length d) \<noteq> size then (None, f3)
                         else (case read_attrs n f3 of
                                 (None, f4) \<Rightarrow> (None, f4)
                               | (Some as, f4) \<Rightarrow>
                                   (Some (\<lparr>attrnum = bytes_int c, asize = size, data = d\<rparr> # as), f4)))"

definition objfromFILE :: "FILE \<Rightarrow> Obj option \<times> FILE" where
  "objfromFILE f =
     (let (b, f1) = fread 4 f
      in if length b \<noteq> 4 then (None, f1)
         else let (c, f2) = fread 4 f1; i = sint (bytes_int c)
              in if length c \<noteq> 4 then (None, f2)
                 else if i < 0 then (None, f2)
                 else (case read_attrs (nat i) f2 of
                         (None, f3) \<Rightarrow> (None, f3)
                       | (Some as, f3) \<Rightarrow> (Some \<lparr>name = bytes_int b, at_count = i, atrs = Some as\<rparr>, f3)))"

fun write_attrs :: "Attrib list \<Rightarrow> FILE \<Rightarrow> bool \<times> FILE" where
  "write_attrs [] f = (True, f)"
| "write_attrs (a # as) f =
     (let (ok, f1) = fwrite (int_bytes (word_of_int (asize a))) f
      in if \<not> ok then (False, f1)
         else let (ok, f2) = fwrite (int_bytes (attrnum a)) f1
              in if \<not> ok then (False, f2)
                 else let (ok, f3) = fwrite (take (nat (asize a)) (data a)) f2
                      in if \<not> ok then (False, f3) else write_attrs as f3)"

text \<open>The attributes that the loops up to \<open>at_count\<close> visit.\<close>

definition attrs :: "Obj \<Rightarrow> Attrib list" where
  "attrs ob = (case atrs ob of None \<Rightarrow> [] | Some as \<Rightarrow> take (nat (at_count ob)) as)"

definition objtoFILE :: "Obj \<Rightarrow> FILE \<Rightarrow> int \<times> FILE" where
  "objtoFILE ob f =
     (let (ok, f1) = fwrite (int_bytes (name ob)) f
      in if \<not> ok then (- 1, f1)
         else let (ok, f2) = fwrite (int_bytes (word_of_int (at_count ob))) f1
              in if \<not> ok then (- 1, f2)
                 else let (ok, f3) = write_attrs (attrs ob) f2
                      in if \<not> ok then (- 1, f3) else (0, f3))"

definition obj_siz :: "Obj \<Rightarrow> int" where
  "obj_siz ob = OBJ_HEADER_SIZE + (\<Sum>a\<leftarrow>attrs ob. asize a + ATTR_HEADER_SIZE)"

subsection \<open>Well-formed objects and their image on disk\<close>

definition healthy_file :: "FILE \<Rightarrow> bool" where
  "healthy_file f \<longleftrightarrow> True \<notin> set (file_faults f)"

definition wf_attrib :: "Attrib \<Rightarrow> bool" where
  "wf_attrib a \<longleftrightarrow> asize a = int (length (data a)) \<and> asize a < 2 ^ 31"

definition wf_obj :: "Obj \<Rightarrow> bool" where
  "wf_obj ob \<longleftrightarrow> (case atrs ob of None \<Rightarrow> False
     | Some as \<Rightarrow> at_count ob = int (length as) \<and> at_count ob < 2 ^ 31 \<and> list_all wf_attrib as)"

definition attr_image :: "Attrib \<Rightarrow> string" where
  "attr_image a = int_bytes (word_of_int (asize a)) @ int_bytes (attrnum a) @ data a"

definition obj_image :: "Obj \<Rightarrow> string" where
  "obj_image ob =
     int_bytes (name ob) @ int_bytes (word_of_int (at_count ob)) @ concat (map attr_image (attrs ob))"

lemma length_int_bytes [simp]: "length (int_bytes w) = 4"
  by (simp add: int_bytes_def Let_def)

lemma digits256: "(n::nat) < 4294967296 \<Longrightarrow>
   n mod 256 + n div 256 mod 256 * 256 + n div 65536 mod 256 * 65536 + n div 16777216 mod 256 * 16777216 = n"
proof -
  assume n: "n < 4294967296"
  define q1 q2 q3 where q: "q1 = n div 256" "q2 = q1 div 256" "q3 = q2 div 256"
  have a: "n div 65536 = q2" "n div 16777216 = q3"
    by (simp_all add: q div_mult2_eq [symmetric])
  have "n = n mod 256 + 256 * q1" "q1 = q1 mod 256 + 256 * q2" "q2 = q2 mod 256 + 256 * q3"
    unfolding q by (simp_all only: mod_mult_div_eq)
  moreover have "q3 < 256" using n by (simp add: q div_mult2_eq [symmetric] less_mult_imp_div_less)
  ultimately show ?thesis unfolding a q(1) [symmetric] by simp
qed

lemma bytes_int_int_bytes [simp]: "bytes_int (int_bytes w) = w"
proof -
  have "unat w < 4294967296" using unsigned_less [of w] by simp
  then show ?thesis
    using digits256 [of "unat w"] by (simp add: bytes_int_def int_bytes_def Let_def)
qed

subsection \<open>Writing\<close>

lemma length_write_at [simp]: "length (write_at p s c) = max (length c) (p + length s)"
  by (auto simp: write_at_def)

lemma nth_write_at:
  "i < max (length c) (p + length s) \<Longrightarrow> write_at p s c ! i =
     (if p \<le> i \<and> i < p + length s then s ! (i - p) else if i < length c then c ! i else NUL)"
  by (auto simp: write_at_def nth_append min_def)

lemma write_at_append: "write_at (p + length a) b (write_at p a c) = write_at p (a @ b) c"
  by (rule nth_equalityI) (auto simp: nth_write_at nth_append less_max_iff_disj)

lemma write_at_Nil [simp]: "p \<le> length c \<Longrightarrow> write_at p [] c = c"
  by (simp add: write_at_def)

lemma write_at_same: "take (length s) (drop p (write_at p s c)) = s"
  by (rule nth_equalityI) (auto simp: nth_write_at)

lemma write_at_apart:
  assumes "q + n \<le> p \<or> p + length s \<le> q" "q + n \<le> length c"
  shows "take n (drop q (write_at p s c)) = take n (drop q c)"
  using assms by (intro nth_equalityI) (auto simp: nth_write_at max_def)

definition wrote :: "string \<Rightarrow> FILE \<Rightarrow> FILE \<Rightarrow> bool" where
  "wrote s f f' \<longleftrightarrow> bytes f' = write_at (pos f) s (bytes f) \<and> pos f' = pos f + length s \<and>
     (healthy_file f \<longrightarrow> healthy_file f')"

lemma wrote_append: "wrote a f f1 \<Longrightarrow> wrote b f1 f2 \<Longrightarrow> wrote (a @ b) f f2"
  by (simp add: wrote_def write_at_append)

lemma wrote_pos: "wrote a f f1 \<Longrightarrow> pos f1 \<le> length (bytes f1)"
  by (simp add: wrote_def)

lemma healthy_next: "healthy_file f \<Longrightarrow> healthy_file (io_next f)"
  by (cases "file_faults f") (auto simp: healthy_file_def io_next_def)

lemma healthy_fails: "healthy_file f \<Longrightarrow> \<not> io_fails f"
  by (cases "file_faults f") (auto simp: healthy_file_def io_fails_def)

lemma healthy_io_next [simp]: "bytes (io_next f) = bytes f" "pos (io_next f) = pos f"
  by (simp_all add: io_next_def)

lemma healthy_file_update [simp]:
  "healthy_file (f\<lparr>pos := p\<rparr>) = healthy_file f" "healthy_file (f\<lparr>bytes := b\<rparr>) = healthy_file f"
  by (simp_all add: healthy_file_def)

lemma fwrite_wrote:
  "fwrite s f = (True, f') \<Longrightarrow> s \<noteq> [] \<or> pos f \<le> length (bytes f) \<Longrightarrow> wrote s f f'"
  by (auto simp: fwrite_def wrote_def healthy_next split: if_splits)

lemma fwrite_healthy: "healthy_file f \<Longrightarrow> fst (fwrite s f)"
  by (simp add: fwrite_def healthy_fails)

lemma wf_attrib_size: "wf_attrib a \<Longrightarrow> asize a = int (length (data a))"
  by (simp add: wf_attrib_def)

lemma int_bytes_ne [simp]: "int_bytes w \<noteq> []"
  by (simp add: int_bytes_def Let_def)

lemma write_attrs_wrote:
  "list_all wf_attrib as \<Longrightarrow> pos f \<le> length (bytes f) \<Longrightarrow> write_attrs as f = (True, f') \<Longrightarrow>
     wrote (concat (map attr_image as)) f f'"
proof (induction as arbitrary: f)
  case Nil
  then show ?case by (simp add: wrote_def)
next
  case (Cons a as)
  obtain f1 f2 f3 where step: "fwrite (int_bytes (word_of_int (asize a))) f = (True, f1)"
      "fwrite (int_bytes (attrnum a)) f1 = (True, f2)" "fwrite (data a) f2 = (True, f3)"
      "write_attrs as f3 = (True, f')"
    using Cons.prems by (auto simp: wf_attrib_size split: prod.splits if_splits)
  have w1: "wrote (int_bytes (word_of_int (asize a))) f f1" using fwrite_wrote [OF step(1)] by simp
  have w2: "wrote (int_bytes (attrnum a)) f1 f2" using fwrite_wrote [OF step(2)] by simp
  have w3: "wrote (data a) f2 f3" using fwrite_wrote [OF step(3)] wrote_pos [OF w2] by simp
  have "wrote (concat (map attr_image as)) f3 f'"
    using Cons.IH [OF _ wrote_pos [OF w3] step(4)] Cons.prems by simp
  from wrote_append [OF w1 wrote_append [OF w2 wrote_append [OF w3 this]]]
  show ?case by (simp add: attr_image_def [of a])
qed

lemma write_attrs_healthy: 
  "list_all wf_attrib as \<Longrightarrow> healthy_file f \<Longrightarrow> pos f \<le> length (bytes f) \<Longrightarrow> fst (write_attrs as f)"
proof (induction as arbitrary: f)
  case (Cons a as)
  obtain f1 where s1: "fwrite (int_bytes (word_of_int (asize a))) f = (True, f1)"
    using fwrite_healthy [OF Cons.prems(2)] by (metis prod.collapse)
  have w1: "wrote (int_bytes (word_of_int (asize a))) f f1" using fwrite_wrote [OF s1] by simp
  then have h1: "healthy_file f1" using Cons.prems by (simp add: wrote_def)
  obtain f2 where s2: "fwrite (int_bytes (attrnum a)) f1 = (True, f2)"
    using fwrite_healthy [OF h1] by (metis prod.collapse)
  have w2: "wrote (int_bytes (attrnum a)) f1 f2" using fwrite_wrote [OF s2] by simp
  then have h2: "healthy_file f2" using h1 by (simp add: wrote_def)
  obtain f3 where s3: "fwrite (data a) f2 = (True, f3)"
    using fwrite_healthy [OF h2] by (metis prod.collapse)
  have w3: "wrote (data a) f2 f3" using fwrite_wrote [OF s3] wrote_pos [OF w2] by simp
  then have h3: "healthy_file f3" using h2 by (simp add: wrote_def)
  have "fst (write_attrs as f3)" using Cons.IH [OF _ h3 wrote_pos [OF w3]] Cons.prems by simp
  moreover have "nat (asize a) = length (data a)" using Cons.prems by (simp add: wf_attrib_size)
  ultimately show ?case by (simp add: s1 s2 s3)
qed simp

lemma wf_obj_attrs:
  "wf_obj ob \<Longrightarrow> list_all wf_attrib (attrs ob) \<and> at_count ob = int (length (attrs ob)) \<and> at_count ob < 2 ^ 31 \<and> atrs ob = Some (attrs ob)"
  by (auto simp: wf_obj_def attrs_def split: option.splits)

lemma objtoFILE_wrote:
  assumes "wf_obj ob" "objtoFILE ob f = (0, f')"
  shows "wrote (obj_image ob) f f'"
proof -
  obtain f1 f2 where step: "fwrite (int_bytes (name ob)) f = (True, f1)"
      "fwrite (int_bytes (word_of_int (at_count ob))) f1 = (True, f2)"
      "write_attrs (attrs ob) f2 = (True, f')"
    using assms(2) by (auto simp: objtoFILE_def split: prod.splits if_splits)
  have w1: "wrote (int_bytes (name ob)) f f1" using fwrite_wrote [OF step(1)] by simp
  have w2: "wrote (int_bytes (word_of_int (at_count ob))) f1 f2" using fwrite_wrote [OF step(2)] by simp
  have w3: "wrote (concat (map attr_image (attrs ob))) f2 f'"
    using write_attrs_wrote [OF _ wrote_pos [OF w2] step(3)] wf_obj_attrs [OF assms(1)] by simp
  from wrote_append [OF w1 wrote_append [OF w2 w3]] show ?thesis by (simp add: obj_image_def)
qed

lemma objtoFILE_healthy: "wf_obj ob \<Longrightarrow> healthy_file f \<Longrightarrow> fst (objtoFILE ob f) = 0"
proof -
  assume wf: "wf_obj ob" and h: "healthy_file f"
  obtain f1 where s1: "fwrite (int_bytes (name ob)) f = (True, f1)"
    using fwrite_healthy [OF h] by (metis prod.collapse)
  have w1: "wrote (int_bytes (name ob)) f f1" using fwrite_wrote [OF s1] by simp
  then have h1: "healthy_file f1" using h by (simp add: wrote_def)
  obtain f2 where s2: "fwrite (int_bytes (word_of_int (at_count ob))) f1 = (True, f2)"
    using fwrite_healthy [OF h1] by (metis prod.collapse)
  have w2: "wrote (int_bytes (word_of_int (at_count ob))) f1 f2" using fwrite_wrote [OF s2] by simp
  then have h2: "healthy_file f2" using h1 by (simp add: wrote_def)
  have "fst (write_attrs (attrs ob) f2)"
    using write_attrs_healthy [OF _ h2 wrote_pos [OF w2]] wf_obj_attrs [OF wf] by simp
  then show ?thesis by (auto simp: objtoFILE_def s1 s2 split: prod.splits)
qed

lemma attr_image_length: "wf_attrib a \<Longrightarrow> int (length (attr_image a)) = asize a + ATTR_HEADER_SIZE"
  by (simp add: attr_image_def wf_attrib_def ATTR_HEADER_SIZE_def)

lemma obj_siz_image: "wf_obj ob \<Longrightarrow> obj_siz ob = int (length (obj_image ob))"
proof -
  assume "wf_obj ob"
  then have "list_all wf_attrib (attrs ob)" using wf_obj_attrs by blast
  then have "(\<Sum>a\<leftarrow>attrs ob. asize a + ATTR_HEADER_SIZE) = int (length (concat (map attr_image (attrs ob))))"
    by (induction "attrs ob" rule: rev_induct) (auto simp: attr_image_length length_concat comp_def list_all_iff sum_list_of_nat [symmetric] intro!: arg_cong [where f=sum_list])
  then show ?thesis by (simp add: obj_siz_def obj_image_def OBJ_HEADER_SIZE_def)
qed

subsection \<open>Reading\<close>

definition read_only :: "FILE \<Rightarrow> FILE \<Rightarrow> bool" where
  "read_only f f' \<longleftrightarrow> bytes f' = bytes f \<and> (healthy_file f \<longrightarrow> healthy_file f')"

lemma read_only_refl [simp]: "read_only f f"
  by (simp add: read_only_def)

lemma read_only_trans: "read_only f g \<Longrightarrow> read_only g h \<Longrightarrow> read_only f h"
  by (simp add: read_only_def)

lemma fread_read_only: "fread n f = (d, f') \<Longrightarrow> read_only f f'"
  by (auto simp: fread_def read_only_def Let_def healthy_next split: if_splits)

lemma read_attrs_read_only: "read_attrs n f = (r, f') \<Longrightarrow> read_only f f'"
proof (induction n f arbitrary: r f' rule: read_attrs.induct)
  case (2 n f)
  obtain b f1 c f2 d f3 r' f4 where fr: "fread 4 f = (b, f1)" "fread 4 f1 = (c, f2)"
      "fread (nat (sint (bytes_int b))) f2 = (d, f3)" "read_attrs n f3 = (r', f4)"
    by (metis prod.collapse)
  have f4: "read_only f3 f4" if "length b = 4" "length c = 4" "\<not> sint (bytes_int b) < 0" "int (length d) = sint (bytes_int b)"
    using 2 that fr by auto
  show ?case using 2 f4 fr fr(1-3) [THEN fread_read_only]
    by (auto simp: read_only_def Let_def split: if_splits option.splits)
qed simp

lemma objfromFILE_read_only: "read_only f (snd (objfromFILE f))"
proof -
  obtain b f1 c f2 r f3 where fr: "fread 4 f = (b, f1)" "fread 4 f1 = (c, f2)"
      "read_attrs (nat (sint (bytes_int c))) f2 = (r, f3)"
    by (metis prod.collapse)
  show ?thesis using fr(1,2) [THEN fread_read_only] read_attrs_read_only [OF fr(3)]
    by (auto simp: objfromFILE_def fr read_only_def Let_def split: option.splits)
qed

definition holds :: "string \<Rightarrow> FILE \<Rightarrow> bool" where
  "holds s f \<longleftrightarrow> take (length s) (drop (pos f) (bytes f)) = s"

lemma holds_append:
  "holds (a @ b) f \<longleftrightarrow> holds a f \<and> take (length b) (drop (pos f + length a) (bytes f)) = b"
proof -
  let ?x = "take (length a) (drop (pos f) (bytes f))"
  have "holds (a @ b) f \<longleftrightarrow> ?x @ take (length b) (drop (pos f + length a) (bytes f)) = a @ b"
    by (simp add: holds_def take_add add.commute)
  also have "\<dots> \<longleftrightarrow> ?x = a \<and> take (length b) (drop (pos f + length a) (bytes f)) = b"
  proof (cases "length ?x = length a")
    case False
    then have less: "length ?x < length a" and y: "drop (pos f + length a) (bytes f) = []" by simp_all
    have "?x \<noteq> a @ b" using less by (metis length_append not_add_less1)
    then show ?thesis using less y by auto
  qed simp
  finally show ?thesis by (simp add: holds_def)
qed

lemma fread_holds:
  assumes "holds s f" "fread (length s) f = (d, f')"
  shows "d = s \<and> pos f' = pos f + length s \<or> d = [] \<and> s \<noteq> [] \<and> \<not> healthy_file f"
  using assms healthy_fails [of f] by (auto simp: fread_def holds_def Let_def split: if_splits)

lemma fread_int:
  "holds (int_bytes w) f \<Longrightarrow> fread 4 f = (d, f') \<Longrightarrow>
     d = int_bytes w \<and> pos f' = pos f + 4 \<or> d = [] \<and> \<not> healthy_file f"
  using fread_holds [of "int_bytes w" f d f'] by auto

lemma read_only_holds: 
  "holds (a @ b) f \<Longrightarrow> read_only f f' \<Longrightarrow> pos f' = pos f + length a \<Longrightarrow> holds b f'"
  unfolding holds_append by (simp add: read_only_def holds_def)

lemma sint_word_of_nat: "int n < 2 ^ 31 \<Longrightarrow> sint (word_of_nat n :: 32 word) = int n"
  using sint_word_of_int [of "int n"] by simp

lemma wf_attrib_sint: "wf_attrib a \<Longrightarrow> sint (word_of_nat (length (data a)) :: 32 word) = int (length (data a))"
  by (simp add: wf_attrib_def sint_word_of_nat)

lemma read_attrs_holds:
  "list_all wf_attrib as \<Longrightarrow> holds (concat (map attr_image as)) f \<Longrightarrow> read_attrs (length as) f = (r, f') \<Longrightarrow>
     r = Some as \<or> r = None \<and> \<not> healthy_file f"
proof (induction as arbitrary: f r f')
  case (Cons a as)
  let ?sz = "int_bytes (word_of_int (asize a))"
  have wf: "wf_attrib a" using Cons.prems by simp
  have img: "holds (?sz @ int_bytes (attrnum a) @ data a @ concat (map attr_image as)) f"
    using Cons.prems(2) by (simp add: attr_image_def [of a])
  obtain b f1 where s1: "fread 4 f = (b, f1)" by (metis prod.collapse)
  have ro1: "read_only f f1" by (rule fread_read_only [OF s1])
  from fread_int [OF _ s1] img consider (bad) "b = []" "\<not> healthy_file f" | (ok) "b = ?sz" "pos f1 = pos f + 4"
    by (auto simp: holds_append)
  then show ?case
  proof cases
    case bad
    then show ?thesis using Cons.prems(3) s1 by simp
  next
    case ok
    have h1: "holds (int_bytes (attrnum a) @ data a @ concat (map attr_image as)) f1"
      using read_only_holds [OF img ro1] ok by simp
    obtain c f2 where s2: "fread 4 f1 = (c, f2)" by (metis prod.collapse)
    have ro2: "read_only f1 f2" by (rule fread_read_only [OF s2])
    from fread_int [OF _ s2] h1 consider (bad2) "c = []" "\<not> healthy_file f1" | (ok2) "c = int_bytes (attrnum a)" "pos f2 = pos f1 + 4"
      by (auto simp: holds_append)
    then show ?thesis
    proof cases
      case bad2
      then show ?thesis using Cons.prems(3) s1 s2 ok ro1 by (auto simp: read_only_def)
    next
      case ok2
      have h2: "holds (data a @ concat (map attr_image as)) f2"
        using read_only_holds [OF h1 ro2] ok2 by simp
      obtain d f3 where s3: "fread (length (data a)) f2 = (d, f3)" by (metis prod.collapse)
      have ro3: "read_only f2 f3" by (rule fread_read_only [OF s3])
      obtain r' f4 where s4: "read_attrs (length as) f3 = (r', f4)" by (metis prod.collapse)
      have eq: "(r, f') = (if length d \<noteq> length (data a) then (None, f3)
          else case r' of None \<Rightarrow> (None, f4) | Some xs \<Rightarrow> (Some (\<lparr>attrnum = attrnum a, asize = asize a, data = d\<rparr> # xs), f4))"
        using Cons.prems(3) s1 s2 s3 s4 ok ok2 wf
        by (auto simp: wf_attrib_sint wf_attrib_size Let_def split: option.splits if_splits)
      from fread_holds [OF _ s3] h2 consider (bad3) "d = []" "data a \<noteq> []" "\<not> healthy_file f2" | (ok3) "d = data a" "pos f3 = pos f2 + length (data a)"
        by (auto simp: holds_append)
      then show ?thesis
      proof cases
        case bad3
        then show ?thesis using eq ro1 ro2 by (auto simp: read_only_def)
      next
        case ok3
        have "holds (concat (map attr_image as)) f3" using read_only_holds [OF h2 ro3] ok3 by simp
        from Cons.IH [OF _ this s4] Cons.prems(1) show ?thesis
          using eq ok3 ro1 ro2 ro3 by (auto simp: read_only_def split: option.splits)
      qed
    qed
  qed
qed simp

lemma objfromFILE_holds:
  assumes wf: "wf_obj ob" and img: "holds (obj_image ob) f"
  shows "fst (objfromFILE f) = Some ob \<or> fst (objfromFILE f) = None \<and> \<not> healthy_file f"
proof -
  let ?ct = "int_bytes (word_of_int (at_count ob))" and ?rest = "concat (map attr_image (attrs ob))"
  have img: "holds (int_bytes (name ob) @ ?ct @ ?rest) f" using img by (simp add: obj_image_def)
  have ct: "sint (word_of_nat (length (attrs ob)) :: 32 word) = int (length (attrs ob))"
    "at_count ob = int (length (attrs ob))"
    using wf_obj_attrs [OF wf] by (auto intro: sint_word_of_nat)
  have ob: "\<lparr>name = name ob, at_count = int (length (attrs ob)), atrs = Some (attrs ob)\<rparr> = ob"
    using wf_obj_attrs [OF wf] by (cases ob) simp
  obtain b f1 where s1: "fread 4 f = (b, f1)" by (metis prod.collapse)
  obtain c f2 where s2: "fread 4 f1 = (c, f2)" by (metis prod.collapse)
  obtain r f3 where s3: "read_attrs (length (attrs ob)) f2 = (r, f3)" by (metis prod.collapse)
  have ro: "read_only f f1" "read_only f1 f2" using s1 s2 by (auto intro: fread_read_only)
  from fread_int [OF _ s1] img consider (bad) "b = []" "\<not> healthy_file f" | (ok) "b = int_bytes (name ob)" "pos f1 = pos f + 4"
    by (auto simp: holds_append)
  then show ?thesis
  proof cases
    case bad
    then show ?thesis by (simp add: objfromFILE_def s1)
  next
    case ok
    have h1: "holds (?ct @ ?rest) f1" using read_only_holds [OF img ro(1)] ok by simp
    from fread_int [OF _ s2] h1 consider (bad2) "c = []" "\<not> healthy_file f1" | (ok2) "c = ?ct" "pos f2 = pos f1 + 4"
      by (auto simp: holds_append)
    then show ?thesis
    proof cases
      case bad2
      then show ?thesis using ok ro by (auto simp: objfromFILE_def s1 s2 read_only_def)
    next
      case ok2
      have "holds ?rest f2" using read_only_holds [OF h1 ro(2)] ok2 by simp
      from read_attrs_holds [OF _ this s3] wf_obj_attrs [OF wf]
      show ?thesis using ok ok2 ro ct ob
        by (auto simp: objfromFILE_def s1 s2 s3 read_only_def Let_def split: option.splits)
    qed
  qed
qed

lemma fread_length: "fread n f = (d, f') \<Longrightarrow> length d \<le> n"
  by (auto simp: fread_def Let_def split: if_splits)

lemma sint32_less: "sint (w :: 32 word) < 2147483648"
  using sint_lt [of w] by simp

lemma read_attrs_SucE:
  assumes "read_attrs (Suc n) f = (Some as, f')"
  obtains a as' g where "as = a # as'" "wf_attrib a" "read_attrs n g = (Some as', f')"
proof -
  obtain b f1 c f2 d f3 where s: "fread 4 f = (b, f1)" "fread 4 f1 = (c, f2)"
      "fread (nat (sint (bytes_int b))) f2 = (d, f3)" by (metis prod.collapse)
  obtain r f4 where s4: "read_attrs n f3 = (r, f4)" by (metis prod.collapse)
  obtain as' where "int (length d) = sint (bytes_int b)" "r = Some as'" "f4 = f'"
    "as = \<lparr>attrnum = bytes_int c, asize = sint (bytes_int b), data = d\<rparr> # as'"
    using assms by (auto simp: s s4 Let_def split: if_splits option.splits)
  then show thesis using s4 that by (simp add: wf_attrib_def sint32_less)
qed

lemma read_attrs_wf: "read_attrs n f = (Some as, f') \<Longrightarrow> list_all wf_attrib as \<and> length as = n"
  by (induction n arbitrary: as f) (auto simp del: read_attrs.simps(2) elim!: read_attrs_SucE)

text \<open>
  C29: whatever bytes the file holds, an object that \<open>objfromFILE\<close> returns is well formed:
  it has as many attributes as its count says and every attribute has as many bytes as
  its size says.
\<close>

theorem objfromFILE_wf:
  assumes "objfromFILE f = (Some ob, f')"
  shows "wf_obj ob"
proof -
  obtain b f1 c f2 where s: "fread 4 f = (b, f1)" "fread 4 f1 = (c, f2)" by (metis prod.collapse)
  obtain r f3 where s3: "read_attrs (nat (sint (bytes_int c))) f2 = (r, f3)" by (metis prod.collapse)
  have "0 \<le> sint (bytes_int c)" and r: "r \<noteq> None"
    and ob: "ob = \<lparr>name = bytes_int b, at_count = sint (bytes_int c), atrs = r\<rparr>"
    using assms by (auto simp: objfromFILE_def s s3 Let_def split: if_splits option.splits)
  with s3 show ?thesis by (auto simp: wf_obj_def sint32_less dest!: read_attrs_wf)
qed

text \<open>
  C28: when \<open>objtoFILE\<close> reports success, seeking back and reading returns the same object,
  the position has moved by \<open>obj_siz\<close>, and no byte outside the object's image has changed.
\<close>

theorem object_file_roundtrip:
  assumes "wf_obj ob" "objtoFILE ob f = (0, f')"
  shows "fst (objfromFILE (f'\<lparr>pos := pos f, file_faults := []\<rparr>)) = Some ob \<and>
    int (pos f') = int (pos f) + obj_siz ob \<and>
    (\<forall>q n. (q + n \<le> pos f \<or> pos f' \<le> q) \<and> q + n \<le> length (bytes f) \<longrightarrow>
       take n (drop q (bytes f')) = take n (drop q (bytes f)))"
proof -
  have w: "bytes f' = write_at (pos f) (obj_image ob) (bytes f)" "pos f' = pos f + length (obj_image ob)"
    using objtoFILE_wrote [OF assms] by (simp_all add: wrote_def)
  let ?g = "f'\<lparr>pos := pos f, file_faults := []\<rparr>"
  have "holds (obj_image ob) ?g" by (simp add: holds_def w write_at_same)
  moreover have "healthy_file ?g" by (simp add: healthy_file_def)
  ultimately have "fst (objfromFILE ?g) = Some ob" using objfromFILE_holds [OF assms(1)] by blast
  then show ?thesis
    using write_at_apart [of _ _ "pos f" "obj_image ob" "bytes f"] w by (auto simp: obj_siz_image [OF assms(1)])
qed

definition sample_obj :: Obj where
  "sample_obj = \<lparr>name = 7, at_count = 1, atrs = Some [\<lparr>attrnum = 3, asize = 2, data = [CHR ''x'', NUL]\<rparr>]\<rparr>"

definition sample_file :: FILE where
  "sample_file = \<lparr>bytes = ''abcdefg'', pos = 2, file_faults = []\<rparr>"

theorem object_file_roundtrip_witness:
  "fst (objfromFILE ((snd (objtoFILE sample_obj sample_file))\<lparr>pos := 2, file_faults := []\<rparr>)) = Some sample_obj"
proof -
  have wf: "wf_obj sample_obj" by (simp add: wf_obj_def wf_attrib_def sample_obj_def)
  have "fst (objtoFILE sample_obj sample_file) = 0"
    by (rule objtoFILE_healthy [OF wf]) (simp add: healthy_file_def sample_file_def)
  then have "objtoFILE sample_obj sample_file = (0, snd (objtoFILE sample_obj sample_file))"
    by (metis prod.collapse)
  from object_file_roundtrip [OF wf this] show ?thesis by (simp add: sample_file_def)
qed

theorem objfromFILE_wf_witness:
  "\<exists>ob f'. objfromFILE ((snd (objtoFILE sample_obj sample_file))\<lparr>pos := 2, file_faults := []\<rparr>) = (Some ob, f') \<and> wf_obj ob"
proof -
  have wf: "wf_obj sample_obj" by (simp add: wf_obj_def wf_attrib_def sample_obj_def)
  let ?f = "snd (objtoFILE sample_obj sample_file)"
  have h: "healthy_file sample_file" by (simp add: healthy_file_def sample_file_def)
  have "objtoFILE sample_obj sample_file = (0, ?f)"
    using objtoFILE_healthy [OF wf h] by (metis prod.collapse)
  then have w: "wrote (obj_image sample_obj) sample_file ?f" by (rule objtoFILE_wrote [OF wf])
  let ?g = "?f\<lparr>pos := 2, file_faults := []\<rparr>"
  have "holds (obj_image sample_obj) ?g" using w write_at_same [of "obj_image sample_obj" 2] by (simp add: wrote_def holds_def sample_file_def)
  moreover have "healthy_file ?g" by (simp add: healthy_file_def)
  ultimately have "fst (objfromFILE ?g) = Some sample_obj" using objfromFILE_holds [OF wf] by blast
  then obtain f' where "objfromFILE ?g = (Some sample_obj, f')" by (metis prod.collapse)
  with objfromFILE_wf [OF this] show ?thesis by blast
qed

end
