(* ===== verification/Udb_ochunk.thy ===== *)
theory Udb_ochunk
  imports Udb_obj "HOL-Library.AList"
begin

section \<open>The chunk store (src/Server/src/udb_ochunk.c)\<close>

text \<open>
  Objects are kept in a chunk file of blocks of \<open>bsiz\<close> bytes. A bitmap says which blocks
  are taken; a dbm database maps the bytes of an object name to the offset and size of
  its image.

  The record holds the static variables of the file. \<open>bitm\<close> is the list of the bits, so
  \<open>bm_top\<close> is its length and a NULL bitmap is the empty list. \<open>index\<close> is the contents of the
  dbm database, an association list in the order \<open>dbm_firstkey\<close> and \<open>dbm_nextkey\<close>
  enumerate, and \<open>dbm_faults\<close> tells which of the next calls that write it fail; reads of
  the index do not. The buffers \<open>key\<close>, \<open>dat\<close> and \<open>hbuf\<close> are set before each use and are
  local here. \<open>malloc\<close> succeeds. Log lines are left out. Offsets and block numbers are
  natural numbers: the code's ints hold them while the chunk file is below 2 GB.
\<close>

subsection \<open>Data\<close>

record hrec =
  off :: nat
  siz :: nat

record store =
  dbfile :: "string option"
  bsiz :: nat
  db_initted :: bool
  last_free :: nat
  index :: "(string \<times> hrec) list"
  dbp_open :: bool
  dbm_faults :: "bool list"
  dbf :: FILE
  dbf_open :: bool
  bitm :: "bool list"

definition DDDB_BLOCK :: nat where
  "DDDB_BLOCK = 256"

definition DDDB_BITBLOCK :: nat where
  "DDDB_BITBLOCK = 512"

definition LOGICAL_BLOCK :: "nat \<Rightarrow> nat \<Rightarrow> nat" where
  "LOGICAL_BLOCK bs offset = offset div bs"

definition BLOCK_OFFSET :: "nat \<Rightarrow> nat \<Rightarrow> nat" where
  "BLOCK_OFFSET bs block = block * bs"

definition BLOCKS_NEEDED :: "nat \<Rightarrow> nat \<Rightarrow> nat" where
  "BLOCKS_NEEDED bs sz = (if sz mod bs \<noteq> 0 then sz div bs + 1 else sz div bs)"

subsection \<open>The dbm library\<close>

definition dbm_fetch :: "store \<Rightarrow> string \<Rightarrow> hrec option" where
  "dbm_fetch st k = map_of (index st) k"

definition dbm_fails :: "store \<Rightarrow> bool" where
  "dbm_fails st = (case dbm_faults st of [] \<Rightarrow> False | b # _ \<Rightarrow> b)"

definition dbm_store :: "string \<Rightarrow> hrec \<Rightarrow> store \<Rightarrow> bool \<times> store" where
  "dbm_store k h st =
     (if dbm_fails st then (False, st\<lparr>dbm_faults := tl (dbm_faults st)\<rparr>)
      else (True, st\<lparr>dbm_faults := tl (dbm_faults st), index := AList.update k h (index st)\<rparr>))"

definition dbm_delete :: "string \<Rightarrow> store \<Rightarrow> bool \<times> store" where
  "dbm_delete k st =
     (if dbm_fails st then (False, st\<lparr>dbm_faults := tl (dbm_faults st)\<rparr>)
      else (True, st\<lparr>dbm_faults := tl (dbm_faults st), index := AList.delete k (index st)\<rparr>))"

subsection \<open>The bitmap\<close>

text \<open>\<open>growbit\<close> rounds the size up to a multiple of eight and clears the new bits.\<close>

definition growbit :: "nat \<Rightarrow> bool list \<Rightarrow> bool list" where
  "growbit maxblok bm =
     (let newtop = (maxblok + 15) div 8 * 8
      in if newtop \<le> length bm then bm else bm @ replicate (newtop - length bm) False)"

fun mark_loop :: "nat \<Rightarrow> nat \<Rightarrow> bool \<Rightarrow> bool list \<Rightarrow> bool list" where
  "mark_loop 0 lbn taken bm = bm"
| "mark_loop (Suc bcnt) lbn taken bm =
     (let bm' = (if lbn + 32 \<ge> length bm then growbit (lbn + DDDB_BITBLOCK) bm else bm)
      in mark_loop bcnt (Suc lbn) taken (bm'[lbn := taken]))"

definition dddb_mark :: "nat \<Rightarrow> nat \<Rightarrow> bool \<Rightarrow> store \<Rightarrow> store" where
  "dddb_mark lbn sz taken st =
     st\<lparr>last_free := (if taken then last_free st else lbn),
        bitm := mark_loop (BLOCKS_NEEDED (bsiz st) sz) lbn taken (bitm st)\<rparr>"

fun set_run :: "nat \<Rightarrow> nat \<Rightarrow> bool list \<Rightarrow> bool list" where
  "set_run 0 lbn bm = bm"
| "set_run (Suc n) lbn bm = set_run n (Suc lbn) (bm[lbn := True])"

definition bit_taken :: "bool list \<Rightarrow> nat \<Rightarrow> bool" where
  "bit_taken bm lbn \<longleftrightarrow> lbn < length bm \<and> bm ! lbn"

text \<open>
  The two nested loops of \<open>dddb_alloc\<close>: \<open>alloc_outer\<close> starts a run at \<open>lbn\<close>, going back to
  block 0 the first time it comes near the end of the bitmap; \<open>alloc_inner\<close> extends the
  run that starts at \<open>slbn\<close> and lacks \<open>tbcnt\<close> blocks. The result is the start of the run,
  its last block and the bitmap. At least one block is asked for, since every object has
  a header.
\<close>

function alloc_outer :: "nat \<Rightarrow> bool list \<Rightarrow> nat \<Rightarrow> bool \<Rightarrow> nat \<times> nat \<times> bool list"
  and alloc_inner :: "nat \<Rightarrow> bool list \<Rightarrow> nat \<Rightarrow> bool \<Rightarrow> nat \<Rightarrow> nat \<Rightarrow> nat \<times> nat \<times> bool list" where
  "alloc_outer bcnt bm lbn overthetop =
     (if lbn + 32 \<ge> length bm then
        (if \<not> overthetop then alloc_inner bcnt bm 0 True 0 bcnt
         else alloc_inner bcnt (growbit (lbn + DDDB_BITBLOCK) bm) lbn overthetop lbn bcnt)
      else alloc_inner bcnt bm lbn overthetop lbn bcnt)"
| "alloc_inner bcnt bm lbn overthetop slbn tbcnt =
     (if bit_taken bm lbn then alloc_outer bcnt bm (Suc lbn) overthetop
      else if tbcnt \<le> 1 then (slbn, lbn, set_run bcnt slbn bm)
      else alloc_inner bcnt
             (if Suc lbn + 32 \<ge> length bm then growbit (Suc lbn + DDDB_BITBLOCK) bm else bm)
             (Suc lbn) overthetop slbn (tbcnt - 1))"
  by pat_completeness auto

definition taken_from :: "nat \<Rightarrow> bool list \<Rightarrow> nat" where
  "taken_from lbn bm = length (filter id (drop lbn bm))"

lemma taken_from_growbit [simp]: "taken_from lbn (growbit n bm) = taken_from lbn bm"
  by (simp add: taken_from_def growbit_def Let_def)

lemma taken_from_Suc:
  "bit_taken bm lbn \<Longrightarrow> taken_from (Suc lbn) bm < taken_from lbn bm"
  "\<not> bit_taken bm lbn \<Longrightarrow> taken_from (Suc lbn) bm = taken_from lbn bm"
proof -
  have "taken_from lbn bm = (if bit_taken bm lbn then 1 else 0) + taken_from (Suc lbn) bm"
  proof (cases "lbn < length bm")
    case True
    have "drop lbn bm = bm ! lbn # drop (Suc lbn) bm" by (rule Cons_nth_drop_Suc [symmetric, OF True])
    then show ?thesis using True by (simp add: taken_from_def bit_taken_def)
  qed (simp add: taken_from_def bit_taken_def)
  then show "bit_taken bm lbn \<Longrightarrow> taken_from (Suc lbn) bm < taken_from lbn bm"
    "\<not> bit_taken bm lbn \<Longrightarrow> taken_from (Suc lbn) bm = taken_from lbn bm" by simp_all
qed

termination alloc_outer
  by (relation "measures
       [\<lambda>x. case x of Inl (_, _, _, ov) \<Rightarrow> if ov then 0 else 1 | Inr (_, _, _, ov, _, _) \<Rightarrow> if ov then 0 else 1,
        \<lambda>x. case x of Inl (_, bm, l, _) \<Rightarrow> taken_from l bm | Inr (_, bm, l, _, _, _) \<Rightarrow> taken_from l bm,
        \<lambda>x. case x of Inl (b, _, _, _) \<Rightarrow> Suc b | Inr (_, _, _, _, _, t) \<Rightarrow> t]")
     (auto simp: taken_from_Suc)

declare alloc_outer.simps [simp del] alloc_inner.simps [simp del]

definition dddb_alloc :: "nat \<Rightarrow> store \<Rightarrow> nat \<times> store" where
  "dddb_alloc sz st =
     (case alloc_outer (BLOCKS_NEEDED (bsiz st) sz) (bitm st) (last_free st) False of
        (slbn, lbn, bm) \<Rightarrow> (slbn, st\<lparr>last_free := lbn, bitm := bm\<rparr>))"

subsection \<open>Opening and closing\<close>

definition DEFAULT_DBMCHUNKFILE :: string where
  "DEFAULT_DBMCHUNKFILE = ''mudDB''"

definition dddb_var_init :: "store \<Rightarrow> store" where
  "dddb_var_init st =
     st\<lparr>dbfile := Some DEFAULT_DBMCHUNKFILE, bsiz := DDDB_BLOCK, db_initted := False, last_free := 0,
        dbp_open := False, dbf_open := False, bitm := []\<rparr>"

text \<open>Which of the system calls of \<open>dddb_init\<close> succeed.\<close>

record opens =
  chunk_opens :: bool
  dir_opens :: bool
  pag_opens :: bool
  dbm_opens :: bool
  stat_works :: bool

text \<open>The walk over the keys of the index, which marks the blocks of every record.\<close>

fun init_loop :: "string list \<Rightarrow> store \<Rightarrow> int \<times> store" where
  "init_loop [] st = (0, st\<lparr>db_initted := True\<rparr>)"
| "init_loop (k # ks) st =
     (case dbm_fetch st k of
        None \<Rightarrow> (1, st)
      | Some h \<Rightarrow> init_loop ks (dddb_mark (LOGICAL_BLOCK (bsiz st) (off h)) (siz h) True st))"

definition dddb_init :: "opens \<Rightarrow> store \<Rightarrow> int \<times> store" where
  "dddb_init sys st =
     (if \<not> chunk_opens sys then (1, st\<lparr>dbf_open := False\<rparr>)
      else let st1 = st\<lparr>dbf_open := True\<rparr>
           in if \<not> dir_opens sys then (1, st1)
              else if \<not> pag_opens sys then (1, st1)
              else if \<not> dbm_opens sys then (1, st1\<lparr>dbp_open := False\<rparr>)
              else let st2 = st1\<lparr>dbp_open := True\<rparr>
                   in if \<not> stat_works sys then (1, st2)
                      else init_loop (map fst (index st2))
                        (st2\<lparr>bitm := growbit (LOGICAL_BLOCK (bsiz st2) (length (bytes (dbf st2))) + DDDB_BITBLOCK) (bitm st2)\<rparr>))"

definition dddb_initted :: "store \<Rightarrow> bool" where
  "dddb_initted st = db_initted st"

definition dddb_setbsiz :: "nat \<Rightarrow> store \<Rightarrow> nat \<times> store" where
  "dddb_setbsiz nbsiz st = (nbsiz, st\<lparr>bsiz := nbsiz\<rparr>)"

definition dddb_setfile :: "string \<Rightarrow> store \<Rightarrow> int \<times> store" where
  "dddb_setfile fil st = (if db_initted st then (1, st) else (0, st\<lparr>dbfile := Some fil\<rparr>))"

definition dddb_close :: "store \<Rightarrow> int \<times> store" where
  "dddb_close st =
     (0, st\<lparr>dbf_open := False, dbp_open := False, bitm := [], dbfile := None, db_initted := False\<rparr>)"

subsection \<open>Reading, writing and deleting objects\<close>

definition dddb_get :: "Objname \<Rightarrow> store \<Rightarrow> Obj option \<times> store" where
  "dddb_get nam st =
     (if \<not> db_initted st then (None, st)
      else case dbm_fetch st (int_bytes nam) of
             None \<Rightarrow> (None, st)
           | Some hbuf \<Rightarrow>
               (case fseek (off hbuf) (dbf st) of
                  (False, f) \<Rightarrow> (None, st\<lparr>dbf := f\<rparr>)
                | (True, f) \<Rightarrow> (case objfromFILE f of (ret, f') \<Rightarrow> (ret, st\<lparr>dbf := f'\<rparr>))))"

text \<open>The part of \<open>dddb_put\<close> that finds a place for the object and the part that writes it.\<close>

definition put_place :: "nat \<Rightarrow> hrec option \<Rightarrow> store \<Rightarrow> hrec \<times> store" where
  "put_place nsiz old st =
     (let fresh = (\<lambda>s. case dddb_alloc nsiz s of
                     (lbn, s') \<Rightarrow> (\<lparr>off = BLOCK_OFFSET (bsiz s') lbn, siz = nsiz\<rparr>, s'))
      in case old of
           Some hbuf \<Rightarrow>
             (if BLOCKS_NEEDED (bsiz st) nsiz > BLOCKS_NEEDED (bsiz st) (siz hbuf)
              then fresh (dddb_mark (LOGICAL_BLOCK (bsiz st) (off hbuf)) (siz hbuf) False st)
              else (hbuf\<lparr>siz := nsiz\<rparr>, st))
         | None \<Rightarrow> fresh st)"

definition put_object :: "Obj \<Rightarrow> nat \<Rightarrow> store \<Rightarrow> int \<times> store" where
  "put_object ob offset st =
     (case fseek offset (dbf st) of
        (False, f) \<Rightarrow> (1, st\<lparr>dbf := f\<rparr>)
      | (True, f) \<Rightarrow>
          (case objtoFILE ob f of
             (rc, f1) \<Rightarrow>
               (if rc \<noteq> 0 then (1, st\<lparr>dbf := f1\<rparr>)
                else case fflush f1 of (ok, f2) \<Rightarrow> (if ok then 0 else 1, st\<lparr>dbf := f2\<rparr>))))"

definition dddb_put :: "Obj \<Rightarrow> Objname \<Rightarrow> store \<Rightarrow> int \<times> store" where
  "dddb_put ob nam st =
     (if \<not> db_initted st then (1, st)
      else case put_place (nat (obj_siz ob)) (dbm_fetch st (int_bytes nam)) st of
             (hbuf, st1) \<Rightarrow>
               (case dbm_store (int_bytes nam) hbuf st1 of
                  (False, st2) \<Rightarrow> (1, st2)
                | (True, st2) \<Rightarrow> put_object ob (off hbuf) st2))"

text \<open>\<open>dddb_check\<close> takes a string and looks it up with the NUL at its end.\<close>

definition dddb_check :: "string \<Rightarrow> store \<Rightarrow> int" where
  "dddb_check nam st =
     (if \<not> db_initted st then 0 else if dbm_fetch st (nam @ [NUL]) = None then 0 else 1)"

definition dddb_del :: "Objname \<Rightarrow> store \<Rightarrow> int \<times> store" where
  "dddb_del nam st =
     (if \<not> db_initted st then (- 1, st)
      else case dbm_fetch st (int_bytes nam) of
             None \<Rightarrow> (0, st)
           | Some hbuf \<Rightarrow>
               (case dbm_delete (int_bytes nam) st of
                  (False, st1) \<Rightarrow> (1, st1)
                | (True, st1) \<Rightarrow>
                    let st2 = dddb_mark (LOGICAL_BLOCK (bsiz st1) (off hbuf)) (siz hbuf) False st1
                    in case fseek (off hbuf) (dbf st2) of
                         (False, f) \<Rightarrow> (0, st2\<lparr>dbf := f\<rparr>)
                       | (True, f) \<Rightarrow> (0, st2\<lparr>dbf := snd (fflush (snd (fwrite ''delobj'' f)))\<rparr>)))"

end
