(* ===== verification/Chunk_Store.thy ===== *)
theory Chunk_Store
  imports Udb_obj
begin

section \<open>The interface of the storage layer (src/Server/hdrs/udb_defs.h)\<close>

text \<open>
  The object cache reaches the disk through the macros \<open>DB_GET\<close>, \<open>DB_PUT\<close> and \<open>DB_DEL\<close>; the
  record holds the functions they stand for. The locale states what the cache relies on.
  \<open>contents\<close> says which object the store holds under a name, \<open>store_ok\<close> is the invariant of
  the store and \<open>faultless\<close> that none of its next system calls fails.

  An update that returns 0 has its effect, whatever faults occurred on the way; a read
  returns the object or, after a fault, nothing. A failed update promises nothing.
\<close>

record 's DB =
  DB_GET :: "Objname \<Rightarrow> 's \<Rightarrow> Obj option \<times> 's"
  DB_PUT :: "Obj \<Rightarrow> Objname \<Rightarrow> 's \<Rightarrow> int \<times> 's"
  DB_DEL :: "Objname \<Rightarrow> 's \<Rightarrow> int \<times> 's"

locale chunk_store =
  fixes db :: "'s DB"
    and store_ok :: "'s \<Rightarrow> bool"
    and contents :: "'s \<Rightarrow> Objname \<Rightarrow> Obj option"
    and faultless :: "'s \<Rightarrow> bool"
  assumes get_contents: "store_ok s \<Longrightarrow> DB_GET db n s = (r, s') \<Longrightarrow>
      r = contents s n \<or> r = None \<and> \<not> faultless s"
    and get_keeps: "store_ok s \<Longrightarrow> DB_GET db n s = (r, s') \<Longrightarrow>
      store_ok s' \<and> contents s' = contents s \<and> (faultless s \<longrightarrow> faultless s')"
    and put_contents: "store_ok s \<Longrightarrow> wf_obj ob \<Longrightarrow> name ob = n \<Longrightarrow> DB_PUT db ob n s = (0, s') \<Longrightarrow>
      store_ok s' \<and> contents s' = (contents s)(n \<mapsto> ob) \<and> (faultless s \<longrightarrow> faultless s')"
    and put_faultless: "store_ok s \<Longrightarrow> wf_obj ob \<Longrightarrow> name ob = n \<Longrightarrow> faultless s \<Longrightarrow> fst (DB_PUT db ob n s) = 0"
    and del_contents: "store_ok s \<Longrightarrow> DB_DEL db n s = (0, s') \<Longrightarrow>
      store_ok s' \<and> contents s' = (contents s)(n := None) \<and> (faultless s \<longrightarrow> faultless s')"
    and del_faultless: "store_ok s \<Longrightarrow> faultless s \<Longrightarrow> fst (DB_DEL db n s) = 0"
    and contents_wf: "store_ok s \<Longrightarrow> contents s n = Some ob \<Longrightarrow> wf_obj ob \<and> name ob = n"

subsection \<open>Sequences of operations\<close>

datatype db_op = Get Objname | Put Obj | Del Objname

fun db_step :: "'s DB \<Rightarrow> db_op \<Rightarrow> 's \<Rightarrow> (Obj option + int) \<times> 's" where
  "db_step db (Get n) s = (case DB_GET db n s of (r, s') \<Rightarrow> (Inl r, s'))"
| "db_step db (Put ob) s = (case DB_PUT db ob (name ob) s of (r, s') \<Rightarrow> (Inr r, s'))"
| "db_step db (Del n) s = (case DB_DEL db n s of (r, s') \<Rightarrow> (Inr r, s'))"

fun obj_map_step :: "db_op \<Rightarrow> (Objname \<Rightarrow> Obj option) \<Rightarrow> (Obj option + int) \<times> (Objname \<Rightarrow> Obj option)" where
  "obj_map_step (Get n) m = (Inl (m n), m)"
| "obj_map_step (Put ob) m = (Inr 0, m(name ob \<mapsto> ob))"
| "obj_map_step (Del n) m = (Inr 0, m(n := None))"

definition op_wf :: "db_op \<Rightarrow> bool" where
  "op_wf x = (case x of Put ob \<Rightarrow> wf_obj ob | _ \<Rightarrow> True)"

context chunk_store
begin

lemma step_refines:
  assumes "store_ok s" "faultless s" "op_wf x" "db_step db x s = (r, s')"
  shows "store_ok s' \<and> faultless s' \<and> obj_map_step x (contents s) = (r, contents s')"
proof (cases x)
  case (Get n)
  then show ?thesis using assms get_contents [OF assms(1)] get_keeps [OF assms(1)] by (auto split: prod.splits)
next
  case (Put ob)
  then have wf: "wf_obj ob" using assms(3) by (simp add: op_wf_def)
  obtain s1 where s1: "DB_PUT db ob (name ob) s = (0, s1)"
    using put_faultless [OF assms(1) wf refl assms(2)] by (metis prod.collapse)
  then show ?thesis using assms Put put_contents [OF assms(1) wf refl s1] by simp
next
  case (Del n)
  obtain s1 where s1: "DB_DEL db n s = (0, s1)"
    using del_faultless [OF assms(1,2)] by (metis prod.collapse)
  then show ?thesis using assms Del del_contents [OF assms(1) s1] by simp
qed

lemma run_refines:
  "store_ok s \<Longrightarrow> faultless s \<Longrightarrow> list_all op_wf xs \<Longrightarrow> run_ops (db_step db) xs s = (rs, s') \<Longrightarrow>
     store_ok s' \<and> run_ops obj_map_step xs (contents s) = (rs, contents s')"
proof (induction xs arbitrary: s rs)
  case (Cons x xs)
  obtain r s1 where s1: "db_step db x s = (r, s1)" by (metis prod.collapse)
  obtain rs' s2 where s2: "run_ops (db_step db) xs s1 = (rs', s2)" by (metis prod.collapse)
  have st: "store_ok s1 \<and> faultless s1 \<and> obj_map_step x (contents s) = (r, contents s1)"
    using step_refines [OF Cons.prems(1,2) _ s1] Cons.prems(3) by simp
  then show ?case using Cons.IH [of s1 rs'] Cons.prems s1 s2 by (simp add: Let_def)
qed simp

end

end
