(* ===== verification/Udb_ochunk_Laws.thy ===== *)
theory Udb_ochunk_Laws
  imports Udb_ochunk Chunk_Store
begin

section \<open>The chunk store keeps what is put into it\<close>

text \<open>
  The invariant \<open>chunk_ok\<close>: the blocks of every record of the index are taken in the bitmap,
  no two records share a block, and the file holds the image of a well-formed object at the
  record's offset. \<open>chunk_contents\<close> is the map from names to objects that the store stands
  for. The three operations are shown to be those of a map and the contract \<open>chunk_store\<close> is
  interpreted on them; reopening the database rebuilds the bitmap.
\<close>

subsection \<open>Bits\<close>

definition taken_blocks :: "bool list \<Rightarrow> nat set" where
  "taken_blocks bm = {i. bit_taken bm i}"

lemma taken_growbit [simp]: "taken_blocks (growbit n bm) = taken_blocks bm"
  by (auto simp: taken_blocks_def bit_taken_def growbit_def Let_def nth_append)

lemma length_growbit: "length bm \<le> length (growbit n bm)" "n \<le> length (growbit n bm)"
  by (auto simp: growbit_def Let_def)

lemma taken_update:
  "i < length bm \<Longrightarrow> taken_blocks (bm[i := b]) = (if b then insert i (taken_blocks bm) else taken_blocks bm - {i})"
  by (auto simp: taken_blocks_def bit_taken_def nth_list_update split: if_splits)

lemma run_Suc: "{l..<l + Suc n} = insert l {Suc l..<Suc l + n}"
  by auto

lemma mark_loop_taken:
  "taken_blocks (mark_loop n lbn taken bm) =
     (if taken then taken_blocks bm \<union> {lbn..<lbn + n} else taken_blocks bm - {lbn..<lbn + n}) \<and>
   length bm \<le> length (mark_loop n lbn taken bm)"
proof (induction n lbn taken bm rule: mark_loop.induct)
  case (2 n lbn taken bm)
  let ?bm = "if lbn + 32 \<ge> length bm then growbit (lbn + DDDB_BITBLOCK) bm else bm"
  have len: "lbn < length ?bm" "length bm \<le> length ?bm"
    using length_growbit [where bm = bm and n = "lbn + DDDB_BITBLOCK"] by (auto simp: DDDB_BITBLOCK_def)
  have "taken_blocks ?bm = taken_blocks bm" by simp
  then show ?case
    using 2 [OF refl] len taken_update [OF len(1), of taken] unfolding run_Suc
    by (auto simp: Let_def)
qed simp

lemma set_run_taken:
  "l + n \<le> length bm \<Longrightarrow> taken_blocks (set_run n l bm) = taken_blocks bm \<union> {l..<l + n} \<and>
     length (set_run n l bm) = length bm"
proof (induction n l bm rule: set_run.induct)
  case (2 n l bm)
  then show ?case using taken_update [of l bm True] unfolding run_Suc by auto
qed simp

definition free_run :: "nat \<Rightarrow> bool list \<Rightarrow> nat \<times> nat \<times> bool list \<Rightarrow> bool" where
  "free_run bcnt bm r \<longleftrightarrow> (case r of (slbn, lbn, bm') \<Rightarrow>
     {slbn..<slbn + bcnt} \<inter> taken_blocks bm = {} \<and> lbn = slbn + bcnt - 1 \<and>
     taken_blocks bm' = taken_blocks bm \<union> {slbn..<slbn + bcnt} \<and> length bm \<le> length bm')"

lemma free_run_growbit: "free_run bcnt (growbit n bm) r \<Longrightarrow> free_run bcnt bm r"
  using length_growbit(1) [of bm n] by (auto simp: free_run_def)

lemma alloc_free_run:
  "0 < bcnt \<Longrightarrow> 32 < length bm \<Longrightarrow> free_run bcnt bm (alloc_outer bcnt bm lbn over)"
  "0 < tbcnt \<Longrightarrow> tbcnt \<le> bcnt \<Longrightarrow> lbn = slbn + (bcnt - tbcnt) \<Longrightarrow> lbn < length bm \<Longrightarrow> 32 < length bm \<Longrightarrow>
     {slbn..<lbn} \<inter> taken_blocks bm = {} \<Longrightarrow>
     free_run bcnt bm (alloc_inner bcnt bm lbn over slbn tbcnt)"
proof (induction bcnt bm lbn over and bcnt bm lbn over slbn tbcnt rule: alloc_outer_alloc_inner.induct)
  case (1 bcnt bm lbn over)
  have len: "32 < length (growbit (lbn + DDDB_BITBLOCK) bm)" "lbn < length (growbit (lbn + DDDB_BITBLOCK) bm)"
      "length bm \<le> length (growbit (lbn + DDDB_BITBLOCK) bm)"
    using length_growbit [where bm = bm and n = "lbn + DDDB_BITBLOCK"] 1 by (auto simp: DDDB_BITBLOCK_def)
  consider (wrap) "lbn + 32 \<ge> length bm" "\<not> over" | (grow) "lbn + 32 \<ge> length bm" over
    | (plain) "\<not> lbn + 32 \<ge> length bm" by blast
  then show ?case
  proof cases
    case wrap
    have "free_run bcnt bm (alloc_inner bcnt bm 0 True 0 bcnt)"
      using 1(1) [OF wrap] 1(4,5) by fastforce
    then show ?thesis using wrap by (simp add: alloc_outer.simps)
  next
    case grow
    have "free_run bcnt (growbit (lbn + DDDB_BITBLOCK) bm)
        (alloc_inner bcnt (growbit (lbn + DDDB_BITBLOCK) bm) lbn over lbn bcnt)"
      using 1(2) [OF grow(1)] grow len 1(4) by simp
    then show ?thesis using grow by (simp add: alloc_outer.simps free_run_growbit)
  next
    case plain
    have "free_run bcnt bm (alloc_inner bcnt bm lbn over lbn bcnt)"
      using 1(3) [OF plain] plain 1(4,5) by simp
    then show ?thesis using plain by (simp add: alloc_outer.simps)
  qed
next
  case (2 bcnt bm lbn over slbn tbcnt)
  let ?bm = "if Suc lbn + 32 \<ge> length bm then growbit (Suc lbn + DDDB_BITBLOCK) bm else bm"
  have len: "Suc lbn < length ?bm" "length bm \<le> length ?bm"
    using length_growbit [where bm = bm and n = "Suc lbn + DDDB_BITBLOCK"] by (auto simp: DDDB_BITBLOCK_def)
  show ?case
  proof (cases "bit_taken bm lbn")
    case True
    then show ?thesis using 2 by (subst alloc_inner.simps) (simp add: free_run_def)
  next
    case free: False
    then have run: "{slbn..<Suc lbn} \<inter> taken_blocks bm = {}"
      using 2(8) by (auto simp: taken_blocks_def less_Suc_eq)
    show ?thesis
    proof (cases "tbcnt \<le> 1")
      case True
      then have "slbn + bcnt = Suc lbn" using 2 by linarith
      then show ?thesis using True free run 2 set_run_taken [of slbn bcnt bm]
        by (subst alloc_inner.simps) (auto simp: free_run_def)
    next
      case False
      have "free_run bcnt ?bm (alloc_inner bcnt ?bm (Suc lbn) over slbn (tbcnt - 1))"
      proof (rule 2(2) [OF free False])
        show "0 < tbcnt - 1" "tbcnt - 1 \<le> bcnt" "Suc lbn = slbn + (bcnt - (tbcnt - 1))"
          using False 2(3-5) by linarith+
        show "{slbn..<Suc lbn} \<inter> taken_blocks ?bm = {}" using run by simp
        show "32 < length ?bm" using len 2(7) by linarith
      qed (rule len(1))
      then have "free_run bcnt bm (alloc_inner bcnt ?bm (Suc lbn) over slbn (tbcnt - 1))"
        by (cases "Suc lbn + 32 \<ge> length bm") (simp_all add: free_run_growbit)
      then show ?thesis using free False by (subst alloc_inner.simps) simp
    qed
  qed
qed

subsection \<open>The invariant\<close>

definition blocks :: "nat \<Rightarrow> hrec \<Rightarrow> nat set" where
  "blocks bs h = {LOGICAL_BLOCK bs (off h)..<LOGICAL_BLOCK bs (off h) + BLOCKS_NEEDED bs (siz h)}"

definition stored :: "string \<Rightarrow> string \<Rightarrow> hrec \<Rightarrow> Obj \<Rightarrow> bool" where
  "stored file k h ob \<longleftrightarrow> wf_obj ob \<and> k = int_bytes (name ob) \<and> siz h = length (obj_image ob) \<and>
     take (length (obj_image ob)) (drop (off h) file) = obj_image ob"

definition records_ok :: "nat \<Rightarrow> bool list \<Rightarrow> string \<Rightarrow> (string \<Rightarrow> hrec option) \<Rightarrow> bool" where
  "records_ok bs bm file M \<longleftrightarrow>
     (\<forall>k h. M k = Some h \<longrightarrow> bs dvd off h \<and> blocks bs h \<subseteq> taken_blocks bm \<and> (\<exists>ob. stored file k h ob)) \<and>
     (\<forall>k h k' h'. M k = Some h \<longrightarrow> M k' = Some h' \<longrightarrow> k \<noteq> k' \<longrightarrow> blocks bs h \<inter> blocks bs h' = {})"

definition chunk_ok :: "store \<Rightarrow> bool" where
  "chunk_ok st \<longleftrightarrow> db_initted st \<and> 0 < bsiz st \<and> 32 < length (bitm st) \<and>
     records_ok (bsiz st) (bitm st) (bytes (dbf st)) (map_of (index st))"

definition chunk_contents :: "store \<Rightarrow> Objname \<Rightarrow> Obj option" where
  "chunk_contents st n = (case map_of (index st) (int_bytes n) of None \<Rightarrow> None
     | Some h \<Rightarrow> fst (objfromFILE ((dbf st)\<lparr>pos := off h, file_faults := []\<rparr>)))"

definition chunk_faultless :: "store \<Rightarrow> bool" where
  "chunk_faultless st \<longleftrightarrow> True \<notin> set (dbm_faults st) \<and> healthy_file (dbf st)"

lemma int_bytes_inject [simp]: "int_bytes a = int_bytes b \<longleftrightarrow> a = b"
  by (metis bytes_int_int_bytes)

lemma BLOCKS_NEEDED_bound: "0 < bs \<Longrightarrow> sz \<le> BLOCKS_NEEDED bs sz * bs"
proof -
  assume "0 < bs"
  then have "sz mod bs < bs" by simp
  moreover have "sz = sz div bs * bs + sz mod bs" by simp
  ultimately have le: "sz \<le> bs + sz div bs * bs" by linarith
  show ?thesis
  proof (cases "sz mod bs = 0")
    case True
    then have "sz = sz div bs * bs" using \<open>sz = sz div bs * bs + sz mod bs\<close> by linarith
    then show ?thesis using True unfolding BLOCKS_NEEDED_def by simp
  qed (simp add: BLOCKS_NEEDED_def le)
qed

lemma BLOCKS_NEEDED_pos: "0 < bs \<Longrightarrow> 0 < sz \<Longrightarrow> 0 < BLOCKS_NEEDED bs sz"
  using BLOCKS_NEEDED_bound [of bs sz] by (cases "BLOCKS_NEEDED bs sz") auto

lemma obj_image_length: "8 \<le> length (obj_image ob)"
  by (simp add: obj_image_def)

lemma obj_image_ne [simp]: "obj_image ob \<noteq> []"
  using obj_image_length [of ob] by auto

lemma blocks_bytes_apart:
  assumes "0 < bs" "bs dvd off h" "bs dvd off h'" "0 < siz h" "0 < siz h'" "blocks bs h \<inter> blocks bs h' = {}"
  shows "off h + siz h \<le> off h' \<or> off h' + siz h' \<le> off h"
proof -
  obtain a b where ab: "off h = bs * a" "off h' = bs * b" using assms(2,3) by (auto elim!: dvdE)
  let ?n = "BLOCKS_NEEDED bs (siz h)" and ?m = "BLOCKS_NEEDED bs (siz h')"
  have pos: "0 < ?n" "0 < ?m" using assms BLOCKS_NEEDED_pos by simp_all
  have "{a..<a + ?n} \<inter> {b..<b + ?m} = {}" using assms(1,6) ab by (simp add: blocks_def LOGICAL_BLOCK_def)
  then have "a + ?n \<le> b \<or> b + ?m \<le> a" using pos
    by (metis atLeastLessThan_iff disjoint_iff le_add1 less_add_same_cancel1 linorder_not_le nat_le_linear order_refl)
  then have "bs * (a + ?n) \<le> bs * b \<or> bs * (b + ?m) \<le> bs * a" by (metis mult_le_mono2)
  moreover have "siz h \<le> bs * ?n" "siz h' \<le> bs * ?m"
    using BLOCKS_NEEDED_bound [OF assms(1)] by (simp_all add: mult.commute)
  ultimately show ?thesis unfolding ab by (auto simp: distrib_left)
qed

lemma stored_contents:
  "map_of (index st) (int_bytes n) = Some h \<Longrightarrow> stored (bytes (dbf st)) (int_bytes n) h ob \<Longrightarrow>
     chunk_contents st n = Some ob"
proof -
  assume M: "map_of (index st) (int_bytes n) = Some h" and st: "stored (bytes (dbf st)) (int_bytes n) h ob"
  let ?f = "(dbf st)\<lparr>pos := off h, file_faults := []\<rparr>"
  have "holds (obj_image ob) ?f" using st by (simp add: stored_def holds_def)
  moreover have "healthy_file ?f" by (simp add: healthy_file_def)
  ultimately show ?thesis using objfromFILE_holds [of ob ?f] st M by (auto simp: chunk_contents_def stored_def)
qed

lemma chunk_record:
  assumes "chunk_ok st" "map_of (index st) (int_bytes n) = Some h"
  obtains ob where "stored (bytes (dbf st)) (int_bytes n) h ob" "chunk_contents st n = Some ob" "name ob = n"
proof -
  obtain ob where ob: "stored (bytes (dbf st)) (int_bytes n) h ob"
    using assms unfolding chunk_ok_def records_ok_def by blast
  moreover have "name ob = n" using ob by (auto simp: stored_def dest: sym)
  ultimately show thesis using stored_contents [OF assms(2) ob] that by blast
qed

lemma chunk_none: "map_of (index st) (int_bytes n) = None \<Longrightarrow> chunk_contents st n = None"
  by (simp add: chunk_contents_def)

lemma stored_write:
  assumes "stored file k h ob" "off h + siz h \<le> p \<or> p + length s \<le> off h"
  shows "stored (write_at p s file) k h ob"
proof -
  have "length (take (siz h) (drop (off h) file)) = siz h" using assms(1) unfolding stored_def by metis
  then have "off h + siz h \<le> length file \<or> siz h = 0" by auto
  then show ?thesis using assms write_at_apart [of "off h" "siz h" p s "file"] by (auto simp: stored_def)
qed

text \<open>Installing a record over blocks that no other record owns.\<close>

lemma stored_install:
  assumes bs: "0 < bs" and h: "bs dvd off h" "siz h = length (obj_image ob)"
    and ob': "stored file k' h' ob'" "bs dvd off h'" and apart: "blocks bs h' \<inter> blocks bs h = {}"
  shows "stored (write_at (off h) (obj_image ob) file) k' h' ob'"
proof -
  have "off h + siz h \<le> off h' \<or> off h' + siz h' \<le> off h"
  proof (rule blocks_bytes_apart [OF bs h(1) ob'(2)])
    show "0 < siz h" using h(2) obj_image_length [of ob] by linarith
    show "0 < siz h'" using ob'(1) obj_image_length [of ob'] unfolding stored_def by linarith
    show "blocks bs h \<inter> blocks bs h' = {}" using apart by blast
  qed
  then show ?thesis using stored_write [OF ob'(1)] h(2) by auto
qed

lemma records_install:
  assumes ok: "records_ok bs bm file M" and bs: "0 < bs"
    and h: "bs dvd off h" "blocks bs h \<subseteq> taken_blocks bm'" "siz h = length (obj_image ob)"
    and wf: "wf_obj ob" and k: "k = int_bytes (name ob)"
    and others: "\<And>k' h'. M k' = Some h' \<Longrightarrow> k' \<noteq> k \<Longrightarrow>
        blocks bs h' \<subseteq> taken_blocks bm' \<and> blocks bs h' \<inter> blocks bs h = {}"
  shows "records_ok bs bm' (write_at (off h) (obj_image ob) file) (M(k \<mapsto> h))"
proof -
  let ?file = "write_at (off h) (obj_image ob) file"
  have new: "stored ?file k h ob"
    using wf k h(3) write_at_same [of "obj_image ob" "off h" "file"] by (simp add: stored_def)
  have old: "\<exists>ob'. stored ?file k' h' ob'" if m: "M k' = Some h'" "k' \<noteq> k" for k' h'
  proof -
    obtain ob' where ob': "stored file k' h' ob'" "bs dvd off h'" using ok m unfolding records_ok_def by blast
    then show ?thesis using stored_install [OF bs h(1,3) ob'] others [OF m] by blast
  qed
  show ?thesis unfolding records_ok_def
  proof (intro conjI allI impI)
    fix k' h' assume "(M(k \<mapsto> h)) k' = Some h'"
    then show "bs dvd off h'" "blocks bs h' \<subseteq> taken_blocks bm'" "\<exists>ob. stored ?file k' h' ob"
      using h new ok others old by (auto simp: records_ok_def split: if_splits)
  next
    fix k1 h1 k2 h2
    assume "(M(k \<mapsto> h)) k1 = Some h1" "(M(k \<mapsto> h)) k2 = Some h2" "k1 \<noteq> k2"
    then show "blocks bs h1 \<inter> blocks bs h2 = {}"
      using ok others by (auto simp: records_ok_def split: if_splits)
  qed
qed

subsection \<open>Reads\<close>

lemma chunk_ok_read:
  "read_only (dbf st) f \<Longrightarrow> chunk_ok (st\<lparr>dbf := f\<rparr>) = chunk_ok st \<and>
     chunk_contents (st\<lparr>dbf := f\<rparr>) = chunk_contents st \<and>
     (chunk_faultless st \<longrightarrow> chunk_faultless (st\<lparr>dbf := f\<rparr>))"
proof -
  assume ro: "read_only (dbf st) f"
  then have eq: "f\<lparr>pos := p, file_faults := []\<rparr> = (dbf st)\<lparr>pos := p, file_faults := []\<rparr>" for p
    by (cases f; cases "dbf st") (simp add: read_only_def)
  show ?thesis using ro
    by (auto simp: eq chunk_ok_def chunk_contents_def chunk_faultless_def read_only_def fun_eq_iff
        split: option.split)
qed

lemma fseek_cases:
  obtains (bad) f' where "fseek p f = (False, f')" "read_only f f'" "\<not> healthy_file f"
  | (ok) f' where "fseek p f = (True, f')" "read_only f f'" "pos f' = p"
  by (cases "io_fails f") (auto simp: fseek_def read_only_def healthy_next dest: healthy_fails)

lemma get_laws:
  assumes "chunk_ok st" "dddb_get n st = (r, st')"
  shows "r = chunk_contents st n \<or> r = None \<and> \<not> chunk_faultless st"
    and "chunk_ok st' \<and> chunk_contents st' = chunk_contents st \<and> (chunk_faultless st \<longrightarrow> chunk_faultless st')"
proof -
  have init: "db_initted st" using assms(1) by (simp add: chunk_ok_def)
  have "(r = chunk_contents st n \<or> r = None \<and> \<not> chunk_faultless st) \<and>
      (\<exists>f. st' = st\<lparr>dbf := f\<rparr> \<and> read_only (dbf st) f)"
  proof (cases "map_of (index st) (int_bytes n)")
    case None
    then show ?thesis using assms(2) init chunk_none [OF None]
      by (auto simp: dddb_get_def dbm_fetch_def intro: exI [of _ "dbf st"])
  next
    case (Some h)
    obtain ob where ob: "stored (bytes (dbf st)) (int_bytes n) h ob" "chunk_contents st n = Some ob"
      using chunk_record [OF assms(1) Some] by blast
    show ?thesis
    proof (cases rule: fseek_cases [of "off h" "dbf st"])
      case (bad f)
      then show ?thesis using assms(2) init Some by (auto simp: dddb_get_def dbm_fetch_def chunk_faultless_def)
    next
      case (ok f)
      have "holds (obj_image ob) f" using ob(1) ok by (simp add: holds_def stored_def read_only_def)
      moreover have "wf_obj ob" using ob(1) by (simp add: stored_def)
      moreover have "st' = st\<lparr>dbf := snd (objfromFILE f)\<rparr>" "r = fst (objfromFILE f)"
        using assms(2) init Some ok by (auto simp: dddb_get_def dbm_fetch_def split: prod.splits)
      ultimately show ?thesis using objfromFILE_holds [of ob f] objfromFILE_read_only [of f] ok ob(2)
        by (auto simp: chunk_faultless_def read_only_def)
    qed
  qed
  then show "r = chunk_contents st n \<or> r = None \<and> \<not> chunk_faultless st"
    "chunk_ok st' \<and> chunk_contents st' = chunk_contents st \<and> (chunk_faultless st \<longrightarrow> chunk_faultless st')"
    using chunk_ok_read assms(1) by blast+
qed

subsection \<open>Finding a place\<close>

lemma mark_fields [simp]:
  "index (dddb_mark l s t st) = index st" "dbf (dddb_mark l s t st) = dbf st"
  "bsiz (dddb_mark l s t st) = bsiz st" "db_initted (dddb_mark l s t st) = db_initted st"
  "dbm_faults (dddb_mark l s t st) = dbm_faults st"
  by (simp_all add: dddb_mark_def)

lemma mark_blocks:
  "taken_blocks (bitm (dddb_mark (LOGICAL_BLOCK (bsiz st) (off h)) (siz h) t st)) =
     (if t then taken_blocks (bitm st) \<union> blocks (bsiz st) h else taken_blocks (bitm st) - blocks (bsiz st) h)"
  "length (bitm st) \<le> length (bitm (dddb_mark l s t st))"
  using mark_loop_taken by (simp_all add: dddb_mark_def blocks_def)

definition same_disk :: "store \<Rightarrow> store \<Rightarrow> bool" where
  "same_disk st st' \<longleftrightarrow> index st' = index st \<and> dbf st' = dbf st \<and> bsiz st' = bsiz st \<and>
     db_initted st' = db_initted st \<and> dbm_faults st' = dbm_faults st"

lemma alloc_laws:
  assumes "dddb_alloc sz st = (lbn, st')" "0 < bsiz st" "0 < sz" "32 < length (bitm st)"
  defines "h \<equiv> \<lparr>off = BLOCK_OFFSET (bsiz st) lbn, siz = sz\<rparr>"
  shows "same_disk st st' \<and> length (bitm st) \<le> length (bitm st') \<and>
     blocks (bsiz st) h \<inter> taken_blocks (bitm st) = {} \<and>
     taken_blocks (bitm st') = taken_blocks (bitm st) \<union> blocks (bsiz st) h \<and> bsiz st dvd off h"
proof -
  let ?n = "BLOCKS_NEEDED (bsiz st) sz"
  obtain slbn l bm where r: "alloc_outer ?n (bitm st) (last_free st) False = (slbn, l, bm)"
    by (metis prod.collapse)
  have st': "lbn = slbn" "st' = st\<lparr>last_free := l, bitm := bm\<rparr>"
    using assms(1) by (simp_all add: dddb_alloc_def r)
  have "blocks (bsiz st) h = {slbn..<slbn + ?n}"
    using assms(2) st' by (simp add: blocks_def h_def BLOCK_OFFSET_def LOGICAL_BLOCK_def)
  moreover have "free_run ?n (bitm st) (slbn, l, bm)"
    using alloc_free_run(1) [OF BLOCKS_NEEDED_pos [OF assms(2,3)] assms(4)] r by metis
  ultimately show ?thesis
    using st' by (simp add: free_run_def same_disk_def h_def BLOCK_OFFSET_def)
qed

text \<open>The place that \<open>dddb_put\<close> chooses is taken in the bitmap and overlaps no other record.\<close>

definition good_place :: "store \<Rightarrow> string \<Rightarrow> hrec \<Rightarrow> store \<Rightarrow> bool" where
  "good_place st k h st' \<longleftrightarrow> same_disk st st' \<and> 32 < length (bitm st') \<and> bsiz st dvd off h \<and>
     blocks (bsiz st) h \<subseteq> taken_blocks (bitm st') \<and>
     (\<forall>k' h'. map_of (index st) k' = Some h' \<longrightarrow> k' \<noteq> k \<longrightarrow>
        blocks (bsiz st) h' \<subseteq> taken_blocks (bitm st') \<and> blocks (bsiz st) h' \<inter> blocks (bsiz st) h = {})"

lemma alloc_good_place:
  assumes ok: "chunk_ok st" and sd: "same_disk st st0" and len: "32 < length (bitm st0)"
    and old: "\<And>k' h'. map_of (index st) k' = Some h' \<Longrightarrow> k' \<noteq> k \<Longrightarrow> blocks (bsiz st) h' \<subseteq> taken_blocks (bitm st0)"
    and al: "dddb_alloc sz st0 = (lbn, st')" and sz: "0 < sz"
  shows "good_place st k \<lparr>off = BLOCK_OFFSET (bsiz st') lbn, siz = sz\<rparr> st'"
proof -
  have bs: "0 < bsiz st0" "bsiz st0 = bsiz st" using ok sd by (auto simp: chunk_ok_def same_disk_def)
  note a = alloc_laws [OF al bs(1) sz len]
  have "bsiz st' = bsiz st" using a bs by (simp add: same_disk_def)
  moreover have "same_disk st st'" using a sd by (simp add: same_disk_def)
  moreover have "blocks (bsiz st) h' \<subseteq> taken_blocks (bitm st') \<and>
      blocks (bsiz st) h' \<inter> blocks (bsiz st) \<lparr>off = BLOCK_OFFSET (bsiz st) lbn, siz = sz\<rparr> = {}"
    if "map_of (index st) k' = Some h'" "k' \<noteq> k" for k' h'
    using a old [OF that] bs(2) by auto
  moreover have "32 < length (bitm st')" using a len by linarith
  ultimately show ?thesis using a bs(2) unfolding good_place_def by auto
qed

lemma put_place_good:
  assumes ok: "chunk_ok st" and sz: "0 < sz" and r: "put_place sz (map_of (index st) k) st = (h, st')"
  shows "good_place st k h st' \<and> siz h = sz"
proof (cases "map_of (index st) k")
  case None
  obtain lbn st1 where al: "dddb_alloc sz st = (lbn, st1)" by (metis prod.collapse)
  have "good_place st k \<lparr>off = BLOCK_OFFSET (bsiz st1) lbn, siz = sz\<rparr> st1"
    by (rule alloc_good_place [OF ok _ _ _ al sz])
      (use ok in \<open>auto simp: chunk_ok_def records_ok_def same_disk_def\<close>)
  then show ?thesis using r None al by (auto simp: put_place_def Let_def)
next
  case (Some h0)
  show ?thesis
  proof (cases "BLOCKS_NEEDED (bsiz st) sz > BLOCKS_NEEDED (bsiz st) (siz h0)")
    case True
    let ?st0 = "dddb_mark (LOGICAL_BLOCK (bsiz st) (off h0)) (siz h0) False st"
    obtain lbn st1 where al: "dddb_alloc sz ?st0 = (lbn, st1)" by (metis prod.collapse)
    have "blocks (bsiz st) h' \<subseteq> taken_blocks (bitm ?st0)" if m: "map_of (index st) k' = Some h'" "k' \<noteq> k" for k' h'
    proof -
      have "blocks (bsiz st) h' \<subseteq> taken_blocks (bitm st)" "blocks (bsiz st) h' \<inter> blocks (bsiz st) h0 = {}"
        using ok Some m unfolding chunk_ok_def records_ok_def by blast+
      then show ?thesis unfolding mark_blocks by auto
    qed
    moreover have "32 < length (bitm ?st0)"
      using ok mark_blocks(2) [of st] unfolding chunk_ok_def by (meson less_le_trans)
    ultimately have "good_place st k \<lparr>off = BLOCK_OFFSET (bsiz st1) lbn, siz = sz\<rparr> st1"
      by (intro alloc_good_place [OF ok _ _ _ al sz]) (simp_all add: same_disk_def)
    then show ?thesis using r Some True al by (auto simp: put_place_def Let_def)
  next
    case False
    then have h: "h = h0\<lparr>siz := sz\<rparr>" "st' = st" using r Some by (simp_all add: put_place_def Let_def)
    then have "blocks (bsiz st) h \<subseteq> blocks (bsiz st) h0" using False by (auto simp: blocks_def)
    moreover have "bsiz st dvd off h0" "blocks (bsiz st) h0 \<subseteq> taken_blocks (bitm st)" "32 < length (bitm st)"
      using ok Some unfolding chunk_ok_def records_ok_def by blast+
    moreover have "blocks (bsiz st) h' \<subseteq> taken_blocks (bitm st) \<and> blocks (bsiz st) h' \<inter> blocks (bsiz st) h0 = {}"
      if "map_of (index st) k' = Some h'" "k' \<noteq> k" for k' h'
      using ok Some that unfolding chunk_ok_def records_ok_def by blast
    ultimately show ?thesis using h unfolding good_place_def same_disk_def by (simp, blast)
  qed
qed

subsection \<open>Writes\<close>

lemma fflush_cases: "fflush f = (ok, f') \<Longrightarrow> bytes f' = bytes f \<and> pos f' = pos f \<and> (healthy_file f \<longrightarrow> ok \<and> healthy_file f')"
  by (auto simp: fflush_def healthy_next healthy_fails)

lemma put_object_ok:
  assumes "put_object ob p st = (0, st')" "wf_obj ob"
  obtains f where "st' = st\<lparr>dbf := f\<rparr>" "bytes f = write_at p (obj_image ob) (bytes (dbf st))"
    "healthy_file (dbf st) \<longrightarrow> healthy_file f"
proof (cases rule: fseek_cases [of p "dbf st"])
  case (bad f)
  then show thesis using assms(1) by (simp add: put_object_def)
next
  case (ok f)
  obtain rc f1 ok2 f2 where s: "objtoFILE ob f = (rc, f1)" "fflush f1 = (ok2, f2)" by (metis prod.collapse)
  then have "rc = 0" "st' = st\<lparr>dbf := f2\<rparr>"
    using assms(1) ok(1) by (auto simp: put_object_def split: if_splits)
  moreover from this have "wrote (obj_image ob) f f1" using objtoFILE_wrote [OF assms(2)] s by simp
  ultimately show thesis using that fflush_cases [OF s(2)] ok by (auto simp: wrote_def read_only_def)
qed

lemma put_object_healthy:
  assumes "wf_obj ob" "healthy_file (dbf st)"
  shows "fst (put_object ob p st) = 0"
proof (cases rule: fseek_cases [of p "dbf st"])
  case (bad f)
  then show ?thesis using assms by simp
next
  case (ok f)
  then have h: "healthy_file f" using assms by (simp add: read_only_def)
  obtain f1 where f1: "objtoFILE ob f = (0, f1)" using objtoFILE_healthy [OF assms(1) h] by (metis prod.collapse)
  then have "healthy_file f1" using objtoFILE_wrote [OF assms(1) f1] h by (simp add: wrote_def)
  then show ?thesis using ok f1 by (simp add: put_object_def fflush_def healthy_fails)
qed

lemma dbm_faultless: "chunk_faultless st \<Longrightarrow> \<not> dbm_fails st"
  by (cases "dbm_faults st") (auto simp: chunk_faultless_def dbm_fails_def)

lemma tl_faults: "True \<notin> set xs \<Longrightarrow> True \<notin> set (tl xs)"
  by (cases xs) auto

lemma nat_obj_siz: "wf_obj ob \<Longrightarrow> nat (obj_siz ob) = length (obj_image ob)"
  by (simp add: obj_siz_image)

lemma put_laws:
  assumes ok: "chunk_ok st" and wf: "wf_obj ob" and nm: "name ob = n" and r: "dddb_put ob n st = (0, st')"
  shows "chunk_ok st' \<and> chunk_contents st' = (chunk_contents st)(n \<mapsto> ob) \<and>
    (chunk_faultless st \<longrightarrow> chunk_faultless st')"
proof -
  let ?k = "int_bytes n" and ?M = "map_of (index st)"
  have init: "db_initted st" "0 < bsiz st" using ok by (simp_all add: chunk_ok_def)
  obtain h st1 where pl: "put_place (length (obj_image ob)) (?M ?k) st = (h, st1)" by (metis prod.collapse)
  have good: "good_place st ?k h st1" and h: "siz h = length (obj_image ob)"
    using put_place_good [OF ok _ pl] obj_image_length [of ob] by auto
  have sd: "same_disk st st1" and len: "32 < length (bitm st1)" and dvd: "bsiz st dvd off h"
    and own: "blocks (bsiz st) h \<subseteq> taken_blocks (bitm st1)"
    and others: "\<And>k' h'. ?M k' = Some h' \<Longrightarrow> k' \<noteq> ?k \<Longrightarrow>
        blocks (bsiz st) h' \<subseteq> taken_blocks (bitm st1) \<and> blocks (bsiz st) h' \<inter> blocks (bsiz st) h = {}"
    using good unfolding good_place_def by blast+
  define st2 where "st2 = st1\<lparr>dbm_faults := tl (dbm_faults st1), index := AList.update ?k h (index st1)\<rparr>"
  have "put_object ob (off h) st2 = (0, st')" "\<not> dbm_fails st1"
    using r init pl wf nat_obj_siz [OF wf]
    by (auto simp: dddb_put_def dbm_fetch_def dbm_store_def st2_def split: if_splits)
  then obtain f where f0: "st' = st2\<lparr>dbf := f\<rparr>" "bytes f = write_at (off h) (obj_image ob) (bytes (dbf st2))"
      "healthy_file (dbf st2) \<longrightarrow> healthy_file f"
    by (elim put_object_ok [OF _ wf])
  have "dbf st2 = dbf st" using sd by (simp add: st2_def same_disk_def)
  note f = f0 [unfolded this]
  have M': "map_of (index st') = ?M(?k \<mapsto> h)" using f(1) sd by (simp add: st2_def same_disk_def update_conv')
  have fields: "bsiz st' = bsiz st" "bitm st' = bitm st1" "db_initted st'" "dbf st' = f" "dbm_faults st' = tl (dbm_faults st)"
    using f(1) sd init by (simp_all add: st2_def same_disk_def)
  have rec: "records_ok (bsiz st) (bitm st) (bytes (dbf st)) ?M" using ok by (simp add: chunk_ok_def)
  have ok': "chunk_ok st'"
    using records_install [OF rec init(2) dvd own h wf _ others] nm init len fields f(2) M'
    by (simp add: chunk_ok_def)
  have "chunk_contents st' m = ((chunk_contents st)(n \<mapsto> ob)) m" for m
  proof (cases "m = n")
    case True
    have "stored (bytes (dbf st')) ?k h ob"
      using wf nm h f(2) fields write_at_same [of "obj_image ob" "off h"] by (simp add: stored_def)
    then show ?thesis using stored_contents [of st' n h ob] M' True by simp
  next
    case False
    then have kne: "int_bytes m \<noteq> ?k" by simp
    show ?thesis
    proof (cases "?M (int_bytes m)")
      case None
      then have "map_of (index st') (int_bytes m) = None" using M' kne by simp
      then show ?thesis using None False by (simp add: chunk_none)
    next
      case (Some h')
      obtain ob' where ob': "stored (bytes (dbf st)) (int_bytes m) h' ob'" "chunk_contents st m = Some ob'"
        using chunk_record [OF ok Some] by blast
      have "bsiz st dvd off h'" using rec Some by (simp add: records_ok_def)
      then have "stored (bytes (dbf st')) (int_bytes m) h' ob'"
        using stored_install [OF init(2) dvd h ob'(1)] others [OF Some kne] f(2) fields by simp
      then show ?thesis using stored_contents [of st' m h' ob'] M' kne Some ob'(2) False by simp
    qed
  qed
  then have "chunk_contents st' = (chunk_contents st)(n \<mapsto> ob)" by blast
  moreover have "chunk_faultless st \<longrightarrow> chunk_faultless st'"
    using f(3) fields tl_faults by (simp add: chunk_faultless_def)
  ultimately show ?thesis using ok' by blast
qed

lemma put_succeeds:
  assumes ok: "chunk_ok st" and wf: "wf_obj ob" and fl: "chunk_faultless st"
  shows "fst (dddb_put ob n st) = 0"
proof -
  obtain h st1 where pl: "put_place (length (obj_image ob)) (map_of (index st) (int_bytes n)) st = (h, st1)"
    by (metis prod.collapse)
  have "good_place st (int_bytes n) h st1"
    using put_place_good [OF ok _ pl] obj_image_length [of ob] by auto
  then have sd: "dbf st1 = dbf st" "dbm_faults st1 = dbm_faults st" by (auto simp: good_place_def same_disk_def)
  then have nf: "\<not> dbm_fails st1" using dbm_faultless [OF fl] by (simp add: dbm_fails_def)
  have "healthy_file (dbf st1)" using fl sd by (simp add: chunk_faultless_def)
  then show ?thesis
    using ok pl nf nat_obj_siz [OF wf] put_object_healthy [OF wf]
    by (simp add: dddb_put_def dbm_fetch_def dbm_store_def chunk_ok_def)
qed

subsection \<open>Deletion\<close>

text \<open>The bytes of the file after \<open>dddb_del\<close>: \<open>delobj\<close> is written over the object or nothing is.\<close>

lemma fwrite_bytes:
  "s \<noteq> [] \<Longrightarrow> bytes (snd (fwrite s f)) \<in> {bytes f, write_at (pos f) s (bytes f)} \<and>
     (healthy_file f \<longrightarrow> healthy_file (snd (fwrite s f)))"
  by (simp add: fwrite_def healthy_next)

lemma del_ok:
  assumes ok: "chunk_ok st" and M: "map_of (index st) (int_bytes n) = Some h" and r: "dddb_del n st = (0, st')"
  obtains f where "map_of (index st') = (map_of (index st))(int_bytes n := None)" "dbf st' = f"
    "bytes f \<in> {bytes (dbf st), write_at (off h) ''delobj'' (bytes (dbf st))}"
    "healthy_file (dbf st) \<longrightarrow> healthy_file f" "bsiz st' = bsiz st" "db_initted st'"
    "taken_blocks (bitm st') = taken_blocks (bitm st) - blocks (bsiz st) h"
    "length (bitm st) \<le> length (bitm st')" "dbm_faults st' = tl (dbm_faults st)"
proof -
  have init: "db_initted st" using ok by (simp add: chunk_ok_def)
  define st1 where "st1 = st\<lparr>dbm_faults := tl (dbm_faults st), index := AList.delete (int_bytes n) (index st)\<rparr>"
  define st2 where "st2 = dddb_mark (LOGICAL_BLOCK (bsiz st1) (off h)) (siz h) False st1"
  have st2: "map_of (index st2) = (map_of (index st))(int_bytes n := None)" "dbf st2 = dbf st" "bsiz st2 = bsiz st"
      "db_initted st2" "taken_blocks (bitm st2) = taken_blocks (bitm st) - blocks (bsiz st) h"
      "length (bitm st) \<le> length (bitm st2)" "dbm_faults st2 = tl (dbm_faults st)"
    using init mark_blocks(1) [of st1 h False] mark_blocks(2) [of st1]
    by (simp_all add: st2_def st1_def delete_conv')
  show thesis
  proof (cases rule: fseek_cases [of "off h" "dbf st"])
    case (bad f)
    then have "st' = st2\<lparr>dbf := f\<rparr>" using r init M st2(2)
      by (auto simp: dddb_del_def dbm_fetch_def dbm_delete_def st2_def st1_def split: if_splits)
    then show thesis using that [of f] st2 bad by (simp add: read_only_def)
  next
    case (ok f)
    let ?g = "snd (fflush (snd (fwrite ''delobj'' f)))"
    have "st' = st2\<lparr>dbf := ?g\<rparr>" using r init M ok st2(2)
      by (auto simp: dddb_del_def dbm_fetch_def dbm_delete_def st2_def st1_def Let_def split: if_splits)
    moreover have "bytes ?g \<in> {bytes f, write_at (off h) ''delobj'' (bytes f)} \<and> (healthy_file f \<longrightarrow> healthy_file ?g)"
      using fwrite_bytes [of "''delobj''" f] ok(3) by (simp add: fflush_def healthy_next)
    ultimately show thesis using that [of ?g] st2 ok by (simp add: read_only_def)
  qed
qed

lemma del_laws:
  assumes ok: "chunk_ok st" and r: "dddb_del n st = (0, st')"
  shows "chunk_ok st' \<and> chunk_contents st' = (chunk_contents st)(n := None) \<and>
    (chunk_faultless st \<longrightarrow> chunk_faultless st')"
proof (cases "map_of (index st) (int_bytes n)")
  case None
  then have "st' = st" using r ok by (simp add: dddb_del_def dbm_fetch_def chunk_ok_def)
  then show ?thesis using ok chunk_none [OF None] by auto
next
  case (Some h)
  let ?k = "int_bytes n" and ?M = "map_of (index st)"
  obtain f where f: "map_of (index st') = ?M(?k := None)" "dbf st' = f"
    "bytes f \<in> {bytes (dbf st), write_at (off h) ''delobj'' (bytes (dbf st))}"
    "healthy_file (dbf st) \<longrightarrow> healthy_file f" "bsiz st' = bsiz st" "db_initted st'"
    "taken_blocks (bitm st') = taken_blocks (bitm st) - blocks (bsiz st) h"
    "length (bitm st) \<le> length (bitm st')" "dbm_faults st' = tl (dbm_faults st)"
    using del_ok [OF ok Some r] by blast
  have bs: "0 < bsiz st" and len: "32 < length (bitm st)" and rec: "records_ok (bsiz st) (bitm st) (bytes (dbf st)) ?M"
    using ok by (simp_all add: chunk_ok_def)
  obtain ob where ob: "stored (bytes (dbf st)) ?k h ob" using chunk_record [OF ok Some] by blast
  have keep: "stored (bytes f) k' h' ob'"
    if k': "?M k' = Some h'" "k' \<noteq> ?k" and ob': "stored (bytes (dbf st)) k' h' ob'" for k' h' ob'
  proof -
    have "off h + siz h \<le> off h' \<or> off h' + siz h' \<le> off h"
    proof (rule blocks_bytes_apart [OF bs])
      show "bsiz st dvd off h" "bsiz st dvd off h'" using rec Some k' by (simp_all add: records_ok_def)
      show "0 < siz h" "0 < siz h'" using ob ob' by (simp_all add: stored_def)
      show "blocks (bsiz st) h \<inter> blocks (bsiz st) h' = {}" using rec Some k' by (simp add: records_ok_def)
    qed
    moreover have "8 \<le> siz h" using ob obj_image_length [of ob] by (simp add: stored_def)
    ultimately show ?thesis using f(3) ob' stored_write [OF ob', of "off h" "''delobj''"] by auto
  qed
  have "records_ok (bsiz st) (bitm st') (bytes f) (?M(?k := None))"
    unfolding records_ok_def
  proof (intro conjI allI impI)
    fix k' h' assume "(?M(?k := None)) k' = Some h'"
    then have k': "?M k' = Some h'" "k' \<noteq> ?k" by (auto split: if_splits)
    then obtain ob' where "stored (bytes (dbf st)) k' h' ob'" using rec unfolding records_ok_def by blast
    then show "\<exists>ob. stored (bytes f) k' h' ob" using keep [OF k'] by blast
    show "bsiz st dvd off h'" using rec k' unfolding records_ok_def by blast
    have "blocks (bsiz st) h' \<subseteq> taken_blocks (bitm st)" "blocks (bsiz st) h' \<inter> blocks (bsiz st) h = {}"
      using rec k' Some unfolding records_ok_def by blast+
    then show "blocks (bsiz st) h' \<subseteq> taken_blocks (bitm st')" unfolding f(7) by blast
  next
    fix k1 h1 k2 h2
    assume "(?M(?k := None)) k1 = Some h1" "(?M(?k := None)) k2 = Some h2" "k1 \<noteq> k2"
    then show "blocks (bsiz st) h1 \<inter> blocks (bsiz st) h2 = {}"
      using rec unfolding records_ok_def by (metis fun_upd_apply option.distinct(1))
  qed
  then have ok': "chunk_ok st'" using f bs len by (simp add: chunk_ok_def)
  have "chunk_contents st' m = ((chunk_contents st)(n := None)) m" for m
  proof (cases "m = n \<or> ?M (int_bytes m) = None")
    case True
    then have "map_of (index st') (int_bytes m) = None" using f(1) by auto
    then show ?thesis using True by (auto simp: chunk_none)
  next
    case False
    then obtain h' where h': "?M (int_bytes m) = Some h'" and mn: "int_bytes m \<noteq> ?k" by auto
    obtain ob' where ob': "stored (bytes (dbf st)) (int_bytes m) h' ob'" "chunk_contents st m = Some ob'"
      using chunk_record [OF ok h'] by blast
    have "map_of (index st') (int_bytes m) = Some h'" using f(1) h' mn by simp
    then show ?thesis using stored_contents [of st' m h' ob'] keep [OF h' mn ob'(1)] f(2) ob'(2) False by simp
  qed
  then have "chunk_contents st' = (chunk_contents st)(n := None)" by blast
  moreover have "chunk_faultless st \<longrightarrow> chunk_faultless st'"
    using f tl_faults by (simp add: chunk_faultless_def)
  ultimately show ?thesis using ok' by blast
qed

lemma del_succeeds:
  assumes "chunk_ok st" "chunk_faultless st"
  shows "fst (dddb_del n st) = 0"
  using assms dbm_faultless [OF assms(2)]
  by (auto simp: dddb_del_def dbm_fetch_def dbm_delete_def chunk_ok_def Let_def split: option.splits prod.splits bool.splits)

lemma chunk_contents_wf:
  assumes "chunk_ok st" "chunk_contents st n = Some ob"
  shows "wf_obj ob \<and> name ob = n"
proof (cases "map_of (index st) (int_bytes n)")
  case None
  then show ?thesis using assms(2) by (simp add: chunk_none)
next
  case (Some h)
  then obtain ob' where "stored (bytes (dbf st)) (int_bytes n) h ob'" "chunk_contents st n = Some ob'" "name ob' = n"
    by (rule chunk_record [OF assms(1)])
  then show ?thesis using assms(2) by (simp add: stored_def)
qed

definition dddb :: "store DB" where
  "dddb = \<lparr>DB_GET = dddb_get, DB_PUT = dddb_put, DB_DEL = dddb_del\<rparr>"

lemma dddb_simps [simp]: "DB_GET dddb = dddb_get" "DB_PUT dddb = dddb_put" "DB_DEL dddb = dddb_del"
  by (simp_all add: dddb_def)

interpretation chunk: chunk_store dddb chunk_ok chunk_contents chunk_faultless
proof (unfold_locales, goal_cases)
  case (1 s n r s') then show ?case by (auto dest: get_laws(1))
next
  case (2 s n r s') then show ?case using get_laws(2) [of s n r s'] by simp
next
  case (3 s ob n s') then show ?case using put_laws [of s ob n s'] by simp
next
  case (4 s ob n) then show ?case by (simp add: put_succeeds)
next
  case (5 s n s') then show ?case using del_laws [of s n s'] by simp
next
  case (6 s n) then show ?case by (simp add: del_succeeds)
next
  case (7 s n ob) then show ?case by (rule chunk_contents_wf)
qed

text \<open>The block size is set once; with the default one the same contract holds.\<close>

lemma alloc_bsiz: "dddb_alloc sz st = (lbn, st') \<Longrightarrow> bsiz st' = bsiz st"
  by (auto simp: dddb_alloc_def split: prod.splits)

lemma bsiz_kept:
  "bsiz (snd (dddb_get n st)) = bsiz st" "bsiz (snd (dddb_put ob n st)) = bsiz st" "bsiz (snd (dddb_del n st)) = bsiz st"
proof -
  show "bsiz (snd (dddb_get n st)) = bsiz st"
    by (simp add: dddb_get_def split: option.split prod.split bool.split)
  have pl: "put_place sz old st = (h, st') \<Longrightarrow> bsiz st' = bsiz st" for sz old h st'
    by (auto simp: put_place_def Let_def dest!: alloc_bsiz split: option.splits prod.splits if_splits)
  have wr: "dbm_store k h s = (b, s') \<Longrightarrow> bsiz s' = bsiz s" "bsiz (snd (put_object ob p s)) = bsiz s" for k h s b s' p
    by (auto simp: dbm_store_def put_object_def split: prod.split bool.split if_splits)
  show "bsiz (snd (dddb_put ob n st)) = bsiz st"
    by (auto simp: dddb_put_def wr(2) dest!: pl wr(1) split: prod.split bool.split)
  show "bsiz (snd (dddb_del n st)) = bsiz st"
    by (auto simp: dddb_del_def dbm_delete_def Let_def split: option.split prod.split bool.split)
qed

interpretation default: chunk_store dddb "\<lambda>st. chunk_ok st \<and> bsiz st = DDDB_BLOCK" chunk_contents chunk_faultless
proof (unfold_locales, goal_cases)
  case (1 s n r s') then show ?case by (auto dest: get_laws(1))
next
  case (2 s n r s') then show ?case using get_laws(2) [of s n r s'] bsiz_kept(1) [of n s] by simp
next
  case (3 s ob n s') then show ?case using put_laws [of s ob n s'] bsiz_kept(2) [of ob n s] by simp
next
  case (4 s ob n) then show ?case by (simp add: put_succeeds)
next
  case (5 s n s') then show ?case using del_laws [of s n s'] bsiz_kept(3) [of n s] by simp
next
  case (6 s n) then show ?case by (simp add: del_succeeds)
next
  case (7 s n ob) then show ?case using chunk_contents_wf by blast
qed

subsection \<open>Reopening the database\<close>

lemma init_loop_marks:
  "\<forall>k\<in>set ks. map_of (index st) k \<noteq> None \<Longrightarrow>
   \<exists>st'. init_loop ks st = (0, st') \<and> index st' = index st \<and> dbf st' = dbf st \<and> bsiz st' = bsiz st \<and>
     db_initted st' \<and> length (bitm st) \<le> length (bitm st') \<and>
     taken_blocks (bitm st') = taken_blocks (bitm st) \<union>
       (\<Union>k\<in>set ks. \<Union>h\<in>set_option (map_of (index st) k). blocks (bsiz st) h)"
proof (induction ks arbitrary: st)
  case (Cons k ks)
  then obtain h where h: "map_of (index st) k = Some h" by auto
  let ?st = "dddb_mark (LOGICAL_BLOCK (bsiz st) (off h)) (siz h) True st"
  obtain st' where "init_loop ks ?st = (0, st')" "index st' = index st" "dbf st' = dbf st" "bsiz st' = bsiz st"
      "db_initted st'" "length (bitm ?st) \<le> length (bitm st')"
      "taken_blocks (bitm st') = taken_blocks (bitm ?st) \<union>
       (\<Union>k\<in>set ks. \<Union>h\<in>set_option (map_of (index st) k). blocks (bsiz st) h)"
    using Cons.IH [of ?st] Cons.prems by auto
  then show ?case using h mark_blocks(1) [of st h True] order_trans [OF mark_blocks(2) [of st]]
    by (auto simp: dbm_fetch_def)
qed simp

definition all_open :: "opens \<Rightarrow> bool" where
  "all_open sys \<longleftrightarrow> chunk_opens sys \<and> dir_opens sys \<and> pag_opens sys \<and> dbm_opens sys \<and> stat_works sys"

lemma reopen_ok:
  assumes "chunk_ok st" "bsiz st = DDDB_BLOCK" "all_open sys"
  shows "\<exists>st'. dddb_init sys (dddb_var_init st) = (0, st') \<and> chunk_ok st' \<and>
    chunk_contents st' = chunk_contents st \<and>
    taken_blocks (bitm st') = (\<Union>h\<in>ran (map_of (index st)). blocks DDDB_BLOCK h)"
proof -
  let ?n = "LOGICAL_BLOCK DDDB_BLOCK (length (bytes (dbf st))) + DDDB_BITBLOCK"
  define st0 where "st0 = (dddb_var_init st)\<lparr>dbf_open := True, dbp_open := True, bitm := growbit ?n []\<rparr>"
  have "taken_blocks (bitm st0) = taken_blocks []" by (simp add: st0_def)
  then have st0: "index st0 = index st" "dbf st0 = dbf st" "bsiz st0 = DDDB_BLOCK" "taken_blocks (bitm st0) = {}"
    by (simp_all add: st0_def dddb_var_init_def taken_blocks_def bit_taken_def)
  have len: "32 < length (bitm st0)"
    using length_growbit(2) [of ?n "[]"] by (simp add: st0_def DDDB_BITBLOCK_def)
  have init: "dddb_init sys (dddb_var_init st) = init_loop (map fst (index st)) st0"
    using assms(3) by (simp add: dddb_init_def all_open_def Let_def st0_def dddb_var_init_def)
  obtain st' where st': "init_loop (map fst (index st)) st0 = (0, st')" "index st' = index st" "dbf st' = dbf st"
      "bsiz st' = DDDB_BLOCK" "db_initted st'" "length (bitm st0) \<le> length (bitm st')"
      "taken_blocks (bitm st') = (\<Union>k\<in>set (map fst (index st)). \<Union>h\<in>set_option (map_of (index st) k). blocks DDDB_BLOCK h)"
    using init_loop_marks [of "map fst (index st)" st0] st0 by (auto simp: map_of_eq_None_iff)
  have marked: "taken_blocks (bitm st') = (\<Union>h\<in>ran (map_of (index st)). blocks DDDB_BLOCK h)"
  proof -
    have "k \<in> fst ` set (index st)" if "map_of (index st) k = Some h" for k h
      using that by (metis map_of_eq_None_iff option.distinct(1))
    then show ?thesis unfolding st'(7) ran_def
      by (auto dest: map_of_SomeD intro!: rev_bexI [where x = "(_, _)"])
  qed
  have "records_ok DDDB_BLOCK (bitm st') (bytes (dbf st)) (map_of (index st))"
    using assms(1,2) marked unfolding chunk_ok_def records_ok_def by (auto simp: ran_def)
  then have "chunk_ok st'" using st' len by (simp add: chunk_ok_def DDDB_BLOCK_def)
  moreover have "chunk_contents st' = chunk_contents st" using st'(2,3)
    by (simp add: chunk_contents_def fun_eq_iff split: option.split)
  ultimately show ?thesis using init st'(1) marked by auto
qed

text \<open>
  C26: a server that starts on the files of a store that was in order opens them, holds the
  same objects, satisfies the invariant again, and has exactly the blocks of the recorded
  objects marked, so blocks that in-place shrinking had leaked are free again.
\<close>

theorem restart_keeps_objects:
  assumes "chunk_ok st" "bsiz st = DDDB_BLOCK" "all_open sys"
  shows "\<exists>st'. dddb_init sys (dddb_var_init st) = (0, st') \<and> chunk_ok st' \<and>
    chunk_contents st' = chunk_contents st \<and>
    taken_blocks (bitm st') = (\<Union>h\<in>ran (map_of (index st)). blocks DDDB_BLOCK h)"
  by (rule reopen_ok [OF assms])

subsection \<open>The store as a map\<close>

definition fresh_store :: store where
  "fresh_store = snd (dddb_init \<lparr>chunk_opens = True, dir_opens = True, pag_opens = True, dbm_opens = True, stat_works = True\<rparr>
     (dddb_var_init \<lparr>dbfile = None, bsiz = 0, db_initted = False, last_free = 0, index = [], dbp_open = False,
        dbm_faults = [], dbf = \<lparr>bytes = [], pos = 0, file_faults = []\<rparr>, dbf_open = False, bitm = []\<rparr>))"

lemma fresh_store_ok: "chunk_ok fresh_store" "chunk_faultless fresh_store" "chunk_contents fresh_store = Map.empty"
  "bsiz fresh_store = DDDB_BLOCK"
  by (simp_all add: fresh_store_def dddb_init_def dddb_var_init_def chunk_ok_def chunk_faultless_def healthy_file_def
      chunk_contents_def records_ok_def Let_def growbit_def DDDB_BITBLOCK_def DDDB_BLOCK_def LOGICAL_BLOCK_def fun_eq_iff)

text \<open>
  C23: on a disk without faults, any sequence of reads, writes of well-formed objects and
  deletions returns what the same sequence returns on a map from names to objects.
\<close>

theorem chunk_store_is_map:
  assumes "chunk_ok st" "chunk_faultless st" "list_all op_wf xs" "run_ops (db_step dddb) xs st = (rs, st')"
  shows "chunk_ok st' \<and> run_ops obj_map_step xs (chunk_contents st) = (rs, chunk_contents st')"
  using chunk.run_refines [OF assms] .

theorem chunk_store_is_map_witness:
  "fst (run_ops (db_step dddb) [Put sample_obj, Get 7, Del 7, Get 7] fresh_store) =
     [Inr 0, Inl (Some sample_obj), Inr 0, Inl None]"
proof -
  let ?xs = "[Put sample_obj, Get 7, Del 7, Get 7]"
  obtain rs st' where r: "run_ops (db_step dddb) ?xs fresh_store = (rs, st')" by (metis prod.collapse)
  have "list_all op_wf ?xs" by (simp add: op_wf_def wf_obj_def wf_attrib_def sample_obj_def)
  from chunk_store_is_map [OF fresh_store_ok(1,2) this r]
  have "rs = [Inr 0, Inl (Some sample_obj), Inr 0, Inl None]"
    by (simp add: fresh_store_ok(3) sample_obj_def Let_def)
  then show ?thesis by (simp only: r fst_conv)
qed

text \<open>
  C25: whatever faults the disk has, a \<open>dddb_put\<close> that returns 0 has stored exactly the object
  it was given: reading it without faults gives it back, every other object is unchanged and
  the invariant holds.
\<close>

theorem put_reports_truly:
  assumes "chunk_ok st" "wf_obj ob" "dddb_put ob (name ob) st = (0, st')"
  shows "chunk_ok st' \<and> chunk_contents st' = (chunk_contents st)(name ob \<mapsto> ob)"
  using put_laws [OF assms(1,2) refl assms(3)] by blast

theorem put_reports_truly_witness:
  "chunk_contents (snd (dddb_put sample_obj 7 fresh_store)) 7 = Some sample_obj"
proof -
  have wf: "wf_obj sample_obj" by (simp add: wf_obj_def wf_attrib_def sample_obj_def)
  have nm: "name sample_obj = 7" by (simp add: sample_obj_def)
  have "dddb_put sample_obj (name sample_obj) fresh_store = (0, snd (dddb_put sample_obj 7 fresh_store))"
    using put_succeeds [OF fresh_store_ok(1) wf fresh_store_ok(2)] nm by (metis prod.collapse)
  from put_reports_truly [OF fresh_store_ok(1) wf this] nm show ?thesis by simp
qed

theorem restart_keeps_objects_witness:
  "\<exists>st'. dddb_init \<lparr>chunk_opens = True, dir_opens = True, pag_opens = True, dbm_opens = True, stat_works = True\<rparr>
     (dddb_var_init fresh_store) = (0, st') \<and> chunk_ok st'"
  using restart_keeps_objects [OF fresh_store_ok(1,4), of "\<lparr>chunk_opens = True, dir_opens = True, pag_opens = True, dbm_opens = True, stat_works = True\<rparr>"]
  by (auto simp: all_open_def)

text \<open>
  C27: \<open>dddb_alloc\<close> returns the start of a run of as many blocks as the object needs, none of
  which was taken; afterwards exactly these are taken as well, and the next search starts
  at the last of them.
\<close>

theorem dddb_alloc_free_run:
  assumes "0 < bsiz st" "0 < sz" "32 < length (bitm st)" "dddb_alloc sz st = (lbn, st')"
  shows "{lbn..<lbn + BLOCKS_NEEDED (bsiz st) sz} \<inter> taken_blocks (bitm st) = {} \<and>
    taken_blocks (bitm st') = taken_blocks (bitm st) \<union> {lbn..<lbn + BLOCKS_NEEDED (bsiz st) sz} \<and>
    last_free st' = lbn + BLOCKS_NEEDED (bsiz st) sz - 1"
proof -
  let ?n = "BLOCKS_NEEDED (bsiz st) sz"
  obtain slbn l bm where r: "alloc_outer ?n (bitm st) (last_free st) False = (slbn, l, bm)"
    by (metis prod.collapse)
  moreover have "free_run ?n (bitm st) (alloc_outer ?n (bitm st) (last_free st) False)"
    by (rule alloc_free_run(1) [OF BLOCKS_NEEDED_pos [OF assms(1,2)] assms(3)])
  ultimately show ?thesis using assms(4) by (auto simp: dddb_alloc_def free_run_def)
qed

theorem dddb_alloc_free_run_witness:
  "last_free (snd (dddb_alloc 300 fresh_store)) = fst (dddb_alloc 300 fresh_store) + 1"
proof -
  obtain lbn st' where r: "dddb_alloc 300 fresh_store = (lbn, st')" by (metis prod.collapse)
  have "0 < bsiz fresh_store" "32 < length (bitm fresh_store)" using fresh_store_ok(1) by (simp_all add: chunk_ok_def)
  from dddb_alloc_free_run [OF this(1) _ this(2) r] show ?thesis
    by (simp add: r fresh_store_ok(4) DDDB_BLOCK_def BLOCKS_NEEDED_def)
qed

end
