(* ===== verification/Udb_ocache.thy ===== *)
theory Udb_ocache
  imports Chunk_Store
begin

section \<open>The object cache (src/Server/src/udb_ocache.c)\<close>

text \<open>
  The layer above sees a cache of attributes; it is a cache of objects, hashed on the
  object number into \<open>cwidth\<close> buckets. A bucket has four chains: objects used since the
  last reset (\<open>active\<close>), those of them that were changed (\<open>mactive\<close>), and the two chains of
  objects not used since (\<open>old\<close>, \<open>mold\<close>). A chain is the list of its entries from \<open>head\<close> to
  \<open>tail\<close>. \<open>pool\<close> tells the entries that \<open>cache_init\<close> allocated in one block, which
  \<open>cache_trim\<close> recognises by their address and never frees.

  The store is reached through a \<open>DB\<close> (the macros of hdrs/udb_defs.h); every function takes
  the state \<open>s\<close> of the store and returns the new one. \<open>mudconf.cache_trim\<close> is the argument
  \<open>conf_trim\<close>. \<open>malloc\<close> succeeds; freed memory and the time of the last reset are left out.
  The counters do not influence any result; they count without wrapping.
\<close>

subsection \<open>Data\<close>

record Aname =
  object :: Objname
  anum :: "32 word"

record Cache =
  op :: "Obj option"
  pool :: bool

record CacheLst =
  active :: "Cache list"
  mactive :: "Cache list"
  old :: "Cache list"
  mold :: "Cache list"
  lcount :: int

record cache_stats =
  cs_writes :: nat
  cs_reads :: nat
  cs_dbreads :: nat
  cs_dbwrites :: nat
  cs_dels :: nat
  cs_checks :: nat
  cs_rhits :: nat
  cs_ahits :: nat
  cs_whits :: nat
  cs_fails :: nat
  cs_resets :: nat
  cs_syncs :: nat
  cs_objects :: int

record ocache =
  cwidth :: nat
  cdepth :: nat
  sys_c :: "CacheLst list option"
  cache_initted :: bool
  cache_frozen :: bool
  cache_busy :: bool
  stats :: cache_stats

definition CACHE_DEPTH :: nat where
  "CACHE_DEPTH = 10"

definition CACHE_WIDTH :: nat where
  "CACHE_WIDTH = 129"

definition NAMECMP :: "Aname \<Rightarrow> Cache \<Rightarrow> bool" where
  "NAMECMP nam cp = (case op cp of None \<Rightarrow> False | Some ob \<Rightarrow> name ob = object nam)"

subsection \<open>Attributes within an object\<close>

definition get_attrib :: "Aname \<Rightarrow> Obj \<Rightarrow> string option" where
  "get_attrib anam obj = map_option data (find (\<lambda>a. attrnum a = anum anam) (attrs obj))"

definition ATTR_SIZE :: "string \<Rightarrow> int" where
  "ATTR_SIZE a = int (length a) + 1"

definition new_attrib :: "32 word \<Rightarrow> string \<Rightarrow> Attrib" where
  "new_attrib n val = \<lparr>attrnum = n, asize = ATTR_SIZE val, data = val @ [NUL]\<rparr>"

text \<open>The loop that replaces the value of the first attribute with the number; \<open>None\<close> when there is none.\<close>

fun replace_attrib :: "32 word \<Rightarrow> string \<Rightarrow> Attrib list \<Rightarrow> Attrib list option" where
  "replace_attrib n val [] = None"
| "replace_attrib n val (a # as) =
     (if attrnum a = n then Some (a\<lparr>data := val @ [NUL], asize := ATTR_SIZE val\<rparr> # as)
      else map_option ((#) a) (replace_attrib n val as))"

definition set_attrib :: "Aname \<Rightarrow> Obj \<Rightarrow> string \<Rightarrow> Obj" where
  "set_attrib anam obj val =
     (case atrs obj of
        None \<Rightarrow> obj\<lparr>atrs := Some [new_attrib (anum anam) val], at_count := 1\<rparr>
      | Some _ \<Rightarrow>
          (case replace_attrib (anum anam) val (attrs obj) of
             Some as \<Rightarrow> obj\<lparr>atrs := Some as\<rparr>
           | None \<Rightarrow> obj\<lparr>atrs := Some (attrs obj @ [new_attrib (anum anam) val]), at_count := at_count obj + 1\<rparr>))"

fun remove_attrib :: "32 word \<Rightarrow> Attrib list \<Rightarrow> Attrib list option" where
  "remove_attrib n [] = None"
| "remove_attrib n (a # as) =
     (if attrnum a = n then Some as else map_option ((#) a) (remove_attrib n as))"

text \<open>A negative \<open>at_count\<close>, on which the code aborts, does not occur in a well-formed object.\<close>

definition del_attrib :: "Aname \<Rightarrow> Obj \<Rightarrow> Obj" where
  "del_attrib anam obj =
     (if at_count obj = 0 \<or> atrs obj = None then obj
      else case remove_attrib (anum anam) (attrs obj) of
             None \<Rightarrow> obj
           | Some as \<Rightarrow> obj\<lparr>atrs := Some as, at_count := at_count obj - 1\<rparr>)"

subsection \<open>Chains and buckets\<close>

text \<open>The first entry of a chain that satisfies a test, and the chain after \<open>DEQUEUE\<close> has taken it out.\<close>

fun dequeue :: "(Cache \<Rightarrow> bool) \<Rightarrow> Cache list \<Rightarrow> (Cache \<times> Cache list) option" where
  "dequeue P [] = None"
| "dequeue P (cp # cps) =
     (if P cp then Some (cp, cps) else map_option (\<lambda>(x, xs). (x, cp # xs)) (dequeue P cps))"

definition bucket_of :: "ocache \<Rightarrow> Aname \<Rightarrow> nat" where
  "bucket_of c nam = unat (object nam) mod cwidth c"

definition lst :: "ocache \<Rightarrow> nat \<Rightarrow> CacheLst" where
  "lst c hv = (case sys_c c of Some ls \<Rightarrow> ls ! hv | None \<Rightarrow> \<lparr>active = [], mactive = [], old = [], mold = [], lcount = 0\<rparr>)"

definition set_lst :: "nat \<Rightarrow> CacheLst \<Rightarrow> ocache \<Rightarrow> ocache" where
  "set_lst hv sp c = c\<lparr>sys_c := map_option (\<lambda>ls. ls[hv := sp]) (sys_c c)\<rparr>"

definition tally :: "(cache_stats \<Rightarrow> cache_stats) \<Rightarrow> ocache \<Rightarrow> ocache" where
  "tally f c = c\<lparr>stats := f (stats c)\<rparr>"

subsection \<open>Set-up\<close>

definition cache_var_init :: "ocache \<Rightarrow> ocache" where
  "cache_var_init c =
     c\<lparr>cwidth := CACHE_WIDTH, cdepth := CACHE_DEPTH, cache_initted := False, cache_frozen := False,
       cache_busy := False, sys_c := None,
       stats := (stats c)\<lparr>cs_writes := 0, cs_reads := 0, cs_dbreads := 0, cs_dbwrites := 0, cs_dels := 0,
         cs_checks := 0, cs_rhits := 0, cs_ahits := 0, cs_whits := 0, cs_fails := 0, cs_syncs := 0,
         cs_objects := 0\<rparr>\<rparr>"

definition empty_lst :: "nat \<Rightarrow> CacheLst" where
  "empty_lst depth =
     \<lparr>active = [], mactive = [], old = replicate depth \<lparr>op = None, pool = True\<rparr>, mold = [], lcount = int depth\<rparr>"

definition cache_init :: "nat \<Rightarrow> nat \<Rightarrow> ocache \<Rightarrow> int \<times> ocache" where
  "cache_init width depth c =
     (if cache_initted c \<or> sys_c c \<noteq> None then (0, c)
      else let c1 = c\<lparr>cwidth := (if width \<noteq> 0 then width else cwidth c),
                      cdepth := (if depth \<noteq> 0 then depth else cdepth c)\<rparr>
           in (0, tally (cs_objects_update (\<lambda>n. n + int (cwidth c1 * cdepth c1)))
                 (c1\<lparr>sys_c := Some (replicate (cwidth c1) (empty_lst (cdepth c1))), cache_initted := True\<rparr>)))"

text \<open>\<open>cache_repl\<close> frees the object of an entry and hangs another one on it.\<close>

definition cache_repl :: "Cache \<Rightarrow> Obj option \<Rightarrow> Cache" where
  "cache_repl cp new = cp\<lparr>op := new\<rparr>"

subsection \<open>Trimming and resetting\<close>

definition cache_trim :: "CacheLst \<Rightarrow> ocache \<Rightarrow> CacheLst \<times> ocache" where
  "cache_trim sp c =
     (let gone = int (length (filter (\<lambda>cp. \<not> pool cp) (old sp)))
      in (sp\<lparr>old := filter pool (old sp), lcount := lcount sp - gone\<rparr>,
          tally (cs_objects_update (\<lambda>n. n - gone)) c))"

definition reset_lst :: "bool \<Rightarrow> CacheLst \<Rightarrow> CacheLst" where
  "reset_lst busy sp =
     (let sp1 = sp\<lparr>old := active sp @ old sp, active := []\<rparr>
      in if busy then sp1 else sp1\<lparr>mold := mactive sp1 @ mold sp1, mactive := []\<rparr>)"

fun reset_loop :: "bool \<Rightarrow> CacheLst list \<Rightarrow> ocache \<Rightarrow> CacheLst list \<times> ocache" where
  "reset_loop trim [] c = ([], c)"
| "reset_loop trim (sp # sps) c =
     (let sp1 = reset_lst (cache_busy c) sp;
          (sp2, c1) = (if trim then cache_trim sp1 c else (sp1, c));
          (sps', c2) = reset_loop trim sps c1
      in (sp2 # sps', c2))"

definition cache_reset :: "bool \<Rightarrow> bool \<Rightarrow> ocache \<Rightarrow> ocache" where
  "cache_reset conf_trim trim c =
     (case sys_c c of
        None \<Rightarrow> c
      | Some ls \<Rightarrow>
          if \<not> cache_initted c then c
          else case reset_loop (trim \<and> conf_trim) ls c of
                 (ls', c') \<Rightarrow> tally (cs_resets_update Suc) (c'\<lparr>sys_c := Some ls'\<rparr>))"

subsection \<open>Evicting and writing back\<close>

text \<open>
  Writing a changed object back: an object without attributes is deleted from the store.
  The boolean tells success.
\<close>

definition write_back :: "'s DB \<Rightarrow> Obj \<Rightarrow> ocache \<Rightarrow> 's \<Rightarrow> bool \<times> ocache \<times> 's" where
  "write_back db ob c s =
     (if at_count ob = 0
      then case DB_DEL db (name ob) s of
             (rc, s') \<Rightarrow> if rc \<noteq> 0 then (False, c, s') else (True, tally (cs_dels_update Suc) c, s')
      else case DB_PUT db ob (name ob) s of
             (rc, s') \<Rightarrow> if rc \<noteq> 0 then (False, c, s') else (True, tally (cs_dbwrites_update Suc) c, s'))"

text \<open>
  \<open>get_free_entry\<close> returns the entry, the bucket without it, the counters and the store. The
  objects of the modified chains are never NULL.
\<close>

definition get_free_entry ::
  "'s DB \<Rightarrow> CacheLst \<Rightarrow> ocache \<Rightarrow> 's \<Rightarrow> Cache option \<times> CacheLst \<times> ocache \<times> 's" where
  "get_free_entry db sp c s =
     (if old sp = [] then
        (if \<not> cache_busy c \<and> \<not> cache_frozen c \<and> mold sp \<noteq> [] then
           (let cp = last (mold sp); sp1 = sp\<lparr>mold := butlast (mold sp)\<rparr>
            in case op cp of
                 None \<Rightarrow> (None, sp1, c, s)
               | Some ob \<Rightarrow>
                   (case write_back db ob c s of
                      (ok, c1, s1) \<Rightarrow> (if ok then Some (cache_repl cp None) else None, sp1, c1, s1)))
         else (Some \<lparr>op = None, pool = False\<rparr>, sp\<lparr>lcount := lcount sp + 1\<rparr>,
               tally (cs_objects_update (\<lambda>n. n + 1)) c, s))
      else (Some (cache_repl (last (old sp)) None), sp\<lparr>old := butlast (old sp)\<rparr>, c, s))"

fun cache_write :: "'s DB \<Rightarrow> Cache list \<Rightarrow> ocache \<Rightarrow> 's \<Rightarrow> int \<times> ocache \<times> 's" where
  "cache_write db [] c s = (0, c, s)"
| "cache_write db (cp # cps) c s =
     (case op cp of
        None \<Rightarrow> (1, c, s)
      | Some ob \<Rightarrow>
          (case write_back db ob c s of
             (ok, c1, s1) \<Rightarrow> if ok then cache_write db cps c1 s1 else (1, c1, s1)))"

definition cache_clean :: "CacheLst \<Rightarrow> CacheLst" where
  "cache_clean sp =
     sp\<lparr>old := old sp @ mold sp, mold := [], active := active sp @ mactive sp, mactive := []\<rparr>"

subsection \<open>Reading an attribute\<close>

definition cache_get :: "'s DB \<Rightarrow> Aname option \<Rightarrow> ocache \<Rightarrow> 's \<Rightarrow> string option \<times> ocache \<times> 's" where
  "cache_get db nam0 c0 s =
     (case nam0 of
        None \<Rightarrow> (None, c0, s)
      | Some nam \<Rightarrow>
          if \<not> cache_initted c0 then (None, c0, s)
          else
            let c = tally (cs_reads_update Suc) c0;
                hv = bucket_of c nam; sp = lst c hv;
                hit = (\<lambda>cp. case op cp of None \<Rightarrow> None | Some ob \<Rightarrow> get_attrib nam ob);
                chit = tally (cs_rhits_update Suc) c
            in case dequeue (NAMECMP nam) (active sp) of
                 Some (cp, _) \<Rightarrow> (hit cp, tally (cs_ahits_update Suc) chit, s)
               | None \<Rightarrow>
               case dequeue (NAMECMP nam) (mactive sp) of
                 Some (cp, _) \<Rightarrow> (hit cp, tally (cs_ahits_update Suc) chit, s)
               | None \<Rightarrow>
               case dequeue (NAMECMP nam) (old sp) of
                 Some (cp, rest) \<Rightarrow>
                   (hit cp, set_lst hv (sp\<lparr>old := rest, active := cp # active sp\<rparr>) chit, s)
               | None \<Rightarrow>
               case dequeue (NAMECMP nam) (mold sp) of
                 Some (cp, rest) \<Rightarrow>
                   (hit cp, set_lst hv (sp\<lparr>mold := rest, mactive := cp # mactive sp\<rparr>) chit, s)
               | None \<Rightarrow>
               case DB_GET db (object nam) s of
                 (None, s1) \<Rightarrow> (None, tally (cs_dbreads_update Suc) (tally (cs_fails_update Suc) c), s1)
               | (Some ret, s1) \<Rightarrow>
                   (case get_free_entry db sp (tally (cs_dbreads_update Suc) c) s1 of
                      (None, sp1, c1, s2) \<Rightarrow> (None, set_lst hv sp1 c1, s2)
                    | (Some cp, sp1, c1, s2) \<Rightarrow>
                        (get_attrib nam ret,
                         set_lst hv (sp1\<lparr>active := cp\<lparr>op := Some ret\<rparr> # active sp1\<rparr>) c1, s2)))"

subsection \<open>Changing an attribute\<close>

text \<open>
  \<open>cache_put\<close> and \<open>cache_del\<close> look for the object in the same four chains and leave it at the
  head of \<open>mactive\<close>, except when it is on that chain already. \<open>touch\<close> is this search, with the
  change that is made to the object; \<open>None\<close> is a miss.
\<close>

definition change :: "(Obj \<Rightarrow> Obj) \<Rightarrow> Cache \<Rightarrow> Cache" where
  "change f cp = cp\<lparr>op := map_option f (op cp)\<rparr>"

fun change_first :: "(Cache \<Rightarrow> bool) \<Rightarrow> (Obj \<Rightarrow> Obj) \<Rightarrow> Cache list \<Rightarrow> Cache list" where
  "change_first P f [] = []"
| "change_first P f (cp # cps) = (if P cp then change f cp # cps else cp # change_first P f cps)"

definition touch :: "Aname \<Rightarrow> (Obj \<Rightarrow> Obj) \<Rightarrow> CacheLst \<Rightarrow> CacheLst option" where
  "touch nam f sp =
     (case dequeue (NAMECMP nam) (active sp) of
        Some (cp, rest) \<Rightarrow> Some (sp\<lparr>active := rest, mactive := change f cp # mactive sp\<rparr>)
      | None \<Rightarrow>
      case dequeue (NAMECMP nam) (mactive sp) of
        Some _ \<Rightarrow> Some (sp\<lparr>mactive := change_first (NAMECMP nam) f (mactive sp)\<rparr>)
      | None \<Rightarrow>
      case dequeue (NAMECMP nam) (old sp) of
        Some (cp, rest) \<Rightarrow> Some (sp\<lparr>old := rest, mactive := change f cp # mactive sp\<rparr>)
      | None \<Rightarrow>
      case dequeue (NAMECMP nam) (mold sp) of
        Some (cp, rest) \<Rightarrow> Some (sp\<lparr>mold := rest, mactive := change f cp # mactive sp\<rparr>)
      | None \<Rightarrow> None)"

text \<open>The new object of \<open>cache_put\<close>; its count is not set before \<open>set_attrib\<close> stores 1 in it.\<close>

definition new_obj :: "Objname \<Rightarrow> Obj" where
  "new_obj n = \<lparr>name = n, at_count = 0, atrs = None\<rparr>"

definition cache_put :: "'s DB \<Rightarrow> Aname option \<Rightarrow> string option \<Rightarrow> ocache \<Rightarrow> 's \<Rightarrow> int \<times> ocache \<times> 's" where
  "cache_put db nam0 obj0 c0 s =
     (case (nam0, obj0) of
        (Some nam, Some obj) \<Rightarrow>
          if \<not> cache_initted c0 then (1, c0, s)
          else
            let c = tally (cs_writes_update Suc) c0;
                hv = bucket_of c nam; sp = lst c hv
            in case touch nam (\<lambda>ob. set_attrib nam ob obj) sp of
                 Some sp1 \<Rightarrow> (0, set_lst hv sp1 (tally (cs_whits_update Suc) c), s)
               | None \<Rightarrow>
                   (case DB_GET db (object nam) s of
                      (r, s1) \<Rightarrow>
                        let newobj = set_attrib nam (case r of None \<Rightarrow> new_obj (object nam) | Some ob \<Rightarrow> ob) obj
                        in case get_free_entry db sp c s1 of
                             (None, sp1, c1, s2) \<Rightarrow> (1, set_lst hv sp1 c1, s2)
                           | (Some cp, sp1, c1, s2) \<Rightarrow>
                               (0, set_lst hv (sp1\<lparr>mactive := cp\<lparr>op := Some newobj\<rparr> # mactive sp1\<rparr>) c1, s2))
      | _ \<Rightarrow> (1, c0, s))"

definition cache_del :: "'s DB \<Rightarrow> Aname option \<Rightarrow> ocache \<Rightarrow> 's \<Rightarrow> ocache \<times> 's" where
  "cache_del db nam0 c0 s =
     (case nam0 of
        None \<Rightarrow> (c0, s)
      | Some nam \<Rightarrow>
          if \<not> cache_initted c0 then (c0, s)
          else
            let c = tally (cs_dels_update Suc) c0;
                hv = bucket_of c nam; sp = lst c hv
            in case touch nam (del_attrib nam) sp of
                 Some sp1 \<Rightarrow> (set_lst hv sp1 c, s)
               | None \<Rightarrow>
                   (case DB_GET db (object nam) s of
                      (None, s1) \<Rightarrow> (c, s1)
                    | (Some ob, s1) \<Rightarrow>
                        (case get_free_entry db sp c s1 of
                           (None, sp1, c1, s2) \<Rightarrow> (set_lst hv sp1 c1, s2)
                         | (Some cp, sp1, c1, s2) \<Rightarrow>
                             (set_lst hv (sp1\<lparr>mactive := cp\<lparr>op := Some (del_attrib nam ob)\<rparr> # mactive sp1\<rparr>) c1, s2))))"

subsection \<open>Synchronising with the store\<close>

text \<open>The loop over the buckets: it stops at the first write that fails.\<close>

fun sync_loop :: "'s DB \<Rightarrow> bool \<Rightarrow> CacheLst list \<Rightarrow> ocache \<Rightarrow> 's \<Rightarrow> int \<times> CacheLst list \<times> ocache \<times> 's" where
  "sync_loop db conf_trim [] c s = (0, [], c, s)"
| "sync_loop db conf_trim (sp # sps) c s =
     (case cache_write db (mold sp) c s of
        (rc, c1, s1) \<Rightarrow>
          if rc \<noteq> 0 then (1, sp # sps, c1, s1)
          else case cache_write db (mactive sp) c1 s1 of
                 (rc, c2, s2) \<Rightarrow>
                   if rc \<noteq> 0 then (1, sp # sps, c2, s2)
                   else let sp1 = cache_clean sp;
                            (sp2, c3) = (if conf_trim then cache_trim sp1 c2 else (sp1, c2))
                        in case sync_loop db conf_trim sps c3 s2 of
                             (rc, sps', c4, s4) \<Rightarrow> (rc, sp2 # sps', c4, s4))"

definition cache_sync :: "'s DB \<Rightarrow> bool \<Rightarrow> ocache \<Rightarrow> 's \<Rightarrow> int \<times> ocache \<times> 's" where
  "cache_sync db conf_trim c0 s =
     (let c = tally (cs_syncs_update Suc) c0
      in if \<not> cache_initted c then (1, c, s)
         else if cache_frozen c then (0, c, s)
         else let c1 = cache_reset conf_trim False c
              in case sys_c c1 of
                   None \<Rightarrow> (0, c1, s)
                 | Some ls \<Rightarrow>
                     (case sync_loop db conf_trim ls c1 s of
                        (rc, ls', c2, s2) \<Rightarrow> (rc, c2\<lparr>sys_c := Some ls'\<rparr>, s2)))"

end
