(* ===== verification/Udb_ocache_Laws.thy ===== *)
theory Udb_ocache_Laws
  imports Udb_ocache Udb_ochunk_Laws "HOL-Library.Multiset"
begin

section \<open>The cache shows the attributes that were put into it\<close>

text \<open>
  An object stands for a map from attribute numbers to values (\<open>attr_map\<close>), and cache and
  store together for the map \<open>cview\<close> from objects and attribute numbers to values: what the
  modified chains hold, and what the store holds for all other objects.

  The invariant \<open>cache_inv\<close> says of every bucket that no object is cached twice, that cached
  objects are well formed and hash to the bucket, that the objects of the unmodified chains
  agree with the store, and that \<open>count\<close> is the number of entries. The lemmas in
  \<open>chunk_store\<close> show for each operation that it keeps the invariant and what it does to the
  view; they use only the contract of the store.
\<close>

subsection \<open>Objects as maps from attribute numbers\<close>

definition attr_map :: "Obj \<Rightarrow> 32 word \<Rightarrow> string option" where
  "attr_map ob n = map_option data (find (\<lambda>a. attrnum a = n) (attrs ob))"

definition wf_cobj :: "Obj \<Rightarrow> bool" where
  "wf_cobj ob \<longleftrightarrow> wf_obj ob \<and> distinct (map attrnum (attrs ob))"

definition saved :: "Obj \<Rightarrow> Obj option" where
  "saved ob = (if at_count ob = 0 then None else Some ob)"

definition disk :: "(Objname \<Rightarrow> Obj option) \<Rightarrow> Objname \<Rightarrow> 32 word \<Rightarrow> string option" where
  "disk C n = (case C n of None \<Rightarrow> Map.empty | Some ob \<Rightarrow> attr_map ob)"

lemma get_attrib_map: "get_attrib nam ob = attr_map ob (anum nam)"
  by (simp add: get_attrib_def attr_map_def)

lemma saved_disk: "wf_cobj ob \<Longrightarrow> (case saved ob of None \<Rightarrow> Map.empty | Some ob' \<Rightarrow> attr_map ob') = attr_map ob"
  using wf_obj_attrs [of ob] by (auto simp: saved_def wf_cobj_def attr_map_def fun_eq_iff)

lemma replace_attrib_None: "replace_attrib n v as = None \<longleftrightarrow> n \<notin> attrnum ` set as"
  by (induction as) auto

lemma replace_attrib_Some:
  "replace_attrib n v as = Some bs \<Longrightarrow> map attrnum bs = map attrnum as \<and> length bs = length as \<and>
     (list_all wf_attrib as \<longrightarrow> int (length v) + 1 < 2 ^ 31 \<longrightarrow> list_all wf_attrib bs) \<and>
     (\<forall>m. map_option data (find (\<lambda>a. attrnum a = m) bs) =
        (if m = n then Some (v @ [NUL]) else map_option data (find (\<lambda>a. attrnum a = m) as)))"
  by (induction as arbitrary: bs) (auto simp: wf_attrib_def ATTR_SIZE_def split: if_splits)

lemma remove_attrib_None: "remove_attrib n as = None \<longleftrightarrow> n \<notin> attrnum ` set as"
  by (induction as) auto

lemma find_None_attr: "n \<notin> attrnum ` set as \<Longrightarrow> find (\<lambda>a. attrnum a = n) as = None"
  by (induction as) auto

lemma remove_attrib_Some:
  "remove_attrib n as = Some bs \<Longrightarrow> length as = Suc (length bs) \<and> set bs \<subseteq> set as \<and>
     (distinct (map attrnum as) \<longrightarrow> distinct (map attrnum bs) \<and>
      (\<forall>m. find (\<lambda>a. attrnum a = m) bs = (if m = n then None else find (\<lambda>a. attrnum a = m) as)))"
proof (induction as arbitrary: bs)
  case (Cons a as)
  then show ?case
    by (cases "attrnum a = n") (auto simp: find_None_attr image_iff subset_iff)
qed simp

lemma find_append: "find P (xs @ ys) = (case find P xs of None \<Rightarrow> find P ys | Some x \<Rightarrow> Some x)"
  by (induction xs) auto

definition roomy :: "Obj \<Rightarrow> bool" where
  "roomy ob \<longleftrightarrow> at_count ob < 2 ^ 31 - 1"

lemma attrs_update:
  "attrs (ob\<lparr>atrs := Some bs, at_count := k\<rparr>) = take (nat k) bs"
  "attrs (ob\<lparr>atrs := Some bs\<rparr>) = take (nat (at_count ob)) bs"
  by (simp_all add: attrs_def)

lemma set_attrib_laws:
  assumes "wf_cobj ob" "roomy ob" "int (length v) + 1 < 2 ^ 31"
  shows "wf_cobj (set_attrib nam ob v) \<and> name (set_attrib nam ob v) = name ob \<and>
    attr_map (set_attrib nam ob v) = (attr_map ob)(anum nam \<mapsto> v @ [NUL])"
proof -
  have as: "atrs ob = Some (attrs ob)" "at_count ob = int (length (attrs ob))" "list_all wf_attrib (attrs ob)"
      "distinct (map attrnum (attrs ob))"
    using assms(1) wf_obj_attrs [of ob] by (auto simp: wf_cobj_def)
  show ?thesis
  proof (cases "replace_attrib (anum nam) v (attrs ob)")
    case None
    let ?as = "attrs ob @ [new_attrib (anum nam) v]"
    have ob': "set_attrib nam ob v = ob\<lparr>atrs := Some ?as, at_count := at_count ob + 1\<rparr>"
      using None as by (simp add: set_attrib_def)
    then have attrs': "attrs (set_attrib nam ob v) = ?as" using as(2) by (simp add: attrs_update)
    have "wf_obj (set_attrib nam ob v)"
      using as(2,3) assms(2,3) unfolding ob' by (simp add: wf_obj_def roomy_def new_attrib_def wf_attrib_def ATTR_SIZE_def)
    moreover have fresh: "anum nam \<notin> attrnum ` set (attrs ob)" using None by (simp add: replace_attrib_None)
    then have "distinct (map attrnum ?as)" using as(4) by (simp add: new_attrib_def)
    moreover have "attr_map (set_attrib nam ob v) m = ((attr_map ob)(anum nam \<mapsto> v @ [NUL])) m" for m
      using find_None_attr [OF fresh]
      by (simp add: attr_map_def attrs' find_append new_attrib_def split: option.split)
    ultimately show ?thesis using attrs' ob' by (simp add: wf_cobj_def fun_eq_iff)
  next
    case (Some bs)
    then have ob': "set_attrib nam ob v = ob\<lparr>atrs := Some bs\<rparr>" using as by (simp add: set_attrib_def)
    note r = replace_attrib_Some [OF Some]
    have attrs': "attrs (set_attrib nam ob v) = bs" using as(2) r ob' by (simp add: attrs_update)
    have "wf_obj (set_attrib nam ob v)"
      using as(2,3) assms r unfolding ob' by (simp add: wf_obj_def roomy_def)
    then show ?thesis using r as(4) attrs' ob' by (simp add: wf_cobj_def attr_map_def fun_eq_iff)
  qed
qed

lemma set_attrib_new:
  assumes "int (length v) + 1 < 2 ^ 31"
  shows "wf_cobj (set_attrib nam (new_obj n) v) \<and> name (set_attrib nam (new_obj n) v) = n \<and>
    attr_map (set_attrib nam (new_obj n) v) = [anum nam \<mapsto> v @ [NUL]]"
  using assms by (auto simp: set_attrib_def new_obj_def wf_cobj_def wf_obj_def attrs_def attr_map_def
      new_attrib_def wf_attrib_def ATTR_SIZE_def fun_eq_iff)

lemma del_attrib_laws:
  assumes "wf_cobj ob"
  shows "wf_cobj (del_attrib nam ob) \<and> name (del_attrib nam ob) = name ob \<and>
    attr_map (del_attrib nam ob) = (attr_map ob)(anum nam := None)"
proof -
  have as: "atrs ob = Some (attrs ob)" "at_count ob = int (length (attrs ob))" "list_all wf_attrib (attrs ob)"
      "distinct (map attrnum (attrs ob))" "at_count ob < 2 ^ 31"
    using assms wf_obj_attrs [of ob] by (auto simp: wf_cobj_def)
  show ?thesis
  proof (cases "remove_attrib (anum nam) (attrs ob)")
    case None
    then have "del_attrib nam ob = ob" by (simp add: del_attrib_def)
    moreover have "attr_map ob (anum nam) = None"
      using None find_None_attr by (simp add: remove_attrib_None attr_map_def)
    ultimately show ?thesis using assms by (auto simp: fun_eq_iff)
  next
    case (Some bs)
    note r = remove_attrib_Some [OF Some]
    have "at_count ob \<noteq> 0" using as r by simp
    then have ob': "del_attrib nam ob = ob\<lparr>atrs := Some bs, at_count := at_count ob - 1\<rparr>"
      using Some as by (simp add: del_attrib_def)
    have attrs': "attrs (del_attrib nam ob) = bs" using as(2) r ob' by (simp add: attrs_update)
    have "wf_obj (del_attrib nam ob)"
      using as(2,3,5) r unfolding ob' by (auto simp: wf_obj_def list_all_iff)
    then show ?thesis using r as(4) attrs' ob' by (auto simp: wf_cobj_def attr_map_def fun_eq_iff)
  qed
qed

subsection \<open>Buckets\<close>

fun objs :: "Cache list \<Rightarrow> Obj multiset" where
  "objs [] = {#}"
| "objs (cp # cps) = (case op cp of None \<Rightarrow> objs cps | Some ob \<Rightarrow> add_mset ob (objs cps))"

definition clean :: "CacheLst \<Rightarrow> Obj multiset" where
  "clean sp = objs (active sp) + objs (old sp)"

definition dirty :: "CacheLst \<Rightarrow> Obj multiset" where
  "dirty sp = objs (mactive sp) + objs (mold sp)"

definition solid :: "CacheLst \<Rightarrow> bool" where
  "solid sp \<longleftrightarrow> (\<forall>cp\<in>set (mactive sp) \<union> set (mold sp). op cp \<noteq> None)"

definition entries :: "CacheLst \<Rightarrow> nat" where
  "entries sp = length (active sp) + length (mactive sp) + length (old sp) + length (mold sp)"

definition uniq :: "Obj multiset \<Rightarrow> bool" where
  "uniq M \<longleftrightarrow> (\<forall>n. count (image_mset name M) n \<le> 1)"

definition dirty_obj :: "CacheLst \<Rightarrow> Objname \<Rightarrow> Obj option" where
  "dirty_obj sp n = (case find (NAMECMP \<lparr>object = n, anum = 0\<rparr>) (mactive sp @ mold sp) of
     None \<Rightarrow> None | Some cp \<Rightarrow> op cp)"

text \<open>What a bucket and the store below it say of an object.\<close>

definition bview :: "(Objname \<Rightarrow> Obj option) \<Rightarrow> CacheLst \<Rightarrow> Objname \<Rightarrow> 32 word \<Rightarrow> string option" where
  "bview C sp n = (case dirty_obj sp n of None \<Rightarrow> disk C n | Some ob \<Rightarrow> attr_map ob)"

lemma objs_append [simp]: "objs (xs @ ys) = objs xs + objs ys"
  by (induction xs) (auto split: option.split)

lemma objs_mem: "ob \<in># objs xs \<longleftrightarrow> (\<exists>cp\<in>set xs. op cp = Some ob)"
  by (induction xs) (auto split: option.split)

lemma count_add_le_1:
  fixes c :: "'b \<Rightarrow> nat"
  shows "(\<forall>n. (if a = n then Suc (c n) else c n) \<le> 1) \<longleftrightarrow> c a = 0 \<and> (\<forall>n. c n \<le> 1)"
  by (metis One_nat_def Suc_le_mono le_zero_eq zero_le)

lemma uniq_add [simp]: "uniq (add_mset ob M) \<longleftrightarrow> (\<forall>p\<in>#M. name p \<noteq> name ob) \<and> uniq M"
proof -
  let ?c = "count (image_mset name M)"
  have "uniq (add_mset ob M) \<longleftrightarrow> (\<forall>n. (if name ob = n then Suc (?c n) else ?c n) \<le> 1)"
    by (simp add: uniq_def)
  also have "\<dots> \<longleftrightarrow> ?c (name ob) = 0 \<and> uniq M"
    unfolding uniq_def by (rule count_add_le_1)
  also have "?c (name ob) = 0 \<longleftrightarrow> (\<forall>p\<in>#M. name p \<noteq> name ob)"
    unfolding count_eq_zero_iff by (auto simp: image_iff)
  finally show ?thesis .
qed

lemma uniq_empty [simp]: "uniq {#}"
  by (simp add: uniq_def)

lemma uniq_sub: "uniq (M + N) \<Longrightarrow> uniq M"
  by (auto simp: uniq_def) (metis add_leE)

lemma uniq_same: "uniq M \<Longrightarrow> p \<in># M \<Longrightarrow> q \<in># M \<Longrightarrow> name p = name q \<Longrightarrow> p = q"
  by (metis insert_DiffM insert_noteq_member uniq_add)

lemma dequeue_Some:
  "dequeue P xs = Some (cp, rest) \<Longrightarrow> P cp \<and> cp \<in> set xs \<and> objs xs = objs [cp] + objs rest \<and>
     length xs = Suc (length rest) \<and> set rest \<subseteq> set xs"
  by (induction xs arbitrary: rest) (auto split: if_splits option.splits)

lemma dequeue_None: "dequeue P xs = None \<longleftrightarrow> (\<forall>cp\<in>set xs. \<not> P cp)"
  by (induction xs) auto

lemma NAMECMP_iff: "NAMECMP nam cp \<longleftrightarrow> (\<exists>ob. op cp = Some ob \<and> name ob = object nam)"
  by (auto simp: NAMECMP_def split: option.splits)

lemma dequeue_name:
  assumes "dequeue (NAMECMP nam) xs = Some (cp, rest)"
  obtains ob where "op cp = Some ob" "name ob = object nam" "objs xs = add_mset ob (objs rest)"
    "length xs = Suc (length rest)" "set rest \<subseteq> set xs"
  using dequeue_Some [OF assms] by (auto simp: NAMECMP_iff)

lemma dequeue_miss: "dequeue (NAMECMP nam) xs = None \<Longrightarrow> ob \<in># objs xs \<Longrightarrow> name ob \<noteq> object nam"
  by (auto simp: dequeue_None NAMECMP_iff objs_mem)

lemma find_mem: "find P xs = Some x \<Longrightarrow> P x \<and> x \<in> set xs"
  by (induction xs) (auto split: if_splits)

lemma dirty_mem: "ob \<in># dirty sp \<longleftrightarrow> (\<exists>cp\<in>set (mactive sp @ mold sp). op cp = Some ob)"
  by (auto simp: dirty_def objs_mem)

lemma dirty_obj_Some:
  assumes "uniq (dirty sp)" "ob \<in># dirty sp"
  shows "dirty_obj sp (name ob) = Some ob"
proof (cases "find (NAMECMP \<lparr>object = name ob, anum = 0\<rparr>) (mactive sp @ mold sp)")
  case None
  then show ?thesis using assms(2) by (auto simp: find_None_iff NAMECMP_iff dirty_def objs_mem)
next
  case (Some cp)
  then have "NAMECMP \<lparr>object = name ob, anum = 0\<rparr> cp" "cp \<in> set (mactive sp @ mold sp)"
    using find_mem [OF Some] by simp_all
  then obtain p where "op cp = Some p" "name p = name ob" "p \<in># dirty sp"
    unfolding NAMECMP_iff dirty_mem by auto
  then show ?thesis using uniq_same [OF assms(1) _ assms(2)] Some by (auto simp: dirty_obj_def)
qed

lemma dirty_obj_None: "\<forall>ob\<in>#dirty sp. name ob \<noteq> n \<Longrightarrow> dirty_obj sp n = None"
proof -
  assume a: "\<forall>ob\<in>#dirty sp. name ob \<noteq> n"
  have "find (NAMECMP \<lparr>object = n, anum = 0\<rparr>) (mactive sp @ mold sp) = None"
    using a dirty_mem [of _ sp] by (fastforce simp: find_None_iff NAMECMP_iff)
  then show ?thesis by (simp add: dirty_obj_def)
qed

definition lst_ok :: "nat \<Rightarrow> nat \<Rightarrow> (Objname \<Rightarrow> Obj option) \<Rightarrow> CacheLst \<Rightarrow> bool" where
  "lst_ok W hv C sp \<longleftrightarrow> uniq (clean sp + dirty sp) \<and>
     (\<forall>ob\<in>#clean sp + dirty sp. wf_cobj ob \<and> unat (name ob) mod W = hv) \<and>
     (\<forall>ob\<in>#clean sp. attr_map ob = disk C (name ob)) \<and> solid sp \<and> lcount sp = int (entries sp)"

lemma lst_ok_dirty: "lst_ok W hv C sp \<Longrightarrow> uniq (dirty sp)"
  using uniq_sub [of "dirty sp" "clean sp"] by (simp add: lst_ok_def add.commute)

lemma bview_dirty: "lst_ok W hv C sp \<Longrightarrow> ob \<in># dirty sp \<Longrightarrow> bview D sp (name ob) = attr_map ob"
  using dirty_obj_Some [OF lst_ok_dirty] by (simp add: bview_def)

lemma bview_disk: "\<forall>ob\<in>#dirty sp. name ob \<noteq> n \<Longrightarrow> bview C sp n = disk C n"
  by (simp add: bview_def dirty_obj_None)

lemma bview_cached:
  assumes "lst_ok W hv C sp" "ob \<in># clean sp + dirty sp"
  shows "attr_map ob = bview C sp (name ob)"
proof (cases "ob \<in># dirty sp")
  case True
  then show ?thesis using bview_dirty [OF assms(1)] by simp
next
  case False
  then have c: "ob \<in># clean sp" using assms(2) by simp
  then obtain M where M: "clean sp = add_mset ob M" by (metis mset_add)
  then have "\<forall>p\<in>#dirty sp. name p \<noteq> name ob" using assms(1) by (auto simp: lst_ok_def)
  then show ?thesis using bview_disk c assms(1) by (auto simp: lst_ok_def)
qed

text \<open>The view depends on the modified chains and the store only.\<close>

lemma bview_cong:
  assumes "lst_ok W hv C sp" "lst_ok W hv' C' sp'" "dirty sp' = dirty sp" "disk C' n = disk C n"
  shows "bview C' sp' n = bview C sp n"
proof (cases "\<exists>ob\<in>#dirty sp. name ob = n")
  case True
  then obtain ob where ob: "ob \<in># dirty sp" "name ob = n" by blast
  then show ?thesis using bview_dirty [OF assms(1), of ob C] bview_dirty [OF assms(2), of ob C'] assms(3) by simp
next
  case False
  then show ?thesis using bview_disk [of sp n C] bview_disk [of sp' n C'] assms(3,4) by simp
qed

subsection \<open>Changing a cached object\<close>

definition changes :: "Obj \<Rightarrow> Obj \<Rightarrow> CacheLst \<Rightarrow> CacheLst \<Rightarrow> bool" where
  "changes ob ob' sp sp' \<longleftrightarrow>
     clean sp = add_mset ob (clean sp') \<and> dirty sp' = add_mset ob' (dirty sp) \<or>
     clean sp' = clean sp \<and> (\<exists>D. dirty sp = add_mset ob D \<and> dirty sp' = add_mset ob' D)"

definition same_size :: "CacheLst \<Rightarrow> CacheLst \<Rightarrow> bool" where
  "same_size sp sp' \<longleftrightarrow> entries sp' = entries sp \<and> lcount sp' = lcount sp"

lemma change_first_laws:
  "dequeue (NAMECMP nam) xs = Some (cp, rest) \<Longrightarrow> op cp = Some ob \<Longrightarrow>
     objs (change_first (NAMECMP nam) f xs) = add_mset (f ob) (objs rest) \<and>
     length (change_first (NAMECMP nam) f xs) = length xs \<and>
     ((\<forall>x\<in>set xs. op x \<noteq> None) \<longrightarrow> (\<forall>x\<in>set (change_first (NAMECMP nam) f xs). op x \<noteq> None))"
  by (induction xs arbitrary: rest) (auto simp: change_def split: if_splits option.splits)

lemma change_op: "op cp = Some ob \<Longrightarrow> op (change f cp) = Some (f ob)"
  by (simp add: change_def)

lemma touch_Some:
  assumes "touch nam f sp = Some sp'" "solid sp"
  obtains ob where "name ob = object nam" "changes ob (f ob) sp sp'" "solid sp'" "same_size sp sp'"
proof (cases "dequeue (NAMECMP nam) (active sp)")
  case (Some r)
  then obtain cp rest where r: "dequeue (NAMECMP nam) (active sp) = Some (cp, rest)" by (cases r) auto
  obtain ob where ob: "op cp = Some ob" "name ob = object nam" "objs (active sp) = add_mset ob (objs rest)"
      "length (active sp) = Suc (length rest)" by (rule dequeue_name [OF r])
  have "sp' = sp\<lparr>active := rest, mactive := change f cp # mactive sp\<rparr>" using assms(1) r by (simp add: touch_def)
  then show thesis using that [of ob] ob assms(2) change_op [OF ob(1), of f]
    by (simp add: changes_def clean_def dirty_def same_size_def entries_def solid_def)
next
  case miss1: None
  show thesis
  proof (cases "dequeue (NAMECMP nam) (mactive sp)")
    case (Some r)
    then obtain cp rest where r: "dequeue (NAMECMP nam) (mactive sp) = Some (cp, rest)" by (cases r) auto
    obtain ob where ob: "op cp = Some ob" "name ob = object nam" "objs (mactive sp) = add_mset ob (objs rest)"
      by (rule dequeue_name [OF r])
    have "sp' = sp\<lparr>mactive := change_first (NAMECMP nam) f (mactive sp)\<rparr>"
      using assms(1) r miss1 by (simp add: touch_def)
    then show thesis using that [of ob] ob assms(2) change_first_laws [OF r ob(1), of f]
      by (auto simp: changes_def clean_def dirty_def same_size_def entries_def solid_def)
  next
    case miss2: None
    show thesis
    proof (cases "dequeue (NAMECMP nam) (old sp)")
      case (Some r)
      then obtain cp rest where r: "dequeue (NAMECMP nam) (old sp) = Some (cp, rest)" by (cases r) auto
      obtain ob where ob: "op cp = Some ob" "name ob = object nam" "objs (old sp) = add_mset ob (objs rest)"
          "length (old sp) = Suc (length rest)" by (rule dequeue_name [OF r])
      have "sp' = sp\<lparr>old := rest, mactive := change f cp # mactive sp\<rparr>"
        using assms(1) r miss1 miss2 by (simp add: touch_def)
      then show thesis using that [of ob] ob assms(2) change_op [OF ob(1), of f]
        by (simp add: changes_def clean_def dirty_def same_size_def entries_def solid_def)
    next
      case miss3: None
      then obtain cp rest where r: "dequeue (NAMECMP nam) (mold sp) = Some (cp, rest)"
          and sp': "sp' = sp\<lparr>mold := rest, mactive := change f cp # mactive sp\<rparr>"
        using assms(1) miss1 miss2 by (auto simp: touch_def split: option.splits)
      obtain ob where ob: "op cp = Some ob" "name ob = object nam" "objs (mold sp) = add_mset ob (objs rest)"
          "length (mold sp) = Suc (length rest)" "set rest \<subseteq> set (mold sp)" by (rule dequeue_name [OF r])
      then show thesis using that [of ob] assms(2) change_op [OF ob(1), of f] sp'
        by (auto simp: changes_def clean_def dirty_def same_size_def entries_def solid_def)
    qed
  qed
qed

lemma touch_None: "touch nam f sp = None \<Longrightarrow> ob \<in># clean sp + dirty sp \<Longrightarrow> name ob \<noteq> object nam"
  by (auto simp: touch_def clean_def dirty_def dest: dequeue_miss split: option.splits)

lemma changes_ok:
  assumes ok: "lst_ok W hv C sp" and ch: "changes ob ob' sp sp'"
    and ob': "wf_cobj ob'" "name ob' = name ob" and s: "solid sp'" "same_size sp sp'"
  shows "lst_ok W hv C sp'" and "bview C sp' = (bview C sp)(name ob := attr_map ob')"
    and "attr_map ob = bview C sp (name ob)" and "wf_cobj ob"
proof -
  obtain X where X: "clean sp + dirty sp = add_mset ob X" "clean sp' + dirty sp' = add_mset ob' X"
    using ch by (auto simp: changes_def)
  have sub: "set_mset (clean sp') \<subseteq> set_mset (clean sp)" using ch by (auto simp: changes_def)
  show ok': "lst_ok W hv C sp'" using ok X s ob' sub unfolding lst_ok_def by (auto simp: same_size_def)
  have in1: "ob \<in># clean sp + dirty sp" and in2: "ob' \<in># dirty sp'" using X(1) ch by (auto simp: changes_def)
  show "attr_map ob = bview C sp (name ob)" by (rule bview_cached [OF ok in1])
  show "wf_cobj ob" using ok in1 by (auto simp: lst_ok_def)
  show "bview C sp' = (bview C sp)(name ob := attr_map ob')"
  proof
    fix n
    show "bview C sp' n = ((bview C sp)(name ob := attr_map ob')) n"
    proof (cases "n = name ob")
      case True
      then show ?thesis using bview_dirty [OF ok' in2, of C] ob'(2) by simp
    next
      case False
      have same: "p \<in># dirty sp' \<longleftrightarrow> p \<in># dirty sp" if "name p = n" for p
        using ch that False ob'(2) by (auto simp: changes_def)
      show ?thesis
      proof (cases "\<exists>p\<in>#dirty sp. name p = n")
        case True
        then obtain p where p: "p \<in># dirty sp" "name p = n" by blast
        then show ?thesis using bview_dirty [OF ok, of p C] bview_dirty [OF ok', of p C] same False by simp
      next
        case no: False
        then show ?thesis using bview_disk [of sp n C] bview_disk [of sp' n C] same False by auto
      qed
    qed
  qed
qed

subsection \<open>Dropping an entry\<close>

lemma objs_last: "xs \<noteq> [] \<Longrightarrow> objs xs = objs (butlast xs) + objs [last xs]"
  using objs_append [of "butlast xs" "[last xs]"] by simp

definition drops :: "CacheLst \<Rightarrow> CacheLst \<Rightarrow> bool" where
  "drops sp sp' \<longleftrightarrow> dirty sp' = dirty sp \<and> (\<exists>M. clean sp = clean sp' + M)"

lemma drops_ok:
  assumes "lst_ok W hv C sp" "drops sp sp'" "solid sp'" "lcount sp' = int (entries sp')"
  shows "lst_ok W hv C sp'" "bview C sp' = bview C sp"
proof -
  obtain M where M: "clean sp = clean sp' + M" "dirty sp' = dirty sp" using assms(2) by (auto simp: drops_def)
  then have "uniq (clean sp' + dirty sp')" using assms(1) uniq_sub [of "clean sp' + dirty sp'" M]
    by (simp add: lst_ok_def ac_simps)
  then show ok': "lst_ok W hv C sp'" using assms M by (auto simp: lst_ok_def)
  show "bview C sp' = bview C sp" using bview_cong [OF assms(1) ok' M(2)] by blast
qed

subsection \<open>Adding an entry\<close>

text \<open>A bucket that lacks the entry that is about to be linked in.\<close>

definition lacks_one :: "nat \<Rightarrow> nat \<Rightarrow> (Objname \<Rightarrow> Obj option) \<Rightarrow> CacheLst \<Rightarrow> bool" where
  "lacks_one W hv C sp \<longleftrightarrow> lst_ok W hv C (sp\<lparr>lcount := int (entries sp)\<rparr>) \<and> lcount sp = int (entries sp) + 1"

lemma lcount_irrelevant [simp]:
  "clean (sp\<lparr>lcount := k\<rparr>) = clean sp" "dirty (sp\<lparr>lcount := k\<rparr>) = dirty sp"
  "entries (sp\<lparr>lcount := k\<rparr>) = entries sp" "solid (sp\<lparr>lcount := k\<rparr>) = solid sp"
  "bview C (sp\<lparr>lcount := k\<rparr>) = bview C sp"
  by (simp_all add: clean_def dirty_def entries_def solid_def bview_def dirty_obj_def fun_eq_iff)

lemma add_active_ok:
  assumes l: "lacks_one W hv C sp" and ob: "wf_cobj ob" "unat (name ob) mod W = hv" "attr_map ob = disk C (name ob)"
    and fresh: "\<forall>p\<in>#clean sp + dirty sp. name p \<noteq> name ob"
  and sp'_def: "sp' = sp\<lparr>active := cp\<lparr>op := Some ob\<rparr> # active sp\<rparr>"
  shows "lst_ok W hv C sp'" and "bview C sp' = bview C sp"
proof -
  have f: "clean sp' = add_mset ob (clean sp)" "dirty sp' = dirty sp" "entries sp' = Suc (entries sp)" "solid sp' = solid sp"
      "lcount sp' = lcount sp"
    by (simp_all add: sp'_def clean_def dirty_def entries_def solid_def)
  show ok: "lst_ok W hv C sp'" using l ob fresh unfolding lacks_one_def lst_ok_def by (auto simp: f)
  show "bview C sp' = bview C sp"
    by (simp add: bview_def dirty_obj_def sp'_def fun_eq_iff)
qed

lemma add_mactive_ok:
  assumes l: "lacks_one W hv C sp" and ob: "wf_cobj ob" "unat (name ob) mod W = hv"
    and fresh: "\<forall>p\<in>#clean sp + dirty sp. name p \<noteq> name ob"
  and sp'_def: "sp' = sp\<lparr>mactive := cp\<lparr>op := Some ob\<rparr> # mactive sp\<rparr>"
  shows "lst_ok W hv C sp'" and "bview C sp' = (bview C sp)(name ob := attr_map ob)"
proof -
  have f: "clean sp' = clean sp" "dirty sp' = add_mset ob (dirty sp)" "entries sp' = Suc (entries sp)" "solid sp' = solid sp"
      "lcount sp' = lcount sp"
    by (simp_all add: sp'_def clean_def dirty_def entries_def solid_def)
  show "lst_ok W hv C sp'" using l ob fresh unfolding lacks_one_def lst_ok_def by (auto simp: f)
  have "NAMECMP \<lparr>object = n, anum = 0\<rparr> (cp\<lparr>op := Some ob\<rparr>) \<longleftrightarrow> name ob = n" for n
    by (simp add: NAMECMP_def)
  then show "bview C sp' = (bview C sp)(name ob := attr_map ob)"
    by (auto simp: bview_def dirty_obj_def sp'_def fun_eq_iff)
qed

subsection \<open>Writing back\<close>

definition disk_ok :: "(Objname \<Rightarrow> Obj option) \<Rightarrow> bool" where
  "disk_ok C \<longleftrightarrow> (\<forall>n ob. C n = Some ob \<longrightarrow> wf_cobj ob \<and> name ob = n)"

definition same_cache :: "ocache \<Rightarrow> ocache \<Rightarrow> bool" where
  "same_cache c c' \<longleftrightarrow> cwidth c' = cwidth c \<and> cdepth c' = cdepth c \<and> sys_c c' = sys_c c \<and>
     cache_initted c' = cache_initted c \<and> cache_frozen c' = cache_frozen c \<and> cache_busy c' = cache_busy c"

lemma same_cache_tally [simp]: "same_cache c (tally f c)"
  by (simp add: same_cache_def tally_def)

lemma same_cache_refl [simp]: "same_cache c c"
  by (simp add: same_cache_def)

lemma same_cache_trans: "same_cache c c1 \<Longrightarrow> same_cache c1 c2 \<Longrightarrow> same_cache c c2"
  by (simp add: same_cache_def)

lemma tally_fields [simp]:
  "cwidth (tally f c) = cwidth c" "sys_c (tally f c) = sys_c c" "cache_initted (tally f c) = cache_initted c"
  "cache_busy (tally f c) = cache_busy c" "cache_frozen (tally f c) = cache_frozen c" "cdepth (tally f c) = cdepth c"
  by (simp_all add: tally_def)

lemma disk_saved: "wf_cobj ob \<Longrightarrow> disk (C(name ob := saved ob)) (name ob) = attr_map ob"
  using saved_disk [of ob] by (simp add: disk_def)

lemma disk_other: "C' n = C n \<Longrightarrow> disk C' n = disk C n"
  by (simp add: disk_def)

lemma disk_ok_saved: "disk_ok C \<Longrightarrow> wf_cobj ob \<Longrightarrow> disk_ok (C(name ob := saved ob))"
  by (simp add: disk_ok_def saved_def)

lemma solid_last:
  assumes "lst_ok W hv C sp" "mold sp \<noteq> []"
  obtains ob where "op (last (mold sp)) = Some ob" "ob \<in># dirty sp"
proof -
  have m: "last (mold sp) \<in> set (mold sp)" using assms(2) by simp
  then obtain ob where ob: "op (last (mold sp)) = Some ob"
    using assms(1) unfolding lst_ok_def solid_def by (metis UnCI option.exhaust)
  then have "ob \<in># dirty sp" using m unfolding dirty_mem by auto
  with ob show thesis by (rule that)
qed

lemma dirty_obj_butlast:
  assumes "mold sp \<noteq> []" "op (last (mold sp)) = Some ob" "n \<noteq> name ob"
  shows "dirty_obj (sp\<lparr>mold := butlast (mold sp)\<rparr>) n = dirty_obj sp n"
proof -
  let ?P = "NAMECMP \<lparr>object = n, anum = 0\<rparr>"
  have "mactive sp @ mold sp = (mactive sp @ butlast (mold sp)) @ [last (mold sp)]" using assms(1) by simp
  moreover have "\<not> ?P (last (mold sp))" using assms(2,3) by (simp add: NAMECMP_def)
  ultimately have "find ?P (mactive sp @ mold sp) = find ?P (mactive sp @ butlast (mold sp))"
    by (simp only: find_append) (simp split: option.split)
  then show ?thesis by (simp add: dirty_obj_def)
qed

context chunk_store
begin

lemma write_back_ok:
  assumes "store_ok s" "wf_cobj ob" "write_back db ob c s = (True, c', s')"
  shows "store_ok s' \<and> contents s' = (contents s)(name ob := saved ob) \<and> (faultless s \<longrightarrow> faultless s') \<and> same_cache c c'"
proof (cases "at_count ob = 0")
  case True
  then obtain s1 where "DB_DEL db (name ob) s = (0, s1)" "c' = tally (cs_dels_update Suc) c" "s' = s1"
    using assms(3) by (auto simp: write_back_def split: prod.splits if_splits)
  then show ?thesis using del_contents [OF assms(1)] True by (simp add: saved_def)
next
  case False
  then obtain s1 where s1: "DB_PUT db ob (name ob) s = (0, s1)" "c' = tally (cs_dbwrites_update Suc) c" "s' = s1"
    using assms(3) by (auto simp: write_back_def split: prod.splits if_splits)
  have "wf_obj ob" using assms(2) by (simp add: wf_cobj_def)
  from put_contents [OF assms(1) this refl s1(1)] show ?thesis using s1 False by (simp add: saved_def)
qed

lemma write_back_succeeds:
  "store_ok s \<Longrightarrow> wf_cobj ob \<Longrightarrow> faultless s \<Longrightarrow> fst (write_back db ob c s)"
  using del_faultless put_faultless [OF _ _ refl]
  by (auto simp: write_back_def wf_cobj_def split: prod.splits) (metis fst_conv)+

lemma get_free_entry_ok:
  assumes st: "store_ok s" and dk: "disk_ok (contents s)" and l: "lst_ok W hv (contents s) sp"
    and r: "get_free_entry db sp c s = (Some cp, sp', c', s')"
  shows "store_ok s' \<and> disk_ok (contents s') \<and> (faultless s \<longrightarrow> faultless s') \<and> same_cache c c' \<and>
     lacks_one W hv (contents s') sp' \<and> bview (contents s') sp' = bview (contents s) sp \<and>
     set_mset (clean sp' + dirty sp') \<subseteq> set_mset (clean sp + dirty sp) \<and>
     (\<forall>n. (\<forall>ob\<in>#dirty sp. name ob \<noteq> n) \<longrightarrow> contents s' n = contents s n)"
proof (cases "old sp = []")
  case False
  then have e: "sp' = sp\<lparr>old := butlast (old sp)\<rparr>" "c' = c" "s' = s" using r by (simp_all add: get_free_entry_def)
  let ?sp = "sp'\<lparr>lcount := int (entries sp')\<rparr>"
  have "drops sp ?sp" using objs_last [OF False] by (auto simp: drops_def e clean_def dirty_def)
  moreover have "solid ?sp" using l by (simp add: e solid_def lst_ok_def)
  moreover have "lcount ?sp = int (entries ?sp)" by simp
  ultimately have "lst_ok W hv (contents s) ?sp" "bview (contents s) ?sp = bview (contents s) sp"
    using drops_ok [OF l, of ?sp] by blast+
  moreover have "lcount sp' = int (entries sp') + 1" using l False by (cases "old sp") (simp_all add: e entries_def lst_ok_def)
  moreover have "set_mset (clean sp' + dirty sp') \<subseteq> set_mset (clean sp + dirty sp)"
    using objs_last [OF False] by (auto simp: e clean_def dirty_def)
  ultimately show ?thesis using st dk e by (simp add: lacks_one_def)
next
  case old: True
  show ?thesis
  proof (cases "\<not> cache_busy c \<and> \<not> cache_frozen c \<and> mold sp \<noteq> []")
    case False
    then have e: "sp' = sp\<lparr>lcount := lcount sp + 1\<rparr>" "s' = s" "same_cache c c'"
      using r old by (auto simp: get_free_entry_def)
    have "sp\<lparr>lcount := int (entries sp)\<rparr> = sp" using l by (cases sp) (simp add: lst_ok_def)
    then have "lacks_one W hv (contents s) sp'" using l by (simp add: lacks_one_def e lst_ok_def)
    then show ?thesis using st dk e by simp
  next
    case True
    have ne: "mold sp \<noteq> []" using True by simp
    obtain ob where ob: "op (last (mold sp)) = Some ob" by (rule solid_last [OF l ne])
    have m: "objs (mold sp) = add_mset ob (objs (butlast (mold sp)))" using objs_last [OF ne] ob by simp
    obtain ok c1 s1 where wb: "write_back db ob c s = (ok, c1, s1)" by (metis prod.collapse)
    then have ok: ok and e: "sp' = sp\<lparr>mold := butlast (mold sp)\<rparr>" "c' = c1" "s' = s1"
      using r old True ob by (auto simp: get_free_entry_def Let_def split: if_splits)
    have d: "dirty sp = add_mset ob (dirty sp')" "clean sp' = clean sp" using m by (simp_all add: e dirty_def clean_def)
    then have wf: "wf_cobj ob" using l by (simp add: lst_ok_def)
    have w: "store_ok s'" "contents s' = (contents s)(name ob := saved ob)" "faultless s \<longrightarrow> faultless s'" "same_cache c c'"
      using write_back_ok [OF st wf] wb ok e by auto
    let ?sp = "sp'\<lparr>lcount := int (entries sp')\<rparr>"
    have others: "\<forall>p\<in>#clean sp' + dirty sp'. name p \<noteq> name ob" using l d by (simp add: lst_ok_def)
    have l': "lst_ok W hv (contents s') ?sp"
      using l d others by (auto simp: lst_ok_def w(2) e(1) solid_def disk_def dest: in_set_butlastD)
    have "bview (contents s') sp' n = bview (contents s) sp n" for n
    proof (cases "n = name ob")
      case True
      have "bview (contents s') sp' n = disk (contents s') n" using bview_disk others True by simp
      then show ?thesis using bview_dirty [OF l, of ob] d disk_saved [OF wf] True by (simp add: w(2))
    next
      case False
      have "dirty_obj sp' n = dirty_obj sp n" using dirty_obj_butlast [OF ne ob False] by (simp add: e(1))
      then show ?thesis using False by (simp add: bview_def w(2) disk_def split: option.split)
    qed
    moreover have "lcount sp' = int (entries sp') + 1" using l ne by (cases "mold sp") (simp_all add: e entries_def lst_ok_def)
    moreover have "set_mset (clean sp' + dirty sp') \<subseteq> set_mset (clean sp + dirty sp)" using d by auto
    moreover have "contents s' n = contents s n" if "\<forall>ob\<in>#dirty sp. name ob \<noteq> n" for n
      using that d(1) by (auto simp: w(2))
    moreover have "disk_ok (contents s')" using disk_ok_saved [OF dk wf] by (simp add: w(2))
    ultimately show ?thesis using w(1,3,4) l' unfolding lacks_one_def by blast
  qed
qed

lemma get_free_entry_succeeds:
  assumes "store_ok s" "lst_ok W hv (contents s) sp" "faultless s"
  shows "fst (get_free_entry db sp c s) \<noteq> None"
proof (cases "old sp = [] \<and> \<not> cache_busy c \<and> \<not> cache_frozen c \<and> mold sp \<noteq> []")
  case True
  then have ne: "mold sp \<noteq> []" by simp
  obtain ob where ob: "op (last (mold sp)) = Some ob" "ob \<in># dirty sp" by (rule solid_last [OF assms(2) ne])
  have "wf_cobj ob" using assms(2) ob by (simp add: lst_ok_def)
  then show ?thesis using write_back_succeeds [OF assms(1) _ assms(3), of ob c] True ob
    by (auto simp: get_free_entry_def Let_def split: prod.splits)
qed (auto simp: get_free_entry_def)

end

subsection \<open>The cache\<close>

definition cache_inv :: "ocache \<Rightarrow> (Objname \<Rightarrow> Obj option) \<Rightarrow> bool" where
  "cache_inv c C \<longleftrightarrow> cache_initted c \<and> 0 < cwidth c \<and> disk_ok C \<and>
     (\<exists>ls. sys_c c = Some ls \<and> length ls = cwidth c \<and> (\<forall>hv<cwidth c. lst_ok (cwidth c) hv C (ls ! hv)))"

definition cview :: "ocache \<Rightarrow> (Objname \<Rightarrow> Obj option) \<Rightarrow> Objname \<Rightarrow> 32 word \<Rightarrow> string option" where
  "cview c C n = bview C (lst c (unat n mod cwidth c)) n"

lemma cache_inv_lst:
  "cache_inv c C \<Longrightarrow> hv < cwidth c \<Longrightarrow> lst_ok (cwidth c) hv C (lst c hv)"
  by (auto simp: cache_inv_def lst_def)

lemma cache_inv_bucket: "cache_inv c C \<Longrightarrow> bucket_of c nam < cwidth c"
  by (simp add: cache_inv_def bucket_of_def)

lemma same_cache_inv: "same_cache c c' \<Longrightarrow> cache_inv c' C = cache_inv c C \<and> cview c' C = cview c C"
  by (simp add: same_cache_def cache_inv_def cview_def lst_def fun_eq_iff)

lemma lst_ok_other:
  assumes "lst_ok W k C sp" "\<forall>n. unat n mod W = k \<longrightarrow> C' n = C n"
  shows "lst_ok W k C' sp"
proof -
  have "attr_map ob = disk C' (name ob)" if "ob \<in># clean sp" for ob
  proof -
    have "unat (name ob) mod W = k" "attr_map ob = disk C (name ob)" using assms(1) that by (simp_all add: lst_ok_def)
    then show ?thesis using assms(2) by (simp add: disk_def)
  qed
  then show ?thesis using assms(1) by (simp add: lst_ok_def)
qed

lemma set_lst_ok:
  assumes inv: "cache_inv c C" and sc: "same_cache c c'" and hv: "hv < cwidth c"
    and l: "lst_ok (cwidth c) hv C' sp'" and dk: "disk_ok C'"
    and other: "\<forall>n. unat n mod cwidth c \<noteq> hv \<longrightarrow> C' n = C n"
  shows "cache_inv (set_lst hv sp' c') C'"
    and "cview (set_lst hv sp' c') C' n = (if unat n mod cwidth c = hv then bview C' sp' n else cview c C n)"
proof -
  obtain ls where ls: "sys_c c = Some ls" "length ls = cwidth c" "\<forall>k<cwidth c. lst_ok (cwidth c) k C (ls ! k)"
    using inv by (auto simp: cache_inv_def)
  have f: "sys_c (set_lst hv sp' c') = Some (ls[hv := sp'])" "cwidth (set_lst hv sp' c') = cwidth c"
      "cache_initted (set_lst hv sp' c')"
    using sc ls inv by (simp_all add: set_lst_def same_cache_def cache_inv_def)
  have "lst_ok (cwidth c) k C' (ls[hv := sp'] ! k)" if "k < cwidth c" for k
    using lst_ok_other [of "cwidth c" k C "ls ! k" C'] ls that l other hv by (cases "k = hv") auto
  then show "cache_inv (set_lst hv sp' c') C'" using f ls inv dk by (simp add: cache_inv_def)
  have W: "0 < cwidth c" using inv by (simp add: cache_inv_def)
  have l2: "lst (set_lst hv sp' c') k = (if k = hv then sp' else lst c k)" if "k < cwidth c" for k
    using f(1) ls that by (simp add: lst_def)
  show "cview (set_lst hv sp' c') C' n = (if unat n mod cwidth c = hv then bview C' sp' n else cview c C n)"
    using l2 [of "unat n mod cwidth c"] W other [rule_format, of n]
    by (simp add: cview_def f(2) bview_def disk_def split: option.split)
qed

lemma bucket_eq: "bucket_of c nam = unat (object nam) mod cwidth c"
  by (simp add: bucket_of_def)

text \<open>Moving an entry between chains of the same kind changes nothing.\<close>

lemma move_ok:
  assumes "lst_ok W hv C sp" "clean sp' = clean sp" "dirty sp' = dirty sp" "solid sp'" "entries sp' = entries sp" "lcount sp' = lcount sp"
  shows "lst_ok W hv C sp'" "bview C sp' = bview C sp"
proof -
  show "lst_ok W hv C sp'" using assms by (simp add: lst_ok_def)
  then show "bview C sp' = bview C sp" using bview_cong [OF assms(1) _ assms(3)] by blast
qed

lemma move_cache:
  assumes inv: "cache_inv c C" and hv: "hv = unat n mod cwidth c"
    and m: "clean sp' = clean (lst c hv)" "dirty sp' = dirty (lst c hv)" "solid sp'" "same_size (lst c hv) sp'"
    and sc: "same_cache c c'"
  shows "cache_inv (set_lst hv sp' c') C \<and> cview (set_lst hv sp' c') C = cview c C"
proof -
  have lt: "hv < cwidth c" using inv hv by (simp add: cache_inv_def)
  note l = cache_inv_lst [OF inv lt]
  note mv = move_ok [OF l m(1,2,3)]
  have s: "entries sp' = entries (lst c hv)" "lcount sp' = lcount (lst c hv)" using m(4) by (simp_all add: same_size_def)
  have dk: "disk_ok C" using inv by (simp add: cache_inv_def)
  note set = set_lst_ok [OF inv sc lt mv(1) [OF s] dk]
  show ?thesis using set mv(2) [OF s] by (auto simp: fun_eq_iff cview_def)
qed

context chunk_store
begin

definition good :: "ocache \<Rightarrow> 's \<Rightarrow> bool" where
  "good c s \<longleftrightarrow> store_ok s \<and> cache_inv c (contents s)"

text \<open>After a miss: linking the object read, or a new one, into the bucket.\<close>

lemma miss_ok:
  assumes g: "good c s" and hv: "hv = unat n mod cwidth c" and l: "sp = lst c hv"
    and miss: "\<forall>ob\<in>#clean sp + dirty sp. name ob \<noteq> n"
    and fr: "get_free_entry db sp c1 s = (Some cp, sp', c', s')" and sc: "same_cache c c1"
    and ob: "wf_cobj ob" "name ob = n"
  shows "faultless s \<longrightarrow> faultless s'"
    and "attr_map ob = disk (contents s) n \<Longrightarrow>
      good (set_lst hv (sp'\<lparr>active := cp\<lparr>op := Some ob\<rparr> # active sp'\<rparr>) c') s' \<and>
      cview (set_lst hv (sp'\<lparr>active := cp\<lparr>op := Some ob\<rparr> # active sp'\<rparr>) c') (contents s') = cview c (contents s)"
    and "good (set_lst hv (sp'\<lparr>mactive := cp\<lparr>op := Some ob\<rparr> # mactive sp'\<rparr>) c') s' \<and>
      cview (set_lst hv (sp'\<lparr>mactive := cp\<lparr>op := Some ob\<rparr> # mactive sp'\<rparr>) c') (contents s') =
        (cview c (contents s))(n := attr_map ob)"
    and "cview c (contents s) n = disk (contents s) n"
proof -
  let ?C = "contents s" and ?C' = "contents s'" and ?W = "cwidth c"
  have st: "store_ok s" and inv: "cache_inv c ?C" using g by (simp_all add: good_def)
  have dk: "disk_ok ?C" and W: "0 < ?W" using inv by (simp_all add: cache_inv_def)
  have lt: "hv < ?W" using W hv by simp
  have lok: "lst_ok ?W hv ?C sp" using cache_inv_lst [OF inv lt] l by simp
  note e = get_free_entry_ok [OF st dk lok fr]
  then show "faultless s \<longrightarrow> faultless s'" by blast
  have lk: "lacks_one ?W hv ?C' sp'" and bv: "bview ?C' sp' = bview ?C sp" and st': "store_ok s'"
    and dk': "disk_ok ?C'" and sc': "same_cache c c'"
    and sub: "set_mset (clean sp' + dirty sp') \<subseteq> set_mset (clean sp + dirty sp)"
    and keep: "\<forall>m. (\<forall>ob\<in>#dirty sp. name ob \<noteq> m) \<longrightarrow> ?C' m = ?C m"
    using e same_cache_trans [OF sc] by blast+
  have fresh: "\<forall>p\<in>#clean sp' + dirty sp'. name p \<noteq> name ob" using miss sub ob(2) by blast
  have hash: "unat (name ob) mod ?W = hv" using ob(2) hv by simp
  have other: "\<forall>m::Objname. unat m mod ?W \<noteq> hv \<longrightarrow> ?C' m = ?C m"
  proof (intro allI impI)
    fix m :: Objname assume m: "unat m mod ?W \<noteq> hv"
    have "name p \<noteq> m" if "p \<in># dirty sp" for p using lok that m by (auto simp: lst_ok_def)
    then show "?C' m = ?C m" using keep by blast
  qed
  have n_same: "?C' n = ?C n" using keep miss by simp
  show "cview c ?C n = disk ?C n" using bview_disk [of sp n ?C] miss hv l by (simp add: cview_def)
  have view_eq: "bview ?C' sp' m = cview c ?C m" if "unat m mod ?W = hv" for m :: Objname
    using bv l that hv by (simp add: cview_def)
  {
    let ?sp = "sp'\<lparr>active := cp\<lparr>op := Some ob\<rparr> # active sp'\<rparr>"
    assume am: "attr_map ob = disk ?C n"
    then have "attr_map ob = disk ?C' (name ob)" using n_same ob(2) by (simp add: disk_def)
    note a = add_active_ok [OF lk ob(1) hash this fresh refl]
    note r = set_lst_ok [OF inv sc' lt a(1) dk' other]
    show "good (set_lst hv ?sp c') s' \<and> cview (set_lst hv ?sp c') ?C' = cview c ?C"
      using r a(2) view_eq st' by (auto simp: good_def fun_eq_iff)
  }
  {
    let ?sp = "sp'\<lparr>mactive := cp\<lparr>op := Some ob\<rparr> # mactive sp'\<rparr>"
    note a = add_mactive_ok [OF lk ob(1) hash fresh refl]
    note r = set_lst_ok [OF inv sc' lt a(1) dk' other]
    show "good (set_lst hv ?sp c') s' \<and> cview (set_lst hv ?sp c') ?C' = (cview c ?C)(n := attr_map ob)"
      using r a(2) view_eq st' ob(2) hv by (auto simp: good_def fun_eq_iff)
  }
qed

lemma good_tally: "same_cache c c' \<Longrightarrow> good c' s = good c s"
  by (simp add: good_def same_cache_inv)

lemma cached_attr:
  assumes "good c s" "dequeue (NAMECMP nam) xs = Some (cp, rest)"
    and "xs \<in> {active (lst c (bucket_of c nam)), mactive (lst c (bucket_of c nam)),
      old (lst c (bucket_of c nam)), mold (lst c (bucket_of c nam))}"
  shows "(case op cp of None \<Rightarrow> None | Some ob \<Rightarrow> get_attrib nam ob) = cview c (contents s) (object nam) (anum nam)"
proof -
  let ?sp = "lst c (bucket_of c nam)"
  obtain ob where ob: "op cp = Some ob" "name ob = object nam" "objs xs = add_mset ob (objs rest)"
    by (rule dequeue_name [OF assms(2)])
  have "ob \<in># clean ?sp + dirty ?sp" using assms(3) ob(3) by (auto simp: clean_def dirty_def)
  moreover have "lst_ok (cwidth c) (bucket_of c nam) (contents s) ?sp"
    using assms(1) unfolding good_def by (blast intro: cache_inv_lst cache_inv_bucket)
  ultimately have "attr_map ob = bview (contents s) ?sp (object nam)" using bview_cached ob(2) by metis
  then show ?thesis using ob(1) by (simp add: get_attrib_map cview_def bucket_of_def)
qed


lemma get_in_place:
  assumes g: "good c s" and fl: "faultless s" and r: "cache_get db (Some nam) c s = (v, c', s')"
    and d: "dequeue (NAMECMP nam) xs = Some (cp, rest)"
    and e: "xs \<in> {active (lst c (bucket_of c nam)), mactive (lst c (bucket_of c nam))}"
    and v: "v = (case op cp of None \<Rightarrow> None | Some ob \<Rightarrow> get_attrib nam ob)" "s' = s" "same_cache c c'"
  shows "v = cview c (contents s) (object nam) (anum nam) \<and> good c' s' \<and> faultless s' \<and>
    cview c' (contents s') = cview c (contents s)"
proof -
  have "v = cview c (contents s) (object nam) (anum nam)" using cached_attr [OF g d] e v(1) by blast
  then show ?thesis using g fl v by (simp add: good_tally same_cache_inv)
qed

lemma get_moved:
  assumes g: "good c s" and fl: "faultless s"
    and d: "dequeue (NAMECMP nam) xs = Some (cp, rest)" and sp: "sp = lst c (bucket_of c nam)"
    and e: "xs = old sp \<and> sp' = sp\<lparr>old := rest, active := cp # active sp\<rparr> \<or>
      xs = mold sp \<and> sp' = sp\<lparr>mold := rest, mactive := cp # mactive sp\<rparr>"
    and v: "v = (case op cp of None \<Rightarrow> None | Some ob \<Rightarrow> get_attrib nam ob)" "s' = s"
      "c' = set_lst (bucket_of c nam) sp' cc" "same_cache c cc"
  shows "v = cview c (contents s) (object nam) (anum nam) \<and> good c' s' \<and> faultless s' \<and>
    cview c' (contents s') = cview c (contents s)"
proof -
  have inv: "cache_inv c (contents s)" using g by (simp add: good_def)
  have ok: "solid sp" using cache_inv_lst [OF inv cache_inv_bucket [OF inv]] sp by (simp add: lst_ok_def)
  obtain ob where ob: "op cp = Some ob" "objs xs = add_mset ob (objs rest)" "length xs = Suc (length rest)" "set rest \<subseteq> set xs"
    by (rule dequeue_name [OF d])
  then have "clean sp' = clean sp" "dirty sp' = dirty sp" "solid sp'" "same_size sp sp'"
    using e ok by (auto simp: clean_def dirty_def same_size_def entries_def solid_def)
  then have "cache_inv c' (contents s) \<and> cview c' (contents s) = cview c (contents s)"
    using move_cache [OF inv bucket_eq _ _ _ _ v(4)] v(3) sp by simp
  moreover have "v = cview c (contents s) (object nam) (anum nam)"
    using cached_attr [OF g d] e v(1) sp by blast
  ultimately show ?thesis using g fl v(2) by (simp add: good_def)
qed

definition missing :: "Aname \<Rightarrow> CacheLst \<Rightarrow> bool" where
  "missing nam sp \<longleftrightarrow> dequeue (NAMECMP nam) (active sp) = None \<and> dequeue (NAMECMP nam) (mactive sp) = None \<and>
     dequeue (NAMECMP nam) (old sp) = None \<and> dequeue (NAMECMP nam) (mold sp) = None"

lemma missing_names: "missing nam sp \<Longrightarrow> \<forall>ob\<in>#clean sp + dirty sp. name ob \<noteq> object nam"
  by (auto simp: missing_def clean_def dirty_def dest: dequeue_miss)

lemma get_miss:
  assumes g: "good c s" and fl: "faultless s" and r: "cache_get db (Some nam) c s = (v, c', s')"
    and m: "missing nam (lst c (bucket_of c nam))"
  shows "v = cview c (contents s) (object nam) (anum nam) \<and> good c' s' \<and> faultless s' \<and>
    cview c' (contents s') = cview c (contents s)"
proof -
  let ?c = "tally (cs_reads_update Suc) c" and ?hv = "bucket_of c nam"
  let ?sp = "lst c ?hv" and ?c1 = "tally (cs_dbreads_update Suc) (tally (cs_reads_update Suc) c)"
  have st: "store_ok s" and inv: "cache_inv c (contents s)" using g by (simp_all add: good_def)
  have hv: "cache_initted c" "bucket_of ?c nam = ?hv" "lst ?c k = lst c k" for k
    using inv by (simp_all add: bucket_of_def lst_def cache_inv_def)
  note run = r [unfolded cache_get_def, simplified, unfolded Let_def hv, simplified hv m [unfolded missing_def], simplified]
  have disk: "cview c (contents s) (object nam) = disk (contents s) (object nam)"
    using bview_disk [of ?sp "object nam" "contents s"] missing_names [OF m] by (simp add: cview_def bucket_of_def)
  obtain ret s1 where get: "DB_GET db (object nam) s = (ret, s1)" by (metis prod.collapse)
  have g1: "ret = contents s (object nam)" "store_ok s1" "contents s1 = contents s" "faultless s1"
    using get_contents [OF st get] get_keeps [OF st get] fl by auto
  then have good1: "good c s1" using g by (simp add: good_def)
  show ?thesis
  proof (cases ret)
    case None
    then have "v = None" "s' = s1" "same_cache c c'" using run m get by (auto simp: missing_def same_cache_def)
    then show ?thesis using g1 None disk good1 by (simp add: good_tally same_cache_inv disk_def)
  next
    case (Some ob)
    have ob: "wf_cobj ob" "name ob = object nam" "attr_map ob = disk (contents s1) (object nam)"
      using Some g1 inv by (auto simp: cache_inv_def disk_ok_def disk_def)
    have sc1: "same_cache c ?c1" by (simp add: same_cache_def)
    have sp1: "lst_ok (cwidth c) ?hv (contents s1) ?sp" using cache_inv_lst [OF inv cache_inv_bucket [OF inv]] g1 by simp
    obtain fr sp' c2 s2 where fr: "get_free_entry db ?sp ?c1 s1 = (fr, sp', c2, s2)" by (metis prod.collapse)
    then obtain cp where cp: "fr = Some cp" using get_free_entry_succeeds [OF g1(2) sp1 g1(4), of ?c1] by auto
    note mk = miss_ok [OF good1 bucket_eq refl missing_names [OF m] fr [unfolded cp] sc1 ob(1,2)]
    have "v = get_attrib nam ob" "s' = s2" "c' = set_lst ?hv (sp'\<lparr>active := cp\<lparr>op := Some ob\<rparr> # active sp'\<rparr>) c2"
      using run m get Some fr cp by (simp_all add: missing_def)
    then show ?thesis using mk(1) mk(2) [OF ob(3)] g1 ob disk by (simp add: get_attrib_map)
  qed
qed

lemma cache_get_ok:
  assumes g: "good c s" and fl: "faultless s" and r: "cache_get db (Some nam) c s = (v, c', s')"
  shows "v = cview c (contents s) (object nam) (anum nam) \<and> good c' s' \<and> faultless s' \<and>
    cview c' (contents s') = cview c (contents s)"
proof -
  let ?c = "tally (cs_reads_update Suc) c" and ?hv = "bucket_of c nam"
  let ?sp = "lst c ?hv" and ?chit = "tally (cs_rhits_update Suc) (tally (cs_reads_update Suc) c)"
  let ?hit = "\<lambda>cp. case op cp of None \<Rightarrow> None | Some ob \<Rightarrow> get_attrib nam ob"
  have hv: "cache_initted c" "bucket_of ?c nam = ?hv" "lst ?c k = lst c k" for k
    using g by (simp_all add: bucket_of_def lst_def cache_inv_def good_def)
  note run = r [unfolded cache_get_def, simplified, unfolded Let_def hv, simplified hv, simplified]
  have sc: "same_cache c ?chit" "same_cache c (tally (cs_ahits_update Suc) ?chit)" by (simp_all add: same_cache_def)
  consider (active) cp rest where "dequeue (NAMECMP nam) (active ?sp) = Some (cp, rest)"
    | (mactive) cp rest where "dequeue (NAMECMP nam) (active ?sp) = None"
        "dequeue (NAMECMP nam) (mactive ?sp) = Some (cp, rest)"
    | (old) cp rest where "dequeue (NAMECMP nam) (active ?sp) = None" "dequeue (NAMECMP nam) (mactive ?sp) = None"
        "dequeue (NAMECMP nam) (old ?sp) = Some (cp, rest)"
    | (mold) cp rest where "dequeue (NAMECMP nam) (active ?sp) = None" "dequeue (NAMECMP nam) (mactive ?sp) = None"
        "dequeue (NAMECMP nam) (old ?sp) = None" "dequeue (NAMECMP nam) (mold ?sp) = Some (cp, rest)"
    | (miss) "missing nam ?sp"
    unfolding missing_def by (metis (no_types) option.exhaust prod.exhaust)
  then show ?thesis
  proof cases
    case active
    then show ?thesis using get_in_place [OF g fl r active] run sc by simp
  next
    case mactive
    then show ?thesis using get_in_place [OF g fl r mactive(2)] run sc by simp
  next
    case old
    show ?thesis
      by (rule get_moved [OF g fl old(3) refl, where cc = ?chit and sp' = "?sp\<lparr>old := rest, active := cp # active ?sp\<rparr>"])
        (use run old sc(1) in simp_all)
  next
    case mold
    show ?thesis
      by (rule get_moved [OF g fl mold(4) refl, where cc = ?chit and sp' = "?sp\<lparr>mold := rest, mactive := cp # mactive ?sp\<rparr>"])
        (use run mold sc(1) in simp_all)
  next
    case miss
    then show ?thesis by (rule get_miss [OF g fl r])
  qed
qed

end

definition few :: "(32 word \<Rightarrow> string option) \<Rightarrow> bool" where
  "few m \<longleftrightarrow> card (dom m) < 2 ^ 31 - 1"

lemma attr_map_dom: "dom (attr_map ob) = attrnum ` set (attrs ob)"
proof -
  have "find (\<lambda>a. attrnum a = n) as = None \<longleftrightarrow> n \<notin> attrnum ` set as" for n as
    by (induction as) auto
  then show ?thesis by (auto simp: attr_map_def dom_def) (metis image_eqI option.distinct(1))+
qed

lemma few_roomy: "wf_cobj ob \<Longrightarrow> few (attr_map ob) \<Longrightarrow> roomy ob"
proof -
  assume wf: "wf_cobj ob" and f: "few (attr_map ob)"
  have "card (attrnum ` set (attrs ob)) = length (attrs ob)"
    using wf by (metis distinct_card length_map list.set_map wf_cobj_def)
  then have "length (attrs ob) < 2 ^ 31 - 1" using f by (simp add: few_def attr_map_dom)
  moreover have "at_count ob = int (length (attrs ob))" using wf wf_obj_attrs by (simp add: wf_cobj_def)
  ultimately show ?thesis by (simp add: roomy_def)
qed

context chunk_store
begin

lemma touch_ok:
  assumes g: "good c s" and t: "touch nam f (lst c (bucket_of c nam)) = Some sp'" and sc: "same_cache c c'"
    and f: "\<And>ob. wf_cobj ob \<Longrightarrow> attr_map ob = cview c (contents s) (object nam) \<Longrightarrow>
      wf_cobj (f ob) \<and> name (f ob) = name ob \<and> attr_map (f ob) = h (attr_map ob)"
  shows "good (set_lst (bucket_of c nam) sp' c') s \<and> cview (set_lst (bucket_of c nam) sp' c') (contents s) =
    (cview c (contents s))(object nam := h (cview c (contents s) (object nam)))"
proof -
  let ?hv = "bucket_of c nam" and ?C = "contents s" and ?n = "object nam"
  have inv: "cache_inv c ?C" using g by (simp add: good_def)
  have lt: "?hv < cwidth c" by (rule cache_inv_bucket [OF inv])
  note l = cache_inv_lst [OF inv lt]
  have dk: "disk_ok ?C" using inv by (simp add: cache_inv_def)
  have "solid (lst c ?hv)" using l by (simp add: lst_ok_def)
  then obtain ob where ob: "name ob = ?n" "changes ob (f ob) (lst c ?hv) sp'" "solid sp'" "same_size (lst c ?hv) sp'"
    by (rule touch_Some [OF t])
  have "ob \<in># clean (lst c ?hv) + dirty (lst c ?hv)" using ob(2) by (auto simp: changes_def)
  then have wf: "wf_cobj ob" and am: "attr_map ob = cview c ?C ?n"
    using l bview_cached [OF l] ob(1) by (auto simp: lst_ok_def cview_def bucket_of_def)
  note f' = f [OF wf am]
  have fn: "wf_cobj (f ob)" "name (f ob) = name ob" using f' by blast+
  note ch = changes_ok [OF l ob(2) fn ob(3,4)]
  note set = set_lst_ok [OF inv sc lt ch(1) dk]
  have "good (set_lst ?hv sp' c') s" using set(1) g by (simp add: good_def)
  moreover have "cview (set_lst ?hv sp' c') ?C m = ((cview c ?C)(?n := h (cview c ?C ?n))) m" for m
    using set(2) [of m] ch(2) f' am ob(1) by (auto simp: cview_def bucket_of_def)
  ultimately show ?thesis by blast
qed

lemma touch_missing: "touch nam f sp = None \<Longrightarrow> \<forall>ob\<in>#clean sp + dirty sp. name ob \<noteq> object nam"
  using touch_None by blast

lemma cview_missing:
  "\<forall>ob\<in>#clean (lst c (bucket_of c nam)) + dirty (lst c (bucket_of c nam)). name ob \<noteq> object nam \<Longrightarrow>
     cview c C (object nam) = disk C (object nam)"
  using bview_disk [of "lst c (bucket_of c nam)" "object nam" C] by (simp add: cview_def bucket_of_def)

lemma cache_put_ok:
  assumes g: "good c s" and fl: "faultless s" and r: "cache_put db (Some nam) (Some v) c s = (rc, c', s')"
    and len: "int (length v) + 1 < 2 ^ 31" and few: "few (cview c (contents s) (object nam))"
  shows "rc = 0 \<and> good c' s' \<and> faultless s' \<and> cview c' (contents s') =
    (cview c (contents s))(object nam := (cview c (contents s) (object nam))(anum nam \<mapsto> v @ [NUL]))"
proof -
  let ?c = "tally (cs_writes_update Suc) c" and ?hv = "bucket_of c nam" and ?n = "object nam"
  let ?sp = "lst c ?hv" and ?f = "\<lambda>ob. set_attrib nam ob v"
  have st: "store_ok s" and inv: "cache_inv c (contents s)" using g by (simp_all add: good_def)
  have hv: "cache_initted c" "bucket_of ?c nam = ?hv" "lst ?c k = lst c k" for k
    using inv by (simp_all add: bucket_of_def lst_def cache_inv_def)
  have set: "wf_cobj (?f ob) \<and> name (?f ob) = name ob \<and> attr_map (?f ob) = (attr_map ob)(anum nam \<mapsto> v @ [NUL])"
    if "wf_cobj ob" "attr_map ob = cview c (contents s) ?n" for ob
    using set_attrib_laws [OF that(1) few_roomy len] that few by simp
  show ?thesis
  proof (cases "touch nam ?f ?sp")
    case (Some sp')
    then have e: "rc = 0" "s' = s" "c' = set_lst ?hv sp' (tally (cs_whits_update Suc) ?c)"
      using r hv by (simp_all add: cache_put_def Let_def)
    have "same_cache c (tally (cs_whits_update Suc) ?c)" by (simp add: same_cache_def)
    from touch_ok [OF g Some this, where h = "\<lambda>m. m(anum nam \<mapsto> v @ [NUL])", OF set] show ?thesis using e fl by simp
  next
    case None
    note miss = touch_missing [OF None]
    obtain ret s1 where get: "DB_GET db ?n s = (ret, s1)" by (metis prod.collapse)
    have g1: "ret = contents s ?n" "store_ok s1" "contents s1 = contents s" "faultless s1"
      using get_contents [OF st get] get_keeps [OF st get] fl by auto
    then have good1: "good c s1" using g by (simp add: good_def)
    let ?ob = "?f (case ret of None \<Rightarrow> new_obj ?n | Some ob \<Rightarrow> ob)"
    have view: "cview c (contents s) ?n = disk (contents s) ?n" by (rule cview_missing [OF miss])
    have ob: "wf_cobj ?ob \<and> name ?ob = ?n \<and> attr_map ?ob = (cview c (contents s) ?n)(anum nam \<mapsto> v @ [NUL])"
    proof (cases ret)
      case None
      then show ?thesis using set_attrib_new [OF len] g1(1) view by (simp add: disk_def)
    next
      case (Some ob)
      then have "wf_cobj ob" "name ob = ?n" using inv g1(1) by (auto simp: cache_inv_def disk_ok_def)
      then show ?thesis using set [of ob] Some g1(1) view by (simp add: disk_def)
    qed
    have sp1: "lst_ok (cwidth c) ?hv (contents s1) ?sp" using cache_inv_lst [OF inv cache_inv_bucket [OF inv]] g1 by simp
    obtain fr sp' c2 s2 where fr: "get_free_entry db ?sp ?c s1 = (fr, sp', c2, s2)" by (metis prod.collapse)
    then obtain cp where cp: "fr = Some cp" using get_free_entry_succeeds [OF g1(2) sp1 g1(4), of ?c] by auto
    have e: "rc = 0" "s' = s2" "c' = set_lst ?hv (sp'\<lparr>mactive := cp\<lparr>op := Some ?ob\<rparr> # mactive sp'\<rparr>) c2"
      using r None get fr cp hv by (simp_all add: cache_put_def Let_def)
    have obw: "wf_cobj ?ob" "name ?ob = ?n" using ob by blast+
    note mk = miss_ok [OF good1 bucket_eq refl miss fr [unfolded cp] same_cache_tally obw]
    show ?thesis using mk(1,3) g1 ob e by simp
  qed
qed

lemma cache_del_ok:
  assumes g: "good c s" and fl: "faultless s" and r: "cache_del db (Some nam) c s = (c', s')"
  shows "good c' s' \<and> faultless s' \<and> cview c' (contents s') =
    (cview c (contents s))(object nam := (cview c (contents s) (object nam))(anum nam := None))"
proof -
  let ?c = "tally (cs_dels_update Suc) c" and ?hv = "bucket_of c nam" and ?n = "object nam"
  let ?sp = "lst c ?hv"
  have st: "store_ok s" and inv: "cache_inv c (contents s)" using g by (simp_all add: good_def)
  have hv: "cache_initted c" "bucket_of ?c nam = ?hv" "lst ?c k = lst c k" for k
    using inv by (simp_all add: bucket_of_def lst_def cache_inv_def)
  show ?thesis
  proof (cases "touch nam (del_attrib nam) ?sp")
    case (Some sp')
    then have e: "s' = s" "c' = set_lst ?hv sp' ?c" using r hv by (simp_all add: cache_del_def Let_def)
    show ?thesis using touch_ok [OF g Some same_cache_tally, where h = "\<lambda>m. m(anum nam := None)"] del_attrib_laws e fl by simp
  next
    case None
    note miss = touch_missing [OF None]
    obtain ret s1 where get: "DB_GET db ?n s = (ret, s1)" by (metis prod.collapse)
    have g1: "ret = contents s ?n" "store_ok s1" "contents s1 = contents s" "faultless s1"
      using get_contents [OF st get] get_keeps [OF st get] fl by auto
    then have good1: "good c s1" using g by (simp add: good_def)
    have view: "cview c (contents s) ?n = disk (contents s) ?n" by (rule cview_missing [OF miss])
    show ?thesis
    proof (cases ret)
      case None2: None
      then have e: "s' = s1" "same_cache c c'" using r None get hv by (auto simp: cache_del_def Let_def)
      have empty: "cview c (contents s) ?n = Map.empty" using view g1(1) None2 by (simp add: disk_def)
      have "(cview c (contents s))(?n := (cview c (contents s) ?n)(anum nam := None)) = cview c (contents s)"
        unfolding empty using empty by (auto simp: fun_eq_iff)
      then show ?thesis using e g1 good1 by (simp add: good_tally same_cache_inv)
    next
      case (Some ob)
      then have ob: "wf_cobj ob" "name ob = ?n" "attr_map ob = cview c (contents s) ?n"
        using inv g1(1) view by (auto simp: cache_inv_def disk_ok_def disk_def)
      have sp1: "lst_ok (cwidth c) ?hv (contents s1) ?sp" using cache_inv_lst [OF inv cache_inv_bucket [OF inv]] g1 by simp
      obtain fr sp' c2 s2 where fr: "get_free_entry db ?sp ?c s1 = (fr, sp', c2, s2)" by (metis prod.collapse)
      then obtain cp where cp: "fr = Some cp" using get_free_entry_succeeds [OF g1(2) sp1 g1(4), of ?c] by auto
      have e: "s' = s2" "c' = set_lst ?hv (sp'\<lparr>mactive := cp\<lparr>op := Some (del_attrib nam ob)\<rparr> # mactive sp'\<rparr>) c2"
        using r None get Some fr cp hv by (simp_all add: cache_del_def Let_def)
      have obw: "wf_cobj (del_attrib nam ob)" "name (del_attrib nam ob) = ?n" using del_attrib_laws [OF ob(1), of nam] ob(2) by simp_all
      note mk = miss_ok [OF good1 bucket_eq refl miss fr [unfolded cp] same_cache_tally obw]
      show ?thesis using mk(1,3) g1 ob del_attrib_laws [OF ob(1), of nam] e by simp
    qed
  qed
qed

end

subsection \<open>Trimming and resetting\<close>

definition keeps :: "CacheLst \<Rightarrow> CacheLst \<Rightarrow> bool" where
  "keeps sp sp' \<longleftrightarrow> (\<forall>W hv C. lst_ok W hv C sp \<longrightarrow> lst_ok W hv C sp' \<and> bview C sp' = bview C sp \<and> dirty sp' = dirty sp)"

lemma objs_filter: "objs xs = objs (filter P xs) + objs (filter (\<lambda>x. \<not> P x) xs)"
  by (induction xs) (auto split: option.split)

lemma length_filter_split: "length xs = length (filter P xs) + length (filter (\<lambda>x. \<not> P x) xs)"
  by (induction xs) auto

lemma cache_trim_keeps: "cache_trim sp c = (sp', c') \<Longrightarrow> keeps sp sp' \<and> same_cache c c'"
proof -
  assume r: "cache_trim sp c = (sp', c')"
  let ?g = "int (length (filter (\<lambda>cp. \<not> pool cp) (old sp)))"
  have e: "sp' = sp\<lparr>old := filter pool (old sp), lcount := lcount sp - ?g\<rparr>" and sc: "same_cache c c'"
    using r by (auto simp: cache_trim_def Let_def)
  have dr: "drops sp sp'" using objs_filter [of "old sp" pool] by (auto simp: e drops_def clean_def dirty_def ac_simps)
  have "keeps sp sp'"
    unfolding keeps_def
  proof (intro allI impI)
    fix W hv C assume l: "lst_ok W hv C sp"
    have "solid sp'" using l by (simp add: e lst_ok_def solid_def)
    moreover have "lcount sp' = int (entries sp')"
      using l length_filter_split [of "old sp" pool] by (simp add: e lst_ok_def entries_def)
    ultimately show "lst_ok W hv C sp' \<and> bview C sp' = bview C sp \<and> dirty sp' = dirty sp"
      using drops_ok [OF l dr] dr by (simp add: drops_def)
  qed
  with sc show ?thesis by blast
qed

lemma reset_lst_keeps: "keeps sp (reset_lst busy sp)"
  unfolding keeps_def
proof (intro allI impI)
  fix W hv C assume l: "lst_ok W hv C sp"
  have "clean (reset_lst busy sp) = clean sp" "dirty (reset_lst busy sp) = dirty sp" "solid (reset_lst busy sp)"
      "entries (reset_lst busy sp) = entries sp" "lcount (reset_lst busy sp) = lcount sp"
    using l by (auto simp: reset_lst_def Let_def clean_def dirty_def solid_def entries_def lst_ok_def)
  then show "lst_ok W hv C (reset_lst busy sp) \<and> bview C (reset_lst busy sp) = bview C sp \<and> dirty (reset_lst busy sp) = dirty sp"
    using move_ok [OF l] by simp
qed

lemma keeps_trans: "keeps a b \<Longrightarrow> keeps b c \<Longrightarrow> keeps a c"
  unfolding keeps_def by metis

lemma reset_loop_keeps: "reset_loop trim sps c = (sps', c') \<Longrightarrow> list_all2 keeps sps sps' \<and> same_cache c c'"
proof (induction trim sps c arbitrary: sps' c' rule: reset_loop.induct)
  case (2 trim sp sps c)
  let ?sp1 = "reset_lst (cache_busy c) sp"
  obtain sp2 c1 where t: "(if trim then cache_trim ?sp1 c else (?sp1, c)) = (sp2, c1)" by (metis prod.collapse)
  obtain rest c2 where rs: "reset_loop trim sps c1 = (rest, c2)" by (metis prod.collapse)
  have "keeps sp sp2 \<and> same_cache c c1"
    using t reset_lst_keeps [of sp "cache_busy c"] cache_trim_keeps [of ?sp1 c sp2 c1]
    by (auto intro: keeps_trans split: if_splits)
  moreover have "list_all2 keeps sps rest \<and> same_cache c1 c2" using 2(1) [OF refl t [symmetric] refl rs] .
  ultimately show ?case using 2(2) t rs by (auto intro: same_cache_trans)
qed simp

lemma keeps_cache:
  assumes "cache_inv c C" "sys_c c = Some ls" "list_all2 keeps ls ls'" "same_cache c c'"
  shows "cache_inv (c'\<lparr>sys_c := Some ls'\<rparr>) C \<and> cview (c'\<lparr>sys_c := Some ls'\<rparr>) C = cview c C"
proof -
  have len: "length ls' = length ls" using assms(3) by (simp add: list_all2_lengthD)
  have l: "lst_ok (cwidth c) hv C (ls ! hv)" "keeps (ls ! hv) (ls' ! hv)" if "hv < cwidth c" for hv
    using assms(1-3) that by (auto simp: cache_inv_def list_all2_conv_all_nth)
  then have "cache_inv (c'\<lparr>sys_c := Some ls'\<rparr>) C" using assms len by (simp add: cache_inv_def same_cache_def keeps_def)
  moreover have "0 < cwidth c" using assms(1) by (simp add: cache_inv_def)
  moreover have "bview C (ls' ! hv) = bview C (ls ! hv)" if "hv < cwidth c" for hv
    using l [OF that] unfolding keeps_def by blast
  ultimately show ?thesis using assms(2,4) by (simp add: cview_def lst_def same_cache_def fun_eq_iff)
qed

lemma cache_reset_ok:
  assumes "cache_inv c C"
  shows "cache_inv (cache_reset cf trim c) C \<and> cview (cache_reset cf trim c) C = cview c C \<and>
    cwidth (cache_reset cf trim c) = cwidth c \<and> cache_frozen (cache_reset cf trim c) = cache_frozen c"
proof -
  obtain ls where ls: "sys_c c = Some ls" "cache_initted c" using assms by (auto simp: cache_inv_def)
  obtain ls' c' where r: "reset_loop (trim \<and> cf) ls c = (ls', c')" by (metis prod.collapse)
  note k = reset_loop_keeps [OF r]
  have e: "cache_reset cf trim c = tally (cs_resets_update Suc) (c'\<lparr>sys_c := Some ls'\<rparr>)"
    using ls r by (simp add: cache_reset_def)
  have "cache_inv (c'\<lparr>sys_c := Some ls'\<rparr>) C \<and> cview (c'\<lparr>sys_c := Some ls'\<rparr>) C = cview c C"
    using keeps_cache [OF assms ls(1)] k by blast
  then show ?thesis using k same_cache_inv [OF same_cache_tally, of "cs_resets_update Suc" "c'\<lparr>sys_c := Some ls'\<rparr>" C]
    by (simp add: e same_cache_def)
qed

subsection \<open>Setting up\<close>

lemma objs_replicate_None: "objs (replicate n \<lparr>op = None, pool = b\<rparr>) = {#}"
  by (induction n) auto

lemma empty_lst_ok: "lst_ok W hv C (empty_lst d)"
  by (simp add: lst_ok_def empty_lst_def clean_def dirty_def objs_replicate_None solid_def entries_def)

lemma cache_init_ok:
  assumes "disk_ok C" "sys_c c = None" "\<not> cache_initted c" "width \<noteq> 0 \<or> cwidth c \<noteq> 0" "cache_init width depth c = (rc, c')"
  shows "rc = 0 \<and> cache_inv c' C \<and> cview c' C = disk C"
proof -
  let ?w = "if width \<noteq> 0 then width else cwidth c" and ?d = "if depth \<noteq> 0 then depth else cdepth c"
  have e: "rc = 0" "sys_c c' = Some (replicate ?w (empty_lst ?d))" "cwidth c' = ?w" "cache_initted c'"
    using assms(2,3,5) by (auto simp: cache_init_def Let_def tally_def)
  then have "cache_inv c' C" using assms(1,4) empty_lst_ok by (auto simp: cache_inv_def)
  moreover have "cview c' C n = disk C n" for n
  proof -
    have "unat n mod ?w < ?w" using assms(4) by (cases "width = 0") auto
    then have "lst c' (unat n mod ?w) = empty_lst ?d" unfolding lst_def e(2) by (simp only: option.case nth_replicate)
    then show ?thesis using e(3) by (simp add: cview_def bview_def dirty_obj_def empty_lst_def)
  qed
  ultimately show ?thesis using e(1) by blast
qed

subsection \<open>Synchronising\<close>

lemma uniq_disjoint:
  assumes "uniq (A + B)" "p \<in># A" "q \<in># B"
  shows "name q \<noteq> name p"
proof -
  obtain A' where A: "A = add_mset p A'" using assms(2) by (metis mset_add)
  have "uniq (add_mset p (A' + B))" using assms(1) unfolding A by (simp only: union_mset_add_mset_left)
  then have "\<forall>x\<in>#A' + B. name x \<noteq> name p" unfolding uniq_add by (rule conjunct1)
  then show ?thesis using assms(3) by simp
qed

lemma cache_clean_ok:
  assumes l: "lst_ok W hv C sp"
    and w: "\<And>ob. ob \<in># dirty sp \<Longrightarrow> disk C' (name ob) = attr_map ob"
    and k: "\<And>n. (\<forall>ob\<in>#dirty sp. name ob \<noteq> n) \<Longrightarrow> C' n = C n"
  shows "lst_ok W hv C' (cache_clean sp)" and "dirty (cache_clean sp) = {#}" and "disk C' n = bview C sp n"
proof -
  have f: "clean (cache_clean sp) = clean sp + dirty sp" "dirty (cache_clean sp) = {#}" "solid (cache_clean sp)"
      "entries (cache_clean sp) = entries sp" "lcount (cache_clean sp) = lcount sp"
    by (simp_all add: cache_clean_def clean_def dirty_def solid_def entries_def)
  show "dirty (cache_clean sp) = {#}" by (rule f)
  have "attr_map ob = disk C' (name ob)" if ob: "ob \<in># clean sp" for ob
  proof -
    obtain M where "clean sp = add_mset ob M" using ob by (metis mset_add)
    then have "\<forall>p\<in>#dirty sp. name p \<noteq> name ob" using l by (auto simp: lst_ok_def)
    then have "C' (name ob) = C (name ob)" by (rule k)
    then show ?thesis using l ob by (simp add: lst_ok_def disk_def)
  qed
  then show "lst_ok W hv C' (cache_clean sp)" using l w by (auto simp: lst_ok_def f)
  show "disk C' n = bview C sp n"
  proof (cases "\<exists>ob\<in>#dirty sp. name ob = n")
    case True
    then show ?thesis using w bview_dirty [OF l] by auto
  next
    case False
    then show ?thesis using bview_disk [of sp n C] k [of n] by (auto simp: disk_def)
  qed
qed

definition bucket_synced :: "nat \<Rightarrow> nat \<Rightarrow> (Objname \<Rightarrow> Obj option) \<Rightarrow> (Objname \<Rightarrow> Obj option) \<Rightarrow> CacheLst \<Rightarrow> CacheLst \<Rightarrow> bool" where
  "bucket_synced W k C C' sp sp' \<longleftrightarrow> lst_ok W k C' sp' \<and> dirty sp' = {#} \<and>
     (\<forall>n. unat n mod W = k \<longrightarrow> disk C' n = bview C sp n)"

context chunk_store
begin

lemma cache_write_ok:
  assumes "store_ok s" "disk_ok (contents s)" "uniq (objs xs)" "\<forall>ob\<in>#objs xs. wf_cobj ob"
    "cache_write db xs c s = (0, c', s')"
  shows "store_ok s' \<and> disk_ok (contents s') \<and> (faultless s \<longrightarrow> faultless s') \<and> same_cache c c' \<and>
    (\<forall>ob\<in>#objs xs. disk (contents s') (name ob) = attr_map ob) \<and>
    (\<forall>n. (\<forall>ob\<in>#objs xs. name ob \<noteq> n) \<longrightarrow> contents s' n = contents s n)"
  using assms
proof (induction xs arbitrary: c s)
  case (Cons cp cps)
  obtain ob where ob: "op cp = Some ob" using Cons.prems(5) by (cases "op cp") auto
  obtain ok c1 s1 where wb: "write_back db ob c s = (ok, c1, s1)" by (metis prod.collapse)
  have step: ok "cache_write db cps c1 s1 = (0, c', s')" using Cons.prems(5) ob wb by (simp_all split: if_splits)
  have wf: "wf_cobj ob" and fresh: "\<forall>p\<in>#objs cps. name p \<noteq> name ob" and u: "uniq (objs cps)"
    using Cons.prems(3,4) ob by simp_all
  have w: "store_ok s1" "contents s1 = (contents s)(name ob := saved ob)" "faultless s \<longrightarrow> faultless s1" "same_cache c c1"
    using write_back_ok [OF Cons.prems(1) wf, of c c1 s1] wb step by auto
  have dk: "disk_ok (contents s1)" using disk_ok_saved [OF Cons.prems(2) wf] w(2) by simp
  have all: "\<forall>ob\<in>#objs cps. wf_cobj ob" using Cons.prems(4) ob by simp
  note ih = Cons.IH [OF w(1) dk u all step(2)]
  have "contents s' (name ob) = contents s1 (name ob)" using ih fresh by blast
  then have "disk (contents s') (name ob) = attr_map ob" using disk_saved [OF wf] w(2) by (simp add: disk_def)
  then show ?case using ih w ob same_cache_trans [OF w(4)] by auto
qed (simp add: same_cache_def)

lemma cache_write_succeeds:
  assumes "store_ok s" "uniq (objs xs)" "\<forall>ob\<in>#objs xs. wf_cobj ob" "\<forall>cp\<in>set xs. op cp \<noteq> None" "faultless s"
  shows "fst (cache_write db xs c s) = 0"
  using assms
proof (induction xs arbitrary: c s)
  case (Cons cp cps)
  obtain ob where ob: "op cp = Some ob" using Cons.prems(4) by auto
  have wf: "wf_cobj ob" using Cons.prems(3) ob by simp
  obtain c1 s1 where wb: "write_back db ob c s = (True, c1, s1)"
    using write_back_succeeds [OF Cons.prems(1) wf Cons.prems(5), of c] by (metis prod.collapse)
  have "store_ok s1" "faultless s1" using write_back_ok [OF Cons.prems(1) wf wb] Cons.prems(5) by blast+
  then show ?case using Cons.IH [of s1 c1] Cons.prems ob wb by simp
qed simp

lemma bucket_sync_ok:
  assumes st: "store_ok s" "disk_ok (contents s)" and l: "lst_ok W k (contents s) sp"
    and w: "cache_write db (mold sp) c s = (0, c1, s1)" "cache_write db (mactive sp) c1 s1 = (0, c2, s2)"
    and t: "(if cf then cache_trim (cache_clean sp) c2 else (cache_clean sp, c2)) = (sp', c3)"
  shows "store_ok s2 \<and> disk_ok (contents s2) \<and> (faultless s \<longrightarrow> faultless s2) \<and> same_cache c c3 \<and>
    bucket_synced W k (contents s) (contents s2) sp sp' \<and>
    (\<forall>n. unat n mod W \<noteq> k \<longrightarrow> contents s2 n = contents s n)"
proof -
  have u: "uniq (dirty sp)" by (rule lst_ok_dirty [OF l])
  have u1: "uniq (objs (mold sp))" and u2: "uniq (objs (mactive sp))"
    using u uniq_sub [of "objs (mold sp)" "objs (mactive sp)"] uniq_sub [of "objs (mactive sp)" "objs (mold sp)"]
    by (simp_all add: dirty_def add.commute)
  have wf: "\<forall>ob\<in>#objs (mold sp). wf_cobj ob" "\<forall>ob\<in>#objs (mactive sp). wf_cobj ob"
    using l by (simp_all add: lst_ok_def dirty_def)
  note w1 = cache_write_ok [OF st u1 wf(1) w(1)]
  have "store_ok s1" "disk_ok (contents s1)" using w1 by blast+
  note w2 = cache_write_ok [OF this u2 wf(2) w(2)]
  have disj: "name p \<noteq> name q" if "p \<in># objs (mold sp)" "q \<in># objs (mactive sp)" for p q
    using uniq_disjoint [OF u [unfolded dirty_def] that(2,1)] .
  have on: "disk (contents s2) (name ob) = attr_map ob" if "ob \<in># dirty sp" for ob
  proof (cases "ob \<in># objs (mactive sp)")
    case True
    then show ?thesis using w2 by blast
  next
    case False
    then have m: "ob \<in># objs (mold sp)" using that by (simp add: dirty_def)
    then have "\<forall>q\<in>#objs (mactive sp). name q \<noteq> name ob" using disj [OF m] by metis
    then have "contents s2 (name ob) = contents s1 (name ob)" using w2 by blast
    moreover have "disk (contents s1) (name ob) = attr_map ob" using w1 m by blast
    ultimately show ?thesis by (simp add: disk_def)
  qed
  have off: "contents s2 n = contents s n" if "\<forall>ob\<in>#dirty sp. name ob \<noteq> n" for n
    using that w1 w2 by (simp add: dirty_def)
  note cl = cache_clean_ok [OF l on off]
  have t': "keeps (cache_clean sp) sp' \<and> same_cache c2 c3"
    using t cache_trim_keeps [of "cache_clean sp" c2 sp' c3] by (auto simp: keeps_def split: if_splits)
  then have "lst_ok W k (contents s2) sp' \<and> dirty sp' = dirty (cache_clean sp)"
    using cl(1) unfolding keeps_def by blast
  then have "lst_ok W k (contents s2) sp'" "dirty sp' = {#}" using cl(2) by simp_all
  moreover have "contents s2 n = contents s n" if n: "unat n mod W \<noteq> k" for n :: Objname
  proof (rule off)
    show "\<forall>ob\<in>#dirty sp. name ob \<noteq> n" using l n by (auto simp: lst_ok_def)
  qed
  moreover have "same_cache c c3" using w1 w2 t' by (simp add: same_cache_def)
  ultimately show ?thesis using w1 w2 cl(3) by (simp add: bucket_synced_def)
qed

end

definition synced_from :: "nat \<Rightarrow> nat \<Rightarrow> (Objname \<Rightarrow> Obj option) \<Rightarrow> (Objname \<Rightarrow> Obj option) \<Rightarrow> CacheLst list \<Rightarrow> CacheLst list \<Rightarrow> bool" where
  "synced_from W k C C' sps sps' \<longleftrightarrow> length sps' = length sps \<and>
     (\<forall>i<length sps. bucket_synced W (k + i) C C' (sps ! i) (sps' ! i)) \<and>
     (\<forall>n. unat n mod W < k \<or> k + length sps \<le> unat n mod W \<longrightarrow> C' n = C n)"

lemma bview_disk_cong: "disk C' n = disk C n \<Longrightarrow> bview C' sp n = bview C sp n"
  by (simp add: bview_def split: option.split)

lemma synced_from_Cons:
  assumes h: "bucket_synced W k C C1 sp sp'" "\<forall>n. unat n mod W \<noteq> k \<longrightarrow> C1 n = C n"
    and t: "synced_from W (Suc k) C1 C' sps sps'"
  shows "synced_from W k C C' (sp # sps) (sp' # sps')"
proof -
  have C': "C' n = C1 n" if "unat n mod W = k" for n using t that by (simp add: synced_from_def)
  have C1: "C1 n = C n" if "unat n mod W \<noteq> k" for n using h(2) that by blast
  have "lst_ok W k C' sp'" using h(1) lst_ok_other [of W k C1 sp' C'] C' by (simp add: bucket_synced_def)
  then have first: "bucket_synced W k C C' sp sp'" using h(1) C' by (simp add: bucket_synced_def disk_def)
  have rest: "bucket_synced W (k + Suc i) C C' (sps ! i) (sps' ! i)" if "i < length sps" for i
  proof -
    have b: "bucket_synced W (k + Suc i) C1 C' (sps ! i) (sps' ! i)" using t that by (simp add: synced_from_def)
    have "bview C1 (sps ! i) n = bview C (sps ! i) n" if "unat n mod W = k + Suc i" for n
      by (rule bview_disk_cong) (use C1 [of n] that in \<open>simp add: disk_def\<close>)
    then show ?thesis using b by (simp add: bucket_synced_def)
  qed
  have "bucket_synced W (k + i) C C' ((sp # sps) ! i) ((sp' # sps') ! i)" if "i < length (sp # sps)" for i
    using first rest that by (cases i) simp_all
  moreover have "C' n = C n" if "unat n mod W < k \<or> k + length (sp # sps) \<le> unat n mod W" for n
    using that t C1 [of n] by (auto simp: synced_from_def)
  moreover have "length sps' = length sps" using t by (simp add: synced_from_def)
  ultimately show ?thesis unfolding synced_from_def by simp
qed

context chunk_store
begin

lemma sync_loop_ok:
  assumes "store_ok s" "disk_ok (contents s)" "\<forall>i<length sps. lst_ok W (k + i) (contents s) (sps ! i)"
    "sync_loop db cf sps c s = (0, sps', c', s')"
  shows "store_ok s' \<and> disk_ok (contents s') \<and> (faultless s \<longrightarrow> faultless s') \<and> same_cache c c' \<and>
    synced_from W k (contents s) (contents s') sps sps'"
  using assms
proof (induction sps arbitrary: k c s sps')
  case Nil
  then show ?case by (simp add: synced_from_def)
next
  case (Cons sp sps)
  obtain r1 c1 s1 where w1: "cache_write db (mold sp) c s = (r1, c1, s1)" by (metis prod.collapse)
  obtain r2 c2 s2 where w2: "cache_write db (mactive sp) c1 s1 = (r2, c2, s2)" by (metis prod.collapse)
  obtain sp' c3 where t: "(if cf then cache_trim (cache_clean sp) c2 else (cache_clean sp, c2)) = (sp', c3)"
    by (metis prod.collapse)
  obtain r4 rest c4 s4 where lp: "sync_loop db cf sps c3 s2 = (r4, rest, c4, s4)" by (metis prod.collapse)
  have e: "r1 = 0" "r2 = 0" "r4 = 0" "sps' = sp' # rest" "c' = c4" "s' = s4"
    using Cons.prems(4) w1 w2 t lp by (auto simp: Let_def split: if_splits prod.splits)
  have l: "lst_ok W k (contents s) sp" using Cons.prems(3) [rule_format, of 0] by simp
  note b = bucket_sync_ok [OF Cons.prems(1,2) l w1 [unfolded e] w2 [unfolded e] t]
  have "lst_ok W (Suc k + i) (contents s2) (sps ! i)" if "i < length sps" for i
    using lst_ok_other [of W "Suc k + i" "contents s" "sps ! i" "contents s2"] Cons.prems(3) [rule_format, of "Suc i"] b that
    by simp
  then have ih: "store_ok s4 \<and> disk_ok (contents s4) \<and> (faultless s2 \<longrightarrow> faultless s4) \<and> same_cache c3 c4 \<and>
      synced_from W (Suc k) (contents s2) (contents s4) sps rest"
    using Cons.IH [of s2 "Suc k" c3 rest] b lp e by simp
  then have "synced_from W k (contents s) (contents s4) (sp # sps) (sp' # rest)"
    using b synced_from_Cons [of W k "contents s" "contents s2" sp sp' "contents s4" sps rest] by simp
  then show ?case using ih b e by (simp add: same_cache_def)
qed

lemma cache_sync_ok:
  assumes g: "good c s" and nf: "\<not> cache_frozen c" and r: "cache_sync db cf c s = (0, c', s')"
  shows "good c' s' \<and> (faultless s \<longrightarrow> faultless s') \<and> cview c' (contents s') = cview c (contents s) \<and>
    disk (contents s') = cview c (contents s)"
proof -
  let ?c = "tally (cs_syncs_update Suc) c"
  let ?c1 = "cache_reset cf False ?c" and ?C = "contents s" and ?W = "cwidth c"
  have st: "store_ok s" and inv: "cache_inv ?c ?C" using g same_cache_inv [OF same_cache_tally] by (simp_all add: good_def)
  have dk: "disk_ok ?C" and init: "cache_initted c" using inv by (simp_all add: cache_inv_def)
  note rs = cache_reset_ok [OF inv, of cf False]
  have W: "cwidth ?c1 = ?W" using rs by simp
  obtain ls where ls: "sys_c ?c1 = Some ls" "length ls = ?W" "\<forall>i<length ls. lst_ok ?W (0 + i) ?C (ls ! i)"
    using rs W by (auto simp: cache_inv_def)
  obtain rc ls' c2 s2 where lp: "sync_loop db cf ls ?c1 s = (rc, ls', c2, s2)" by (metis prod.collapse)
  have e: "rc = 0" "c' = c2\<lparr>sys_c := Some ls'\<rparr>" "s' = s2"
    using r init nf ls(1) lp by (simp_all add: cache_sync_def Let_def)
  note sy = sync_loop_ok [OF st dk ls(3) lp [unfolded e(1)]]
  have W0: "0 < ?W" using inv by (simp add: cache_inv_def)
  have len: "length ls' = ?W" and b: "bucket_synced ?W i ?C (contents s2) (ls ! i) (ls' ! i)" if "i < ?W" for i
    using sy ls(2) that by (auto simp: synced_from_def)
  have "cache_inv c' (contents s')"
    using sy W rs len [OF W0] b unfolding e by (simp add: cache_inv_def same_cache_def bucket_synced_def)
  moreover have v: "disk (contents s2) n = cview c ?C n" for n
  proof -
    have "disk (contents s2) n = bview ?C (ls ! (unat n mod ?W)) n" using b [of "unat n mod ?W"] W0 by (simp add: bucket_synced_def)
    also have "\<dots> = cview ?c1 ?C n" using ls(1) W by (simp add: cview_def lst_def)
    finally show ?thesis using rs same_cache_inv [OF same_cache_tally] by simp
  qed
  moreover have "cview c' (contents s') n = disk (contents s2) n" for n
  proof -
    have "dirty (ls' ! (unat n mod ?W)) = {#}" using b [of "unat n mod ?W"] W0 by (simp add: bucket_synced_def)
    then have "bview (contents s2) (ls' ! (unat n mod ?W)) n = disk (contents s2) n" using bview_disk by simp
    then show ?thesis using sy W unfolding e by (simp add: cview_def lst_def same_cache_def)
  qed
  ultimately show ?thesis using sy unfolding e by (simp add: good_def fun_eq_iff)
qed

lemma sync_loop_succeeds:
  assumes "store_ok s" "disk_ok (contents s)" "\<forall>i<length sps. lst_ok W (k + i) (contents s) (sps ! i)" "faultless s"
  shows "fst (sync_loop db cf sps c s) = 0"
  using assms
proof (induction sps arbitrary: k c s)
  case (Cons sp sps)
  have l: "lst_ok W k (contents s) sp" using Cons.prems(3) [rule_format, of 0] by simp
  have u: "uniq (objs (mold sp))" "uniq (objs (mactive sp))"
    using lst_ok_dirty [OF l] uniq_sub [of "objs (mold sp)" "objs (mactive sp)"] uniq_sub [of "objs (mactive sp)" "objs (mold sp)"]
    by (simp_all add: dirty_def add.commute)
  have wf: "\<forall>ob\<in>#objs (mold sp). wf_cobj ob" "\<forall>ob\<in>#objs (mactive sp). wf_cobj ob"
      "\<forall>cp\<in>set (mold sp). op cp \<noteq> None" "\<forall>cp\<in>set (mactive sp). op cp \<noteq> None"
    using l by (simp_all add: lst_ok_def dirty_def solid_def)
  obtain c1 s1 where w1: "cache_write db (mold sp) c s = (0, c1, s1)"
    using cache_write_succeeds [OF Cons.prems(1) u(1) wf(1,3) Cons.prems(4), of c] by (metis prod.collapse)
  have s1: "store_ok s1" "faultless s1" using cache_write_ok [OF Cons.prems(1,2) u(1) wf(1) w1] Cons.prems(4) by blast+
  obtain c2 s2 where w2: "cache_write db (mactive sp) c1 s1 = (0, c2, s2)"
    using cache_write_succeeds [OF s1(1) u(2) wf(2,4) s1(2), of c1] by (metis prod.collapse)
  obtain sp' c3 where t: "(if cf then cache_trim (cache_clean sp) c2 else (cache_clean sp, c2)) = (sp', c3)"
    by (metis prod.collapse)
  note b = bucket_sync_ok [OF Cons.prems(1,2) l w1 w2 t]
  have "lst_ok W (Suc k + i) (contents s2) (sps ! i)" if "i < length sps" for i
    using lst_ok_other [of W "Suc k + i" "contents s" "sps ! i" "contents s2"] Cons.prems(3) [rule_format, of "Suc i"] b that
    by simp
  then have "fst (sync_loop db cf sps c3 s2) = 0" using Cons.IH [of s2 "Suc k" c3] b Cons.prems(4) by simp
  then show ?case using w1 w2 t by (auto simp: Let_def split: prod.splits)
qed simp

lemma cache_sync_succeeds:
  assumes g: "good c s" and fl: "faultless s"
  shows "fst (cache_sync db cf c s) = 0"
proof (cases "cache_frozen c")
  case False
  let ?c = "tally (cs_syncs_update Suc) c"
  let ?c1 = "cache_reset cf False ?c" and ?C = "contents s"
  have st: "store_ok s" and inv: "cache_inv ?c ?C" using g same_cache_inv [OF same_cache_tally] by (simp_all add: good_def)
  have dk: "disk_ok ?C" and init: "cache_initted c" using inv by (simp_all add: cache_inv_def)
  note rs = cache_reset_ok [OF inv, of cf False]
  obtain ls where ls: "sys_c ?c1 = Some ls" "\<forall>i<length ls. lst_ok (cwidth c) (0 + i) ?C (ls ! i)"
    using rs by (auto simp: cache_inv_def)
  have "fst (sync_loop db cf ls ?c1 s) = 0" by (rule sync_loop_succeeds [OF st dk ls(2) fl])
  then show ?thesis using init False ls(1) by (auto simp: cache_sync_def Let_def split: prod.splits)
qed (use g in \<open>simp add: cache_sync_def good_def cache_inv_def Let_def\<close>)

end

subsection \<open>Sequences of operations\<close>

text \<open>
  What the attribute layer may do, on the cache over the chunk store and on the map of
  attributes. An operation returns a value (\<open>Inl\<close>) or a status (\<open>Inr\<close>).
\<close>

datatype attr_op = Read Aname | Store Aname string | Erase Aname | Reset bool | Sync

fun attr_step :: "bool \<Rightarrow> attr_op \<Rightarrow> ocache \<times> store \<Rightarrow> (string option + int) \<times> ocache \<times> store" where
  "attr_step cf (Read nam) (c, s) = (case cache_get dddb (Some nam) c s of (v, t) \<Rightarrow> (Inl v, t))"
| "attr_step cf (Store nam v) (c, s) = (case cache_put dddb (Some nam) (Some v) c s of (rc, t) \<Rightarrow> (Inr rc, t))"
| "attr_step cf (Erase nam) (c, s) = (Inr 0, cache_del dddb (Some nam) c s)"
| "attr_step cf (Reset trim) (c, s) = (Inr 0, cache_reset cf trim c, s)"
| "attr_step cf Sync (c, s) = (case cache_sync dddb cf c s of (rc, t) \<Rightarrow> (Inr rc, t))"

type_synonym attr_view = "Objname \<Rightarrow> 32 word \<Rightarrow> string option"

fun view_step :: "attr_op \<Rightarrow> attr_view \<Rightarrow> (string option + int) \<times> attr_view" where
  "view_step (Read nam) m = (Inl (m (object nam) (anum nam)), m)"
| "view_step (Store nam v) m = (Inr 0, m(object nam := (m (object nam))(anum nam \<mapsto> v @ [NUL])))"
| "view_step (Erase nam) m = (Inr 0, m(object nam := (m (object nam))(anum nam := None)))"
| "view_step (Reset trim) m = (Inr 0, m)"
| "view_step Sync m = (Inr 0, m)"

text \<open>Values and attribute counts that fit the ints in which the code keeps them.\<close>

fun fits :: "attr_op list \<Rightarrow> attr_view \<Rightarrow> bool" where
  "fits [] m = True"
| "fits (x # xs) m =
     ((case x of Store nam v \<Rightarrow> int (length v) + 1 < 2 ^ 31 \<and> few (m (object nam)) | _ \<Rightarrow> True) \<and>
      fits xs (snd (view_step x m)))"

definition cache_good :: "ocache \<Rightarrow> store \<Rightarrow> bool" where
  "cache_good c s \<longleftrightarrow> chunk_ok s \<and> cache_inv c (chunk_contents s)"

lemma cache_good_chunk: "cache_good c s = chunk.good c s"
  by (simp add: cache_good_def chunk.good_def)

lemma cache_sync_frozen: "cache_initted c \<Longrightarrow> cache_frozen c \<Longrightarrow> cache_sync db cf c s = (0, tally (cs_syncs_update Suc) c, s)"
  by (simp add: cache_sync_def Let_def)

lemma attr_step_refines:
  assumes g: "cache_good c s" and fl: "chunk_faultless s" and f: "fits [x] (cview c (chunk_contents s))"
    and r: "attr_step cf x (c, s) = (v, c', s')"
  shows "cache_good c' s' \<and> chunk_faultless s' \<and>
    view_step x (cview c (chunk_contents s)) = (v, cview c' (chunk_contents s'))"
proof (cases x)
  case (Read nam)
  then show ?thesis using chunk.cache_get_ok [of c s nam] g fl r by (auto simp: cache_good_chunk split: prod.splits)
next
  case (Store nam w)
  then show ?thesis using chunk.cache_put_ok [of c s nam w] g fl f r by (auto simp: cache_good_chunk split: prod.splits)
next
  case (Erase nam)
  then show ?thesis using chunk.cache_del_ok [of c s nam] g fl r by (auto simp: cache_good_chunk)
next
  case (Reset trim)
  then show ?thesis using cache_reset_ok [of c "chunk_contents s" cf trim] g fl r by (auto simp: cache_good_def)
next
  case Sync
  obtain c1 s1 where s1: "cache_sync dddb cf c s = (0, c1, s1)"
    using chunk.cache_sync_succeeds [of c s cf] g fl by (metis cache_good_chunk prod.collapse)
  show ?thesis
  proof (cases "cache_frozen c")
    case True
    have "cache_initted c" using g by (simp add: cache_good_def cache_inv_def)
    then show ?thesis using Sync r g fl True same_cache_inv [OF same_cache_tally]
      by (auto simp: cache_sync_frozen cache_good_def)
  next
    case False
    then show ?thesis using Sync r s1 chunk.cache_sync_ok [OF _ False s1] g fl by (auto simp: cache_good_chunk)
  qed
qed

text \<open>
  C1: on a disk without faults, any sequence of reads, stores, erasures, resets and syncs
  through the cache returns what the same sequence returns on a plain map from objects and
  attribute numbers to values; evictions, write-backs and the placement of the objects on
  disk never show.
\<close>

theorem attribute_cache_is_map:
  assumes "cache_good c s" "chunk_faultless s" "fits xs (cview c (chunk_contents s))"
    "run_ops (attr_step cf) xs (c, s) = (rs, c', s')"
  shows "cache_good c' s' \<and> run_ops view_step xs (cview c (chunk_contents s)) = (rs, cview c' (chunk_contents s'))"
  using assms
proof (induction xs arbitrary: c s rs)
  case (Cons x xs)
  obtain v c1 s1 where s1: "attr_step cf x (c, s) = (v, c1, s1)" by (metis prod.collapse)
  obtain rs' t where s2: "run_ops (attr_step cf) xs (c1, s1) = (rs', t)" by (metis prod.collapse)
  have "fits [x] (cview c (chunk_contents s))" using Cons.prems(3) by simp
  note st = attr_step_refines [OF Cons.prems(1,2) this s1]
  then show ?case using Cons.IH [of c1 s1 rs'] Cons.prems(3,4) s1 s2 by (simp add: Let_def split: prod.splits)
qed simp

definition zero_stats :: cache_stats where
  "zero_stats = \<lparr>cs_writes = 0, cs_reads = 0, cs_dbreads = 0, cs_dbwrites = 0, cs_dels = 0, cs_checks = 0,
     cs_rhits = 0, cs_ahits = 0, cs_whits = 0, cs_fails = 0, cs_resets = 0, cs_syncs = 0, cs_objects = 0\<rparr>"

definition start_cache :: ocache where
  "start_cache = snd (cache_init 0 0 (cache_var_init \<lparr>cwidth = 0, cdepth = 0, sys_c = None, cache_initted = False,
     cache_frozen = False, cache_busy = False, stats = zero_stats\<rparr>))"

lemma start_cache_ok: "cache_good start_cache fresh_store" "cview start_cache (chunk_contents fresh_store) = (\<lambda>_. Map.empty)"
proof -
  let ?c = "cache_var_init \<lparr>cwidth = 0, cdepth = 0, sys_c = None, cache_initted = False,
     cache_frozen = False, cache_busy = False, stats = zero_stats\<rparr>"
  have "disk_ok (chunk_contents fresh_store)" by (simp add: disk_ok_def fresh_store_ok)
  moreover have "sys_c ?c = None" "\<not> cache_initted ?c" "(0::nat) \<noteq> 0 \<or> cwidth ?c \<noteq> 0"
    by (simp_all add: cache_var_init_def CACHE_WIDTH_def)
  moreover obtain rc where "cache_init 0 0 ?c = (rc, start_cache)" by (metis prod.collapse start_cache_def)
  ultimately have "cache_inv start_cache (chunk_contents fresh_store) \<and>
      cview start_cache (chunk_contents fresh_store) = disk (chunk_contents fresh_store)"
    using cache_init_ok by blast
  then show "cache_good start_cache fresh_store" "cview start_cache (chunk_contents fresh_store) = (\<lambda>_. Map.empty)"
    by (simp_all add: cache_good_def fresh_store_ok disk_def fun_eq_iff)
qed

theorem attribute_cache_is_map_witness:
  "fst (run_ops (attr_step True) [Store \<lparr>object = 5, anum = 2\<rparr> ''hi'', Sync, Reset True,
      Read \<lparr>object = 5, anum = 2\<rparr>, Erase \<lparr>object = 5, anum = 2\<rparr>, Read \<lparr>object = 5, anum = 2\<rparr>]
      (start_cache, fresh_store)) =
   [Inr 0, Inr 0, Inr 0, Inl (Some (''hi'' @ [NUL])), Inr 0, Inl None]"
proof -
  let ?xs = "[Store \<lparr>object = 5, anum = 2\<rparr> ''hi'', Sync, Reset True,
      Read \<lparr>object = 5, anum = 2\<rparr>, Erase \<lparr>object = 5, anum = 2\<rparr>, Read \<lparr>object = 5, anum = 2\<rparr>]"
  obtain rs c' s' where r: "run_ops (attr_step True) ?xs (start_cache, fresh_store) = (rs, c', s')"
    by (metis prod.collapse)
  have "fits ?xs (\<lambda>_. Map.empty)" by (simp add: few_def)
  then have "rs = [Inr 0, Inr 0, Inr 0, Inl (Some (''hi'' @ [NUL])), Inr 0, Inl None]"
    using attribute_cache_is_map [OF start_cache_ok(1) fresh_store_ok(2) _ r] by (simp add: start_cache_ok(2) Let_def)
  then show ?thesis by (simp only: r fst_conv)
qed

text \<open>
  C24: when \<open>cache_sync\<close> returns 0 on a cache that is not frozen, whatever faults the disk had,
  the store by itself holds every attribute as the cache shows it, and the view has not
  changed.
\<close>

theorem cache_sync_durable:
  assumes "cache_good c s" "\<not> cache_frozen c" "cache_sync dddb cf c s = (0, c', s')"
  shows "cache_good c' s' \<and> cview c' (chunk_contents s') = cview c (chunk_contents s) \<and>
    disk (chunk_contents s') = cview c (chunk_contents s)"
  using chunk.cache_sync_ok [of c s cf c' s'] assms by (simp add: cache_good_chunk)

theorem cache_sync_durable_witness:
  "\<exists>c' s'. cache_sync dddb True start_cache fresh_store = (0, c', s') \<and> disk (chunk_contents s') = (\<lambda>_. Map.empty)"
proof -
  obtain c' s' where r: "cache_sync dddb True start_cache fresh_store = (0, c', s')"
    using chunk.cache_sync_succeeds [of start_cache fresh_store True] start_cache_ok(1) fresh_store_ok(2)
    by (metis cache_good_chunk prod.collapse)
  have "\<not> cache_frozen start_cache" by (simp add: start_cache_def cache_init_def cache_var_init_def Let_def)
  from cache_sync_durable [OF start_cache_ok(1) this r] r show ?thesis by (simp add: start_cache_ok(2))
qed

text \<open>
  An eviction whose write fails takes the changed object off its chain all the same: the
  caller learns that there is no free entry, and the change is in no chain and not on disk.
\<close>

lemma failed_eviction_loses_object:
  "get_free_entry db sp c s = (None, sp', c', s') \<Longrightarrow>
     mold sp \<noteq> [] \<and> mold sp' = butlast (mold sp) \<and> active sp' = active sp \<and> mactive sp' = mactive sp \<and> old sp' = old sp"
  by (auto simp: get_free_entry_def Let_def split: if_splits option.splits prod.splits)

end
