(* ===== verification/Alist.thy ===== *)
theory Alist
  imports Stringutil
begin

section \<open>Encodings of attributes (src/Server/src/db.c)\<close>

text \<open>
  The two texts in which db.c keeps what it knows about attributes: the list of the numbers
  of an object's attributes, seven bits to a byte with the low bits first and the high bit
  set on all but the last byte, and the text of an attribute whose owner or flags are not the
  default ones, which starts with the character 1.

  A pointer into a list is the rest of it. Attribute numbers are positive (a negative one
  would make \<open>al_code\<close> shift for ever). Compression of attribute texts
  (\<open>mudconf.intern_comp\<close>) is off, as it is unless the configuration asks for it.
\<close>

subsection \<open>Lists of attribute numbers\<close>

text \<open>\<open>al_code\<close> returns the bytes it stores.\<close>

fun al_code_loop :: "nat \<Rightarrow> string" where
  "al_code_loop atrnum =
     (if atrnum div 128 = 0 then [char_of (atrnum mod 128)]
      else char_of (atrnum mod 128 + 128) # al_code_loop (atrnum div 128))"

declare al_code_loop.simps [simp del]

definition al_code :: "int \<Rightarrow> string" where
  "al_code atrnum = al_code_loop (nat atrnum)"

text \<open>
  \<open>al_decode\<close> returns the number and the rest of the list. A list that ends inside a number,
  which \<open>al_code\<close> never writes, would send the code past its end; the model stops there.
\<close>

fun al_decode_loop :: "nat \<Rightarrow> nat \<Rightarrow> string \<Rightarrow> nat \<times> string" where
  "al_decode_loop atrnum atrshft [] = (atrnum, [])"
| "al_decode_loop atrnum atrshft (c # ap) =
     (let num = atrnum + push_bit atrshft (ccode c mod 128)
      in if ccode c < 128 then (num, ap) else al_decode_loop num (atrshft + 7) ap)"

definition al_decode :: "string \<Rightarrow> int \<times> string" where
  "al_decode ap = (case al_decode_loop 0 0 ap of (n, rest) \<Rightarrow> (int n, rest))"

lemma al_decode_loop_shorter: "al_decode_loop n k ap = (m, rest) \<Longrightarrow> ap \<noteq> [] \<Longrightarrow> length rest < length ap"
proof (induction n k ap rule: al_decode_loop.induct)
  case (2 n k c ap)
  then show ?case by (cases ap) (auto simp: Let_def split: if_splits)
qed simp

lemma al_decode_shorter: "al_decode ap = (m, rest) \<Longrightarrow> ap \<noteq> [] \<Longrightarrow> length rest < length ap"
  by (auto simp: al_decode_def split: prod.splits dest: al_decode_loop_shorter)

text \<open>
  The loops over a list: \<open>while (*cp) anum = al_decode(&cp)\<close> that collects the numbers, the
  search for one, and the removal of one, which copies the numbers after it back.
\<close>

function al_numbers :: "string \<Rightarrow> int list" where
  "al_numbers cp = (if cp = [] then [] else let (anum, rest) = al_decode cp in anum # al_numbers rest)"
  by pat_completeness auto
termination al_numbers
  by (relation "measure length") (auto dest: al_decode_shorter [OF sym])

declare al_numbers.simps [simp del]

function al_member :: "string \<Rightarrow> int \<Rightarrow> bool" where
  "al_member cp attrnum =
     (if cp = [] then False
      else let (anum, rest) = al_decode cp in if anum = attrnum then True else al_member rest attrnum)"
  by pat_completeness auto
termination al_member
  by (relation "measure (length \<circ> fst)") (auto dest: al_decode_shorter [OF sym])

declare al_member.simps [simp del]

function al_remove :: "string \<Rightarrow> int \<Rightarrow> string option" where
  "al_remove cp attrnum =
     (if cp = [] then None
      else let (anum, rest) = al_decode cp
           in if anum = attrnum then Some (concat (map al_code (al_numbers rest)))
              else map_option (\<lambda>r. take (length cp - length rest) cp @ r) (al_remove rest attrnum))"
  by pat_completeness auto
termination al_remove
  by (relation "measure (length \<circ> fst)") (auto dest: al_decode_shorter [OF sym])

declare al_remove.simps [simp del]

definition al_size :: "string option \<Rightarrow> int" where
  "al_size astr = (case astr of None \<Rightarrow> 0 | Some s \<Rightarrow> int (length s) + 1)"

definition atr_next :: "string option \<Rightarrow> int \<times> string option" where
  "atr_next attrp =
     (case attrp of
        None \<Rightarrow> (0, None)
      | Some [] \<Rightarrow> (0, Some [])
      | Some s \<Rightarrow> (case al_decode s of (n, rest) \<Rightarrow> (n, Some rest)))"

subsection \<open>Texts of attributes\<close>

definition ATR_INFO_CHAR :: char where
  "ATR_INFO_CHAR = CHR 0x01"

text \<open>\<open>unsafe_tprintf\<close> prints into a large buffer: \<open>vsnprintf\<close> is given 3999 bytes.\<close>

definition tprintf :: "string \<Rightarrow> string" where
  "tprintf s = take (LBUF_SIZE - 2) s"

definition atr_encode :: "(int \<Rightarrow> int) \<Rightarrow> string \<Rightarrow> int \<Rightarrow> int \<Rightarrow> int \<Rightarrow> string" where
  "atr_encode Owner iattr thing owner flags =
     (if (owner = Owner thing \<or> owner = NOTHING) \<and> flags = 0 then iattr
      else let owner = (if owner = NOTHING then Owner thing else owner)
           in tprintf (ATR_INFO_CHAR # sprintf_d owner @ '':'' @ sprintf_d flags @ '':'' @ iattr))"

fun digits32 :: "int \<Rightarrow> string \<Rightarrow> int \<times> string" where
  "digits32 n [] = (n, [])"
| "digits32 n (c # cp) =
     (if is_digit c then digits32 (wrap32 (n * 10 + (int (ccode c) - 48))) cp else (n, c # cp))"

text \<open>
  \<open>atr_decode\<close> returns the text, the owner and the flags. When the second colon is missing
  the code sets the default owner and flags but does not return: it goes on with the text
  after the character in place of the colon. \<open>None\<close> is the case that this character was the
  end of the text, so that the code reads on behind it.
\<close>

definition atr_decode :: "(int \<Rightarrow> int) \<Rightarrow> string \<Rightarrow> int \<Rightarrow> (string \<times> int \<times> int) option" where
  "atr_decode Owner iattr thing =
     (if deref iattr \<noteq> ATR_INFO_CHAR then Some (iattr, Owner thing, 0)
      else let cp = tl iattr;
               neg = (deref cp = CHR ''-'');
               (n, cp) = digits32 0 (if neg then tl cp else cp);
               owner = (if neg then wrap32 (0 - n) else n)
           in if deref cp \<noteq> CHR '':'' then Some (iattr, Owner thing, 0)
              else let (flags, cp) = digits32 0 (tl cp)
                   in if cp = [] then None
                      else if hd cp \<noteq> CHR '':'' then Some (tl cp, Owner thing, 0)
                      else Some (tl cp, if owner = NOTHING then Owner thing else owner, flags))"

subsection \<open>Laws of the lists\<close>

lemma al_code_loop_decode: "al_decode_loop m k (al_code_loop n @ rest) = (m + push_bit k n, rest)"
proof (induction n arbitrary: m k rule: al_code_loop.induct)
  case (1 n)
  show ?case
  proof (cases "n div 128 = 0")
    case True
    then have "n < 128" by (simp add: div_eq_0_iff)
    then show ?thesis using True by (simp add: al_code_loop.simps [of n])
  next
    case False
    have m: "n mod 128 + 128 * (n div 128) = n" by simp
    have "push_bit k (n mod 128) + push_bit (k + 7) (n div 128) = (n mod 128 + 128 * (n div 128)) * 2 ^ k"
      unfolding push_bit_eq_mult power_add distrib_right by simp
    then have "push_bit k (n mod 128) + push_bit (k + 7) (n div 128) = push_bit k n"
      unfolding m push_bit_eq_mult .
    then show ?thesis using 1 False by (simp add: al_code_loop.simps [of n] mod_mod_cancel)
  qed
qed

lemma al_decode_code: "0 \<le> n \<Longrightarrow> al_decode (al_code n @ rest) = (n, rest)"
  by (simp add: al_decode_def al_code_def al_code_loop_decode)

lemma al_code_not_Nil [simp]: "al_code n \<noteq> []" "[] \<noteq> al_code n"
  by (simp_all add: al_code_def al_code_loop.simps [of "nat n"])

lemma al_code_loop_cstring: "0 < n \<Longrightarrow> cstring (al_code_loop n)"
proof (induction n rule: al_code_loop.induct)
  case (1 n)
  have c: "char_of (m :: nat) \<noteq> NUL" if "0 < m" "m < 256" for m
  proof
    assume "char_of m = NUL"
    then have "ccode (char_of m) = 0" by simp
    then show False using that by simp
  qed
  show ?case
  proof (cases "n div 128 = 0")
    case True
    then have "n mod 128 = n" by (simp add: div_eq_0_iff)
    then show ?thesis using True 1(2) c [of n] by (simp add: al_code_loop.simps [of n] div_eq_0_iff)
  next
    case False
    moreover have "n mod 128 + 128 < 256" using mod_less_divisor [of 128 n] by linarith
    ultimately show ?thesis using 1(1) c [of "n mod 128 + 128"] by (subst al_code_loop.simps) simp
  qed
qed

lemma al_code_cstring: "0 < n \<Longrightarrow> cstring (al_code n)"
  by (simp add: al_code_def al_code_loop_cstring)

lemma al_code_loop_length: "n < 128 ^ Suc k \<Longrightarrow> length (al_code_loop n) \<le> Suc k"
proof (induction k arbitrary: n)
  case 0
  then show ?case by (simp add: al_code_loop.simps [of n] div_eq_0_iff)
next
  case (Suc k)
  then have "n div 128 < 128 ^ Suc k" by (simp add: less_mult_imp_div_less mult.commute)
  then show ?case using Suc.IH [of "n div 128"] by (simp add: al_code_loop.simps [of n])
qed

text \<open>\<open>ATR_BUF_INCR\<close> is 6: five bytes and the NUL.\<close>

lemma al_code_length: "n < 2 ^ 31 \<Longrightarrow> length (al_code n) \<le> 5"
  using al_code_loop_length [of "nat n" 4] by (simp add: al_code_def)

definition al_text :: "int list \<Rightarrow> string" where
  "al_text ns = concat (map al_code ns)"

definition al_wf :: "int list \<Rightarrow> bool" where
  "al_wf ns \<longleftrightarrow> (\<forall>n\<in>set ns. 0 < n \<and> n < 2 ^ 31)"

lemma al_text_simps [simp]: "al_text [] = []" "al_text (n # ns) = al_code n @ al_text ns" "al_text (ms @ ns) = al_text ms @ al_text ns"
  by (simp_all add: al_text_def)

lemma al_text_Nil [simp]: "al_text ns = [] \<longleftrightarrow> ns = []"
  by (cases ns) simp_all

lemma al_wf_simps [simp]: "al_wf []" "al_wf (n # ns) \<longleftrightarrow> 0 < n \<and> n < 2 ^ 31 \<and> al_wf ns"
    "al_wf (ms @ ns) \<longleftrightarrow> al_wf ms \<and> al_wf ns"
  by (auto simp: al_wf_def)

lemma al_numbers_text: "al_wf ns \<Longrightarrow> al_numbers (al_text ns) = ns"
  by (induction ns) (simp_all add: al_numbers.simps [of "[]"] al_numbers.simps [of "al_code n @ s" for n s] al_decode_code)

lemma al_member_text: "al_wf ns \<Longrightarrow> al_member (al_text ns) k \<longleftrightarrow> k \<in> set ns"
  by (induction ns) (auto simp: al_member.simps [of "[]"] al_member.simps [of "al_code n @ s" for n s] al_decode_code)

lemma al_remove_text:
  "al_wf ns \<Longrightarrow> al_remove (al_text ns) k = (if k \<in> set ns then Some (al_text (remove1 k ns)) else None)"
  by (induction ns)
    (auto simp: al_remove.simps [of "[]"] al_remove.simps [of "al_code n @ s" for n s] al_decode_code al_numbers_text
      al_text_def [symmetric])

lemma al_text_cstring: "al_wf ns \<Longrightarrow> cstring (al_text ns)"
  by (induction ns) (simp_all add: al_code_cstring)

lemma atr_next_text:
  "al_wf (n # ns) \<Longrightarrow> atr_next (Some (al_text (n # ns))) = (n, Some (al_text ns))" "atr_next (Some (al_text [])) = (0, Some [])"
proof -
  assume "al_wf (n # ns)"
  then have d: "al_decode (al_text (n # ns)) = (n, al_text ns)" by (simp add: al_decode_code)
  obtain c cs where "al_text (n # ns) = c # cs" by (cases "al_text (n # ns)") simp_all
  then show "atr_next (Some (al_text (n # ns))) = (n, Some (al_text ns))" using d by (simp add: atr_next_def)
qed (simp add: atr_next_def)

subsection \<open>Laws of the texts\<close>

lemma digits32_val:
  "\<forall>c\<in>set ds. is_digit c \<Longrightarrow> \<not> is_digit (deref rest) \<Longrightarrow> 0 \<le> n \<Longrightarrow> digits_val n ds \<le> INT_MAX \<Longrightarrow>
     digits32 n (ds @ rest) = (digits_val n ds, rest)"
proof (induction ds arbitrary: n)
  case Nil
  then show ?case by (cases rest) simp_all
next
  case (Cons c ds)
  let ?m = "n * 10 + (int (ccode c) - 48)"
  have c: "is_digit c" "48 \<le> ccode c" using Cons.prems(1) by (auto simp: is_digit_def)
  have m: "0 \<le> ?m" using c Cons.prems(3) by simp
  have mono: "k \<le> digits_val k es" if "0 \<le> k" for k :: int and es
    using that
  proof (induction es arbitrary: k)
    case (Cons d es)
    show ?case
    proof (cases "is_digit d")
      case True
      then have "k \<le> 10 * k + (int (ccode d) - 48)" using Cons.prems by (simp add: is_digit_def)
      then show ?thesis using Cons.IH [of "10 * k + (int (ccode d) - 48)"] Cons.prems True by simp
    qed simp
  qed simp
  have le: "digits_val ?m ds \<le> INT_MAX" using Cons.prems(4) c(1) by (simp add: mult.commute)
  then have "wrap32 ?m = ?m" using mono [OF m, of ds] m by (intro wrap32_id) (auto simp: INT_MIN_def)
  then show ?case using Cons.IH [OF _ Cons.prems(2) m le] Cons.prems(1) c(1) by (simp add: mult.commute)
qed

lemma digits32_sprintf:
  assumes "0 \<le> n" "n \<le> INT_MAX" "\<not> is_digit (deref rest)"
  shows "digits32 0 (sprintf_d n @ rest) = (n, rest)"
proof -
  from itoa_loop_digits [OF assms(1), of "[]"] obtain ds where
    ds: "itoa_loop n [] = ds" "\<forall>c\<in>set ds. is_digit c" "digits_val 0 ds = n" by auto
  have s: "sprintf_d n = ds" using assms ds(1) by (simp add: sprintf_d_def)
  show ?thesis unfolding s using digits32_val [OF ds(2) assms(3), of 0] ds(3) assms(2) by simp
qed

lemma is_digit_signs [simp]: "\<not> is_digit (CHR '':'')" "\<not> is_digit (CHR ''-'')" "\<not> is_digit NUL"
  by (simp_all add: is_digit_def)

lemma sprintf_d_first: "0 \<le> n \<Longrightarrow> is_digit (deref (sprintf_d n @ s))"
  using sprintf_d_digits(1,2) [of n] by (cases "sprintf_d n") auto

lemma atr_decode_encoded:
  assumes "- INT_MAX \<le> own" "own \<le> INT_MAX" "0 \<le> fl" "fl \<le> INT_MAX"
  shows "atr_decode Owner (ATR_INFO_CHAR # sprintf_d own @ '':'' @ sprintf_d fl @ '':'' @ txt) thing =
    Some (txt, if own = NOTHING then Owner thing else own, fl)"
proof (cases "own < 0")
  case True
  then have s: "sprintf_d own = CHR ''-'' # sprintf_d (- own)" by (simp add: sprintf_d_def)
  have "digits32 0 (sprintf_d (- own) @ CHR '':'' # sprintf_d fl @ CHR '':'' # txt) = (- own, CHR '':'' # sprintf_d fl @ CHR '':'' # txt)"
    by (rule digits32_sprintf) (use True assms in auto)
  moreover have "wrap32 own = own" by (rule wrap32_id) (use True assms in \<open>auto simp: INT_MIN_def INT_MAX_def\<close>)
  ultimately show ?thesis using digits32_sprintf [of fl "CHR '':'' # txt"] assms
    by (simp add: atr_decode_def s Let_def)
next
  case False
  then have "is_digit (deref (sprintf_d own @ CHR '':'' # sprintf_d fl @ CHR '':'' # txt))" by (simp add: sprintf_d_first)
  then have d: "deref (sprintf_d own @ CHR '':'' # sprintf_d fl @ CHR '':'' # txt) \<noteq> CHR ''-''" by auto
  show ?thesis using digits32_sprintf [of own "CHR '':'' # sprintf_d fl @ CHR '':'' # txt"]
      digits32_sprintf [of fl "CHR '':'' # txt"] assms False d
    by (simp add: atr_decode_def Let_def)
qed

end
