(* ===== verification/Vattr.thy ===== *)
theory Vattr
  imports Htab
begin

section \<open>User-defined attributes (src/Server/src/vattr.c, src/Server/src/db.c)\<close>

text \<open>
  The table of the attributes that players define: a hash table from names, the list of the
  free cells, and the table from attribute numbers that these share with the attributes
  built into the server.

  A \<open>VATTR\<close> is a cell of a store; its address is a number, \<open>cell\<close> holds its fields and
  \<open>vtop\<close> is the next address \<open>malloc\<close> gives out. A chain, linked through \<open>next\<close>, is the list of
  the addresses from the head. \<open>anum_table\<close> is NULL as long as the list is empty, and holds a
  pointer to a built-in attribute (\<open>Predef\<close>) or to a cell (\<open>User\<close>).

  The operations fold the case of a name in the caller's buffer and may cut it there; the
  model returns no new buffer, and callers that look at the name again are outside it.
  \<open>malloc\<close> succeeds. The function that checks a built-in attribute is left out of \<open>ATTR\<close>.
\<close>

subsection \<open>Data\<close>

record ATTR =
  a_name :: string
  a_number :: int
  a_flags :: int

record VATTR =
  vname :: string
  vnumber :: int
  vflags :: int

datatype anum_ptr = NULL_attr | Predef ATTR | User nat

record vattr_state =
  cell :: "nat \<Rightarrow> VATTR"
  vhash :: "nat list list"
  vfreelist :: "nat list"
  vtop :: nat
  vhash_index :: nat
  vstats_count :: int
  vstats_name_cnt :: int
  vstats_freecnt :: int
  vstats_lookups :: int
  stringblock :: bool
  stringblock_hwm :: int
  anum_table :: "anum_ptr list"
  anum_alc_top :: int
  init_size :: int
  attr_next :: int
  new_vattr :: bool
  attr_name_htab :: "ATTR HASHTAB"

definition VHASH_SIZE :: nat where
  "VHASH_SIZE = 256"

definition VALLOC_SIZE :: nat where
  "VALLOC_SIZE = 630"

definition VNAME_SIZE :: nat where
  "VNAME_SIZE = 32"

definition STRINGBLOCK :: int where
  "STRINGBLOCK = 1000"

definition A_USER_START :: int where
  "A_USER_START = 256"

subsection \<open>Names\<close>

definition isValidAttrStartChar :: "char \<Rightarrow> bool" where
  "isValidAttrStartChar c \<longleftrightarrow> is_alpha c \<or> c = CHR ''_'' \<or> c = CHR ''~'' \<or> c = CHR ''#''"

definition ok_attr_name :: "string \<Rightarrow> bool" where
  "ok_attr_name attrname \<longleftrightarrow>
     isValidAttrStartChar (deref attrname) \<and>
     list_all (\<lambda>c. is_alnum c \<or> c \<in> set (CHR 0x27 # ''?!`/-_.@#$^&~=+<>()%'')) attrname"

definition fixcase :: "string \<Rightarrow> string" where
  "fixcase nam = map ToUpper nam"

definition vattr_hash :: "string \<Rightarrow> nat" where
  "vattr_hash nam = unat (hashval (Some nam) 0xff)"

text \<open>\<open>if(strlen(name) > VNAME_SIZE) name[VNAME_SIZE - 1] = '\\0';\<close>\<close>

definition cut_name :: "string \<Rightarrow> string" where
  "cut_name nam = (if length nam > VNAME_SIZE then take (VNAME_SIZE - 1) nam else nam)"

definition store_string :: "string \<Rightarrow> vattr_state \<Rightarrow> string \<times> vattr_state" where
  "store_string str s =
     (let len = int (length str);
          s1 = (if \<not> stringblock s \<or> STRINGBLOCK - stringblock_hwm s < len + 1
                then s\<lparr>stringblock := True, stringblock_hwm := 0\<rparr> else s)
      in (str, s1\<lparr>stringblock_hwm := stringblock_hwm s1 + (len + 1)\<rparr>))"

subsection \<open>The table of attribute numbers\<close>

definition anum_extend :: "int \<Rightarrow> vattr_state \<Rightarrow> vattr_state" where
  "anum_extend newtop0 s =
     (let delta = init_size s
      in if newtop0 \<le> anum_alc_top s then s
         else let newtop = (if newtop0 < anum_alc_top s + delta then anum_alc_top s + delta else newtop0)
              in s\<lparr>anum_table :=
                     (if anum_table s = [] then replicate (nat (newtop + 1)) NULL_attr
                      else take (nat (anum_alc_top s + 1)) (anum_table s) @
                           replicate (nat (newtop - anum_alc_top s)) NULL_attr),
                   anum_alc_top := newtop\<rparr>)"

text \<open>The macros; a number outside the table would be an access outside its memory.\<close>

definition anum_get :: "vattr_state \<Rightarrow> int \<Rightarrow> anum_ptr" where
  "anum_get s x = anum_table s ! nat x"

definition anum_set :: "int \<Rightarrow> anum_ptr \<Rightarrow> vattr_state \<Rightarrow> vattr_state" where
  "anum_set x v s = s\<lparr>anum_table := (anum_table s)[nat x := v]\<rparr>"

subsection \<open>Operations of vattr.c\<close>

definition vattr_init :: "vattr_state \<Rightarrow> vattr_state" where
  "vattr_init s =
     s\<lparr>vhash := replicate VHASH_SIZE [], vfreelist := [], vstats_count := 0, vstats_name_cnt := 0,
       vstats_lookups := 0\<rparr>"

text \<open>A cell that was found behind the head of its chain moves to the front.\<close>

definition rechain :: "nat \<Rightarrow> nat list \<Rightarrow> nat list" where
  "rechain vp chain = (if chain \<noteq> [] \<and> hd chain \<noteq> vp then vp # remove1 vp chain else chain)"

definition vattr_find :: "string \<Rightarrow> vattr_state \<Rightarrow> nat option \<times> vattr_state" where
  "vattr_find name0 s =
     (let nam = fixcase name0
      in if \<not> ok_attr_name nam then (None, s)
         else let hash = vattr_hash nam;
                  s1 = s\<lparr>vstats_lookups := vstats_lookups s + 1\<rparr>
              in case find (\<lambda>vp. nam = vname (cell s vp)) (vhash s ! hash) of
                   None \<Rightarrow> (None, s1)
                 | Some vp \<Rightarrow> (Some vp, s1\<lparr>vhash := (vhash s)[hash := rechain vp (vhash s ! hash)]\<rparr>))"

text \<open>The part of \<open>vattr_define\<close> that allocates a block of cells when none is free.\<close>

definition alloc_cells :: "vattr_state \<Rightarrow> vattr_state" where
  "alloc_cells s =
     (if vfreelist s = []
      then s\<lparr>vfreelist := [vtop s ..< vtop s + VALLOC_SIZE], vtop := vtop s + VALLOC_SIZE,
             vstats_freecnt := int VALLOC_SIZE\<rparr>
      else s)"

definition vattr_define :: "string \<Rightarrow> int \<Rightarrow> int \<Rightarrow> vattr_state \<Rightarrow> nat option \<times> vattr_state" where
  "vattr_define name0 number flags s =
     (let nam = fixcase (cut_name name0)
      in if \<not> ok_attr_name nam then (None, s)
         else case vattr_find nam s of
                (Some _, s1) \<Rightarrow> (None, s1)
              | (None, s1) \<Rightarrow>
                  (let s2 = alloc_cells s1;
                       vp = hd (vfreelist s2);
                       s3 = s2\<lparr>vfreelist := tl (vfreelist s2), vstats_freecnt := vstats_freecnt s2 - 1,
                               vstats_count := vstats_count s2 + 1,
                               vstats_name_cnt := vstats_name_cnt s2 + int (length nam)\<rparr>;
                       (str, s4) = store_string nam s3;
                       s5 = s4\<lparr>cell := (cell s4)(vp := \<lparr>vname = str, vnumber = number, vflags = flags\<rparr>)\<rparr>;
                       hash = vattr_hash nam;
                       s6 = s5\<lparr>vhash := (vhash s5)[hash := vp # vhash s5 ! hash]\<rparr>
                   in (Some vp, anum_set number (User vp) (anum_extend number s6))))"

definition vattr_alloc :: "string \<Rightarrow> int \<Rightarrow> vattr_state \<Rightarrow> nat option \<times> vattr_state" where
  "vattr_alloc nam flags s =
     (let number0 = attr_next s;
          s1 = s\<lparr>attr_next := attr_next s + 1\<rparr>;
          (number, s2) = (if number0 AND 0x7f = 0 then (attr_next s1, s1\<lparr>attr_next := attr_next s1 + 1\<rparr>)
                          else (number0, s1))
      in vattr_define nam number flags (anum_extend number s2))"

definition vattr_delete :: "string \<Rightarrow> vattr_state \<Rightarrow> vattr_state" where
  "vattr_delete name0 s =
     (let nam = fixcase name0
      in if \<not> ok_attr_name nam then s
         else let hash = vattr_hash nam
              in case find (\<lambda>vp. nam = vname (cell s vp)) (vhash s ! hash) of
                   None \<Rightarrow> s
                 | Some vp \<Rightarrow>
                     (let number = vnumber (cell s vp);
                          s1 = s\<lparr>vhash := (vhash s)[hash := remove1 vp (vhash s ! hash)],
                                 vstats_name_cnt := vstats_name_cnt s - int (length (vname (cell s vp))),
                                 vfreelist := vp # vfreelist s,
                                 vstats_count := vstats_count s - 1,
                                 vstats_freecnt := vstats_freecnt s + 1\<rparr>
                      in if number \<noteq> 0 then anum_set number NULL_attr s1 else s1))"

text \<open>
  \<open>vattr_rename\<close>. The outer \<open>None\<close> is the access through NULL when no attribute has the old
  name. The new name is not looked up: another attribute may have it.
\<close>

definition vattr_rename :: "string \<Rightarrow> string \<Rightarrow> vattr_state \<Rightarrow> (nat option \<times> vattr_state) option" where
  "vattr_rename name0 newname0 s =
     (let nam = fixcase name0
      in if \<not> ok_attr_name nam then Some (None, s)
         else let newname = fixcase (cut_name newname0)
              in if \<not> ok_attr_name newname then Some (None, s)
                 else let hash = vattr_hash nam
                      in case find (\<lambda>vp. nam = vname (cell s vp)) (vhash s ! hash) of
                           None \<Rightarrow> None
                         | Some vp \<Rightarrow>
                             (let s1 = s\<lparr>vhash := (vhash s)[hash := remove1 vp (vhash s ! hash)]\<rparr>;
                                  (str, s2) = store_string newname s1;
                                  s3 = s2\<lparr>cell := (cell s2)(vp := (cell s2 vp)\<lparr>vname := str\<rparr>)\<rparr>;
                                  hash2 = vattr_hash newname
                              in Some (Some vp, s3\<lparr>vhash := (vhash s3)[hash2 := vp # vhash s3 ! hash2]\<rparr>)))"

text \<open>
  The walk. \<open>first_chain\<close> is the loop over the buckets: the first non-empty one from
  \<open>i\<close> on, or the end of the array. \<open>vattr_next\<close> goes to the cell after \<open>vp\<close> in the chain that
  holds it.
\<close>

fun first_chain :: "nat list list \<Rightarrow> nat \<Rightarrow> nat \<times> nat option" where
  "first_chain [] i = (i, None)"
| "first_chain (chain # rest) i = (if chain \<noteq> [] then (i, Some (hd chain)) else first_chain rest (Suc i))"

definition vattr_first :: "vattr_state \<Rightarrow> nat option \<times> vattr_state" where
  "vattr_first s = (case first_chain (vhash s) 0 of (i, vp) \<Rightarrow> (vp, s\<lparr>vhash_index := i\<rparr>))"

definition next_in_chain :: "vattr_state \<Rightarrow> nat \<Rightarrow> nat option" where
  "next_in_chain s vp =
     (case find (\<lambda>chain. vp \<in> set chain) (vhash s) of
        None \<Rightarrow> None
      | Some chain \<Rightarrow> (case tl (dropWhile (\<lambda>q. q \<noteq> vp) chain) of [] \<Rightarrow> None | q # _ \<Rightarrow> Some q))"

definition vattr_next :: "nat option \<Rightarrow> vattr_state \<Rightarrow> nat option \<times> vattr_state" where
  "vattr_next vp0 s =
     (case vp0 of
        None \<Rightarrow> vattr_first s
      | Some vp \<Rightarrow>
          (case next_in_chain s vp of
             Some q \<Rightarrow> (Some q, s)
           | None \<Rightarrow>
               (case first_chain (drop (Suc (vhash_index s)) (vhash s)) (Suc (vhash_index s)) of
                  (i, q) \<Rightarrow> (q, s\<lparr>vhash_index := i\<rparr>))))"

text \<open>\<open>sizeof(VATTR)\<close> is 24: a pointer, two ints, a pointer.\<close>

definition sum_vhashstats :: "vattr_state \<Rightarrow> int" where
  "sum_vhashstats s = 24 * vstats_count s + vstats_name_cnt s"

subsection \<open>Lookups over both kinds of attributes (db.c)\<close>

fun init_attrtab_loop :: "ATTR list \<Rightarrow> vattr_state \<Rightarrow> vattr_state" where
  "init_attrtab_loop [] s = s"
| "init_attrtab_loop (a # rest) s =
     (if a_number a = 0 then s
      else let s1 = anum_set (a_number a) (Predef a) (anum_extend (a_number a) s);
               (_, h) = hashadd2 (Some (map ToLower (a_name a))) (Some a) (attr_name_htab s1) 1
           in init_attrtab_loop rest (s1\<lparr>attr_name_htab := h\<rparr>))"

definition init_attrtab :: "ATTR list \<Rightarrow> vattr_state \<Rightarrow> vattr_state option" where
  "init_attrtab attr s =
     map_option (\<lambda>h. init_attrtab_loop attr (s\<lparr>attr_name_htab := h\<rparr>)) (hashinit (attr_name_htab s) 521)"

definition MBUF_SIZE :: nat where
  "MBUF_SIZE = 200"

text \<open>The copy that \<open>tattr\<close> receives.\<close>

definition tattr_of :: "VATTR \<Rightarrow> ATTR" where
  "tattr_of va = \<lparr>a_name = vname va, a_number = vnumber va, a_flags = vflags va\<rparr>"

text \<open>\<open>atr_str\<close>; \<open>atr_str2\<close> and \<open>atr_str_bool\<close> are the same code. \<open>nolookie\<close> is \<open>mudstate.nolookie\<close>.\<close>

definition atr_str :: "bool \<Rightarrow> string \<Rightarrow> vattr_state \<Rightarrow> ATTR option \<times> vattr_state" where
  "atr_str nolookie str s =
     (let buff = map ToLower (take (MBUF_SIZE - 1) str);
          (a, h) = hashfind (Some buff) (attr_name_htab s);
          s1 = s\<lparr>attr_name_htab := h\<rparr>
      in case a of
           Some a \<Rightarrow> (Some a, s1)
         | None \<Rightarrow>
             (case (if nolookie then (None, s1) else vattr_find buff s1) of
                (Some vp, s2) \<Rightarrow> (Some (tattr_of (cell s2 vp)), s2)
              | (None, s2) \<Rightarrow> (None, s2)))"

text \<open>\<open>atr_num\<close>; \<open>atr_num2\<close> and \<open>atr_num_bool\<close> are the same code. A pointer of the table
  is cast to the type its number tells.\<close>

definition atr_num :: "int \<Rightarrow> vattr_state \<Rightarrow> ATTR option" where
  "atr_num anum s =
     (if anum \<ge> A_USER_START \<and> anum > anum_alc_top s then None
      else case anum_get s anum of
             NULL_attr \<Rightarrow> None
           | Predef a \<Rightarrow> Some a
           | User vp \<Rightarrow> Some (tattr_of (cell s vp)))"

text \<open>\<open>vattr_flags\<close> is \<open>mudconf.vattr_flags\<close>.\<close>

definition mkattr :: "bool \<Rightarrow> int \<Rightarrow> string \<Rightarrow> vattr_state \<Rightarrow> int \<times> vattr_state" where
  "mkattr nolookie vattr_flags buff s =
     (case atr_str nolookie buff (s\<lparr>new_vattr := False\<rparr>) of
        (Some ap, s1) \<Rightarrow> (if a_number ap = 0 then - 1 else a_number ap, s1)
      | (None, s1) \<Rightarrow>
          (case vattr_alloc buff vattr_flags (s1\<lparr>new_vattr := True\<rparr>) of
             (None, s2) \<Rightarrow> (- 1, s2)
           | (Some va, s2) \<Rightarrow> (if vnumber (cell s2 va) = 0 then - 1 else vnumber (cell s2 va), s2)))"

end
