(* ===== verification/Attrs.thy ===== *)
theory Attrs
  imports Alist Vattr Udb_ocache
begin

section \<open>Attributes of objects (src/Server/src/db.c)\<close>

text \<open>
  The layer between the server and the attribute cache: it stores the texts of attributes,
  keeps for every object the list of the numbers of its attributes (as the text of attribute
  \<open>A_LIST\<close>, of which the most recently changed one is held in \<open>mod_alist\<close>), and sets flags of the
  object for some attributes.

  The cache is reached through the macros FETCH, STORE and DELETE of hdrs/db.h, the fields of
  \<open>acache\<close>. What FETCH returns points to the bytes of a value; the code reads it as a C string.
  The text of a buffer of the attribute lists is a C string, \<open>mod_size\<close> is the size of its
  memory. \<open>iter_alist\<close> is the stack of the lists that are being walked, the current one first.

  The functions called for changes of some attributes (\<open>fwdlist_clr\<close>, \<open>desc_reload\<close>,
  \<open>pcache_reload\<close>) are recorded in \<open>reloads\<close>; messages and log lines are left out. \<open>gamedb\<close> holds
  what this layer asks about objects. \<open>malloc\<close> succeeds.
\<close>

subsection \<open>Data\<close>

record 'c acache =
  FETCH :: "Aname \<Rightarrow> 'c \<Rightarrow> string option \<times> 'c"
  STORE :: "Aname \<Rightarrow> string \<Rightarrow> 'c \<Rightarrow> 'c"
  DELETE :: "Aname \<Rightarrow> 'c \<Rightarrow> 'c"

record gamedb =
  g_Owner :: "int \<Rightarrow> int"
  g_Good_obj :: "int \<Rightarrow> bool"
  g_isPlayer :: "int \<Rightarrow> bool"
  g_Wizard :: "int \<Rightarrow> bool"

record attr_conf =
  vlimit :: int
  vattr_limit_checkwiz :: bool
  wizmax_vattr_limit :: int
  max_vattr_limit :: int

record 'c attr_state =
  ac :: 'c
  mod_alist :: "string option"
  mod_size :: int
  mod_al_id :: int
  iter_alist :: "(string option \<times> int) list"
  nvattr :: "int \<Rightarrow> int"
  Flags :: "int \<Rightarrow> 32 word"
  Flags2 :: "int \<Rightarrow> 32 word"
  Flags4 :: "int \<Rightarrow> 32 word"
  vlplay :: int
  vattrs :: vattr_state
  reloads :: "(int \<times> int) list"

definition ATR_BUF_CHUNK :: int where "ATR_BUF_CHUNK = 100"
definition ATR_BUF_INCR :: int where "ATR_BUF_INCR = 6"

definition A_STARTUP :: int where "A_STARTUP = 19"
definition A_LISTEN :: int where "A_LISTEN = 26"
definition A_QUEUEMAX :: int where "A_QUEUEMAX = 31"
definition A_TIMEOUT :: int where "A_TIMEOUT = 48"
definition A_FORWARDLIST :: int where "A_FORWARDLIST = 95"
definition A_MODIFY_TIME :: int where "A_MODIFY_TIME = 227"
definition A_DESTVATTRMAX :: int where "A_DESTVATTRMAX = 243"
definition A_PROTECTNAME :: int where "A_PROTECTNAME = 249"
definition A_LIST :: int where "A_LIST = 253"

definition HAS_STARTUP :: "32 word" where "HAS_STARTUP = 0x00400000"
definition HAS_LISTEN :: "32 word" where "HAS_LISTEN = 0x00000040"
definition HAS_FWDLIST :: "32 word" where "HAS_FWDLIST = 0x00000080"
definition HAS_PROTECT :: "32 word" where "HAS_PROTECT = 0x00400000"

subsection \<open>The raw texts\<close>

definition makekey :: "int \<Rightarrow> int \<Rightarrow> Aname" where
  "makekey thing atr = \<lparr>object = word_of_int thing, anum = word_of_int atr\<rparr>"

definition c_text :: "string \<Rightarrow> string" where
  "c_text bs = takeWhile (\<lambda>c. c \<noteq> NUL) bs"

definition atr_get_raw :: "'c acache \<Rightarrow> int \<Rightarrow> int \<Rightarrow> 'c attr_state \<Rightarrow> string option \<times> 'c attr_state" where
  "atr_get_raw D thing atr s =
     (case FETCH D (makekey thing atr) (ac s) of (a, c) \<Rightarrow> (map_option c_text a, s\<lparr>ac := c\<rparr>))"

text \<open>
  \<open>atr_get_str\<close>, which \<open>atr_get\<close> calls with a new buffer: text, owner and flags. A text on which
  \<open>atr_decode\<close> reads past the end counts as empty.
\<close>

definition atr_get :: "'c acache \<Rightarrow> gamedb \<Rightarrow> int \<Rightarrow> int \<Rightarrow> 'c attr_state \<Rightarrow> (string \<times> int \<times> int) \<times> 'c attr_state" where
  "atr_get D g thing atr s =
     (case atr_get_raw D thing atr s of
        (None, s1) \<Rightarrow> (([], g_Owner g thing, 0), s1)
      | (Some buff, s1) \<Rightarrow>
          (case atr_decode (g_Owner g) buff thing of
             None \<Rightarrow> (([], g_Owner g thing, 0), s1)
           | Some r \<Rightarrow> (r, s1)))"

subsection \<open>The cached attribute list\<close>

definition al_extend :: "int \<Rightarrow> int \<Rightarrow> int" where
  "al_extend bufsiz len = (if len > bufsiz then len + ATR_BUF_CHUNK else bufsiz)"

text \<open>
  \<open>al_store\<close> calls \<open>atr_add_raw\<close> or \<open>atr_clr\<close> for attribute \<open>A_LIST\<close>, on which \<open>al_add\<close> and
  \<open>al_delete\<close> return at once and which sets no flag.
\<close>

definition al_store :: "'c acache \<Rightarrow> 'c attr_state \<Rightarrow> 'c attr_state" where
  "al_store D s =
     (let s1 = (if mod_al_id s \<noteq> NOTHING then
                  (case mod_alist s of
                     Some (c # l) \<Rightarrow> s\<lparr>ac := STORE D (makekey (mod_al_id s) A_LIST) (c # l) (ac s)\<rparr>
                   | _ \<Rightarrow> s\<lparr>ac := DELETE D (makekey (mod_al_id s) A_LIST) (ac s)\<rparr>)
                else s)
      in s1\<lparr>mod_al_id := NOTHING\<rparr>)"

definition al_fetch :: "'c acache \<Rightarrow> int \<Rightarrow> 'c attr_state \<Rightarrow> 'c attr_state" where
  "al_fetch D thing s =
     (if mod_al_id s = thing then s
      else case atr_get_raw D thing A_LIST (al_store D s) of
             (Some astr, s1) \<Rightarrow>
               s1\<lparr>mod_alist := Some astr, mod_size := al_extend (mod_size s1) (al_size (Some astr)), mod_al_id := thing\<rparr>
           | (None, s1) \<Rightarrow>
               s1\<lparr>mod_alist := Some [], mod_size := al_extend (mod_size s1) 1, mod_al_id := thing\<rparr>)"

definition the_alist :: "'c attr_state \<Rightarrow> string" where
  "the_alist s = (case mod_alist s of None \<Rightarrow> [] | Some l \<Rightarrow> l)"

subsection \<open>The limits on new attributes\<close>

text \<open>\<open>if ( attr && mudstate.new_vattr) { vattr_delete(attr->name); mudstate.new_vattr = 0; }\<close>\<close>

definition drop_new :: "int \<Rightarrow> 'c attr_state \<Rightarrow> 'c attr_state" where
  "drop_new attr_no s =
     (case atr_num attr_no (vattrs s) of
        None \<Rightarrow> s
      | Some attr \<Rightarrow>
          if new_vattr (vattrs s) then s\<lparr>vattrs := (vattr_delete (a_name attr) (vattrs s))\<lparr>new_vattr := False\<rparr>\<rparr>
          else s)"

text \<open>The player whose new attributes are counted.\<close>

definition limit_player :: "gamedb \<Rightarrow> int \<Rightarrow> int" where
  "limit_player g who =
     (if g_Good_obj g who then
        if g_isPlayer g who then who
        else let player = g_Owner g who in if g_Good_obj g player \<and> g_isPlayer g player then player else NOTHING
      else NOTHING)"

definition limit_applies :: "attr_conf \<Rightarrow> gamedb \<Rightarrow> int \<Rightarrow> 'c attr_state \<Rightarrow> bool" where
  "limit_applies cf g attr_no s \<longleftrightarrow>
     attr_no > A_USER_START \<and> new_vattr (vattrs s) \<and>
     \<not> (vlplay s \<noteq> NOTHING \<and> (g_Wizard g (vlplay s) \<or>
          (g_Good_obj g (g_Owner g (vlplay s)) \<and> g_Wizard g (g_Owner g (vlplay s)))) \<and> \<not> vattr_limit_checkwiz cf)"

text \<open>The words that \<open>strtok\<close> finds.\<close>

function strtok_words :: "string \<Rightarrow> string list" where
  "strtok_words s =
     (case dropWhile (\<lambda>c. c = CHR '' '') s of
        [] \<Rightarrow> []
      | c # t \<Rightarrow> (c # takeWhile (\<lambda>c. c \<noteq> CHR '' '') t) # strtok_words (dropWhile (\<lambda>c. c \<noteq> CHR '' '') t))"
  by pat_completeness auto
termination strtok_words
proof (relation "measure length", goal_cases)
  case (2 s c t)
  have "length (dropWhile (\<lambda>c. c \<noteq> CHR '' '') t) \<le> length t" by (rule length_dropWhile_le)
  also have "length t < length (dropWhile (\<lambda>c. c = CHR '' '') s)" using 2 by simp
  also have "\<dots> \<le> length s" by (rule length_dropWhile_le)
  finally show ?case by simp
qed simp

declare strtok_words.simps [simp del]

text \<open>
  The check against the player's limit: \<open>None\<close> refuses the attribute, and otherwise the text to
  store in \<open>A_DESTVATTRMAX\<close> of the player, if any.
\<close>

definition limit_text :: "attr_conf \<Rightarrow> gamedb \<Rightarrow> int \<Rightarrow> string \<Rightarrow> string option" where
  "limit_text cf g who s_chkattr =
     (if s_chkattr = [] then Some ''1 -2 0 -2''
      else let ws = map atoi (take 4 (strtok_words s_chkattr));
               i_array = ws @ drop (length ws) [0, - 2, 0, - 2];
               lim = (if i_array ! 1 = - 2 then (if g_Wizard g who then wizmax_vattr_limit cf else max_vattr_limit cf)
                      else i_array ! 1)
           in if i_array ! 1 \<noteq> - 1 \<and> i_array ! 0 + 1 > lim then None
              else Some (sprintf_d (i_array ! 0 + 1) @ '' '' @ sprintf_d (i_array ! 1) @ '' '' @
                         sprintf_d (i_array ! 2) @ '' '' @ sprintf_d (i_array ! 3)))"

definition check_limit ::
  "'c acache \<Rightarrow> attr_conf \<Rightarrow> gamedb \<Rightarrow> int \<Rightarrow> 'c attr_state \<Rightarrow> bool \<times> (int \<times> string) option \<times> 'c attr_state" where
  "check_limit D cf g attr_no s =
     (if \<not> limit_applies cf g attr_no s then (True, None, s)
      else let player = limit_player g (vlplay s)
           in if player = NOTHING then (True, None, s)
              else case atr_get D g player A_DESTVATTRMAX s of
                     ((s_chkattr, _), s1) \<Rightarrow>
                       (case limit_text cf g (vlplay s1) s_chkattr of
                          None \<Rightarrow> (False, None, (drop_new attr_no s1)\<lparr>vlplay := NOTHING\<rparr>)
                        | Some txt \<Rightarrow> (True, Some (player, txt), s1)))"

subsection \<open>Changing the attribute list\<close>

text \<open>
  \<open>al_add\<close> may count a new attribute in an attribute of the player, through \<open>atr_add_raw\<close>, which
  calls \<open>al_add\<close> again, for a built-in attribute, on which the limits do not apply. The
  argument \<open>count\<close> is that call of \<open>atr_add_raw\<close>.
\<close>

definition al_add_with ::
  "(int \<Rightarrow> string \<Rightarrow> 'c attr_state \<Rightarrow> 'c attr_state) \<Rightarrow>
   'c acache \<Rightarrow> attr_conf \<Rightarrow> gamedb \<Rightarrow> int \<Rightarrow> int \<Rightarrow> 'c attr_state \<Rightarrow> 'c attr_state" where
  "al_add_with count D cf g thing attr_no s =
     (if attr_no = A_LIST then s
      else
        let s1 = al_fetch D thing s in
        if al_member (the_alist s1) attr_no then s1
        else if attr_no \<ge> A_USER_START \<and> nvattr s1 thing \<ge> vlimit cf then
          (if vlplay s1 \<noteq> NOTHING then (drop_new attr_no s1)\<lparr>vlplay := NOTHING\<rparr> else s1)
        else case check_limit D cf g attr_no s1 of
               (False, _, s2) \<Rightarrow> s2
             | (True, limit, s2) \<Rightarrow>
                 (let s3 = (if attr_no > 2000000000 then drop_new attr_no s2 else s2);
                      s4 = s3\<lparr>mod_size := al_extend (mod_size s3) (int (length (the_alist s3)) + ATR_BUF_INCR),
                              mod_alist := Some (the_alist s3 @ al_code attr_no),
                              nvattr := (if attr_no \<ge> A_USER_START then (nvattr s3)(thing := nvattr s3 thing + 1) else nvattr s3)\<rparr>
                  in case limit of None \<Rightarrow> s4 | Some (player, txt) \<Rightarrow> count player txt s4))"

text \<open>The flags and the other functions that follow a change of an attribute.\<close>

definition set_marks :: "int \<Rightarrow> int \<Rightarrow> 'c attr_state \<Rightarrow> 'c attr_state" where
  "set_marks thing atr s =
     (if atr = A_STARTUP then s\<lparr>Flags := (Flags s)(thing := Flags s thing OR HAS_STARTUP)\<rparr>
      else if atr = A_PROTECTNAME then s\<lparr>Flags4 := (Flags4 s)(thing := Flags s thing OR HAS_PROTECT)\<rparr>
      else if atr = A_FORWARDLIST then s\<lparr>Flags2 := (Flags2 s)(thing := Flags2 s thing OR HAS_FWDLIST)\<rparr>
      else if atr = A_LISTEN then s\<lparr>Flags2 := (Flags2 s)(thing := Flags2 s thing OR HAS_LISTEN)\<rparr>
      else if atr = A_TIMEOUT \<or> atr = A_QUEUEMAX then s\<lparr>reloads := reloads s @ [(thing, atr)]\<rparr>
      else s)"

definition clear_marks :: "int \<Rightarrow> int \<Rightarrow> 'c attr_state \<Rightarrow> 'c attr_state" where
  "clear_marks thing atr s =
     (if atr = A_STARTUP then s\<lparr>Flags := (Flags s)(thing := Flags s thing AND NOT HAS_STARTUP)\<rparr>
      else if atr = A_PROTECTNAME then s\<lparr>Flags4 := (Flags4 s)(thing := Flags s thing AND NOT HAS_PROTECT)\<rparr>
      else if atr = A_FORWARDLIST then
        s\<lparr>Flags2 := (Flags2 s)(thing := Flags2 s thing AND NOT HAS_FWDLIST), reloads := reloads s @ [(thing, atr)]\<rparr>
      else if atr = A_LISTEN then s\<lparr>Flags2 := (Flags2 s)(thing := Flags2 s thing AND NOT HAS_LISTEN)\<rparr>
      else if atr = A_TIMEOUT \<or> atr = A_QUEUEMAX then s\<lparr>reloads := reloads s @ [(thing, atr)]\<rparr>
      else s)"

text \<open>The branch of \<open>atr_add_raw\<close> for a text that is not empty.\<close>

definition add_text ::
  "(int \<Rightarrow> string \<Rightarrow> 'c attr_state \<Rightarrow> 'c attr_state) \<Rightarrow>
   'c acache \<Rightarrow> attr_conf \<Rightarrow> gamedb \<Rightarrow> int \<Rightarrow> int \<Rightarrow> string \<Rightarrow> 'c attr_state \<Rightarrow> 'c attr_state" where
  "add_text count D cf g thing atr buff s =
     set_marks thing atr
       (al_add_with count D cf g thing atr (s\<lparr>ac := STORE D (makekey thing atr) buff (ac s)\<rparr>))"

text \<open>The inner call: \<open>A_DESTVATTRMAX\<close> is built in, so that nothing is counted again.\<close>

definition count_new :: "'c acache \<Rightarrow> attr_conf \<Rightarrow> gamedb \<Rightarrow> int \<Rightarrow> string \<Rightarrow> 'c attr_state \<Rightarrow> 'c attr_state" where
  "count_new D cf g player txt s = add_text (\<lambda>_ _ s. s) D cf g player A_DESTVATTRMAX txt s"

definition al_add :: "'c acache \<Rightarrow> attr_conf \<Rightarrow> gamedb \<Rightarrow> int \<Rightarrow> int \<Rightarrow> 'c attr_state \<Rightarrow> 'c attr_state" where
  "al_add D cf g = al_add_with (count_new D cf g) D cf g"

text \<open>
  \<open>al_delete\<close> takes the number out of the list and then makes the same check against the limit
  as \<open>al_add\<close>; this counts an attribute as created once more.
\<close>

definition al_delete :: "'c acache \<Rightarrow> attr_conf \<Rightarrow> gamedb \<Rightarrow> int \<Rightarrow> int \<Rightarrow> 'c attr_state \<Rightarrow> 'c attr_state" where
  "al_delete D cf g thing attr_no s =
     (if attr_no = A_LIST then s
      else
        let s1 = al_fetch D thing s;
            s2 = (case al_remove (the_alist s1) attr_no of
                    None \<Rightarrow> s1
                  | Some l \<Rightarrow> s1\<lparr>mod_alist := Some l,
                      nvattr := (if attr_no \<ge> A_USER_START then (nvattr s1)(thing := nvattr s1 thing - 1) else nvattr s1)\<rparr>)
        in case check_limit D cf g attr_no s2 of
             (False, _, s3) \<Rightarrow> s3
           | (True, None, s3) \<Rightarrow> s3
           | (True, Some (player, txt), s3) \<Rightarrow> count_new D cf g player txt s3)"

definition al_destroy :: "'c acache \<Rightarrow> attr_conf \<Rightarrow> gamedb \<Rightarrow> int \<Rightarrow> 'c attr_state \<Rightarrow> 'c attr_state" where
  "al_destroy D cf g thing s =
     (let s1 = (if mod_al_id s = thing then al_store D s else s);
          s2 = s1\<lparr>ac := DELETE D (makekey thing A_LIST) (ac s1)\<rparr>
      in if g_Good_obj g thing then s2\<lparr>nvattr := (nvattr s2)(thing := 0)\<rparr> else s2)"

subsection \<open>Setting and clearing attributes\<close>

definition atr_clr :: "'c acache \<Rightarrow> attr_conf \<Rightarrow> gamedb \<Rightarrow> int \<Rightarrow> int \<Rightarrow> 'c attr_state \<Rightarrow> 'c attr_state" where
  "atr_clr D cf g thing atr s =
     clear_marks thing atr (al_delete D cf g thing atr (s\<lparr>ac := DELETE D (makekey thing atr) (ac s)\<rparr>))"

definition atr_add_raw :: "'c acache \<Rightarrow> attr_conf \<Rightarrow> gamedb \<Rightarrow> int \<Rightarrow> int \<Rightarrow> string option \<Rightarrow> 'c attr_state \<Rightarrow> 'c attr_state" where
  "atr_add_raw D cf g thing atr buff s =
     (case buff of
        Some (c # b) \<Rightarrow> add_text (count_new D cf g) D cf g thing atr (c # b) s
      | _ \<Rightarrow> al_delete D cf g thing atr (s\<lparr>ac := DELETE D (makekey thing atr) (ac s)\<rparr>))"

text \<open>\<open>stamp\<close> is the text of the current time when the time of the change is to be noted.\<close>

definition atr_add ::
  "string option \<Rightarrow> 'c acache \<Rightarrow> attr_conf \<Rightarrow> gamedb \<Rightarrow> int \<Rightarrow> int \<Rightarrow> string option \<Rightarrow> int \<Rightarrow> int \<Rightarrow> 'c attr_state \<Rightarrow> 'c attr_state" where
  "atr_add stamp D cf g thing atr buff owner flags s =
     (let s1 = (case stamp of None \<Rightarrow> s | Some t \<Rightarrow> atr_add_raw D cf g thing A_MODIFY_TIME (Some t) s)
      in case buff of
           Some (c # b) \<Rightarrow> atr_add_raw D cf g thing atr (Some (atr_encode (g_Owner g) (c # b) thing owner flags)) s1
         | _ \<Rightarrow> atr_clr D cf g thing atr s1)"

definition atr_set_owner ::
  "string option \<Rightarrow> 'c acache \<Rightarrow> attr_conf \<Rightarrow> gamedb \<Rightarrow> int \<Rightarrow> int \<Rightarrow> int \<Rightarrow> 'c attr_state \<Rightarrow> 'c attr_state" where
  "atr_set_owner stamp D cf g thing atr owner s =
     (case atr_get D g thing atr s of ((buff, _, aflags), s1) \<Rightarrow> atr_add stamp D cf g thing atr (Some buff) owner aflags s1)"

definition atr_set_flags ::
  "string option \<Rightarrow> 'c acache \<Rightarrow> attr_conf \<Rightarrow> gamedb \<Rightarrow> int \<Rightarrow> int \<Rightarrow> int \<Rightarrow> 'c attr_state \<Rightarrow> 'c attr_state" where
  "atr_set_flags stamp D cf g thing atr flags s =
     (case atr_get D g thing atr s of ((buff, aowner, _), s1) \<Rightarrow> atr_add stamp D cf g thing atr (Some buff) aowner flags s1)"

definition atr_get_info :: "'c acache \<Rightarrow> gamedb \<Rightarrow> int \<Rightarrow> int \<Rightarrow> 'c attr_state \<Rightarrow> (int \<times> int \<times> int) \<times> 'c attr_state" where
  "atr_get_info D g thing atr s =
     (case atr_get_raw D thing atr s of
        (None, s1) \<Rightarrow> ((0, g_Owner g thing, 0), s1)
      | (Some buff, s1) \<Rightarrow>
          (case atr_decode (g_Owner g) buff thing of
             None \<Rightarrow> ((1, g_Owner g thing, 0), s1)
           | Some (_, owner, flags) \<Rightarrow> ((1, owner, flags), s1)))"

subsection \<open>Walking over the attributes of an object\<close>

definition atr_push :: "'c attr_state \<Rightarrow> 'c attr_state" where
  "atr_push s = s\<lparr>iter_alist := (None, 0) # iter_alist s\<rparr>"

definition atr_pop :: "'c attr_state \<Rightarrow> 'c attr_state" where
  "atr_pop s = s\<lparr>iter_alist := (case iter_alist s of _ # x # xs \<Rightarrow> x # xs | _ \<Rightarrow> [(None, 0)])\<rparr>"

text \<open>
  The result is the first number, or 0, and the pointer behind it in a copy of the list;
  \<open>None\<close> is a pointer that is not set.
\<close>

definition atr_head :: "'c acache \<Rightarrow> int \<Rightarrow> 'c attr_state \<Rightarrow> (int \<times> string option) \<times> 'c attr_state" where
  "atr_head D thing s =
     (let (astr, s1) = (if thing = mod_al_id s then (mod_alist s, s) else atr_get_raw D thing A_LIST s);
          alen = al_size astr
      in if alen = 0 then ((0, None), s1)
         else (atr_next astr,
               s1\<lparr>iter_alist := (astr, al_extend (snd (hd (iter_alist s1))) alen) # tl (iter_alist s1)\<rparr>))"

text \<open>\<open>for (attr = atr_head(thing, &as); attr; attr = atr_next(&as))\<close> with a body.\<close>

function atr_loop :: "(int \<Rightarrow> 's \<Rightarrow> 's) \<Rightarrow> int \<times> string option \<Rightarrow> 's \<Rightarrow> 's" where
  "atr_loop body (attr, as) s =
     (if attr = 0 then s
      else if as = None \<or> as = Some [] then body attr s
      else atr_loop body (atr_next as) (body attr s))"
  by pat_completeness auto
termination atr_loop
proof (relation "measure (\<lambda>(body, (attr, as), s). length (the as))", goal_cases)
  case (2 body attr as s)
  then obtain l where l: "as = Some l" "l \<noteq> []" by auto
  obtain n rest where d: "al_decode l = (n, rest)" by (metis prod.collapse)
  then have "atr_next as = (n, Some rest)" using l by (cases l) (simp_all add: atr_next_def)
  then show ?case using al_decode_shorter [OF d l(2)] l by simp
qed simp

declare atr_loop.simps [simp del]

definition atr_free :: "'c acache \<Rightarrow> attr_conf \<Rightarrow> gamedb \<Rightarrow> int \<Rightarrow> 'c attr_state \<Rightarrow> 'c attr_state" where
  "atr_free D cf g thing s =
     (let (head, s1) = atr_head D thing (atr_push s)
      in al_destroy D cf g thing (atr_pop (atr_loop (\<lambda>attr. atr_clr D cf g thing attr) head s1)))"

definition AF_LOCK :: int where "AF_LOCK = 0x40"

definition atr_chown :: "string option \<Rightarrow> 'c acache \<Rightarrow> attr_conf \<Rightarrow> gamedb \<Rightarrow> int \<Rightarrow> 'c attr_state \<Rightarrow> 'c attr_state" where
  "atr_chown stamp D cf g obj s =
     (let owner = g_Owner g obj;
          (head, s1) = atr_head D obj (atr_push s)
      in atr_pop (atr_loop (\<lambda>attr s.
           case atr_get D g obj attr s of
             ((buf, aowner, aflags), s2) \<Rightarrow>
               if aowner \<noteq> owner \<and> aflags AND AF_LOCK = 0 then atr_add stamp D cf g obj attr (Some buf) owner aflags s2
               else s2) head s1))"

end
