(* ===== verification/Vattr_Laws.thy ===== *)
theory Vattr_Laws
  imports Vattr Htab_Laws "HOL-Library.Multiset"
begin

section \<open>User-defined attributes: laws\<close>

text \<open>
  The invariant of the table and what every operation does to it, seen as a finite map from
  names to numbers and flags; the table of numbers is the inverse of this map.
\<close>

subsection \<open>The invariant\<close>

definition vattr_name :: "string \<Rightarrow> bool" where
  "vattr_name n \<longleftrightarrow> ok_attr_name n \<and> fixcase n = n \<and> length n \<le> VNAME_SIZE"

definition chains_ok :: "(nat \<Rightarrow> VATTR) \<Rightarrow> nat list list \<Rightarrow> bool" where
  "chains_ok cells vh \<longleftrightarrow> length vh = VHASH_SIZE \<and>
     (\<forall>i < VHASH_SIZE. distinct (map (\<lambda>vp. vname (cells vp)) (vh ! i)) \<and>
        (\<forall>vp\<in>set (vh ! i). vattr_hash (vname (cells vp)) = i \<and> vattr_name (vname (cells vp))))"

definition linked :: "nat list list \<Rightarrow> nat \<Rightarrow> bool" where
  "linked vh vp \<longleftrightarrow> (\<exists>i < VHASH_SIZE. vp \<in> set (vh ! i))"

definition free_ok :: "nat list list \<Rightarrow> nat list \<Rightarrow> nat \<Rightarrow> bool" where
  "free_ok vh fl lim \<longleftrightarrow> distinct fl \<and> (\<forall>vp\<in>set fl. vp < lim \<and> \<not> linked vh vp) \<and> (\<forall>vp. linked vh vp \<longrightarrow> vp < lim)"

text \<open>What the table of numbers holds at \<open>k\<close>; numbers outside it have no attribute.\<close>

definition anum_at :: "vattr_state \<Rightarrow> int \<Rightarrow> anum_ptr" where
  "anum_at s k = (if 0 \<le> k \<and> k \<le> anum_alc_top s \<and> anum_table s \<noteq> [] then anum_get s k else NULL_attr)"

definition anum_shape :: "vattr_state \<Rightarrow> bool" where
  "anum_shape s \<longleftrightarrow> 0 < init_size s \<and> 0 \<le> anum_alc_top s \<and>
     (anum_table s = [] \<and> anum_alc_top s = 0 \<or> length (anum_table s) = nat (anum_alc_top s + 1))"

definition anum_ok :: "vattr_state \<Rightarrow> bool" where
  "anum_ok s \<longleftrightarrow> anum_shape s \<and>
     (\<forall>vp. linked (vhash s) vp \<longrightarrow> 0 < vnumber (cell s vp) \<and> anum_at s (vnumber (cell s vp)) = User vp) \<and>
     (\<forall>k vp. anum_at s k = User vp \<longrightarrow> vnumber (cell s vp) = k \<and> linked (vhash s) vp)"

definition vattr_ok :: "vattr_state \<Rightarrow> bool" where
  "vattr_ok s \<longleftrightarrow> chains_ok (cell s) (vhash s) \<and> free_ok (vhash s) (vfreelist s) (vtop s) \<and> anum_ok s \<and>
     vstats_count s = int (sum_list (map length (vhash s))) \<and> vstats_freecnt s = int (length (vfreelist s)) \<and>
     0 \<le> stringblock_hwm s \<and> stringblock_hwm s \<le> STRINGBLOCK"

text \<open>The attributes by name.\<close>

definition vaddr :: "vattr_state \<Rightarrow> string \<Rightarrow> nat option" where
  "vaddr s n = find (\<lambda>vp. n = vname (cell s vp)) (vhash s ! vattr_hash n)"

definition vmap :: "vattr_state \<Rightarrow> string \<Rightarrow> (int \<times> int) option" where
  "vmap s n = map_option (\<lambda>vp. (vnumber (cell s vp), vflags (cell s vp))) (vaddr s n)"

text \<open>The canonical form of a name.\<close>

definition vcanon :: "string \<Rightarrow> string" where
  "vcanon n = fixcase (cut_name n)"

lemma vattr_hash_less [simp]: "vattr_hash n < VHASH_SIZE"
proof -
  have "hashval (Some n) 0xff \<le> 0xff" by (simp add: hashval_def word_and_le1)
  then have "unat (hashval (Some n) 0xff) \<le> unat (0xff :: 32 word)" by (simp add: word_le_nat_alt)
  then show ?thesis by (simp add: vattr_hash_def VHASH_SIZE_def)
qed

lemma fixcase_idem [simp]: "fixcase (fixcase n) = fixcase n"
  by (simp add: fixcase_def)

lemma length_fixcase [simp]: "length (fixcase n) = length n"
  by (simp add: fixcase_def)

lemma length_cut_name: "length (cut_name n) \<le> VNAME_SIZE"
  by (simp add: cut_name_def VNAME_SIZE_def)

lemma vcanon_name: "ok_attr_name (vcanon n) \<Longrightarrow> vattr_name (vcanon n)"
  by (simp add: vattr_name_def vcanon_def length_cut_name)

lemma cut_name_id: "length n \<le> VNAME_SIZE \<Longrightarrow> cut_name n = n"
  by (simp add: cut_name_def)

lemma vcanon_id: "vattr_name n \<Longrightarrow> vcanon n = n"
  by (simp add: vattr_name_def vcanon_def cut_name_id)

lemma chains_okD:
  assumes "chains_ok cells vh" "i < VHASH_SIZE"
  shows "distinct (map (\<lambda>vp. vname (cells vp)) (vh ! i))"
    "vp \<in> set (vh ! i) \<Longrightarrow> vattr_hash (vname (cells vp)) = i \<and> vattr_name (vname (cells vp))"
  using assms by (simp_all add: chains_ok_def)

lemma find_key_iff:
  "distinct (map f xs) \<Longrightarrow> find (\<lambda>x. k = f x) xs = Some y \<longleftrightarrow> y \<in> set xs \<and> f y = k"
  by (induction xs) (auto simp: image_iff)

lemma find_key_None: "find (\<lambda>x. k = f x) xs = None \<longleftrightarrow> k \<notin> f ` set xs"
  by (induction xs) auto

lemma vaddr_Some:
  "chains_ok (cell s) (vhash s) \<Longrightarrow> vaddr s n = Some vp \<longleftrightarrow> vp \<in> set (vhash s ! vattr_hash n) \<and> vname (cell s vp) = n"
  by (simp add: vaddr_def chains_ok_def find_key_iff [where f = "\<lambda>vp. vname (cell s vp)"])

lemma vaddr_None: "vaddr s n = None \<longleftrightarrow> n \<notin> (\<lambda>vp. vname (cell s vp)) ` set (vhash s ! vattr_hash n)"
  unfolding vaddr_def by (rule find_key_None)

lemma vaddr_name: "chains_ok (cell s) (vhash s) \<Longrightarrow> vaddr s n = Some vp \<Longrightarrow> vattr_name n"
proof -
  assume c: "chains_ok (cell s) (vhash s)" and v: "vaddr s n = Some vp"
  have "\<forall>vp\<in>set (vhash s ! vattr_hash n). vattr_name (vname (cell s vp))"
    using chains_okD(2) [OF c vattr_hash_less] by simp
  then show "vattr_name n" using v vaddr_Some [OF c, of n vp] by auto
qed

lemma vaddr_of: "chains_ok (cell s) (vhash s) \<Longrightarrow> i < VHASH_SIZE \<Longrightarrow> vp \<in> set (vhash s ! i) \<Longrightarrow>
    vaddr s (vname (cell s vp)) = Some vp"
  by (simp add: vaddr_Some) (simp add: chains_ok_def)

lemma vmap_cong: "cell s' = cell s \<Longrightarrow> vaddr s' = vaddr s \<Longrightarrow> vmap s' = vmap s"
  by (simp add: vmap_def fun_eq_iff)

subsection \<open>Lookup\<close>

lemma mset_rechain: "vp \<in> set chain \<Longrightarrow> mset (rechain vp chain) = mset chain"
  by (auto simp: rechain_def)

lemma set_rechain: "vp \<in> set chain \<Longrightarrow> set (rechain vp chain) = set chain"
  by (metis mset_rechain set_mset_mset)

lemma distinct_map_mset: "mset xs = mset ys \<Longrightarrow> distinct (map f xs) = distinct (map f ys)"
  by (metis mset_map mset_eq_imp_distinct_iff)

text \<open>A table whose chains are permuted, with everything else but the statistics the same.\<close>

definition permuted :: "vattr_state \<Rightarrow> vattr_state \<Rightarrow> bool" where
  "permuted s s' \<longleftrightarrow> cell s' = cell s \<and> vfreelist s' = vfreelist s \<and> vtop s' = vtop s \<and> vstats_count s' = vstats_count s \<and>
     vstats_freecnt s' = vstats_freecnt s \<and> stringblock_hwm s' = stringblock_hwm s \<and> anum_table s' = anum_table s \<and>
     anum_alc_top s' = anum_alc_top s \<and> init_size s' = init_size s \<and> attr_next s' = attr_next s \<and>
     list_all2 (\<lambda>c c'. mset c' = mset c) (vhash s) (vhash s')"

lemma permuted_nth: "permuted s s' \<Longrightarrow> i < length (vhash s) \<Longrightarrow> mset (vhash s' ! i) = mset (vhash s ! i)"
  by (simp add: permuted_def list_all2_conv_all_nth)

lemma permuted_set: "permuted s s' \<Longrightarrow> i < length (vhash s) \<Longrightarrow> set (vhash s' ! i) = set (vhash s ! i)"
  by (metis permuted_nth set_mset_mset)

lemma permuted_ok:
  assumes p: "permuted s s'" and ok: "vattr_ok s"
  shows "vattr_ok s' \<and> vaddr s' = vaddr s \<and> vmap s' = vmap s"
proof -
  have f: "cell s' = cell s" "vfreelist s' = vfreelist s" "vtop s' = vtop s" "length (vhash s') = length (vhash s)"
      "length (vhash s) = VHASH_SIZE"
    using p ok by (auto simp: permuted_def vattr_ok_def chains_ok_def list_all2_lengthD)
  have st: "set (vhash s' ! i) = set (vhash s ! i)" if "i < VHASH_SIZE" for i
    using permuted_set [OF p] f(5) that by simp
  have ds: "distinct (map g (vhash s' ! i)) = distinct (map g (vhash s ! i))" if "i < VHASH_SIZE" for i and g :: "nat \<Rightarrow> string"
    using distinct_map_mset [OF permuted_nth [OF p]] f(5) that by simp
  have c: "chains_ok (cell s') (vhash s')" using ok f by (simp add: vattr_ok_def chains_ok_def st ds)
  have lk: "linked (vhash s') = linked (vhash s)" using st by (auto simp: linked_def fun_eq_iff)
  have fr: "free_ok (vhash s') (vfreelist s') (vtop s')" using ok f by (simp add: vattr_ok_def free_ok_def lk)
  have an: "anum_at s' = anum_at s" "anum_shape s' = anum_shape s"
    using p by (simp_all add: permuted_def anum_at_def anum_shape_def anum_get_def fun_eq_iff)
  have a: "anum_ok s'" using ok unfolding vattr_ok_def anum_ok_def an lk f(1) by blast
  have "list_all2 (\<lambda>c c'. length c' = length c) (vhash s) (vhash s')"
    using p by (auto simp: permuted_def elim!: list_all2_mono dest: mset_eq_length)
  then have "map length (vhash s') = map length (vhash s)"
    by (simp add: list_all2_conv_all_nth list_eq_iff_nth_eq)
  then have ok': "vattr_ok s'" using ok p c fr a by (simp add: vattr_ok_def permuted_def)
  have "vaddr s' n = vaddr s n" for n
  proof (rule option.expand)
    show "(vaddr s' n = None) = (vaddr s n = None)" using st [of "vattr_hash n"] by (simp add: vaddr_None f)
  next
    assume "vaddr s' n \<noteq> None" "vaddr s n \<noteq> None"
    then obtain a b where ab: "vaddr s' n = Some a" "vaddr s n = Some b" by auto
    then have "vaddr s n = Some a" using c ok st [of "vattr_hash n"] by (simp add: vaddr_Some f vattr_ok_def)
    then show "the (vaddr s' n) = the (vaddr s n)" using ab by simp
  qed
  then show ?thesis using ok' vmap_cong [OF f(1)] by blast
qed

lemma vattr_find_ok:
  assumes ok: "vattr_ok s" and r: "vattr_find name0 s = (v, s')"
  shows "v = vaddr s (fixcase name0) \<and> permuted s s'"
proof -
  let ?n = "fixcase name0"
  let ?h = "vattr_hash ?n"
  have c: "chains_ok (cell s) (vhash s)" using ok by (simp add: vattr_ok_def)
  have len: "?h < length (vhash s)" using c by (simp add: chains_ok_def)
  have refl: "list_all2 (\<lambda>c c'. mset c' = mset c) (vhash s) (vhash s)" by (simp add: list_all2_refl)
  show ?thesis
  proof (cases "ok_attr_name ?n")
    case False
    then have "vaddr s ?n = None" using vaddr_name [OF c] by (metis not_None_eq vattr_name_def)
    then show ?thesis using r False refl by (auto simp: vattr_find_def permuted_def)
  next
    case True
    show ?thesis
    proof (cases "vaddr s ?n")
      case None
      then show ?thesis using r True refl by (auto simp: vattr_find_def vaddr_def permuted_def Let_def)
    next
      case (Some vp)
      have "mset (rechain vp (vhash s ! ?h)) = mset (vhash s ! ?h)"
        using Some vaddr_Some [OF c] by (simp add: mset_rechain)
      then have "list_all2 (\<lambda>c c'. mset c' = mset c) (vhash s) ((vhash s)[?h := rechain vp (vhash s ! ?h)])"
        using len by (simp add: list_all2_conv_all_nth nth_list_update)
      then show ?thesis using r True Some by (auto simp: vattr_find_def vaddr_def permuted_def Let_def)
    qed
  qed
qed

subsection \<open>The table of numbers\<close>

lemma anum_extend_ok:
  assumes sh: "anum_shape s"
  shows "anum_shape (anum_extend k s) \<and> anum_at (anum_extend k s) = anum_at s \<and> k \<le> anum_alc_top (anum_extend k s) \<and>
    (0 < k \<longrightarrow> anum_table (anum_extend k s) \<noteq> [])"
proof (cases "k \<le> anum_alc_top s")
  case True
  then show ?thesis using sh by (auto simp: anum_extend_def Let_def anum_shape_def)
next
  case False
  let ?newtop = "if k < anum_alc_top s + init_size s then anum_alc_top s + init_size s else k"
  let ?s = "anum_extend k s"
  have top: "0 \<le> anum_alc_top s" using sh by (auto simp: anum_shape_def)
  have nt: "anum_alc_top s < ?newtop" "k \<le> ?newtop" using False sh by (auto simp: anum_shape_def)
  have e: "anum_alc_top ?s = ?newtop" "init_size ?s = init_size s"
      "anum_table ?s = (if anum_table s = [] then replicate (nat (?newtop + 1)) NULL_attr
         else take (nat (anum_alc_top s + 1)) (anum_table s) @ replicate (nat (?newtop - anum_alc_top s)) NULL_attr)"
    using False by (simp_all add: anum_extend_def Let_def)
  have len: "length (anum_table ?s) = nat (?newtop + 1)"
    using sh nt(1) top unfolding e(3) anum_shape_def by auto
  then have ne: "anum_table ?s \<noteq> []" using nt(1) top by auto
  have "anum_at ?s j = anum_at s j" for j
  proof (cases "anum_table s = []")
    case True
    then show ?thesis unfolding anum_at_def anum_get_def e(1,3) by auto
  next
    case False
    then have l: "length (anum_table s) = nat (anum_alc_top s + 1)" using sh top by (simp add: anum_shape_def)
    show ?thesis
    proof (cases "j \<le> anum_alc_top s")
      case True
      then show ?thesis using False l nt(1) unfolding anum_at_def anum_get_def e(1,3)
        by (auto simp: nth_append)
    next
      case j: False
      then have "0 \<le> j" using top by linarith
      then show ?thesis using False l j unfolding anum_at_def anum_get_def e(1,3)
        by (auto simp: nth_append)
    qed
  qed
  then show ?thesis using sh len ne nt(2) e by (simp add: anum_shape_def fun_eq_iff)
qed

lemma anum_extend_fields [simp]:
  "cell (anum_extend k s) = cell s" "vhash (anum_extend k s) = vhash s" "vfreelist (anum_extend k s) = vfreelist s"
  "vtop (anum_extend k s) = vtop s" "vstats_count (anum_extend k s) = vstats_count s"
  "vstats_freecnt (anum_extend k s) = vstats_freecnt s" "stringblock_hwm (anum_extend k s) = stringblock_hwm s"
  "attr_next (anum_extend k s) = attr_next s" "attr_name_htab (anum_extend k s) = attr_name_htab s"
  by (simp_all add: anum_extend_def Let_def)

lemma anum_set_ok:
  assumes sh: "anum_shape s" and k: "0 < k" "k \<le> anum_alc_top s" "anum_table s \<noteq> []"
  shows "anum_shape (anum_set k v s) \<and> anum_at (anum_set k v s) = (anum_at s)(k := v)"
proof -
  have l: "length (anum_table s) = nat (anum_alc_top s + 1)" using sh k(3) by (simp add: anum_shape_def)
  then have "nat k < length (anum_table s)" using k by simp
  then have "anum_at (anum_set k v s) j = ((anum_at s)(k := v)) j" for j
    using k by (auto simp: anum_at_def anum_set_def anum_get_def nth_list_update nat_eq_iff)
  then show ?thesis using sh k(3) by (simp add: anum_shape_def anum_set_def fun_eq_iff)
qed

lemma anum_set_fields [simp]:
  "cell (anum_set k v s) = cell s" "vhash (anum_set k v s) = vhash s" "vfreelist (anum_set k v s) = vfreelist s"
  "vtop (anum_set k v s) = vtop s" "vstats_count (anum_set k v s) = vstats_count s"
  "vstats_freecnt (anum_set k v s) = vstats_freecnt s" "stringblock_hwm (anum_set k v s) = stringblock_hwm s"
  "attr_next (anum_set k v s) = attr_next s" "attr_name_htab (anum_set k v s) = attr_name_htab s"
  "anum_alc_top (anum_set k v s) = anum_alc_top s" "init_size (anum_set k v s) = init_size s"
  by (simp_all add: anum_set_def)

subsection \<open>Linking and unlinking a cell\<close>

lemma linked_update:
  "length vh = VHASH_SIZE \<Longrightarrow> h < VHASH_SIZE \<Longrightarrow>
     linked (vh[h := chain]) vp \<longleftrightarrow> vp \<in> set chain \<or> (\<exists>i < VHASH_SIZE. i \<noteq> h \<and> vp \<in> set (vh ! i))"
  by (auto simp: linked_def nth_list_update)

lemma linked_bucket: "chains_ok cells vh \<Longrightarrow> linked vh vp \<Longrightarrow> vp \<in> set (vh ! vattr_hash (vname (cells vp)))"
  by (auto simp: linked_def chains_ok_def)

lemma linked_name: "chains_ok cells vh \<Longrightarrow> linked vh vp \<Longrightarrow> vattr_name (vname (cells vp))"
  by (auto simp: linked_def chains_ok_def)

lemma vaddr_iff:
  assumes c: "chains_ok (cell s) (vhash s)"
  shows "vaddr s n = Some vp \<longleftrightarrow> linked (vhash s) vp \<and> vname (cell s vp) = n"
proof -
  have "vp \<in> set (vhash s ! vattr_hash n) \<Longrightarrow> linked (vhash s) vp" using vattr_hash_less [of n] unfolding linked_def by blast
  then show ?thesis using vaddr_Some [OF c, of n vp] linked_bucket [OF c, of vp] by auto
qed

lemma chains_link:
  assumes c: "chains_ok cells vh" and new: "\<not> linked vh vp" and n: "vattr_name n" "vname va = n"
    and fresh: "\<forall>q. linked vh q \<longrightarrow> vname (cells q) \<noteq> n"
  shows "chains_ok (cells(vp := va)) (vh[vattr_hash n := vp # vh ! vattr_hash n]) \<and>
    (\<forall>q. linked (vh[vattr_hash n := vp # vh ! vattr_hash n]) q \<longleftrightarrow> q = vp \<or> linked vh q)"
proof -
  let ?h = "vattr_hash n" and ?c = "cells(vp := va)"
  let ?vh = "vh[?h := vp # vh ! ?h]"
  have len: "length vh = VHASH_SIZE" using c by (simp add: chains_ok_def)
  have notin: "vp \<notin> set (vh ! i)" if "i < VHASH_SIZE" for i using new that by (auto simp: linked_def)
  have same: "map (\<lambda>q. vname (?c q)) (vh ! i) = map (\<lambda>q. vname (cells q)) (vh ! i)" if "i < VHASH_SIZE" for i
    using notin [OF that] by auto
  have "linked vh q" if "q \<in> set (vh ! ?h)" for q using that vattr_hash_less [of n] unfolding linked_def by blast
  then have fr: "n \<notin> (\<lambda>q. vname (cells q)) ` set (vh ! ?h)" using fresh by auto
  have "distinct (map (\<lambda>q. vname (?c q)) (?vh ! i)) \<and>
      (\<forall>q\<in>set (?vh ! i). vattr_hash (vname (?c q)) = i \<and> vattr_name (vname (?c q)))" if i: "i < VHASH_SIZE" for i
  proof (cases "i = ?h")
    case True
    then show ?thesis using chains_okD [OF c i] same [OF i] fr n len i notin [OF i]
      by (auto simp del: map_eq_conv)
  next
    case False
    then show ?thesis using chains_okD [OF c i] same [OF i] notin [OF i] by (auto simp del: map_eq_conv)
  qed
  moreover have "linked ?vh q \<longleftrightarrow> q = vp \<or> linked vh q" for q
    using linked_update [OF len vattr_hash_less, of n "vp # vh ! ?h" q] vattr_hash_less [of n] by (auto simp: linked_def)
  ultimately show ?thesis using len by (simp add: chains_ok_def)
qed

lemma chains_unlink:
  assumes c: "chains_ok cells vh" and l: "linked vh vp" and h: "h = vattr_hash (vname (cells vp))"
  shows "chains_ok cells (vh[h := remove1 vp (vh ! h)]) \<and>
    (\<forall>q. linked (vh[h := remove1 vp (vh ! h)]) q \<longleftrightarrow> q \<noteq> vp \<and> linked vh q) \<and> vp \<in> set (vh ! h)"
proof -
  let ?vh = "vh[h := remove1 vp (vh ! h)]"
  have len: "length vh = VHASH_SIZE" using c by (simp add: chains_ok_def)
  have hl: "h < VHASH_SIZE" by (simp add: h)
  have mem: "vp \<in> set (vh ! h)" using linked_bucket [OF c l] h by simp
  have d: "distinct (vh ! h)" using chains_okD(1) [OF c hl] distinct_map by blast
  have st: "set (remove1 vp (vh ! h)) = set (vh ! h) - {vp}" using d by (rule set_remove1_eq)
  have dm: "distinct (map (\<lambda>q. vname (cells q)) (remove1 vp (vh ! h)))"
    using chains_okD(1) [OF c hl] distinct_remove1 [OF d]
    by (auto simp: distinct_map st inj_on_def)
  have ok: "distinct (map (\<lambda>q. vname (cells q)) (?vh ! i)) \<and>
      (\<forall>q\<in>set (?vh ! i). vattr_hash (vname (cells q)) = i \<and> vattr_name (vname (cells q)))" if i: "i < VHASH_SIZE" for i
    using chains_okD [OF c i] dm st len hl by (cases "i = h") auto
  have other: "vp \<notin> set (vh ! i)" if "i < VHASH_SIZE" "i \<noteq> h" for i
    using chains_okD(2) [OF c that(1), of vp] that(2) h by auto
  have "linked ?vh q \<longleftrightarrow> q \<noteq> vp \<and> linked vh q" for q
    using linked_update [OF len hl, of "remove1 vp (vh ! h)" q] other hl by (auto simp: linked_def st)
  then show ?thesis using ok len mem by (simp add: chains_ok_def)
qed

lemma sum_chain_update:
  assumes "length vh = VHASH_SIZE" "h < VHASH_SIZE"
  shows "int (sum_list (map length (vh[h := chain]))) =
    int (sum_list (map length vh)) + int (length chain) - int (length (vh ! h))"
  using sum_list_update_nat [of h vh length chain] assms by simp

subsection \<open>Defining an attribute\<close>

lemma sum_chain_remove:
  assumes "length vh = VHASH_SIZE" "h < VHASH_SIZE" "vp \<in> set (vh ! h)"
  shows "int (sum_list (map length (vh[h := remove1 vp (vh ! h)]))) = int (sum_list (map length vh)) - 1"
proof -
  have "length (vh ! h) = Suc (length (remove1 vp (vh ! h)))"
    using assms(3) length_pos_if_in_set [OF assms(3)] by (simp add: length_remove1)
  then show ?thesis using sum_chain_update [OF assms(1,2), of "remove1 vp (vh ! h)"] by simp
qed

lemma store_string_ok:
  assumes "store_string str s = (r, s')" "length str \<le> VNAME_SIZE" "0 \<le> stringblock_hwm s" "stringblock_hwm s \<le> STRINGBLOCK"
  shows "r = str \<and> 0 \<le> stringblock_hwm s' \<and> stringblock_hwm s' \<le> STRINGBLOCK \<and>
    s' = s\<lparr>stringblock := stringblock s', stringblock_hwm := stringblock_hwm s'\<rparr>"
  using assms by (auto simp: store_string_def Let_def STRINGBLOCK_def VNAME_SIZE_def split: if_splits)

lemma alloc_cells_ok:
  assumes "free_ok (vhash s) (vfreelist s) (vtop s)" "vstats_freecnt s = int (length (vfreelist s))"
  shows "free_ok (vhash s) (vfreelist (alloc_cells s)) (vtop (alloc_cells s)) \<and> vfreelist (alloc_cells s) \<noteq> [] \<and>
    vstats_freecnt (alloc_cells s) = int (length (vfreelist (alloc_cells s)))"
  using assms by (auto simp: alloc_cells_def free_ok_def VALLOC_SIZE_def)

lemma alloc_cells_fields [simp]:
  "cell (alloc_cells s) = cell s" "vhash (alloc_cells s) = vhash s" "vstats_count (alloc_cells s) = vstats_count s"
  "stringblock_hwm (alloc_cells s) = stringblock_hwm s" "anum_table (alloc_cells s) = anum_table s"
  "anum_alc_top (alloc_cells s) = anum_alc_top s" "init_size (alloc_cells s) = init_size s"
  "attr_next (alloc_cells s) = attr_next s" "attr_name_htab (alloc_cells s) = attr_name_htab s"
  by (simp_all add: alloc_cells_def)

lemma anum_cong:
  "anum_table s' = anum_table s \<Longrightarrow> anum_alc_top s' = anum_alc_top s \<Longrightarrow> init_size s' = init_size s \<Longrightarrow>
     anum_at s' = anum_at s \<and> anum_shape s' = anum_shape s"
  by (simp add: anum_at_def anum_shape_def anum_get_def fun_eq_iff)

lemma vaddr_eqI:
  assumes "chains_ok (cell s) (vhash s)" "\<And>vp. m n = Some vp \<longleftrightarrow> linked (vhash s) vp \<and> vname (cell s vp) = n"
  shows "vaddr s n = m n"
  using assms vaddr_iff [OF assms(1), of n] by (metis not_None_eq)

text \<open>The new attribute: the cell \<open>vp\<close> gets its fields, its place in a chain and its number.\<close>

lemma new_attr_ok:
  assumes ok: "chains_ok (cell s) (vhash s)" "free_ok (vhash s) (vp # fl) (vtop s)" "anum_ok s"
    and n: "vattr_name n" "vaddr s n = None" and num: "0 < number" "\<And>q. anum_at s number \<noteq> User q"
    and s': "cell s' = (cell s)(vp := \<lparr>vname = n, vnumber = number, vflags = flags\<rparr>)"
      "vhash s' = (vhash s)[vattr_hash n := vp # vhash s ! vattr_hash n]" "vfreelist s' = fl" "vtop s' = vtop s"
      "anum_at s' = (anum_at s)(number := User vp)" "anum_shape s'"
  shows "chains_ok (cell s') (vhash s') \<and> free_ok (vhash s') (vfreelist s') (vtop s') \<and> anum_ok s' \<and>
    vaddr s' = (vaddr s)(n \<mapsto> vp) \<and> vmap s' = (vmap s)(n \<mapsto> (number, flags))"
proof -
  have fresh: "\<not> linked (vhash s) vp" using ok(2) by (simp add: free_ok_def)
  have names: "\<forall>q. linked (vhash s) q \<longrightarrow> vname (cell s q) \<noteq> n" using n(2) vaddr_iff [OF ok(1), of n] by auto
  note link = chains_link [OF ok(1) fresh n(1) _ names, of "\<lparr>vname = n, vnumber = number, vflags = flags\<rparr>"]
  have c: "chains_ok (cell s') (vhash s')" using link by (simp add: s')
  have l: "linked (vhash s') q \<longleftrightarrow> q = vp \<or> linked (vhash s) q" for q using link by (simp add: s')
  have cl: "q \<noteq> vp \<Longrightarrow> cell s' q = cell s q" "cell s' vp = \<lparr>vname = n, vnumber = number, vflags = flags\<rparr>" for q
    by (simp_all add: s')
  have f: "free_ok (vhash s') (vfreelist s') (vtop s')" using ok(2) by (auto simp: free_ok_def l s'(3,4))
  have a: "anum_ok s'" unfolding anum_ok_def
  proof (intro conjI allI impI)
    show "anum_shape s'" by (rule s'(6))
  next
    fix q assume "linked (vhash s') q"
    then show "0 < vnumber (cell s' q)" using ok(3) num(1) cl by (cases "q = vp") (auto simp: l anum_ok_def)
  next
    fix q assume q: "linked (vhash s') q"
    show "anum_at s' (vnumber (cell s' q)) = User q"
    proof (cases "q = vp")
      case False
      then have "anum_at s (vnumber (cell s q)) = User q" using ok(3) q by (simp add: l anum_ok_def)
      then show ?thesis using num(2) [of q] False by (auto simp: s')
    qed (simp add: s')
  next
    fix k q assume k: "anum_at s' k = User q"
    show "vnumber (cell s' q) = k"
    proof (cases "k = number")
      case False
      then have "anum_at s k = User q" using k by (simp add: s')
      then have "vnumber (cell s q) = k" "linked (vhash s) q" using ok(3) by (auto simp: anum_ok_def)
      then show ?thesis using cl fresh by metis
    qed (use k in \<open>simp add: s'\<close>)
  next
    fix k q assume k: "anum_at s' k = User q"
    show "linked (vhash s') q"
    proof (cases "k = number")
      case False
      then show ?thesis using k ok(3) by (auto simp: s'(5) l anum_ok_def)
    qed (use k in \<open>simp add: s'(5) l\<close>)
  qed
  have v: "vaddr s' m = ((vaddr s)(n \<mapsto> vp)) m" for m
  proof (rule vaddr_eqI [OF c])
    fix q
    show "((vaddr s)(n \<mapsto> vp)) m = Some q \<longleftrightarrow> linked (vhash s') q \<and> vname (cell s' q) = m"
      using vaddr_iff [OF ok(1), of m q] names fresh cl by (cases "q = vp") (auto simp: l)
  qed
  have "vmap s' m = ((vmap s)(n \<mapsto> (number, flags))) m" for m
    using v [of m] cl vaddr_iff [OF ok(1), of m vp] fresh
    by (cases "vaddr s m") (auto simp: vmap_def fun_upd_apply cl(2) split: if_splits)
  then show ?thesis using c f a v by (simp add: fun_eq_iff)
qed

lemma vattr_define_ok:
  assumes ok: "vattr_ok s" and num: "0 < number" "\<And>q. anum_at s number \<noteq> User q"
    and r: "vattr_define name0 number flags s = (v, s')"
  shows "vattr_ok s' \<and> attr_next s' = attr_next s \<and>
    (if ok_attr_name (vcanon name0) \<and> vaddr s (vcanon name0) = None
     then \<exists>vp. v = Some vp \<and> vaddr s' = (vaddr s)(vcanon name0 \<mapsto> vp) \<and>
       vmap s' = (vmap s)(vcanon name0 \<mapsto> (number, flags)) \<and> anum_at s' = (anum_at s)(number := User vp) \<and>
       cell s' vp = \<lparr>vname = vcanon name0, vnumber = number, vflags = flags\<rparr>
     else v = None \<and> vaddr s' = vaddr s \<and> vmap s' = vmap s \<and> anum_at s' = anum_at s)"
proof -
  let ?n = "vcanon name0"
  obtain w s1 where s1: "vattr_find ?n s = (w, s1)" by (metis prod.collapse)
  have w: "w = vaddr s ?n" and p: "permuted s s1" using vattr_find_ok [OF ok s1] by (simp_all add: vcanon_def)
  note pok = permuted_ok [OF p ok]
  have an: "anum_at s1 = anum_at s" "anum_shape s1 = anum_shape s" "attr_next s1 = attr_next s"
    using p anum_cong [of s1 s] by (simp_all add: permuted_def)
  show ?thesis
  proof (cases "ok_attr_name ?n")
    case False
    then show ?thesis using r ok by (simp add: vattr_define_def vcanon_def Let_def)
  next
    case name: True
    show ?thesis
    proof (cases w)
      case (Some q)
      then have "v = None" "s' = s1" using r name s1 by (auto simp: vattr_define_def vcanon_def Let_def)
      then show ?thesis using Some w pok an by simp
    next
      case None
      let ?s2 = "alloc_cells s1"
      let ?vp = "hd (vfreelist ?s2)"
      let ?s3 = "?s2\<lparr>vfreelist := tl (vfreelist ?s2), vstats_freecnt := vstats_freecnt ?s2 - 1,
          vstats_count := vstats_count ?s2 + 1, vstats_name_cnt := vstats_name_cnt ?s2 + int (length ?n)\<rparr>"
      obtain str s4 where s4: "store_string ?n ?s3 = (str, s4)" by (metis prod.collapse)
      let ?s5 = "s4\<lparr>cell := (cell s4)(?vp := \<lparr>vname = str, vnumber = number, vflags = flags\<rparr>)\<rparr>"
      let ?s6 = "?s5\<lparr>vhash := (vhash ?s5)[vattr_hash ?n := ?vp # vhash ?s5 ! vattr_hash ?n]\<rparr>"
      have eq: "v = Some ?vp" "s' = anum_set number (User ?vp) (anum_extend number ?s6)"
        using r name None s1 s4 by (simp_all add: vattr_define_def vcanon_def [symmetric] Let_def)
      have ok1: "chains_ok (cell s1) (vhash s1)" "free_ok (vhash s1) (vfreelist s1) (vtop s1)" "anum_ok s1"
          "vstats_count s1 = int (sum_list (map length (vhash s1)))" "vstats_freecnt s1 = int (length (vfreelist s1))"
          "0 \<le> stringblock_hwm s1" "stringblock_hwm s1 \<le> STRINGBLOCK"
        using pok by (simp_all add: vattr_ok_def)
      note al = alloc_cells_ok [OF ok1(2,5)]
      have vn: "vattr_name ?n" using vcanon_name name by simp
      have st: "str = ?n \<and> 0 \<le> stringblock_hwm s4 \<and> stringblock_hwm s4 \<le> STRINGBLOCK \<and>
          s4 = ?s3\<lparr>stringblock := stringblock s4, stringblock_hwm := stringblock_hwm s4\<rparr>"
        using store_string_ok [OF s4] vn ok1(6,7) by (simp add: vattr_name_def)
      have f4: "cell s4 = cell s1" "vhash s4 = vhash s1" "vfreelist s4 = tl (vfreelist ?s2)" "vtop s4 = vtop ?s2"
          "vstats_freecnt s4 = vstats_freecnt ?s2 - 1" "vstats_count s4 = vstats_count s1 + 1"
          "anum_table s4 = anum_table s1" "anum_alc_top s4 = anum_alc_top s1" "init_size s4 = init_size s1"
          "attr_next s4 = attr_next s1"
        by (subst conjunct2 [OF conjunct2 [OF conjunct2 [OF st]]], simp)+
      have a6: "anum_at ?s6 = anum_at s1" "anum_shape ?s6" using anum_cong [of ?s6 s1] f4 ok1(3) by (auto simp: anum_ok_def)
      note ex = anum_extend_ok [OF a6(2), of number]
      have a': "anum_shape s'" "anum_at s' = (anum_at s1)(number := User ?vp)"
        using anum_set_ok [of "anum_extend number ?s6" number "User ?vp"] ex num(1) a6(1) by (simp_all add: eq(2))
      have ne: "vfreelist ?s2 = ?vp # tl (vfreelist ?s2)" using al by simp
      let ?t = "s1\<lparr>vtop := vtop ?s2\<rparr>"
      have t: "chains_ok (cell ?t) (vhash ?t)" "free_ok (vhash ?t) (?vp # tl (vfreelist ?s2)) (vtop ?t)"
          "anum_ok ?t" "vaddr ?t = vaddr s1" "vmap ?t = vmap s1" "anum_at ?t = anum_at s1"
        using ok1 al ne anum_cong [of ?t s1] by (auto simp: anum_ok_def vaddr_def vmap_def fun_eq_iff)
      have vn': "vaddr ?t ?n = None" using None w pok t(4) by simp
      have num': "anum_at ?t number \<noteq> User q" for q using num(2) an(1) t(6) by simp
      have c': "cell s' = (cell ?t)(?vp := \<lparr>vname = ?n, vnumber = number, vflags = flags\<rparr>)"
          "vhash s' = (vhash ?t)[vattr_hash ?n := ?vp # vhash ?t ! vattr_hash ?n]" "vfreelist s' = tl (vfreelist ?s2)"
          "vtop s' = vtop ?t" "vstats_count s' = vstats_count s1 + 1" "vstats_freecnt s' = vstats_freecnt ?s2 - 1"
          "stringblock_hwm s' = stringblock_hwm s4" "attr_next s' = attr_next s1"
        using st f4 by (simp_all add: eq(2))
      note new = new_attr_ok [OF t(1-3) vn vn' num(1) num' c'(1-4) _ a'(1)]
      have "chains_ok (cell s') (vhash s') \<and> free_ok (vhash s') (vfreelist s') (vtop s') \<and> anum_ok s' \<and>
          vaddr s' = (vaddr ?t)(?n \<mapsto> ?vp) \<and> vmap s' = (vmap ?t)(?n \<mapsto> (number, flags))"
        using new a'(2) t(6) by simp
      moreover have "int (sum_list (map length (vhash s'))) = int (sum_list (map length (vhash s1))) + 1"
        using sum_chain_update [of "vhash s1" "vattr_hash ?n"] ok1(1) c'(2) by (simp add: chains_ok_def)
      moreover have "vstats_freecnt s' = int (length (vfreelist s'))"
        using al ne c'(3,6) by (metis add_diff_cancel_right' length_Cons of_nat_Suc of_nat_1 add.commute)
      ultimately have "vattr_ok s'" using c'(5,7) ok1(4) st by (simp add: vattr_ok_def)
      moreover have "cell s' ?vp = \<lparr>vname = ?n, vnumber = number, vflags = flags\<rparr>" by (simp add: c'(1))
      ultimately show ?thesis using new a'(2) t(4-6) eq(1) name None w pok an c'(8) by simp
    qed
  qed
qed

subsection \<open>Deleting and renaming\<close>

text \<open>The attribute \<open>n\<close>, in the cell \<open>vp\<close>, leaves its chain and the table of numbers.\<close>

lemma drop_attr_ok:
  assumes ok: "chains_ok (cell s) (vhash s)" "free_ok (vhash s) (vfreelist s) (vtop s)" "anum_ok s"
    and vp: "vaddr s n = Some vp"
    and s': "cell s' = cell s" "vhash s' = (vhash s)[vattr_hash n := remove1 vp (vhash s ! vattr_hash n)]"
      "vfreelist s' = vp # vfreelist s" "vtop s' = vtop s" "anum_shape s'"
      "anum_at s' = (anum_at s)(vnumber (cell s vp) := NULL_attr)"
  shows "chains_ok (cell s') (vhash s') \<and> free_ok (vhash s') (vfreelist s') (vtop s') \<and> anum_ok s' \<and>
    vaddr s' = (vaddr s)(n := None) \<and> vmap s' = (vmap s)(n := None) \<and>
    int (sum_list (map length (vhash s'))) = int (sum_list (map length (vhash s))) - 1"
proof -
  have lv: "linked (vhash s) vp" "vname (cell s vp) = n" using vp by (simp_all only: vaddr_iff [OF ok(1)])
  note un = chains_unlink [OF ok(1) lv(1) arg_cong [OF lv(2) [symmetric], where f = vattr_hash]]
  have c: "chains_ok (cell s') (vhash s')" using un by (simp only: s')
  have l: "linked (vhash s') q \<longleftrightarrow> q \<noteq> vp \<and> linked (vhash s) q" for q using un by (simp only: s')
  have f: "free_ok (vhash s') (vfreelist s') (vtop s')"
    using ok(2) lv(1) unfolding free_ok_def l s'(3,4) by auto
  have a: "anum_ok s'" unfolding anum_ok_def l s'(1)
  proof (intro conjI allI impI)
    show "anum_shape s'" by (rule s'(5))
  next
    fix q assume q: "q \<noteq> vp \<and> linked (vhash s) q"
    have "anum_at s (vnumber (cell s vp)) = User vp" "anum_at s (vnumber (cell s q)) = User q"
      using ok(3) lv(1) q by (auto simp: anum_ok_def)
    then show "anum_at s' (vnumber (cell s q)) = User q" using q unfolding s'(6) by auto
    show "0 < vnumber (cell s q)" using ok(3) q by (simp add: anum_ok_def)
  next
    fix j q assume "anum_at s' j = User q"
    then have js: "anum_at s j = User q" "j \<noteq> vnumber (cell s vp)" unfolding s'(6) by (auto split: if_splits)
    show "vnumber (cell s q) = j" "linked (vhash s) q" using ok(3) js(1) by (auto simp: anum_ok_def)
    then show "q \<noteq> vp" using js(2) by auto
  qed
  have uniq: "q = vp" if "linked (vhash s) q" "vname (cell s q) = n" for q
  proof -
    have "vaddr s n = Some q" using that by (simp only: vaddr_iff [OF ok(1)] simp_thms)
    then show ?thesis using vp by simp
  qed
  have v: "vaddr s' m = ((vaddr s)(n := None)) m" for m
  proof (rule vaddr_eqI [OF c])
    fix q
    show "((vaddr s)(n := None)) m = Some q \<longleftrightarrow> linked (vhash s') q \<and> vname (cell s' q) = m"
    proof (cases "m = n")
      case True
      then show ?thesis using uniq [of q] unfolding l s'(1) by auto
    next
      case False
      then have "((vaddr s)(n := None)) m = Some q \<longleftrightarrow> linked (vhash s) q \<and> vname (cell s q) = m"
        using vaddr_iff [OF ok(1), of m q] by simp
      then show ?thesis using False lv(2) unfolding l s'(1) by auto
    qed
  qed
  then have vm: "vmap s' m = ((vmap s)(n := None)) m" for m by (simp add: vmap_def s'(1))
  have len: "length (vhash s) = VHASH_SIZE" using ok(1) by (simp add: chains_ok_def)
  have mem: "vp \<in> set (vhash s ! vattr_hash n)" using un by simp
  then have "int (sum_list (map length (vhash s'))) = int (sum_list (map length (vhash s))) - 1"
    unfolding s'(2) by (rule sum_chain_remove [OF len vattr_hash_less])
  then show ?thesis using c f a v vm by (simp add: fun_eq_iff)
qed

lemma vattr_delete_ok:
  assumes ok: "vattr_ok s" and n: "n = fixcase name0"
  shows "vattr_ok (vattr_delete name0 s) \<and> attr_next (vattr_delete name0 s) = attr_next s \<and>
    vaddr (vattr_delete name0 s) = (vaddr s)(n := None) \<and> vmap (vattr_delete name0 s) = (vmap s)(n := None) \<and>
    anum_at (vattr_delete name0 s) = (case vaddr s n of None \<Rightarrow> anum_at s | Some vp \<Rightarrow> (anum_at s)(vnumber (cell s vp) := NULL_attr))"
proof -
  have ok': "chains_ok (cell s) (vhash s)" "free_ok (vhash s) (vfreelist s) (vtop s)" "anum_ok s"
      "vstats_count s = int (sum_list (map length (vhash s)))" "vstats_freecnt s = int (length (vfreelist s))"
      "0 \<le> stringblock_hwm s" "stringblock_hwm s \<le> STRINGBLOCK"
    using ok by (simp_all add: vattr_ok_def)
  show ?thesis
  proof (cases "vaddr s n")
    case None
    then have "vattr_delete name0 s = s" by (simp add: vattr_delete_def vaddr_def Let_def n)
    moreover have "(vaddr s)(n := None) = vaddr s" "(vmap s)(n := None) = vmap s" using None by (auto simp: vmap_def)
    ultimately show ?thesis using None ok by simp
  next
    case (Some vp)
    let ?h = "vattr_hash n" and ?k = "vnumber (cell s vp)"
    define s1 where "s1 = s\<lparr>vhash := (vhash s)[?h := remove1 vp (vhash s ! ?h)],
        vstats_name_cnt := vstats_name_cnt s - int (length (vname (cell s vp))), vfreelist := vp # vfreelist s,
        vstats_count := vstats_count s - 1, vstats_freecnt := vstats_freecnt s + 1\<rparr>"
    define s' where "s' = vattr_delete name0 s"
    have "vattr_name n" by (rule vaddr_name [OF ok'(1) Some])
    then have nm: "ok_attr_name n" by (simp add: vattr_name_def)
    have "linked (vhash s) vp" using Some by (simp only: vaddr_iff [OF ok'(1)])
    then have k: "0 < ?k" "anum_at s ?k = User vp" using ok'(3) by (simp_all add: anum_ok_def)
    have top: "?k \<le> anum_alc_top s" "anum_table s \<noteq> []" using k(2) by (auto simp: anum_at_def split: if_splits)
    have eq: "s' = anum_set ?k NULL_attr s1"
      using Some nm k(1) by (simp add: n vattr_delete_def vaddr_def Let_def s'_def s1_def)
    have a1: "anum_at s1 = anum_at s" "anum_shape s1" using anum_cong [of s1 s] ok'(3) by (auto simp: anum_ok_def s1_def)
    have a: "anum_shape s'" "anum_at s' = (anum_at s)(?k := NULL_attr)"
      using anum_set_ok [of s1 ?k NULL_attr] a1 top k(1) by (simp_all add: eq s1_def)
    have f: "cell s' = cell s" "vhash s' = (vhash s)[?h := remove1 vp (vhash s ! ?h)]"
        "vfreelist s' = vp # vfreelist s" "vtop s' = vtop s" "vstats_count s' = vstats_count s - 1"
        "vstats_freecnt s' = vstats_freecnt s + 1" "attr_next s' = attr_next s" "stringblock_hwm s' = stringblock_hwm s"
      by (simp_all add: eq s1_def)
    note d = drop_attr_ok [OF ok'(1-3) Some f(1-4) a]
    then have "vattr_ok s'" using ok'(4-7) f(3,5,6,8) by (simp add: vattr_ok_def)
    then show ?thesis unfolding s'_def [symmetric] using d a(2) f(7) Some by simp
  qed
qed

text \<open>
  A renaming to a name that is free keeps the number, the flags and the invariant.
\<close>

lemma rename_attr_ok:
  assumes ok: "chains_ok (cell s) (vhash s)" "free_ok (vhash s) (vfreelist s) (vtop s)" "anum_ok s"
    and vp: "vaddr s n = Some vp" and new: "vattr_name n'" "vaddr s n' = None \<or> n' = n"
    and vh: "vh = (vhash s)[vattr_hash n := remove1 vp (vhash s ! vattr_hash n)]"
    and s': "cell s' = (cell s)(vp := (cell s vp)\<lparr>vname := n'\<rparr>)" "vhash s' = vh[vattr_hash n' := vp # vh ! vattr_hash n']"
      "vfreelist s' = vfreelist s" "vtop s' = vtop s" "anum_at s' = anum_at s" "anum_shape s' = anum_shape s"
  shows "chains_ok (cell s') (vhash s') \<and> free_ok (vhash s') (vfreelist s') (vtop s') \<and> anum_ok s' \<and>
    vaddr s' = (vaddr s)(n := None, n' \<mapsto> vp) \<and>
    vmap s' = (vmap s)(n := None, n' \<mapsto> (vnumber (cell s vp), vflags (cell s vp))) \<and>
    int (sum_list (map length (vhash s'))) = int (sum_list (map length (vhash s)))"
proof -
  have lv: "linked (vhash s) vp" "vname (cell s vp) = n" using vp by (simp_all only: vaddr_iff [OF ok(1)])
  note un = chains_unlink [OF ok(1) lv(1) arg_cong [OF lv(2) [symmetric], where f = vattr_hash]]
  have c1: "chains_ok (cell s) vh" and l1: "linked vh q \<longleftrightarrow> q \<noteq> vp \<and> linked (vhash s) q" for q
    using un by (simp_all only: vh)
  have names: "\<forall>q. linked vh q \<longrightarrow> vname (cell s q) \<noteq> n'" unfolding l1
  proof (intro allI impI notI)
    fix q assume q: "q \<noteq> vp \<and> linked (vhash s) q" "vname (cell s q) = n'"
    then have "vaddr s n' = Some q" by (simp only: vaddr_iff [OF ok(1)] simp_thms)
    then show False using new(2) vp q(1) by auto
  qed
  have "\<not> linked vh vp" by (simp add: l1)
  note link = chains_link [OF c1 this new(1) _ names, of "(cell s vp)\<lparr>vname := n'\<rparr>"]
  have c: "chains_ok (cell s') (vhash s')" using link by (simp add: s')
  have "linked (vhash s') q \<longleftrightarrow> q = vp \<or> linked vh q" for q using link by (simp add: s')
  then have l: "linked (vhash s') q \<longleftrightarrow> linked (vhash s) q" for q using l1 lv(1) by auto
  have cl: "vnumber (cell s' q) = vnumber (cell s q)" "vflags (cell s' q) = vflags (cell s q)"
    "vname (cell s' q) = (if q = vp then n' else vname (cell s q))" for q by (simp_all add: s'(1))
  have f: "free_ok (vhash s') (vfreelist s') (vtop s')" using ok(2) unfolding free_ok_def l s'(3,4) by simp
  have a: "anum_ok s'" using ok(3) unfolding anum_ok_def s'(5,6) l cl by simp
  have v: "vaddr s' m = ((vaddr s)(n := None, n' \<mapsto> vp)) m" for m
  proof (rule vaddr_eqI [OF c])
    fix q
    have "vaddr s m = Some q \<longleftrightarrow> linked (vhash s) q \<and> vname (cell s q) = m" by (rule vaddr_iff [OF ok(1)])
    moreover have "q \<noteq> vp \<Longrightarrow> linked (vhash s) q \<Longrightarrow> vname (cell s q) \<noteq> n'" using names by (simp add: l1)
    moreover have "q \<noteq> vp \<Longrightarrow> linked (vhash s) q \<Longrightarrow> vname (cell s q) \<noteq> n"
      using vp vaddr_iff [OF ok(1), of n q] by auto
    ultimately show "((vaddr s)(n := None, n' \<mapsto> vp)) m = Some q \<longleftrightarrow> linked (vhash s') q \<and> vname (cell s' q) = m"
      unfolding l cl(3) using lv by (cases "q = vp"; cases "m = n'"; cases "m = n") auto
  qed
  then have vm: "vmap s' m = ((vmap s)(n := None, n' \<mapsto> (vnumber (cell s vp), vflags (cell s vp)))) m" for m
    unfolding vmap_def cl by auto
  have len: "length (vhash s) = VHASH_SIZE" using ok(1) by (simp add: chains_ok_def)
  have mem: "vp \<in> set (vhash s ! vattr_hash n)" using un by simp
  then have "int (sum_list (map length vh)) = int (sum_list (map length (vhash s))) - 1"
    unfolding vh by (rule sum_chain_remove [OF len vattr_hash_less])
  then have "int (sum_list (map length (vhash s'))) = int (sum_list (map length (vhash s)))"
    using sum_chain_update [of vh "vattr_hash n'"] c1 by (simp add: chains_ok_def s'(2))
  then show ?thesis using c f a v vm by (simp add: fun_eq_iff)
qed

lemma vattr_rename_ok:
  assumes ok: "vattr_ok s" and c: "vattr_name n" "ok_attr_name (vcanon new)"
    and vp: "vaddr s n = Some vp" and free: "vaddr s (vcanon new) = None \<or> vcanon new = n"
    and r: "vattr_rename n new s = Some (v, s')"
  shows "v = Some vp \<and> vattr_ok s' \<and> attr_next s' = attr_next s \<and>
    vaddr s' = (vaddr s)(n := None, vcanon new \<mapsto> vp) \<and> anum_at s' = anum_at s \<and>
    vmap s' = (vmap s)(n := None, vcanon new \<mapsto> (vnumber (cell s vp), vflags (cell s vp)))"
proof -
  let ?n' = "vcanon new" and ?h = "vattr_hash n"
  have n: "ok_attr_name n" "fixcase n = n" using c by (simp_all add: vattr_name_def)
  have vn: "vattr_name ?n'" using c(2) vcanon_name by simp
  have ok': "chains_ok (cell s) (vhash s)" "free_ok (vhash s) (vfreelist s) (vtop s)" "anum_ok s"
      "vstats_count s = int (sum_list (map length (vhash s)))" "vstats_freecnt s = int (length (vfreelist s))"
      "0 \<le> stringblock_hwm s" "stringblock_hwm s \<le> STRINGBLOCK"
    using ok by (simp_all add: vattr_ok_def)
  define vh where "vh = (vhash s)[?h := remove1 vp (vhash s ! ?h)]"
  define s1 where "s1 = s\<lparr>vhash := vh\<rparr>"
  obtain str s2 where s2: "store_string ?n' s1 = (str, s2)" by (metis prod.collapse)
  have st: "str = ?n'" "0 \<le> stringblock_hwm s2" "stringblock_hwm s2 \<le> STRINGBLOCK"
      "s2 = s1\<lparr>stringblock := stringblock s2, stringblock_hwm := stringblock_hwm s2\<rparr>"
    using store_string_ok [OF s2] vn ok'(6,7) by (simp_all add: vattr_name_def s1_def)
  have f2: "cell s2 = cell s" "vhash s2 = vh" "vfreelist s2 = vfreelist s" "vtop s2 = vtop s" "anum_table s2 = anum_table s"
      "anum_alc_top s2 = anum_alc_top s" "init_size s2 = init_size s" "vstats_count s2 = vstats_count s"
      "vstats_freecnt s2 = vstats_freecnt s" "attr_next s2 = attr_next s"
    by (subst st(4), simp add: s1_def)+
  have eq: "v = Some vp" "s' = s2\<lparr>cell := (cell s)(vp := (cell s vp)\<lparr>vname := ?n'\<rparr>), vhash := vh[vattr_hash ?n' := vp # vh ! vattr_hash ?n']\<rparr>"
    using r n c(2) vp s2 st(1) f2
    by (auto simp: vattr_rename_def vaddr_def vcanon_def [symmetric] Let_def vh_def [symmetric] s1_def [symmetric])
  have f: "cell s' = (cell s)(vp := (cell s vp)\<lparr>vname := ?n'\<rparr>)" "vhash s' = vh[vattr_hash ?n' := vp # vh ! vattr_hash ?n']"
      "vfreelist s' = vfreelist s" "vtop s' = vtop s" "vstats_count s' = vstats_count s"
      "vstats_freecnt s' = vstats_freecnt s" "attr_next s' = attr_next s" "stringblock_hwm s' = stringblock_hwm s2"
    by (simp_all add: eq(2) f2)
  have a: "anum_at s' = anum_at s" "anum_shape s' = anum_shape s" using anum_cong [of s' s] f2 by (simp_all add: eq(2))
  note d = rename_attr_ok [OF ok'(1-3) vp vn free vh_def f(1-4) a]
  then have "vattr_ok s'" using ok'(4,5) st(2,3) f by (simp add: vattr_ok_def)
  then show ?thesis using d a(1) f(7) eq(1) by simp
qed

subsection \<open>Allocating a number\<close>

lemma and_7f: "(n :: int) AND 0x7f = n mod 128"
proof -
  have "(0x7f :: int) = semiring_bit_operations_class.mask 7" by (simp add: mask_eq_exp_minus_1)
  then have "n AND 0x7f = take_bit 7 n" by (simp add: take_bit_eq_mask)
  then show ?thesis by (simp add: take_bit_eq_mod)
qed

text \<open>The next number, and that no number from it on is in use.\<close>

definition next_number :: "int \<Rightarrow> int" where
  "next_number k = (if k mod 128 = 0 then k + 1 else k)"

definition next_ok :: "vattr_state \<Rightarrow> bool" where
  "next_ok s \<longleftrightarrow> 0 < attr_next s \<and> (\<forall>k \<ge> attr_next s. anum_at s k = NULL_attr)"

lemma vattr_ok_cong:
  "vattr_ok s \<Longrightarrow> cell s' = cell s \<Longrightarrow> vhash s' = vhash s \<Longrightarrow> vfreelist s' = vfreelist s \<Longrightarrow> vtop s' = vtop s \<Longrightarrow>
     anum_at s' = anum_at s \<Longrightarrow> anum_shape s' \<Longrightarrow> vstats_count s' = vstats_count s \<Longrightarrow>
     vstats_freecnt s' = vstats_freecnt s \<Longrightarrow> stringblock_hwm s' = stringblock_hwm s \<Longrightarrow>
     vattr_ok s' \<and> vaddr s' = vaddr s \<and> vmap s' = vmap s"
  unfolding vattr_ok_def anum_ok_def vmap_def [abs_def] vaddr_def [abs_def] by simp

lemma vattr_alloc_ok:
  assumes ok: "vattr_ok s" "next_ok s" and r: "vattr_alloc name0 flags s = (v, s')"
  defines "k \<equiv> next_number (attr_next s)"
  shows "vattr_ok s' \<and> next_ok s' \<and> attr_next s' = k + 1 \<and>
    (if ok_attr_name (vcanon name0) \<and> vaddr s (vcanon name0) = None
     then \<exists>vp. v = Some vp \<and> vaddr s' = (vaddr s)(vcanon name0 \<mapsto> vp) \<and>
       vmap s' = (vmap s)(vcanon name0 \<mapsto> (k, flags)) \<and>
       cell s' vp = \<lparr>vname = vcanon name0, vnumber = k, vflags = flags\<rparr>
     else v = None \<and> vaddr s' = vaddr s \<and> vmap s' = vmap s)"
proof -
  define s1 where "s1 = anum_extend k (s\<lparr>attr_next := k + 1\<rparr>)"
  have eq: "vattr_define name0 k flags s1 = (v, s')"
    using r by (auto simp: vattr_alloc_def and_7f k_def next_number_def s1_def Let_def)
  have k: "0 < k" "attr_next s \<le> k" using ok(2) by (auto simp: k_def next_number_def next_ok_def)
  have sh: "anum_shape (s\<lparr>attr_next := k + 1\<rparr>)" "anum_at (s\<lparr>attr_next := k + 1\<rparr>) = anum_at s"
    using ok(1) anum_cong [of "s\<lparr>attr_next := k + 1\<rparr>" s] by (simp_all add: vattr_ok_def anum_ok_def)
  note ex = anum_extend_ok [OF sh(1), of k]
  have a1: "anum_at s1 = anum_at s" "anum_shape s1" "attr_next s1 = k + 1" using ex sh(2) by (simp_all add: s1_def)
  have s1: "vattr_ok s1 \<and> vaddr s1 = vaddr s \<and> vmap s1 = vmap s"
    by (rule vattr_ok_cong [OF ok(1)]) (use a1 in \<open>simp_all add: s1_def\<close>)
  have free: "anum_at s1 k \<noteq> User q" for q using ok(2) k(2) a1(1) by (simp add: next_ok_def)
  note d = vattr_define_ok [OF conjunct1 [OF s1] k(1) free eq]
  have nx: "next_ok s'" unfolding next_ok_def
  proof (intro conjI allI impI)
    show "0 < attr_next s'" using d a1(3) k(1) by simp
    fix j assume j: "attr_next s' \<le> j"
    then have "j \<noteq> k" "anum_at s j = NULL_attr" using d a1(3) ok(2) k(2) by (auto simp: next_ok_def)
    then show "anum_at s' j = NULL_attr" using d a1(1) by (auto split: if_splits)
  qed
  then show ?thesis using d s1 a1(3) by (auto split: if_splits)
qed

lemma next_ok_keeps:
  assumes "next_ok s" "attr_next s' = attr_next s" "\<And>k. anum_at s' k = anum_at s k \<or> anum_at s' k = NULL_attr"
  shows "next_ok s'"
  using assms unfolding next_ok_def by metis

subsection \<open>Refinement of a map\<close>

datatype vattr_op = FindV string | AllocV string int | DeleteV string

definition attr_of :: "vattr_state \<Rightarrow> nat option \<Rightarrow> (int \<times> int) option" where
  "attr_of s v = map_option (\<lambda>vp. (vnumber (cell s vp), vflags (cell s vp))) v"

fun vattr_step :: "vattr_op \<Rightarrow> vattr_state \<Rightarrow> (int \<times> int) option \<times> vattr_state" where
  "vattr_step (FindV n) s = (case vattr_find n s of (v, s') \<Rightarrow> (attr_of s' v, s'))"
| "vattr_step (AllocV n fl) s = (case vattr_alloc n fl s of (v, s') \<Rightarrow> (attr_of s' v, s'))"
| "vattr_step (DeleteV n) s = (None, vattr_delete n s)"

text \<open>The same on a finite map from canonical names and the next number.\<close>

fun vspec_step ::
  "vattr_op \<Rightarrow> (string \<Rightarrow> (int \<times> int) option) \<times> int \<Rightarrow> (int \<times> int) option \<times> (string \<Rightarrow> (int \<times> int) option) \<times> int" where
  "vspec_step (FindV n) (m, k) = (m (fixcase n), m, k)"
| "vspec_step (AllocV n fl) (m, k) =
     (if ok_attr_name (vcanon n) \<and> m (vcanon n) = None
      then (Some (next_number k, fl), m(vcanon n \<mapsto> (next_number k, fl)), next_number k + 1)
      else (None, m, next_number k + 1))"
| "vspec_step (DeleteV n) (m, k) = (None, m(fixcase n := None), k)"

lemma vmap_None: "vmap s n = None \<longleftrightarrow> vaddr s n = None"
  by (simp add: vmap_def)

lemma vattr_step_refines:
  assumes ok: "vattr_ok s" "next_ok s" and r: "vattr_step x s = (v, s')"
  shows "vattr_ok s' \<and> next_ok s' \<and> vspec_step x (vmap s, attr_next s) = (v, vmap s', attr_next s')"
proof (cases x)
  case (FindV n)
  obtain w where w: "vattr_find n s = (w, s')" "v = attr_of s' w" using r FindV by (auto split: prod.splits)
  note f = vattr_find_ok [OF ok(1) w(1)]
  then have p: "permuted s s'" by simp
  note pok = permuted_ok [OF p ok(1)]
  have f: "anum_at s' = anum_at s" "attr_next s' = attr_next s" "cell s' = cell s"
    using p anum_cong [of s' s] by (auto simp: permuted_def)
  have "v = vmap s (fixcase n)" using w(2) vattr_find_ok [OF ok(1) w(1)] f(3) by (simp add: attr_of_def vmap_def)
  then show ?thesis using pok f FindV next_ok_keeps [OF ok(2), of s'] by simp
next
  case (AllocV n fl)
  obtain w where w: "vattr_alloc n fl s = (w, s')" "v = attr_of s' w" using r AllocV by (auto split: prod.splits)
  note a = vattr_alloc_ok [OF ok w(1)]
  then show ?thesis using w(2) AllocV by (auto simp: attr_of_def vmap_None split: if_splits)
next
  case (DeleteV n)
  have s': "s' = vattr_delete n s" "v = None" using r DeleteV by auto
  note d = vattr_delete_ok [OF ok(1) refl, of n]
  have "next_ok s'" using d s' by (intro next_ok_keeps [OF ok(2)]) (auto split: option.splits)
  then show ?thesis using d s' DeleteV by simp
qed

subsection \<open>The walk over all attributes\<close>

text \<open>
  \<open>for (va = vattr_first(); va; va = vattr_next(va))\<close>, the cells in the order in which it sees
  them; \<open>None\<close> when the fuel is spent.
\<close>

fun vattr_walk :: "nat \<Rightarrow> nat option \<Rightarrow> vattr_state \<Rightarrow> nat list option" where
  "vattr_walk fuel None s = Some []"
| "vattr_walk 0 (Some vp) s = None"
| "vattr_walk (Suc fuel) (Some vp) s =
     (case vattr_next (Some vp) s of (q, s') \<Rightarrow> map_option ((#) vp) (vattr_walk fuel q s'))"

definition walk_all :: "nat \<Rightarrow> vattr_state \<Rightarrow> nat list option" where
  "walk_all fuel s = (case vattr_first s of (vp, s') \<Rightarrow> vattr_walk fuel vp s')"

lemma first_chain_None: "first_chain vh i = (j, None) \<Longrightarrow> concat vh = []"
  by (induction vh i rule: first_chain.induct) (auto split: if_splits)

lemma first_chain_Some:
  "first_chain vh i = (j, Some q) \<Longrightarrow> i \<le> j \<and> j - i < length vh \<and> (\<exists>rest. vh ! (j - i) = q # rest) \<and>
     concat vh = vh ! (j - i) @ concat (drop (Suc (j - i)) vh)"
proof (induction vh i rule: first_chain.induct)
  case (2 chain rest i)
  show ?case
  proof (cases chain)
    case Nil
    then have "i < j \<and> j - Suc i < length rest \<and> (\<exists>r. rest ! (j - Suc i) = q # r) \<and>
        concat rest = rest ! (j - Suc i) @ concat (drop (Suc (j - Suc i)) rest)" using 2 by auto
    moreover have "i < j \<Longrightarrow> j - i = Suc (j - Suc i)" by simp
    ultimately show ?thesis using Nil by auto
  qed (use 2 in auto)
qed simp

text \<open>The cursor stands at \<open>vp\<close>, and \<open>suf\<close> is what comes after it in its chain.\<close>

definition walk_at :: "vattr_state \<Rightarrow> nat \<Rightarrow> nat list \<Rightarrow> bool" where
  "walk_at s vp suf \<longleftrightarrow> vhash_index s < length (vhash s) \<and> (\<exists>pre. vhash s ! vhash_index s = pre @ vp # suf)"

lemma next_in_chain_eq:
  assumes c: "chains_ok (cell s) (vhash s)" and w: "walk_at s vp suf"
  shows "next_in_chain s vp = (case suf of [] \<Rightarrow> None | q # _ \<Rightarrow> Some q)"
proof -
  let ?i = "vhash_index s"
  obtain pre where pre: "vhash s ! ?i = pre @ vp # suf" "?i < length (vhash s)" using w by (auto simp: walk_at_def)
  have len: "length (vhash s) = VHASH_SIZE" using c by (simp add: chains_ok_def)
  have chain: "find (\<lambda>chain. vp \<in> set chain) (vhash s) = Some (vhash s ! ?i)"
  proof -
    have "vp \<notin> set (vhash s ! j)" if "j < ?i" for j
    proof
      assume "vp \<in> set (vhash s ! j)"
      then have "vattr_hash (vname (cell s vp)) = j" using chains_okD(2) [OF c, of j vp] that pre(2) len by simp
      moreover have "vattr_hash (vname (cell s vp)) = ?i" using chains_okD(2) [OF c, of ?i vp] pre len by simp
      ultimately show False using that by simp
    qed
    then show ?thesis using pre by (auto simp: find_Some_iff intro!: exI [of _ ?i])
  qed
  have "distinct (map (\<lambda>vp. vname (cell s vp)) (vhash s ! ?i))" using chains_okD(1) [OF c, of ?i] pre(2) len by simp
  then have "distinct (vhash s ! ?i)" by (simp add: distinct_map)
  then have "vp \<notin> set pre" using pre(1) by auto
  then have "dropWhile (\<lambda>q. q \<noteq> vp) (vhash s ! ?i) = vp # suf" unfolding pre(1)
    by (induction pre) auto
  then show ?thesis by (simp add: next_in_chain_def chain)
qed

lemma vattr_walk_rest:
  "chains_ok (cell s) (vhash s) \<Longrightarrow> walk_at s vp suf \<Longrightarrow>
     length (vp # suf @ concat (drop (Suc (vhash_index s)) (vhash s))) \<le> fuel \<Longrightarrow>
     vattr_walk fuel (Some vp) s = Some (vp # suf @ concat (drop (Suc (vhash_index s)) (vhash s)))"
proof (induction fuel arbitrary: vp suf s)
  case (Suc fuel)
  note nx = next_in_chain_eq [OF Suc.prems(1,2)]
  show ?case
  proof (cases suf)
    case (Cons q suf')
    then have "walk_at s q suf'" using Suc.prems(2) by (auto simp: walk_at_def intro: exI [of _ "pre @ [vp]" for pre])
    then show ?thesis using Suc.IH [OF Suc.prems(1), of q suf'] Suc.prems(3) nx Cons by (simp add: vattr_next_def)
  next
    case Nil
    let ?i = "Suc (vhash_index s)"
    obtain j w where f: "first_chain (drop ?i (vhash s)) ?i = (j, w)" by (metis prod.collapse)
    have step: "vattr_next (Some vp) s = (w, s\<lparr>vhash_index := j\<rparr>)" using nx Nil f by (simp add: vattr_next_def)
    show ?thesis
    proof (cases w)
      case None
      then show ?thesis using first_chain_None f step Nil by simp
    next
      case (Some q)
      let ?s = "s\<lparr>vhash_index := j\<rparr>"
      note fc = first_chain_Some [OF f [unfolded Some]]
      then obtain rest where rest: "drop ?i (vhash s) ! (j - ?i) = q # rest" by blast
      have j: "?i \<le> j" "j < length (vhash s)" using fc by auto
      then have vj: "vhash s ! j = q # rest" using rest by simp
      have cc: "concat (drop ?i (vhash s)) = q # rest @ concat (drop (Suc j) (vhash s))"
        using fc rest j by (simp add: Suc_diff_le)
      have "walk_at ?s q rest" using j(2) vj by (auto simp: walk_at_def)
      then show ?thesis using Suc.IH [of ?s q rest] Suc.prems(1,3) step Some cc Nil by simp
    qed
  qed
qed simp

lemma walk_all_eq:
  assumes "chains_ok (cell s) (vhash s)" "length (concat (vhash s)) \<le> fuel"
  shows "walk_all fuel s = Some (concat (vhash s))"
proof -
  obtain j w where f: "first_chain (vhash s) 0 = (j, w)" by (metis prod.collapse)
  show ?thesis
  proof (cases w)
    case None
    then show ?thesis using f first_chain_None [of "vhash s" 0 j] by (simp add: walk_all_def vattr_first_def)
  next
    case (Some q)
    let ?s = "s\<lparr>vhash_index := j\<rparr>"
    note fc = first_chain_Some [OF f [unfolded Some]]
    then obtain rest where rest: "vhash s ! j = q # rest" by auto
    have cc: "concat (vhash s) = q # rest @ concat (drop (Suc j) (vhash s))" using fc rest by simp
    have "walk_at ?s q rest" using fc rest by (auto simp: walk_at_def)
    then show ?thesis using vattr_walk_rest [of ?s q rest fuel] assms f Some cc by (simp add: walk_all_def vattr_first_def)
  qed
qed

lemma distinct_concat_hashed:
  assumes "\<And>i. i < length xss \<Longrightarrow> distinct (map f (xss ! i))"
    and "\<And>i x. i < length xss \<Longrightarrow> x \<in> set (xss ! i) \<Longrightarrow> h (f x) = i + (k :: nat)"
  shows "distinct (map f (concat xss))"
  using assms
proof (induction xss arbitrary: k)
  case (Cons xs xss)
  have tl: "\<And>i. i < length xss \<Longrightarrow> distinct (map f (xss ! i))" using Cons.prems(1) [of "Suc i" for i] by simp
  have th: "\<And>i x. i < length xss \<Longrightarrow> x \<in> set (xss ! i) \<Longrightarrow> h (f x) = i + Suc k" using Cons.prems(2) [of "Suc i" for i] by simp
  have "h (f x) = k" if "x \<in> set xs" for x using Cons.prems(2) [of 0 x] that by simp
  moreover have "h (f y) \<noteq> k" if y: "y \<in> set (concat xss)" for y
  proof -
    obtain ys where ys: "ys \<in> set xss" "y \<in> set ys" using y by auto
    then obtain i where "i < length xss" "xss ! i = ys" by (auto simp: in_set_conv_nth)
    then show ?thesis using th [of i y] ys(2) by simp
  qed
  ultimately have "f ` set xs \<inter> f ` set (concat xss) = {}" by fastforce
  moreover have "distinct (map f xs)" using Cons.prems(1) [of 0] by simp
  ultimately show ?case using Cons.IH [OF tl th] by (simp del: set_concat)
qed simp

lemma set_concat_linked: "length vh = VHASH_SIZE \<Longrightarrow> vp \<in> set (concat vh) \<longleftrightarrow> linked vh vp"
  unfolding linked_def by (auto simp: in_set_conv_nth [where xs = vh]) (metis nth_mem)

subsection \<open>Lookups by name and by number\<close>

lemma vattr_find_htab: "vattr_find n s = (v, s') \<Longrightarrow> attr_name_htab s' = attr_name_htab s"
  by (auto simp: vattr_find_def Let_def split: if_splits option.splits)

lemma store_string_htab: "store_string n s = (v, s') \<Longrightarrow> attr_name_htab s' = attr_name_htab s"
  by (auto simp: store_string_def Let_def split: if_splits)

lemma vattr_define_htab: "vattr_define n k fl s = (v, s') \<Longrightarrow> attr_name_htab s' = attr_name_htab s"
  by (auto simp: vattr_define_def Let_def dest!: vattr_find_htab store_string_htab split: if_splits option.splits prod.splits)

lemma vattr_alloc_htab: "vattr_alloc n fl s = (v, s') \<Longrightarrow> attr_name_htab s' = attr_name_htab s"
  by (auto simp: vattr_alloc_def Let_def dest!: vattr_define_htab split: if_splits)

lemma ToUpper_ToLower [simp]: "ToUpper (ToLower c) = ToUpper c"
  by (rule ccode_eqI) (auto simp: ccode_ToLower ccode_ToUpper is_upper_def is_lower_def)

lemma fixcase_lower: "fixcase (map ToLower n) = fixcase n"
  by (simp add: fixcase_def)

lemma atr_str_ok:
  assumes ok: "vattr_ok s" and h: "str_inv (attr_name_htab s)" "str_data (attr_name_htab s) (lower (take 199 str)) = None"
    and r: "atr_str False str s = (a, s')"
  shows "a = map_option (\<lambda>vp. tattr_of (cell s vp)) (vaddr s (fixcase (take 199 str))) \<and> permuted s s' \<and>
    str_inv (attr_name_htab s') \<and> str_data (attr_name_htab s') = str_data (attr_name_htab s)"
proof -
  let ?b = "map ToLower (take 199 str)"
  obtain d t where t: "hashfind (Some ?b) (attr_name_htab s) = (d, t)" by (metis prod.collapse)
  have d: "d = None" using strtab.lookup_result [OF h(1), of ?b] t h(2) by (simp add: lower_def)
  have tt: "str_inv t" "str_data t = str_data (attr_name_htab s)" using strtab.lookup_keeps [OF h(1), of ?b] t by simp_all
  define s1 where "s1 = s\<lparr>attr_name_htab := t\<rparr>"
  obtain v s2 where f: "vattr_find ?b s1 = (v, s2)" by (metis prod.collapse)
  have eq: "a = map_option (\<lambda>vp. tattr_of (cell s2 vp)) v" "s' = s2"
    using r t d f by (auto simp: atr_str_def MBUF_SIZE_def s1_def Let_def split: option.splits)
  have s1: "vattr_ok s1 \<and> vaddr s1 = vaddr s \<and> vmap s1 = vmap s"
    by (rule vattr_ok_cong [OF ok]) (use ok anum_cong [of s1 s] in \<open>auto simp: s1_def vattr_ok_def anum_ok_def\<close>)
  note fo = vattr_find_ok [OF conjunct1 [OF s1] f]
  have "permuted s s2" using fo by (simp add: permuted_def s1_def)
  moreover have "attr_name_htab s2 = t" using vattr_find_htab [OF f] by (simp add: s1_def)
  ultimately show ?thesis using eq fo s1 tt by (simp add: fixcase_lower permuted_def s1_def)
qed

lemma atr_num_user:
  assumes ok: "vattr_ok s" and v: "vaddr s n = Some vp"
  shows "atr_num (vnumber (cell s vp)) s = Some (tattr_of (cell s vp))"
proof -
  have c: "chains_ok (cell s) (vhash s)" and a: "anum_ok s" using ok by (simp_all add: vattr_ok_def)
  have "linked (vhash s) vp" using v by (simp only: vaddr_iff [OF c])
  then have "anum_at s (vnumber (cell s vp)) = User vp" using a by (simp add: anum_ok_def)
  then show ?thesis by (auto simp: atr_num_def anum_at_def split: if_splits)
qed

text \<open>What \<open>mkattr\<close> returns names the attribute, in the state it leaves.\<close>

lemma mkattr_ok:
  assumes ok: "vattr_ok s" "next_ok s" and h: "str_inv (attr_name_htab s)" "str_data (attr_name_htab s) (lower buff) = None"
    and len: "length buff \<le> VNAME_SIZE" and r: "mkattr False fl buff s = (k, s')"
  shows "vattr_ok s' \<and> next_ok s' \<and> str_inv (attr_name_htab s') \<and> str_data (attr_name_htab s') = str_data (attr_name_htab s) \<and>
    (if ok_attr_name (fixcase buff)
     then \<exists>vp. vaddr s' (fixcase buff) = Some vp \<and> cell s' vp = \<lparr>vname = fixcase buff, vnumber = k,
         vflags = (case vmap s (fixcase buff) of None \<Rightarrow> fl | Some (_, f) \<Rightarrow> f)\<rparr> \<and> 0 < k
     else k = - 1)"
proof -
  let ?n = "fixcase buff"
  define s0 where "s0 = s\<lparr>new_vattr := False\<rparr>"
  have tk: "take 199 buff = buff" using len by (simp add: VNAME_SIZE_def)
  have cut: "vcanon buff = ?n" using len by (simp add: vcanon_def cut_name_id)
  obtain a s1 where a: "atr_str False buff s0 = (a, s1)" by (metis prod.collapse)
  have s0: "vattr_ok s0 \<and> vaddr s0 = vaddr s \<and> vmap s0 = vmap s"
    by (rule vattr_ok_cong [OF ok(1)]) (use ok(1) anum_cong [of s0 s] in \<open>auto simp: s0_def vattr_ok_def anum_ok_def\<close>)
  have ao: "a = map_option (\<lambda>vp. tattr_of (cell s0 vp)) (vaddr s ?n)" "permuted s0 s1" "str_inv (attr_name_htab s1)"
      "str_data (attr_name_htab s1) = str_data (attr_name_htab s)"
    using atr_str_ok [OF conjunct1 [OF s0] _ _ a] h s0 by (simp_all add: tk s0_def)
  note pk = permuted_ok [OF ao(2) conjunct1 [OF s0]]
  have f1: "anum_at s1 = anum_at s" "attr_next s1 = attr_next s" "cell s1 = cell s"
    using ao(2) anum_cong [of s1 s] by (simp_all add: permuted_def s0_def)
  have nx1: "next_ok s1" using next_ok_keeps [OF ok(2), of s1] f1 by simp
  have c: "chains_ok (cell s) (vhash s)" "anum_ok s" using ok(1) by (simp_all add: vattr_ok_def)
  show ?thesis
  proof (cases "vaddr s ?n")
    case (Some vp)
    have lv: "linked (vhash s) vp" "vname (cell s vp) = ?n" using Some by (simp_all only: vaddr_iff [OF c(1)])
    have num: "0 < vnumber (cell s vp)" using c(2) lv(1) by (simp add: anum_ok_def)
    have nm: "ok_attr_name ?n" using vaddr_name [OF c(1) Some] by (simp add: vattr_name_def)
    have eq: "k = vnumber (cell s vp)" "s' = s1"
      using r a ao(1) Some num by (simp_all add: mkattr_def s0_def [symmetric] tattr_of_def) (simp_all add: s0_def)
    have cv: "cell s vp = \<lparr>vname = ?n, vnumber = k, vflags = vflags (cell s vp)\<rparr>" using lv(2) eq(1) by simp
    show ?thesis using pk s0 ao(3,4) nx1 eq(2) nm Some f1(3) cv num eq(1) by (simp add: vmap_def)
  next
    case None
    define s2 where "s2 = s1\<lparr>new_vattr := True\<rparr>"
    have s2: "vattr_ok s2 \<and> vaddr s2 = vaddr s1 \<and> vmap s2 = vmap s1"
      by (rule vattr_ok_cong [OF conjunct1 [OF pk]])
        (use pk anum_cong [of s2 s1] in \<open>auto simp: s2_def vattr_ok_def anum_ok_def\<close>)
    have nx2: "next_ok s2" using next_ok_keeps [OF nx1, of s2] anum_cong [of s2 s1] by (simp add: s2_def)
    obtain v s3 where al: "vattr_alloc buff fl s2 = (v, s3)" by (metis prod.collapse)
    note ok3 = vattr_alloc_ok [OF conjunct1 [OF s2] nx2 al]
    have ht: "attr_name_htab s3 = attr_name_htab s1" using vattr_alloc_htab [OF al] by (simp add: s2_def)
    have "s' = s3" "k = (case v of None \<Rightarrow> - 1 | Some va \<Rightarrow> if vnumber (cell s3 va) = 0 then - 1 else vnumber (cell s3 va))"
      using r a ao(1) None al by (auto simp: mkattr_def s0_def [symmetric] s2_def [symmetric] split: option.splits)
    moreover have "0 < next_number (attr_next s2)" using nx2 by (auto simp: next_ok_def next_number_def)
    moreover have "vmap s ?n = None" using None by (simp add: vmap_None)
    moreover have "vaddr s2 ?n = None" using s2 pk s0 None by simp
    ultimately show ?thesis using ok3 ht ao(3,4) by (auto simp: cut split: if_splits)
  qed
qed

subsection \<open>An empty table\<close>

definition fresh_vattr :: vattr_state where
  "fresh_vattr = vattr_init
     \<lparr>cell = (\<lambda>_. \<lparr>vname = [], vnumber = 0, vflags = 0\<rparr>), vhash = [], vfreelist = [], vtop = 0, vhash_index = 0,
      vstats_count = 0, vstats_name_cnt = 0, vstats_freecnt = 0, vstats_lookups = 0, stringblock = False,
      stringblock_hwm = 0, anum_table = [], anum_alc_top = 0, init_size = 1000, attr_next = 256, new_vattr = False,
      attr_name_htab = the (hashinit blank_table 521)\<rparr>"

lemma fresh_vattr_ok:
  "vattr_ok fresh_vattr" "next_ok fresh_vattr" "vmap fresh_vattr = Map.empty" "attr_next fresh_vattr = 256"
proof -
  have a: "anum_at fresh_vattr = (\<lambda>_. NULL_attr)" by (simp add: fresh_vattr_def vattr_init_def anum_at_def fun_eq_iff)
  have l: "\<not> linked (vhash fresh_vattr) vp" for vp by (simp add: linked_def fresh_vattr_def vattr_init_def)
  have c: "chains_ok (cell fresh_vattr) (vhash fresh_vattr)" by (simp add: chains_ok_def fresh_vattr_def vattr_init_def)
  have f: "free_ok (vhash fresh_vattr) (vfreelist fresh_vattr) (vtop fresh_vattr)"
    by (simp add: free_ok_def l) (simp add: fresh_vattr_def vattr_init_def)
  have an: "anum_ok fresh_vattr" unfolding anum_ok_def a
    by (simp add: l) (simp add: anum_shape_def fresh_vattr_def vattr_init_def)
  show "vattr_ok fresh_vattr" unfolding vattr_ok_def using c f an
    by (simp add: fresh_vattr_def vattr_init_def STRINGBLOCK_def sum_list_replicate)
  show "next_ok fresh_vattr" unfolding next_ok_def a by (simp add: fresh_vattr_def vattr_init_def)
  have "vaddr fresh_vattr n = None" for n by (simp add: vaddr_def fresh_vattr_def vattr_init_def)
  then show "vmap fresh_vattr = Map.empty" by (simp add: vmap_def fun_eq_iff)
  show "attr_next fresh_vattr = 256" by (simp add: fresh_vattr_def vattr_init_def)
qed

lemma fresh_names: "str_inv (attr_name_htab fresh_vattr)" "str_data (attr_name_htab fresh_vattr) = Map.empty"
proof -
  obtain h where h: "hashinit blank_table 521 = Some (h :: ATTR HASHTAB)" "str_inv h" "table_map str_hash h = Map.empty"
    using hashinit_correct [of "521" "blank_table :: ATTR HASHTAB" str_hash] by (auto simp: str_inv_def)
  then have "attr_name_htab fresh_vattr = h" by (simp add: fresh_vattr_def vattr_init_def)
  then show "str_inv (attr_name_htab fresh_vattr)" "str_data (attr_name_htab fresh_vattr) = Map.empty"
    using h str_map_empty by auto
qed

subsection \<open>Properties\<close>

text \<open>
  C11: under any sequence of lookups, allocations and deletions the table of user attributes
  is a finite map from names, in upper case and cut to the size of a name, to numbers and
  flags. An allocation takes the next number, skips the multiples of 128, and fails for a bad
  name or a name that exists, in which case the number is lost.
\<close>

theorem user_attributes_are_map:
  assumes "vattr_ok s" "next_ok s" "run_ops vattr_step xs s = (rs, s')"
  shows "vattr_ok s' \<and> next_ok s' \<and> run_ops vspec_step xs (vmap s, attr_next s) = (rs, vmap s', attr_next s')"
  using assms
proof (induction xs arbitrary: s rs)
  case (Cons x xs)
  obtain v s1 where s1: "vattr_step x s = (v, s1)" by (metis prod.collapse)
  obtain rs' t where s2: "run_ops vattr_step xs s1 = (rs', t)" by (metis prod.collapse)
  note st = vattr_step_refines [OF Cons.prems(1,2) s1]
  then show ?case using Cons.IH [of s1 rs'] Cons.prems(3) s1 s2 by (simp add: Let_def split: prod.splits)
qed simp

theorem user_attributes_are_map_witness:
  "fst (run_ops vattr_step [AllocV ''foo'' 2, FindV ''Foo'', AllocV ''FOO'' 1, AllocV ''1x'' 1, AllocV ''bar'' 4,
     DeleteV ''foo'', FindV ''foo''] fresh_vattr) =
   [Some (257, 2), Some (257, 2), None, None, Some (260, 4), None, None]"
proof -
  let ?xs = "[AllocV ''foo'' 2, FindV ''Foo'', AllocV ''FOO'' 1, AllocV ''1x'' 1, AllocV ''bar'' 4,
     DeleteV ''foo'', FindV ''foo'']"
  obtain rs s' where r: "run_ops vattr_step ?xs fresh_vattr = (rs, s')" by (metis prod.collapse)
  have names: "vcanon ''foo'' = ''FOO''" "vcanon ''FOO'' = ''FOO''" "vcanon ''1x'' = ''1X''" "vcanon ''bar'' = ''BAR''"
      "fixcase ''foo'' = ''FOO''" "fixcase ''Foo'' = ''FOO''"
    by code_simp+
  have oks: "ok_attr_name ''FOO''" "\<not> ok_attr_name ''1X''" "ok_attr_name ''BAR''" by code_simp+
  have "run_ops vspec_step ?xs (Map.empty, 256) = (rs, vmap s', attr_next s')"
    using user_attributes_are_map [OF fresh_vattr_ok(1,2) r] fresh_vattr_ok(3,4) by simp
  then have "rs = [Some (257, 2), Some (257, 2), None, None, Some (260, 4), None, None]"
    by (simp add: names oks next_number_def Let_def)
  then show ?thesis by (simp only: r fst_conv)
qed

text \<open>
  C39: a name that \<open>mkattr\<close> accepts and the number it returns belong together afterwards:
  \<open>atr_num\<close> of the number gives the attribute of the name, \<open>atr_str\<close> of the name gives the same
  attribute, and calling \<open>mkattr\<close> again returns the same number. The name must fit the size
  of a name and not be that of a built-in attribute.
\<close>

theorem mkattr_names_number:
  assumes "vattr_ok s" "next_ok s" "str_inv (attr_name_htab s)" "str_data (attr_name_htab s) (lower buff) = None"
    "length buff \<le> VNAME_SIZE" "mkattr False fl buff s = (k, s')" "k \<noteq> - 1"
  shows "\<exists>f. atr_num k s' = Some \<lparr>a_name = fixcase buff, a_number = k, a_flags = f\<rparr> \<and>
    fst (atr_str False buff s') = Some \<lparr>a_name = fixcase buff, a_number = k, a_flags = f\<rparr> \<and>
    fst (mkattr False fl' buff s') = k"
proof -
  note m = mkattr_ok [OF assms(1-6)]
  then obtain vp f where vp: "vaddr s' (fixcase buff) = Some vp" "cell s' vp = \<lparr>vname = fixcase buff, vnumber = k, vflags = f\<rparr>"
    and k: "0 < k" using assms(7) by (auto split: if_splits)
  have tk: "take 199 buff = buff" using assms(5) by (simp add: VNAME_SIZE_def)
  have h: "str_inv (attr_name_htab s')" "str_data (attr_name_htab s') (lower buff) = None" using m assms(4) by simp_all
  have "atr_num k s' = Some \<lparr>a_name = fixcase buff, a_number = k, a_flags = f\<rparr>"
    using atr_num_user [OF conjunct1 [OF m] vp(1)] vp(2) by (simp add: tattr_of_def)
  moreover obtain a s2 where a: "atr_str False buff s' = (a, s2)" by (metis prod.collapse)
  then have "a = Some \<lparr>a_name = fixcase buff, a_number = k, a_flags = f\<rparr>"
    using atr_str_ok [OF conjunct1 [OF m] h(1) _ a] h(2) vp by (simp add: tk tattr_of_def)
  moreover obtain k2 s3 where k2: "mkattr False fl' buff s' = (k2, s3)" by (metis prod.collapse)
  have "k2 = k"
  proof -
    have v: "vmap s' (fixcase buff) = Some (k, f)" using vp by (simp add: vmap_def)
    have s0: "vattr_ok (s'\<lparr>new_vattr := False\<rparr>) \<and> vaddr (s'\<lparr>new_vattr := False\<rparr>) = vaddr s' \<and>
        vmap (s'\<lparr>new_vattr := False\<rparr>) = vmap s'"
      by (rule vattr_ok_cong) (use m anum_cong [of "s'\<lparr>new_vattr := False\<rparr>" s'] in \<open>auto simp: vattr_ok_def anum_ok_def\<close>)
    obtain b s4 where b: "atr_str False buff (s'\<lparr>new_vattr := False\<rparr>) = (b, s4)" by (metis prod.collapse)
    then have "b = Some \<lparr>a_name = fixcase buff, a_number = k, a_flags = f\<rparr>"
      using atr_str_ok [OF conjunct1 [OF s0] _ _ b] h vp s0 by (simp add: tk tattr_of_def)
    then show ?thesis using k2 b k by (simp add: mkattr_def)
  qed
  ultimately show ?thesis using a k2 by auto
qed

theorem mkattr_names_number_witness:
  "\<exists>k s'. mkattr False 0 ''Score'' fresh_vattr = (k, s') \<and>
     (\<exists>f. atr_num k s' = Some \<lparr>a_name = ''SCORE'', a_number = k, a_flags = f\<rparr>)"
proof -
  obtain k s' where r: "mkattr False 0 ''Score'' fresh_vattr = (k, s')" by (metis prod.collapse)
  have fc: "fixcase ''Score'' = ''SCORE''" "ok_attr_name (fixcase ''Score'')" "length ''Score'' \<le> VNAME_SIZE" by code_simp+
  have d: "str_data (attr_name_htab fresh_vattr) (lower ''Score'') = None" by (simp add: fresh_names)
  have "k \<noteq> - 1" using mkattr_ok [OF fresh_vattr_ok(1,2) fresh_names(1) d fc(3) r] fc(2) by auto
  from mkattr_names_number [OF fresh_vattr_ok(1,2) fresh_names(1) d fc(3) r this] show ?thesis
    using r by (auto simp: fc(1))
qed

text \<open>
  C40: the walk \<open>for (va = vattr_first(); va; va = vattr_next(va))\<close> ends within as many steps as
  there are attributes and visits every attribute exactly once.
\<close>

theorem attribute_walk_complete:
  assumes "vattr_ok s" "nat (vstats_count s) \<le> fuel"
  shows "\<exists>vs. walk_all fuel s = Some vs \<and> distinct (map (\<lambda>vp. vname (cell s vp)) vs) \<and>
    set (map (\<lambda>vp. vname (cell s vp)) vs) = dom (vmap s) \<and> int (length vs) = vstats_count s"
proof -
  have c: "chains_ok (cell s) (vhash s)" and n: "vstats_count s = int (length (concat (vhash s)))"
    using assms(1) by (simp_all add: vattr_ok_def length_concat)
  have len: "length (vhash s) = VHASH_SIZE" using c by (simp add: chains_ok_def)
  have "walk_all fuel s = Some (concat (vhash s))" using walk_all_eq [OF c] assms(2) n by simp
  moreover have "distinct (map (\<lambda>vp. vname (cell s vp)) (concat (vhash s)))"
  proof (rule distinct_concat_hashed [where h = vattr_hash and k = 0])
    fix i assume "i < length (vhash s)"
    then show "distinct (map (\<lambda>vp. vname (cell s vp)) (vhash s ! i))" using chains_okD(1) [OF c] len by simp
  next
    fix i vp assume "i < length (vhash s)" "vp \<in> set (vhash s ! i)"
    then show "vattr_hash (vname (cell s vp)) = i + 0" using chains_okD(2) [OF c, of i vp] len by simp
  qed
  moreover have "set (map (\<lambda>vp. vname (cell s vp)) (concat (vhash s))) = dom (vmap s)"
  proof (rule set_eqI)
    fix x
    have "x \<in> dom (vmap s) \<longleftrightarrow> (\<exists>vp. linked (vhash s) vp \<and> vname (cell s vp) = x)"
      unfolding dom_def mem_Collect_eq vmap_None using vaddr_iff [OF c, of x] by auto
    also have "\<dots> \<longleftrightarrow> (\<exists>vp. vp \<in> set (concat (vhash s)) \<and> vname (cell s vp) = x)"
      by (simp only: set_concat_linked [OF len])
    also have "\<dots> \<longleftrightarrow> x \<in> set (map (\<lambda>vp. vname (cell s vp)) (concat (vhash s)))"
      by (auto simp del: set_concat)
    finally show "x \<in> set (map (\<lambda>vp. vname (cell s vp)) (concat (vhash s))) \<longleftrightarrow> x \<in> dom (vmap s)" by simp
  qed
  ultimately show ?thesis using n by auto
qed

theorem attribute_walk_complete_witness: "\<exists>vs. walk_all 0 fresh_vattr = Some vs \<and> vs = []"
proof -
  have "vstats_count fresh_vattr = 0" by (simp add: fresh_vattr_def vattr_init_def)
  with attribute_walk_complete [OF fresh_vattr_ok(1), of 0] show ?thesis by auto
qed

end
