(* ===== verification/Attrs_Laws.thy ===== *)
theory Attrs_Laws
  imports Attrs Vattr_Laws Udb_ocache_Laws
begin

section \<open>Attributes of objects: laws\<close>

text \<open>
  The interface to the attribute cache as a locale, what the operations of the attribute
  layer do under it, and its interpretation on the object cache over the chunk store. The
  layer is compared with a plain model: for every object a map from attribute numbers to
  texts and the list of the numbers that a walk shows.
\<close>

subsection \<open>Keys\<close>

definition in31 :: "int \<Rightarrow> bool" where
  "in31 n \<longleftrightarrow> 0 \<le> n \<and> n < 2 ^ 31"

lemma word_in31_eq: "in31 a \<Longrightarrow> in31 b \<Longrightarrow> (word_of_int a :: 32 word) = word_of_int b \<longleftrightarrow> a = b"
  by (auto simp: in31_def word_of_int_eq_iff take_bit_int_eq_self)

lemma in31_A_LIST [simp]: "in31 A_LIST"
  by (simp add: in31_def A_LIST_def)

lemma not_in31_NOTHING [simp]: "\<not> in31 NOTHING"
  by (simp add: in31_def)

lemma c_text_cstring: "cstring v \<Longrightarrow> c_text (v @ [NUL]) = v"
  by (auto simp: c_text_def cstring_def takeWhile_append)

definition LIMIT :: nat where
  "LIMIT = 400000000"

text \<open>
  Adding a number to a list: a user attribute is not listed when the object has \<open>vlimit\<close> of
  them, although its text is stored.
\<close>

definition add_number :: "attr_conf \<Rightarrow> int \<Rightarrow> int list \<Rightarrow> int list" where
  "add_number cf n ns =
     (if n \<in> set ns \<or> n \<ge> A_USER_START \<and> int (length (filter (\<lambda>n. n \<ge> A_USER_START) ns)) \<ge> vlimit cf then ns
      else ns @ [n])"

text \<open>
  The model of the layer: for every object the texts of its attributes with their owners and
  flags, and the list of the numbers.
\<close>

type_synonym attr_model = "(int \<Rightarrow> int \<Rightarrow> (string \<times> int \<times> int) option) \<times> (int \<Rightarrow> int list)"

datatype atr_op =
    Put_attr "string option" int int string int int
  | Clear_attr int int
  | Get_attr int int
  | Walk_attrs int
  | Free_attrs int

datatype atr_result = Changed | Text string int int | Numbers "int list"

text \<open>A walk that collects the numbers it is shown.\<close>

definition atr_walk :: "'c acache \<Rightarrow> int \<Rightarrow> 'c attr_state \<Rightarrow> int list \<times> 'c attr_state" where
  "atr_walk D thing s =
     (let (head, s1) = atr_head D thing (atr_push s);
          (ns, s2) = atr_loop (\<lambda>attr (ns, s). (ns @ [attr], s)) head ([], s1)
      in (ns, atr_pop s2))"

fun atr_step :: "'c acache \<Rightarrow> attr_conf \<Rightarrow> gamedb \<Rightarrow> atr_op \<Rightarrow> 'c attr_state \<Rightarrow> atr_result \<times> 'c attr_state" where
  "atr_step D cf g (Put_attr stamp t n txt own fl) s = (Changed, atr_add stamp D cf g t n (Some txt) own fl s)"
| "atr_step D cf g (Clear_attr t n) s = (Changed, atr_clr D cf g t n s)"
| "atr_step D cf g (Get_attr t n) s = (case atr_get D g t n s of ((txt, own, fl), s') \<Rightarrow> (Text txt own fl, s'))"
| "atr_step D cf g (Walk_attrs t) s = (case atr_walk D t s of (ns, s') \<Rightarrow> (Numbers ns, s'))"
| "atr_step D cf g (Free_attrs t) s = (Changed, atr_free D cf g t s)"

definition put_model :: "attr_conf \<Rightarrow> int \<Rightarrow> int \<Rightarrow> string \<times> int \<times> int \<Rightarrow> attr_model \<Rightarrow> attr_model" where
  "put_model cf t n r M = ((fst M)(t := (fst M t)(n \<mapsto> r)), (snd M)(t := add_number cf n (snd M t)))"

definition clear_model :: "int \<Rightarrow> int \<Rightarrow> attr_model \<Rightarrow> attr_model" where
  "clear_model t n M = ((fst M)(t := (fst M t)(n := None)), (snd M)(t := remove1 n (snd M t)))"

definition stamp_model :: "attr_conf \<Rightarrow> gamedb \<Rightarrow> string option \<Rightarrow> int \<Rightarrow> attr_model \<Rightarrow> attr_model" where
  "stamp_model cf g stamp t M =
     (case stamp of None \<Rightarrow> M | Some ts \<Rightarrow> put_model cf t A_MODIFY_TIME (ts, g_Owner g t, 0) M)"

fun model_step :: "attr_conf \<Rightarrow> gamedb \<Rightarrow> atr_op \<Rightarrow> attr_model \<Rightarrow> atr_result \<times> attr_model" where
  "model_step cf g (Put_attr stamp t n txt own fl) M =
     (Changed, let M1 = stamp_model cf g stamp t M
            in if txt = [] then clear_model t n M1
               else put_model cf t n (txt, if own = NOTHING then g_Owner g t else own, fl) M1)"
| "model_step cf g (Clear_attr t n) M = (Changed, clear_model t n M)"
| "model_step cf g (Get_attr t n) M =
     (case fst M t n of None \<Rightarrow> Text [] (g_Owner g t) 0 | Some (txt, own, fl) \<Rightarrow> Text txt own fl, M)"
| "model_step cf g (Walk_attrs t) M = (Numbers (snd M t), M)"
| "model_step cf g (Free_attrs t) M =
     (Changed, ((fst M)(t := (\<lambda>n. if n \<in> set (snd M t) then None else fst M t n)), (snd M)(t := [])))"

text \<open>
  The arguments for which this holds: objects and attributes with numbers an int can hold,
  texts without NUL that fit a buffer together with what \<open>atr_encode\<close> puts before them and
  that do not look like an encoded one, owners and flags that \<open>atr_decode\<close> can read back.
\<close>

definition num_ok :: "int \<Rightarrow> bool" where
  "num_ok n \<longleftrightarrow> in31 n \<and> 0 < n \<and> n \<noteq> A_LIST"

definition plain_text :: "string \<Rightarrow> bool" where
  "plain_text txt \<longleftrightarrow> cstring txt \<and> deref txt \<noteq> ATR_INFO_CHAR \<and> length txt \<le> LBUF_SIZE"

definition put_ok :: "string \<Rightarrow> int \<Rightarrow> int \<Rightarrow> bool" where
  "put_ok txt own fl \<longleftrightarrow> plain_text txt \<and> - INT_MAX \<le> own \<and> own \<le> INT_MAX \<and> 0 \<le> fl \<and> fl \<le> INT_MAX \<and>
     length (sprintf_d own) + length (sprintf_d fl) + length txt + 3 \<le> LBUF_SIZE - 2"

fun atr_op_ok :: "gamedb \<Rightarrow> atr_op \<Rightarrow> bool" where
  "atr_op_ok g (Put_attr stamp t n txt own fl) \<longleftrightarrow>
     in31 t \<and> num_ok n \<and> put_ok txt (if own = NOTHING then g_Owner g t else own) fl \<and>
     (case stamp of None \<Rightarrow> True | Some ts \<Rightarrow> ts \<noteq> [] \<and> plain_text ts)"
| "atr_op_ok g (Clear_attr t n) \<longleftrightarrow> in31 t \<and> num_ok n"
| "atr_op_ok g (Get_attr t n) \<longleftrightarrow> in31 t \<and> num_ok n"
| "atr_op_ok g (Walk_attrs t) \<longleftrightarrow> in31 t"
| "atr_op_ok g (Free_attrs t) \<longleftrightarrow> in31 t"

text \<open>A stored text and what the model has for it.\<close>

definition reads_as :: "gamedb \<Rightarrow> int \<Rightarrow> (string \<times> int \<times> int) option \<Rightarrow> string option \<Rightarrow> bool" where
  "reads_as g t r v \<longleftrightarrow>
     (case r of None \<Rightarrow> v = None | Some r \<Rightarrow> \<exists>b. v = Some b \<and> atr_decode (g_Owner g) b t = Some r)"

text \<open>What \<open>atr_decode\<close> makes of a text that was stored by \<open>atr_add\<close>.\<close>

lemma sprintf_d_cstring: "- INT_MAX \<le> n \<Longrightarrow> n \<le> INT_MAX \<Longrightarrow> cstring (sprintf_d n)"
proof -
  have d: "cstring (sprintf_d m)" if "0 \<le> m" for m
    using sprintf_d_digits(2) [OF that] is_digit_signs(3) by (auto simp: cstring_def)
  assume "- INT_MAX \<le> n" "n \<le> INT_MAX"
  then show ?thesis
  proof (cases "n < 0")
    case True
    then have "sprintf_d n = CHR ''-'' # sprintf_d (- n)" by (simp add: sprintf_d_def)
    then show ?thesis using d [of "- n"] True by simp
  qed (use d in simp)
qed

lemma encode_decode:
  assumes "put_ok txt (if own = NOTHING then Owner t else own) fl" "txt \<noteq> []"
  shows "\<exists>c b. atr_encode Owner txt t own fl = c # b \<and> cstring (c # b) \<and> length (c # b) \<le> LBUF_SIZE \<and>
    atr_decode Owner (c # b) t = Some (txt, if own = NOTHING then Owner t else own, fl)"
proof (cases "(own = Owner t \<or> own = NOTHING) \<and> fl = 0")
  case True
  then have e: "atr_encode Owner txt t own fl = txt" by (simp add: atr_encode_def)
  have "atr_decode Owner txt t = Some (txt, Owner t, 0)" using assms(1) by (simp add: atr_decode_def put_ok_def plain_text_def)
  moreover obtain c b where "txt = c # b" using assms(2) by (cases "txt") auto
  ultimately show ?thesis using e True assms(1) by (auto simp: put_ok_def plain_text_def)
next
  case False
  define own' where "own' = (if own = NOTHING then Owner t else own)"
  define e where "e = ATR_INFO_CHAR # sprintf_d own' @ '':'' @ sprintf_d fl @ '':'' @ txt"
  note p = assms(1) [folded own'_def, unfolded put_ok_def plain_text_def]
  have len: "length e \<le> LBUF_SIZE - 2" using p by (simp add: e_def)
  have "((own = Owner t \<or> own = NOTHING) \<and> fl = 0) = False" using False by simp
  then have "atr_encode Owner txt t own fl = tprintf e"
    unfolding atr_encode_def own'_def e_def Let_def by (simp only: if_False)
  also have "\<dots> = e" using len by (simp add: tprintf_def)
  finally have "atr_encode Owner txt t own fl = e" .
  moreover have "cstring e" using p sprintf_d_cstring [of own'] sprintf_d_cstring [of fl]
    by (simp add: e_def ATR_INFO_CHAR_def)
  moreover have "atr_decode Owner e t = Some (txt, if own' = NOTHING then Owner t else own', fl)"
    unfolding e_def by (rule atr_decode_encoded) (use p in simp_all)
  moreover have "(if own' = NOTHING then Owner t else own') = own'" by (simp add: own'_def)
  ultimately show ?thesis using len e_def own'_def by auto
qed

subsection \<open>The interface\<close>

locale attr_cache =
  fixes D :: "'c acache"
    and good :: "'c \<Rightarrow> bool"
    and view :: "'c \<Rightarrow> Objname \<Rightarrow> 32 word \<Rightarrow> string option"
  assumes fetch: "good c \<Longrightarrow> FETCH D k c = (w, c') \<Longrightarrow>
      w = view c (object k) (anum k) \<and> good c' \<and> view c' = view c"
    and store: "good c \<Longrightarrow> int (length v) + 1 < 2 ^ 31 \<Longrightarrow> few (view c (object k)) \<Longrightarrow>
      good (STORE D k v c) \<and>
      view (STORE D k v c) = (view c)(object k := (view c (object k))(anum k \<mapsto> v @ [NUL]))"
    and delete: "good c \<Longrightarrow> good (DELETE D k c) \<and>
      view (DELETE D k c) = (view c)(object k := (view c (object k))(anum k := None))"
begin

text \<open>The text of an attribute, and the list of attributes wherever it is at the moment.\<close>

definition stored :: "'c attr_state \<Rightarrow> int \<Rightarrow> int \<Rightarrow> string option" where
  "stored s t n = map_option c_text (view (ac s) (word_of_int t) (word_of_int n))"

definition list_text :: "'c attr_state \<Rightarrow> int \<Rightarrow> string" where
  "list_text s t =
     (if mod_al_id s = t then the_alist s else case stored s t A_LIST of None \<Rightarrow> [] | Some l \<Rightarrow> l)"

definition nums :: "'c attr_state \<Rightarrow> int \<Rightarrow> int list" where
  "nums s t = al_numbers (list_text s t)"

definition obj_ok :: "'c attr_state \<Rightarrow> int \<Rightarrow> bool" where
  "obj_ok s t \<longleftrightarrow> (\<exists>ns. list_text s t = al_text ns \<and> al_wf ns \<and> distinct ns \<and>
     A_LIST \<notin> set ns \<and> nvattr s t = int (length (filter (\<lambda>n. n \<ge> A_USER_START) ns)))"

text \<open>At most \<open>N\<close> attributes on any object, its list apart.\<close>

definition sized :: "nat \<Rightarrow> 'c attr_state \<Rightarrow> bool" where
  "sized N s \<longleftrightarrow> (\<forall>w. finite (dom (view (ac s) w)) \<and> card (dom (view (ac s) w) - {word_of_int A_LIST}) \<le> N)"

definition attr_ok :: "nat \<Rightarrow> 'c attr_state \<Rightarrow> bool" where
  "attr_ok N s \<longleftrightarrow> good (ac s) \<and> iter_alist s \<noteq> [] \<and>
     (mod_al_id s = NOTHING \<or> in31 (mod_al_id s) \<and> mod_alist s \<noteq> None \<and> al_size (mod_alist s) \<le> mod_size s) \<and>
     (\<forall>t. in31 t \<longrightarrow> obj_ok s t \<and> length (nums s t) \<le> N)"

lemma obj_ok_nums:
  assumes "obj_ok s t"
  shows "list_text s t = al_text (nums s t)" "al_wf (nums s t)" "distinct (nums s t)"
    "A_LIST \<notin> set (nums s t)"
    "nvattr s t = int (length (filter (\<lambda>n. n \<ge> A_USER_START) (nums s t)))"
  using assms by (auto simp: obj_ok_def nums_def al_numbers_text)

lemma obj_okI:
  assumes "list_text s t = al_text ns" "al_wf ns" "distinct ns"
    "A_LIST \<notin> set ns"
    "nvattr s t = int (length (filter (\<lambda>n. n \<ge> A_USER_START) ns))"
  shows "obj_ok s t \<and> nums s t = ns"
  using assms by (auto simp: obj_ok_def nums_def al_numbers_text)

lemma in31_num: "al_wf ns \<Longrightarrow> n \<in> set ns \<Longrightarrow> in31 n"
  by (auto simp: al_wf_def in31_def)

text \<open>The list of an object is no longer than five bytes for each number.\<close>

lemma al_text_length: "al_wf ns \<Longrightarrow> length (al_text ns) \<le> 5 * length ns"
proof (induction ns)
  case (Cons n ns)
  then show ?case using al_code_length [of n] by simp
qed simp

lemma list_length: "attr_ok N s \<Longrightarrow> in31 t \<Longrightarrow> length (list_text s t) \<le> 5 * N"
  using al_text_length [of "nums s t"] by (fastforce simp: attr_ok_def dest: obj_ok_nums(1,2))

lemma attr_ok_mono: "attr_ok N s \<Longrightarrow> N \<le> M \<Longrightarrow> attr_ok M s"
  by (fastforce simp: attr_ok_def)

subsection \<open>Frames\<close>

text \<open>What \<open>al_store\<close>, \<open>al_fetch\<close> and the reads of attributes leave as it is.\<close>

definition same_attrs :: "'c attr_state \<Rightarrow> 'c attr_state \<Rightarrow> bool" where
  "same_attrs s s' \<longleftrightarrow>
     (\<forall>t n. in31 t \<longrightarrow> in31 n \<longrightarrow> n \<noteq> A_LIST \<longrightarrow> stored s' t n = stored s t n) \<and>
     (\<forall>t. in31 t \<longrightarrow> list_text s' t = list_text s t) \<and> nvattr s' = nvattr s \<and> vattrs s' = vattrs s \<and>
     vlplay s' = vlplay s \<and> iter_alist s' = iter_alist s"

lemma same_attrs_refl [simp]: "same_attrs s s"
  by (simp add: same_attrs_def)

lemma same_attrs_trans: "same_attrs s s1 \<Longrightarrow> same_attrs s1 s2 \<Longrightarrow> same_attrs s s2"
  by (simp add: same_attrs_def)

lemma same_attrs_ok:
  assumes "same_attrs s s'" "in31 t" "obj_ok s t"
  shows "obj_ok s' t \<and> nums s' t = nums s t"
proof -
  note o = obj_ok_nums [OF assms(3)]
  have "list_text s' t = al_text (nums s t)" "nvattr s' t = nvattr s t" using assms(1,2) o(1) by (simp_all add: same_attrs_def)
  then show ?thesis using obj_okI [of s' t "nums s t"] o by simp
qed

lemma view_store:
  assumes "good (ac s)" "int (length v) + 1 < 2 ^ 31" "few (view (ac s) (word_of_int t))" "cstring v" "in31 t" "in31 n"
    and s': "ac s' = STORE D (makekey t n) v (ac s)"
  shows "good (ac s') \<and> (\<forall>t' n'. in31 t' \<longrightarrow> in31 n' \<longrightarrow>
    stored s' t' n' = (if t' = t \<and> n' = n then Some v else stored s t' n'))"
proof -
  have "few (view (ac s) (object (makekey t n)))" using assms(3) by (simp add: makekey_def)
  from store [OF assms(1,2) this] have u: "good (ac s')"
      "view (ac s') = (view (ac s))(word_of_int t := (view (ac s) (word_of_int t))(word_of_int n \<mapsto> v @ [NUL]))"
    by (simp_all add: s' makekey_def)
  have "stored s' t' n' = (if t' = t \<and> n' = n then Some v else stored s t' n')" if "in31 t'" "in31 n'" for t' n'
    using word_in31_eq [OF that(1) assms(5)] word_in31_eq [OF that(2) assms(6)] c_text_cstring [OF assms(4)]
    by (auto simp: stored_def u(2))
  then show ?thesis using u(1) by simp
qed

lemma view_delete:
  assumes "good (ac s)" "in31 t" "in31 n" and s': "ac s' = DELETE D (makekey t n) (ac s)"
  shows "good (ac s') \<and> (\<forall>t' n'. in31 t' \<longrightarrow> in31 n' \<longrightarrow>
    stored s' t' n' = (if t' = t \<and> n' = n then None else stored s t' n'))"
proof -
  from delete [OF assms(1)] have u: "good (ac s')"
      "view (ac s') = (view (ac s))(word_of_int t := (view (ac s) (word_of_int t))(word_of_int n := None))"
    by (simp_all add: s' makekey_def)
  have "stored s' t' n' = (if t' = t \<and> n' = n then None else stored s t' n')" if "in31 t'" "in31 n'" for t' n'
    using word_in31_eq [OF that(1) assms(2)] word_in31_eq [OF that(2) assms(3)] by (auto simp: stored_def u(2))
  then show ?thesis using u(1) by simp
qed

lemma sized_card:
  assumes "sized N s"
  shows "finite (dom (view (ac s) w)) \<and> card (dom (view (ac s) w)) \<le> Suc N"
proof -
  let ?d = "dom (view (ac s) w)" and ?a = "word_of_int A_LIST :: 32 word"
  have f: "finite ?d" "card (?d - {?a}) \<le> N" using assms by (simp_all add: sized_def)
  have "card ?d \<le> card (insert ?a (?d - {?a}))" by (rule card_mono) (use f(1) in auto)
  also have "\<dots> \<le> Suc N" by (rule card_insert_le_m1) (use f(2) in simp_all)
  finally show ?thesis using f(1) by simp
qed

lemma sized_few: "sized N s \<Longrightarrow> N < LIMIT \<Longrightarrow> few (view (ac s) w)"
  using sized_card [of N s w] by (auto simp: few_def LIMIT_def)

lemma sized_store:
  assumes "sized N s" "good (ac s)" "int (length v) + 1 < 2 ^ 31" "N < LIMIT" "ac s' = STORE D (makekey t n) v (ac s)"
  shows "sized (if n = A_LIST then N else Suc N) s'"
  unfolding sized_def
proof
  fix w
  let ?A = "{word_of_int A_LIST} :: 32 word set" and ?d = "dom (view (ac s) w)"
  have f: "finite ?d" "card (?d - ?A) \<le> N" using assms(1) by (simp_all add: sized_def)
  have "dom (view (ac s') w) = (if w = word_of_int t then insert (word_of_int n) ?d else ?d)"
    using store [OF assms(2,3) sized_few [OF assms(1,4)], of "makekey t n"] by (auto simp: assms(5) makekey_def)
  then show "finite (dom (view (ac s') w)) \<and> card (dom (view (ac s') w) - ?A) \<le> (if n = A_LIST then N else Suc N)"
    using f by (auto simp: insert_Diff_if card_insert_if)
qed

lemma sized_delete:
  assumes "sized N s" "good (ac s)" "ac s' = DELETE D k (ac s)"
  shows "sized N s'"
  unfolding sized_def
proof
  fix w
  let ?A = "{word_of_int A_LIST} :: 32 word set"
  have f: "finite (dom (view (ac s) w))" "card (dom (view (ac s) w) - ?A) \<le> N" using assms(1) by (simp_all add: sized_def)
  have s: "dom (view (ac s') w) \<subseteq> dom (view (ac s) w)"
    using delete [OF assms(2), of k] by (auto simp: assms(3) split: if_splits)
  then have "card (dom (view (ac s') w) - ?A) \<le> card (dom (view (ac s) w) - ?A)" using f(1) by (intro card_mono) auto
  then show "finite (dom (view (ac s') w)) \<and> card (dom (view (ac s') w) - ?A) \<le> N"
    using f finite_subset [OF s] by simp
qed

lemma sized_Suc: "sized N s \<Longrightarrow> N \<le> M \<Longrightarrow> sized M s"
  by (auto simp: sized_def intro: le_trans)

subsection \<open>Reading\<close>

lemma raw_ok:
  assumes "good (ac s)" "atr_get_raw D t n s = (v, s')"
  shows "v = stored s t n \<and> good (ac s') \<and> stored s' = stored s \<and> view (ac s') = view (ac s) \<and> s' = s\<lparr>ac := ac s'\<rparr>"
  using assms fetch [of "ac s" "makekey t n"]
  by (auto simp: atr_get_raw_def stored_def makekey_def fun_eq_iff split: prod.splits)

lemma read_frame:
  assumes "good (ac s)" "atr_get_raw D t n s = (v, s')"
  shows "v = stored s t n" "attr_ok N s \<Longrightarrow> attr_ok N s'" "same_attrs s s'" "sized N s \<Longrightarrow> sized N s'" "mod_al_id s' = mod_al_id s"
    "\<And>t. list_text s' t = list_text s t" "mod_alist s' = mod_alist s" "stored s' = stored s" "good (ac s')"
proof -
  note r = raw_ok [OF assms]
  have f: "mod_al_id s' = mod_al_id s" "mod_alist s' = mod_alist s" "mod_size s' = mod_size s" "nvattr s' = nvattr s"
      "vattrs s' = vattrs s" "iter_alist s' = iter_alist s" "vlplay s' = vlplay s"
    by (subst conjunct2 [OF conjunct2 [OF conjunct2 [OF conjunct2 [OF r]]]], simp)+
  show "v = stored s t n" "mod_al_id s' = mod_al_id s" "mod_alist s' = mod_alist s" "stored s' = stored s" "good (ac s')"
    using r f by simp_all
  show l: "list_text s' t = list_text s t" for t using r f by (simp add: list_text_def the_alist_def)
  show "same_attrs s s'" using r f l by (simp add: same_attrs_def)
  show "sized N s \<Longrightarrow> sized N s'" using r by (simp add: sized_def)
  show "attr_ok N s \<Longrightarrow> attr_ok N s'" using r f l by (simp add: attr_ok_def obj_ok_def nums_def)
qed

subsection \<open>The cached list\<close>

lemma al_extend_enough: "len \<le> al_extend bufsiz len"
  by (simp add: al_extend_def ATR_BUF_CHUNK_def)

lemma al_store_ok:
  assumes ok: "attr_ok N s" and sz: "sized N s" "N < LIMIT"
  shows "attr_ok N (al_store D s) \<and> same_attrs s (al_store D s) \<and> sized N (al_store D s) \<and>
    mod_al_id (al_store D s) = NOTHING"
proof (cases "mod_al_id s = NOTHING")
  case True
  then have "al_store D s = s" by (simp add: al_store_def)
  then show ?thesis using ok sz True by (simp add: sized_Suc)
next
  case False
  let ?t = "mod_al_id s" and ?s = "al_store D s"
  have t: "in31 ?t" "obj_ok s ?t" "good (ac s)" using ok False by (auto simp: attr_ok_def)
  note o = obj_ok_nums [OF t(2)]
  obtain l where l: "mod_alist s = Some l" using ok False by (auto simp: attr_ok_def)
  have lt: "list_text s ?t = l" by (simp add: list_text_def the_alist_def l)
  have cs: "cstring l" using o(1,2) lt al_text_cstring by metis
  have len: "int (length l) + 1 < 2 ^ 31" using list_length [OF ok t(1)] sz(2) by (simp add: lt LIMIT_def)
  have f: "mod_al_id ?s = NOTHING" "nvattr ?s = nvattr s" "vattrs ?s = vattrs s" "vlplay ?s = vlplay s" "iter_alist ?s = iter_alist s"
    using False by (auto simp: al_store_def l Let_def split: list.splits)
  have v: "good (ac ?s) \<and> (\<forall>t' n'. in31 t' \<longrightarrow> in31 n' \<longrightarrow>
      stored ?s t' n' = (if t' = ?t \<and> n' = A_LIST then (if l = [] then None else Some l) else stored s t' n')) \<and> sized N ?s"
  proof (cases l)
    case Nil
    have "ac ?s = DELETE D (makekey ?t A_LIST) (ac s)" using False by (simp add: al_store_def l Nil Let_def)
    from view_delete [OF t(3,1) in31_A_LIST this] sized_delete [OF sz(1) t(3) this] show ?thesis
      by (simp add: Nil)
  next
    case (Cons c l')
    have a: "ac ?s = STORE D (makekey ?t A_LIST) l (ac s)" using False by (simp add: al_store_def l Cons Let_def)
    from view_store [OF t(3) len sized_few [OF sz] cs t(1) in31_A_LIST a] sized_store [OF sz(1) t(3) len sz(2) a] show ?thesis
      by (simp add: Cons)
  qed
  have "list_text ?s t' = list_text s t'" if "in31 t'" for t'
  proof (cases "t' = ?t")
    case True
    then show ?thesis using v that lt f(1) False by (auto simp: list_text_def)
  next
    case False
    moreover have "t' \<noteq> NOTHING" using that by auto
    ultimately show ?thesis using v that f(1) by (simp add: list_text_def)
  qed
  then have sa: "same_attrs s ?s" using v f by (simp add: same_attrs_def)
  have "obj_ok ?s t' \<and> length (nums ?s t') \<le> N" if "in31 t'" for t'
    using same_attrs_ok [OF sa that] ok that by (simp add: attr_ok_def)
  then show ?thesis using sa v f ok by (simp add: attr_ok_def)
qed

lemma al_fetch_ok:
  assumes ok: "attr_ok N s" and sz: "sized N s" "N < LIMIT" and t: "in31 t"
  shows "attr_ok N (al_fetch D t s) \<and> same_attrs s (al_fetch D t s) \<and> sized N (al_fetch D t s) \<and>
    mod_al_id (al_fetch D t s) = t \<and> the_alist (al_fetch D t s) = list_text s t"
proof (cases "mod_al_id s = t")
  case True
  then have "al_fetch D t s = s" by (simp add: al_fetch_def)
  then show ?thesis using ok sz True by (simp add: sized_Suc list_text_def)
next
  case False
  let ?s1 = "al_store D s" and ?s = "al_fetch D t s"
  note st = al_store_ok [OF ok sz]
  obtain v s2 where r: "atr_get_raw D t A_LIST ?s1 = (v, s2)" by (metis prod.collapse)
  have g: "good (ac ?s1)" using st by (simp add: attr_ok_def)
  note rd = read_frame [OF g r]
  let ?l = "case v of None \<Rightarrow> [] | Some l \<Rightarrow> l"
  have nt: "t \<noteq> NOTHING" using t by auto
  have lt: "?l = list_text s t"
  proof -
    have "list_text ?s1 t = list_text s t" using st t by (simp add: same_attrs_def)
    moreover have "list_text ?s1 t = ?l" using st nt rd(1) by (simp add: list_text_def)
    ultimately show ?thesis by simp
  qed
  have f: "ac ?s = ac s2" "mod_alist ?s = Some ?l" "mod_al_id ?s = t" "nvattr ?s = nvattr s2" "vattrs ?s = vattrs s2" "vlplay ?s = vlplay s2"
      "al_size (mod_alist ?s) \<le> mod_size ?s" "iter_alist ?s = iter_alist s2"
    using False r al_extend_enough by (auto simp: al_fetch_def al_size_def split: option.splits)
  have stv: "stored ?s = stored s2" "stored s2 = stored ?s1" using f(1) rd(8) by (simp_all add: stored_def [abs_def])
  have "list_text ?s t' = list_text ?s1 t'" if "in31 t'" for t'
  proof (cases "t' = t")
    case True
    have "list_text ?s t = ?l" using f(2,3) by (simp add: list_text_def the_alist_def)
    moreover have "list_text ?s1 t = list_text s t" using st t by (simp add: same_attrs_def)
    ultimately show ?thesis using lt True by simp
  next
    case False
    moreover have "t' \<noteq> NOTHING" using that by auto
    ultimately show ?thesis using f stv st by (simp add: list_text_def)
  qed
  then have "same_attrs ?s1 ?s" using stv f rd(3) by (simp add: same_attrs_def)
  then have sa: "same_attrs s ?s" using st same_attrs_trans by blast
  have "sized N ?s" using rd(4) [of N] st f(1) by (simp add: sized_def)
  moreover have "obj_ok ?s t' \<and> length (nums ?s t') \<le> N" if "in31 t'" for t'
    using same_attrs_ok [OF sa that] ok that by (simp add: attr_ok_def)
  moreover have "iter_alist ?s \<noteq> []" using sa ok by (simp add: same_attrs_def attr_ok_def)
  ultimately show ?thesis using sa rd(9) f t lt by (simp add: attr_ok_def the_alist_def)
qed

subsection \<open>Changing the list\<close>

text \<open>\<open>new_vattr\<close> is set only between the creation of an attribute name and its first use.\<close>

lemma check_limit_old: "\<not> new_vattr (vattrs s) \<Longrightarrow> check_limit D cf g n s = (True, None, s)"
  by (simp add: check_limit_def limit_applies_def)

lemma drop_new_old: "\<not> new_vattr (vattrs s) \<Longrightarrow> drop_new n s = s"
  by (simp add: drop_new_def split: option.splits)

text \<open>What becomes of a state when the list in memory is replaced.\<close>

lemma list_update:
  assumes ok: "attr_ok N s" and t: "in31 t" "mod_al_id s = t"
    and ns: "al_wf ns" "distinct ns" "A_LIST \<notin> set ns" "length ns \<le> M" "N \<le> M"
    and s': "ac s' = ac s" "mod_al_id s' = t" "mod_alist s' = Some (al_text ns)" "al_size (mod_alist s') \<le> mod_size s'"
      "iter_alist s' = iter_alist s"
      "nvattr s' = (nvattr s)(t := int (length (filter (\<lambda>n. n \<ge> A_USER_START) ns)))"
  shows "attr_ok M s' \<and> stored s' = stored s \<and> (\<forall>t'. in31 t' \<longrightarrow> nums s' t' = (if t' = t then ns else nums s t'))"
proof -
  have st: "stored s' = stored s" by (simp add: stored_def [abs_def] s'(1))
  have new: "obj_ok s' t \<and> nums s' t = ns"
    by (rule obj_okI) (use ns s' in \<open>simp_all add: list_text_def the_alist_def\<close>)
  have old: "obj_ok s' t' \<and> nums s' t' = nums s t'" if "in31 t'" "t' \<noteq> t" for t'
  proof -
    have o: "obj_ok s t'" using ok that by (simp add: attr_ok_def)
    have "list_text s' t' = list_text s t'" using that(2) t(2) s'(2) st by (auto simp: list_text_def)
    then show ?thesis using obj_okI [of s' t' "nums s t'"] obj_ok_nums [OF o] s'(6) that(2) by simp
  qed
  have b: "length (nums s t') \<le> N" if "in31 t'" for t' using ok that by (simp add: attr_ok_def)
  have all: "obj_ok s' t' \<and> length (nums s' t') \<le> M" if "in31 t'" for t'
  proof (cases "t' = t")
    case True
    then show ?thesis using new ns by simp
  next
    case False
    then show ?thesis using old [OF that False] b [OF that] ns(5) by simp
  qed
  have "mod_al_id s' \<noteq> NOTHING" using t s'(2) by auto
  moreover have "good (ac s')" "iter_alist s' \<noteq> []" using ok s' by (auto simp: attr_ok_def)
  ultimately have "attr_ok M s'" unfolding attr_ok_def using all s'(2-4) t by auto
  moreover have "\<forall>t'. in31 t' \<longrightarrow> nums s' t' = (if t' = t then ns else nums s t')" using new old by simp
  ultimately show ?thesis using st by simp
qed

text \<open>Only some of the fields matter.\<close>

definition same_fields :: "'c attr_state \<Rightarrow> 'c attr_state \<Rightarrow> bool" where
  "same_fields s s' \<longleftrightarrow> ac s' = ac s \<and> mod_al_id s' = mod_al_id s \<and> mod_alist s' = mod_alist s \<and> mod_size s' = mod_size s \<and>
     nvattr s' = nvattr s \<and> vattrs s' = vattrs s \<and> (iter_alist s' = iter_alist s \<or> iter_alist s' \<noteq> [] \<and> iter_alist s \<noteq> [])"

lemma same_fields_keep:
  assumes "same_fields s s'"
  shows "stored s' = stored s" "list_text s' = list_text s" "nums s' = nums s" "attr_ok N s' = attr_ok N s" "sized N s' = sized N s"
proof -
  note f = assms [unfolded same_fields_def]
  show st: "stored s' = stored s" by (simp add: stored_def [abs_def] f)
  show lt: "list_text s' = list_text s" by (auto simp: list_text_def the_alist_def fun_eq_iff f st)
  then show "nums s' = nums s" by (simp add: nums_def [abs_def])
  show "sized N s' = sized N s" by (simp add: sized_def f)
  have "iter_alist s' \<noteq> [] \<longleftrightarrow> iter_alist s \<noteq> []" using f by auto
  then show "attr_ok N s' = attr_ok N s" by (simp add: attr_ok_def obj_ok_def nums_def f lt)
qed

text \<open>A change of the lists: what the texts, the list of \<open>t\<close> and the other lists are afterwards.\<close>

definition relisted :: "nat \<Rightarrow> nat \<Rightarrow> int \<Rightarrow> int list \<Rightarrow> 'c attr_state \<Rightarrow> 'c attr_state \<Rightarrow> bool" where
  "relisted M N t ns s s' \<longleftrightarrow> attr_ok M s' \<and> sized N s' \<and>
     (\<forall>t' n'. in31 t' \<longrightarrow> in31 n' \<longrightarrow> n' \<noteq> A_LIST \<longrightarrow> stored s' t' n' = stored s t' n') \<and>
     (\<forall>t'. in31 t' \<longrightarrow> nums s' t' = (if t' = t then ns else nums s t')) \<and>
     vattrs s' = vattrs s \<and> iter_alist s' = iter_alist s"

lemma fetched:
  assumes "attr_ok N s" "sized N s" "N < LIMIT" "in31 t"
  defines "s1 \<equiv> al_fetch D t s"
  shows "attr_ok N s1" "sized N s1" "mod_al_id s1 = t" "the_alist s1 = al_text (nums s t)"
    "nums s1 t' = (if in31 t' then nums s t' else nums s1 t')"
    "in31 t' \<Longrightarrow> in31 n \<Longrightarrow> n \<noteq> A_LIST \<Longrightarrow> stored s1 t' n = stored s t' n"
    "vattrs s1 = vattrs s" "iter_alist s1 = iter_alist s" "nvattr s1 = nvattr s" "obj_ok s t"
    "mod_alist s1 \<noteq> None" "al_size (mod_alist s1) \<le> mod_size s1"
proof -
  note f = al_fetch_ok [OF assms(1-4)]
  show o: "obj_ok s t" using assms(1,4) by (simp add: attr_ok_def)
  show "attr_ok N s1" "sized N s1" "mod_al_id s1 = t" "vattrs s1 = vattrs s" "iter_alist s1 = iter_alist s" "nvattr s1 = nvattr s"
    using f by (simp_all add: s1_def same_attrs_def)
  show "the_alist s1 = al_text (nums s t)" using f obj_ok_nums(1) [OF o] by (simp add: s1_def)
  show "nums s1 t' = (if in31 t' then nums s t' else nums s1 t')" using f by (auto simp: s1_def same_attrs_def nums_def)
  show "in31 t' \<Longrightarrow> in31 n \<Longrightarrow> n \<noteq> A_LIST \<Longrightarrow> stored s1 t' n = stored s t' n" using f by (auto simp: s1_def same_attrs_def)
  have "mod_al_id s1 \<noteq> NOTHING" using f assms(4) by (auto simp: s1_def)
  then show "mod_alist s1 \<noteq> None" "al_size (mod_alist s1) \<le> mod_size s1" using f by (auto simp: attr_ok_def s1_def)
qed

lemma al_add_with_ok:
  assumes ok: "attr_ok N s" and sz: "sized N s" "N < LIMIT" and t: "in31 t" and n: "in31 n" "0 < n" "n \<noteq> A_LIST"
    and old: "\<not> new_vattr (vattrs s)"
  shows "relisted (Suc N) N t (add_number cf n (nums s t)) s (al_add_with cnt D cf g t n s)"
proof -
  define s1 where "s1 = al_fetch D t s"
  define s' where "s' = al_add_with cnt D cf g t n s"
  let ?ns = "nums s t"
  note f = fetched [OF ok sz t, folded s1_def]
  note o = obj_ok_nums [OF f(10)]
  have mem: "al_member (the_alist s1) n \<longleftrightarrow> n \<in> set ?ns" using f(4) o(2) by (simp add: al_member_text)
  have ok1: "attr_ok (Suc N) s1" by (rule attr_ok_mono [OF f(1)]) simp
  have nums1: "nums s1 t' = nums s t'" if "in31 t'" for t' using f(5) [of t'] that by simp
  have old1: "\<not> new_vattr (vattrs s1)" using old f(7) by simp
  show ?thesis
  proof (cases "n \<in> set ?ns \<or> n \<ge> A_USER_START \<and> nvattr s t \<ge> vlimit cf")
    case True
    have keep: "relisted (Suc N) N t ?ns s s2" if "same_fields s1 s2" "iter_alist s2 = iter_alist s1" for s2
      using same_fields_keep [OF that(1)] ok1 f nums1 that by (simp add: relisted_def same_fields_def)
    have "add_number cf n ?ns = ?ns" using True o(5) by (auto simp: add_number_def)
    moreover have "s' = s1 \<or> s' = s1\<lparr>vlplay := NOTHING\<rparr>"
      using True mem n(3) f(9) drop_new_old [OF old1] by (auto simp: s'_def al_add_with_def s1_def [symmetric] Let_def)
    ultimately show ?thesis using keep [of s'] by (auto simp: s'_def [symmetric] same_fields_def)
  next
    case False
    have c: "A_USER_START \<le> n \<Longrightarrow> \<not> vlimit cf \<le> nvattr s1 t" using False f(9) by auto
    have s': "s' = s1\<lparr>mod_size := al_extend (mod_size s1) (int (length (the_alist s1)) + ATR_BUF_INCR),
        mod_alist := Some (the_alist s1 @ al_code n),
        nvattr := (if n \<ge> A_USER_START then (nvattr s1)(t := nvattr s1 t + 1) else nvattr s1)\<rparr>"
      using mem False n(3) drop_new_old [OF old1] c
      by (cases "A_USER_START \<le> n") (simp_all add: s'_def al_add_with_def s1_def [symmetric] Let_def check_limit_old [OF old1] del: fun_upd_apply)
    have a: "add_number cf n ?ns = ?ns @ [n]" using False o(5) by (auto simp: add_number_def)
    have len: "length ?ns \<le> N" using ok t by (simp add: attr_ok_def)
    have fs: "ac s' = ac s1" "mod_al_id s' = t" "mod_alist s' = Some (al_text (?ns @ [n]))" "iter_alist s' = iter_alist s1" "vattrs s' = vattrs s1"
      using f(3,4) by (simp_all add: s' al_text_def)
    have "int (length (al_text (?ns @ [n]))) + 1 \<le> int (length (the_alist s1)) + ATR_BUF_INCR"
      using al_code_length [of n] n(1) f(4) by (simp add: in31_def ATR_BUF_INCR_def)
    also have "\<dots> \<le> mod_size s'" using al_extend_enough by (simp add: s')
    finally have sz': "al_size (mod_alist s') \<le> mod_size s'" by (simp add: fs al_size_def)
    have nv: "nvattr s' = (nvattr s1)(t := int (length (filter (\<lambda>n. n \<ge> A_USER_START) (?ns @ [n]))))"
      using f(9) o(5) by (auto simp: s' fun_eq_iff)
    have wf: "al_wf (?ns @ [n])" "distinct (?ns @ [n])" "A_LIST \<notin> set (?ns @ [n])" "length (?ns @ [n]) \<le> Suc N"
      using o n len False by (simp_all add: in31_def)
    note lu = list_update [OF f(1) t f(3) wf _ fs(1-3) sz' fs(4) nv]
    have "sized N s'" using f(2) fs(1) by (simp add: sized_def)
    then show ?thesis unfolding s'_def [symmetric] a using lu nums1 f fs by (simp add: relisted_def)
  qed
qed

lemma al_delete_ok:
  assumes ok: "attr_ok N s" and sz: "sized N s" "N < LIMIT" and t: "in31 t" and n: "in31 n" "n \<noteq> A_LIST"
    and old: "\<not> new_vattr (vattrs s)"
  shows "relisted N N t (remove1 n (nums s t)) s (al_delete D cf g t n s)"
proof -
  define s1 where "s1 = al_fetch D t s"
  define s' where "s' = al_delete D cf g t n s"
  let ?ns = "nums s t"
  note f = fetched [OF ok sz t, folded s1_def]
  note o = obj_ok_nums [OF f(10)]
  have rem: "al_remove (the_alist s1) n = (if n \<in> set ?ns then Some (al_text (remove1 n ?ns)) else None)"
    using f(4) o(2) by (simp add: al_remove_text)
  have nums1: "nums s1 t' = nums s t'" if "in31 t'" for t' using f(5) [of t'] that by simp
  have old1: "\<not> new_vattr (vattrs s1)" using old f(7) by simp
  show ?thesis
  proof (cases "n \<in> set ?ns")
    case False
    then have "s' = s1" using n old1 by (simp add: s'_def al_delete_def s1_def [symmetric] Let_def rem check_limit_old)
    then show ?thesis unfolding s'_def [symmetric] using False f nums1
      by (simp add: relisted_def remove1_idem)
  next
    case True
    have s': "s' = s1\<lparr>mod_alist := Some (al_text (remove1 n ?ns)),
        nvattr := (if n \<ge> A_USER_START then (nvattr s1)(t := nvattr s1 t - 1) else nvattr s1)\<rparr>"
      using True n old1 by (simp add: s'_def al_delete_def s1_def [symmetric] Let_def rem check_limit_old del: fun_upd_apply)
    have len: "length ?ns \<le> N" using ok t by (simp add: attr_ok_def)
    have fs: "ac s' = ac s1" "mod_al_id s' = t" "mod_alist s' = Some (al_text (remove1 n ?ns))" "iter_alist s' = iter_alist s1" "vattrs s' = vattrs s1"
      using f(3) by (simp_all add: s')
    obtain xs ys where sp: "?ns = xs @ n # ys" "n \<notin> set xs" using True by (meson split_list_first)
    then have rm: "remove1 n ?ns = xs @ ys" by (simp add: remove1_append)
    obtain l where l: "mod_alist s1 = Some l" using f(11) by auto
    then have "al_size (mod_alist s') \<le> al_size (mod_alist s1)" using f(4) unfolding fs rm by (simp add: al_size_def the_alist_def sp(1))
    then have sz': "al_size (mod_alist s') \<le> mod_size s'" using f(12) by (simp add: s')
    have nv: "nvattr s' = (nvattr s1)(t := int (length (filter (\<lambda>n. n \<ge> A_USER_START) (remove1 n ?ns))))"
      unfolding rm using f(9) o(5) by (auto simp: s' fun_eq_iff sp(1))
    have wf: "al_wf (remove1 n ?ns)" "distinct (remove1 n ?ns)" "A_LIST \<notin> set (remove1 n ?ns)" "length (remove1 n ?ns) \<le> N"
      unfolding rm using o len sp by simp_all
    note lu = list_update [OF f(1) t f(3) wf _ fs(1-3) sz' fs(4) nv]
    have "sized N s'" using f(2) fs(1) by (simp add: sized_def)
    then show ?thesis unfolding s'_def [symmetric] using lu nums1 f fs by (simp add: relisted_def)
  qed
qed

subsection \<open>Operations against the model\<close>

definition repr :: "gamedb \<Rightarrow> 'c attr_state \<Rightarrow> attr_model \<Rightarrow> bool" where
  "repr g s M \<longleftrightarrow> (\<forall>t. in31 t \<longrightarrow> nums s t = snd M t \<and>
     (\<forall>n. in31 n \<longrightarrow> n \<noteq> A_LIST \<longrightarrow>
        reads_as g t (fst M t n) (stored s t n)))"

definition layer_ok :: "gamedb \<Rightarrow> nat \<Rightarrow> 'c attr_state \<Rightarrow> attr_model \<Rightarrow> bool" where
  "layer_ok g N s M \<longleftrightarrow> attr_ok N s \<and> sized N s \<and> repr g s M \<and> \<not> new_vattr (vattrs s)"

lemma layer_okD:
  assumes "layer_ok g N s M"
  shows "attr_ok N s" "sized N s" "repr g s M" "\<not> new_vattr (vattrs s)" "good (ac s)"
  using assms by (simp_all add: layer_ok_def attr_ok_def)

lemma layer_ok_mono: "layer_ok g N s M \<Longrightarrow> N \<le> K \<Longrightarrow> layer_ok g K s M"
  by (auto simp: layer_ok_def intro: attr_ok_mono sized_Suc)

lemma layer_ok_same: "same_fields s s' \<Longrightarrow> layer_ok g N s' M = layer_ok g N s M"
  using same_fields_keep [of s s'] by (simp add: layer_ok_def repr_def) (simp add: same_fields_def)

lemma marks_same: "same_fields s (set_marks t n s)" "same_fields s (clear_marks t n s)"
  by (simp_all add: same_fields_def set_marks_def clear_marks_def)

text \<open>A change of one text, before the list is changed.\<close>

lemma text_change:
  assumes ok: "attr_ok N s" and s': "s' = s\<lparr>ac := c\<rparr>" and g': "good c"
    and st: "\<And>t' n'. in31 t' \<Longrightarrow> in31 n' \<Longrightarrow> stored s' t' n' = (if t' = t \<and> n' = n then v else stored s t' n')"
    and n: "n \<noteq> A_LIST"
  shows "attr_ok N s'" "in31 t' \<Longrightarrow> nums s' t' = nums s t'"
proof -
  have lt: "list_text s' t' = list_text s t'" if "in31 t'" for t'
    using st [OF that in31_A_LIST] n by (auto simp: list_text_def the_alist_def s')
  then show "in31 t' \<Longrightarrow> nums s' t' = nums s t'" by (simp add: nums_def)
  show "attr_ok N s'" using ok lt g' unfolding attr_ok_def obj_ok_def nums_def by (simp add: s')
qed

lemma relisted_layer:
  assumes r: "relisted K N t ns s1 s2" and v: "\<not> new_vattr (vattrs s1)" "N \<le> K"
    and l: "\<And>t'. in31 t' \<Longrightarrow> nums s1 t' = snd M t'" "snd M' = (snd M)(t := ns)"
    and m: "\<And>t' n'. in31 t' \<Longrightarrow> in31 n' \<Longrightarrow> n' \<noteq> A_LIST \<Longrightarrow> reads_as g t' (fst M' t' n') (stored s1 t' n')"
  shows "layer_ok g K s2 M'"
proof -
  have "attr_ok K s2" "sized K s2" "vattrs s2 = vattrs s1" using r v(2) by (auto simp: relisted_def intro: sized_Suc)
  moreover have "nums s2 t' = snd M' t'" if "in31 t'" for t' using r l that by (simp add: relisted_def)
  moreover have "stored s2 t' n' = stored s1 t' n'" if "in31 t'" "in31 n'" "n' \<noteq> A_LIST" for t' n'
    using r that by (simp add: relisted_def)
  ultimately show ?thesis using m v(1) by (simp add: layer_ok_def repr_def)
qed

lemma atr_add_raw_both:
  assumes l: "layer_ok g N s M" and N: "N + 2 < LIMIT" and t: "in31 t" and n: "num_ok n"
    and b: "cstring b" "b \<noteq> []" "length b \<le> LBUF_SIZE" "atr_decode (g_Owner g) b t = Some r"
  shows "layer_ok g (N + 2) (atr_add_raw D cf g t n (Some b) s) (put_model cf t n r M) \<and>
    (\<forall>t' n'. in31 t' \<longrightarrow> in31 n' \<longrightarrow> n' \<noteq> A_LIST \<longrightarrow>
      stored (atr_add_raw D cf g t n (Some b) s) t' n' = (if t' = t \<and> n' = n then Some b else stored s t' n'))"
proof -
  define s1 where "s1 = s\<lparr>ac := STORE D (makekey t n) b (ac s)\<rparr>"
  note k = layer_okD [OF l]
  have n': "in31 n" "0 < n" "n \<noteq> A_LIST" using n by (simp_all add: num_ok_def)
  have NL: "N < LIMIT" "Suc N < LIMIT" using N by simp_all
  have len: "int (length b) + 1 < 2 ^ 31" using b(3) by (simp add: LBUF_SIZE_def)
  have a1: "ac s1 = STORE D (makekey t n) b (ac s)" by (simp add: s1_def)
  note v = view_store [OF k(5) len sized_few [OF k(2) NL(1)] b(1) t n'(1) a1]
  have sz1: "sized (Suc N) s1" using sized_store [OF k(2,5) len NL(1) a1] n'(3) by simp
  note tc = text_change [OF k(1) s1_def, where t = t and n = n and v = "Some b"]
  have ok1: "attr_ok (Suc N) s1" by (rule attr_ok_mono [OF tc(1)]) (use conjunct1 [OF v, unfolded a1] conjunct2 [OF v] n'(3) in simp_all)
  have nums1: "nums s1 t' = snd M t'" if "in31 t'" for t'
  proof -
    have "nums s1 t' = nums s t'" by (rule tc(2)) (use conjunct1 [OF v, unfolded a1] conjunct2 [OF v] n'(3) that in simp_all)
    then show ?thesis using k(3) that by (simp add: repr_def)
  qed
  have nv1: "\<not> new_vattr (vattrs s1)" using k(4) by (simp add: s1_def)
  note add = al_add_with_ok [OF ok1 sz1 NL(2) t n' nv1, where cnt = "count_new D cf g" and cf = cf and g = g]
  have e: "atr_add_raw D cf g t n (Some b) s = set_marks t n (al_add_with (count_new D cf g) D cf g t n s1)"
    using b(2) by (cases b) (simp_all add: atr_add_raw_def add_text_def s1_def)
  have "layer_ok g (N + 2) (al_add_with (count_new D cf g) D cf g t n s1) (put_model cf t n r M)"
  proof (rule relisted_layer [where t = t and ns = "add_number cf n (nums s1 t)" and N = "Suc N" and ?s1.0 = s1 and M = M])
    show "relisted (N + 2) (Suc N) t (add_number cf n (nums s1 t)) s1 (al_add_with (count_new D cf g) D cf g t n s1)"
      using add by simp
    show "snd (put_model cf t n r M) = (snd M)(t := add_number cf n (nums s1 t))" using nums1 [OF t] by (simp add: put_model_def)
    show "reads_as g t' (fst (put_model cf t n r M) t' n') (stored s1 t' n')" if "in31 t'" "in31 n'" "n' \<noteq> A_LIST" for t' n'
    proof -
      have "reads_as g t' (fst M t' n') (stored s t' n')" using k(3) that by (simp add: repr_def)
      then show ?thesis using v that b(4) by (auto simp: put_model_def reads_as_def)
    qed
  qed (use nv1 nums1 in simp_all)
  moreover have "stored (set_marks t n (al_add_with (count_new D cf g) D cf g t n s1)) t' n' = (if t' = t \<and> n' = n then Some b else stored s t' n')"
    if "in31 t'" "in31 n'" "n' \<noteq> A_LIST" for t' n'
    unfolding same_fields_keep(1) [OF marks_same(1)] using add v that by (simp add: relisted_def)
  ultimately show ?thesis unfolding e layer_ok_same [OF marks_same(1)] by blast
qed

lemmas atr_add_raw_ok = atr_add_raw_both [THEN conjunct1]
  and atr_add_raw_stored = atr_add_raw_both [THEN conjunct2]

lemma al_delete_layer:
  assumes l: "layer_ok g N s M" and N: "N < LIMIT" and t: "in31 t" and n: "num_ok n"
  shows "layer_ok g N (al_delete D cf g t n (s\<lparr>ac := DELETE D (makekey t n) (ac s)\<rparr>)) (clear_model t n M)"
proof -
  define s1 where "s1 = s\<lparr>ac := DELETE D (makekey t n) (ac s)\<rparr>"
  note k = layer_okD [OF l]
  have n': "in31 n" "n \<noteq> A_LIST" using n by (simp_all add: num_ok_def)
  have a1: "ac s1 = DELETE D (makekey t n) (ac s)" by (simp add: s1_def)
  note v = view_delete [OF k(5) t n'(1) a1]
  have sz1: "sized N s1" using sized_delete [OF k(2,5) a1] .
  note tc = text_change [OF k(1) s1_def, where t = t and n = n and v = None]
  have ok1: "attr_ok N s1" by (rule tc(1)) (use conjunct1 [OF v, unfolded a1] conjunct2 [OF v] n'(2) in simp_all)
  have nums1: "nums s1 t' = snd M t'" if "in31 t'" for t'
  proof -
    have "nums s1 t' = nums s t'" by (rule tc(2)) (use conjunct1 [OF v, unfolded a1] conjunct2 [OF v] n'(2) that in simp_all)
    then show ?thesis using k(3) that by (simp add: repr_def)
  qed
  have nv1: "\<not> new_vattr (vattrs s1)" using k(4) by (simp add: s1_def)
  note del = al_delete_ok [OF ok1 sz1 N t n' nv1, of cf g]
  have "layer_ok g N (al_delete D cf g t n s1) (clear_model t n M)"
  proof (rule relisted_layer [where t = t and ns = "remove1 n (nums s1 t)" and N = N and ?s1.0 = s1 and M = M])
    show "relisted N N t (remove1 n (nums s1 t)) s1 (al_delete D cf g t n s1)" by (rule del)
    show "snd (clear_model t n M) = (snd M)(t := remove1 n (nums s1 t))" using nums1 [OF t] by (simp add: clear_model_def)
    show "reads_as g t' (fst (clear_model t n M) t' n') (stored s1 t' n')" if "in31 t'" "in31 n'" "n' \<noteq> A_LIST" for t' n'
    proof -
      have "reads_as g t' (fst M t' n') (stored s t' n')" using k(3) that by (simp add: repr_def)
      then show ?thesis using v that by (auto simp: clear_model_def reads_as_def)
    qed
  qed (use nv1 nums1 in simp_all)
  then show ?thesis unfolding s1_def .
qed

lemma atr_clr_ok:
  assumes "layer_ok g N s M" "N < LIMIT" "in31 t" "num_ok n"
  shows "layer_ok g N (atr_clr D cf g t n s) (clear_model t n M)"
  unfolding atr_clr_def layer_ok_same [OF marks_same(2)] by (rule al_delete_layer [OF assms])

lemma num_ok_stamp: "num_ok A_MODIFY_TIME"
  by (simp add: num_ok_def in31_def A_MODIFY_TIME_def A_LIST_def)

lemma atr_add_ok:
  assumes l: "layer_ok g N s M" and N: "N + 4 < LIMIT" and o: "atr_op_ok g (Put_attr stamp t n txt own fl)"
  shows "layer_ok g (N + 4) (atr_add stamp D cf g t n (Some txt) own fl s) (snd (model_step cf g (Put_attr stamp t n txt own fl) M))"
proof -
  have t: "in31 t" "num_ok n" "put_ok txt (if own = NOTHING then g_Owner g t else own) fl" using o by simp_all
  define s1 where "s1 = (case stamp of None \<Rightarrow> s | Some x \<Rightarrow> atr_add_raw D cf g t A_MODIFY_TIME (Some x) s)"
  define M1 where "M1 = stamp_model cf g stamp t M"
  have l1: "layer_ok g (N + 2) s1 M1"
  proof (cases stamp)
    case None
    then show ?thesis using layer_ok_mono [OF l, of "N + 2"] by (simp add: s1_def M1_def stamp_model_def)
  next
    case (Some ts)
    then have ts: "ts \<noteq> []" "plain_text ts" using o by simp_all
    have "atr_decode (g_Owner g) ts t = Some (ts, g_Owner g t, 0)" using ts(2) by (simp add: plain_text_def atr_decode_def)
    then show ?thesis using atr_add_raw_ok [OF l _ t(1) num_ok_stamp _ ts(1)] N ts(2)
      by (simp add: Some s1_def M1_def stamp_model_def plain_text_def)
  qed
  show ?thesis
  proof (cases "txt")
    case Nil
    have "layer_ok g (N + 2) (atr_clr D cf g t n s1) (clear_model t n M1)" by (rule atr_clr_ok [OF l1]) (use N t in simp_all)
    then show ?thesis using layer_ok_mono [of g "N + 2" _ _ "N + 4"]
      by (simp add: Nil atr_add_def s1_def [symmetric] M1_def [symmetric] Let_def)
  next
    case (Cons c b)
    from encode_decode [where Owner = "g_Owner g" and t = t and own = own, OF t(3)] Cons obtain c' b' where e: "atr_encode (g_Owner g) txt t own fl = c' # b'" "cstring (c' # b')"
        "length (c' # b') \<le> LBUF_SIZE" "atr_decode (g_Owner g) (c' # b') t = Some (txt, if own = NOTHING then g_Owner g t else own, fl)"
      by auto
    have "layer_ok g (N + 2 + 2) (atr_add_raw D cf g t n (Some (c' # b')) s1)
        (put_model cf t n (txt, if own = NOTHING then g_Owner g t else own, fl) M1)"
      by (rule atr_add_raw_ok [OF l1 _ t(1,2) e(2) _ e(3,4)]) (use N in simp_all)
    then show ?thesis using e(1)
      by (simp add: Cons atr_add_def s1_def [symmetric] M1_def [symmetric] Let_def numeral_eq_Suc)
  qed
qed

lemma read_layer:
  assumes "layer_ok g N s M" "atr_get_raw D t n s = (v, s')"
  shows "layer_ok g N s' M" "v = stored s t n"
proof -
  note k = layer_okD [OF assms(1)]
  note r = read_frame [OF k(5) assms(2)]
  have "list_text s' = list_text s" by (rule ext) (rule r(6))
  then have "nums s' = nums s" by (simp add: nums_def [abs_def])
  then have "repr g s' M" using k(3) r(8) by (simp add: repr_def)
  moreover have "vattrs s' = vattrs s" using r(3) by (simp add: same_attrs_def)
  ultimately show "layer_ok g N s' M" using k r(2,4) by (simp add: layer_ok_def)
  show "v = stored s t n" by (rule r(1))
qed

lemma atr_get_ok:
  assumes l: "layer_ok g N s M" and t: "in31 t" "num_ok n" and r: "atr_get D g t n s = (res, s')"
  shows "layer_ok g N s' M \<and> res = (case fst M t n of None \<Rightarrow> ([], g_Owner g t, 0) | Some r \<Rightarrow> r)"
proof -
  obtain v s1 where v: "atr_get_raw D t n s = (v, s1)" by (metis prod.collapse)
  note rd = read_layer [OF l v]
  have "reads_as g t (fst M t n) v" using layer_okD(3) [OF l] t rd(2) by (simp add: repr_def num_ok_def)
  then show ?thesis using r rd(1) by (auto simp: atr_get_def v reads_as_def split: option.splits)
qed

subsection \<open>Walks\<close>

lemma atr_loop_text: "al_wf ns \<Longrightarrow> atr_loop body (atr_next (Some (al_text ns))) s = fold body ns s"
proof (induction ns arbitrary: s)
  case Nil
  then show ?case by (simp add: atr_next_def atr_loop.simps)
next
  case (Cons n ns)
  have wf: "al_wf ns" "n \<noteq> 0" using Cons.prems by simp_all
  have nx: "atr_next (Some (al_text (n # ns))) = (n, Some (al_text ns))" by (rule atr_next_text(1) [OF Cons.prems])
  show ?case
  proof (cases ns)
    case Nil
    then show ?thesis unfolding nx using wf by (simp add: atr_loop.simps)
  next
    case ns: (Cons m ms)
    then have "al_text ns \<noteq> []" by simp
    then show ?thesis unfolding nx using wf Cons.IH [OF wf(1)] by (simp add: atr_loop.simps [of body n])
  qed
qed

lemma atr_head_ok:
  assumes l: "layer_ok g N s M" and t: "in31 t" and r: "atr_head D t s = (head, s')"
  shows "layer_ok g N s' M \<and> atr_loop body head x = fold body (snd M t) x \<and> tl (iter_alist s') = tl (iter_alist s)"
proof -
  define q where "q = (if t = mod_al_id s then (mod_alist s, s) else atr_get_raw D t A_LIST s)"
  obtain astr s1 where q: "q = (astr, s1)" by (metis prod.collapse)
  note k = layer_okD [OF l]
  have o: "obj_ok s t" using k(1) t by (simp add: attr_ok_def)
  have it: "iter_alist s \<noteq> []" using k(1) by (simp add: attr_ok_def)
  have 1: "layer_ok g N s1 M" "the_alist (s\<lparr>mod_alist := astr\<rparr>) = list_text s t" "iter_alist s1 = iter_alist s"
  proof -
    have "layer_ok g N s1 M \<and> the_alist (s\<lparr>mod_alist := astr\<rparr>) = list_text s t \<and> iter_alist s1 = iter_alist s"
    proof (cases "t = mod_al_id s")
      case True
      then show ?thesis using q l by (auto simp: q_def list_text_def the_alist_def)
    next
      case False
      then have v: "atr_get_raw D t A_LIST s = (astr, s1)" using q by (simp add: q_def)
      then show ?thesis using read_layer [OF l v] read_frame(3) [OF k(5) v] False
        by (simp add: list_text_def the_alist_def same_attrs_def)
    qed
    then show "layer_ok g N s1 M" "the_alist (s\<lparr>mod_alist := astr\<rparr>) = list_text s t" "iter_alist s1 = iter_alist s" by simp_all
  qed
  have lt: "the_alist (s\<lparr>mod_alist := astr\<rparr>) = al_text (snd M t)"
    using 1(2) obj_ok_nums(1) [OF o] k(3) t by (simp add: repr_def)
  have wf: "al_wf (snd M t)" using obj_ok_nums(2) [OF o] k(3) t by (simp add: repr_def)
  show ?thesis
  proof (cases astr)
    case None
    then have "snd M t = []" using lt [symmetric] by (simp add: the_alist_def)
    then show ?thesis using r None q 1 by (auto simp: atr_head_def q_def [symmetric] al_size_def atr_loop.simps)
  next
    case (Some a)
    then have a: "a = al_text (snd M t)" using lt by (simp add: the_alist_def)
    have s': "s' = s1\<lparr>iter_alist := (astr, al_extend (snd (hd (iter_alist s1))) (al_size astr)) # tl (iter_alist s1)\<rparr>"
        "head = atr_next (Some (al_text (snd M t)))"
      using r q by (auto simp: atr_head_def q_def [symmetric] al_size_def Some a Let_def)
    have "same_fields s1 s'" using it 1(3) by (simp add: same_fields_def s'(1))
    from layer_ok_same [OF this] have "layer_ok g N s' M" using 1(1) by simp
    moreover have "tl (iter_alist s') = tl (iter_alist s)" using 1(3) by (simp add: s'(1))
    ultimately show ?thesis unfolding s'(2) by (simp add: atr_loop_text [OF wf])
  qed
qed

lemma push_same: "layer_ok g N s M \<Longrightarrow> layer_ok g N (atr_push s) M"
proof -
  assume l: "layer_ok g N s M"
  then have "iter_alist s \<noteq> []" by (simp add: layer_ok_def attr_ok_def)
  then have "same_fields s (atr_push s)" by (simp add: same_fields_def atr_push_def)
  then show ?thesis using l by (simp add: layer_ok_same)
qed

lemma pop_same: "layer_ok g N s M \<Longrightarrow> layer_ok g N (atr_pop s) M"
proof -
  assume l: "layer_ok g N s M"
  then have "iter_alist s \<noteq> []" by (simp add: layer_ok_def attr_ok_def)
  moreover have "iter_alist (atr_pop s) \<noteq> []" by (simp add: atr_pop_def split: list.splits)
  ultimately have "same_fields s (atr_pop s)" by (simp add: same_fields_def) (simp add: atr_pop_def)
  then show ?thesis using l by (simp add: layer_ok_same)
qed

lemma fold_collect: "fold (\<lambda>attr (ns, s). (ns @ [attr], s)) xs (ys, s) = (ys @ xs, s)"
  by (induction xs arbitrary: ys) simp_all

lemma atr_walk_ok:
  assumes l: "layer_ok g N s M" and t: "in31 t" and r: "atr_walk D t s = (ns, s')"
  shows "layer_ok g N s' M \<and> ns = snd M t"
proof -
  obtain head s1 where h: "atr_head D t (atr_push s) = (head, s1)" by (metis prod.collapse)
  note hd = atr_head_ok [OF push_same [OF l] t h, where body = "\<lambda>attr (ns, s). (ns @ [attr], s)" and x = "([], s1)"]
  then have "ns = snd M t" "s' = atr_pop s1" using r by (simp_all add: atr_walk_def h fold_collect)
  then show ?thesis using hd pop_same by simp
qed

definition free_model :: "int \<Rightarrow> attr_model \<Rightarrow> attr_model" where
  "free_model t M = ((fst M)(t := (\<lambda>n. if n \<in> set (snd M t) then None else fst M t n)), (snd M)(t := []))"

lemma fold_clear: "fold (clear_model t) ns M =
    ((fst M)(t := (\<lambda>n. if n \<in> set ns then None else fst M t n)), (snd M)(t := fold remove1 ns (snd M t)))"
proof (induction ns arbitrary: M)
  case Nil
  then show ?case by (simp add: fun_upd_idem)
next
  case (Cons n ns)
  show ?case unfolding fold_Cons comp_def Cons.IH by (auto simp: clear_model_def fun_eq_iff)
qed

lemma fold_remove_all: "fold remove1 ns ns = []"
  by (induction ns) simp_all

lemma fold_clr_ok:
  assumes "layer_ok g N s M" "N < LIMIT" "in31 t" "\<forall>n\<in>set ns. num_ok n"
  shows "layer_ok g N (fold (\<lambda>attr. atr_clr D cf g t attr) ns s) (fold (clear_model t) ns M)"
  using assms(1,4)
proof (induction ns arbitrary: s M)
  case (Cons n ns)
  then show ?case using atr_clr_ok [OF Cons.prems(1) assms(2,3)] by simp
qed simp

lemma al_destroy_ok:
  assumes l: "layer_ok g N s M" and N: "N < LIMIT" and t: "in31 t" and e: "snd M t = []"
  shows "layer_ok g N (al_destroy D cf g t s) M"
proof -
  define s1 where "s1 = (if mod_al_id s = t then al_store D s else s)"
  define s2 where "s2 = s1\<lparr>ac := DELETE D (makekey t A_LIST) (ac s1)\<rparr>"
  define s3 where "s3 = al_destroy D cf g t s"
  note k = layer_okD [OF l]
  have "t \<noteq> NOTHING" using t by auto
  then have 1: "attr_ok N s1" "same_attrs s s1" "sized N s1" "mod_al_id s1 \<noteq> t"
    using al_store_ok [OF k(1,2) N] k by (auto simp: s1_def)
  have g1: "good (ac s1)" using 1(1) by (simp add: attr_ok_def)
  have a2: "ac s2 = DELETE D (makekey t A_LIST) (ac s1)" by (simp add: s2_def)
  note v = view_delete [OF g1 t in31_A_LIST a2]
  have nums1: "nums s1 t' = snd M t'" if "in31 t'" for t'
    using 1(2) k(3) that by (simp add: same_attrs_def nums_def repr_def)
  have o1: "obj_ok s1 t'" if "in31 t'" for t' using 1(1) that by (simp add: attr_ok_def)
  have lt: "list_text s2 t' = list_text s1 t'" if "in31 t'" for t'
  proof (cases "t' = t")
    case True
    have "list_text s1 t = []" using obj_ok_nums(1) [OF o1 [OF t]] nums1 [OF t] e by simp
    then show ?thesis using v t 1(4) True by (simp add: list_text_def s2_def)
  next
    case False
    then show ?thesis using v that by (simp add: list_text_def the_alist_def s2_def)
  qed
  have nv: "nvattr s1 t = 0" using obj_ok_nums(5) [OF o1 [OF t]] nums1 [OF t] e by simp
  have s3: "s3 = (if g_Good_obj g t then s2\<lparr>nvattr := (nvattr s1)(t := 0)\<rparr> else s2)"
    by (simp add: s3_def al_destroy_def s1_def [symmetric] s2_def [symmetric] Let_def) (simp add: s2_def)
  have "(nvattr s1)(t := 0) = nvattr s1" using nv by (simp add: fun_upd_idem)
  then have "s3 = s2" unfolding s3 by (simp add: s2_def)
  moreover have "nums s2 t' = snd M t'" if "in31 t'" for t' using lt [OF that] nums1 [OF that] by (simp add: nums_def)
  moreover have "attr_ok N s2"
  proof -
    have f: "good (ac s2)" "iter_alist s2 = iter_alist s1" "mod_al_id s2 = mod_al_id s1" "mod_alist s2 = mod_alist s1"
        "mod_size s2 = mod_size s1" "nvattr s2 = nvattr s1"
      using v by (simp_all add: s2_def)
    show ?thesis using 1(1) lt f by (simp add: attr_ok_def obj_ok_def nums_def)
  qed
  moreover have "sized N s2" by (rule sized_delete [OF 1(3) g1 a2])
  moreover have "reads_as g t' (fst M t' n') (stored s2 t' n')" if "in31 t'" "in31 n'" "n' \<noteq> A_LIST" for t' n'
  proof -
    have "stored s2 t' n' = stored s t' n'" using v 1(2) that by (simp add: same_attrs_def)
    then show ?thesis using k(3) that by (simp add: repr_def)
  qed
  moreover have "\<not> new_vattr (vattrs s2)" using k(4) 1(2) by (simp add: s2_def same_attrs_def)
  ultimately show ?thesis unfolding s3_def [symmetric] by (simp add: layer_ok_def repr_def)
qed

lemma atr_free_ok:
  assumes l: "layer_ok g N s M" and N: "N < LIMIT" and t: "in31 t"
  shows "layer_ok g N (atr_free D cf g t s) (free_model t M)"
proof -
  obtain head s1 where h: "atr_head D t (atr_push s) = (head, s1)" by (metis prod.collapse)
  note hd = atr_head_ok [OF push_same [OF l] t h, where body = "\<lambda>attr. atr_clr D cf g t attr" and x = s1]
  note k = layer_okD [OF l]
  have o: "obj_ok s t" using k(1) t by (simp add: attr_ok_def)
  have m: "nums s t = snd M t" using k(3) t by (simp add: repr_def)
  have "\<forall>n\<in>set (snd M t). num_ok n"
    using obj_ok_nums(2,4) [OF o] by (auto simp: m num_ok_def al_wf_def in31_def)
  then have "layer_ok g N (fold (\<lambda>attr. atr_clr D cf g t attr) (snd M t) s1) (free_model t M)"
    using fold_clr_ok [of g N s1 M t "snd M t" cf] hd N t by (simp add: fold_clear free_model_def fold_remove_all)
  then have "layer_ok g N (atr_pop (atr_loop (\<lambda>attr. atr_clr D cf g t attr) head s1)) (free_model t M)"
    using hd pop_same by simp
  then show ?thesis using al_destroy_ok [OF _ N t, of g _ "free_model t M" cf] by (simp add: atr_free_def h free_model_def)
qed

subsection \<open>Sequences of operations\<close>

lemma atr_step_refines:
  assumes l: "layer_ok g N s M" and N: "N + 4 < LIMIT" and o: "atr_op_ok g x" and r: "atr_step D cf g x s = (res, s')"
  shows "\<exists>M'. model_step cf g x M = (res, M') \<and> layer_ok g (N + 4) s' M'"
proof -
  have up: "layer_ok g N s' M' \<Longrightarrow> layer_ok g (N + 4) s' M'" for M' by (rule layer_ok_mono, assumption) simp
  have N': "N < LIMIT" using N by simp
  show ?thesis
  proof (cases x)
    case (Put_attr stamp t n b own fl)
    then show ?thesis using atr_add_ok [OF l N, of stamp t n b own fl cf] o r by (auto simp: Let_def)
  next
    case (Clear_attr t n)
    then show ?thesis using atr_clr_ok [OF l N', of t n cf] o r up by auto
  next
    case (Get_attr t n)
    then obtain b own fl where g: "atr_get D g t n s = ((b, own, fl), s')" "res = Text b own fl"
      using r by (auto split: prod.splits)
    then show ?thesis using atr_get_ok [OF l _ _ g(1)] o Get_attr up by (auto split: option.splits)
  next
    case (Walk_attrs t)
    then obtain ns where w: "atr_walk D t s = (ns, s')" "res = Numbers ns" using r by (auto split: prod.splits)
    then show ?thesis using atr_walk_ok [OF l _ w(1)] o Walk_attrs up by auto
  next
    case (Free_attrs t)
    then show ?thesis using atr_free_ok [OF l N', of t cf] o r up by (auto simp: free_model_def)
  qed
qed

lemma atr_run_refines:
  assumes "layer_ok g N s M" "N + 4 * length xs < LIMIT" "list_all (atr_op_ok g) xs"
    "run_ops (atr_step D cf g) xs s = (rs, s')"
  shows "\<exists>M'. run_ops (model_step cf g) xs M = (rs, M') \<and> layer_ok g (N + 4 * length xs) s' M'"
  using assms
proof (induction xs arbitrary: N s M rs s')
  case (Cons x xs)
  obtain r1 s1 where s1: "atr_step D cf g x s = (r1, s1)" by (metis prod.collapse)
  obtain rs2 s2 where s2: "run_ops (atr_step D cf g) xs s1 = (rs2, s2)" by (metis prod.collapse)
  obtain M1 where M1: "model_step cf g x M = (r1, M1)" "layer_ok g (N + 4) s1 M1"
    using atr_step_refines [OF Cons.prems(1) _ _ s1] Cons.prems(2,3) by auto
  have "N + 4 + 4 * length xs < LIMIT" "list_all (atr_op_ok g) xs" using Cons.prems(2,3) by simp_all
  from Cons.IH [OF M1(2) this s2] obtain M2 where
    "run_ops (model_step cf g) xs M1 = (rs2, M2)" "layer_ok g (N + 4 + 4 * length xs) s2 M2" by blast
  moreover have "N + 4 + 4 * length xs = N + 4 * length (x # xs)" by simp
  ultimately show ?case using M1(1) Cons.prems(4) s1 s2 by (auto simp del: length_Cons)
qed simp

end

subsection \<open>On the object cache\<close>

definition cached :: "(ocache \<times> store) acache" where
  "cached = \<lparr>FETCH = \<lambda>nam (c, s). cache_get dddb (Some nam) c s,
     STORE = \<lambda>nam v (c, s). snd (cache_put dddb (Some nam) (Some v) c s),
     DELETE = \<lambda>nam (c, s). cache_del dddb (Some nam) c s\<rparr>"

fun cached_good :: "ocache \<times> store \<Rightarrow> bool" where
  "cached_good (c, s) \<longleftrightarrow> cache_good c s \<and> chunk_faultless s"

fun cached_view :: "ocache \<times> store \<Rightarrow> Objname \<Rightarrow> 32 word \<Rightarrow> string option" where
  "cached_view (c, s) = cview c (chunk_contents s)"

interpretation db: attr_cache cached cached_good cached_view
proof unfold_locales
  fix x :: "ocache \<times> store" and k :: Aname and w x'
  assume "cached_good x" "FETCH cached k x = (w, x')"
  then show "w = cached_view x (object k) (anum k) \<and> cached_good x' \<and> cached_view x' = cached_view x"
    using chunk.cache_get_ok [of "fst x" "snd x" k w "fst x'" "snd x'"]
    by (cases x; cases x') (simp add: cached_def cache_good_chunk)
next
  fix x :: "ocache \<times> store" and v :: string and k :: Aname
  assume "cached_good x" "int (length v) + 1 < 2 ^ 31" "few (cached_view x (object k))"
  moreover obtain c s where x: "x = (c, s)" by (cases x)
  moreover obtain rc c' s' where p: "cache_put dddb (Some k) (Some v) c s = (rc, c', s')" by (metis prod.collapse)
  ultimately show "cached_good (STORE cached k v x) \<and>
      cached_view (STORE cached k v x) = (cached_view x)(object k := (cached_view x (object k))(anum k \<mapsto> v @ [NUL]))"
    using chunk.cache_put_ok [OF _ _ p] by (simp add: cached_def cache_good_chunk)
next
  fix x :: "ocache \<times> store" and k :: Aname
  assume "cached_good x"
  moreover obtain c s where x: "x = (c, s)" by (cases x)
  moreover obtain c' s' where p: "cache_del dddb (Some k) c s = (c', s')" by (metis prod.collapse)
  ultimately show "cached_good (DELETE cached k x) \<and>
      cached_view (DELETE cached k x) = (cached_view x)(object k := (cached_view x (object k))(anum k := None))"
    using chunk.cache_del_ok [OF _ _ p] by (simp add: cached_def cache_good_chunk)
qed

text \<open>The state of the layer at the start, with no object in the database.\<close>

definition attrs_start :: "(ocache \<times> store) attr_state" where
  "attrs_start = \<lparr>ac = (start_cache, fresh_store), mod_alist = None, mod_size = 0, mod_al_id = NOTHING,
     iter_alist = [(None, 0)], nvattr = (\<lambda>_. 0), Flags = (\<lambda>_. 0), Flags2 = (\<lambda>_. 0), Flags4 = (\<lambda>_. 0),
     vlplay = NOTHING, vattrs = fresh_vattr, reloads = []\<rparr>"

lemma attrs_start_ok: "db.layer_ok g 0 attrs_start (\<lambda>_. Map.empty, \<lambda>_. [])"
proof -
  have v: "cached_view (ac attrs_start) = (\<lambda>_. Map.empty)" and "cached_good (ac attrs_start)"
    by (simp_all add: attrs_start_def start_cache_ok fresh_store_ok(2))
  moreover have st: "db.stored attrs_start t n = None" for t n by (simp add: db.stored_def v)
  moreover have lt: "db.list_text attrs_start t = []" for t
    by (simp add: db.list_text_def st) (simp add: the_alist_def attrs_start_def)
  moreover have "db.obj_ok attrs_start t \<and> db.nums attrs_start t = []" for t
    by (rule db.obj_okI) (simp_all add: lt attrs_start_def [THEN arg_cong, of nvattr])
  ultimately show ?thesis
    by (simp add: db.layer_ok_def db.attr_ok_def db.sized_def db.repr_def reads_as_def)
      (simp add: attrs_start_def fresh_vattr_def vattr_init_def)
qed

subsection \<open>Properties\<close>

definition no_attrs :: attr_model where
  "no_attrs = (\<lambda>_. Map.empty, \<lambda>_. [])"

text \<open>
  C3: from an empty database, over the real object cache and the chunk store, up to a hundred
  million calls that set attributes (with or without a time stamp), clear them, read them, walk
  over them and free all attributes of an object return exactly what a map from attributes to
  texts with owners and flags, with a list of numbers for each object, returns; and the count
  \<open>nvattr\<close> of an object is the number of user attributes on its list. The encoding of owners
  and flags, the coded lists, the one list held in memory and the cache never show.
\<close>

theorem object_attributes_are_map:
  assumes "list_all (atr_op_ok g) xs" "length xs < 100000000"
    "run_ops (atr_step cached cf g) xs attrs_start = (rs, s')"
  shows "\<exists>M'. run_ops (model_step cf g) xs no_attrs = (rs, M') \<and>
    (\<forall>t. in31 t \<longrightarrow> nvattr s' t = int (length (filter (\<lambda>n. n \<ge> A_USER_START) (snd M' t))))"
proof -
  have "0 + 4 * length xs < LIMIT" using assms(2) by (simp add: LIMIT_def)
  from db.atr_run_refines [OF attrs_start_ok this assms(1,3)] obtain M' where
    M': "run_ops (model_step cf g) xs no_attrs = (rs, M')" "db.layer_ok g (0 + 4 * length xs) s' M'"
    unfolding no_attrs_def by blast
  have "nvattr s' t = int (length (filter (\<lambda>n. n \<ge> A_USER_START) (snd M' t)))" if "in31 t" for t
    using db.layer_okD(1,3) [OF M'(2)] that db.obj_ok_nums(5) by (fastforce simp: db.attr_ok_def db.repr_def)
  then show ?thesis using M'(1) by blast
qed

definition sample_db :: gamedb where
  "sample_db = \<lparr>g_Owner = (\<lambda>_. 1), g_Good_obj = (\<lambda>x. 0 \<le> x \<and> x < 10), g_isPlayer = (\<lambda>x. x = 1), g_Wizard = (\<lambda>_. False)\<rparr>"

definition sample_conf :: attr_conf where
  "sample_conf = \<lparr>vlimit = 1, vattr_limit_checkwiz = False, wizmax_vattr_limit = -1, max_vattr_limit = -1\<rparr>"

lemma sample_put_ok: "put_ok ''hi'' 7 4" "put_ok ''yo'' 1 0" "put_ok ''over'' 7 4"
  by code_simp+

theorem object_attributes_are_map_witness:
  "fst (run_ops (atr_step cached sample_conf sample_db)
     [Put_attr None 5 300 ''hi'' 7 4, Put_attr None 5 6 ''yo'' 1 0, Walk_attrs 5, Get_attr 5 300, Get_attr 5 6,
      Clear_attr 5 300, Walk_attrs 5, Get_attr 5 300] attrs_start) =
   [Changed, Changed, Numbers [300, 6], Text ''hi'' 7 4, Text ''yo'' 1 0, Changed, Numbers [6], Text [] 1 0]"
proof -
  let ?xs = "[Put_attr None 5 300 ''hi'' 7 4, Put_attr None 5 6 ''yo'' 1 0, Walk_attrs 5, Get_attr 5 300, Get_attr 5 6,
      Clear_attr 5 300, Walk_attrs 5, Get_attr 5 300]"
  obtain rs s' where r: "run_ops (atr_step cached sample_conf sample_db) ?xs attrs_start = (rs, s')" by (metis prod.collapse)
  have ok: "list_all (atr_op_ok sample_db) ?xs" using sample_put_ok by (simp add: num_ok_def in31_def A_LIST_def)
  from object_attributes_are_map [OF ok _ r] obtain M' where "run_ops (model_step sample_conf sample_db) ?xs no_attrs = (rs, M')"
    by auto
  then show ?thesis unfolding r
    by (auto simp: no_attrs_def put_model_def clear_model_def add_number_def stamp_model_def sample_conf_def sample_db_def
      A_USER_START_def)
qed

text \<open>
  C37: a user attribute that is set on an object that has reached \<open>vlimit\<close> is stored all the
  same, only without being listed; no walk shows it, and \<open>atr_free\<close>, which destroys an
  object's attributes by walking over them, leaves it, so that it is there to be read on the
  next object with that number.
\<close>

theorem unlisted_attribute_survives_free:
  assumes xs: "list_all (atr_op_ok g) xs" "length xs < 99999990" "run_ops (atr_step cached cf g) xs attrs_start = (rs, s)"
    and full: "n \<ge> A_USER_START" "nvattr s t \<ge> vlimit cf" "n \<notin> set (fst (atr_walk cached t s))"
    and put: "atr_op_ok g (Put_attr None t n txt own fl)" "txt \<noteq> []"
  shows "fst (run_ops (atr_step cached cf g) [Put_attr None t n txt own fl, Walk_attrs t, Free_attrs t, Get_attr t n] s) =
    [Changed, Numbers (fst (atr_walk cached t s)), Changed, Text txt (if own = NOTHING then g_Owner g t else own) fl]"
proof -
  let ?ys = "[Put_attr None t n txt own fl, Walk_attrs t, Free_attrs t, Get_attr t n]"
  have "0 + 4 * length xs < LIMIT" using xs(2) by (simp add: LIMIT_def)
  from db.atr_run_refines [OF attrs_start_ok this xs(1,3)] obtain M where
    M: "db.layer_ok g (0 + 4 * length xs) s M" by blast
  obtain rs' s' where r: "run_ops (atr_step cached cf g) ?ys s = (rs', s')" by (metis prod.collapse)
  have t: "in31 t" "num_ok n" using put by simp_all
  have "list_all (atr_op_ok g) ?ys" "0 + 4 * length xs + 4 * length ?ys < LIMIT"
    using put xs(2) by (simp_all add: LIMIT_def)
  from db.atr_run_refines [OF M this(2,1) r] obtain M' where M': "run_ops (model_step cf g) ?ys M = (rs', M')" by blast
  obtain ns s2 where w: "atr_walk cached t s = (ns, s2)" by (metis prod.collapse)
  have ns: "ns = snd M t" using db.atr_walk_ok [OF M t(1) w] by simp
  have "nvattr s t = int (length (filter (\<lambda>n. n \<ge> A_USER_START) ns))"
    using db.layer_okD(1,3) [OF M] t(1) db.obj_ok_nums(5) ns by (fastforce simp: db.attr_ok_def db.repr_def)
  then have add: "add_number cf n ns = ns" using full by (simp add: add_number_def)
  have "n \<notin> set ns" using full(3) w by simp
  then have "rs' = [Changed, Numbers ns, Changed, Text txt (if own = NOTHING then g_Owner g t else own) fl]"
    using M' add put(2) by (auto simp: ns put_model_def stamp_model_def Let_def)
  then show ?thesis unfolding r w fst_conv .
qed

theorem unlisted_attribute_survives_free_witness:
  "fst (run_ops (atr_step cached sample_conf sample_db)
     [Put_attr None 5 301 ''over'' 7 4, Walk_attrs 5, Free_attrs 5, Get_attr 5 301]
     (snd (run_ops (atr_step cached sample_conf sample_db) [Put_attr None 5 300 ''hi'' 7 4] attrs_start))) =
   [Changed, Numbers [300], Changed, Text ''over'' 7 4]"
proof -
  let ?xs = "[Put_attr None 5 300 ''hi'' 7 4]"
  obtain rs s where r: "run_ops (atr_step cached sample_conf sample_db) ?xs attrs_start = (rs, s)" by (metis prod.collapse)
  have ok: "list_all (atr_op_ok sample_db) ?xs" using sample_put_ok by (simp add: num_ok_def in31_def A_LIST_def)
  have "0 + 4 * length ?xs < LIMIT" by (simp add: LIMIT_def)
  from db.atr_run_refines [OF attrs_start_ok this ok r] obtain M where
    M: "run_ops (model_step sample_conf sample_db) ?xs no_attrs = (rs, M)" "db.layer_ok sample_db (0 + 4 * length ?xs) s M"
    unfolding no_attrs_def by blast
  have m: "snd M 5 = [300]"
    using M(1) by (auto simp: no_attrs_def put_model_def add_number_def stamp_model_def sample_conf_def A_USER_START_def)
  have t: "in31 5" by (simp add: in31_def)
  obtain ns s2 where w: "atr_walk cached 5 s = (ns, s2)" by (metis prod.collapse)
  have ns: "ns = [300]" using db.atr_walk_ok [OF M(2) t w] m by simp
  have "nvattr s 5 = int (length (filter (\<lambda>n. n \<ge> A_USER_START) (snd M 5)))"
    using db.layer_okD(1,3) [OF M(2)] t db.obj_ok_nums(5) by (fastforce simp: db.attr_ok_def db.repr_def)
  then have "vlimit sample_conf \<le> nvattr s 5" using m by (simp add: A_USER_START_def sample_conf_def)
  moreover have "atr_op_ok sample_db (Put_attr None 5 301 ''over'' 7 4)"
    using sample_put_ok(3) by (simp add: num_ok_def in31_def A_LIST_def)
  ultimately show ?thesis
    using unlisted_attribute_survives_free [OF ok _ r, of 301 5 "''over''" 7 4] w ns r by (simp add: A_USER_START_def)
qed

end
