(* ===== verification/Parse_to.thy ===== *)
theory Parse_to
  imports Prelude
begin

section \<open>Splitting lines (src/Server/src/eval.c)\<close>

text \<open>
  The scanner \<open>parse_to\<close> that finds the end of a command or of an argument behind escapes and
  nested brackets, and \<open>parse_arglist\<close>, which splits the arguments of a function.

  The code works in place, with a pointer \<open>cstr\<close> that reads and a pointer \<open>zstr\<close> that writes and
  is never ahead of it. The model keeps the text between \<open>rstr\<close> and \<open>zstr\<close> as \<open>out\<close>, the text from
  \<open>cstr\<close> on, and \<open>cstr[-1]\<close> as \<open>prev\<close>. For an empty text \<open>parse_to_cleanup\<close> looks at the byte in
  front of it, the end of the previous piece; the model takes it not to be a closing brace.
  Lines have no NUL inside.
\<close>

unbundle bit_operations_syntax

subsection \<open>Flags\<close>

definition EV_FCHECK :: int where "EV_FCHECK = 0x200"
definition EV_STRIP :: int where "EV_STRIP = 0x400"
definition EV_EVAL :: int where "EV_EVAL = 0x800"
definition EV_STRIP_TS :: int where "EV_STRIP_TS = 0x1000"
definition EV_STRIP_LS :: int where "EV_STRIP_LS = 0x2000"
definition EV_STRIP_ESC :: int where "EV_STRIP_ESC = 0x4000"
definition EV_STRIP_AROUND :: int where "EV_STRIP_AROUND = 0x8000"
definition EV_TOP :: int where "EV_TOP = 0x10000"
definition EV_NOTRACE :: int where "EV_NOTRACE = 0x20000"

definition ev :: "int \<Rightarrow> int \<Rightarrow> bool" where
  "ev eval flag \<longleftrightarrow> eval AND flag \<noteq> 0"

definition stacklim :: nat where
  "stacklim = 32"

subsection \<open>One piece\<close>

definition parse_to_cleanup :: "bool \<Rightarrow> int \<Rightarrow> bool \<Rightarrow> char \<Rightarrow> string \<Rightarrow> string" where
  "parse_to_cleanup space_compress eval first prev out =
     (let out1 = (if (space_compress \<or> ev eval EV_STRIP_TS) \<and> \<not> first \<and> prev = CHR '' '' then butlast out else out)
      in if ev eval EV_STRIP_AROUND \<and> out1 \<noteq> [] \<and> hd out1 = CHR ''{'' \<and> last out1 = CHR ''}'' then
           let r = tl out1;
               r = (if space_compress \<or> ev eval EV_STRIP_LS then dropWhile is_space r else r);
               z = butlast r
           in if space_compress \<or> ev eval EV_STRIP_TS then rev (dropWhile is_space (rev z)) else z
         else out1)"

text \<open>
  The loop over the inside of braces, which stops in front of the closing one (with level 0)
  or at the end of the line.
\<close>

fun brace_loop :: "bool \<Rightarrow> nat \<Rightarrow> string \<Rightarrow> char \<Rightarrow> string \<Rightarrow> nat \<times> string \<times> char \<times> string" where
  "brace_loop strip_esc lev [] prev out = (lev, [], prev, out)"
| "brace_loop strip_esc lev (c # s) prev out =
     (if c = CHR 0x5C \<or> c = CHR ''%'' then
        (case s of
           [] \<Rightarrow> (lev, [], c, out @ [c])
         | d # t \<Rightarrow> brace_loop strip_esc lev t d (if c = CHR 0x5C \<and> strip_esc then out @ [d] else out @ [c, d]))
      else if c = CHR ''{'' then brace_loop strip_esc (Suc lev) s c (out @ [c])
      else if c = CHR ''}'' then
        (if lev \<le> 1 then (0, c # s, prev, out) else brace_loop strip_esc (lev - 1) s c (out @ [c]))
      else brace_loop strip_esc lev s c (out @ [c]))"

lemma brace_loop_rest: "brace_loop se lev s prev out = (lev', s', prev', out') \<Longrightarrow> length s' \<le> length s"
proof (induction se lev s prev out rule: brace_loop.induct)
  case (2 se lev c s prev out)
  show ?case
  proof (cases "c = CHR 0x5C \<or> c = CHR ''%''")
    case True
    then show ?thesis using "2.prems" "2.IH"(1) by (cases s) fastforce+
  next
    case False
    then show ?thesis using "2.prems" "2.IH"(2-4) by (auto split: if_splits dest: le_SucI)
  qed
qed simp

text \<open>The stack of closing brackets, the innermost first; \<open>unwind\<close> pops up to the given one.\<close>

definition unwind :: "char \<Rightarrow> string \<Rightarrow> string option" where
  "unwind c stack = (case dropWhile (\<lambda>d. d \<noteq> c) stack of [] \<Rightarrow> None | _ # st \<Rightarrow> Some st)"

definition push :: "char \<Rightarrow> string \<Rightarrow> string" where
  "push c stack = (if length stack < stacklim then c # stack else stack)"

text \<open>The loop of \<open>parse_to\<close>: the piece and what follows the delimiter, if there is one.\<close>

function parse_loop ::
  "bool \<Rightarrow> int \<Rightarrow> char \<Rightarrow> string \<Rightarrow> char \<Rightarrow> string \<Rightarrow> string \<Rightarrow> bool \<Rightarrow> string \<times> string option" where
  "parse_loop sc eval delim [] prev out stack first = (parse_to_cleanup sc eval first prev out, None)"
| "parse_loop sc eval delim (c # s) prev out stack first =
     (if c = CHR 0x5C \<or> c = CHR ''%'' then
        let out1 = (if c = CHR 0x5C \<and> ev eval EV_STRIP_ESC then out else out @ [c])
        in (case s of
              [] \<Rightarrow> parse_loop sc eval delim [] c out1 stack False
            | d # t \<Rightarrow> parse_loop sc eval delim t d (out1 @ [d]) stack False)
      else if c = CHR '']'' \<or> c = CHR '')'' then
        (case unwind c stack of
           Some stack1 \<Rightarrow> parse_loop sc eval delim s c (out @ [c]) stack1 False
         | None \<Rightarrow>
             if c = delim then (parse_to_cleanup sc eval first prev out, Some s)
             else parse_loop sc eval delim s c (out @ [c]) stack False)
      else if c = CHR ''{'' then
        let (lev, t, prev1, out1) =
              brace_loop (ev eval EV_STRIP_ESC) 1 s c (if ev eval EV_STRIP then out else out @ [c])
        in if lev = 0 then
             parse_loop sc eval delim (tl t) (CHR ''}'') (if ev eval EV_STRIP then out1 else out1 @ [CHR ''}'']) stack False
           else parse_loop sc eval delim [] prev1 out1 stack False
      else if c = delim \<and> stack = [] then (parse_to_cleanup sc eval first prev out, Some s)
      else if c = CHR '' '' then
        parse_loop sc eval delim s c
          (if sc \<and> first then out
           else if sc \<and> prev = CHR '' '' then butlast out @ [c] else out @ [c]) stack first
      else parse_loop sc eval delim s c (out @ [c])
        (if c = CHR ''['' then push (CHR '']'') stack else if c = CHR ''('' then push (CHR '')'') stack else stack) False)"
  by pat_completeness auto
termination parse_loop
  by (relation "measure (\<lambda>(sc, eval, delim, s, _). length s)") (auto dest!: brace_loop_rest [OF sym])

declare parse_loop.simps(2) [simp del]

definition parse_to :: "bool \<Rightarrow> string option \<Rightarrow> char \<Rightarrow> int \<Rightarrow> string option \<times> string option" where
  "parse_to space_compress dstr delim eval =
     (case dstr of
        None \<Rightarrow> (None, None)
      | Some [] \<Rightarrow> (Some [], None)
      | Some s \<Rightarrow>
          (case parse_loop space_compress eval delim
                  (if space_compress \<or> ev eval EV_STRIP_LS then dropWhile is_space s else s) NUL [] [] True of
             (rstr, d) \<Rightarrow> (Some rstr, d)))"

subsection \<open>Lists of arguments\<close>

text \<open>
  The first \<open>k\<close> arguments. \<open>ex\<close> is the evaluator \<open>exec\<close> with the objects it runs for.
\<close>

fun split_args ::
  "bool \<Rightarrow> (int \<Rightarrow> string \<Rightarrow> 's \<Rightarrow> string \<times> 's) \<Rightarrow> int \<Rightarrow> int \<Rightarrow> nat \<Rightarrow> string option \<Rightarrow> 's \<Rightarrow> string list \<times> 's" where
  "split_args sc ex eval peval 0 rstr s = ([], s)"
| "split_args sc ex eval peval (Suc k) rstr s =
     (case parse_to sc rstr (if k > 0 then CHR '','' else NUL) peval of
        (None, _) \<Rightarrow> ([], s)
      | (Some tstr, rstr1) \<Rightarrow>
          let (a, s1) = (if ev eval EV_EVAL then ex (eval OR EV_FCHECK) tstr s else (tstr, s));
              (as, s2) = split_args sc ex eval peval k rstr1 s1
          in (a # as, s2))"

definition parse_arglist ::
  "bool \<Rightarrow> (int \<Rightarrow> string \<Rightarrow> 's \<Rightarrow> string \<times> 's) \<Rightarrow> string option \<Rightarrow> char \<Rightarrow> int \<Rightarrow> nat \<Rightarrow> 's \<Rightarrow>
   string option \<times> string option list \<times> 's" where
  "parse_arglist sc ex dstr delim eval nfargs s =
     (case dstr of
        None \<Rightarrow> (None, replicate nfargs None, s)
      | Some _ \<Rightarrow>
          (case parse_to sc dstr delim 0 of
             (rstr, d) \<Rightarrow>
               let peval = (if ev eval EV_EVAL then eval AND (EV_STRIP_LS OR EV_STRIP_TS OR EV_STRIP_ESC OR EV_TOP OR EV_NOTRACE)
                            else eval);
                   (as, s1) = split_args sc ex eval peval nfargs rstr s
               in (d, map Some as @ replicate (nfargs - length as) None, s1)))"

end
