(* ===== verification/Parse_to_Laws.thy ===== *)
theory Parse_to_Laws
  imports Parse_to "HOL-Library.Sublist"
begin

section \<open>Splitting lines: laws\<close>

text \<open>
  The shape of a line is given by a grammar of its own: plain characters, escaped characters,
  groups in parentheses or square brackets, and braces, inside which only escapes and braces
  count. \<open>parse_to\<close> and \<open>parse_arglist\<close> split a text of this grammar at the delimiters outside
  of all groups.
\<close>

subsection \<open>Texts with balanced brackets\<close>

datatype inner = IPlain char | IEsc char char | IBrace "inner list"

datatype piece = WPlain char | WEsc char char | WParen "piece list" | WSquare "piece list" | WBrace "inner list"

fun inner_text :: "inner \<Rightarrow> string" where
  "inner_text (IPlain c) = [c]"
| "inner_text (IEsc e c) = [e, c]"
| "inner_text (IBrace bs) = CHR ''{'' # concat (map inner_text bs) @ [CHR ''}'']"

fun word_text :: "piece \<Rightarrow> string" where
  "word_text (WPlain c) = [c]"
| "word_text (WEsc e c) = [e, c]"
| "word_text (WParen ws) = CHR ''('' # concat (map word_text ws) @ [CHR '')'']"
| "word_text (WSquare ws) = CHR ''['' # concat (map word_text ws) @ [CHR '']'']"
| "word_text (WBrace bs) = CHR ''{'' # concat (map inner_text bs) @ [CHR ''}'']"

definition words_text :: "piece list \<Rightarrow> string" where
  "words_text ws = concat (map word_text ws)"

fun piece_depth :: "piece \<Rightarrow> nat" where
  "piece_depth (WParen ws) = Suc (fold max (map piece_depth ws) 0)"
| "piece_depth (WSquare ws) = Suc (fold max (map piece_depth ws) 0)"
| "piece_depth w = 0"

definition words_depth :: "piece list \<Rightarrow> nat" where
  "words_depth ws = fold max (map piece_depth ws) 0"

definition escape :: "char \<Rightarrow> bool" where
  "escape c \<longleftrightarrow> c = CHR 0x5C \<or> c = CHR ''%''"

fun inner_ok :: "inner \<Rightarrow> bool" where
  "inner_ok (IPlain c) \<longleftrightarrow> \<not> escape c \<and> c \<notin> set [NUL, CHR ''{'', CHR ''}'']"
| "inner_ok (IEsc e c) \<longleftrightarrow> escape e \<and> c \<noteq> NUL"
| "inner_ok (IBrace bs) \<longleftrightarrow> list_all inner_ok bs"

text \<open>
  With the compression of spaces, a space may only stand inside braces. \<open>delims\<close> are the
  characters that may not stand outside of the groups.
\<close>

fun word_ok :: "bool \<Rightarrow> string \<Rightarrow> piece \<Rightarrow> bool" where
  "word_ok sc delims (WPlain c) \<longleftrightarrow>
     \<not> escape c \<and> c \<notin> set (NUL # ''{[]()'') \<and> c \<notin> set delims \<and> \<not> (sc \<and> is_space c)"
| "word_ok sc delims (WEsc e c) \<longleftrightarrow> escape e \<and> c \<noteq> NUL \<and> \<not> (sc \<and> is_space c)"
| "word_ok sc delims (WParen ws) \<longleftrightarrow> list_all (word_ok sc []) ws"
| "word_ok sc delims (WSquare ws) \<longleftrightarrow> list_all (word_ok sc []) ws"
| "word_ok sc delims (WBrace bs) \<longleftrightarrow> list_all inner_ok bs"

lemma words_text_simps [simp]:
  "words_text [] = []" "words_text (w # ws) = word_text w @ words_text ws" "words_text (vs @ ws) = words_text vs @ words_text ws"
  by (simp_all add: words_text_def)

lemma fold_max: "fold max xs (k :: nat) = max k (fold max xs 0)"
proof (induction xs arbitrary: k)
  case (Cons x xs)
  show ?case using Cons.IH [of "max x k"] Cons.IH [of x] by simp
qed simp

lemma words_depth_simps [simp]: "words_depth [] = 0" "words_depth (w # ws) = max (piece_depth w) (words_depth ws)"
  using fold_max [of "map piece_depth ws" "piece_depth w"] by (simp_all add: words_depth_def)

lemma depth_group [simp]: "piece_depth (WParen ws) = Suc (words_depth ws)" "piece_depth (WSquare ws) = Suc (words_depth ws)"
  by (simp_all add: words_depth_def)

declare piece_depth.simps(1,2) [simp del]

lemma group_text [simp]:
  "word_text (WParen ws) = CHR ''('' # words_text ws @ [CHR '')'']"
  "word_text (WSquare ws) = CHR ''['' # words_text ws @ [CHR '']'']"
  by (simp_all add: words_text_def)

declare word_text.simps(3,4) [simp del]

subsection \<open>Braces\<close>

lemma brace_loop_inner:
  "inner_ok i \<Longrightarrow> 0 < lev \<Longrightarrow> \<exists>p. brace_loop False lev (inner_text i @ s) prev out = brace_loop False lev s p (out @ inner_text i)"
proof (induction i arbitrary: lev s prev out)
  case (IPlain c)
  then show ?case by (auto simp: escape_def)
next
  case (IEsc e c)
  then show ?case by (auto simp: escape_def)
next
  case (IBrace bs)
  have go: "\<exists>p. brace_loop False lev (concat (map inner_text js) @ s) prev out =
      brace_loop False lev s p (out @ concat (map inner_text js))"
    if sub: "set js \<subseteq> set bs" and lv: "0 < lev" for js lev s prev out
    using sub
  proof (induction js arbitrary: prev out)
    case (Cons j js)
    have j: "j \<in> set bs" "inner_ok j" using Cons.prems IBrace.prems(1) by (auto simp: list_all_iff)
    obtain p where "brace_loop False lev (inner_text j @ concat (map inner_text js) @ s) prev out =
        brace_loop False lev (concat (map inner_text js) @ s) p (out @ inner_text j)"
      using IBrace.IH [OF j lv] by blast
    moreover have "set js \<subseteq> set bs" using Cons.prems by simp
    then obtain q where "brace_loop False lev (concat (map inner_text js) @ s) p (out @ inner_text j) =
        brace_loop False lev s q ((out @ inner_text j) @ concat (map inner_text js))"
      using Cons.IH by blast
    ultimately show ?case by auto
  qed auto
  obtain p where p: "brace_loop False (Suc lev) (concat (map inner_text bs) @ CHR ''}'' # s) (CHR ''{'') (out @ [CHR ''{'']) =
      brace_loop False (Suc lev) (CHR ''}'' # s) p ((out @ [CHR ''{'']) @ concat (map inner_text bs))"
    using go [of "bs" "Suc lev" "CHR ''}'' # s" "CHR ''{''" "out @ [CHR ''{'']"] by auto
  then show ?case using IBrace.prems(2) by (auto intro!: exI [of _ "CHR ''}''"])
qed

lemma brace_loop_inners:
  "list_all inner_ok bs \<Longrightarrow> 0 < lev \<Longrightarrow>
    \<exists>p. brace_loop False lev (concat (map inner_text bs) @ s) prev out = brace_loop False lev s p (out @ concat (map inner_text bs))"
proof (induction "bs" arbitrary: prev out)
  case (Cons i "bs")
  obtain p where "brace_loop False lev (inner_text i @ concat (map inner_text bs) @ s) prev out =
      brace_loop False lev (concat (map inner_text bs) @ s) p (out @ inner_text i)"
    using brace_loop_inner [of i lev "concat (map inner_text bs) @ s" prev out] Cons.prems by auto
  moreover obtain q where "brace_loop False lev (concat (map inner_text bs) @ s) p (out @ inner_text i) =
      brace_loop False lev s q ((out @ inner_text i) @ concat (map inner_text bs))"
    using Cons.IH [of p "out @ inner_text i"] Cons.prems by auto
  ultimately show ?case by auto
qed auto

lemma parse_loop_brace:
  assumes "list_all inner_ok bs" "\<not> ev eval EV_STRIP" "\<not> ev eval EV_STRIP_ESC"
  shows "parse_loop sc eval delim (word_text (WBrace bs) @ s) prev out stack first =
    parse_loop sc eval delim s (CHR ''}'') (out @ word_text (WBrace bs)) stack False"
proof -
  obtain p where "brace_loop False 1 (concat (map inner_text bs) @ CHR ''}'' # s) (CHR ''{'') (out @ [CHR ''{'']) =
      brace_loop False 1 (CHR ''}'' # s) p ((out @ [CHR ''{'']) @ concat (map inner_text bs))"
    using brace_loop_inners [OF assms(1), of 1 "CHR ''}'' # s" "CHR ''{''" "out @ [CHR ''{'']"] by auto
  then have "brace_loop False 1 (concat (map inner_text bs) @ CHR ''}'' # s) (CHR ''{'') (out @ [CHR ''{'']) =
      (0, CHR ''}'' # s, p, (out @ [CHR ''{'']) @ concat (map inner_text bs))"
    by simp
  then show ?thesis using assms(2,3) by (simp add: parse_loop.simps(2))
qed

subsection \<open>Pieces\<close>

text \<open>The delimiter does not occur among the plain characters of this level.\<close>

definition delim_free :: "char \<Rightarrow> string \<Rightarrow> string \<Rightarrow> bool" where
  "delim_free delim delims stack \<longleftrightarrow> stack \<noteq> [] \<or> delim \<in> set (delims @ [NUL, CHR '')'', CHR '']''])"

definition plain_eval :: "int \<Rightarrow> bool" where
  "plain_eval eval \<longleftrightarrow> \<not> ev eval EV_STRIP \<and> \<not> ev eval EV_STRIP_ESC \<and> \<not> ev eval EV_STRIP_TS \<and>
     \<not> ev eval EV_STRIP_LS \<and> \<not> ev eval EV_STRIP_AROUND"

lemma unwind_hd [simp]: "unwind c (c # st) = Some st"
  by (simp add: unwind_def)

text \<open>A piece of the grammar is copied as it is.\<close>

definition passes :: "bool \<Rightarrow> int \<Rightarrow> char \<Rightarrow> piece \<Rightarrow> bool" where
  "passes sc eval delim w \<longleftrightarrow>
     (\<forall>delims stack s prev out first.
        word_ok sc delims w \<longrightarrow> delim_free delim delims stack \<longrightarrow> piece_depth w + length stack \<le> stacklim \<longrightarrow>
        (\<exists>p f. parse_loop sc eval delim (word_text w @ s) prev out stack first =
           parse_loop sc eval delim s p (out @ word_text w) stack f \<and> (sc \<longrightarrow> \<not> is_space p)))"

lemma passes_words:
  assumes "\<forall>w\<in>set ws. passes sc eval delim w" "list_all (word_ok sc delims) ws" "delim_free delim delims stack"
    "words_depth ws + length stack \<le> stacklim" "sc \<longrightarrow> \<not> is_space prev"
  shows "\<exists>p f. parse_loop sc eval delim (words_text ws @ s) prev out stack first =
    parse_loop sc eval delim s p (out @ words_text ws) stack f \<and> (sc \<longrightarrow> \<not> is_space p)"
  using assms
proof (induction ws arbitrary: prev out first)
  case (Cons w ws)
  have w: "passes sc eval delim w" "word_ok sc delims w" "piece_depth w + length stack \<le> stacklim" using Cons.prems by simp_all
  obtain p f where 1: "parse_loop sc eval delim (word_text w @ words_text ws @ s) prev out stack first =
      parse_loop sc eval delim (words_text ws @ s) p (out @ word_text w) stack f" "sc \<longrightarrow> \<not> is_space p"
    using w Cons.prems(3) unfolding passes_def by blast
  have "\<forall>w\<in>set ws. passes sc eval delim w" "list_all (word_ok sc delims) ws" "words_depth ws + length stack \<le> stacklim"
    using Cons.prems by simp_all
  from Cons.IH [OF this(1,2) Cons.prems(3) this(3) 1(2), of "out @ word_text w" f] 1(1) show ?case by simp
qed auto

lemma passes_group:
  assumes ws: "\<forall>w\<in>set ws. passes sc eval delim w" "list_all (word_ok sc []) ws" "Suc (words_depth ws) + length stack \<le> stacklim"
    and c: "(ob, cb) \<in> {(CHR ''('', CHR '')''), (CHR ''['', CHR '']'')}" and d: "delim \<notin> set ''([''"
  shows "\<exists>p f. parse_loop sc eval delim (ob # words_text ws @ cb # s) prev out stack first =
    parse_loop sc eval delim s p (out @ ob # words_text ws @ [cb]) stack f \<and> (sc \<longrightarrow> \<not> is_space p)"
proof -
  have sp: "\<not> is_space ob" "\<not> is_space cb" using c by (auto simp: is_space_def)
  have "delim_free delim [] (cb # stack)" "words_depth ws + length (cb # stack) \<le> stacklim"
    using ws(3) by (simp_all add: delim_free_def)
  from passes_words [OF ws(1,2) this, where prev = ob and s = "cb # s" and out = "out @ [ob]" and first = False] sp(1) obtain p f where
    p: "parse_loop sc eval delim (words_text ws @ cb # s) ob (out @ [ob]) (cb # stack) False =
      parse_loop sc eval delim (cb # s) p ((out @ [ob]) @ words_text ws) (cb # stack) f" by blast
  have "parse_loop sc eval delim (ob # words_text ws @ cb # s) prev out stack first =
      parse_loop sc eval delim (words_text ws @ cb # s) ob (out @ [ob]) (cb # stack) False"
    using c d ws(3) by (auto simp: parse_loop.simps(2) push_def)
  also have "\<dots> = parse_loop sc eval delim s cb (out @ ob # words_text ws @ [cb]) stack False"
    unfolding p using c by (auto simp: parse_loop.simps(2))
  finally show ?thesis using sp(2) by blast
qed

lemma passes_word:
  assumes e: "plain_eval eval" and d: "delim \<notin> set ''([''"
  shows "passes sc eval delim w"
proof (induction w)
  case (WPlain c)
  have "\<not> (c = delim \<and> stack = [])" if "delim_free delim delims stack" "word_ok sc delims (WPlain c)" for delims stack
    using that by (auto simp: delim_free_def)
  then show ?case unfolding passes_def
    by (cases "c = CHR '' ''") (fastforce simp: parse_loop.simps(2) escape_def)+
next
  case (WEsc e' c)
  then show ?case using e by (auto simp: passes_def parse_loop.simps(2) escape_def plain_eval_def)
next
  case (WParen ws)
  then show ?case using passes_group [of ws sc eval delim _ "CHR ''(''" "CHR '')''"] d by (auto simp: passes_def)
next
  case (WSquare ws)
  then show ?case using passes_group [of ws sc eval delim _ "CHR ''[''" "CHR '']''"] d by (auto simp: passes_def)
next
  case (WBrace bs)
  have "is_space (CHR ''}'') = False" by (simp add: is_space_def)
  then show ?case using parse_loop_brace [of bs eval sc delim] e
    by (auto simp: passes_def plain_eval_def simp del: word_text.simps)
qed

lemma parse_loop_words:
  assumes "plain_eval eval" "delim \<notin> set ''([''" "list_all (word_ok sc delims) ws" "delim_free delim delims []"
    "words_depth ws \<le> stacklim" "sc \<longrightarrow> \<not> is_space prev"
  shows "\<exists>p f. parse_loop sc eval delim (words_text ws @ s) prev out [] first =
    parse_loop sc eval delim s p (out @ words_text ws) [] f \<and> (sc \<longrightarrow> \<not> is_space p)"
  by (rule passes_words) (use assms passes_word in auto)

lemma cleanup_plain: "plain_eval eval \<Longrightarrow> (sc \<longrightarrow> \<not> is_space p) \<Longrightarrow> parse_to_cleanup sc eval f p out = out"
  by (auto simp: parse_to_cleanup_def plain_eval_def)

lemma parse_to_lead:
  "x \<noteq> [] \<Longrightarrow> (if sc \<or> ev eval EV_STRIP_LS then dropWhile is_space x else x) = x \<Longrightarrow>
    parse_to sc (Some x) delim eval = (case parse_loop sc eval delim x NUL [] [] True of (r, d) \<Rightarrow> (Some r, d))"
  unfolding parse_to_def by (cases x) (simp_all only: list.case option.case simp_thms)

text \<open>What \<open>parse_to\<close> does on a piece that is followed by the delimiter, or by nothing.\<close>

lemma parse_to_words:
  assumes e: "plain_eval eval" and ws: "list_all (word_ok sc delims) ws" "words_depth ws \<le> stacklim"
    and d: "delim \<in> set (delims @ [NUL, CHR '')'', CHR '']''])" "delim \<notin> set ''([{''" "\<not> escape delim" "sc \<longrightarrow> \<not> is_space delim"
  shows "parse_to sc (Some (words_text ws)) delim eval = (Some (words_text ws), None)"
    "parse_to sc (Some (words_text ws @ delim # s)) delim eval = (Some (words_text ws), Some s)"
proof -
  have d': "delim \<notin> set ''([''" "delim_free delim delims []" using d by (simp_all add: delim_free_def)
  have lead: "(if sc \<or> ev eval EV_STRIP_LS then dropWhile is_space x else x) = x" if "sc \<longrightarrow> \<not> is_space (deref x)" for x
    using that e by (cases x) (auto simp: plain_eval_def)
  have hd: "sc \<longrightarrow> \<not> is_space (deref (words_text ws @ x))" if "sc \<longrightarrow> \<not> is_space (deref x)" for x
  proof (cases ws)
    case (Cons w vs)
    then show ?thesis using ws(1) by (cases w) (auto simp: escape_def is_space_def)
  qed (use that in simp)
  have nul: "\<not> is_space NUL" by simp
  have run: "\<exists>p f. parse_loop sc eval delim (words_text ws @ x) NUL [] [] True = parse_loop sc eval delim x p (words_text ws) [] f
      \<and> (sc \<longrightarrow> \<not> is_space p)" for x
    using parse_loop_words [OF e d'(1) ws(1) d'(2) ws(2), of NUL x "[]" True] nul by simp
  show "parse_to sc (Some (words_text ws)) delim eval = (Some (words_text ws), None)"
  proof (cases "words_text ws")
    case (Cons c t)
    obtain p f where "parse_loop sc eval delim (words_text ws @ []) NUL [] [] True = (words_text ws, None)"
      using run [of "[]"] cleanup_plain [OF e] by auto
    moreover have "(if sc \<or> ev eval EV_STRIP_LS then dropWhile is_space (words_text ws) else words_text ws) = words_text ws"
      using lead hd [of "[]"] by simp
    ultimately show ?thesis using Cons parse_to_lead [of "words_text ws" sc eval delim] by simp
  qed (simp add: parse_to_def)
  let ?t = "words_text ws @ delim # s"
  obtain p f where "parse_loop sc eval delim ?t NUL [] [] True = parse_loop sc eval delim (delim # s) p (words_text ws) [] f"
      "sc \<longrightarrow> \<not> is_space p"
    using run [of "delim # s"] by blast
  moreover have "parse_loop sc eval delim (delim # s) p (words_text ws) [] f = (parse_to_cleanup sc eval f p (words_text ws), Some s)"
    using d by (auto simp: parse_loop.simps(2) escape_def unwind_def)
  ultimately have l: "parse_loop sc eval delim ?t NUL [] [] True = (words_text ws, Some s)" using cleanup_plain [OF e] by simp
  have i: "(if sc \<or> ev eval EV_STRIP_LS then dropWhile is_space ?t else ?t) = ?t"
    using lead hd [of "delim # s"] d(4) by simp
  show "parse_to sc (Some ?t) delim eval = (Some (words_text ws), Some s)"
    using l parse_to_lead [OF _ i] by simp
qed

text \<open>The last argument may be all that is left: its delimiter is NUL.\<close>

lemma word_ok_fewer: "word_ok sc delims w \<Longrightarrow> set ds \<subseteq> set delims \<Longrightarrow> word_ok sc ds w"
  by (cases w) auto

text \<open>The reference: the pieces one after the other, each given to the evaluator when asked for.\<close>

fun arg_values :: "(int \<Rightarrow> string \<Rightarrow> 's \<Rightarrow> string \<times> 's) \<Rightarrow> int \<Rightarrow> string list \<Rightarrow> 's \<Rightarrow> string list \<times> 's" where
  "arg_values ex eval [] s = ([], s)"
| "arg_values ex eval (t # ts) s =
     (let (a, s1) = (if ev eval EV_EVAL then ex (eval OR EV_FCHECK) t s else (t, s));
          (as, s2) = arg_values ex eval ts s1
      in (a # as, s2))"

fun commas :: "string list \<Rightarrow> string" where
  "commas [] = []"
| "commas [t] = t"
| "commas (t # ts) = t @ CHR '','' # commas ts"

lemma commas_Cons: "ts \<noteq> [] \<Longrightarrow> commas (t # ts) = t @ CHR '','' # commas ts"
  by (cases ts) simp_all

lemma arg_values_length: "length (fst (arg_values ex eval ts s)) = length ts"
  by (induction ts arbitrary: s) (simp_all add: Let_def case_prod_beta')

definition args_ok :: "bool \<Rightarrow> piece list list \<Rightarrow> bool" where
  "args_ok sc args \<longleftrightarrow> args \<noteq> [] \<and> list_all (\<lambda>ws. list_all (word_ok sc '','') ws \<and> words_depth ws \<le> stacklim) args"

lemma split_args_none: "split_args sc ex eval peval k None s = ([], s)"
  by (cases k) (simp_all add: parse_to_def)

lemma split_args_values:
  assumes e: "plain_eval peval"
  shows "args_ok sc args \<Longrightarrow> length args \<le> k \<Longrightarrow>
    split_args sc ex eval peval k (Some (commas (map words_text args))) s = arg_values ex eval (map words_text args) s"
proof (induction args arbitrary: k s)
  case (Cons ws args)
  obtain k' where k: "k = Suc k'" using Cons.prems(2) by (cases k) auto
  have ws: "list_all (word_ok sc '','') ws" "words_depth ws \<le> stacklim" using Cons.prems(1) by (simp_all add: args_ok_def)
  have sp: "\<not> is_space (CHR '','')" by (simp add: is_space_def)
  show ?case
  proof (cases args)
    case Nil
    have "parse_to sc (Some (words_text ws)) (if k' > 0 then CHR '','' else NUL) peval = (Some (words_text ws), None)"
      using parse_to_words(1) [OF e ws, of "if k' > 0 then CHR '','' else NUL"] sp by (simp add: escape_def)
    then show ?thesis by (simp add: k Nil split_args_none)
  next
    case (Cons v vs)
    then have k': "k' > 0" "args_ok sc args" "length args \<le> k'" using Cons.prems k by (simp_all add: args_ok_def)
    have "parse_to sc (Some (words_text ws @ CHR '','' # commas (map words_text args))) (CHR '','') peval =
        (Some (words_text ws), Some (commas (map words_text args)))"
      using parse_to_words(2) [OF e ws, of "CHR '',''"] sp by (simp add: escape_def)
    moreover have "commas (map words_text (ws # args)) = words_text ws @ CHR '','' # commas (map words_text args)"
      using Cons by (simp add: commas_Cons)
    ultimately show ?thesis using Cons.IH [OF k'(2,3)] k'(1) by (simp add: k del: commas.simps)
  qed
qed (simp add: args_ok_def)

lemma commas_words: "\<exists>ws. commas (map words_text args) = words_text ws \<and>
    (args_ok sc args \<longrightarrow> list_all (word_ok sc []) ws \<and> words_depth ws \<le> stacklim)"
proof (induction args)
  case Nil
  then show ?case by (auto intro!: exI [of _ "[]"])
next
  case (Cons a args)
  have sp: "\<not> is_space (CHR '','')" by (simp add: is_space_def)
  have a: "list_all (word_ok sc []) a \<and> words_depth a \<le> stacklim" if "args_ok sc (a # args)"
    using that by (auto simp: args_ok_def list_all_iff intro: word_ok_fewer)
  show ?case
  proof (cases args)
    case Nil
    then show ?thesis using a by auto
  next
    case (Cons b bs)
    obtain ws where ws: "commas (map words_text args) = words_text ws"
        "args_ok sc args \<longrightarrow> list_all (word_ok sc []) ws \<and> words_depth ws \<le> stacklim" using Cons.IH by blast
    have m: "words_depth (vs @ WPlain (CHR '','') # ws) = max (words_depth vs) (words_depth ws)" for vs
      by (induction vs) simp_all
    have "commas (map words_text (a # args)) = words_text (a @ WPlain (CHR '','') # ws)"
      using Cons ws(1) by (simp add: commas_Cons)
    moreover have "args_ok sc args" if "args_ok sc (a # args)" using that Cons by (simp add: args_ok_def)
    moreover have "list_all (word_ok sc []) (a @ WPlain (CHR '','') # ws) \<and> words_depth (a @ WPlain (CHR '','') # ws) \<le> stacklim"
      if "args_ok sc (a # args)"
      using that calculation(2) ws(2) a m sp by (simp add: escape_def)
    ultimately show ?thesis by blast
  qed
qed

subsection \<open>Lengths\<close>

lemma brace_loop_length:
  "brace_loop se lev s prev out = (lev', s', prev', out') \<Longrightarrow>
     length out' + length s' \<le> length out + length s \<and> suffix s' s \<and> (lev' = 0 \<longrightarrow> 0 < lev \<longrightarrow> s' \<noteq> [])"
proof (induction se lev s prev out rule: brace_loop.induct)
  case (2 se lev c s prev out)
  note p = "2.prems"
  consider "c = CHR 0x5C \<or> c = CHR ''%''" | "\<not> (c = CHR 0x5C \<or> c = CHR ''%'')" "c = CHR ''{''"
    | "\<not> (c = CHR 0x5C \<or> c = CHR ''%'')" "c \<noteq> CHR ''{''" "c = CHR ''}''" "lev \<le> 1"
    | "\<not> (c = CHR 0x5C \<or> c = CHR ''%'')" "c \<noteq> CHR ''{''" "c = CHR ''}''" "\<not> lev \<le> 1"
    | "\<not> (c = CHR 0x5C \<or> c = CHR ''%'')" "c \<noteq> CHR ''{''" "c \<noteq> CHR ''}''" by blast
  then show ?case
  proof cases
    case 1
    show ?thesis
    proof (cases s)
      case Nil
      then show ?thesis using p 1 by auto
    next
      case (Cons d t)
      have "length out' + length s' \<le> length (if c = CHR 0x5C \<and> se then out @ [d] else out @ [c, d]) + length t \<and>
          suffix s' t \<and> (lev' = 0 \<longrightarrow> 0 < lev \<longrightarrow> s' \<noteq> [])"
        by (rule "2.IH"(1) [OF 1 Cons]) (use p 1 Cons in simp)
      then show ?thesis using Cons by (auto intro: suffix_ConsI split: if_splits)
    qed
  next
    case 2
    have "length out' + length s' \<le> length (out @ [c]) + length s \<and> suffix s' s \<and> (lev' = 0 \<longrightarrow> 0 < Suc lev \<longrightarrow> s' \<noteq> [])"
      by (rule "2.IH"(2) [OF 2]) (use p 2 in simp)
    then show ?thesis by (auto intro: suffix_ConsI)
  next
    case 3
    then show ?thesis using p by auto
  next
    case 4
    have "length out' + length s' \<le> length (out @ [c]) + length s \<and> suffix s' s \<and> (lev' = 0 \<longrightarrow> 0 < lev - 1 \<longrightarrow> s' \<noteq> [])"
      by (rule "2.IH"(3) [OF 4]) (use p 4 in simp)
    then show ?thesis using 4 by (auto intro: suffix_ConsI)
  next
    case 5
    have "length out' + length s' \<le> length (out @ [c]) + length s \<and> suffix s' s \<and> (lev' = 0 \<longrightarrow> 0 < lev \<longrightarrow> s' \<noteq> [])"
      by (rule "2.IH"(4) [OF 5]) (use p 5 in simp)
    then show ?thesis by (auto intro: suffix_ConsI)
  qed
qed simp

lemma cleanup_length: "length (parse_to_cleanup sc eval first prev out) \<le> length out"
proof -
  have d: "length (dropWhile P xs) \<le> length xs" for P :: "char \<Rightarrow> bool" and xs by (rule length_dropWhile_le)
  have "length (rev (dropWhile is_space (rev (butlast r)))) \<le> length r" "length (butlast r) \<le> length r" for r
    using d [of is_space "rev (butlast r)"] by simp_all
  moreover have "length (if b then dropWhile is_space (tl r) else tl r) \<le> length r" for b r
    using d [of is_space "tl r"] by (cases r) (auto intro: le_SucI)
  moreover have "length (if b then butlast out else out) \<le> length out" for b by simp
  ultimately show ?thesis unfolding parse_to_cleanup_def Let_def by (smt (verit) le_trans)
qed

definition left_over :: "string option \<Rightarrow> nat" where
  "left_over d = (case d of None \<Rightarrow> 0 | Some t \<Rightarrow> Suc (length t))"

lemma left_over_simps [simp]: "left_over None = 0" "left_over (Some t) = Suc (length t)"
  by (simp_all add: left_over_def)

text \<open>A round of the loop consumes something, or it ends.\<close>

lemma parse_loop_round:
  "(\<exists>t p out' st f. parse_loop sc eval delim (c # s) prev out stack first = parse_loop sc eval delim t p out' st f \<and>
      suffix t s \<and> length out' + length t \<le> Suc (length out + length s)) \<or>
   parse_loop sc eval delim (c # s) prev out stack first = (parse_to_cleanup sc eval first prev out, Some s)"
  (is "?go (parse_loop sc eval delim (c # s) prev out stack first) \<or> ?stop")
proof -
  have goI: "?go x" if "x = parse_loop sc eval delim t p out' st f" "suffix t s" "length out' + length t \<le> Suc (length out + length s)"
    for x t p out' st f using that by blast
  consider "c = CHR 0x5C \<or> c = CHR ''%''"
    | "\<not> (c = CHR 0x5C \<or> c = CHR ''%'')" "c = CHR '']'' \<or> c = CHR '')''"
    | "\<not> (c = CHR 0x5C \<or> c = CHR ''%'')" "\<not> (c = CHR '']'' \<or> c = CHR '')'')" "c = CHR ''{''"
    | "\<not> (c = CHR 0x5C \<or> c = CHR ''%'')" "\<not> (c = CHR '']'' \<or> c = CHR '')'')" "c \<noteq> CHR ''{''" by blast
  then show ?thesis
  proof cases
    case 1
    show ?thesis
    proof (cases s)
      case Nil
      have "parse_loop sc eval delim (c # s) prev out stack first =
          parse_loop sc eval delim [] c (if c = CHR 0x5C \<and> ev eval EV_STRIP_ESC then out else out @ [c]) stack False"
        by (subst parse_loop.simps(2)) (simp only: 1 Nil Let_def if_True list.case)
      from goI [OF this] show ?thesis by simp
    next
      case (Cons d t)
      have "parse_loop sc eval delim (c # s) prev out stack first =
          parse_loop sc eval delim t d ((if c = CHR 0x5C \<and> ev eval EV_STRIP_ESC then out else out @ [c]) @ [d]) stack False"
        by (subst parse_loop.simps(2)) (simp only: 1 Cons Let_def if_True list.case)
      from goI [OF this] show ?thesis by (auto simp: Cons suffix_ConsI)
    qed
  next
    case 2
    show ?thesis
    proof (cases "unwind c stack")
      case None
      show ?thesis
      proof (cases "c = delim")
        case False
        have "parse_loop sc eval delim (c # s) prev out stack first = parse_loop sc eval delim s c (out @ [c]) stack False"
          using 2 None False by (simp add: parse_loop.simps(2))
        from goI [OF this] show ?thesis by simp
      qed (use 2 None in \<open>simp add: parse_loop.simps(2)\<close>)
    next
      case (Some st)
      have "parse_loop sc eval delim (c # s) prev out stack first = parse_loop sc eval delim s c (out @ [c]) st False"
        using 2 Some by (simp add: parse_loop.simps(2))
      from goI [OF this] show ?thesis by simp
    qed
  next
    case 3
    obtain lev t p out1 where b: "brace_loop (ev eval EV_STRIP_ESC) 1 s c (if ev eval EV_STRIP then out else out @ [c]) = (lev, t, p, out1)"
      by (metis prod.collapse)
    note bl = brace_loop_length [OF b]
    have len: "length out1 + length t \<le> Suc (length out + length s)" using bl by (auto split: if_splits)
    show ?thesis
    proof (cases "lev = 0")
      case True
      then obtain x u where u: "t = x # u" using bl by (cases t) auto
      have "parse_loop sc eval delim (c # s) prev out stack first =
          parse_loop sc eval delim u (CHR ''}'') (if ev eval EV_STRIP then out1 else out1 @ [CHR ''}'']) stack False"
        using 3 True b [unfolded 3(3) u] by (simp add: parse_loop.simps(2) del: One_nat_def)
      from goI [OF this] show ?thesis using bl len u by (auto dest: suffix_ConsD)
    next
      case False
      have "parse_loop sc eval delim (c # s) prev out stack first = parse_loop sc eval delim [] p out1 stack False"
        using 3 False b [unfolded 3(3)] by (simp add: parse_loop.simps(2) del: One_nat_def)
      from goI [OF this] show ?thesis using len by simp
    qed
  next
    case 4
    show ?thesis
    proof (cases "c = delim \<and> stack = []")
      case True
      then show ?thesis using 4 by (simp add: parse_loop.simps(2))
    next
      case nd: False
      show ?thesis
      proof (cases "c = CHR '' ''")
        case True
        have "parse_loop sc eval delim (c # s) prev out stack first = parse_loop sc eval delim s c
            (if sc \<and> first then out else if sc \<and> prev = CHR '' '' then butlast out @ [c] else out @ [c]) stack first"
          by (subst parse_loop.simps(2)) (simp only: if_not_P [OF 4(1)] if_not_P [OF 4(2)] if_not_P [OF 4(3)] if_not_P [OF nd] if_P [OF True])
        from goI [OF this] show ?thesis by auto
      next
        case False
        have "parse_loop sc eval delim (c # s) prev out stack first = parse_loop sc eval delim s c (out @ [c])
            (if c = CHR ''['' then push (CHR '']'') stack else if c = CHR ''('' then push (CHR '')'') stack else stack) False"
          using 4 nd False by (simp only: parse_loop.simps(2) if_False if_not_P)
        from goI [OF this] show ?thesis by simp
      qed
    qed
  qed
qed

lemma parse_loop_length:
  "parse_loop sc eval delim s prev out stack first = (r, d) \<Longrightarrow>
     length r + left_over d \<le> length out + length s \<and> (\<forall>t. d = Some t \<longrightarrow> suffix t s)"
proof (induction "length s" arbitrary: s prev out stack first rule: less_induct)
  case less
  note cl = cleanup_length [of sc eval first prev out]
  show ?case
  proof (cases s)
    case Nil
    then show ?thesis using less.prems cl by auto
  next
    case (Cons c u)
    show ?thesis
      using parse_loop_round [of sc eval delim c u prev out stack first]
    proof (elim disjE exE conjE)
      fix t p out' st f
      assume t: "parse_loop sc eval delim (c # u) prev out stack first = parse_loop sc eval delim t p out' st f" "suffix t u"
        "length out' + length t \<le> Suc (length out + length u)"
      have "length t < length s" using t(2) Cons by (auto dest: suffix_length_le)
      from less.hyps [OF this, of p out' st f] less.prems t Cons
      have "length r + left_over d \<le> length out' + length t" "\<forall>v. d = Some v \<longrightarrow> suffix v t" by simp_all
      moreover have "suffix t s" using t(2) Cons by (auto intro: suffix_ConsI)
      ultimately show ?thesis using t(3) Cons by (auto intro: suffix_order.trans)
    next
      assume "parse_loop sc eval delim (c # u) prev out stack first = (parse_to_cleanup sc eval first prev out, Some u)"
      then show ?thesis using less.prems cl Cons by (auto simp: suffix_ConsI)
    qed
  qed
qed

lemma parse_to_bound:
  assumes "parse_to sc (Some s) delim eval = (r, d)"
  shows "\<exists>p. r = Some p \<and> length p + left_over d \<le> length s \<and> (\<forall>t. d = Some t \<longrightarrow> suffix t s)"
proof (cases s)
  case Nil
  then show ?thesis using assms by (auto simp: parse_to_def)
next
  case (Cons c u)
  let ?s = "if sc \<or> ev eval EV_STRIP_LS then dropWhile is_space s else s"
  obtain p d' where p: "parse_loop sc eval delim ?s NUL [] [] True = (p, d')" by (metis prod.collapse)
  have rd: "r = Some p" "d = d'" using assms p unfolding parse_to_def Cons by simp_all
  have "suffix ?s s" by (simp add: suffix_dropWhile)
  then have "length ?s \<le> length s" "\<forall>t. suffix t ?s \<longrightarrow> suffix t s" by (auto dest: suffix_length_le intro: suffix_order.trans)
  then show ?thesis using parse_loop_length [OF p] rd by (metis add_cancel_right_left le_trans list.size(3) add_0)
qed

subsection \<open>Properties\<close>

text \<open>
  C38: \<open>parse_to\<close>, which writes the piece over the line it reads, never writes more than it has
  read: the piece and what is left behind the delimiter together are shorter than the line,
  and what is left is the unchanged end of the line. So the loops over pieces end.
\<close>

theorem parse_to_in_place:
  assumes "parse_to sc (Some s) delim eval = (r, d)"
  shows "\<exists>p. r = Some p \<and> length p + left_over d \<le> length s \<and> (\<forall>t. d = Some t \<longrightarrow> suffix t s)"
  using assms by (rule parse_to_bound)

theorem parse_to_in_place_witness:
  "parse_to True (Some ''  a  {b ;} ; c'') (CHR '';'') 0 = (Some ''a {b ;}'', Some '' c'') \<and>
   length ''a {b ;}'' + left_over (Some '' c'') \<le> length ''  a  {b ;} ; c''"
proof -
  have r: "parse_to True (Some ''  a  {b ;} ; c'') (CHR '';'') 0 = (Some ''a {b ;}'', Some '' c'')" by code_simp
  from parse_to_in_place [OF r] r show ?thesis by simp
qed

text \<open>
  C12: \<open>parse_arglist\<close> splits a list of arguments at its commas, and only there: for arguments
  built from plain and escaped characters, parentheses and square brackets nested at most 32
  deep, and braces around anything balanced, it returns them as they were written, each
  evaluated in turn from the left when the flags ask for it, and the text behind the closing
  parenthesis.
\<close>

theorem arguments_split_at_commas:
  assumes args: "args_ok sc args" "length args \<le> nfargs" and e: "plain_eval eval"
  shows "parse_arglist sc ex (Some (commas (map words_text args) @ CHR '')'' # rest)) (CHR '')'') eval nfargs s =
    (let (vs, s') = arg_values ex eval (map words_text args) s
     in (Some rest, map Some vs @ replicate (nfargs - length args) None, s'))"
proof -
  define line where "line = commas (map words_text args)"
  obtain ws where ws: "line = words_text ws" "list_all (word_ok sc []) ws" "words_depth ws \<le> stacklim"
    using commas_words [of args sc] args(1) by (auto simp: line_def)
  have sp: "\<not> is_space (CHR '')'')" by (simp add: is_space_def)
  have "plain_eval 0" by (simp add: plain_eval_def ev_def)
  from parse_to_words(2) [OF this ws(2,3), of "CHR '')''"] sp
  have p: "parse_to sc (Some (line @ CHR '')'' # rest)) (CHR '')'') 0 = (Some line, Some rest)" unfolding ws(1) by (simp add: escape_def)
  define peval where "peval = (if ev eval EV_EVAL then eval AND (EV_STRIP_LS OR EV_STRIP_TS OR EV_STRIP_ESC OR EV_TOP OR EV_NOTRACE) else eval)"
  have pe: "plain_eval peval"
  proof (cases "ev eval EV_EVAL")
    case True
    have z: "eval AND EV_STRIP_LS = 0" "eval AND EV_STRIP_TS = 0" "eval AND EV_STRIP_ESC = 0" using e by (simp_all add: plain_eval_def ev_def)
    have "peval = eval AND (EV_TOP OR EV_NOTRACE)" using True z by (simp add: peval_def bit.conj_disj_distrib)
    then have "peval AND f = eval AND ((EV_TOP OR EV_NOTRACE) AND f)" for f by (simp add: and.assoc)
    then show ?thesis
      by (simp add: plain_eval_def ev_def EV_TOP_def EV_NOTRACE_def EV_STRIP_def EV_STRIP_ESC_def EV_STRIP_TS_def EV_STRIP_LS_def
        EV_STRIP_AROUND_def)
  qed (use e in \<open>simp add: peval_def\<close>)
  have sa: "split_args sc ex eval peval nfargs (Some line) s = arg_values ex eval (map words_text args) s"
    unfolding line_def by (rule split_args_values [OF pe args])
  have len: "length (fst (arg_values ex eval (map words_text args) s)) = length args" by (simp add: arg_values_length)
  show ?thesis using p sa len
    unfolding parse_arglist_def line_def [symmetric] by (simp add: peval_def [symmetric] Let_def case_prod_beta')
qed

theorem arguments_split_at_commas_witness:
  "parse_arglist True (\<lambda>e a n. (a, n + length a)) (Some ''add(1,2),{x, y},%,b)rest'') (CHR '')'') EV_EVAL 4 (0 :: nat) =
    (Some ''rest'', [Some ''add(1,2)'', Some ''{x, y}'', Some ''%,b'', None], 17)"
proof -
  let ?args = "[[WPlain (CHR ''a''), WPlain (CHR ''d''), WPlain (CHR ''d''),
      WParen [WPlain (CHR ''1''), WPlain (CHR '',''), WPlain (CHR ''2'')]],
    [WBrace [IPlain (CHR ''x''), IPlain (CHR '',''), IPlain (CHR '' ''), IPlain (CHR ''y'')]],
    [WEsc (CHR ''%'') (CHR '',''), WPlain (CHR ''b'')]]"
  have "args_ok True ?args" by (simp add: args_ok_def escape_def is_space_def stacklim_def)
  moreover have "plain_eval EV_EVAL"
    by (simp add: plain_eval_def ev_def EV_EVAL_def EV_STRIP_def EV_STRIP_ESC_def EV_STRIP_TS_def EV_STRIP_LS_def EV_STRIP_AROUND_def)
  moreover have "ev EV_EVAL EV_EVAL" by (simp add: ev_def EV_EVAL_def)
  ultimately show ?thesis
    using arguments_split_at_commas [of True ?args 4 EV_EVAL "\<lambda>e a n. (a, n + length a)" "''rest''" 0] by (simp add: Let_def)
qed

end
