(* ===== verification/Pcache.thy ===== *)
theory Pcache
  imports Attrs
begin

section \<open>The player cache and payments (src/Server/src/player_c.c, predicates.c)\<close>

text \<open>
  For every player that is looked at, a block with its money, the number of its queued
  commands and the limit on them. Money is written back to attribute \<open>A_MONEY\<close> by
  \<open>pcache_save\<close> only.

  The list is the one that starts at \<open>pcache_head\<close>, newest first. The hash table \<open>pcache_htab\<close>
  holds the blocks of the list that are not marked \<open>PF_DEAD\<close>, one for each player; looking a
  player up in it is looking for that block. A pointer to a block is its player.

  \<open>world\<close> is what this layer and the command queue ask about objects and their flags, and the
  configuration. Money and counts are integers that do not wrap around. \<open>atr_add_raw\<close> reloads a player's block when \<open>A_QUEUEMAX\<close> is set; in the model
  \<open>add_raw\<close> does this after it.
\<close>

unbundle bit_operations_syntax

subsection \<open>Data\<close>

record PCACHE =
  pc_player :: int
  pc_money :: int
  pc_queue :: int
  pc_qmax :: int
  cflags :: "32 word"

record world =
  w_g :: gamedb
  w_cf :: attr_conf
  w_OwnsOthers :: "int \<Rightarrow> bool"
  w_Builder :: "int \<Rightarrow> bool"
  w_FreeFlag :: "int \<Rightarrow> bool"
  w_DePrivFree :: "int \<Rightarrow> bool"
  w_Recover :: "int \<Rightarrow> bool"
  w_Going :: "int \<Rightarrow> bool"
  w_Typeof :: "int \<Rightarrow> int"
  w_InProgram :: "int \<Rightarrow> bool"
  w_Immortal :: "int \<Rightarrow> bool"
  w_Controls :: "int \<Rightarrow> int \<Rightarrow> bool"
  w_HaltPriv :: "int \<Rightarrow> int \<Rightarrow> bool"
  w_db_top :: int
  queuemax :: int
  wizqueuemax :: int
  waitcost :: int
  machinecost :: int
  queue_compatible :: bool

abbreviation Owner :: "world \<Rightarrow> int \<Rightarrow> int" where
  "Owner w \<equiv> g_Owner (w_g w)"

abbreviation Good_obj :: "world \<Rightarrow> int \<Rightarrow> bool" where
  "Good_obj w \<equiv> g_Good_obj (w_g w)"

record 'c pcache_state =
  adb :: "'c attr_state"
  pcaches :: "PCACHE list"

definition PF_DEAD :: "32 word" where "PF_DEAD = 1"
definition PF_REF :: "32 word" where "PF_REF = 2"
definition PF_MONEY_CH :: "32 word" where "PF_MONEY_CH = 4"
definition PF_QMAX_CH :: "32 word" where "PF_QMAX_CH = 8"

definition A_MONEY :: int where "A_MONEY = 25"

definition pflag :: "PCACHE \<Rightarrow> 32 word \<Rightarrow> bool" where
  "pflag pp f \<longleftrightarrow> cflags pp AND f \<noteq> 0"

subsection \<open>Blocks\<close>

definition pcache_init :: "'c attr_state \<Rightarrow> 'c pcache_state" where
  "pcache_init a = \<lparr>adb = a, pcaches = []\<rparr>"

definition live_block :: "int \<Rightarrow> PCACHE \<Rightarrow> bool" where
  "live_block player pp \<longleftrightarrow> pc_player pp = player \<and> \<not> pflag pp PF_DEAD"

definition pcache_at :: "int \<Rightarrow> 'c pcache_state \<Rightarrow> PCACHE option" where
  "pcache_at player s = find (live_block player) (pcaches s)"

fun update_first :: "('a \<Rightarrow> bool) \<Rightarrow> ('a \<Rightarrow> 'a) \<Rightarrow> 'a list \<Rightarrow> 'a list" where
  "update_first P f [] = []"
| "update_first P f (x # xs) = (if P x then f x # xs else x # update_first P f xs)"

definition pcache_set :: "int \<Rightarrow> (PCACHE \<Rightarrow> PCACHE) \<Rightarrow> 'c pcache_state \<Rightarrow> 'c pcache_state" where
  "pcache_set player f s = s\<lparr>pcaches := update_first (live_block player) f (pcaches s)\<rparr>"

definition get_raw :: "'c acache \<Rightarrow> int \<Rightarrow> int \<Rightarrow> 'c pcache_state \<Rightarrow> string option \<times> 'c pcache_state" where
  "get_raw D thing atr s = (case atr_get_raw D thing atr (adb s) of (v, a) \<Rightarrow> (v, s\<lparr>adb := a\<rparr>))"

definition number_or :: "int \<Rightarrow> string option \<Rightarrow> int" where
  "number_or n cp = (case cp of Some (c # s) \<Rightarrow> atoi (c # s) | _ \<Rightarrow> n)"

definition pcache_reload1 :: "'c acache \<Rightarrow> world \<Rightarrow> int \<Rightarrow> PCACHE \<Rightarrow> 'c pcache_state \<Rightarrow> PCACHE \<times> 'c pcache_state" where
  "pcache_reload1 D w player pp s =
     (let (cp, s1) = get_raw D player A_MONEY s;
          (cq, s2) = get_raw D player A_QUEUEMAX s1
      in (pp\<lparr>pc_money := number_or 0 cp,
             pc_qmax := number_or (if \<not> w_Builder w player then queuemax w else - 1) cq\<rparr>, s2))"

text \<open>\<open>pcache_find\<close> says whether there is a block; after that, \<open>pcache_at\<close> is the block.\<close>

definition pcache_find :: "'c acache \<Rightarrow> world \<Rightarrow> int \<Rightarrow> 'c pcache_state \<Rightarrow> bool \<times> 'c pcache_state" where
  "pcache_find D w player s =
     (if \<not> Good_obj w player \<or> \<not> w_OwnsOthers w player then (False, s)
      else case pcache_at player s of
             Some _ \<Rightarrow> (True, pcache_set player (\<lambda>pp. pp\<lparr>cflags := cflags pp OR PF_REF\<rparr>) s)
           | None \<Rightarrow>
               let (pp, s1) = pcache_reload1 D w player
                     \<lparr>pc_player = player, pc_money = 0, pc_queue = 0, pc_qmax = 0, cflags = PF_REF\<rparr> s
               in (True, s1\<lparr>pcaches := pp # pcaches s1\<rparr>))"

definition pcache_reload :: "'c acache \<Rightarrow> world \<Rightarrow> int \<Rightarrow> 'c pcache_state \<Rightarrow> 'c pcache_state" where
  "pcache_reload D w player s =
     (let (found, s1) = pcache_find D w player s
      in case pcache_at player s1 of
           Some pp \<Rightarrow>
             if found then (let (pp1, s2) = pcache_reload1 D w player pp s1 in pcache_set player (\<lambda>_. pp1) s2) else s1
         | None \<Rightarrow> s1)"

definition add_raw :: "'c acache \<Rightarrow> world \<Rightarrow> int \<Rightarrow> int \<Rightarrow> string option \<Rightarrow> 'c pcache_state \<Rightarrow> 'c pcache_state" where
  "add_raw D w thing atr buff s =
     (let s1 = s\<lparr>adb := atr_add_raw D (w_cf w) (w_g w) thing atr buff (adb s)\<rparr>
      in if atr = A_QUEUEMAX \<and> buff \<noteq> None \<and> buff \<noteq> Some [] then pcache_reload D w thing s1 else s1)"

text \<open>
  \<open>pcache_save\<close> of the block, which need not be in the hash table any more; the block is
  changed in the list by the caller of the model's function.
\<close>

definition pcache_save :: "'c acache \<Rightarrow> world \<Rightarrow> PCACHE \<Rightarrow> 'c pcache_state \<Rightarrow> PCACHE \<times> 'c pcache_state" where
  "pcache_save D w pp s =
     (if pflag pp PF_DEAD then (pp, s)
      else
        let s1 = (if pflag pp PF_MONEY_CH then add_raw D w (pc_player pp) A_MONEY (Some (sprintf_d (pc_money pp))) s else s);
            s2 = (if pflag pp PF_QMAX_CH then add_raw D w (pc_player pp) A_QUEUEMAX (Some (sprintf_d (pc_qmax pp))) s1 else s1)
        in (pp\<lparr>cflags := cflags pp AND NOT (PF_MONEY_CH OR PF_QMAX_CH)\<rparr>, s2))"

text \<open>
  The loops of \<open>pcache_trim\<close> and \<open>pcache_sync\<close> over the blocks from the first on. No block is
  ever marked \<open>PF_QMAX_CH\<close>, so that saving one changes no other block.
\<close>

fun pcache_trim_loop :: "'c acache \<Rightarrow> world \<Rightarrow> PCACHE list \<Rightarrow> 'c pcache_state \<Rightarrow> PCACHE list \<times> 'c pcache_state" where
  "pcache_trim_loop D w [] s = ([], s)"
| "pcache_trim_loop D w (pp # ps) s =
     (if \<not> pflag pp PF_DEAD \<and> (pc_queue pp \<noteq> 0 \<or> pflag pp PF_REF) then
        let (qs, s1) = pcache_trim_loop D w ps s in (pp\<lparr>cflags := cflags pp AND NOT PF_REF\<rparr> # qs, s1)
      else
        let (_, s1) = (if \<not> pflag pp PF_DEAD then pcache_save D w pp s else (pp, s))
        in pcache_trim_loop D w ps s1)"

definition pcache_trim :: "'c acache \<Rightarrow> world \<Rightarrow> 'c pcache_state \<Rightarrow> 'c pcache_state" where
  "pcache_trim D w s = (let (ps, s1) = pcache_trim_loop D w (pcaches s) s in s1\<lparr>pcaches := ps\<rparr>)"

fun sync_blocks :: "'c acache \<Rightarrow> world \<Rightarrow> PCACHE list \<Rightarrow> 'c pcache_state \<Rightarrow> PCACHE list \<times> 'c pcache_state" where
  "sync_blocks D w [] s = ([], s)"
| "sync_blocks D w (pp # ps) s =
     (let (pp1, s1) = pcache_save D w pp s; (qs, s2) = sync_blocks D w ps s1 in (pp1 # qs, s2))"

definition pcache_sync :: "'c acache \<Rightarrow> world \<Rightarrow> 'c pcache_state \<Rightarrow> 'c pcache_state" where
  "pcache_sync D w s = (let (ps, s1) = sync_blocks D w (pcaches s) s in s1\<lparr>pcaches := ps\<rparr>)"

definition pcache_purge :: "int \<Rightarrow> 'c pcache_state \<Rightarrow> 'c pcache_state" where
  "pcache_purge player s = pcache_set player (\<lambda>pp. pp\<lparr>cflags := PF_DEAD\<rparr>) s"

subsection \<open>Counts of queued commands\<close>

definition a_Queue :: "'c acache \<Rightarrow> world \<Rightarrow> int \<Rightarrow> int \<Rightarrow> 'c pcache_state \<Rightarrow> int \<times> 'c pcache_state" where
  "a_Queue D w player adj s =
     (if \<not> w_OwnsOthers w player then (0, s)
      else let (found, s1) = pcache_find D w player s
           in if \<not> found then (0, s1)
              else let s2 = pcache_set player (\<lambda>pp. pp\<lparr>pc_queue := pc_queue pp + adj\<rparr>) s1
                   in (case pcache_at player s2 of None \<Rightarrow> 0 | Some pp \<Rightarrow> pc_queue pp, s2))"

definition s_Queue :: "'c acache \<Rightarrow> world \<Rightarrow> int \<Rightarrow> int \<Rightarrow> 'c pcache_state \<Rightarrow> 'c pcache_state" where
  "s_Queue D w player val s =
     (if \<not> w_OwnsOthers w player then s
      else let (found, s1) = pcache_find D w player s
           in if found then pcache_set player (\<lambda>pp. pp\<lparr>pc_queue := val\<rparr>) s1 else s1)"

definition QueueMax :: "'c acache \<Rightarrow> world \<Rightarrow> int \<Rightarrow> 'c pcache_state \<Rightarrow> int \<times> 'c pcache_state" where
  "QueueMax D w player s =
     (if \<not> w_OwnsOthers w player then (0, s)
      else let (found, s1) = pcache_find D w player s
           in (case pcache_at player s1 of
                 None \<Rightarrow> 0
               | Some pp \<Rightarrow>
                   if \<not> found then 0
                   else if pc_qmax pp \<ge> 0 then pc_qmax pp
                   else let m = w_db_top w + 1
                        in if Good_obj w player \<and> w_Builder w player then max m (wizqueuemax w)
                           else max m (queuemax w), s1))"

subsection \<open>Money\<close>

definition Pennies :: "'c acache \<Rightarrow> world \<Rightarrow> int \<Rightarrow> 'c pcache_state \<Rightarrow> int \<times> 'c pcache_state" where
  "Pennies D w obj s =
     (let (found, s1) = (if \<not> w_Recover w obj \<and> w_OwnsOthers w obj then pcache_find D w obj s else (False, s))
      in case pcache_at obj s1 of
           Some pp \<Rightarrow> if found then (pc_money pp, s1) else (let (cp, s2) = get_raw D obj A_MONEY s1 in (number_or 0 cp, s2))
         | None \<Rightarrow> (let (cp, s2) = get_raw D obj A_MONEY s1 in (number_or 0 cp, s2)))"

definition s_Pennies :: "'c acache \<Rightarrow> world \<Rightarrow> int \<Rightarrow> int \<Rightarrow> 'c pcache_state \<Rightarrow> 'c pcache_state" where
  "s_Pennies D w obj howfew s =
     (let (found, s1) = (if w_OwnsOthers w obj then pcache_find D w obj s else (False, s))
      in if found then pcache_set obj (\<lambda>pp. pp\<lparr>pc_money := howfew, cflags := cflags pp OR PF_MONEY_CH\<rparr>) s1
         else add_raw D w obj A_MONEY (Some (sprintf_d howfew)) s1)"

definition no_free :: "world \<Rightarrow> int \<Rightarrow> bool" where
  "no_free w who \<longleftrightarrow> w_DePrivFree w who \<or> w_DePrivFree w (Owner w who)"

definition payfor :: "'c acache \<Rightarrow> world \<Rightarrow> int \<Rightarrow> int \<Rightarrow> 'c pcache_state \<Rightarrow> bool \<times> 'c pcache_state" where
  "payfor D w who cost s =
     (if \<not> no_free w who \<and>
         (w_Builder w who \<or> w_Builder w (Owner w who) \<or> w_FreeFlag w who \<or> w_FreeFlag w (Owner w who)) then (True, s)
      else let (tmp, s1) = Pennies D w (Owner w who) s
           in if tmp \<ge> cost then (True, s_Pennies D w (Owner w who) (tmp - cost) s1) else (False, s1))"

definition payfor_force :: "'c acache \<Rightarrow> world \<Rightarrow> int \<Rightarrow> int \<Rightarrow> 'c pcache_state \<Rightarrow> bool \<times> 'c pcache_state" where
  "payfor_force D w who cost s =
     (if \<not> no_free w who \<and>
         (w_Builder w who \<or> w_Builder w (Owner w who) \<or> w_FreeFlag w who \<or> w_FreeFlag w (Owner w who)) then (True, s)
      else let (tmp, s1) = Pennies D w (Owner w who) s in (True, s_Pennies D w (Owner w who) (tmp - cost) s1))"

definition payfor_give :: "'c acache \<Rightarrow> world \<Rightarrow> int \<Rightarrow> int \<Rightarrow> 'c pcache_state \<Rightarrow> bool \<times> 'c pcache_state" where
  "payfor_give D w who cost s =
     (if \<not> no_free w who \<and> (w_Builder w who \<or> w_Builder w (Owner w who)) then (True, s)
      else let (tmp, s1) = Pennies D w (Owner w who) s
           in if tmp \<ge> cost then (True, s_Pennies D w (Owner w who) (tmp - cost) s1) else (False, s1))"

text \<open>\<open>giveto\<close> for a gift from nobody (\<open>from\<close> is \<open>NOTHING\<close>), as the queue calls it.\<close>

definition giveto :: "'c acache \<Rightarrow> world \<Rightarrow> int \<Rightarrow> int \<Rightarrow> 'c pcache_state \<Rightarrow> 'c pcache_state" where
  "giveto D w who pennies s =
     (if \<not> no_free w who \<and> (w_Builder w who \<or> w_Builder w (Owner w who)) then s
      else let (p, s1) = Pennies D w (Owner w who) s in s_Pennies D w (Owner w who) (p + pennies) s1)"

end
