(* ===== verification/Pcache_Laws.thy ===== *)
theory Pcache_Laws
  imports Pcache Attrs_Laws
begin

section \<open>The player cache: laws\<close>

text \<open>
  The player cache over the attribute layer against a ledger: one balance and one count of
  queued commands for every player. Looking a player up, writing the changed blocks back and
  dropping the blocks that are not in use never show; after \<open>pcache_sync\<close> the attributes
  alone hold the balances.
\<close>

subsection \<open>The ledger\<close>

type_synonym ledger = "(int \<Rightarrow> int) \<times> (int \<Rightarrow> int)"

datatype account_op =
    Ask int
  | Assign int int
  | Pay int int
  | Pay_force int int
  | Pay_give int int
  | Receive int int
  | Count int int
  | Trim
  | Sync

datatype account_result = Amount int | Paid bool | Finished

fun account_step :: "'c acache \<Rightarrow> world \<Rightarrow> account_op \<Rightarrow> 'c pcache_state \<Rightarrow> account_result \<times> 'c pcache_state" where
  "account_step D w (Ask p) s = (case Pennies D w p s of (n, s1) \<Rightarrow> (Amount n, s1))"
| "account_step D w (Assign p n) s = (Finished, s_Pennies D w p n s)"
| "account_step D w (Pay who n) s = (case payfor D w who n s of (b, s1) \<Rightarrow> (Paid b, s1))"
| "account_step D w (Pay_force who n) s = (case payfor_force D w who n s of (b, s1) \<Rightarrow> (Paid b, s1))"
| "account_step D w (Pay_give who n) s = (case payfor_give D w who n s of (b, s1) \<Rightarrow> (Paid b, s1))"
| "account_step D w (Receive who n) s = (Finished, giveto D w who n s)"
| "account_step D w (Count p n) s = (case a_Queue D w p n s of (k, s1) \<Rightarrow> (Amount k, s1))"
| "account_step D w Trim s = (Finished, pcache_trim D w s)"
| "account_step D w Sync s = (Finished, pcache_sync D w s)"

text \<open>Who has commands counted, who need not pay, and who neither pays nor receives gifts.\<close>

definition has_block :: "world \<Rightarrow> int \<Rightarrow> bool" where
  "has_block w p \<longleftrightarrow> Good_obj w p \<and> w_OwnsOthers w p"

definition is_rich :: "world \<Rightarrow> int \<Rightarrow> bool" where
  "is_rich w who \<longleftrightarrow> \<not> no_free w who \<and> (w_Builder w who \<or> w_Builder w (Owner w who))"

definition pays_not :: "world \<Rightarrow> int \<Rightarrow> bool" where
  "pays_not w who \<longleftrightarrow> is_rich w who \<or> \<not> no_free w who \<and> (w_FreeFlag w who \<or> w_FreeFlag w (Owner w who))"

definition withdraw :: "int \<Rightarrow> int \<Rightarrow> ledger \<Rightarrow> account_result \<times> ledger" where
  "withdraw p n L = (if fst L p \<ge> n then (Paid True, ((fst L)(p := fst L p - n), snd L)) else (Paid False, L))"

fun ledger_step :: "world \<Rightarrow> account_op \<Rightarrow> ledger \<Rightarrow> account_result \<times> ledger" where
  "ledger_step w (Ask p) L = (Amount (fst L p), L)"
| "ledger_step w (Assign p n) L = (Finished, ((fst L)(p := n), snd L))"
| "ledger_step w (Pay who n) L = (if pays_not w who then (Paid True, L) else withdraw (Owner w who) n L)"
| "ledger_step w (Pay_force who n) L =
     (Paid True, if pays_not w who then L else ((fst L)(Owner w who := fst L (Owner w who) - n), snd L))"
| "ledger_step w (Pay_give who n) L = (if is_rich w who then (Paid True, L) else withdraw (Owner w who) n L)"
| "ledger_step w (Receive who n) L =
     (Finished, if is_rich w who then L else ((fst L)(Owner w who := fst L (Owner w who) + n), snd L))"
| "ledger_step w (Count p n) L =
     (if has_block w p then (Amount (snd L p + n), (fst L, (snd L)(p := snd L p + n))) else (Amount 0, L))"
| "ledger_step w Trim L = (Finished, L)"
| "ledger_step w Sync L = (Finished, L)"

text \<open>The players an operation asks about have numbers an int can hold and are not being recovered.\<close>

definition player_ok :: "world \<Rightarrow> int \<Rightarrow> bool" where
  "player_ok w p \<longleftrightarrow> in31 p \<and> \<not> w_Recover w p"

fun account_op_ok :: "world \<Rightarrow> account_op \<Rightarrow> bool" where
  "account_op_ok w (Ask p) \<longleftrightarrow> player_ok w p"
| "account_op_ok w (Assign p n) \<longleftrightarrow> player_ok w p"
| "account_op_ok w (Pay who n) \<longleftrightarrow> player_ok w (Owner w who)"
| "account_op_ok w (Pay_force who n) \<longleftrightarrow> player_ok w (Owner w who)"
| "account_op_ok w (Pay_give who n) \<longleftrightarrow> player_ok w (Owner w who)"
| "account_op_ok w (Receive who n) \<longleftrightarrow> player_ok w (Owner w who)"
| "account_op_ok w (Count p n) \<longleftrightarrow> player_ok w p"
| "account_op_ok w Trim \<longleftrightarrow> True"
| "account_op_ok w Sync \<longleftrightarrow> True"

text \<open>What an operation adds to a balance at most.\<close>

fun amount :: "account_op \<Rightarrow> int" where
  "amount (Assign p n) = \<bar>n\<bar>"
| "amount (Pay who n) = \<bar>n\<bar>"
| "amount (Pay_force who n) = \<bar>n\<bar>"
| "amount (Pay_give who n) = \<bar>n\<bar>"
| "amount (Receive who n) = \<bar>n\<bar>"
| "amount _ = 0"

lemma ledger_bound:
  assumes "ledger_step w x L = (r, L')" "\<forall>p. \<bar>fst L p\<bar> \<le> T"
  shows "\<forall>p. \<bar>fst L' p\<bar> \<le> T + amount x"
proof -
  have "0 \<le> T" using assms(2) abs_ge_zero order_trans by blast
  then have "\<bar>fst L' p\<bar> \<le> T + amount x" for p
    using assms(1) assms(2) [rule_format, of p] by (cases x) (auto simp: withdraw_def split: if_splits)
  then show ?thesis ..
qed

subsection \<open>Printed amounts\<close>

lemma sprintf_d_amount:
  assumes "\<bar>n\<bar> \<le> INT_MAX"
  shows "atoi (sprintf_d n) = n" "sprintf_d n \<noteq> []" "cstring (sprintf_d n)" "length (sprintf_d n) \<le> 11"
    "deref (sprintf_d n) \<noteq> ATR_INFO_CHAR"
proof -
  define m where "m = \<bar>n\<bar>"
  have m: "0 \<le> m" "m \<le> INT_MAX" using assms by (simp_all add: m_def)
  from itoa_loop_digits [OF m(1), of "[]"] obtain ds where ds: "itoa_loop m [] = ds" "ds \<noteq> []" "\<forall>c\<in>set ds. is_digit c"
    "digits_val 0 ds = m" "10 ^ (length ds - 1) \<le> max 1 m" by auto
  have s: "sprintf_d n = (if n < 0 then CHR ''-'' # ds else ds)" using ds(1) by (cases "n < 0") (simp_all add: sprintf_d_def m_def)
  have "max 1 m < (10::int) ^ 10" using m by (simp add: INT_MAX_def)
  then have "length ds - 1 < 10" using ds(5) power_less_imp_less_exp [of "10 :: int" "length ds - 1" 10] by simp
  then have "length ds \<le> 10" by arith
  then show "length (sprintf_d n) \<le> 11" by (simp add: s)
  show "sprintf_d n \<noteq> []" using ds(2) by (simp add: s)
  show "atoi (sprintf_d n) = n"
    using atoi_digits [OF ds(2,3)] ds(4) m(2) by (auto simp: s m_def INT_MIN_def INT_MAX_def clamp32_def)
  show "cstring (sprintf_d n)" using sprintf_d_cstring [of n] assms by simp
  show "deref (sprintf_d n) \<noteq> ATR_INFO_CHAR"
    using ds(2,3) by (cases ds) (auto simp: s ATR_INFO_CHAR_def is_digit_def)
qed

lemma number_or_amount: "\<bar>n\<bar> \<le> INT_MAX \<Longrightarrow> number_or k (Some (sprintf_d n)) = n"
  using sprintf_d_amount(1,2) [of n] by (cases "sprintf_d n") (simp_all add: number_or_def)

subsection \<open>Flags of a block\<close>

lemma pflag_bits:
  "pflag pp PF_DEAD \<longleftrightarrow> bit (cflags pp) 0" "pflag pp PF_REF \<longleftrightarrow> bit (cflags pp) 1"
  "pflag pp PF_MONEY_CH \<longleftrightarrow> bit (cflags pp) 2" "pflag pp PF_QMAX_CH \<longleftrightarrow> bit (cflags pp) 3"
proof -
  have "x AND 2 ^ n \<noteq> 0 \<longleftrightarrow> bit x n" for x :: "32 word" and n by (simp add: and_exp_eq_0_iff_not_bit)
  from this [of _ 0] this [of _ 1] this [of _ 2] this [of _ 3] show
    "pflag pp PF_DEAD \<longleftrightarrow> bit (cflags pp) 0" "pflag pp PF_REF \<longleftrightarrow> bit (cflags pp) 1"
    "pflag pp PF_MONEY_CH \<longleftrightarrow> bit (cflags pp) 2" "pflag pp PF_QMAX_CH \<longleftrightarrow> bit (cflags pp) 3"
    by (simp_all add: pflag_def PF_DEAD_def PF_REF_def PF_MONEY_CH_def PF_QMAX_CH_def)
qed

lemmas flag_values = PF_DEAD_def PF_REF_def PF_MONEY_CH_def PF_QMAX_CH_def

lemma pflag_changes:
  "pflag (pp\<lparr>cflags := cflags pp OR PF_REF\<rparr>) PF_DEAD = pflag pp PF_DEAD"
  "pflag (pp\<lparr>cflags := cflags pp OR PF_REF\<rparr>) PF_MONEY_CH = pflag pp PF_MONEY_CH"
  "pflag (pp\<lparr>cflags := cflags pp OR PF_REF\<rparr>) PF_QMAX_CH = pflag pp PF_QMAX_CH"
  "pflag (pp\<lparr>cflags := cflags pp AND NOT PF_REF\<rparr>) PF_DEAD = pflag pp PF_DEAD"
  "pflag (pp\<lparr>cflags := cflags pp AND NOT PF_REF\<rparr>) PF_MONEY_CH = pflag pp PF_MONEY_CH"
  "pflag (pp\<lparr>cflags := cflags pp AND NOT PF_REF\<rparr>) PF_QMAX_CH = pflag pp PF_QMAX_CH"
  "pflag (pp\<lparr>pc_money := m, cflags := cflags pp OR PF_MONEY_CH\<rparr>) PF_DEAD = pflag pp PF_DEAD"
  "pflag (pp\<lparr>pc_money := m, cflags := cflags pp OR PF_MONEY_CH\<rparr>) PF_MONEY_CH"
  "pflag (pp\<lparr>pc_money := m, cflags := cflags pp OR PF_MONEY_CH\<rparr>) PF_QMAX_CH = pflag pp PF_QMAX_CH"
  unfolding pflag_bits by (simp_all add: bit_or_iff bit_and_iff bit_not_iff flag_values)

definition saved_block :: "PCACHE \<Rightarrow> PCACHE" where
  "saved_block pp = pp\<lparr>cflags := cflags pp AND NOT (PF_MONEY_CH OR PF_QMAX_CH)\<rparr>"

lemma saved_block_simps [simp]:
  "pflag (saved_block pp) PF_DEAD = pflag pp PF_DEAD" "\<not> pflag (saved_block pp) PF_MONEY_CH"
  "\<not> pflag (saved_block pp) PF_QMAX_CH" "pc_player (saved_block pp) = pc_player pp"
  "pc_money (saved_block pp) = pc_money pp" "pc_queue (saved_block pp) = pc_queue pp"
  unfolding pflag_bits by (simp_all add: saved_block_def bit_and_iff bit_not_iff bit_or_iff flag_values)

subsection \<open>Lists of blocks\<close>

text \<open>The balances and counts that a list of blocks over the stored amounts stands for.\<close>

fun current :: "PCACHE list \<Rightarrow> (int \<Rightarrow> int) \<Rightarrow> int \<Rightarrow> int" where
  "current [] v = v"
| "current (pp # ps) v = (current ps v)(pc_player pp := pc_money pp)"

fun counts :: "PCACHE list \<Rightarrow> int \<Rightarrow> int" where
  "counts [] = (\<lambda>_. 0)"
| "counts (pp # ps) = (counts ps)(pc_player pp := pc_queue pp)"

definition changed :: "PCACHE \<Rightarrow> nat" where
  "changed pp = of_bool (pflag pp PF_MONEY_CH)"

lemma changed_le: "changed pp \<le> 1"
  by (simp add: changed_def)

abbreviation changes :: "PCACHE list \<Rightarrow> nat" where
  "changes ps \<equiv> sum_list (map changed ps)"

abbreviation players :: "PCACHE list \<Rightarrow> int set" where
  "players ps \<equiv> pc_player ` set ps"

text \<open>A block that is not marked as changed agrees with the stored amount.\<close>

definition block_ok :: "world \<Rightarrow> (int \<Rightarrow> int) \<Rightarrow> PCACHE \<Rightarrow> bool" where
  "block_ok w v pp \<longleftrightarrow> \<not> pflag pp PF_DEAD \<and> \<not> pflag pp PF_QMAX_CH \<and> in31 (pc_player pp) \<and> has_block w (pc_player pp) \<and>
     \<bar>pc_money pp\<bar> \<le> INT_MAX \<and> (\<not> pflag pp PF_MONEY_CH \<longrightarrow> v (pc_player pp) = pc_money pp)"

definition blocks_ok :: "world \<Rightarrow> (int \<Rightarrow> int) \<Rightarrow> PCACHE list \<Rightarrow> bool" where
  "blocks_ok w v ps \<longleftrightarrow> distinct (map pc_player ps) \<and> (\<forall>pp\<in>set ps. block_ok w v pp)"

lemma blocks_ok_simps [simp]:
  "blocks_ok w v []"
  "blocks_ok w v (pp # ps) \<longleftrightarrow> pc_player pp \<notin> players ps \<and> block_ok w v pp \<and> blocks_ok w v ps"
  by (auto simp: blocks_ok_def)

lemma blocks_ok_upd: "p \<notin> players ps \<Longrightarrow> blocks_ok w (v(p := m)) ps = blocks_ok w v ps"
  by (induction ps) (auto simp: block_ok_def)

lemma current_other: "p \<notin> players ps \<Longrightarrow> current ps v p = v p"
  by (induction ps) auto

lemma counts_other: "p \<notin> players ps \<Longrightarrow> counts ps p = 0"
  by (induction ps) auto

lemma current_upd: "p \<notin> players ps \<Longrightarrow> current ps (v(p := m)) = (current ps v)(p := m)"
  by (induction ps) (auto simp: fun_upd_twist)

lemma first_block:
  assumes "block_ok w v q"
  shows "find (live_block p) (q # ps) = (if pc_player q = p then Some q else find (live_block p) ps)"
    "update_first (live_block p) f (q # ps) = (if pc_player q = p then f q # ps else q # update_first (live_block p) f ps)"
  using assms by (auto simp: live_block_def block_ok_def)

lemma no_block: "blocks_ok w v ps \<Longrightarrow> find (live_block p) ps = None \<longleftrightarrow> p \<notin> players ps"
  by (induction ps) (auto simp: first_block simp del: find.simps(2) split: if_splits)

lemma found_block:
  assumes "blocks_ok w v ps" "find (live_block p) ps = Some pp"
  shows "pp \<in> set ps" "pc_player pp = p" "pc_money pp = current ps v p" "pc_queue pp = counts ps p" "block_ok w v pp"
proof -
  have "pp \<in> set ps \<and> pc_player pp = p \<and> pc_money pp = current ps v p \<and> pc_queue pp = counts ps p \<and> block_ok w v pp"
    using assms by (induction ps) (auto simp: first_block simp del: find.simps(2) split: if_splits)
  then show "pp \<in> set ps" "pc_player pp = p" "pc_money pp = current ps v p" "pc_queue pp = counts ps p" "block_ok w v pp"
    by simp_all
qed

lemma update_block:
  assumes "blocks_ok w v ps" "find (live_block p) ps = Some pp" "pc_player (f pp) = p" "block_ok w v (f pp)"
  defines "qs \<equiv> update_first (live_block p) f ps"
  shows "blocks_ok w v qs" "current qs v = (current ps v)(p := pc_money (f pp))" "counts qs = (counts ps)(p := pc_queue (f pp))"
    "changes qs + changed pp = changes ps + changed (f pp)" "players qs = players ps"
    "find (live_block p) qs = Some (f pp)"
proof -
  have "blocks_ok w v qs \<and> current qs v = (current ps v)(p := pc_money (f pp)) \<and> counts qs = (counts ps)(p := pc_queue (f pp)) \<and>
    changes qs + changed pp = changes ps + changed (f pp) \<and> players qs = players ps \<and> find (live_block p) qs = Some (f pp)"
    unfolding qs_def using assms(1-4)
  proof (induction ps)
    case (Cons q ps)
    have q: "block_ok w v q" using Cons.prems by simp
    show ?case
    proof (cases "pc_player q = p")
      case True
      then have pp: "pp = q" using Cons.prems(2) by (simp add: first_block [OF q] del: find.simps(2))
      then show ?thesis using Cons.prems True
        by (simp add: first_block [OF q] first_block(1) [OF Cons.prems(4) [unfolded pp]] fun_eq_iff del: find.simps(2) update_first.simps(2))
    next
      case False
      then show ?thesis using Cons by (simp add: first_block [OF q] fun_eq_iff del: find.simps(2) update_first.simps(2))
    qed
  qed simp
  then show "blocks_ok w v qs" "current qs v = (current ps v)(p := pc_money (f pp))" "counts qs = (counts ps)(p := pc_queue (f pp))"
    "changes qs + changed pp = changes ps + changed (f pp)" "players qs = players ps"
    "find (live_block p) qs = Some (f pp)" by simp_all
qed

subsection \<open>Under the laws of the attribute cache\<close>

lemma num_ok_A_MONEY: "num_ok A_MONEY"
  by (simp add: num_ok_def in31_def A_MONEY_def A_LIST_def)

context attr_cache
begin

text \<open>The stored amount of a player.\<close>

definition saved :: "'c attr_state \<Rightarrow> int \<Rightarrow> int" where
  "saved a p = (if in31 p then number_or 0 (stored a p A_MONEY) else 0)"

lemma get_raw_ok:
  assumes "layer_ok g N (adb s) M" "get_raw D p n s = (v, s1)"
  shows "v = stored (adb s) p n" "layer_ok g N (adb s1) M" "saved (adb s1) = saved (adb s)" "pcaches s1 = pcaches s"
proof -
  obtain a where r: "atr_get_raw D p n (adb s) = (v, a)" "s1 = s\<lparr>adb := a\<rparr>" using assms(2) by (auto simp: get_raw_def split: prod.splits)
  note rd = read_layer [OF assms(1) r(1)]
  have "stored a = stored (adb s)" by (rule read_frame(8) [OF layer_okD(5) [OF assms(1)] r(1)])
  then show "v = stored (adb s) p n" "layer_ok g N (adb s1) M" "saved (adb s1) = saved (adb s)" "pcaches s1 = pcaches s"
    using rd r(2) by (simp_all add: saved_def fun_eq_iff)
qed

lemma add_money:
  assumes l: "layer_ok (w_g w) N (adb s) M" and N: "N + 2 < LIMIT" and p: "in31 p" and n: "\<bar>n\<bar> \<le> INT_MAX"
  defines "s1 \<equiv> add_raw D w p A_MONEY (Some (sprintf_d n)) s"
  shows "\<exists>M1. layer_ok (w_g w) (N + 2) (adb s1) M1" "saved (adb s1) = (saved (adb s))(p := n)" "pcaches s1 = pcaches s"
proof -
  note t = sprintf_d_amount [OF n]
  have s1: "s1 = s\<lparr>adb := atr_add_raw D (w_cf w) (w_g w) p A_MONEY (Some (sprintf_d n)) (adb s)\<rparr>"
    by (simp add: s1_def add_raw_def A_MONEY_def A_QUEUEMAX_def)
  have len: "length (sprintf_d n) \<le> LBUF_SIZE" using t(4) by (simp add: LBUF_SIZE_def)
  have dec: "atr_decode (g_Owner (w_g w)) (sprintf_d n) p = Some (sprintf_d n, g_Owner (w_g w) p, 0)"
    using t(5) by (simp add: atr_decode_def)
  note add = l N p num_ok_A_MONEY t(3,2) len dec
  show "\<exists>M1. layer_ok (w_g w) (N + 2) (adb s1) M1" using atr_add_raw_ok [OF add, of "w_cf w"] by (auto simp: s1 simp del: split_paired_Ex)
  have A: "in31 A_MONEY" "A_MONEY \<noteq> A_LIST" using num_ok_A_MONEY by (simp_all add: num_ok_def)
  show "saved (adb s1) = (saved (adb s))(p := n)"
    using atr_add_raw_stored [OF add, of "w_cf w"] A p number_or_amount [OF n] by (auto simp: s1 saved_def fun_eq_iff)
  show "pcaches s1 = pcaches s" by (simp add: s1)
qed

text \<open>
  \<open>s1\<close> comes from \<open>s\<close> by writing amounts back. Every changed block has paid for two more
  attributes, so that \<open>N\<close> and twice the number of the changed blocks do not grow.
\<close>

definition within :: "world \<Rightarrow> nat \<Rightarrow> PCACHE list \<Rightarrow> 'c pcache_state \<Rightarrow> bool" where
  "within w K ps s \<longleftrightarrow> (\<exists>N M. layer_ok (w_g w) N (adb s) M \<and> N + 2 * changes ps \<le> K)"

lemma pcache_save_ok:
  assumes "within w K (pp # ps) s" "K < LIMIT" "block_ok w (saved (adb s)) pp" "pcache_save D w pp s = (pp1, s1)"
  shows "within w K (pp1 # ps) s1" "saved (adb s1) = (saved (adb s))(pc_player pp := pc_money pp)"
    "block_ok w (saved (adb s1)) pp1" "changed pp1 = 0" "pc_player pp1 = pc_player pp" "pc_money pp1 = pc_money pp"
    "pc_queue pp1 = pc_queue pp" "within w K ps s1"
proof -
  note b = assms(3) [unfolded block_ok_def]
  obtain N M where N: "layer_ok (w_g w) N (adb s) M" "N + 2 * changes (pp # ps) \<le> K" using assms(1) by (auto simp: within_def)
  have pp1: "pp1 = saved_block pp"
      "s1 = (if pflag pp PF_MONEY_CH then add_raw D w (pc_player pp) A_MONEY (Some (sprintf_d (pc_money pp))) s else s)"
    using assms(4) b by (auto simp: pcache_save_def Let_def saved_block_def)
  show c: "changed pp1 = 0" "pc_player pp1 = pc_player pp" "pc_money pp1 = pc_money pp" "pc_queue pp1 = pc_queue pp"
    by (simp_all add: pp1 changed_def)
  have s1: "(\<exists>N M. layer_ok (w_g w) N (adb s1) M \<and> N + 2 * changes ps \<le> K) \<and> saved (adb s1) = (saved (adb s))(pc_player pp := pc_money pp)"
  proof (cases "pflag pp PF_MONEY_CH")
    case True
    then have "N + 2 < LIMIT" "N + 2 + 2 * changes ps \<le> K" using N(2) assms(2) by (simp_all add: changed_def)
    moreover have "s1 = add_raw D w (pc_player pp) A_MONEY (Some (sprintf_d (pc_money pp))) s" using True pp1(2) by simp
    ultimately show ?thesis using add_money [OF N(1), of "pc_player pp" "pc_money pp"] b by blast
  next
    case False
    then have "N + 2 * changes ps \<le> K" using N(2) by simp
    then show ?thesis using N(1) b False by (auto simp: pp1(2) simp del: split_paired_Ex)
  qed
  then show "within w K (pp1 # ps) s1" "within w K ps s1" using c(1) by (simp_all add: within_def)
  show "saved (adb s1) = (saved (adb s))(pc_player pp := pc_money pp)" using s1 ..
  then show "block_ok w (saved (adb s1)) pp1" using b by (simp add: block_ok_def pp1(1))
qed

lemma sync_blocks_ok:
  assumes "within w K ps s" "K < LIMIT" "blocks_ok w (saved (adb s)) ps" "sync_blocks D w ps s = (qs, s1)"
  shows "within w K qs s1 \<and> saved (adb s1) = current ps (saved (adb s)) \<and> blocks_ok w (saved (adb s1)) qs \<and>
    current qs (saved (adb s1)) = saved (adb s1) \<and> counts qs = counts ps \<and> players qs = players ps"
  using assms
proof (induction ps arbitrary: s qs s1)
  case (Cons pp ps)
  obtain pp1 s2 where p: "pcache_save D w pp s = (pp1, s2)" by (metis prod.collapse)
  obtain qs2 where q: "sync_blocks D w ps s2 = (qs2, s1)" "qs = pp1 # qs2" using Cons.prems(4) p by (auto split: prod.splits)
  have b: "block_ok w (saved (adb s)) pp" "blocks_ok w (saved (adb s)) ps" "pc_player pp \<notin> players ps" using Cons.prems(3) by simp_all
  note sv = pcache_save_ok [OF Cons.prems(1,2) b(1) p]
  have "blocks_ok w (saved (adb s2)) ps" using b(2,3) by (simp add: sv(2) blocks_ok_upd)
  note IH = Cons.IH [OF sv(8) Cons.prems(2) this q(1)]
  have "current ps (saved (adb s2)) = (current ps (saved (adb s)))(pc_player pp := pc_money pp)"
    unfolding sv(2) by (rule current_upd [OF b(3)])
  with conjunct1 [OF conjunct2 [OF IH]] have s1: "saved (adb s1) = (current ps (saved (adb s)))(pc_player pp := pc_money pp)"
    by (rule trans)
  then have at: "saved (adb s1) (pc_player pp) = pc_money pp" by simp
  then have "block_ok w (saved (adb s1)) pp1" using sv(3) by (simp add: block_ok_def sv(2,5,6))
  moreover have h: "within w K qs2 s1" "blocks_ok w (saved (adb s1)) qs2" "counts qs2 = counts ps" "players qs2 = players ps"
      "current qs2 (saved (adb s1)) = saved (adb s1)"
    using IH by blast+
  ultimately have "blocks_ok w (saved (adb s1)) qs" using b(3) by (simp only: q(2) blocks_ok_simps sv(5) h simp_thms)
  moreover have "saved (adb s1) = current (pp # ps) (saved (adb s))" using s1 by simp
  moreover have "within w K qs s1" "counts qs = counts (pp # ps)" "players qs = players (pp # ps)"
    using h sv(4,5,7) by (simp_all add: q(2) within_def)
  moreover have "current qs (saved (adb s1)) = saved (adb s1)" by (simp add: q(2) sv(5,6) h(5) fun_upd_idem at)
  ultimately show ?case by (intro conjI)
qed simp

lemma trim_loop_ok:
  assumes "within w K ps s" "K < LIMIT" "blocks_ok w (saved (adb s)) ps" "pcache_trim_loop D w ps s = (qs, s1)"
  shows "within w K qs s1 \<and> blocks_ok w (saved (adb s1)) qs \<and> current qs (saved (adb s1)) = current ps (saved (adb s)) \<and>
    counts qs = counts ps \<and> players qs \<subseteq> players ps \<and> (\<forall>p. p \<notin> players ps \<longrightarrow> saved (adb s1) p = saved (adb s) p)"
  using assms
proof (induction ps arbitrary: s qs s1 K)
  case (Cons pp ps)
  have b: "block_ok w (saved (adb s)) pp" "blocks_ok w (saved (adb s)) ps" "pc_player pp \<notin> players ps" using Cons.prems(3) by simp_all
  have nd: "\<not> pflag pp PF_DEAD" using b(1) by (simp add: block_ok_def)
  show ?case
  proof (cases "pc_queue pp \<noteq> 0 \<or> pflag pp PF_REF")
    case True
    let ?pp = "pp\<lparr>cflags := cflags pp AND NOT PF_REF\<rparr>"
    obtain qs2 where q: "pcache_trim_loop D w ps s = (qs2, s1)" "qs = ?pp # qs2"
      using Cons.prems(4) nd True by (auto split: prod.splits)
    have c: "changed ?pp = changed pp" by (simp add: changed_def pflag_changes)
    have "within w (K - 2 * changed pp) ps s" using Cons.prems(1) by (auto simp: within_def simp del: split_paired_Ex)
    from Cons.IH [OF this _ b(2) q(1)] have IH: "within w (K - 2 * changed pp) qs2 s1" "blocks_ok w (saved (adb s1)) qs2"
        "current qs2 (saved (adb s1)) = current ps (saved (adb s))" "counts qs2 = counts ps" "players qs2 \<subseteq> players ps"
        "\<forall>p. p \<notin> players ps \<longrightarrow> saved (adb s1) p = saved (adb s) p"
      using Cons.prems(2) by auto
    have "2 * changed pp \<le> K" using Cons.prems(1) by (auto simp: within_def)
    then have "within w K qs s1" using IH(1) c by (auto simp: within_def q(2) simp del: split_paired_Ex)
    moreover have "block_ok w (saved (adb s1)) ?pp" using b(1,3) IH(6) by (simp add: block_ok_def pflag_changes)
    ultimately show ?thesis using IH b(3) by (auto simp: q(2))
  next
    case False
    obtain pp1 s2 where p: "pcache_save D w pp s = (pp1, s2)" by (metis prod.collapse)
    have q: "pcache_trim_loop D w ps s2 = (qs, s1)" using Cons.prems(4) nd False p by simp
    note sv = pcache_save_ok [OF Cons.prems(1,2) b(1) p]
    have "blocks_ok w (saved (adb s2)) ps" using b(2,3) by (simp add: sv(2) blocks_ok_upd)
    note IH = Cons.IH [OF sv(8) Cons.prems(2) this q]
    have "current ps (saved (adb s2)) = (current ps (saved (adb s)))(pc_player pp := pc_money pp)"
      unfolding sv(2) by (rule current_upd [OF b(3)])
    moreover have "saved (adb s2) p = saved (adb s) p" if "p \<noteq> pc_player pp" for p using that by (simp add: sv(2))
    moreover have "counts ps (pc_player pp) = 0" using b(3) by (rule counts_other)
    ultimately show ?thesis using IH False by (auto simp: fun_upd_idem)
  qed
qed simp

subsection \<open>The accounts\<close>

text \<open>\<open>s\<close> stands for the ledger \<open>L\<close>.\<close>

definition accounts :: "world \<Rightarrow> nat \<Rightarrow> 'c pcache_state \<Rightarrow> ledger \<Rightarrow> bool" where
  "accounts w K s L \<longleftrightarrow> within w K (pcaches s) s \<and> blocks_ok w (saved (adb s)) (pcaches s) \<and>
     current (pcaches s) (saved (adb s)) = fst L \<and> counts (pcaches s) = snd L \<and> (\<forall>p. \<bar>fst L p\<bar> \<le> INT_MAX)"

lemma accounts_mono: "accounts w K s L \<Longrightarrow> K \<le> K' \<Longrightarrow> accounts w K' s L"
  by (fastforce simp: accounts_def within_def)

lemma accounts_read:
  assumes "accounts w K s L" "get_raw D p n s = (v, s1)"
  shows "accounts w K s1 L" "v = stored (adb s) p n" "pcaches s1 = pcaches s"
proof -
  obtain N M where N: "layer_ok (w_g w) N (adb s) M" "N + 2 * changes (pcaches s) \<le> K"
    using assms(1) by (auto simp: accounts_def within_def)
  note r = get_raw_ok [OF N(1) assms(2)]
  show "accounts w K s1 L" using assms(1) N r by (auto simp: accounts_def within_def simp del: split_paired_Ex)
  show "v = stored (adb s) p n" "pcaches s1 = pcaches s" by (rule r)+
qed

lemma accounts_set:
  assumes a: "accounts w K s L" "pcache_at p s = Some pp"
    and f: "pc_player (f pp) = p" "block_ok w (saved (adb s)) (f pp)"
  shows "accounts w (K + 2 * changed (f pp) - 2 * changed pp) (pcache_set p f s) ((fst L)(p := pc_money (f pp)), (snd L)(p := pc_queue (f pp)))"
    "pcache_at p (pcache_set p f s) = Some (f pp)"
proof -
  note a' = a [unfolded accounts_def pcache_at_def]
  note u = update_block [where f = f, OF conjunct1 [OF conjunct2 [OF a'(1)]] a'(2) f]
  have "changes (update_first (live_block p) f (pcaches s)) + changed pp = changes (pcaches s) + changed (f pp)" by (rule u(4))
  moreover obtain N M where N: "layer_ok (w_g w) N (adb s) M" "N + 2 * changes (pcaches s) \<le> K"
    using a'(1) by (auto simp: within_def)
  ultimately have "within w (K + 2 * changed (f pp) - 2 * changed pp) (update_first (live_block p) f (pcaches s)) (pcache_set p f s)"
    unfolding within_def pcache_set_def by (auto intro!: exI [of _ N] exI [of _ M] simp del: split_paired_Ex)
  moreover have "\<bar>pc_money (f pp)\<bar> \<le> INT_MAX" using f(2) by (simp add: block_ok_def)
  ultimately show "accounts w (K + 2 * changed (f pp) - 2 * changed pp) (pcache_set p f s)
      ((fst L)(p := pc_money (f pp)), (snd L)(p := pc_queue (f pp)))"
    using a'(1) u(1-3) by (simp add: accounts_def pcache_set_def)
  show "pcache_at p (pcache_set p f s) = Some (f pp)" using u(6) by (simp add: pcache_at_def pcache_set_def)
qed

lemma accounts_block:
  assumes "accounts w K s L" "pcache_at p s = Some pp"
  shows "pc_player pp = p" "pc_money pp = fst L p" "pc_queue pp = snd L p" "block_ok w (saved (adb s)) pp"
  using assms found_block [of w "saved (adb s)" "pcaches s" p pp] by (simp_all add: accounts_def pcache_at_def)

lemma accounts_none:
  assumes "accounts w K s L" "pcache_at p s = None"
  shows "fst L p = saved (adb s) p" "snd L p = 0" "p \<notin> players (pcaches s)"
proof -
  show p: "p \<notin> players (pcaches s)"
    using assms no_block [of w "saved (adb s)" "pcaches s" p] by (simp add: accounts_def pcache_at_def)
  show "fst L p = saved (adb s) p" "snd L p = 0"
    using assms(1) current_other [OF p, of "saved (adb s)"] counts_other [OF p] by (simp_all add: accounts_def)
qed

lemma accounts_find:
  assumes a: "accounts w K s L" and p: "in31 p" and r: "pcache_find D w p s = (found, s1)"
  shows "accounts w K s1 L" "found = has_block w p" "found \<Longrightarrow> \<exists>pp. pcache_at p s1 = Some pp" "\<not> found \<Longrightarrow> s1 = s"
proof -
  have "accounts w K s1 L \<and> found = has_block w p \<and> (found \<longrightarrow> (\<exists>pp. pcache_at p s1 = Some pp)) \<and> (\<not> found \<longrightarrow> s1 = s)"
  proof (cases "has_block w p")
    case False
    then show ?thesis using r a by (auto simp: pcache_find_def has_block_def)
  next
    case hb: True
    show ?thesis
    proof (cases "pcache_at p s")
      case (Some pp)
      let ?f = "\<lambda>pp. pp\<lparr>cflags := cflags pp OR PF_REF\<rparr>"
      note b = accounts_block [OF a Some]
      have "block_ok w (saved (adb s)) (?f pp)" using b(4) by (simp add: block_ok_def pflag_changes)
      from accounts_set [where f = ?f, OF a Some _ this] have "accounts w K (pcache_set p ?f s) L" "pcache_at p (pcache_set p ?f s) = Some (?f pp)"
        using b(1) by (simp_all add: b(2,3) changed_def pflag_changes)
      then show ?thesis using r Some hb by (auto simp: pcache_find_def has_block_def)
    next
      case None
      let ?pp = "\<lparr>pc_player = p, pc_money = 0, pc_queue = 0, pc_qmax = 0, cflags = PF_REF\<rparr>"
      obtain cp s2 where m: "get_raw D p A_MONEY s = (cp, s2)" by (metis prod.collapse)
      obtain cq s3 where q: "get_raw D p A_QUEUEMAX s2 = (cq, s3)" by (metis prod.collapse)
      note r1 = accounts_read [OF a m]
      note r2 = accounts_read [OF r1(1) q]
      define pp where "pp = ?pp\<lparr>pc_money := number_or 0 cp,
          pc_qmax := number_or (if \<not> w_Builder w p then queuemax w else - 1) cq\<rparr>"
      have s1: "found" "s1 = s3\<lparr>pcaches := pp # pcaches s3\<rparr>"
        using r hb None m q by (auto simp: pcache_find_def has_block_def pcache_reload1_def pp_def Let_def)
      have at3: "pcache_at p s3 = None" using None r1(3) r2(3) by (simp add: pcache_at_def)
      note n = accounts_none [OF a None] accounts_none [OF r2(1) at3]
      have money: "pc_money pp = fst L p" using n(1) p r1(2) by (simp add: pp_def saved_def)
      have "\<bar>fst L p\<bar> \<le> INT_MAX" using a by (simp add: accounts_def)
      then have b: "block_ok w (saved (adb s3)) pp" "changed pp = 0"
        using hb p money n(4) by (simp_all add: block_ok_def changed_def pflag_bits) (simp_all add: pp_def PF_REF_def)
      have "accounts w K s1 L"
        using r2(1) b n(5,6) money s1(2) by (auto simp: accounts_def within_def fun_upd_idem pp_def simp del: split_paired_Ex)
      moreover have "pcache_at p s1 = Some pp" using first_block(1) [OF b(1), of p] by (simp add: pcache_at_def s1(2)) (simp add: pp_def)
      ultimately show ?thesis using hb s1(1) by simp
    qed
  qed
  then show "accounts w K s1 L" "found = has_block w p" "found \<Longrightarrow> \<exists>pp. pcache_at p s1 = Some pp" "\<not> found \<Longrightarrow> s1 = s" by simp_all
qed

lemma Pennies_ok:
  assumes a: "accounts w K s L" and p: "player_ok w p" and r: "Pennies D w p s = (n, s1)"
  shows "accounts w K s1 L \<and> n = fst L p"
proof -
  have p': "in31 p" "\<not> w_Recover w p" using p by (simp_all add: player_ok_def)
  obtain found s2 where f: "pcache_find D w p s = (found, s2)" by (metis prod.collapse)
  note fd = accounts_find [OF a p'(1) f]
  have e: "(if \<not> w_Recover w p \<and> w_OwnsOthers w p then pcache_find D w p s else (False, s)) = (found, s2)"
    using p'(2) f by (auto simp: pcache_find_def)
  show ?thesis
  proof (cases found)
    case True
    then obtain pp where pp: "pcache_at p s2 = Some pp" using fd(3) by blast
    then show ?thesis using r True fd(1) accounts_block(2) [OF fd(1) pp] by (simp add: Pennies_def e)
  next
    case False
    have none: "pcache_at p s2 = None"
      using accounts_block(1,4) [OF fd(1), of p] fd(2) False by (cases "pcache_at p s2") (auto simp: block_ok_def)
    obtain cp s3 where g: "get_raw D p A_MONEY s2 = (cp, s3)" by (metis prod.collapse)
    note rd = accounts_read [OF fd(1) g]
    show ?thesis using r rd accounts_none(1) [OF fd(1) none] p'(1) by (simp add: Pennies_def e none g saved_def)
  qed
qed

lemma s_Pennies_ok:
  assumes a: "accounts w K s L" and K: "K + 2 < LIMIT" and p: "in31 p" and n: "\<bar>n\<bar> \<le> INT_MAX"
  shows "accounts w (K + 2) (s_Pennies D w p n s) ((fst L)(p := n), snd L)"
proof -
  obtain found s2 where f: "pcache_find D w p s = (found, s2)" by (metis prod.collapse)
  note fd = accounts_find [OF a p f]
  have e: "(if w_OwnsOthers w p then pcache_find D w p s else (False, s)) = (found, s2)"
    using f by (auto simp: pcache_find_def)
  show ?thesis
  proof (cases found)
    case True
    let ?f = "\<lambda>pp. pp\<lparr>pc_money := n, cflags := cflags pp OR PF_MONEY_CH\<rparr>"
    obtain pp where pp: "pcache_at p s2 = Some pp" using True fd(3) by blast
    note b = accounts_block [OF fd(1) pp]
    have "block_ok w (saved (adb s2)) (?f pp)" using b(4) n by (simp add: block_ok_def pflag_changes)
    from accounts_set(1) [where f = ?f, OF fd(1) pp _ this]
    have "accounts w (K + 2 * changed (?f pp) - 2 * changed pp) (pcache_set p ?f s2) ((fst L)(p := n), snd L)"
      using b(1,3) by simp
    then have "accounts w (K + 2) (pcache_set p ?f s2) ((fst L)(p := n), snd L)"
      by (rule accounts_mono) (use changed_le [of "?f pp"] in arith)
    then show ?thesis using True by (simp add: s_Pennies_def e)
  next
    case False
    have none: "pcache_at p s2 = None"
      using accounts_block(1,4) [OF fd(1), of p] fd(2) False by (cases "pcache_at p s2") (auto simp: block_ok_def)
    let ?s = "add_raw D w p A_MONEY (Some (sprintf_d n)) s2"
    note nn = accounts_none(3) [OF fd(1) none]
    note a2 = fd(1) [unfolded accounts_def]
    obtain N M where N: "layer_ok (w_g w) N (adb s2) M" "N + 2 * changes (pcaches s2) \<le> K" using a2 by (auto simp: within_def)
    then have "N + 2 < LIMIT" using K by simp
    note ad = add_money [OF N(1) this p n]
    have "N + 2 + 2 * changes (pcaches s2) \<le> K + 2" using N(2) by simp
    then have "within w (K + 2) (pcaches ?s) ?s" using ad(1) unfolding ad(3) within_def by blast
    moreover have "blocks_ok w (saved (adb ?s)) (pcaches ?s)"
      unfolding ad(2,3) blocks_ok_upd [OF nn] using a2 by (elim conjE)
    moreover have "current (pcaches ?s) (saved (adb ?s)) = (fst L)(p := n)"
      unfolding ad(2,3) current_upd [OF nn] using a2 by simp
    ultimately have "accounts w (K + 2) ?s ((fst L)(p := n), snd L)" using a2 n unfolding accounts_def ad(3) by simp
    then show ?thesis using False by (simp add: s_Pennies_def e)
  qed
qed

lemma a_Queue_ok:
  assumes a: "accounts w K s L" and p: "in31 p" and r: "a_Queue D w p n s = (k, s1)"
  shows "ledger_step w (Count p n) L = (Amount k, if has_block w p then (fst L, (snd L)(p := snd L p + n)) else L) \<and>
    accounts w K s1 (if has_block w p then (fst L, (snd L)(p := snd L p + n)) else L)"
proof (cases "w_OwnsOthers w p")
  case False
  then show ?thesis using a r by (simp add: a_Queue_def has_block_def)
next
  case True
  obtain found s2 where f: "pcache_find D w p s = (found, s2)" by (metis prod.collapse)
  note fd = accounts_find [OF a p f]
  show ?thesis
  proof (cases found)
    case found: True
    let ?f = "\<lambda>pp. pp\<lparr>pc_queue := pc_queue pp + n\<rparr>"
    obtain pp where pp: "pcache_at p s2 = Some pp" using found fd(3) by blast
    note b = accounts_block [OF fd(1) pp]
    have fl: "pflag (pp\<lparr>pc_queue := m\<rparr>) x = pflag pp x" for m x by (simp add: pflag_def)
    have "block_ok w (saved (adb s2)) (?f pp)" using b(4) by (simp add: block_ok_def fl)
    from accounts_set [where f = ?f, OF fd(1) pp _ this] have
      "accounts w K (pcache_set p ?f s2) (fst L, (snd L)(p := snd L p + n))" "pcache_at p (pcache_set p ?f s2) = Some (?f pp)"
      using b(1-3) by (simp_all add: changed_def fl)
    then show ?thesis using True found fd(2) r b(3) by (auto simp: a_Queue_def f Let_def)
  next
    case False
    then show ?thesis using True fd a r by (simp add: a_Queue_def f)
  qed
qed

lemma trim_ok: "accounts w K s L \<Longrightarrow> K < LIMIT \<Longrightarrow> accounts w K (pcache_trim D w s) L"
proof -
  assume a: "accounts w K s L" "K < LIMIT"
  obtain ps s1 where t: "pcache_trim_loop D w (pcaches s) s = (ps, s1)" by (metis prod.collapse)
  from trim_loop_ok [OF _ a(2) _ t] have h: "within w K ps s1" "blocks_ok w (saved (adb s1)) ps"
      "current ps (saved (adb s1)) = current (pcaches s) (saved (adb s))" "counts ps = counts (pcaches s)"
    using a(1) by (auto simp: accounts_def)
  show ?thesis using a(1) h by (simp add: pcache_trim_def t accounts_def within_def)
qed

lemma sync_ok:
  assumes a: "accounts w K s L" "K < LIMIT"
  shows "accounts w K (pcache_sync D w s) L" "saved (adb (pcache_sync D w s)) = fst L"
proof -
  obtain ps s1 where t: "sync_blocks D w (pcaches s) s = (ps, s1)" by (metis prod.collapse)
  from sync_blocks_ok [OF _ a(2) _ t] have h: "within w K ps s1" "blocks_ok w (saved (adb s1)) ps" "counts ps = counts (pcaches s)"
      "current ps (saved (adb s1)) = saved (adb s1)" "saved (adb s1) = current (pcaches s) (saved (adb s))"
    using a(1) by (auto simp: accounts_def)
  show "accounts w K (pcache_sync D w s) L" using a(1) h(1-3) h(4) [unfolded h(5)] by (simp add: pcache_sync_def t accounts_def within_def h(5))
  show "saved (adb (pcache_sync D w s)) = fst L" using a(1) h(5) by (simp add: pcache_sync_def t accounts_def)
qed

lemma transfer_ok:
  assumes a: "accounts w K s L" and K: "K + 2 < LIMIT" and p: "player_ok w p" and T: "\<forall>p. \<bar>fst L p\<bar> \<le> T" "T + \<bar>n\<bar> \<le> INT_MAX"
    and r: "Pennies D w p s = (m, s1)" and n: "\<bar>k\<bar> \<le> \<bar>n\<bar>"
  shows "accounts w (K + 2) (s_Pennies D w p (m + k) s1) ((fst L)(p := fst L p + k), snd L)" "m = fst L p" "accounts w (K + 2) s1 L"
proof -
  note P = Pennies_ok [OF a p r]
  show "m = fst L p" using P ..
  have "\<bar>fst L p + k\<bar> \<le> INT_MAX" using T(1) [rule_format, of p] T(2) n by linarith
  then show "accounts w (K + 2) (s_Pennies D w p (m + k) s1) ((fst L)(p := fst L p + k), snd L)"
    using s_Pennies_ok [OF conjunct1 [OF P] K] P p by (simp add: player_ok_def)
  show "accounts w (K + 2) s1 L" using P accounts_mono by fastforce
qed

lemma account_step_refines:
  assumes a: "accounts w K s L" and K: "K + 2 < LIMIT" and x: "account_op_ok w x"
    and T: "\<forall>p. \<bar>fst L p\<bar> \<le> T" "T + amount x \<le> INT_MAX" and r: "account_step D w x s = (res, s')"
  shows "fst (ledger_step w x L) = res \<and> accounts w (K + 2) s' (snd (ledger_step w x L))"
proof -
  have up: "accounts w K s1 L1 \<Longrightarrow> accounts w (K + 2) s1 L1" for s1 L1 by (rule accounts_mono, assumption) simp
  have tr: "\<And>p n m s1 k. player_ok w p \<Longrightarrow> T + \<bar>n\<bar> \<le> INT_MAX \<Longrightarrow> Pennies D w p s = (m, s1) \<Longrightarrow> \<bar>k\<bar> \<le> \<bar>n\<bar> \<Longrightarrow>
      accounts w (K + 2) (s_Pennies D w p (m + k) s1) ((fst L)(p := fst L p + k), snd L) \<and> m = fst L p \<and> accounts w (K + 2) s1 L"
    using transfer_ok [OF a K _ T(1)] by blast
  note pr = x r T(2) up [OF a]
  show ?thesis
  proof (cases x)
    case (Ask p)
    then show ?thesis using r x Pennies_ok [OF a, of p] up by (auto split: prod.splits)
  next
    case (Assign p n)
    have "0 \<le> T" using T(1) abs_ge_zero order_trans by blast
    then have "\<bar>n\<bar> \<le> INT_MAX" using T(2) Assign by simp
    then show ?thesis using r x s_Pennies_ok [OF a K, of p n] Assign by (auto simp: player_ok_def)
  next
    case (Pay who n)
    obtain m s1 where m: "Pennies D w (Owner w who) s = (m, s1)" by (metis prod.collapse)
    show ?thesis using pr tr [OF _ _ m, of n "- n"] Pay m
      by (auto simp: payfor_def pays_not_def is_rich_def withdraw_def split: prod.splits if_splits)
  next
    case (Pay_force who n)
    obtain m s1 where m: "Pennies D w (Owner w who) s = (m, s1)" by (metis prod.collapse)
    show ?thesis using pr tr [OF _ _ m, of n "- n"] Pay_force m
      by (auto simp: payfor_force_def pays_not_def is_rich_def split: prod.splits if_splits)
  next
    case (Pay_give who n)
    obtain m s1 where m: "Pennies D w (Owner w who) s = (m, s1)" by (metis prod.collapse)
    show ?thesis using pr tr [OF _ _ m, of n "- n"] Pay_give m
      by (auto simp: payfor_give_def is_rich_def withdraw_def split: prod.splits if_splits)
  next
    case (Receive who n)
    obtain m s1 where m: "Pennies D w (Owner w who) s = (m, s1)" by (metis prod.collapse)
    show ?thesis using pr tr [OF _ _ m, of n n] Receive m
      by (auto simp: giveto_def is_rich_def split: prod.splits if_splits)
  next
    case (Count p n)
    obtain k s1 where k: "a_Queue D w p n s = (k, s1)" by (metis prod.collapse)
    have "in31 p" using x Count by (simp add: player_ok_def)
    note q = a_Queue_ok [OF a this k]
    then show ?thesis using r k Count up by (auto split: if_splits)
  next
    case Trim
    then show ?thesis using r trim_ok [OF a] K up by auto
  next
    case Sync
    then show ?thesis using r sync_ok(1) [OF a] K up by auto
  qed
qed

lemma account_run_refines:
  assumes "accounts w K s L" "K + 2 * length xs < LIMIT" "list_all (account_op_ok w) xs"
    "\<forall>p. \<bar>fst L p\<bar> \<le> T" "T + sum_list (map amount xs) \<le> INT_MAX" "run_ops (account_step D w) xs s = (rs, s')"
  shows "\<exists>L'. run_ops (ledger_step w) xs L = (rs, L') \<and> accounts w (K + 2 * length xs) s' L'"
  using assms
proof (induction xs arbitrary: K s L T rs s')
  case (Cons x xs)
  obtain r1 s1 where s1: "account_step D w x s = (r1, s1)" by (metis prod.collapse)
  obtain rs2 s2 where s2: "run_ops (account_step D w) xs s1 = (rs2, s2)" by (metis prod.collapse)
  have pos: "0 \<le> amount y" for y by (cases y) simp_all
  have "0 \<le> sum_list (map amount xs)" by (rule sum_list_nonneg) (auto simp: pos)
  then have T: "T + amount x \<le> INT_MAX" "T + amount x + sum_list (map amount xs) \<le> INT_MAX" using Cons.prems(5) by simp_all
  obtain L1 where L1: "ledger_step w x L = (r1, L1)" "accounts w (K + 2) s1 L1"
    using account_step_refines [OF Cons.prems(1) _ _ Cons.prems(4) T(1) s1] Cons.prems(2,3) by (cases "ledger_step w x L") auto
  note b = ledger_bound [OF L1(1) Cons.prems(4)]
  have "K + 2 + 2 * length xs < LIMIT" "list_all (account_op_ok w) xs" using Cons.prems(2,3) by simp_all
  from Cons.IH [OF L1(2) this b T(2) s2] obtain L2 where
    "run_ops (ledger_step w) xs L1 = (rs2, L2)" "accounts w (K + 2 + 2 * length xs) s2 L2" by blast
  moreover have "K + 2 + 2 * length xs = K + 2 * length (x # xs)" by simp
  ultimately show ?case using L1(1) Cons.prems(6) s1 s2 by (auto simp del: length_Cons)
qed simp

lemma fresh_accounts:
  assumes "layer_ok (w_g w) N a M" "N \<le> K" "\<forall>p. \<bar>saved a p\<bar> \<le> INT_MAX"
  shows "accounts w K (pcache_init a) (saved a, \<lambda>_. 0)"
  using assms by (auto simp: accounts_def within_def pcache_init_def simp del: split_paired_Ex)

lemma restart_balance:
  assumes a: "accounts w K s L" "K < LIMIT" and p: "player_ok w p"
  shows "fst (Pennies D w p (pcache_init (adb (pcache_sync D w s)))) = fst L p"
proof -
  let ?a = "adb (pcache_sync D w s)"
  note sy = sync_ok [OF a]
  obtain N M where N: "layer_ok (w_g w) N ?a M" "N \<le> K" using sy(1) by (auto simp: accounts_def within_def)
  have "\<forall>p. \<bar>saved ?a p\<bar> \<le> INT_MAX" using a(1) by (simp add: sy(2) accounts_def)
  note f = fresh_accounts [OF N this]
  obtain n s1 where "Pennies D w p (pcache_init ?a) = (n, s1)" by (metis prod.collapse)
  then show ?thesis using Pennies_ok [OF f p] sy(2) by simp
qed

end

subsection \<open>Properties\<close>

lemma no_accounts: "db.accounts w 0 (pcache_init attrs_start) (\<lambda>_. 0, \<lambda>_. 0)"
proof -
  have A: "in31 A_MONEY" "A_MONEY \<noteq> A_LIST" using num_ok_A_MONEY by (simp_all add: num_ok_def)
  have "db.stored attrs_start p A_MONEY = None" if "in31 p" for p
    using db.layer_okD(3) [OF attrs_start_ok] that A by (simp add: db.repr_def reads_as_def)
  then have s: "db.saved attrs_start = (\<lambda>_. 0)" by (auto simp: db.saved_def number_or_def)
  have "\<forall>p. \<bar>db.saved attrs_start p\<bar> \<le> INT_MAX" by (simp add: s INT_MAX_def)
  from db.fresh_accounts [OF attrs_start_ok _ this, of 0 w] show ?thesis by (simp add: s)
qed

text \<open>
  C6: over the attributes, the object cache and the chunk store, up to a hundred million
  operations on the money of players and on the counts of their queued commands, with
  \<open>pcache_trim\<close> and \<open>pcache_sync\<close> anywhere among them, return exactly what a ledger returns
  that keeps one balance and one count for every player: a payment succeeds when the balance
  suffices and takes exactly its cost, no payment or count is lost when a block is dropped and
  looked up again. After a last \<open>pcache_sync\<close> the attributes alone hold every balance, so that
  a server that starts with an empty player cache finds them. The amounts add up to no more
  than an int can hold, no player is being recovered, and no block is purged in between.
\<close>

theorem money_is_ledger:
  assumes "list_all (account_op_ok w) xs" "length xs < 100000000" "sum_list (map amount xs) \<le> INT_MAX"
    "run_ops (account_step cached w) xs (pcache_init attrs_start) = (rs, s')"
  shows "\<exists>money queued. run_ops (ledger_step w) xs (\<lambda>_. 0, \<lambda>_. 0) = (rs, (money, queued)) \<and>
    (\<forall>p. player_ok w p \<longrightarrow> fst (Pennies cached w p (pcache_init (adb (pcache_sync cached w s')))) = money p)"
proof -
  have N: "0 + 2 * length xs < LIMIT" using assms(2) by (simp add: LIMIT_def)
  have "\<forall>p. \<bar>fst (\<lambda>_. 0, \<lambda>_. 0 :: int) p\<bar> \<le> (0 :: int)" by simp
  from db.account_run_refines [OF no_accounts N assms(1) this _ assms(4)] assms(3) obtain L where
    L: "run_ops (ledger_step w) xs (\<lambda>_. 0, \<lambda>_. 0) = (rs, L)" "db.accounts w (0 + 2 * length xs) s' L" by auto
  then show ?thesis using db.restart_balance [OF L(2) N] by (cases L) auto
qed

definition thrifty_world :: world where
  "thrifty_world = \<lparr>w_g = sample_db, w_cf = sample_conf, w_OwnsOthers = (\<lambda>x. x < 3), w_Builder = (\<lambda>_. False),
     w_FreeFlag = (\<lambda>x. x = 7), w_DePrivFree = (\<lambda>_. False), w_Recover = (\<lambda>_. False), w_Going = (\<lambda>_. False),
     w_Typeof = (\<lambda>_. 1), w_InProgram = (\<lambda>_. False), w_Immortal = (\<lambda>_. False),
     w_Controls = (=), w_HaltPriv = (\<lambda>_ _. False), w_db_top = 10, queuemax = 100, wizqueuemax = 1000,
     waitcost = 10, machinecost = 64, queue_compatible = False\<rparr>"

theorem money_is_ledger_witness:
  "fst (run_ops (account_step cached thrifty_world)
     [Assign 1 100, Pay 5 30, Pay 5 80, Pay 7 80, Count 1 1, Trim, Trim, Ask 1, Receive 5 4, Sync, Trim, Ask 1, Count 1 (-1),
      Pay_force 5 80, Trim, Trim, Ask 1]
     (pcache_init attrs_start)) =
   [Finished, Paid True, Paid False, Paid True, Amount 1, Finished, Finished, Amount 70, Finished, Finished, Finished, Amount 74,
    Amount 0, Paid True, Finished, Finished, Amount (- 6)]"
proof -
  let ?xs = "[Assign 1 100, Pay 5 30, Pay 5 80, Pay 7 80, Count 1 1, Trim, Trim, Ask 1, Receive 5 4, Sync, Trim, Ask 1, Count 1 (-1),
      Pay_force 5 80, Trim, Trim, Ask 1]"
  obtain rs s' where r: "run_ops (account_step cached thrifty_world) ?xs (pcache_init attrs_start) = (rs, s')" by (metis prod.collapse)
  have "list_all (account_op_ok thrifty_world) ?xs" by (simp add: player_ok_def in31_def thrifty_world_def sample_db_def)
  from money_is_ledger [OF this _ _ r] obtain L where "run_ops (ledger_step thrifty_world) ?xs (\<lambda>_. 0, \<lambda>_. 0) = (rs, L)"
    by (auto simp: INT_MAX_def)
  then show ?thesis unfolding r
    by (auto simp: pays_not_def is_rich_def no_free_def withdraw_def has_block_def thrifty_world_def sample_db_def)
qed

end
