(* ===== verification/Cque.thy ===== *)
theory Cque
  imports Pcache Parse_to_Laws
begin

section \<open>The command queue (src/Server/src/cque.c)\<close>

text \<open>
  Commands wait in four lists: the player queue and the object queue, which \<open>do_second\<close> moves
  to the end of the player queue, the wait queue, in the order of the times, and the semaphore
  queue; two more hold frozen entries. Every entry has a process id, taken from
  \<open>pid_table\<close>, except for frozen ones, whose \<open>pid\<close> is the time of the freeze.

  A list is its first pointer with what can be reached from it; \<open>node\<close> is the address of an
  entry. The pointers \<open>qlast\<close> and \<open>qllast\<close> are, when they are set, the last entries of their
  lists, and the model keeps whether they are set; \<open>qsemlast\<close> and \<open>fqsemlast\<close> always are the
  last entries. The texts of an entry, which the code packs into one block, are fields.

  \<open>process_command\<close> of command.c is a parameter, a function on the state; so are the objects
  (\<open>world\<close>), the time (\<open>tm\<close>, what \<open>time(NULL)\<close> returns) and the random number. Times are integers
  that do not wrap around. Messages to players, log lines and the tables printed by \<open>do_ps\<close>
  are left out.
\<close>

subsection \<open>Data\<close>

record BQUE =
  node :: nat
  player :: int
  cause :: int
  sem :: int
  waittime :: int
  comm :: "string option"
  env :: "string option list"
  scr :: "string option list"
  scrname :: "string option list"
  nargs :: int
  pid :: int
  stop_bool :: int
  stop_bool_val :: int
  shellprg :: bool
  plr_type :: int

record 'c queue_state =
  pst :: "'c pcache_state"
  qfirst :: "BQUE list"
  qlast :: bool
  qlfirst :: "BQUE list"
  qllast :: bool
  qwait :: "BQUE list"
  qsem :: "BQUE list"
  fqwait :: "BQUE list"
  fqsem :: "BQUE list"
  pid_table :: "int \<Rightarrow> bool"
  last_pid :: int
  kick_pid :: int
  fresh :: nat
  q_now :: int
  q_lastnow :: int
  breakst :: bool
  force_halt :: bool
  curr_enactor :: int
  curr_player :: int
  global_regs :: "string list"
  global_regsname :: "string list"
  dequeue :: bool
  interp :: bool
  counters :: "int list"

type_synonym 'c command = "int \<Rightarrow> int \<Rightarrow> string \<Rightarrow> string option list \<Rightarrow> int \<Rightarrow> bool \<Rightarrow> 'c queue_state \<Rightarrow> 'c queue_state"

definition MUMAXPID :: int where "MUMAXPID = 32767"
definition NUM_ENV_VARS :: nat where "NUM_ENV_VARS = 10"
definition MAX_GLOBAL_REGS :: nat where "MAX_GLOBAL_REGS = 36"
definition TYPE_PLAYER :: int where "TYPE_PLAYER = 3"
definition HALT :: "32 word" where "HALT = 0x1000"
definition A_SEMAPHORE :: int where "A_SEMAPHORE = 47"
definition NFY_NFY :: int where "NFY_NFY = 0"
definition NFY_DRAIN :: int where "NFY_DRAIN = 2"
definition NFY_QUIET :: int where "NFY_QUIET = 4"
definition NFY_PID :: int where "NFY_PID = 8"
definition THAW_DEL :: int where "THAW_DEL = 1"

definition Halted :: "int \<Rightarrow> 'c queue_state \<Rightarrow> bool" where
  "Halted x s \<longleftrightarrow> Flags (adb (pst s)) x AND HALT \<noteq> 0"

definition s_Halted :: "int \<Rightarrow> 'c queue_state \<Rightarrow> 'c queue_state" where
  "s_Halted x s = s\<lparr>pst := (pst s)\<lparr>adb := (adb (pst s))\<lparr>Flags := (Flags (adb (pst s)))(x := Flags (adb (pst s)) x OR HALT)\<rparr>\<rparr>\<rparr>"

definition init_pid_table :: "'c queue_state \<Rightarrow> 'c queue_state" where
  "init_pid_table s = s\<lparr>pid_table := (\<lambda>_. False), last_pid := MUMAXPID, kick_pid := - 1\<rparr>"

definition free_pid :: "int \<Rightarrow> 'c queue_state \<Rightarrow> 'c queue_state" where
  "free_pid p s = s\<lparr>pid_table := (pid_table s)(p := False)\<rparr>"

text \<open>Payments and counts, on the part of the state that holds the player cache.\<close>

definition q_giveto :: "'c acache \<Rightarrow> world \<Rightarrow> int \<Rightarrow> int \<Rightarrow> 'c queue_state \<Rightarrow> 'c queue_state" where
  "q_giveto D w who n s = s\<lparr>pst := giveto D w who n (pst s)\<rparr>"

definition q_payfor :: "'c acache \<Rightarrow> world \<Rightarrow> int \<Rightarrow> int \<Rightarrow> 'c queue_state \<Rightarrow> bool \<times> 'c queue_state" where
  "q_payfor D w who n s = (case payfor D w who n (pst s) of (b, p) \<Rightarrow> (b, s\<lparr>pst := p\<rparr>))"

definition q_a_Queue :: "'c acache \<Rightarrow> world \<Rightarrow> int \<Rightarrow> int \<Rightarrow> 'c queue_state \<Rightarrow> int \<times> 'c queue_state" where
  "q_a_Queue D w who n s = (case a_Queue D w who n (pst s) of (k, p) \<Rightarrow> (k, s\<lparr>pst := p\<rparr>))"

definition count_queue :: "'c acache \<Rightarrow> world \<Rightarrow> int \<Rightarrow> int \<Rightarrow> 'c queue_state \<Rightarrow> 'c queue_state" where
  "count_queue D w who n s = snd (q_a_Queue D w who n s)"

text \<open>\<open>giveto\<close> for an owner without the FREE flag, as all the callers here have it.\<close>

definition refund :: "'c acache \<Rightarrow> world \<Rightarrow> int \<Rightarrow> int \<Rightarrow> int \<Rightarrow> 'c queue_state \<Rightarrow> 'c queue_state" where
  "refund D w payer who n s = (if \<not> w_FreeFlag w payer then q_giveto D w who n s else s)"

text \<open>\<open>add_to\<close>: the count of a semaphore, kept as a text attribute.\<close>

definition add_to :: "'c acache \<Rightarrow> world \<Rightarrow> int \<Rightarrow> int \<Rightarrow> int \<Rightarrow> 'c queue_state \<Rightarrow> int \<times> 'c queue_state" where
  "add_to D w thing am attr_no s =
     (case atr_get D (w_g w) thing attr_no (adb (pst s)) of
        ((txt, _), a) \<Rightarrow>
          let num = atoi txt + am;
              buff = (if num \<noteq> 0 then sprintf_d num else [])
          in (num, s\<lparr>pst := add_raw D w thing attr_no (Some buff) ((pst s)\<lparr>adb := a\<rparr>)\<rparr>))"

definition sem_add :: "'c acache \<Rightarrow> world \<Rightarrow> int \<Rightarrow> int \<Rightarrow> 'c queue_state \<Rightarrow> 'c queue_state" where
  "sem_add D w thing am s = snd (add_to D w thing am A_SEMAPHORE s)"

subsection \<open>Queueing\<close>

definition give_que :: "world \<Rightarrow> BQUE \<Rightarrow> 'c queue_state \<Rightarrow> 'c queue_state" where
  "give_que w tmp s =
     (let tmp = tmp\<lparr>waittime := 0\<rparr>
      in if w_Typeof w (cause tmp) = TYPE_PLAYER then
           s\<lparr>qfirst := (if qlast s then qfirst s @ [tmp] else [tmp]), qlast := True\<rparr>
         else s\<lparr>qlfirst := (if qllast s then qlfirst s @ [tmp] else [tmp]), qllast := True\<rparr>)"

definition que_want :: "world \<Rightarrow> int \<Rightarrow> int \<Rightarrow> BQUE \<Rightarrow> bool" where
  "que_want w ptarg otarg entry \<longleftrightarrow>
     \<not> (ptarg \<noteq> NOTHING \<and> ptarg \<noteq> Owner w (player entry)) \<and> \<not> (otarg \<noteq> NOTHING \<and> otarg \<noteq> player entry)"

text \<open>The first entry that is wanted by a test is changed, or taken out.\<close>

fun insert_wait :: "BQUE \<Rightarrow> BQUE list \<Rightarrow> BQUE list" where
  "insert_wait tmp [] = [tmp]"
| "insert_wait tmp (p # l) = (if waittime p \<le> waittime tmp then p # insert_wait tmp l else tmp # p # l)"

text \<open>Entries of the two run queues are only marked, for the run loop may be at one of them.\<close>

definition mark_dead :: "(BQUE \<Rightarrow> bool) \<Rightarrow> BQUE list \<Rightarrow> BQUE list" where
  "mark_dead P = map (\<lambda>p. if P p then p\<lparr>player := NOTHING\<rparr> else p)"

definition halt_entries :: "'c acache \<Rightarrow> world \<Rightarrow> (BQUE \<Rightarrow> bool) \<Rightarrow> 'c queue_state \<Rightarrow> int \<times> 'c queue_state" where
  "halt_entries D w want s =
     (let semwant = (\<lambda>p. pid p \<noteq> kick_pid s \<and> want p);
          gone = filter want (qfirst s) @ filter want (qlfirst s) @ filter want (qwait s);
          gonesem = filter semwant (qsem s);
          s1 = fold (\<lambda>p. free_pid (pid p)) gone
                 (s\<lparr>qfirst := mark_dead want (qfirst s), qlfirst := mark_dead want (qlfirst s),
                    qwait := filter (\<lambda>p. \<not> want p) (qwait s)\<rparr>)
      in (int (length gone + length gonesem),
          fold (\<lambda>p s. sem_add D w (sem p) (- 1) (free_pid (pid p) s)) gonesem
            (s1\<lparr>qsem := filter (\<lambda>p. \<not> semwant p) (qsem s)\<rparr>)))"

definition halt_que :: "'c acache \<Rightarrow> world \<Rightarrow> int \<Rightarrow> int \<Rightarrow> 'c queue_state \<Rightarrow> int \<times> 'c queue_state" where
  "halt_que D w plr obj s =
     (let (numhalted, s1) = halt_entries D w (que_want w plr obj) s;
          plr = (if plr = NOTHING then Owner w obj else plr);
          s2 = refund D w (Owner w plr) plr (waitcost w * numhalted) s1
      in (numhalted,
          if obj = NOTHING then s2\<lparr>pst := s_Queue D w plr 0 (pst s2)\<rparr> else count_queue D w plr (- numhalted) s2))"

definition halt_que_all :: "'c acache \<Rightarrow> world \<Rightarrow> 'c queue_state \<Rightarrow> int \<times> 'c queue_state" where
  "halt_que_all D w s =
     (let pay = (\<lambda>p s. count_queue D w (Owner w (player p)) (- 1) (refund D w (Owner w (player p)) (player p) (waitcost w) s));
          run = qfirst s @ qlfirst s;
          semgone = filter (\<lambda>p. pid p \<noteq> kick_pid s) (qsem s);
          s1 = fold pay run s;
          s2 = s1\<lparr>qfirst := mark_dead (\<lambda>_. True) (qfirst s), qlfirst := mark_dead (\<lambda>_. True) (qlfirst s),
                  qlast := False, qllast := False\<rparr>;
          s3 = (fold pay (qwait s) s2)\<lparr>qwait := []\<rparr>;
          s4 = (fold (\<lambda>p s. sem_add D w (sem p) (- 1) (pay p s)) semgone s3)\<lparr>qsem := []\<rparr>
      in (int (length run + length (qwait s) + length semgone), init_pid_table s4))"

text \<open>The loops that look for a free process id from \<open>lo\<close> to \<open>hi\<close>.\<close>

function first_free :: "(int \<Rightarrow> bool) \<Rightarrow> int \<Rightarrow> int \<Rightarrow> int option" where
  "first_free tab lo hi = (if lo > hi then None else if \<not> tab lo then Some lo else first_free tab (lo + 1) hi)"
  by pat_completeness auto
termination first_free
  by (relation "measure (\<lambda>(tab, lo, hi). nat (hi - lo + 1))") auto

declare first_free.simps [simp del]

definition find_pid :: "'c queue_state \<Rightarrow> int option" where
  "find_pid s =
     (if last_pid s < MUMAXPID then
        (case first_free (pid_table s) (last_pid s + 1) MUMAXPID of
           Some p \<Rightarrow> Some p
         | None \<Rightarrow> first_free (pid_table s) 0 (last_pid s))
      else first_free (pid_table s) 0 MUMAXPID)"

definition padded :: "nat \<Rightarrow> string option list \<Rightarrow> string option list" where
  "padded n xs = take n (xs @ replicate n None)"

definition setup_que ::
  "'c acache \<Rightarrow> world \<Rightarrow> int \<Rightarrow> int \<Rightarrow> int \<Rightarrow> string option \<Rightarrow> string option list \<Rightarrow> int \<Rightarrow> string option list \<Rightarrow>
   string option list \<Rightarrow> 'c queue_state \<Rightarrow> BQUE option \<times> 'c queue_state" where
  "setup_que D w rnd plr cau command args nargs1 sargs sargsname s =
     (if Halted plr s \<and> \<not> force_halt s then (None, s)
      else
        let (paid, s1) = q_payfor D w plr (waitcost w + (if rnd mod machinecost w = 0 then 1 else 0)) s
        in if \<not> paid then (None, s1)
           else
             let (a, p2) = QueueMax D w (Owner w plr) (pst s1);
                 (n, s3) = q_a_Queue D w (Owner w plr) 1 (s1\<lparr>pst := p2\<rparr>)
             in if n > a then
                  let s4 = count_queue D w (Owner w plr) (- 1) s3;
                      (_, s5) = halt_que D w (Owner w plr) NOTHING s4
                  in (None, s_Halted plr s5)
                else
                  (case find_pid s3 of
                     None \<Rightarrow> (None, snd (halt_que_all D w s3))
                   | Some tpid \<Rightarrow>
                       (Some \<lparr>node = fresh s3, player = plr, cause = cau, sem = NOTHING, waittime = 0, comm = command,
                              env = padded NUM_ENV_VARS (take (nat (min nargs1 (int NUM_ENV_VARS))) args),
                              scr = padded MAX_GLOBAL_REGS sargs, scrname = padded MAX_GLOBAL_REGS sargsname,
                              nargs = min nargs1 (int NUM_ENV_VARS), pid = tpid, stop_bool = 0, stop_bool_val = 0,
                              shellprg = w_InProgram w plr, plr_type = 0\<rparr>,
                        s3\<lparr>pid_table := (pid_table s3)(tpid := True), last_pid := tpid, fresh := Suc (fresh s3)\<rparr>)))"

definition wait_que ::
  "'c acache \<Rightarrow> world \<Rightarrow> int \<Rightarrow> int \<Rightarrow> int \<Rightarrow> int \<Rightarrow> int \<Rightarrow> int \<Rightarrow> string option \<Rightarrow> string option list \<Rightarrow> int \<Rightarrow>
   string option list \<Rightarrow> string option list \<Rightarrow> 'c queue_state \<Rightarrow> 'c queue_state" where
  "wait_que D w tm rnd plr cau wait sem1 command args nargs1 sargs sargsname s =
     (case (if interp s then setup_que D w rnd plr cau command args nargs1 sargs sargsname s else (None, s)) of
        (None, s1) \<Rightarrow> s1
      | (Some tmp, s1) \<Rightarrow>
          let tmp = tmp\<lparr>waittime := (if wait \<noteq> 0 then tm + wait else 0), sem := sem1\<rparr>
          in if sem1 = NOTHING then
               if wait \<le> 0 then give_que w tmp s1 else s1\<lparr>qwait := insert_wait tmp (qwait s1)\<rparr>
             else s1\<lparr>qsem := qsem s1 @ [tmp]\<rparr>)"

subsection \<open>Running\<close>

definition set_node :: "nat \<Rightarrow> (BQUE \<Rightarrow> BQUE) \<Rightarrow> BQUE list \<Rightarrow> BQUE list" where
  "set_node n f = map (\<lambda>p. if node p = n then f p else p)"

definition set_player :: "nat \<Rightarrow> int \<Rightarrow> 'c queue_state \<Rightarrow> 'c queue_state" where
  "set_player n x s =
     (let f = set_node n (\<lambda>p. p\<lparr>player := x\<rparr>)
      in s\<lparr>qfirst := f (qfirst s), qlfirst := f (qlfirst s), qwait := f (qwait s), qsem := f (qsem s)\<rparr>)"

text \<open>\<open>while (command && !mudstate.breakst)\<close>\<close>

function run_commands ::
  "bool \<Rightarrow> (string \<Rightarrow> 'c queue_state \<Rightarrow> 'c queue_state) \<Rightarrow> string option \<Rightarrow> 'c queue_state \<Rightarrow> 'c queue_state" where
  "run_commands sc run command s =
     (if command = None \<or> breakst s then s
      else case parse_to sc command (CHR '';'') 0 of
             (cp, command1) \<Rightarrow>
               run_commands sc run command1 (if cp \<noteq> None \<and> cp \<noteq> Some [] then run (the cp) s else s))"
  by pat_completeness auto
termination run_commands
proof (relation "measure (\<lambda>(sc, run, command, s). left_over command)", goal_cases)
  case (2 sc run command s cp command1)
  then obtain t where t: "command = Some t" by auto
  from parse_to_bound [OF 2(2) [symmetric, unfolded t]] show ?case using t by auto
qed simp

declare run_commands.simps [simp del]

definition texts :: "string option list \<Rightarrow> string list" where
  "texts xs = map (\<lambda>x. case x of None \<Rightarrow> [] | Some t \<Rightarrow> t) xs"

definition execute_entry ::
  "'c acache \<Rightarrow> world \<Rightarrow> bool \<Rightarrow> 'c command \<Rightarrow> BQUE \<Rightarrow> 'c queue_state \<Rightarrow> 'c queue_state" where
  "execute_entry D w sc process_command queue s =
     (let plr = player queue;
          s1 = (if plr \<ge> 0 \<and> \<not> w_Going w plr \<and> \<not> w_Recover w plr then
                  let s2 = refund D w (Owner w plr) plr (waitcost w) s;
                      s3 = count_queue D w (Owner w plr) (- 1) (s2\<lparr>curr_enactor := cause queue, curr_player := plr\<rparr>);
                      s4 = free_pid (pid queue) (set_player (node queue) 0 s3)
                  in if \<not> Halted plr s4 \<or> force_halt s4 then
                       run_commands sc
                         (\<lambda>cp. process_command plr (cause queue) cp (env queue) (nargs queue) (shellprg queue))
                         (comm queue)
                         (s4\<lparr>global_regs := texts (scr queue), global_regsname := texts (scrname queue), breakst := False,
                             force_halt := False\<rparr>)
                     else s4
                else s)
      in set_player (node queue) NOTHING s1)"

fun top_loop :: "'c acache \<Rightarrow> world \<Rightarrow> bool \<Rightarrow> 'c command \<Rightarrow> nat \<Rightarrow> 'c queue_state \<Rightarrow> int \<times> 'c queue_state" where
  "top_loop D w sc pc 0 s = (0, s)"
| "top_loop D w sc pc (Suc n) s =
     (case qfirst s of
        [] \<Rightarrow> (0, s)
      | queue # _ \<Rightarrow>
          let s1 = execute_entry D w sc pc queue s;
              s2 = s1\<lparr>qfirst := tl (qfirst s1)\<rparr>;
              s3 = (if qfirst s2 = [] then s2\<lparr>qlast := False\<rparr> else s2);
              (k, s4) = top_loop D w sc pc n s3
          in (k + 1, s4))"

definition do_top :: "'c acache \<Rightarrow> world \<Rightarrow> bool \<Rightarrow> 'c command \<Rightarrow> int \<Rightarrow> 'c queue_state \<Rightarrow> int \<times> 'c queue_state" where
  "do_top D w sc pc ncmds s =
     (if \<not> dequeue s then (0, s)
      else case top_loop D w sc pc (nat ncmds) s of
             (k, s1) \<Rightarrow> (k, s1\<lparr>global_regs := replicate MAX_GLOBAL_REGS [], global_regsname := replicate MAX_GLOBAL_REGS []\<rparr>))"

text \<open>
  \<open>do_second\<close>: the object queue goes to the end of the player queue, and what has waited long
  enough is given to the queues. A jump of the clock by more than two minutes is added to the
  waiting times, and to the counters of timer.c (the times of the connections are not in the
  model).
\<close>

definition skewed :: "int \<Rightarrow> bool" where
  "skewed diff \<longleftrightarrow> diff > 120 \<or> diff < - 120"

definition new_time :: "int \<Rightarrow> int \<Rightarrow> BQUE \<Rightarrow> BQUE" where
  "new_time now diff p =
     (let p1 = (if skewed diff then p\<lparr>waittime := waittime p + diff\<rparr> else p)
      in if stop_bool p1 \<noteq> 0 then p1\<lparr>waittime := now + stop_bool_val p1\<rparr> else p1)"

fun second_wait :: "world \<Rightarrow> int \<Rightarrow> int \<Rightarrow> BQUE list \<Rightarrow> 'c queue_state \<Rightarrow> BQUE list \<times> 'c queue_state" where
  "second_wait w now diff [] s = ([], s)"
| "second_wait w now diff (point # l) s =
     (let point = new_time now diff point
      in if waittime point \<le> now then second_wait w now diff l (give_que w point s)
         else (case second_wait w now diff l s of (l1, s1) \<Rightarrow> (point # l1, s1)))"

fun second_sem :: "'c acache \<Rightarrow> world \<Rightarrow> int \<Rightarrow> int \<Rightarrow> BQUE list \<Rightarrow> 'c queue_state \<Rightarrow> BQUE list \<times> 'c queue_state" where
  "second_sem D w now diff [] s = ([], s)"
| "second_sem D w now diff (point # l) s =
     (if waittime point = 0 then (case second_sem D w now diff l s of (l1, s1) \<Rightarrow> (point # l1, s1))
      else
        let p = new_time now diff point
        in if waittime p \<le> now then
             second_sem D w now diff l (give_que w (p\<lparr>sem := NOTHING\<rparr>) (sem_add D w (sem p) (- 1) s))
           else (case second_sem D w now diff l s of (l1, s1) \<Rightarrow> (p # l1, s1)))"

definition do_second :: "'c acache \<Rightarrow> world \<Rightarrow> 'c queue_state \<Rightarrow> 'c queue_state" where
  "do_second D w s =
     (if \<not> dequeue s then s
      else
        let s1 = (if qlfirst s \<noteq> [] then
                    s\<lparr>qfirst := (if qlast s then qfirst s @ qlfirst s else qlfirst s), qlast := qllast s,
                      qlfirst := [], qllast := False\<rparr>
                  else s);
            diff = q_now s1 - q_lastnow s1;
            (wl, s2) = second_wait w (q_now s1) diff (qwait s1) s1;
            s3 = s2\<lparr>qwait := wl\<rparr>;
            (sl, s4) = second_sem D w (q_now s3) diff (qsem s3) s3;
            s5 = s4\<lparr>qsem := sl\<rparr>
        in if skewed diff \<and> (qwait s1 \<noteq> [] \<or> list_ex (\<lambda>p. waittime p \<noteq> 0) (qsem s1)) then
             s5\<lparr>counters := map (\<lambda>c. c + diff) (counters s5)\<rparr>
           else s5)"

fun least_wait :: "int \<Rightarrow> BQUE list \<Rightarrow> int \<Rightarrow> int option" where
  "least_wait now [] m = Some m"
| "least_wait now (p # l) m =
     (let this = waittime p - now in if this \<le> 2 then None else least_wait now l (if this < m then this else m))"

definition que_next :: "'c queue_state \<Rightarrow> int" where
  "que_next s =
     (if qfirst s \<noteq> [] then 0
      else if qlfirst s \<noteq> [] then 1
      else case least_wait (q_now s) (qwait s) 1000 of
             None \<Rightarrow> 1
           | Some m \<Rightarrow>
               (case least_wait (q_now s) (filter (\<lambda>p. waittime p \<noteq> 0) (qsem s)) m of None \<Rightarrow> 1 | Some m \<Rightarrow> m - 1))"

end
