(* ===== verification/Cque_pid.thy ===== *)
theory Cque_pid
  imports Cque
begin

section \<open>Single entries of the command queue (src/Server/src/cque.c)\<close>

text \<open>
  The operations on the entry with a given process id (or, for frozen entries, the given time
  of the freeze), the release of semaphores, and the commands in front of them. A player may
  touch an entry when \<open>may_touch\<close> says so: \<open>Immortal\<close>, \<open>Controls\<close> of the owner, or the power to
  halt. What \<open>match_everything\<close> finds is an argument of the commands.
\<close>

definition may_touch :: "world \<Rightarrow> int \<Rightarrow> BQUE \<Rightarrow> bool" where
  "may_touch w plr p \<longleftrightarrow> w_Immortal w plr \<or> w_Controls w plr (Owner w (player p)) \<or> w_HaltPriv w plr (Owner w (player p))"

definition may_kick :: "world \<Rightarrow> int \<Rightarrow> BQUE \<Rightarrow> bool" where
  "may_kick w plr p \<longleftrightarrow> w_Immortal w plr \<or> w_Controls w plr (Owner w (player p))"

definition with_pid :: "int \<Rightarrow> BQUE list \<Rightarrow> BQUE option" where
  "with_pid k l = find (\<lambda>p. pid p = k) l"

text \<open>In the semaphore queue an entry that is being kicked is passed over.\<close>

definition sem_with_pid :: "int \<Rightarrow> 'c queue_state \<Rightarrow> BQUE option" where
  "sem_with_pid k s = find (\<lambda>p. pid p = k \<and> pid p \<noteq> kick_pid s) (qsem s)"

definition unlink :: "BQUE \<Rightarrow> BQUE list \<Rightarrow> BQUE list" where
  "unlink p l = filter (\<lambda>q. node q \<noteq> node p) l"

subsection \<open>@kick\<close>

text \<open>
  \<open>ind_pid_func\<close> with \<open>FUNC_KICK\<close>, the only function there is: the entry is run at once. An
  entry of the run queues stays where it is, marked. One of a waiting list is unlinked after it has
  been run, with the pointer \<open>trail\<close> that was computed before: what the commands have put between the
  two entries is lost, and when \<open>trail\<close> is NULL so is what they have put in front. When the entry or
  \<open>trail\<close> is no longer in its list then, because the commands have freed it or moved it, the code uses
  freed memory or links two lists with each other; the result is \<open>None\<close>. (The text of an
  entry that is freed while it is run is also read on; this is one of these cases.)
\<close>

definition trail_of :: "BQUE \<Rightarrow> BQUE list \<Rightarrow> nat option" where
  "trail_of p l = (case rev (takeWhile (\<lambda>q. node q \<noteq> node p) l) of [] \<Rightarrow> None | q # _ \<Rightarrow> Some (node q))"

definition relink :: "nat option \<Rightarrow> nat \<Rightarrow> BQUE list \<Rightarrow> BQUE list option" where
  "relink trail point l =
     (case dropWhile (\<lambda>q. node q \<noteq> point) l of
        [] \<Rightarrow> None
      | _ # next \<Rightarrow>
          (case trail of
             None \<Rightarrow> Some next
           | Some t \<Rightarrow>
               (case dropWhile (\<lambda>q. node q \<noteq> t) (rev (takeWhile (\<lambda>q. node q \<noteq> point) l)) of
                  [] \<Rightarrow> None
                | q # front \<Rightarrow> Some (rev (q # front) @ next))))"

definition ind_pid_func ::
  "'c acache \<Rightarrow> world \<Rightarrow> bool \<Rightarrow> 'c command \<Rightarrow> int \<Rightarrow> int \<Rightarrow> 'c queue_state \<Rightarrow> (int \<times> 'c queue_state) option" where
  "ind_pid_func D w sc pc plr k s =
     (case with_pid k (qfirst s) of
        Some p \<Rightarrow> Some (if may_kick w plr p then (1, execute_entry D w sc pc p s) else (0, s))
      | None \<Rightarrow>
     (case with_pid k (qlfirst s) of
        Some p \<Rightarrow> Some (if may_kick w plr p then (1, execute_entry D w sc pc p s) else (0, s))
      | None \<Rightarrow>
     (case with_pid k (qwait s) of
        Some p \<Rightarrow>
          if may_kick w plr p then
            let s1 = execute_entry D w sc pc p s
            in map_option (\<lambda>l. (1, s1\<lparr>qwait := l\<rparr>)) (relink (trail_of p (qwait s)) (node p) (qwait s1))
          else Some (0, s)
      | None \<Rightarrow>
     (case with_pid k (qsem s) of
        Some p \<Rightarrow>
          if may_kick w plr p then
            let s1 = (execute_entry D w sc pc p (s\<lparr>kick_pid := pid p\<rparr>))\<lparr>kick_pid := - 1\<rparr>
            in map_option (\<lambda>l. (1, sem_add D w (sem p) (- 1) (s1\<lparr>qsem := l\<rparr>)))
                 (relink (trail_of p (qsem s)) (node p) (qsem s1))
          else Some (0, s)
      | None \<Rightarrow> Some (0, s)))))"

subsection \<open>@freeze and @thaw\<close>

text \<open>
  The frozen copy of an entry. \<open>shell\<close> is its \<open>shellprg\<close>: for an entry of the semaphore queue
  the code assigns the field of the new block to itself, so that it is what was in the memory.
\<close>

definition frozen :: "world \<Rightarrow> int \<Rightarrow> bool \<Rightarrow> nat \<Rightarrow> BQUE \<Rightarrow> BQUE" where
  "frozen w tm shell n p =
     p\<lparr>node := n, pid := tm, shellprg := shell, plr_type := (if Good_obj w (player p) then w_Typeof w (player p) else - 1)\<rparr>"

definition freeze_pid :: "'c acache \<Rightarrow> world \<Rightarrow> int \<Rightarrow> bool \<Rightarrow> int \<Rightarrow> int \<Rightarrow> 'c queue_state \<Rightarrow> int \<times> 'c queue_state" where
  "freeze_pid D w tm junk plr k s =
     (let settle = (\<lambda>psave fz s.
            let s1 = (if psave \<noteq> NOTHING then
                        count_queue D w psave (- 1) (refund D w (Owner w psave) psave (waitcost w) s) else s)
            in if sem fz = NOTHING then s1\<lparr>fqwait := insert_wait fz (fqwait s1)\<rparr> else s1\<lparr>fqsem := fqsem s1 @ [fz]\<rparr>)
      in case with_pid k (qwait s) of
           Some p \<Rightarrow>
             if may_touch w plr p then
               let fz = frozen w tm (shellprg p) (fresh s) p;
                   s1 = free_pid (pid p) (s\<lparr>qwait := unlink p (qwait s), fresh := Suc (fresh s)\<rparr>)
               in (1, settle (Owner w (player p)) fz s1)
             else (0, s)
         | None \<Rightarrow>
             (case sem_with_pid k s of
                Some p \<Rightarrow>
                  if may_touch w plr p then
                    let fz = frozen w tm junk (fresh s) p;
                        s1 = free_pid (pid p) (s\<lparr>qsem := unlink p (qsem s), fresh := Suc (fresh s)\<rparr>);
                        s2 = sem_add D w (sem p) (- 1) s1
                    in (1, settle (Owner w (player p)) fz s2)
                  else (0, s)
              | None \<Rightarrow> (0, s)))"

text \<open>Nobody is left to run the entry: the object or its owner is gone, or it has changed its type.\<close>

definition bad_entry :: "world \<Rightarrow> BQUE \<Rightarrow> bool" where
  "bad_entry w p \<longleftrightarrow>
     (\<not> Good_obj w (player p) \<or> w_Going w (player p) \<or> w_Recover w (player p)) \<or>
     (\<not> Good_obj w (Owner w (player p)) \<or> w_Going w (Owner w (player p)) \<or> w_Recover w (Owner w (player p))) \<or>
     w_Typeof w (player p) \<noteq> plr_type p"

text \<open>
  \<open>thaw_pid\<close>: a new process id is looked for whether or not there is an entry. When there is
  none and no entry was copied, the code frees a block through an uninitialised pointer; the
  model leaves the state as it is then.
\<close>

definition thaw_pid :: "'c acache \<Rightarrow> world \<Rightarrow> int \<Rightarrow> int \<Rightarrow> int \<Rightarrow> int \<Rightarrow> 'c queue_state \<Rightarrow> int \<times> 'c queue_state" where
  "thaw_pid D w tm plr k key s =
     (let del = (key AND THAW_DEL \<noteq> 0);
          (found, badpid, entry, s1) =
            (case with_pid k (fqwait s) of
               Some p \<Rightarrow>
                 if may_touch w plr p then
                   (True, bad_entry w p, Some (p\<lparr>waittime := waittime p - pid p + tm\<rparr>), s\<lparr>fqwait := unlink p (fqwait s)\<rparr>)
                 else (False, False, None, s)
             | None \<Rightarrow>
                 (case find (\<lambda>p. pid p = k \<and> pid p \<noteq> kick_pid s) (fqsem s) of
                    Some p \<Rightarrow>
                      if may_touch w plr p then
                        (True, bad_entry w p,
                         Some (p\<lparr>waittime := (if waittime p \<noteq> 0 then waittime p - pid p + tm else 0)\<rparr>),
                         sem_add D w (sem p) 1 (s\<lparr>fqsem := unlink p (fqsem s)\<rparr>))
                      else (False, False, None, s)
                  | None \<Rightarrow> (False, False, None, s)))
      in case (entry, find_pid s1) of
           (Some p, Some tpid) \<Rightarrow>
             if \<not> del \<and> \<not> badpid then
               let psave = Owner w (player p);
                   s2 = (if psave \<noteq> NOTHING then
                           count_queue D w psave 1 (refund D w (Owner w psave) psave (- waitcost w) s1) else s1);
                   p1 = p\<lparr>node := fresh s2, pid := tpid\<rparr>;
                   s3 = s2\<lparr>pid_table := (pid_table s2)(tpid := True), last_pid := tpid, fresh := Suc (fresh s2)\<rparr>
               in (1, if sem p1 = NOTHING then s3\<lparr>qwait := insert_wait p1 (qwait s3)\<rparr> else s3\<lparr>qsem := qsem s3 @ [p1]\<rparr>)
             else (if del then - 1 else - 2, s1)
         | (_, fp) \<Rightarrow>
             (if fp = None \<and> (\<not> del \<or> badpid) then (if found then 1 else 0)
              else if del then - 1 else if badpid then - 2 else 0, s1))"

subsection \<open>New waiting times\<close>

definition rewait :: "int \<Rightarrow> int \<Rightarrow> int \<Rightarrow> BQUE \<Rightarrow> int \<times> BQUE" where
  "rewait tm newwait key p =
     (let p = p\<lparr>stop_bool_val := newwait\<rparr>
      in if key = - 1 then
           if waittime p - newwait < tm + 10 then (- 1, p) else (2, p\<lparr>waittime := waittime p - newwait\<rparr>)
         else if key = 1 then
           if waittime p + newwait < tm + 10 then (- 1, p) else (2, p\<lparr>waittime := waittime p + newwait\<rparr>)
         else (1, p\<lparr>waittime := tm + newwait\<rparr>))"

definition wait_que_pidnew :: "world \<Rightarrow> int \<Rightarrow> int \<Rightarrow> int \<Rightarrow> int \<Rightarrow> int \<Rightarrow> 'c queue_state \<Rightarrow> int \<times> 'c queue_state" where
  "wait_que_pidnew w tm plr k newwait key s =
     (case find (\<lambda>p. pid p = k \<and> may_touch w plr p) (qwait s) of
        Some p \<Rightarrow> (case rewait tm newwait key p of (r, p1) \<Rightarrow> (r, s\<lparr>qwait := set_node (node p) (\<lambda>_. p1) (qwait s)\<rparr>))
      | None \<Rightarrow>
          (case find (\<lambda>p. pid p = k \<and> pid p \<noteq> kick_pid s \<and> may_touch w plr p) (qsem s) of
             Some p \<Rightarrow> (case rewait tm newwait key p of (r, p1) \<Rightarrow> (r, s\<lparr>qsem := set_node (node p) (\<lambda>_. p1) (qsem s)\<rparr>))
           | None \<Rightarrow> (0, s)))"

subsection \<open>@halt/pid\<close>

text \<open>With \<open>key\<close> 1 the entry is stopped, with 2 it goes on; \<open>None\<close> is an entry in that state already.\<close>

definition stop_entry :: "int \<Rightarrow> int \<Rightarrow> BQUE \<Rightarrow> BQUE option" where
  "stop_entry now key p =
     (if key = 1 \<and> stop_bool p = 0 then
        Some (p\<lparr>stop_bool := 1, stop_bool_val := (if waittime p \<noteq> 0 then waittime p - now else 0)\<rparr>)
      else if key = 2 \<and> stop_bool p = 1 then Some (p\<lparr>stop_bool := 0\<rparr>)
      else None)"

definition halt_que_pid :: "'c acache \<Rightarrow> world \<Rightarrow> int \<Rightarrow> int \<Rightarrow> int \<Rightarrow> 'c queue_state \<Rightarrow> int \<times> 'c queue_state" where
  "halt_que_pid D w plr k key s =
     (let settle = (\<lambda>psave s.
            (1, if psave \<noteq> NOTHING then
                  count_queue D w psave (- 1) (refund D w (Owner w psave) psave (waitcost w) s) else s));
          die = (\<lambda>p. p\<lparr>player := NOTHING\<rparr>)
      in case with_pid k (qfirst s) of
        Some p \<Rightarrow>
          if may_touch w plr p then
            settle (Owner w (player p)) (free_pid (pid p) (s\<lparr>qfirst := set_node (node p) die (qfirst s)\<rparr>))
          else (0, s)
      | None \<Rightarrow>
     (case with_pid k (qlfirst s) of
        Some p \<Rightarrow>
          if may_touch w plr p then
            settle (Owner w (player p)) (free_pid (pid p) (s\<lparr>qlfirst := set_node (node p) die (qlfirst s)\<rparr>))
          else (0, s)
      | None \<Rightarrow>
     (case with_pid k (qwait s) of
        Some p \<Rightarrow>
          if \<not> may_touch w plr p then (0, s)
          else if key > 0 then
            (case stop_entry (q_now s) key p of
               None \<Rightarrow> (- 1, s)
             | Some p1 \<Rightarrow> (1, s\<lparr>qwait := set_node (node p) (\<lambda>_. p1) (qwait s)\<rparr>))
          else settle (Owner w (player p)) (free_pid (pid p) (s\<lparr>qwait := unlink p (qwait s)\<rparr>))
      | None \<Rightarrow>
     (case sem_with_pid k s of
        Some p \<Rightarrow>
          if \<not> may_touch w plr p then (0, s)
          else if key > 0 then
            (case stop_entry (q_now s) key p of
               None \<Rightarrow> (- 1, s)
             | Some p1 \<Rightarrow> (1, s\<lparr>qsem := set_node (node p) (\<lambda>_. p1) (qsem s)\<rparr>))
          else settle (Owner w (player p)) (sem_add D w (sem p) (- 1) (free_pid (pid p) (s\<lparr>qsem := unlink p (qsem s)\<rparr>)))
      | None \<Rightarrow> (0, s)))))"

subsection \<open>@notify and @drain\<close>

text \<open>\<open>nfy_loop\<close> returns the entries that stay, and how many were taken.\<close>

fun nfy_loop ::
  "'c acache \<Rightarrow> world \<Rightarrow> int \<Rightarrow> int \<Rightarrow> int \<Rightarrow> int \<Rightarrow> BQUE list \<Rightarrow> int \<Rightarrow> 'c queue_state \<Rightarrow> BQUE list \<times> int \<times> 'c queue_state" where
  "nfy_loop D w sem1 key cnt pid_val [] num s = ([], num, s)"
| "nfy_loop D w sem1 key cnt pid_val (p # l) num s =
     (let hit = (sem p = sem1 \<and> (pid_val = - 1 \<or> pid p = pid_val) \<and> pid p \<noteq> kick_pid s);
          num1 = (if hit then num + 1 else num);
          s1 = (if \<not> hit then s
                else if key \<noteq> NFY_DRAIN then give_que w p s
                else
                  let s2 = (if player p \<noteq> NOTHING then
                              count_queue D w (Owner w (player p)) (- 1)
                                (refund D w (Owner w (player p)) (player p) (waitcost w) s)
                            else s)
                  in free_pid (pid p) s2);
          keep = (if hit then [] else [p])
      in if key = NFY_NFY \<and> num1 \<ge> cnt then (keep @ l, num1, s1)
         else case nfy_loop D w sem1 key cnt pid_val l num1 s1 of (l1, n, s2) \<Rightarrow> (keep @ l1, n, s2))"

definition nfy_que :: "'c acache \<Rightarrow> world \<Rightarrow> int \<Rightarrow> int \<Rightarrow> int \<Rightarrow> int \<Rightarrow> 'c queue_state \<Rightarrow> int \<times> 'c queue_state" where
  "nfy_que D w sem1 key cnt pid_val s =
     (case atr_get D (w_g w) sem1 A_SEMAPHORE (adb (pst s)) of
        ((str, _), a) \<Rightarrow>
          let s1 = s\<lparr>pst := (pst s)\<lparr>adb := a\<rparr>\<rparr>;
              (l, num, s2) =
                (if atoi str > 0 then nfy_loop D w sem1 key cnt pid_val (qsem s1) 0 s1 else (qsem s1, 0, s1));
              s3 = s2\<lparr>qsem := l\<rparr>;
              s4 = (if key = NFY_NFY \<and> num \<noteq> 0 then sem_add D w sem1 (- cnt) s3
                    else if key \<noteq> NFY_NFY then
                      s3\<lparr>pst := (pst s3)\<lparr>adb := atr_clr D (w_cf w) (w_g w) sem1 A_SEMAPHORE (adb (pst s3))\<rparr>\<rparr>
                    else s3)
          in (num, s4))"

text \<open>\<open>thing\<close> is the match, \<open>allowed\<close> whether the player controls it or may link to it.\<close>

definition do_notify ::
  "'c acache \<Rightarrow> world \<Rightarrow> int \<Rightarrow> bool \<Rightarrow> int \<Rightarrow> string \<Rightarrow> 'c queue_state \<Rightarrow> 'c queue_state" where
  "do_notify D w thing allowed key0 cnt s =
     (let no_notify = (key0 AND NFY_QUIET \<noteq> 0);
          key1 = (if no_notify then key0 AND NOT NFY_QUIET else key0);
          pid_notify = (key1 AND NFY_PID \<noteq> 0);
          key = (if pid_notify then key1 AND NOT NFY_PID else key1);
          loccount = (if cnt \<noteq> [] then atoi cnt else 1)
      in if thing < 0 \<or> \<not> allowed \<or> loccount \<le> 0 then s
         else
           let (ret_val, s1) = (if pid_notify then nfy_que D w thing key 1 loccount s else nfy_que D w thing key loccount (- 1) s)
           in if key AND NFY_DRAIN = 0 \<and> ret_val = 0 \<and> queue_compatible w then sem_add D w thing (- 1) s1 else s1)"

subsection \<open>@queue\<close>

definition warp :: "'c acache \<Rightarrow> world \<Rightarrow> int \<Rightarrow> 'c queue_state \<Rightarrow> 'c queue_state" where
  "warp D w i s =
     (let s1 = s\<lparr>qwait := map (\<lambda>p. p\<lparr>waittime := - i\<rparr>) (qwait s),
                 qsem := map (\<lambda>p. if waittime p > 0 then
                                 (if waittime p - i \<le> 0 then p\<lparr>waittime := - 1\<rparr> else p\<lparr>waittime := waittime p - i\<rparr>)
                               else p) (qsem s)\<rparr>;
          s2 = do_second D w (s1\<lparr>dequeue := True\<rparr>)
      in if dequeue s then s2 else s2\<lparr>dequeue := False\<rparr>)"

text \<open>\<open>do_queue\<close> for a player at a connection (\<open>desc_in_use\<close> is set).\<close>

definition QUEUE_KICK :: int where "QUEUE_KICK = 1"
definition QUEUE_WARP :: int where "QUEUE_WARP = 2"
definition QUEUE_KICK_PID :: int where "QUEUE_KICK_PID = 4"

definition do_queue ::
  "'c acache \<Rightarrow> world \<Rightarrow> bool \<Rightarrow> 'c command \<Rightarrow> bool \<Rightarrow> int \<Rightarrow> int \<Rightarrow> string \<Rightarrow> 'c queue_state \<Rightarrow> 'c queue_state option" where
  "do_queue D w sc pc in_use plr key arg s =
     (let i = atoi arg
      in if key AND QUEUE_KICK \<noteq> 0 then
           if \<not> in_use then Some s
           else
             let s1 = s\<lparr>dequeue := True\<rparr>;
                 r = (if key AND QUEUE_KICK_PID \<noteq> 0 then map_option snd (ind_pid_func D w sc pc plr i s1)
                      else Some (snd (do_top D w sc pc i s1)))
             in map_option (\<lambda>s2. if dequeue s then s2 else s2\<lparr>dequeue := False\<rparr>) r
         else if key = QUEUE_WARP then Some (warp D w i s)
         else Some s)"

subsection \<open>@wait and @halt\<close>

definition WAIT_PID :: int where "WAIT_PID = 1"
definition WAIT_UNTIL :: int where "WAIT_UNTIL = 2"
definition WAIT_RECPID :: int where "WAIT_RECPID = 4"
definition HALT_ALL :: int where "HALT_ALL = 1"
definition HALT_PID :: int where "HALT_PID = 2"
definition HALT_PIDSTOP :: int where "HALT_PIDSTOP = 4"
definition HALT_PIDCONT :: int where "HALT_PIDCONT = 8"

text \<open>The words between spaces, which are the ones that \<open>strtok\<close> finds.\<close>

definition countwordsnew :: "string \<Rightarrow> nat" where
  "countwordsnew str = length (strtok_words str)"

text \<open>
  \<open>do_wait\<close>: \<open>found\<close> is what the name of a semaphore matches, with the check that the player
  controls it or may link to it. A register number of \<open>MAX_GLOBAL_REGS\<close>, one too many, passes
  the check; the model then writes no register.
\<close>

definition record_pid :: "int option \<Rightarrow> 'c queue_state \<Rightarrow> 'c queue_state" where
  "record_pid reg s =
     (case reg of None \<Rightarrow> s | Some r \<Rightarrow> s\<lparr>global_regs := (global_regs s)[nat r := sprintf_d (last_pid s)]\<rparr>)"

definition recpid_args :: "int \<Rightarrow> string \<Rightarrow> (int option \<times> string) option" where
  "recpid_args key eventorig =
     (if key AND WAIT_RECPID = 0 then Some (None, eventorig)
      else if countwordsnew eventorig \<le> 1 then None
      else case dropWhile (\<lambda>c. c \<noteq> CHR '' '') eventorig of
             [] \<Rightarrow> None
           | _ # event \<Rightarrow>
               let r = atoi eventorig in if r < 0 \<or> r > int MAX_GLOBAL_REGS then None else Some (Some r, event))"

definition timed_wait ::
  "'c acache \<Rightarrow> world \<Rightarrow> int \<Rightarrow> int \<Rightarrow> int \<Rightarrow> int \<Rightarrow> int \<Rightarrow> int option \<Rightarrow> int \<Rightarrow> string \<Rightarrow> string option list \<Rightarrow> int \<Rightarrow>
   'c queue_state \<Rightarrow> 'c queue_state" where
  "timed_wait D w tm rnd plr cau howlong reg thing cmd cargs ncargs s =
     record_pid reg
       (wait_que D w tm rnd plr cau howlong thing (Some cmd) cargs ncargs
          (map Some (global_regs s)) (map Some (global_regsname s)) s)"

definition wait_pid_command :: "world \<Rightarrow> int \<Rightarrow> int \<Rightarrow> int \<Rightarrow> string \<Rightarrow> string \<Rightarrow> 'c queue_state \<Rightarrow> 'c queue_state" where
  "wait_pid_command w tm plr key event cmd s =
     (if \<not> is_number event then s
      else
        let howlong = atoi event;
            signed = (key AND WAIT_UNTIL = 0 \<and> (deref cmd = CHR ''+'' \<or> deref cmd = CHR ''-''));
            newwait = (if key AND WAIT_UNTIL \<noteq> 0 then atoi cmd - tm else if signed then atoi (tl cmd) else atoi cmd);
            offset = (if \<not> signed then 0 else if deref cmd = CHR ''+'' then 1 else - 1)
        in if howlong < 0 \<or> howlong > MUMAXPID \<or> newwait < 10 \<or> newwait + tm > INT_MAX - 1 \<or> newwait + tm < 0 then s
           else snd (wait_que_pidnew w tm plr howlong newwait offset s))"

definition do_wait ::
  "'c acache \<Rightarrow> world \<Rightarrow> bool \<Rightarrow> (string \<Rightarrow> int \<times> bool) \<Rightarrow> int \<Rightarrow> int \<Rightarrow> int \<Rightarrow> int \<Rightarrow> int \<Rightarrow> string \<Rightarrow> string \<Rightarrow> string option list \<Rightarrow> int \<Rightarrow>
   'c queue_state \<Rightarrow> 'c queue_state" where
  "do_wait D w sc found tm rnd plr cau key eventorig cmd cargs ncargs s =
     (if (key AND NOT WAIT_PID AND NOT WAIT_UNTIL \<noteq> 0 \<and> key AND WAIT_UNTIL \<noteq> 0) \<or>
         (key AND WAIT_PID \<noteq> 0 \<and> key AND WAIT_RECPID \<noteq> 0) then s
      else case recpid_args key eventorig of
        None \<Rightarrow> s
      | Some (reg, event) \<Rightarrow>
          if key AND WAIT_PID \<noteq> 0 then wait_pid_command w tm plr key event cmd s
          else
            let secs = (\<lambda>e. if key AND WAIT_UNTIL \<noteq> 0 then atoi e - tm else atoi e)
            in if is_number event then timed_wait D w tm rnd plr cau (secs event) reg NOTHING cmd cargs ncargs s
               else
                 let (what, rest) = parse_to sc (Some event) (CHR ''/'') 0;
                     (thing, allowed) = found (the what)
                 in if \<not> Good_obj w thing \<or> \<not> allowed then s
                    else
                      let howlong = (case rest of Some (c # e) \<Rightarrow> secs (c # e) | _ \<Rightarrow> 0);
                          (num, s1) = add_to D w thing 1 A_SEMAPHORE s
                      in if num \<le> 0 then timed_wait D w tm rnd plr cau 0 reg NOTHING cmd cargs ncargs s1
                         else timed_wait D w tm rnd plr cau howlong reg thing cmd cargs ncargs s1)"

text \<open>
  \<open>do_halt\<close>: \<open>may_all\<close> is the right to halt everything, \<open>found\<close> the match of a name with the check
  that the player may halt it.
\<close>

definition do_halt ::
  "'c acache \<Rightarrow> world \<Rightarrow> (string \<Rightarrow> int \<times> bool) \<Rightarrow> bool \<Rightarrow> int \<Rightarrow> int \<Rightarrow> string \<Rightarrow> 'c queue_state \<Rightarrow> 'c queue_state" where
  "do_halt D w found may_all plr key0 what s =
     (let stop = (key0 AND HALT_PIDSTOP \<noteq> 0);
          cont = (key0 AND HALT_PIDCONT \<noteq> 0);
          key = key0 AND NOT HALT_PIDSTOP AND NOT HALT_PIDCONT;
          keytype = (if stop then 1 else if cont then 2 else 0)
      in if (stop \<and> cont) \<or> (keytype \<noteq> 0 \<and> key AND HALT_PID = 0) then s
         else if what = [] then
           if key AND HALT_ALL \<noteq> 0 then (if may_all then snd (halt_que_all D w s) else s)
           else snd (halt_que D w (Owner w plr) (if w_Typeof w plr \<noteq> TYPE_PLAYER then plr else NOTHING) s)
         else if key = HALT_PID then
           if \<not> is_number what \<or> atoi what < 0 \<or> atoi what > MUMAXPID then s
           else snd (halt_que_pid D w plr (atoi what) keytype s)
         else
           let (obj, allowed) = found what
           in if \<not> Good_obj w obj \<or> \<not> allowed \<or> key AND HALT_ALL \<noteq> 0 then s
              else if w_Typeof w obj = TYPE_PLAYER then snd (halt_que D w obj NOTHING s)
              else snd (halt_que D w NOTHING obj s))"

definition do_freeze :: "'c acache \<Rightarrow> world \<Rightarrow> int \<Rightarrow> bool \<Rightarrow> int \<Rightarrow> string \<Rightarrow> 'c queue_state \<Rightarrow> 'c queue_state" where
  "do_freeze D w tm junk plr what s =
     (if is_number what then snd (freeze_pid D w tm junk plr (atoi what) s) else s)"

definition do_thaw :: "'c acache \<Rightarrow> world \<Rightarrow> int \<Rightarrow> int \<Rightarrow> int \<Rightarrow> string \<Rightarrow> 'c queue_state \<Rightarrow> 'c queue_state" where
  "do_thaw D w tm plr key what s =
     (if is_number what then snd (thaw_pid D w tm plr (atoi what) key s) else s)"

end
