(* ===== verification/Cque_Laws.thy ===== *)
theory Cque_Laws
  imports Cque_pid "HOL-Library.Multiset"
begin

section \<open>The command queue: process ids\<close>

text \<open>
  Every operation keeps this invariant: the process ids of all entries that can still run are
  marked in \<open>pid_table\<close> and different from each other, and so are the addresses of the entries
  of all queues. It is stated over the multiset of the keys of the entries, so that an
  operation that only moves entries, or changes their times, keeps it at once.
\<close>

subsection \<open>Keys\<close>

type_synonym ekey = "nat \<times> int \<times> int"

definition ekey :: "BQUE \<Rightarrow> ekey" where
  "ekey p = (node p, pid p, player p)"

definition kpids :: "nat set \<Rightarrow> ekey multiset \<Rightarrow> int multiset" where
  "kpids X K = image_mset (fst \<circ> snd) (filter_mset (\<lambda>k. snd (snd k) \<noteq> NOTHING \<and> fst k \<notin> X) K)"

text \<open>
  \<open>X\<close> are the entries that are being run: their player is 0, or \<open>NOTHING\<close> when they have been halted
  meanwhile. \<open>N\<close> are the addresses of frozen entries.
\<close>

definition runs_idle :: "nat set \<Rightarrow> ekey multiset \<Rightarrow> nat \<Rightarrow> bool" where
  "runs_idle X K fr \<longleftrightarrow> (\<forall>n\<in>X. n < fr) \<and> (\<forall>k. k \<in># K \<longrightarrow> fst k \<in> X \<longrightarrow> snd (snd k) = 0 \<or> snd (snd k) = NOTHING)"

lemma runs_idle_empty [simp]: "runs_idle {} K fr"
  by (simp add: runs_idle_def)

lemma runs_idle_mono: "runs_idle X K fr \<Longrightarrow> K' \<subseteq># K \<Longrightarrow> fr \<le> fr' \<Longrightarrow> runs_idle X K' fr'"
  unfolding runs_idle_def by (meson mset_subset_eqD less_le_trans)

lemma runs_idle_add [simp]:
  "runs_idle X (add_mset k K) fr \<longleftrightarrow> (fst k \<in> X \<longrightarrow> snd (snd k) = 0 \<or> snd (snd k) = NOTHING) \<and> runs_idle X K fr"
  by (cases k) (auto simp: runs_idle_def)

definition pid_inv :: "nat set \<Rightarrow> ekey multiset \<Rightarrow> nat multiset \<Rightarrow> (int \<Rightarrow> bool) \<Rightarrow> nat \<Rightarrow> bool" where
  "pid_inv X K N tab fr \<longleftrightarrow>
     (\<forall>k. count (kpids X K) k \<le> of_bool (0 \<le> k \<and> k \<le> MUMAXPID \<and> tab k)) \<and>
     (\<forall>n. count (image_mset fst K + N) n \<le> of_bool (n < fr)) \<and> runs_idle X K fr"

lemma pid_invD:
  assumes "pid_inv X K N tab fr"
  shows "count (kpids X K) k \<le> of_bool (0 \<le> k \<and> k \<le> MUMAXPID \<and> tab k)"
    "\<not> tab k \<Longrightarrow> count (kpids X K) k = 0"
    "count (image_mset fst K) n + count N n \<le> of_bool (n < fr)"
    "count (image_mset fst K) fr = 0" "count N fr = 0" "runs_idle X K fr"
proof -
  show 1: "count (kpids X K) k \<le> of_bool (0 \<le> k \<and> k \<le> MUMAXPID \<and> tab k)" for k using assms unfolding pid_inv_def by blast
  show "\<not> tab k \<Longrightarrow> count (kpids X K) k = 0" using 1 [of k] by simp
  have "count (image_mset fst K + N) n \<le> of_bool (n < fr)" for n using assms unfolding pid_inv_def by blast
  then show 2: "count (image_mset fst K) n + count N n \<le> of_bool (n < fr)" for n by (simp only: count_union)
  show "count (image_mset fst K) fr = 0" "count N fr = 0" using 2 [of fr] by simp_all
  show "runs_idle X K fr" using assms unfolding pid_inv_def by blast
qed

lemma pid_invI:
  assumes "\<And>k. count (kpids X K) k \<le> of_bool (0 \<le> k \<and> k \<le> MUMAXPID \<and> tab k)"
    "\<And>n. count (image_mset fst K) n + count N n \<le> of_bool (n < fr)" "runs_idle X K fr"
  shows "pid_inv X K N tab fr"
  using assms unfolding pid_inv_def by (simp only: count_union simp_thms)

lemma kpids_simps [simp]:
  "kpids X {#} = {#}" "kpids X (A + B) = kpids X A + kpids X B"
  "kpids X (add_mset (n, p, x) K) = (if x \<noteq> NOTHING \<and> n \<notin> X then add_mset p (kpids X K) else kpids X K)"
  by (simp_all add: kpids_def)

lemma kpids_subset: "K' \<subseteq># K \<Longrightarrow> kpids X K' \<subseteq># kpids X K"
  by (simp add: kpids_def image_mset_subseteq_mono multiset_filter_mono)

lemma pid_inv_mono:
  assumes "pid_inv X K N tab fr" "K' \<subseteq># K" "N' \<subseteq># N" "\<And>k. tab k \<Longrightarrow> tab' k" "fr \<le> fr'"
  shows "pid_inv X K' N' tab' fr'"
proof -
  have "count (kpids X K') k \<le> of_bool (0 \<le> k \<and> k \<le> MUMAXPID \<and> tab' k)" for k
  proof -
    have "count (kpids X K') k \<le> count (kpids X K) k" using kpids_subset [OF assms(2)] by (simp add: mset_subset_eq_count)
    also have "\<dots> \<le> of_bool (0 \<le> k \<and> k \<le> MUMAXPID \<and> tab k)" using assms(1) by (simp add: pid_inv_def)
    also have "\<dots> \<le> of_bool (0 \<le> k \<and> k \<le> MUMAXPID \<and> tab' k)" using assms(4) [of k] by simp
    finally show ?thesis .
  qed
  moreover have "count (image_mset fst K' + N') n \<le> of_bool (n < fr')" for n
  proof -
    have "image_mset fst K' + N' \<subseteq># image_mset fst K + N" using assms(2,3) by (intro subset_mset.add_mono image_mset_subseteq_mono)
    then have "count (image_mset fst K' + N') n \<le> count (image_mset fst K + N) n" by (simp only: mset_subset_eq_count)
    also have "\<dots> \<le> of_bool (n < fr)" using assms(1) by (simp add: pid_inv_def)
    also have "\<dots> \<le> of_bool (n < fr')" using assms(5) by simp
    finally show ?thesis .
  qed
  moreover have "runs_idle X K' fr'" by (rule runs_idle_mono [OF pid_invD(6) [OF assms(1)] assms(2,5)])
  ultimately show ?thesis by (simp add: pid_inv_def)
qed

lemma of_bool_le_0: "(c :: nat) \<le> of_bool b \<Longrightarrow> \<not> b \<Longrightarrow> c = 0"
  by simp

lemma pid_inv_add:
  assumes i: "pid_inv X K N tab fr" and p: "0 \<le> p" "p \<le> MUMAXPID" "\<not> tab p"
  shows "pid_inv X (add_mset (fr, p, x) K) N (tab(p := True)) (Suc fr)"
proof (rule pid_invI)
  have "runs_idle X K (Suc fr)" using runs_idle_mono [OF pid_invD(6) [OF i]] by simp
  moreover have "fr \<notin> X" using pid_invD(6) [OF i] by (auto simp: runs_idle_def)
  ultimately show "runs_idle X (add_mset (fr, p, x) K) (Suc fr)" by simp
  show "count (kpids X (add_mset (fr, p, x) K)) k \<le> of_bool (0 \<le> k \<and> k \<le> MUMAXPID \<and> (tab(p := True)) k)" for k
    using pid_invD(1,2) [OF i, of k] p by (cases "k = p") auto
  show "count (image_mset fst (add_mset (fr, p, x) K)) n + count N n \<le> of_bool (n < Suc fr)" for n
    using pid_invD(3) [OF i, of n] pid_invD(4,5) [OF i] by (cases "n = fr"; cases "n < fr") auto
qed

text \<open>An entry that goes away, or dies, and whose process id is given back.\<close>

lemma pid_inv_free:
  assumes i: "pid_inv X (add_mset (n, p, x) K) N tab fr" and n: "n \<notin> X" "x \<noteq> NOTHING"
  shows "pid_inv X K N (tab(p := False)) fr" "pid_inv X (add_mset (n, p, NOTHING) K) N (tab(p := False)) fr"
proof -
  have c: "count (kpids X K) k \<le> of_bool (0 \<le> k \<and> k \<le> MUMAXPID \<and> (tab(p := False)) k)" for k
    using pid_invD(1) [OF i, of k] n by (cases "k = p"; cases "0 \<le> k \<and> k \<le> MUMAXPID \<and> tab k") auto
  have r: "runs_idle X K fr" using pid_invD(6) [OF i] by simp
  have m: "count (image_mset fst (add_mset (n, p, x) K)) m + count N m \<le> of_bool (m < fr)" for m by (rule pid_invD(3) [OF i])
  have "count (image_mset fst K) m + count N m \<le> of_bool (m < fr)" for m using m [of m] by (auto split: if_splits)
  then show "pid_inv X K N (tab(p := False)) fr" using c r by (intro pid_invI) auto
  show "pid_inv X (add_mset (n, p, NOTHING) K) N (tab(p := False)) fr" by (rule pid_invI) (use c m r in auto)
qed

lemma pid_inv_frozen:
  assumes i: "pid_inv X K N tab fr"
  shows "pid_inv X K (add_mset fr N) tab (Suc fr)"
proof (rule pid_invI)
  show "runs_idle X K (Suc fr)" using runs_idle_mono [OF pid_invD(6) [OF i]] by simp
  show "count (kpids X K) k \<le> of_bool (0 \<le> k \<and> k \<le> MUMAXPID \<and> tab k)" for k by (rule pid_invD(1) [OF i])
  show "count (image_mset fst K) n + count (add_mset fr N) n \<le> of_bool (n < Suc fr)" for n
    using pid_invD(3) [OF i, of n] pid_invD(4,5) [OF i] by (cases "n = fr"; cases "n < fr") auto
qed

text \<open>An entry begins to run: its process id is given back first.\<close>

definition with_player :: "nat \<Rightarrow> int \<Rightarrow> ekey multiset \<Rightarrow> ekey multiset" where
  "with_player n x K = image_mset (\<lambda>k. if fst k = n then (n, fst (snd k), x) else k) K"

lemma with_player_fst [simp]: "image_mset fst (with_player n x K) = image_mset fst K"
  by (auto simp: with_player_def image_mset.compositionality comp_def intro!: image_mset_cong)

lemma kpids_player_in: "n \<in> X \<Longrightarrow> kpids X (with_player n x K) = kpids X K"
  by (induction K) (auto simp: with_player_def)

lemma kpids_player_dead: "kpids {} (with_player n NOTHING K) = kpids {n} K"
  by (induction K) (auto simp: with_player_def)

lemma kpids_insert: "kpids (insert n X) K \<subseteq># kpids X K"
  unfolding kpids_def by (intro image_mset_subseteq_mono filter_mset_mono_strong) auto

lemma pid_inv_start:
  assumes i: "pid_inv {} K N tab fr" and k: "(n, p, y) \<in># K" "y \<noteq> NOTHING"
  shows "pid_inv {n} (with_player n 0 K) N (tab(p := False)) fr"
proof -
  obtain K' where K: "K = add_mset (n, p, y) K'" using k by (metis multi_member_split)
  have "count (kpids {n} K) k \<le> of_bool (0 \<le> k \<and> k \<le> MUMAXPID \<and> (tab(p := False)) k)" for k
  proof -
    have "count (kpids {n} K) k \<le> count (kpids {} K') k"
      using kpids_insert [of n "{}" K'] by (simp add: K mset_subset_eq_count)
    also have "\<dots> \<le> of_bool (0 \<le> k \<and> k \<le> MUMAXPID \<and> (tab(p := False)) k)"
      using pid_inv_free(1) [of "{}" n p y K' N tab fr] i k(2) by (simp add: K pid_inv_def)
    finally show ?thesis .
  qed
  moreover have "n < fr"
  proof (rule ccontr)
    assume "\<not> n < fr"
    then show False using pid_invD(3) [OF i, of n] by (simp add: K)
  qed
  then have "runs_idle {n} (with_player n 0 K) fr" by (auto simp: runs_idle_def with_player_def)
  ultimately show ?thesis using i by (simp add: pid_inv_def kpids_player_in)
qed

lemma pid_inv_stop: "pid_inv {n} K N tab fr \<Longrightarrow> pid_inv {} (with_player n NOTHING K) N tab fr"
  by (simp add: pid_inv_def kpids_player_dead)

lemma pid_inv_dead: "pid_inv {} K N tab fr \<Longrightarrow> pid_inv {} (with_player n NOTHING K) N tab fr"
proof -
  assume i: "pid_inv {} K N tab fr"
  have "count (kpids {n} K) k \<le> count (kpids {} K) k" for k using kpids_insert [of n "{}" K] by (simp add: mset_subset_eq_count)
  then show ?thesis using i le_trans runs_idle_empty unfolding pid_inv_def kpids_player_dead with_player_fst by blast
qed

subsection \<open>The invariant of the queues\<close>

definition kl :: "BQUE list \<Rightarrow> ekey multiset" where
  "kl l = image_mset ekey (mset l)"

definition keys :: "'c queue_state \<Rightarrow> ekey multiset" where
  "keys s = kl (qfirst s) + kl (qlfirst s) + kl (qwait s) + kl (qsem s)"

definition frozen_nodes :: "'c queue_state \<Rightarrow> nat multiset" where
  "frozen_nodes s = image_mset node (mset (fqwait s)) + image_mset node (mset (fqsem s))"

definition waiters :: "'c queue_state \<Rightarrow> ekey multiset" where
  "waiters s = kl (qwait s) + kl (qsem s)"

definition waiters_ok :: "nat set \<Rightarrow> ekey multiset \<Rightarrow> bool" where
  "waiters_ok X K \<longleftrightarrow> (\<forall>k. k \<in># K \<longrightarrow> fst k \<notin> X \<longrightarrow> snd (snd k) \<noteq> NOTHING)"

text \<open>An entry that is being run out of the semaphore queue is the one in \<open>kick_pid\<close>.\<close>

definition kick_known :: "nat set \<Rightarrow> ekey multiset \<Rightarrow> int \<Rightarrow> bool" where
  "kick_known X K j \<longleftrightarrow> (\<forall>k. k \<in># K \<longrightarrow> fst k \<in> X \<longrightarrow> fst (snd k) = j)"

lemma kick_known_simps [simp]: "kick_known {} K j" "kick_known X {#} j"
  "kick_known X (add_mset k K) j \<longleftrightarrow> (fst k \<in> X \<longrightarrow> fst (snd k) = j) \<and> kick_known X K j"
  "kick_known X (K + L) j \<longleftrightarrow> kick_known X K j \<and> kick_known X L j"
  unfolding kick_known_def union_iff set_mset_add_mset_insert insert_iff by (simp, simp, blast, blast)

lemma kick_known_mono: "kick_known X K j \<Longrightarrow> K' \<subseteq># K \<Longrightarrow> kick_known X K' j"
  unfolding kick_known_def by (meson mset_subset_eqD)

definition queue_inv :: "nat set \<Rightarrow> 'c queue_state \<Rightarrow> bool" where
  "queue_inv X s \<longleftrightarrow> pid_inv X (keys s) (frozen_nodes s) (pid_table s) (fresh s) \<and> waiters_ok X (waiters s) \<and>
     0 \<le> last_pid s \<and> kick_known X (kl (qsem s)) (kick_pid s)"

lemma kl_simps [simp]: "kl [] = {#}" "kl (p # l) = add_mset (ekey p) (kl l)" "kl (l @ m) = kl l + kl m"
  by (simp_all add: kl_def)

lemma kl_filter_subset [simp]: "kl (filter P l) \<subseteq># kl l"
  by (simp add: kl_def image_mset_subseteq_mono)

lemma ekey_same [simp]:
  "ekey (p\<lparr>waittime := x\<rparr>) = ekey p" "ekey (p\<lparr>sem := x\<rparr>) = ekey p" "ekey (p\<lparr>stop_bool := x\<rparr>) = ekey p"
  "ekey (p\<lparr>stop_bool_val := x\<rparr>) = ekey p"
  by (simp_all add: ekey_def)

lemma waiters_ok_mono: "waiters_ok X K \<Longrightarrow> K' \<subseteq># K \<Longrightarrow> waiters_ok X K'"
  unfolding waiters_ok_def by (meson mset_subset_eqD)

lemma queue_inv_mono:
  assumes "queue_inv X s" "keys s' \<subseteq># keys s" "waiters s' \<subseteq># waiters s" "frozen_nodes s' \<subseteq># frozen_nodes s"
    "\<And>k. pid_table s k \<Longrightarrow> pid_table s' k" "fresh s \<le> fresh s'"
    "last_pid s' = last_pid s" "kick_pid s' = kick_pid s" "kl (qsem s') \<subseteq># kl (qsem s)"
  shows "queue_inv X s'"
  proof -
  have i: "pid_inv X (keys s) (frozen_nodes s) (pid_table s) (fresh s)" "waiters_ok X (waiters s)" "0 \<le> last_pid s"
    "kick_known X (kl (qsem s)) (kick_pid s)"
    using assms(1) by (simp_all add: queue_inv_def)
  have "pid_inv X (keys s') (frozen_nodes s') (pid_table s') (fresh s')"
    by (rule pid_inv_mono [OF i(1) assms(2,4)]) (use assms(5,6) in \<open>simp_all\<close>)
  then show ?thesis using waiters_ok_mono [OF i(2) assms(3)] kick_known_mono [OF i(4) assms(9)] i(3) assms(7,8)
    by (simp add: queue_inv_def)
qed

text \<open>Payments, counts and semaphores change the player cache and the attributes only.\<close>

lemma q_giveto_eq: "q_giveto D w who n s = s\<lparr>pst := giveto D w who n (pst s)\<rparr>"
  by (simp add: q_giveto_def)

lemma refund_eq: "refund D w payer who n s = s\<lparr>pst := (if w_FreeFlag w payer then pst s else giveto D w who n (pst s))\<rparr>"
  by (simp add: refund_def q_giveto_def)

lemma count_queue_eq: "count_queue D w who n s = s\<lparr>pst := snd (a_Queue D w who n (pst s))\<rparr>"
  by (simp add: count_queue_def q_a_Queue_def split: prod.splits)

definition add_to_pst :: "'c acache \<Rightarrow> world \<Rightarrow> int \<Rightarrow> int \<Rightarrow> int \<Rightarrow> 'c pcache_state \<Rightarrow> int \<times> 'c pcache_state" where
  "add_to_pst D w thing am attr_no p =
     (case atr_get D (w_g w) thing attr_no (adb p) of
        ((txt, _), a) \<Rightarrow>
          (atoi txt + am,
           add_raw D w thing attr_no (Some (if atoi txt + am \<noteq> 0 then sprintf_d (atoi txt + am) else [])) (p\<lparr>adb := a\<rparr>)))"

lemma add_to_eq: "add_to D w thing am n s = (fst (add_to_pst D w thing am n (pst s)), s\<lparr>pst := snd (add_to_pst D w thing am n (pst s))\<rparr>)"
  by (simp add: add_to_def add_to_pst_def Let_def split: prod.splits)

lemma sem_add_eq: "sem_add D w thing am s = s\<lparr>pst := snd (add_to_pst D w thing am A_SEMAPHORE (pst s))\<rparr>"
  by (simp add: sem_add_def add_to_eq)

lemmas pst_only = refund_eq count_queue_eq sem_add_eq add_to_eq q_giveto_eq

lemma queue_inv_pst [simp]: "queue_inv X (s\<lparr>pst := p\<rparr>) = queue_inv X s"
  by (simp add: queue_inv_def keys_def waiters_def frozen_nodes_def)

subsection \<open>Moving entries\<close>

text \<open>Only the run queues are changed, and the keys of \<open>K\<close> may have been added to them.\<close>

definition runs_more :: "ekey multiset \<Rightarrow> 'c queue_state \<Rightarrow> 'c queue_state \<Rightarrow> bool" where
  "runs_more K s s' \<longleftrightarrow>
     kl (qfirst s') + kl (qlfirst s') \<subseteq># K + kl (qfirst s) + kl (qlfirst s) \<and>
     qwait s' = qwait s \<and> qsem s' = qsem s \<and> fqwait s' = fqwait s \<and> fqsem s' = fqsem s \<and> pid_table s' = pid_table s \<and>
     last_pid s' = last_pid s \<and> kick_pid s' = kick_pid s \<and> fresh s' = fresh s \<and> q_now s' = q_now s"

lemma runs_more_refl: "runs_more {#} s s"
  by (simp add: runs_more_def)

lemma runs_more_trans: "runs_more A s s1 \<Longrightarrow> runs_more B s1 s2 \<Longrightarrow> runs_more (A + B) s s2"
  unfolding runs_more_def using subset_mset.add_left_mono [of "kl (qfirst s1) + kl (qlfirst s1)" _ B]
  by (auto simp: ac_simps intro: subset_mset.order_trans)

lemma give_que_more: "runs_more {#ekey p#} s (give_que w p s)"
  by (auto simp: give_que_def runs_more_def Let_def ac_simps)

lemma pst_more: "runs_more {#} s (s\<lparr>pst := p\<rparr>)"
  by (simp add: runs_more_def)

lemma runs_more_inv:
  assumes "queue_inv X s" "runs_more K (s\<lparr>qwait := l, qsem := m\<rparr>) s'" "K + kl l + kl m \<subseteq># kl (qwait s) + kl (qsem s)"
    "kl m \<subseteq># kl (qsem s)"
  shows "queue_inv X s'"
proof (rule queue_inv_mono [OF assms(1)])
  note r = assms(2) [unfolded runs_more_def, simplified]
  have "kl (qfirst s') + kl (qlfirst s') + (kl l + kl m) \<subseteq># K + kl (qfirst s) + kl (qlfirst s) + (kl l + kl m)"
    using r by (intro subset_mset.add_right_mono) simp
  also have "\<dots> = (kl (qfirst s) + kl (qlfirst s)) + (K + kl l + kl m)" by (simp add: ac_simps)
  also have "\<dots> \<subseteq># (kl (qfirst s) + kl (qlfirst s)) + (kl (qwait s) + kl (qsem s))"
    using assms(3) by (intro subset_mset.add_left_mono)
  finally show "keys s' \<subseteq># keys s" using r by (simp add: keys_def ac_simps)
  have "kl l + kl m \<subseteq># K + kl l + kl m" by (simp add: ac_simps)
  from subset_mset.order_trans [OF this assms(3)] show "waiters s' \<subseteq># waiters s" using r by (simp add: waiters_def)
qed (use assms(2,4) in \<open>simp_all add: runs_more_def frozen_nodes_def\<close>)

lemma new_time_key [simp]: "ekey (new_time now diff p) = ekey p"
  by (simp add: new_time_def Let_def)

lemma second_wait_more:
  "second_wait w now diff l s = (l1, s1) \<Longrightarrow> \<exists>K. runs_more K s s1 \<and> K + kl l1 \<subseteq># kl l"
proof (induction w now diff l s arbitrary: l1 s1 rule: second_wait.induct)
  case (1 w now diff s)
  then show ?case using runs_more_refl by fastforce
next
  case (2 w now diff p l s)
  let ?p = "new_time now diff p"
  show ?case
  proof (cases "waittime ?p \<le> now")
    case True
    then have "second_wait w now diff l (give_que w ?p s) = (l1, s1)" using 2 by (simp add: Let_def)
    from "2.IH"(1) [OF refl True this] obtain K where K: "runs_more K (give_que w ?p s) s1" "K + kl l1 \<subseteq># kl l" by blast
    have "runs_more ({#ekey ?p#} + K) s s1" using runs_more_trans [OF give_que_more K(1)] .
    moreover have "{#ekey ?p#} + K + kl l1 \<subseteq># kl (p # l)" using K(2) by simp
    ultimately show ?thesis by blast
  next
    case False
    then obtain l2 where l2: "second_wait w now diff l s = (l2, s1)" "l1 = ?p # l2" using 2 by (auto simp: Let_def split: prod.splits)
    from "2.IH"(2) [OF refl False l2(1)] show ?thesis using l2(2) by auto
  qed
qed

lemma second_sem_more:
  "second_sem D w now diff l s = (l1, s1) \<Longrightarrow> \<exists>K. runs_more K s s1 \<and> K + kl l1 \<subseteq># kl l"
proof (induction D w now diff l s arbitrary: l1 s1 rule: second_sem.induct)
  case (1 D w now diff s)
  then show ?case using runs_more_refl by fastforce
next
  case (2 D w now diff p l s)
  let ?p = "new_time now diff p"
  show ?case
  proof (cases "waittime p = 0")
    case True
    then obtain l2 where l2: "second_sem D w now diff l s = (l2, s1)" "l1 = p # l2" using 2 by (auto split: prod.splits)
    from "2.IH"(1) [OF True l2(1)] show ?thesis using l2(2) by auto
  next
    case nz: False
    show ?thesis
    proof (cases "waittime ?p \<le> now")
      case True
      let ?s = "give_que w (?p\<lparr>sem := NOTHING\<rparr>) (sem_add D w (sem ?p) (- 1) s)"
      have "second_sem D w now diff l ?s = (l1, s1)" using 2 nz True by (simp add: Let_def)
      from "2.IH"(2) [OF nz refl True this] obtain K where K: "runs_more K ?s s1" "K + kl l1 \<subseteq># kl l" by blast
      have "runs_more ({#} + {#ekey (?p\<lparr>sem := NOTHING\<rparr>)#} + K) s s1"
        using runs_more_trans [OF runs_more_trans [OF _ give_que_more] K(1)] pst_more unfolding sem_add_eq by blast
      moreover have "{#} + {#ekey (?p\<lparr>sem := NOTHING\<rparr>)#} + K + kl l1 \<subseteq># kl (p # l)" using K(2) by simp
      ultimately show ?thesis by blast
    next
      case False
      then obtain l2 where l2: "second_sem D w now diff l s = (l2, s1)" "l1 = ?p # l2"
        using 2 nz by (auto simp: Let_def split: prod.splits)
      from "2.IH"(3) [OF nz refl False l2(1)] show ?thesis using l2(2) by auto
    qed
  qed
qed

lemma do_second_inv:
  assumes i: "queue_inv X s"
  shows "queue_inv X (do_second D w s)"
proof (cases "dequeue s")
  case True
  define s1 where "s1 = (if qlfirst s \<noteq> [] then
      s\<lparr>qfirst := (if qlast s then qfirst s @ qlfirst s else qlfirst s), qlast := qllast s, qlfirst := [], qllast := False\<rparr> else s)"
  define diff where "diff = q_now s1 - q_lastnow s1"
  obtain wl s2 where s2: "second_wait w (q_now s1) diff (qwait s1) s1 = (wl, s2)" by (metis prod.collapse)
  obtain sl s4 where s4: "second_sem D w (q_now (s2\<lparr>qwait := wl\<rparr>)) diff (qsem (s2\<lparr>qwait := wl\<rparr>)) (s2\<lparr>qwait := wl\<rparr>) = (sl, s4)"
    by (metis prod.collapse)
  have i1: "queue_inv X s1"
    by (rule queue_inv_mono [OF i]) (auto simp: s1_def keys_def waiters_def frozen_nodes_def ac_simps)
  obtain K where K: "runs_more K s1 s2" "K + kl wl \<subseteq># kl (qwait s1)" using second_wait_more [OF s2] by blast
  have i2: "queue_inv X (s2\<lparr>qwait := wl\<rparr>)"
  proof (rule runs_more_inv [OF i1, where K = K and l = wl and m = "qsem s1"])
    show "runs_more K (s1\<lparr>qwait := wl, qsem := qsem s1\<rparr>) (s2\<lparr>qwait := wl\<rparr>)" using K(1) by (simp add: runs_more_def)
    show "K + kl wl + kl (qsem s1) \<subseteq># kl (qwait s1) + kl (qsem s1)" using K(2) by simp
  qed simp
  obtain L where L: "runs_more L (s2\<lparr>qwait := wl\<rparr>) s4" "L + kl sl \<subseteq># kl (qsem s2)" using second_sem_more [OF s4] by auto
  have "queue_inv X (s4\<lparr>qsem := sl\<rparr>)"
  proof (rule runs_more_inv [OF i2, where K = L and l = wl and m = sl])
    show "runs_more L (s2\<lparr>qwait := wl, qwait := wl, qsem := sl\<rparr>) (s4\<lparr>qsem := sl\<rparr>)" using L(1) by (simp add: runs_more_def)
    show "L + kl wl + kl sl \<subseteq># kl (qwait (s2\<lparr>qwait := wl\<rparr>)) + kl (qsem (s2\<lparr>qwait := wl\<rparr>))"
      using L(2) by (simp add: ac_simps)
    have "kl sl \<subseteq># L + kl sl" by simp
    from subset_mset.order_trans [OF this L(2)] show "kl sl \<subseteq># kl (qsem (s2\<lparr>qwait := wl\<rparr>))" by simp
  qed
  moreover have "queue_inv X (s5\<lparr>counters := c\<rparr>) = queue_inv X s5" for s5 :: "'a queue_state" and c
    by (simp add: queue_inv_def keys_def waiters_def frozen_nodes_def)
  ultimately show ?thesis using True s2 s4
    by (simp add: do_second_def s1_def [symmetric] diff_def [symmetric] Let_def)
qed (use i in \<open>simp add: do_second_def\<close>)

subsection \<open>Halting\<close>

definition clear :: "BQUE list \<Rightarrow> (int \<Rightarrow> bool) \<Rightarrow> int \<Rightarrow> bool" where
  "clear l tab k \<longleftrightarrow> tab k \<and> k \<notin> pid ` set l"

lemma clear_simps [simp]: "clear [] tab = tab" "clear (p # l) tab = clear l (tab(pid p := False))"
    "clear (l @ m) tab = clear m (clear l tab)"
  by (auto simp: clear_def fun_eq_iff)

lemma pid_inv_drop:
  "pid_inv X (kl l + K) N tab fr \<Longrightarrow> \<forall>p\<in>set l. P p \<longrightarrow> player p \<noteq> NOTHING \<and> node p \<notin> X \<Longrightarrow>
    pid_inv X (kl (filter (\<lambda>p. \<not> P p) l) + K) N (clear (filter P l) tab) fr"
proof (induction l arbitrary: K tab)
  case (Cons p l)
  show ?case
  proof (cases "P p")
    case True
    then have p: "player p \<noteq> NOTHING" "node p \<notin> X" using Cons.prems(2) by simp_all
    have "pid_inv X (add_mset (node p, pid p, player p) (kl l + K)) N tab fr" using Cons.prems(1) by (simp add: ekey_def)
    from Cons.IH [OF pid_inv_free(1) [OF this p(2,1)]] Cons.prems(2) True show ?thesis by (simp add: fun_upd_def)
  next
    case False
    have "pid_inv X (kl l + add_mset (ekey p) K) N tab fr" using Cons.prems(1) by simp
    from Cons.IH [OF this] Cons.prems(2) False show ?thesis by simp
  qed
qed simp

lemma pid_inv_mark:
  "pid_inv X (kl l + K) N tab fr \<Longrightarrow> \<forall>p\<in>set l. P p \<longrightarrow> player p \<noteq> NOTHING \<and> node p \<notin> X \<Longrightarrow>
    pid_inv X (kl (mark_dead P l) + K) N (clear (filter P l) tab) fr"
proof (induction l arbitrary: K tab)
  case (Cons p l)
  show ?case
  proof (cases "P p")
    case True
    then have p: "player p \<noteq> NOTHING" "node p \<notin> X" using Cons.prems(2) by simp_all
    have "pid_inv X (add_mset (node p, pid p, player p) (kl l + K)) N tab fr" using Cons.prems(1) by (simp add: ekey_def)
    from pid_inv_free(2) [OF this p(2,1)] have "pid_inv X (kl l + add_mset (node p, pid p, NOTHING) K) N (tab(pid p := False)) fr" by simp
    from Cons.IH [OF this] Cons.prems(2) True show ?thesis by (simp add: mark_dead_def ekey_def fun_upd_def)
  next
    case False
    have "pid_inv X (kl l + add_mset (ekey p) K) N tab fr" using Cons.prems(1) by simp
    from Cons.IH [OF this] Cons.prems(2) False show ?thesis by (simp add: mark_dead_def)
  qed
qed (simp add: mark_dead_def)

lemma fold_free: "fold (\<lambda>p. free_pid (pid p)) l s = s\<lparr>pid_table := clear l (pid_table s)\<rparr>"
  by (induction l arbitrary: s) (simp_all add: free_pid_def)

lemma fold_sem_free:
  "\<exists>q. fold (\<lambda>p s. sem_add D w (sem p) (- 1) (free_pid (pid p) s)) l s = s\<lparr>pst := q, pid_table := clear l (pid_table s)\<rparr>"
proof (induction l arbitrary: s)
  case (Cons p l)
  obtain q where "fold (\<lambda>p s. sem_add D w (sem p) (- 1) (free_pid (pid p) s)) l (sem_add D w (sem p) (- 1) (free_pid (pid p) s)) =
      (sem_add D w (sem p) (- 1) (free_pid (pid p) s))\<lparr>pst := q, pid_table := clear l (pid_table (sem_add D w (sem p) (- 1) (free_pid (pid p) s)))\<rparr>"
    using Cons by blast
  then show ?case by (auto simp: sem_add_eq free_pid_def)
next
  case Nil
  show ?case by (rule exI [of _ "pst s"]) simp
qed

text \<open>No entry that is marked, or being run, is wanted.\<close>

definition halts_live :: "nat set \<Rightarrow> world \<Rightarrow> int \<Rightarrow> int \<Rightarrow> 'c queue_state \<Rightarrow> bool" where
  "halts_live X w plr obj s \<longleftrightarrow>
     (\<forall>p\<in>set (qfirst s) \<union> set (qlfirst s) \<union> set (qwait s) \<union> set (qsem s).
        que_want w plr obj p \<longrightarrow> player p \<noteq> NOTHING \<and> node p \<notin> X)"

lemma halts_live_idle: "Owner w NOTHING = NOTHING \<Longrightarrow> plr \<noteq> NOTHING \<or> obj \<noteq> NOTHING \<Longrightarrow> halts_live {} w plr obj s"
  by (auto simp: halts_live_def que_want_def)

lemma halt_que_inv:
  assumes i: "queue_inv X s" and h: "halts_live X w plr obj s"
  shows "queue_inv X (snd (halt_que D w plr obj s))"
proof -
  define want where "want = que_want w plr obj"
  define semwant where "semwant = (\<lambda>p. pid p \<noteq> kick_pid s \<and> want p)"
  define gone where "gone = filter want (qfirst s) @ filter want (qlfirst s) @ filter want (qwait s)"
  define gonesem where "gonesem = filter semwant (qsem s)"
  define s1 where "s1 = s\<lparr>qfirst := mark_dead want (qfirst s), qlfirst := mark_dead want (qlfirst s),
      qwait := filter (\<lambda>p. \<not> want p) (qwait s), qsem := filter (\<lambda>p. \<not> semwant p) (qsem s),
      pid_table := clear gonesem (clear gone (pid_table s))\<rparr>"
  let ?N = "frozen_nodes s" and ?f = "fresh s"
  have l: "\<forall>p\<in>set (qfirst s). want p \<longrightarrow> player p \<noteq> NOTHING \<and> node p \<notin> X"
      "\<forall>p\<in>set (qlfirst s). want p \<longrightarrow> player p \<noteq> NOTHING \<and> node p \<notin> X"
      "\<forall>p\<in>set (qwait s). want p \<longrightarrow> player p \<noteq> NOTHING \<and> node p \<notin> X"
      "\<forall>p\<in>set (qsem s). want p \<longrightarrow> player p \<noteq> NOTHING \<and> node p \<notin> X"
    using h by (simp_all add: halts_live_def want_def)
  have "pid_inv X (keys s) ?N (pid_table s) ?f" using i by (simp add: queue_inv_def)
  then have 0: "pid_inv X (kl (qfirst s) + (kl (qlfirst s) + kl (qwait s) + kl (qsem s))) ?N (pid_table s) ?f"
    by (simp add: keys_def ac_simps)
  have 1: "pid_inv X (kl (qlfirst s) + (kl (mark_dead want (qfirst s)) + kl (qwait s) + kl (qsem s))) ?N
      (clear (filter want (qfirst s)) (pid_table s)) ?f"
    using pid_inv_mark [OF 0 l(1)] by (simp add: ac_simps)
  have 2: "pid_inv X (kl (qwait s) + (kl (mark_dead want (qfirst s)) + kl (mark_dead want (qlfirst s)) + kl (qsem s))) ?N
      (clear (filter want (qlfirst s)) (clear (filter want (qfirst s)) (pid_table s))) ?f"
    using pid_inv_mark [OF 1 l(2)] by (simp add: ac_simps)
  have 3: "pid_inv X (kl (qsem s) + (kl (mark_dead want (qfirst s)) + kl (mark_dead want (qlfirst s)) +
      kl (filter (\<lambda>p. \<not> want p) (qwait s)))) ?N (clear gone (pid_table s)) ?f"
    using pid_inv_drop [OF 2 l(3)] by (simp add: ac_simps gone_def)
  have "\<forall>p\<in>set (qsem s). semwant p \<longrightarrow> player p \<noteq> NOTHING \<and> node p \<notin> X" using l(4) by (simp add: semwant_def)
  from pid_inv_drop [OF 3 this] have 4: "pid_inv X (keys s1) ?N (pid_table s1) ?f"
    by (simp add: ac_simps keys_def s1_def gonesem_def)
  have "waiters s1 \<subseteq># waiters s" unfolding waiters_def s1_def by (simp add: subset_mset.add_mono)
  then have "waiters_ok X (waiters s1)" using i waiters_ok_mono unfolding queue_inv_def by blast
  moreover have "kick_known X (kl (qsem s1)) (kick_pid s1)"
    using i kick_known_mono [OF _ kl_filter_subset] by (simp add: queue_inv_def s1_def)
  ultimately have i1: "queue_inv X s1" using 4 i by (simp add: queue_inv_def s1_def frozen_nodes_def)
  define s0 where "s0 = s\<lparr>qfirst := mark_dead want (qfirst s), qlfirst := mark_dead want (qlfirst s),
      qwait := filter (\<lambda>p. \<not> want p) (qwait s), pid_table := clear gone (pid_table s), qsem := filter (\<lambda>p. \<not> semwant p) (qsem s)\<rparr>"
  obtain q where "fold (\<lambda>p s. sem_add D w (sem p) (- 1) (free_pid (pid p) s)) gonesem s0 =
      s0\<lparr>pst := q, pid_table := clear gonesem (pid_table s0)\<rparr>"
    using fold_sem_free by blast
  then have q: "fold (\<lambda>p s. sem_add D w (sem p) (- 1) (free_pid (pid p) s)) gonesem s0 = s1\<lparr>pst := q\<rparr>"
    by (simp add: s0_def s1_def)
  have "snd (halt_entries D w want s) = s1\<lparr>pst := q\<rparr>"
    using q unfolding halt_entries_def Let_def fold_free s0_def gonesem_def semwant_def gone_def by simp
  then have "\<exists>q'. snd (halt_que D w plr obj s) = s1\<lparr>pst := q'\<rparr>"
    by (auto simp: halt_que_def want_def [symmetric] pst_only Let_def split: prod.splits)
  then show ?thesis using i1 by auto
qed

lemma fold_pst: "(\<And>p s. \<exists>q. f p s = s\<lparr>pst := q\<rparr>) \<Longrightarrow> \<exists>q. fold f l s = s\<lparr>pst := q\<rparr>"
proof (induction l arbitrary: s)
  case Nil
  show ?case by (rule exI [of _ "pst s"]) simp
next
  case (Cons p l)
  obtain q where 1: "f p s = s\<lparr>pst := q\<rparr>" using Cons.prems by blast
  obtain q' where 2: "fold f l (f p s) = (f p s)\<lparr>pst := q'\<rparr>" using Cons by blast
  show ?case by (rule exI [of _ q']) (simp add: 1 2 [unfolded 1])
qed

lemma kpids_dead: "kpids X (kl (mark_dead (\<lambda>_. True) l)) = {#}"
  by (induction l) (simp_all add: mark_dead_def ekey_def)

lemma nodes_dead: "image_mset fst (kl (mark_dead P l)) = image_mset fst (kl l)"
  by (induction l) (simp_all add: mark_dead_def ekey_def)

lemma halt_que_all_inv:
  assumes i: "queue_inv X s"
  shows "queue_inv X (snd (halt_que_all D w s))"
proof -
  define pay :: "BQUE \<Rightarrow> 'a queue_state \<Rightarrow> 'a queue_state" where
    "pay = (\<lambda>p s. count_queue D w (Owner w (player p)) (- 1) (refund D w (Owner w (player p)) (player p) (waitcost w) s))"
  have pay: "\<exists>q. pay p s = s\<lparr>pst := q\<rparr>" for p s by (auto simp: pay_def pst_only)
  have sp: "\<exists>q. sem_add D w (sem p) (- 1) (pay p s) = s\<lparr>pst := q\<rparr>" for p s
    by (auto simp: pay_def pst_only)
  define semgone where "semgone = filter (\<lambda>p. pid p \<noteq> kick_pid s) (qsem s)"
  obtain q1 where q1: "fold pay (qfirst s @ qlfirst s) s = s\<lparr>pst := q1\<rparr>" using fold_pst [of pay, OF pay] by blast
  define s2 where "s2 = s\<lparr>pst := q1, qfirst := mark_dead (\<lambda>_. True) (qfirst s), qlfirst := mark_dead (\<lambda>_. True) (qlfirst s),
      qlast := False, qllast := False\<rparr>"
  obtain q2 where q2: "fold pay (qwait s) s2 = s2\<lparr>pst := q2\<rparr>" using fold_pst [of pay, OF pay] by blast
  obtain q3 where q3: "fold (\<lambda>p s. sem_add D w (sem p) (- 1) (pay p s)) semgone (s2\<lparr>pst := q2, qwait := []\<rparr>) =
      s2\<lparr>pst := q2, qwait := [], pst := q3\<rparr>"
    using fold_pst [of "\<lambda>p s. sem_add D w (sem p) (- 1) (pay p s)", OF sp] by blast
  have e: "snd (halt_que_all D w s) = init_pid_table (s2\<lparr>pst := q2, qwait := [], pst := q3, qsem := []\<rparr>)"
    unfolding halt_que_all_def Let_def pay_def [symmetric] semgone_def [symmetric] q1 using q2 q3 by (simp add: s2_def)
  let ?K = "kl (mark_dead (\<lambda>_. True) (qfirst s)) + kl (mark_dead (\<lambda>_. True) (qlfirst s))"
  have p: "pid_inv X (keys s) (frozen_nodes s) (pid_table s) (fresh s)" using i by (simp add: queue_inv_def)
  have "pid_inv X ?K (frozen_nodes s) (\<lambda>_. False) (fresh s)"
  proof (rule pid_invI)
    show "count (image_mset fst ?K) n + count (frozen_nodes s) n \<le> of_bool (n < fresh s)" for n
      using pid_invD(3) [OF p, of n] by (simp add: nodes_dead keys_def)
    show "runs_idle X ?K (fresh s)" using pid_invD(6) [OF p] by (auto simp: runs_idle_def kl_def mark_dead_def ekey_def)
  qed (simp add: kpids_dead)
  then show ?thesis unfolding e
    by (simp add: queue_inv_def init_pid_table_def s2_def keys_def waiters_def waiters_ok_def frozen_nodes_def MUMAXPID_def)
qed

subsection \<open>Queueing\<close>

lemma first_free_some: "first_free tab lo hi = Some p \<Longrightarrow> lo \<le> p \<and> p \<le> hi \<and> \<not> tab p"
proof (induction tab lo hi rule: first_free.induct)
  case (1 tab lo hi)
  then show ?case by (subst (asm) first_free.simps) (auto split: if_splits)
qed

lemma first_free_none: "first_free tab lo hi = None \<Longrightarrow> lo \<le> p \<Longrightarrow> p \<le> hi \<Longrightarrow> tab p"
proof (induction tab lo hi rule: first_free.induct)
  case (1 tab lo hi)
  then show ?case by (subst (asm) first_free.simps) (cases "p = lo"; auto split: if_splits)
qed

lemma find_pid_some: "find_pid s = Some p \<Longrightarrow> 0 \<le> last_pid s \<Longrightarrow> 0 \<le> p \<and> p \<le> MUMAXPID \<and> \<not> pid_table s p"
  by (auto simp: find_pid_def split: if_splits option.splits dest!: first_free_some)

lemma find_pid_none: "find_pid s = None \<Longrightarrow> 0 \<le> p \<Longrightarrow> p \<le> MUMAXPID \<Longrightarrow> pid_table s p"
  using first_free_none [of "pid_table s" "last_pid s + 1" MUMAXPID p] first_free_none [of "pid_table s" 0 "last_pid s" p]
    first_free_none [of "pid_table s" 0 MUMAXPID p]
  by (cases "p \<le> last_pid s") (auto simp: find_pid_def split: if_splits option.splits)

lemma insert_wait_keys [simp]: "kl (insert_wait p l) = add_mset (ekey p) (kl l)"
  by (induction l) simp_all

text \<open>The state with a new entry that is not yet in a list.\<close>

lemma pid_inv_entry:
  assumes "queue_inv X s" "find_pid s = Some tpid"
  shows "pid_inv X (add_mset (fresh s, tpid, x) (keys s)) (frozen_nodes s) ((pid_table s)(tpid := True)) (Suc (fresh s))" "0 \<le> tpid" "fresh s \<notin> X"
  using assms pid_inv_add find_pid_some pid_invD(6) unfolding queue_inv_def runs_idle_def by blast+

text \<open>The owner has more commands in the queues than \<open>QueueMax\<close> allows, and all of them are halted.\<close>

definition over_limit :: "'c acache \<Rightarrow> world \<Rightarrow> int \<Rightarrow> int \<Rightarrow> 'c queue_state \<Rightarrow> bool" where
  "over_limit D w rnd plr s \<longleftrightarrow>
     (case q_payfor D w plr (waitcost w + (if rnd mod machinecost w = 0 then 1 else 0)) s of
        (paid, s1) \<Rightarrow>
          (case QueueMax D w (Owner w plr) (pst s1) of
             (a, p2) \<Rightarrow> paid \<and> fst (q_a_Queue D w (Owner w plr) 1 (s1\<lparr>pst := p2\<rparr>)) > a))"

lemma q_payfor_split: "\<exists>b q. q_payfor D w who n s = (b, s\<lparr>pst := q\<rparr>)"
  by (auto simp: q_payfor_def split: prod.splits)

lemma q_a_Queue_split: "\<exists>k q. q_a_Queue D w who n s = (k, s\<lparr>pst := q\<rparr>)"
  by (auto simp: q_a_Queue_def split: prod.splits)

lemma setup_que_inv:
  assumes i: "queue_inv X s" and h: "over_limit D w rnd plr s \<Longrightarrow> halts_live X w (Owner w plr) NOTHING s" and plr: "plr \<noteq> NOTHING"
    and r: "setup_que D w rnd plr cau c args n sargs names s = (e, s')"
  shows "case e of
      None \<Rightarrow> queue_inv X s'
    | Some p \<Rightarrow> pid_inv X (add_mset (ekey p) (keys s')) (frozen_nodes s') (pid_table s') (fresh s') \<and> waiters_ok X (waiters s') \<and>
        0 \<le> last_pid s' \<and> kick_known X (kl (qsem s')) (kick_pid s') \<and> node p \<notin> X \<and> player p = plr \<and> pid p = last_pid s' \<and> cause p = cau \<and> stop_bool p = 0"
proof (cases "Halted plr s \<and> \<not> force_halt s")
  case True
  then show ?thesis using r i by (auto simp: setup_que_def)
next
  case nh: False
  obtain paid q1 where p1: "q_payfor D w plr (waitcost w + (if rnd mod machinecost w = 0 then 1 else 0)) s = (paid, s\<lparr>pst := q1\<rparr>)"
    by (metis q_payfor_split)
  show ?thesis
  proof (cases paid)
    case False
    then show ?thesis using r i nh p1 by (auto simp: setup_que_def)
  next
    case True
    obtain a q2 where p2: "QueueMax D w (Owner w plr) q1 = (a, q2)" by (metis prod.collapse)
    obtain m q3 where p3: "q_a_Queue D w (Owner w plr) 1 (s\<lparr>pst := q2\<rparr>) = (m, s\<lparr>pst := q3\<rparr>)"
      using q_a_Queue_split [of D w "Owner w plr" 1 "s\<lparr>pst := q2\<rparr>"] by auto
    have i3: "queue_inv X (s\<lparr>pst := q3\<rparr>)" using i by simp
    show ?thesis
    proof (cases "m > a")
      case True
      obtain k s5 where s5: "halt_que D w (Owner w plr) NOTHING (count_queue D w (Owner w plr) (- 1) (s\<lparr>pst := q3\<rparr>)) = (k, s5)"
        by (metis prod.collapse)
      have "over_limit D w rnd plr s" using \<open>paid\<close> True by (simp add: over_limit_def p1 p2 p3)
      from h [OF this] have "halts_live X w (Owner w plr) NOTHING (s\<lparr>pst := q\<rparr>)" for q by (simp add: halts_live_def)
      then have "queue_inv X s5"
        using halt_que_inv [of X "count_queue D w (Owner w plr) (- 1) (s\<lparr>pst := q3\<rparr>)" w "Owner w plr" NOTHING D] i s5
        by (simp add: count_queue_eq)
      then show ?thesis using r nh p1 \<open>paid\<close> p2 p3 True s5 by (auto simp: setup_que_def s_Halted_def)
    next
      case le: False
      show ?thesis
      proof (cases "find_pid (s\<lparr>pst := q3\<rparr>)")
        case None
        then show ?thesis using r nh p1 \<open>paid\<close> p2 p3 le halt_que_all_inv [OF i3] by (auto simp: setup_que_def)
      next
        case (Some tpid)
        from pid_inv_entry(1) [OF i3 this, of plr] pid_inv_entry(2,3) [OF i3 this] plr i show ?thesis using r nh p1 \<open>paid\<close> p2 p3 le Some
          by (auto simp: setup_que_def ekey_def keys_def waiters_def frozen_nodes_def queue_inv_def)
      qed
    qed
  qed
qed

end
