(* ===== verification/Cque_Inv.thy ===== *)
theory Cque_Inv
  imports Cque_Laws
begin

section \<open>The command queue: every operation keeps the invariant\<close>

text \<open>
  The operations of cque.c one by one, then the commands. None of them puts an entry that is being
  run back into a waiting list.
\<close>

subsection \<open>Single entries\<close>

lemma queue_invD:
  assumes "queue_inv X s"
  shows "pid_inv X (keys s) (frozen_nodes s) (pid_table s) (fresh s)" "waiters_ok X (waiters s)" "0 \<le> last_pid s"
    "kick_known X (kl (qsem s)) (kick_pid s)"
  using assms by (simp_all add: queue_inv_def)

lemma kl_mem: "p \<in> set l \<Longrightarrow> ekey p \<in># kl l"
  by (simp add: kl_def)

lemma kl_memE: "k \<in># kl l \<Longrightarrow> \<exists>p\<in>set l. k = ekey p"
  by (auto simp: kl_def)

lemma nodes_kl [simp]: "image_mset fst (kl l) = image_mset node (mset l)"
  by (induction l) (simp_all add: ekey_def)

lemma count_node_0: "count (image_mset node (mset l)) n = 0 \<Longrightarrow> \<forall>q\<in>set l. node q \<noteq> n"
  by (induction l) (auto split: if_splits)

lemma node_absent: "count (image_mset node (mset l)) n = 0 \<Longrightarrow> n \<notin> node ` set l"
  by (induction l) (auto split: if_splits)

lemma count_node_1: "p \<in> set l \<Longrightarrow> 1 \<le> count (image_mset node (mset l)) (node p)"
  by (induction l) auto

lemma once_unlink:
  "p \<in> set l \<Longrightarrow> count (image_mset node (mset l)) (node p) \<le> 1 \<Longrightarrow>
    kl l = add_mset (ekey p) (kl (unlink p l)) \<and> (\<forall>q\<in>set (unlink p l). node q \<noteq> node p)"
proof (induction l)
  case (Cons q l)
  show ?case
  proof (cases "node q = node p")
    case True
    then have n: "\<forall>r\<in>set l. node r \<noteq> node p" using Cons.prems(2) by (intro count_node_0) simp
    then have "filter (\<lambda>q. node q \<noteq> node p) l = l" by simp
    moreover have "q = p" using Cons.prems(1) n by auto
    ultimately show ?thesis using n by (simp add: unlink_def)
  next
    case False
    then show ?thesis using Cons by (auto simp: unlink_def)
  qed
qed simp

lemma set_node_keys:
  "(\<And>q. q \<in> set l \<Longrightarrow> node q = n \<Longrightarrow> ekey (f q) = ekey q) \<Longrightarrow> kl (set_node n f l) = kl l"
  by (induction l) (auto simp: set_node_def)

lemma once_same: "p \<in> set l \<Longrightarrow> q \<in> set l \<Longrightarrow> count (image_mset node (mset l)) (node p) \<le> 1 \<Longrightarrow> node q = node p \<Longrightarrow> q = p"
proof (induction l)
  case (Cons r l)
  have "node r = node p \<Longrightarrow> \<forall>q\<in>set l. node q \<noteq> node p" using Cons.prems(3) by (intro count_node_0) simp
  then show ?case using Cons by (auto split: if_splits)
qed simp

lemma set_node_one:
  assumes "p \<in> set l" "count (image_mset node (mset l)) (node p) \<le> 1" "ekey p' = ekey p"
  shows "kl (set_node (node p) (\<lambda>_. p') l) = kl l"
  using assms once_same [OF assms(1) _ assms(2)] by (intro set_node_keys) metis

definition die :: "BQUE \<Rightarrow> BQUE" where
  "die p = p\<lparr>player := NOTHING\<rparr>"

lemma set_node_die: "kl (set_node n die l) = with_player n NOTHING (kl l)"
  by (induction l) (auto simp: set_node_def with_player_def ekey_def die_def)

lemma with_player_simps [simp]:
  "with_player n x {#} = {#}" "with_player n x (A + B) = with_player n x A + with_player n x B"
  "with_player n x (add_mset k K) = add_mset (if fst k = n then (n, fst (snd k), x) else k) (with_player n x K)"
  by (simp_all add: with_player_def)

lemma with_player_other: "n \<notin># image_mset fst K \<Longrightarrow> with_player n x K = K"
  by (induction K) (auto simp: with_player_def)

text \<open>The addresses of the entries, in one list after the other.\<close>

lemma nodes_once:
  assumes "queue_inv X s"
  shows "count (image_mset node (mset (qfirst s))) n + count (image_mset node (mset (qlfirst s))) n +
    count (image_mset node (mset (qwait s))) n + count (image_mset node (mset (qsem s))) n +
    count (image_mset node (mset (fqwait s))) n + count (image_mset node (mset (fqsem s))) n \<le> of_bool (n < fresh s)"
  using pid_invD(3) [OF queue_invD(1) [OF assms], of n] by (simp add: keys_def frozen_nodes_def)

lemma nodes_le_1:
  assumes "queue_inv X s"
  shows "count (image_mset node (mset (qfirst s))) n + count (image_mset node (mset (qlfirst s))) n +
    count (image_mset node (mset (qwait s))) n + count (image_mset node (mset (qsem s))) n +
    count (image_mset node (mset (fqwait s))) n + count (image_mset node (mset (fqsem s))) n \<le> 1"
  by (rule le_trans [OF nodes_once [OF assms]]) simp

lemma nodes_once1:
  assumes "queue_inv X s"
  shows "count (image_mset node (mset (qfirst s))) n \<le> 1" "count (image_mset node (mset (qlfirst s))) n \<le> 1"
    "count (image_mset node (mset (qwait s))) n \<le> 1" "count (image_mset node (mset (qsem s))) n \<le> 1"
    "count (image_mset node (mset (fqwait s))) n \<le> 1" "count (image_mset node (mset (fqsem s))) n \<le> 1"
proof -
  have "of_bool (n < fresh s) \<le> (1 :: nat)" by simp
  with nodes_once [OF assms, of n] show "count (image_mset node (mset (qfirst s))) n \<le> 1"
    "count (image_mset node (mset (qlfirst s))) n \<le> 1"
    "count (image_mset node (mset (qwait s))) n \<le> 1" "count (image_mset node (mset (qsem s))) n \<le> 1"
    "count (image_mset node (mset (fqwait s))) n \<le> 1" "count (image_mset node (mset (fqsem s))) n \<le> 1" by linarith+
qed

lemma waiting_live:
  "queue_inv X s \<Longrightarrow> p \<in> set (qwait s) \<union> set (qsem s) \<Longrightarrow> node p \<notin> X \<Longrightarrow> player p \<noteq> NOTHING"
  using kl_mem by (fastforce simp: queue_inv_def waiters_ok_def waiters_def ekey_def)

text \<open>An entry of a waiting list is taken out, and its process id given back.\<close>

lemma take_wait:
  assumes i: "queue_inv X s" and p: "p \<in> set (qwait s)" and n: "node p \<notin> X"
  shows "queue_inv X (s\<lparr>qwait := unlink p (qwait s), pid_table := (pid_table s)(pid p := False)\<rparr>)"
proof -
  have u: "kl (qwait s) = add_mset (ekey p) (kl (unlink p (qwait s)))" using once_unlink [OF p nodes_once1(3) [OF i]] by blast
  have k: "ekey p = (node p, pid p, player p)" "player p \<noteq> NOTHING" using waiting_live [OF i _ n] p by (simp_all add: ekey_def)
  have "pid_inv X (add_mset (node p, pid p, player p) (kl (qfirst s) + kl (qlfirst s) + kl (unlink p (qwait s)) + kl (qsem s)))
      (frozen_nodes s) (pid_table s) (fresh s)"
    using queue_invD(1) [OF i] by (simp add: keys_def u k(1))
  from pid_inv_free(1) [OF this n k(2)] have "pid_inv X (kl (qfirst s) + kl (qlfirst s) + kl (unlink p (qwait s)) + kl (qsem s))
      (frozen_nodes s) ((pid_table s)(pid p := False)) (fresh s)" .
  moreover have "waiters_ok X (kl (unlink p (qwait s)) + kl (qsem s))"
    by (rule waiters_ok_mono [OF queue_invD(2) [OF i]]) (simp add: waiters_def u)
  ultimately show ?thesis using queue_invD(3,4) [OF i] by (simp add: queue_inv_def keys_def waiters_def frozen_nodes_def)
qed

lemma take_sem:
  assumes i: "queue_inv X s" and p: "p \<in> set (qsem s)" and n: "node p \<notin> X"
  shows "queue_inv X (s\<lparr>qsem := unlink p (qsem s), pid_table := (pid_table s)(pid p := False)\<rparr>)"
proof -
  have u: "kl (qsem s) = add_mset (ekey p) (kl (unlink p (qsem s)))" using once_unlink [OF p nodes_once1(4) [OF i]] by blast
  have k: "ekey p = (node p, pid p, player p)" "player p \<noteq> NOTHING" using waiting_live [OF i _ n] p by (simp_all add: ekey_def)
  have "pid_inv X (add_mset (node p, pid p, player p) (kl (qfirst s) + kl (qlfirst s) + kl (qwait s) + kl (unlink p (qsem s))))
      (frozen_nodes s) (pid_table s) (fresh s)"
    using queue_invD(1) [OF i] by (simp add: keys_def u k(1))
  from pid_inv_free(1) [OF this n k(2)] have "pid_inv X (kl (qfirst s) + kl (qlfirst s) + kl (qwait s) + kl (unlink p (qsem s)))
      (frozen_nodes s) ((pid_table s)(pid p := False)) (fresh s)" .
  moreover have "waiters_ok X (kl (qwait s) + kl (unlink p (qsem s)))"
    by (rule waiters_ok_mono [OF queue_invD(2) [OF i]]) (simp add: waiters_def u)
  moreover have "kick_known X (kl (unlink p (qsem s))) (kick_pid s)"
    by (rule kick_known_mono [OF queue_invD(4) [OF i]]) (simp add: u)
  ultimately show ?thesis using queue_invD(3) [OF i] by (simp add: queue_inv_def keys_def waiters_def frozen_nodes_def)
qed

text \<open>A new entry is put into one of the lists.\<close>

definition entry_inv :: "nat set \<Rightarrow> BQUE \<Rightarrow> 'c queue_state \<Rightarrow> bool" where
  "entry_inv X p s \<longleftrightarrow> pid_inv X (add_mset (ekey p) (keys s)) (frozen_nodes s) (pid_table s) (fresh s) \<and>
     waiters_ok X (waiters s) \<and> 0 \<le> last_pid s \<and> kick_known X (kl (qsem s)) (kick_pid s) \<and> node p \<notin> X"

lemma waiters_ok_add [simp]: "waiters_ok X (add_mset k K) \<longleftrightarrow> (fst k \<notin> X \<longrightarrow> snd (snd k) \<noteq> NOTHING) \<and> waiters_ok X K"
  by (cases k) (auto simp: waiters_ok_def)

lemma entry_invD:
  assumes "entry_inv X p s"
  shows "pid_inv X (add_mset (ekey p) (keys s)) (frozen_nodes s) (pid_table s) (fresh s)"
    "waiters_ok X (waiters s)" "0 \<le> last_pid s" "kick_known X (kl (qsem s)) (kick_pid s)" "node p \<notin> X"
  using assms by (simp_all add: entry_inv_def)

lemma entry_wait:
  assumes "entry_inv X p s" "player p \<noteq> NOTHING"
  shows "queue_inv X (s\<lparr>qwait := insert_wait p (qwait s)\<rparr>)" "queue_inv X (s\<lparr>qsem := qsem s @ [p]\<rparr>)"
  using entry_invD [OF assms(1)] assms(2)
  by (simp_all add: queue_inv_def keys_def waiters_def frozen_nodes_def ekey_def)

lemma entry_give:
  assumes "entry_inv X p s"
  shows "queue_inv X (give_que w p s)"
proof -
  have k: "keys (give_que w p s) \<subseteq># add_mset (ekey p) (keys s)"
    by (auto simp: give_que_def Let_def keys_def)
  have "pid_inv X (keys (give_que w p s)) (frozen_nodes s) (pid_table s) (fresh s)"
    using pid_inv_mono [OF entry_invD(1) [OF assms] k] by blast
  then show ?thesis using entry_invD [OF assms]
    by (auto simp: queue_inv_def give_que_def Let_def keys_def waiters_def frozen_nodes_def split: if_splits)
qed

subsection \<open>Queueing, freezing and thawing\<close>

lemma halts_live_pst [simp]: "halts_live X w plr obj (s\<lparr>pst := q\<rparr>) = halts_live X w plr obj s"
  by (simp add: halts_live_def)

lemma entry_inv_same [simp]:
  "entry_inv X (p\<lparr>waittime := x\<rparr>) s = entry_inv X p s" "entry_inv X (p\<lparr>sem := x\<rparr>) s = entry_inv X p s"
  by (simp_all add: entry_inv_def)

lemma wait_que_inv:
  assumes i: "queue_inv X s" and plr: "plr \<noteq> NOTHING"
    and h: "over_limit D w rnd plr s \<Longrightarrow> halts_live X w (Owner w plr) NOTHING s"
  shows "queue_inv X (wait_que D w tm rnd plr cau wait sem1 c args n sargs names s)"
proof (cases "interp s")
  case True
  obtain e s' where e: "setup_que D w rnd plr cau c args n sargs names s = (e, s')" by (metis prod.collapse)
  show ?thesis
  proof (cases e)
    case None
    then show ?thesis using setup_que_inv [OF i h plr e] e True by (simp add: wait_que_def)
  next
    case (Some p)
    then have p: "entry_inv X p s'" "player p = plr" using setup_que_inv [OF i h plr e] by (simp_all add: entry_inv_def)
    then show ?thesis using e True Some plr
      by (auto simp: wait_que_def Let_def intro!: entry_wait entry_give)
  qed
qed (simp add: wait_que_def i)

lemma fst_frozen: "player (frozen w tm b n p) = player p" "node (frozen w tm b n p) = n" "sem (frozen w tm b n p) = sem p"
  by (simp_all add: frozen_def)

lemma insert_wait_nodes [simp]: "image_mset node (mset (insert_wait p l)) = add_mset (node p) (image_mset node (mset l))"
  by (induction l) simp_all

lemma frozen_inv:
  assumes i: "queue_inv X s" and k: "kl (qfirst s') = kl (qfirst s)" "kl (qlfirst s') = kl (qlfirst s)" "kl (qwait s') = kl (qwait s)"
    "kl (qsem s') = kl (qsem s)" "pid_table s' = pid_table s" "last_pid s' = last_pid s" "kick_pid s' = kick_pid s"
    and f: "fresh s' = Suc (fresh s)" "frozen_nodes s' = add_mset (fresh s) (frozen_nodes s)"
  shows "queue_inv X s'"
  using pid_inv_frozen [OF queue_invD(1) [OF i]] queue_invD(2,3,4) [OF i]
  by (simp add: queue_inv_def keys_def waiters_def k f)

lemma sem_not_run: "queue_inv X s \<Longrightarrow> p \<in> set (qsem s) \<Longrightarrow> pid p \<noteq> kick_pid s \<Longrightarrow> node p \<notin> X"
  using queue_invD(4) kl_mem by (fastforce simp: kick_known_def ekey_def)

lemma freeze_pid_inv:
  assumes i: "queue_inv X s" and live: "\<forall>p\<in>set (qwait s). may_touch w plr p \<longrightarrow> node p \<notin> X"
  shows "queue_inv X (snd (freeze_pid D w tm junk plr k s))"
proof (cases "with_pid k (qwait s)")
  case (Some p)
  then have p: "p \<in> set (qwait s)" "pid p = k" by (auto simp: with_pid_def find_Some_iff)
  show ?thesis
  proof (cases "may_touch w plr p")
    case True
    then have n: "node p \<notin> X" using live p by blast
    show ?thesis
      by (rule frozen_inv [OF take_wait [OF i p(1) n]])
        (simp_all add: freeze_pid_def Some True Let_def pst_only free_pid_def frozen_nodes_def fst_frozen)
  qed (simp add: freeze_pid_def Some i Let_def)
next
  case no_wait: None
  show ?thesis
  proof (cases "sem_with_pid k s")
    case (Some p)
    then have p: "p \<in> set (qsem s)" "pid p \<noteq> kick_pid s" by (auto simp: sem_with_pid_def find_Some_iff)
    then have n: "node p \<notin> X" using sem_not_run [OF i] by blast
    show ?thesis
    proof (cases "may_touch w plr p")
      case True
      show ?thesis
        by (rule frozen_inv [OF take_sem [OF i p(1) n]])
          (simp_all add: freeze_pid_def no_wait Some True Let_def pst_only free_pid_def frozen_nodes_def fst_frozen)
    qed (simp add: freeze_pid_def no_wait Some i Let_def)
  qed (simp add: freeze_pid_def no_wait i Let_def)
qed

lemma unlink_frozen:
  "queue_inv X s \<Longrightarrow> queue_inv X (s\<lparr>fqwait := unlink p (fqwait s)\<rparr>)" "queue_inv X s \<Longrightarrow> queue_inv X (s\<lparr>fqsem := unlink p (fqsem s)\<rparr>)"
  by (erule queue_inv_mono; auto simp: keys_def waiters_def frozen_nodes_def unlink_def intro!: image_mset_subseteq_mono)+

lemma thawed_inv:
  assumes i: "queue_inv X s" and f: "find_pid s = Some tpid"
    and k: "kl (qfirst s') = kl (qfirst s)" "kl (qlfirst s') = kl (qlfirst s)"
      "kl (qwait s') + kl (qsem s') = add_mset (fresh s, tpid, x) (kl (qwait s) + kl (qsem s))"
      "frozen_nodes s' = frozen_nodes s" "kl (qsem s') \<subseteq># add_mset (fresh s, tpid, x) (kl (qsem s))" "x \<noteq> NOTHING"
    and t: "pid_table s' = (pid_table s)(tpid := True)" "last_pid s' = tpid" "fresh s' = Suc (fresh s)" "kick_pid s' = kick_pid s"
  shows "queue_inv X s'"
proof -
  have "keys s' = add_mset (fresh s, tpid, x) (keys s)"
  proof -
    have "keys s' = kl (qfirst s) + kl (qlfirst s) + (kl (qwait s') + kl (qsem s'))"
      by (simp only: keys_def k(1,2) union_assoc)
    then show ?thesis by (simp only: k(3) keys_def union_assoc union_mset_add_mset_right)
  qed
  moreover have "kick_known X (kl (qsem s')) (kick_pid s')" unfolding t(4)
    by (rule kick_known_mono [OF _ k(5)]) (simp add: queue_invD(4) [OF i] pid_inv_entry(3) [OF i f])
  ultimately show ?thesis
    using pid_inv_entry(1) [OF i f, of x] pid_inv_entry(2) [OF i f] queue_invD(2) [OF i] k t
    by (simp add: queue_inv_def waiters_def)
qed

lemma thaw_pid_inv:
  assumes i: "queue_inv X s" and no: "\<not> Good_obj w NOTHING"
  shows "queue_inv X (snd (thaw_pid D w tm plr k key s))"
proof -
  have good: "player p \<noteq> NOTHING" if "\<not> bad_entry w p" for p using that no by (auto simp: bad_entry_def)
  define thaw where "thaw = (\<lambda>found badpid entry s1. (case (entry, find_pid s1) of
           (Some p, Some tpid) \<Rightarrow>
             if \<not> key AND THAW_DEL \<noteq> 0 \<and> \<not> badpid then
               let psave = Owner w (player p);
                   s2 = (if psave \<noteq> NOTHING then
                           count_queue D w psave 1 (refund D w (Owner w psave) psave (- waitcost w) s1) else s1);
                   p1 = p\<lparr>node := fresh s2, pid := tpid\<rparr>;
                   s3 = s2\<lparr>pid_table := (pid_table s2)(tpid := True), last_pid := tpid, fresh := Suc (fresh s2)\<rparr>
               in (1, if sem p1 = NOTHING then s3\<lparr>qwait := insert_wait p1 (qwait s3)\<rparr> else s3\<lparr>qsem := qsem s3 @ [p1]\<rparr>)
             else (if key AND THAW_DEL \<noteq> 0 then - 1 else - 2 :: int, s1)
         | (_, fp) \<Rightarrow>
             (if fp = None \<and> (\<not> key AND THAW_DEL \<noteq> 0 \<or> badpid) then (if found then 1 else 0)
              else if key AND THAW_DEL \<noteq> 0 then - 1 else if badpid then - 2 else 0, s1)))"
  have thaw: "queue_inv X (snd (thaw found badpid entry s1))"
    if "queue_inv X s1" "\<And>p. entry = Some p \<Longrightarrow> \<not> badpid \<Longrightarrow> player p \<noteq> NOTHING" for found badpid entry and s1 :: "'a queue_state"
  proof (cases entry; cases "find_pid s1")
    fix p tpid assume e: "entry = Some p" "find_pid s1 = Some tpid"
    show ?thesis
    proof (cases "\<not> key AND THAW_DEL \<noteq> 0 \<and> \<not> badpid")
      case True
      then have "player p \<noteq> NOTHING" using that(2) [OF e(1)] by simp
      then show ?thesis using True e
        by (intro thawed_inv [OF that(1) e(2), where x = "player p"]) (simp_all add: thaw_def Let_def pst_only frozen_nodes_def ekey_def)
    next
      case False
      then show ?thesis using that(1) by (auto simp: thaw_def e)
    qed
  qed (simp_all add: thaw_def that(1))
  have e: "thaw_pid D w tm plr k key s = (case (case with_pid k (fqwait s) of
               Some p \<Rightarrow>
                 if may_touch w plr p then
                   (True, bad_entry w p, Some (p\<lparr>waittime := waittime p - pid p + tm\<rparr>), s\<lparr>fqwait := unlink p (fqwait s)\<rparr>)
                 else (False, False, None, s)
             | None \<Rightarrow>
                 (case find (\<lambda>p. pid p = k \<and> pid p \<noteq> kick_pid s) (fqsem s) of
                    Some p \<Rightarrow>
                      if may_touch w plr p then
                        (True, bad_entry w p,
                         Some (p\<lparr>waittime := (if waittime p \<noteq> 0 then waittime p - pid p + tm else 0)\<rparr>),
                         sem_add D w (sem p) 1 (s\<lparr>fqsem := unlink p (fqsem s)\<rparr>))
                      else (False, False, None, s)
                  | None \<Rightarrow> (False, False, None, s))) of (found, badpid, entry, s1) \<Rightarrow> thaw found badpid entry s1)"
    unfolding thaw_pid_def thaw_def Let_def by (rule refl)
  show ?thesis unfolding e
    using i unlink_frozen [OF i] good
    by (auto simp: sem_add_eq intro!: thaw split: option.splits if_splits)
qed

subsection \<open>Changes of entries\<close>

lemma same_keys_inv:
  assumes "queue_inv X s" "kl (qfirst s') = kl (qfirst s)" "kl (qlfirst s') = kl (qlfirst s)" "kl (qwait s') = kl (qwait s)"
    "kl (qsem s') = kl (qsem s)" "frozen_nodes s' = frozen_nodes s" "pid_table s' = pid_table s" "fresh s' = fresh s"
    "last_pid s' = last_pid s" "kick_pid s' = kick_pid s"
  shows "queue_inv X s'"
  using assms by (simp add: queue_inv_def keys_def waiters_def)

lemma rewait_key: "rewait tm newwait key p = (r, p1) \<Longrightarrow> ekey p1 = ekey p"
  by (auto simp: rewait_def Let_def ekey_def split: if_splits)

lemma stop_key: "stop_entry now key p = Some p1 \<Longrightarrow> ekey p1 = ekey p"
  by (auto simp: stop_entry_def ekey_def split: if_splits)

lemma set_wait_inv:
  assumes i: "queue_inv X s" and k: "ekey p1 = ekey p"
  shows "p \<in> set (qwait s) \<Longrightarrow> queue_inv X (s\<lparr>qwait := set_node (node p) (\<lambda>_. p1) (qwait s)\<rparr>)"
    "p \<in> set (qsem s) \<Longrightarrow> queue_inv X (s\<lparr>qsem := set_node (node p) (\<lambda>_. p1) (qsem s)\<rparr>)"
  by (rule same_keys_inv [OF i]; simp add: set_node_one [OF _ nodes_once1(3) [OF i] k] set_node_one [OF _ nodes_once1(4) [OF i] k] frozen_nodes_def)+

lemma wait_que_pidnew_inv: "queue_inv X s \<Longrightarrow> queue_inv X (snd (wait_que_pidnew w tm plr k newwait key s))"
  by (auto simp: wait_que_pidnew_def find_Some_iff split: option.splits prod.splits dest!: rewait_key intro!: set_wait_inv)

subsection \<open>Halting one entry\<close>

definition pid_live :: "nat set \<Rightarrow> world \<Rightarrow> int \<Rightarrow> int \<Rightarrow> 'c queue_state \<Rightarrow> bool" where
  "pid_live X w plr k s \<longleftrightarrow>
     (\<forall>p\<in>set (qfirst s) \<union> set (qlfirst s) \<union> set (qwait s) \<union> set (qsem s).
        pid p = k \<longrightarrow> may_touch w plr p \<longrightarrow> player p \<noteq> NOTHING \<and> node p \<notin> X)"

text \<open>An entry of a run queue is marked, and its process id given back.\<close>

lemma kl_die:
  assumes "p \<in> set l" "count (image_mset node (mset l)) (node p) \<le> 1"
  shows "\<exists>K. kl l = add_mset (ekey p) K \<and> kl (set_node (node p) die l) = add_mset (node p, pid p, NOTHING) K"
proof -
  obtain u where u: "kl l = add_mset (ekey p) (kl u)" "\<forall>q\<in>set u. node q \<noteq> node p"
    using once_unlink [OF assms] by blast
  then have "node p \<notin># image_mset fst (kl u)" by auto
  then have "kl (set_node (node p) die l) = add_mset (node p, pid p, NOTHING) (kl u)"
    by (simp add: set_node_die u(1) with_player_other ekey_def)
  then show ?thesis using u(1) by blast
qed

lemma mark_one:
  assumes i: "queue_inv X s" and n: "node p \<notin> X" "player p \<noteq> NOTHING"
  shows "p \<in> set (qfirst s) \<Longrightarrow>
      queue_inv X (s\<lparr>qfirst := set_node (node p) die (qfirst s), pid_table := (pid_table s)(pid p := False)\<rparr>)"
    "p \<in> set (qlfirst s) \<Longrightarrow>
      queue_inv X (s\<lparr>qlfirst := set_node (node p) die (qlfirst s), pid_table := (pid_table s)(pid p := False)\<rparr>)"
proof -
  have k: "ekey p = (node p, pid p, player p)" by (simp add: ekey_def)
  have marked: "pid_inv X (add_mset (node p, pid p, NOTHING) (K + M)) (frozen_nodes s) ((pid_table s)(pid p := False)) (fresh s)"
    if "keys s = add_mset (ekey p) K + M" for K M
    using pid_inv_free(2) [OF _ n, of "pid p" "K + M"] queue_invD(1) [OF i] by (simp add: that k)
  { assume p: "p \<in> set (qfirst s)"
    obtain K where K: "kl (qfirst s) = add_mset (ekey p) K" "kl (set_node (node p) die (qfirst s)) = add_mset (node p, pid p, NOTHING) K"
      using kl_die [OF p nodes_once1(1) [OF i]] by blast
    then have "keys s = add_mset (ekey p) K + (kl (qlfirst s) + kl (qwait s) + kl (qsem s))" by (simp add: keys_def)
    from marked [OF this] show "queue_inv X (s\<lparr>qfirst := set_node (node p) die (qfirst s), pid_table := (pid_table s)(pid p := False)\<rparr>)"
      using queue_invD(2,3,4) [OF i] by (simp add: queue_inv_def keys_def waiters_def frozen_nodes_def K(2) union_assoc) }
  { assume p: "p \<in> set (qlfirst s)"
    obtain K where K: "kl (qlfirst s) = add_mset (ekey p) K" "kl (set_node (node p) die (qlfirst s)) = add_mset (node p, pid p, NOTHING) K"
      using kl_die [OF p nodes_once1(2) [OF i]] by blast
    then have "keys s = add_mset (ekey p) K + (kl (qfirst s) + kl (qwait s) + kl (qsem s))" by (simp add: keys_def ac_simps)
    from marked [OF this] show "queue_inv X (s\<lparr>qlfirst := set_node (node p) die (qlfirst s), pid_table := (pid_table s)(pid p := False)\<rparr>)"
      using queue_invD(2,3,4) [OF i] by (simp add: queue_inv_def keys_def waiters_def frozen_nodes_def K(2) ac_simps) }
qed

lemma queue_inv_settled:
  "queue_inv X s \<Longrightarrow> queue_inv X (if b then count_queue D w o1 n (refund D w o2 o3 m s) else s)"
  by (simp add: pst_only)

lemma halt_que_pid_inv:
  assumes i: "queue_inv X s" and live: "pid_live X w plr k s"
  shows "queue_inv X (snd (halt_que_pid D w plr k key s))"
proof -
  have die: "(\<lambda>p. p\<lparr>player := NOTHING\<rparr>) = die" by (simp add: die_def fun_eq_iff)
  note [simp] = halt_que_pid_def Let_def die free_pid_def
  have l: "node p \<notin> X \<and> player p \<noteq> NOTHING"
    if "p \<in> set (qfirst s) \<union> set (qlfirst s) \<union> set (qwait s)" "pid p = k" "may_touch w plr p" for p
    using live that by (auto simp: pid_live_def)
  show ?thesis
  proof (cases "with_pid k (qfirst s)")
    case (Some p)
    then have p: "p \<in> set (qfirst s)" "pid p = k" by (auto simp: with_pid_def find_Some_iff)
    show ?thesis
    proof (cases "may_touch w plr p")
      case True
      from mark_one(1) [OF i _ _ p(1)] show ?thesis using i l [OF _ p(2) True] p(1) True by (simp add: Some queue_inv_settled)
    qed (simp add: Some i)
  next
    case n1: None
    show ?thesis
    proof (cases "with_pid k (qlfirst s)")
      case (Some p)
      then have p: "p \<in> set (qlfirst s)" "pid p = k" by (auto simp: with_pid_def find_Some_iff)
      show ?thesis
      proof (cases "may_touch w plr p")
        case True
        from mark_one(2) [OF i _ _ p(1)] show ?thesis using i l [OF _ p(2) True] p(1) True by (simp add: n1 Some queue_inv_settled)
      qed (simp add: n1 Some i)
    next
      case n2: None
      show ?thesis
      proof (cases "with_pid k (qwait s)")
        case (Some p)
        then have p: "p \<in> set (qwait s)" "pid p = k" by (auto simp: with_pid_def find_Some_iff)
        show ?thesis
        proof (cases "may_touch w plr p")
          case True
          from take_wait [OF i p(1)] show ?thesis using i p(1) l [OF _ p(2) True] True
            by (auto simp: n1 n2 Some queue_inv_settled dest!: stop_key intro!: set_wait_inv split: option.splits)
        qed (simp add: n1 n2 Some i)
      next
        case n3: None
        show ?thesis
        proof (cases "sem_with_pid k s")
          case (Some p)
          then have p: "p \<in> set (qsem s)" "pid p \<noteq> kick_pid s" by (auto simp: sem_with_pid_def find_Some_iff)
          from take_sem [OF i p(1) sem_not_run [OF i p]] show ?thesis using i p(1)
            by (auto simp: n1 n2 n3 Some queue_inv_settled sem_add_eq dest!: stop_key intro!: set_wait_inv split: option.splits)
        qed (simp add: n1 n2 n3 i)
      qed
    qed
  qed
qed

subsection \<open>Notifying\<close>

lemma unlink_here: "count (image_mset node (mset (A @ p # l))) (node p) \<le> 1 \<Longrightarrow> unlink p (A @ p # l) = A @ l"
proof -
  assume "count (image_mset node (mset (A @ p # l))) (node p) \<le> 1"
  then have "count (image_mset node (mset A)) (node p) = 0" "count (image_mset node (mset l)) (node p) = 0" by simp_all
  then have "\<forall>q\<in>set A. node q \<noteq> node p" "\<forall>q\<in>set l. node q \<noteq> node p" using count_node_0 by blast+
  then show ?thesis by (simp add: unlink_def)
qed

lemma nfy_loop_inv:
  "nfy_loop D w sem1 key cnt pv l num s = (l1, n, s1) \<Longrightarrow> queue_inv X (s\<lparr>qsem := A @ l\<rparr>) \<Longrightarrow> queue_inv X (s1\<lparr>qsem := A @ l1\<rparr>)"
proof (induction l arbitrary: A num s l1 n s1)
  case (Cons p l)
  note 2 = Cons.IH Cons.prems
  define hit where "hit \<longleftrightarrow> sem p = sem1 \<and> (pv = - 1 \<or> pid p = pv) \<and> pid p \<noteq> kick_pid s"
  define num1 where "num1 = (if hit then num + 1 else num)"
  define s2 where "s2 = (if \<not> hit then s
                else if key \<noteq> NFY_DRAIN then give_que w p s
                else free_pid (pid p) (if player p \<noteq> NOTHING then
                              count_queue D w (Owner w (player p)) (- 1)
                                (refund D w (Owner w (player p)) (player p) (waitcost w) s)
                            else s))"
  define keep where "keep = (if hit then [] else [p])"
  have i2: "queue_inv X (s2\<lparr>qsem := (A @ keep) @ l\<rparr>)"
  proof (cases hit)
    case True
    have nX: "node p \<notin> X" using sem_not_run [OF 2(3), of p] True by (simp add: hit_def)
    show ?thesis
    proof (cases "key = NFY_DRAIN")
      case True
      have "unlink p (A @ p # l) = A @ l" by (rule unlink_here) (use nodes_once1(4) [OF 2(3), of "node p"] in simp)
      then have "queue_inv X (s\<lparr>qsem := A @ l, pid_table := (pid_table s)(pid p := False)\<rparr>)"
        using take_sem [OF 2(3), of p] nX by simp
      then have "queue_inv X ((s\<lparr>qsem := A @ l, pid_table := (pid_table s)(pid p := False)\<rparr>)\<lparr>pst := q\<rparr>)" for q by simp
      from this [of "pst s2"] show ?thesis using True \<open>hit\<close>
        by (elim same_keys_inv) (simp_all add: s2_def keep_def pst_only free_pid_def frozen_nodes_def)
    next
      case False
      have "runs_more {#ekey p#} (s\<lparr>qsem := A @ l\<rparr>) (give_que w p (s\<lparr>qsem := A @ l\<rparr>))" by (rule give_que_more)
      then have "queue_inv X (give_que w p (s\<lparr>qsem := A @ l\<rparr>))"
        by (intro runs_more_inv [OF 2(3), of "{#ekey p#}" "A @ l" "qwait s"]) simp_all
      moreover have "give_que w p (s\<lparr>qsem := A @ l\<rparr>) = (give_que w p s)\<lparr>qsem := A @ l\<rparr>"
        by (simp add: give_que_def Let_def)
      ultimately show ?thesis using \<open>hit\<close> False by (simp add: s2_def keep_def)
    qed
  qed (use 2(3) in \<open>simp add: s2_def keep_def\<close>)
  have u: "nfy_loop D w sem1 key cnt pv (p # l) num s =
      (if key = NFY_NFY \<and> num1 \<ge> cnt then (keep @ l, num1, s2)
       else case nfy_loop D w sem1 key cnt pv l num1 s2 of (l2, n, s3) \<Rightarrow> (keep @ l2, n, s3))"
    by (simp add: Let_def hit_def num1_def s2_def keep_def)
  show ?case
  proof (cases "key = NFY_NFY \<and> num1 \<ge> cnt")
    case True
    then have "keep @ l = l1" "s2 = s1" using 2(2) [unfolded u if_P [OF True]] by simp_all
    then show ?thesis using i2 by auto
  next
    case False
    then obtain l2 where l2: "nfy_loop D w sem1 key cnt pv l num1 s2 = (l2, n, s1)" "l1 = keep @ l2"
      using 2(2) [unfolded u if_not_P [OF False]] by (metis (no_types, lifting) case_prod_conv prod.collapse prod.inject)
    have "queue_inv X (s1\<lparr>qsem := (A @ keep) @ l2\<rparr>)" by (rule Cons.IH [OF l2(1) i2])
    then show ?thesis using l2 by simp
  qed
qed simp

lemma nfy_que_inv:
  assumes i: "queue_inv X s"
  shows "queue_inv X (snd (nfy_que D w sem1 key cnt pv s))"
proof -
  obtain str o1 fl a where g: "atr_get D (w_g w) sem1 A_SEMAPHORE (adb (pst s)) = ((str, o1, fl), a)"
    by (metis prod.collapse)
  let ?s = "s\<lparr>pst := (pst s)\<lparr>adb := a\<rparr>\<rparr>"
  obtain l num s2 where l: "(if atoi str > 0 then nfy_loop D w sem1 key cnt pv (qsem ?s) 0 ?s else (qsem ?s, 0, ?s)) = (l, num, s2)"
    by (metis prod.collapse)
  have "queue_inv X (s2\<lparr>qsem := l\<rparr>)"
  proof (cases "atoi str > 0")
    case True
    then show ?thesis using nfy_loop_inv [of D w sem1 key cnt pv "qsem s" 0 ?s l num s2 X "[]"] l i by simp
  qed (use l i in auto)
  then show ?thesis using l by (simp add: nfy_que_def g Let_def pst_only)
qed

lemma if_both: "P x \<Longrightarrow> P y \<Longrightarrow> P (if b then x else y)"
  by simp

lemmas queue_inv_if = if_both [of "queue_inv X" for X]

lemma do_notify_inv:
  assumes "queue_inv X s"
  shows "queue_inv X (do_notify D w thing allowed key0 cnt s)"
proof -
  have "queue_inv X (snd (nfy_que D w sem1 key c pv s))" for sem1 key c pv by (rule nfy_que_inv [OF assms])
  then have n: "queue_inv X (snd (if b then nfy_que D w s1 k1 c1 p1 s else nfy_que D w s1 k1 c2 p2 s))" for b s1 k1 c1 p1 c2 p2
    by (cases b) simp_all
  have a: "queue_inv X s' \<Longrightarrow> queue_inv X (sem_add D w thing (- 1) s')" for s' by (simp add: sem_add_eq)
  show ?thesis unfolding do_notify_def Let_def split_def by (intro queue_inv_if a n assms)
qed

subsection \<open>Commands\<close>

lemma do_second_dequeue: "queue_inv X s \<Longrightarrow> queue_inv X (s\<lparr>dequeue := b\<rparr>)"
  by (erule same_keys_inv) (simp_all add: frozen_nodes_def)

lemma warp_inv:
  assumes i: "queue_inv X s"
  shows "queue_inv X (warp D w i s)"
proof -
  let ?s = "s\<lparr>qwait := map (\<lambda>p. p\<lparr>waittime := - i\<rparr>) (qwait s),
                 qsem := map (\<lambda>p. if waittime p > 0 then
                                 (if waittime p - i \<le> 0 then p\<lparr>waittime := - 1\<rparr> else p\<lparr>waittime := waittime p - i\<rparr>)
                               else p) (qsem s), dequeue := True\<rparr>"
  have k: "(\<And>p. ekey (f p) = ekey p) \<Longrightarrow> kl (map f l) = kl l" for f l by (induction l) simp_all
  have "queue_inv X ?s" by (rule same_keys_inv [OF i]) (simp_all add: k frozen_nodes_def)
  from do_second_inv [OF this, of D w] show ?thesis
    by (simp add: warp_def Let_def do_second_dequeue)
qed

lemma record_pid_inv [simp]: "queue_inv X (record_pid r s) = queue_inv X s"
  by (auto simp: record_pid_def queue_inv_def keys_def waiters_def frozen_nodes_def split: option.splits)

lemma timed_wait_inv:
  "queue_inv X s \<Longrightarrow> plr \<noteq> NOTHING \<Longrightarrow> (over_limit D w rnd plr s \<Longrightarrow> halts_live X w (Owner w plr) NOTHING s) \<Longrightarrow>
    queue_inv X (timed_wait D w tm rnd plr cau howlong reg thing cmd cargs n s)"
  by (simp add: timed_wait_def wait_que_inv)

lemma wait_pid_command_inv: "queue_inv X s \<Longrightarrow> queue_inv X (wait_pid_command w tm plr key event cmd s)"
  by (simp add: wait_pid_command_def Let_def wait_que_pidnew_inv)

text \<open>There is room in the queues for a command of \<open>plr\<close>, also when a semaphore has been counted up first.\<close>

definition room :: "'c acache \<Rightarrow> world \<Rightarrow> int \<Rightarrow> int \<Rightarrow> 'c queue_state \<Rightarrow> bool" where
  "room D w rnd plr s \<longleftrightarrow> \<not> over_limit D w rnd plr s \<and>
     (\<forall>th. \<not> over_limit D w rnd plr (snd (add_to D w th 1 A_SEMAPHORE s)))"

lemma do_wait_inv:
  assumes "queue_inv X s" "plr \<noteq> NOTHING" "\<not> room D w rnd plr s \<Longrightarrow> halts_live X w (Owner w plr) NOTHING s"
  shows "queue_inv X (do_wait D w sc found tm rnd plr cau key eventorig cmd cargs n s)"
proof (cases "recpid_args key eventorig")
  case None
  show ?thesis unfolding do_wait_def None option.case by (intro queue_inv_if assms(1))
next
  case (Some re)
  obtain reg event where re: "re = (reg, event)" by (cases re)
  have t: "queue_inv X (timed_wait D w tm rnd plr cau h reg th cmd cargs n s)" for h th
    using assms by (intro timed_wait_inv) (auto simp: room_def)
  have u: "queue_inv X (timed_wait D w tm rnd plr cau h reg th cmd cargs n (snd (add_to D w x 1 A_SEMAPHORE s)))" for h th x
  proof (rule timed_wait_inv [OF _ assms(2)])
    have e: "snd (add_to D w x 1 A_SEMAPHORE s) = s\<lparr>pst := snd (add_to_pst D w x 1 A_SEMAPHORE (pst s))\<rparr>" by (simp add: add_to_eq)
    then show "queue_inv X (snd (add_to D w x 1 A_SEMAPHORE s))" using assms(1) by simp
    show "halts_live X w (Owner w plr) NOTHING (snd (add_to D w x 1 A_SEMAPHORE s))"
      if "over_limit D w rnd plr (snd (add_to D w x 1 A_SEMAPHORE s))"
      using that assms(3) unfolding e by (auto simp: room_def add_to_eq)
  qed
  show ?thesis unfolding do_wait_def Some re option.case split_def fst_conv snd_conv Let_def
    by (intro queue_inv_if assms(1) wait_pid_command_inv t u)
qed

text \<open>A halt stops one owner or object, everything, or one entry.\<close>

lemma do_halt_cases:
  "do_halt D w found may_all plr key0 what s = s \<or>
   (\<exists>p x. do_halt D w found may_all plr key0 what s = snd (halt_que D w p x s)) \<or>
   do_halt D w found may_all plr key0 what s = snd (halt_que_all D w s) \<or>
   (\<exists>k j. do_halt D w found may_all plr key0 what s = snd (halt_que_pid D w plr k j s))"
proof -
  define P where "P t \<longleftrightarrow> t = s \<or> (\<exists>p x. t = snd (halt_que D w p x s)) \<or> t = snd (halt_que_all D w s) \<or>
    (\<exists>k j. t = snd (halt_que_pid D w plr k j s))" for t
  have "P s" "P (snd (halt_que D w p x s))" "P (snd (halt_que_all D w s))" "P (snd (halt_que_pid D w plr k j s))" for p x k j
    unfolding P_def by blast+
  then have "P (do_halt D w found may_all plr key0 what s)"
    unfolding do_halt_def Let_def split_def by (intro if_both [of P])
  then show ?thesis unfolding P_def .
qed

lemma do_halt_inv:
  assumes i: "queue_inv X s" and h: "\<And>p x. halts_live X w p x s" and l: "\<And>k. pid_live X w plr k s"
  shows "queue_inv X (do_halt D w found may_all plr key0 what s)"
  using do_halt_cases [of D w found may_all plr key0 what s] i halt_que_inv [OF i h] halt_que_all_inv [OF i]
    halt_que_pid_inv [OF i l] by metis

subsection \<open>Who halts no marked or running entry\<close>

text \<open>
  The player of a marked entry is \<open>NOTHING\<close>, and that of an entry that is being run is 0. A halt of
  any other owner, or of any other object, finds none of them; neither does somebody without rights over
  these two.
\<close>

definition ordinary :: "world \<Rightarrow> int \<Rightarrow> bool" where
  "ordinary w own \<longleftrightarrow> own \<noteq> NOTHING \<and> own \<noteq> Owner w NOTHING \<and> own \<noteq> Owner w 0"

definition no_power :: "world \<Rightarrow> int \<Rightarrow> bool" where
  "no_power w plr \<longleftrightarrow> (\<forall>x\<in>{NOTHING, 0}. \<not> (w_Immortal w plr \<or> w_Controls w plr (Owner w x) \<or> w_HaltPriv w plr (Owner w x)))"

lemma run_entry_player:
  assumes "queue_inv X s" "p \<in> set (qfirst s) \<union> set (qlfirst s) \<union> set (qwait s) \<union> set (qsem s)" "node p \<in> X"
  shows "player p = 0 \<or> player p = NOTHING"
proof -
  have "ekey p \<in># keys s" using assms(2) kl_mem by (auto simp: keys_def)
  then show ?thesis using pid_invD(6) [OF queue_invD(1) [OF assms(1)]] assms(3) by (auto simp: runs_idle_def ekey_def)
qed

lemma ordinary_halts:
  assumes "queue_inv X s" "ordinary w plr \<or> obj \<noteq> NOTHING \<and> obj \<noteq> 0"
  shows "halts_live X w plr obj s"
  unfolding halts_live_def
proof (intro ballI impI)
  fix p assume p: "p \<in> set (qfirst s) \<union> set (qlfirst s) \<union> set (qwait s) \<union> set (qsem s)" and q: "que_want w plr obj p"
  have "player p \<noteq> 0 \<and> player p \<noteq> NOTHING" using q assms(2) by (auto simp: que_want_def ordinary_def)
  then show "player p \<noteq> NOTHING \<and> node p \<notin> X" using run_entry_player [OF assms(1) p] by blast
qed

lemma no_power_live:
  assumes "queue_inv X s" "no_power w plr"
  shows "pid_live X w plr k s" "\<forall>p\<in>set (qwait s). may_touch w plr p \<longrightarrow> node p \<notin> X"
proof -
  have "player p \<noteq> 0 \<and> player p \<noteq> NOTHING" if "may_touch w plr p" for p
    using that assms(2) by (auto simp: may_touch_def no_power_def)
  then show "pid_live X w plr k s" "\<forall>p\<in>set (qwait s). may_touch w plr p \<longrightarrow> node p \<notin> X"
    using run_entry_player [OF assms(1)] by (auto simp: pid_live_def)
qed

subsection \<open>What is put into the waiting lists\<close>

text \<open>
  An entry of a waiting list was there before, or it is new. So no operation puts an entry that
  is being run into a waiting list.
\<close>

definition waits_from :: "'c queue_state \<Rightarrow> 'c queue_state \<Rightarrow> bool" where
  "waits_from s s' \<longleftrightarrow> fresh s \<le> fresh s' \<and> node ` set (qwait s') \<subseteq> node ` set (qwait s) \<union> {fresh s..} \<and>
     node ` set (qsem s') \<subseteq> node ` set (qsem s) \<union> {fresh s..}"

lemma waits_fromI:
  assumes "fresh s \<le> fresh s'" "\<And>p. p \<in> set (qwait s') \<Longrightarrow> node p \<in> node ` set (qwait s) \<or> fresh s \<le> node p"
    "\<And>p. p \<in> set (qsem s') \<Longrightarrow> node p \<in> node ` set (qsem s) \<or> fresh s \<le> node p"
  shows "waits_from s s'"
  using assms unfolding waits_from_def by auto

lemma waits_from_refl [simp]: "waits_from s s"
  by (auto simp: waits_from_def)

lemma waits_from_trans:
  assumes "waits_from s s1" "waits_from s1 s2"
  shows "waits_from s s2"
proof -
  have c: "A2 \<subseteq> A1 \<union> F1 \<Longrightarrow> A1 \<subseteq> A \<union> F \<Longrightarrow> F1 \<subseteq> F \<Longrightarrow> A2 \<subseteq> A \<union> F" for A A1 A2 F F1 :: "nat set" by blast
  have "{fresh s1..} \<subseteq> {fresh s..}" using assms(1) by (simp add: waits_from_def)
  then show ?thesis using assms c le_trans unfolding waits_from_def by metis
qed

lemma waits_from_subset:
  "fresh s' = fresh s \<Longrightarrow> node ` set (qwait s') \<subseteq> node ` set (qwait s) \<Longrightarrow> node ` set (qsem s') \<subseteq> node ` set (qsem s) \<Longrightarrow>
    waits_from s s'"
  by (auto simp: waits_from_def)

lemma waits_from_pst [simp]: "waits_from (s\<lparr>pst := q\<rparr>) s' = waits_from s s'" "waits_from s (s'\<lparr>pst := q\<rparr>) = waits_from s s'"
  by (simp_all add: waits_from_def)

lemma pay_fields [simp]:
  "qwait (refund D w o1 o2 m s) = qwait s" "qsem (refund D w o1 o2 m s) = qsem s" "fresh (refund D w o1 o2 m s) = fresh s"
  "qwait (count_queue D w o1 k s) = qwait s" "qsem (count_queue D w o1 k s) = qsem s" "fresh (count_queue D w o1 k s) = fresh s"
  "qwait (sem_add D w th k s) = qwait s" "qsem (sem_add D w th k s) = qsem s" "fresh (sem_add D w th k s) = fresh s"
  by (simp_all add: pst_only)

lemma give_que_fields [simp]:
  "qwait (give_que w p s) = qwait s" "qsem (give_que w p s) = qsem s" "fresh (give_que w p s) = fresh s"
  by (simp_all add: give_que_def Let_def)

lemma free_pid_fields [simp]:
  "qwait (free_pid k s) = qwait s" "qsem (free_pid k s) = qsem s" "fresh (free_pid k s) = fresh s"
  by (simp_all add: free_pid_def)

lemma set_node_nodes: "(\<And>p. node p = n \<Longrightarrow> node (f p) = n) \<Longrightarrow> node ` set (set_node n f l) = node ` set l"
  by (induction l) (auto simp: set_node_def)

lemma fold_sem_free_waits:
  "qwait (fold (\<lambda>p s. sem_add D w (sem p) (- 1) (free_pid (pid p) s)) l s) = qwait s"
  "qsem (fold (\<lambda>p s. sem_add D w (sem p) (- 1) (free_pid (pid p) s)) l s) = qsem s"
  "fresh (fold (\<lambda>p s. sem_add D w (sem p) (- 1) (free_pid (pid p) s)) l s) = fresh s"
  by (induction l arbitrary: s) simp_all

lemma halt_que_waits: "waits_from s (snd (halt_que D w plr obj s))"
  by (rule waits_from_subset)
    (auto simp: halt_que_def halt_entries_def Let_def split_def fold_free fold_sem_free_waits)

lemma fold_waits:
  "(\<And>p s. \<exists>q. f p s = s\<lparr>pst := q\<rparr>) \<Longrightarrow> fresh (fold f l s) = fresh s \<and> qwait (fold f l s) = qwait s \<and> qsem (fold f l s) = qsem s"
  using fold_pst [of f l s] by auto

lemma halt_que_all_waits: "waits_from s (snd (halt_que_all D w s))"
proof -
  have "\<exists>q. count_queue D w o1 k (refund D w o2 o3 m s) = s\<lparr>pst := q\<rparr>" for o1 k o2 o3 m and s :: "'a queue_state"
    by (auto simp: pst_only)
  moreover have "\<exists>q. sem_add D w o4 j (count_queue D w o1 k (refund D w o2 o3 m s)) = s\<lparr>pst := q\<rparr>" for o1 k o2 o3 m o4 j and s :: "'a queue_state"
    by (auto simp: pst_only)
  ultimately show ?thesis
    by (intro waits_from_subset) (simp_all add: halt_que_all_def Let_def init_pid_table_def fold_waits)
qed

lemma setup_que_waits:
  assumes "setup_que D w rnd plr cau c args n sargs names s = (e, s')"
  shows "waits_from s s' \<and> (\<forall>p. e = Some p \<longrightarrow> fresh s \<le> node p)"
proof -
  obtain paid q1 where 1: "q_payfor D w plr (waitcost w + (if rnd mod machinecost w = 0 then 1 else 0)) s = (paid, s\<lparr>pst := q1\<rparr>)"
    by (metis q_payfor_split)
  obtain a q2 where 2: "QueueMax D w (Owner w plr) q1 = (a, q2)" by (metis prod.collapse)
  obtain m q3 where 3: "q_a_Queue D w (Owner w plr) 1 (s\<lparr>pst := q2\<rparr>) = (m, s\<lparr>pst := q3\<rparr>)"
    using q_a_Queue_split [of D w "Owner w plr" 1 "s\<lparr>pst := q2\<rparr>"] by auto
  have h: "waits_from s (s_Halted plr (snd (halt_que D w (Owner w plr) NOTHING (count_queue D w (Owner w plr) (- 1) (s\<lparr>pst := q3\<rparr>)))))"
    using halt_que_waits [of "s\<lparr>pst := q\<rparr>" D w "Owner w plr" NOTHING for q] by (simp add: s_Halted_def count_queue_eq)
  have "waits_from s (snd (halt_que_all D w (s\<lparr>pst := q3\<rparr>)))" using halt_que_all_waits [of "s\<lparr>pst := q3\<rparr>"] by simp
  moreover have "waits_from s (s\<lparr>pst := q3, pid_table := t, last_pid := k, fresh := Suc (fresh s)\<rparr>)" for t k
    by (auto simp: waits_from_def)
  ultimately show ?thesis using assms h
    by (auto simp: setup_que_def Let_def 1 2 3 split_def split: if_splits option.splits)
qed

lemma set_insert_wait [simp]: "set (insert_wait p l) = insert p (set l)"
  by (induction l) auto

lemma give_que_waits [simp]: "waits_from s (give_que w p s') = waits_from s s'"
  by (simp add: waits_from_def give_que_def Let_def)

lemma wait_que_waits: "waits_from s (wait_que D w tm rnd plr cau wait sem1 c args n sargs names s)"
proof (cases "interp s")
  case True
  obtain e s' where e: "setup_que D w rnd plr cau c args n sargs names s = (e, s')" by (metis prod.collapse)
  from setup_que_waits [OF e] True show ?thesis
    by (cases e) (auto simp: wait_que_def e Let_def waits_from_def)
qed (simp add: wait_que_def)

lemma record_pid_waits [simp]: "waits_from s (record_pid r s') = waits_from s s'"
  by (simp add: record_pid_def waits_from_def split: option.split)

lemma timed_wait_waits: "waits_from s (timed_wait D w tm rnd plr cau h reg th cmd cargs n s)"
  by (simp add: timed_wait_def wait_que_waits)

lemma rewait_node: "rewait tm newwait key p = (r, p1) \<Longrightarrow> node p1 = node p"
  using rewait_key by (force simp: ekey_def)

lemma wait_que_pidnew_waits: "waits_from s (snd (wait_que_pidnew w tm plr k newwait key s))"
  by (rule waits_from_subset)
    (simp_all add: wait_que_pidnew_def split_def set_node_nodes rewait_node [OF surjective_pairing] split: option.split)

lemma do_wait_waits: "waits_from s (do_wait D w sc found tm rnd plr cau key eventorig cmd cargs n s)"
proof (cases "recpid_args key eventorig")
  case None
  show ?thesis unfolding do_wait_def None option.case by (intro if_both [of "waits_from s"] waits_from_refl)
next
  case (Some re)
  obtain reg event where re: "re = (reg, event)" by (cases re)
  have t: "waits_from s (timed_wait D w tm rnd plr cau h reg th cmd cargs n s')" if "\<exists>q. s' = s\<lparr>pst := q\<rparr>" for h th and s' :: "'a queue_state"
    using that timed_wait_waits [of s'] by (metis waits_from_pst(1))
  have a: "\<exists>q. snd (add_to D w th 1 A_SEMAPHORE s) = s\<lparr>pst := q\<rparr>" for th by (auto simp: add_to_eq)
  have r: "\<exists>q. s = s\<lparr>pst := q\<rparr>" by (rule exI [of _ "pst s"]) simp
  have p: "waits_from s (wait_pid_command w tm plr key event cmd s)"
    by (simp add: wait_pid_command_def Let_def wait_que_pidnew_waits)
  show ?thesis unfolding do_wait_def Some re option.case split_def fst_conv snd_conv Let_def
    by (intro if_both [of "waits_from s"] waits_from_refl p t a r)
qed

lemma stop_node: "stop_entry now key p = Some p1 \<Longrightarrow> node p1 = node p"
  by (auto simp: stop_entry_def split: if_splits)

lemma halt_que_pid_waits: "waits_from s (snd (halt_que_pid D w plr k key s))"
proof -
  have u: "node ` set (unlink p l) \<subseteq> node ` set l" for p l by (auto simp: unlink_def)
  show ?thesis
    by (rule waits_from_subset)
      (simp_all add: halt_que_pid_def Let_def u set_node_nodes stop_node split: option.split)
qed

lemma freeze_pid_waits: "waits_from s (snd (freeze_pid D w tm junk plr k s))"
  by (rule waits_fromI) (auto simp: freeze_pid_def Let_def pst_only free_pid_def unlink_def split: option.splits if_splits)

lemma nfy_loop_waits:
  "nfy_loop D w sem1 key cnt pv l num s = (l1, n, s1) \<Longrightarrow> set l1 \<subseteq> set l \<and> qwait s1 = qwait s \<and> fresh s1 = fresh s"
proof (induction l arbitrary: num s l1 n s1)
  case (Cons p l)
  define hit where "hit \<longleftrightarrow> sem p = sem1 \<and> (pv = - 1 \<or> pid p = pv) \<and> pid p \<noteq> kick_pid s"
  define num1 where "num1 = (if hit then num + 1 else num)"
  define s2 where "s2 = (if \<not> hit then s
                else if key \<noteq> NFY_DRAIN then give_que w p s
                else free_pid (pid p) (if player p \<noteq> NOTHING then
                              count_queue D w (Owner w (player p)) (- 1)
                                (refund D w (Owner w (player p)) (player p) (waitcost w) s)
                            else s))"
  define keep where "keep = (if hit then [] else [p])"
  have s2: "qwait s2 = qwait s" "fresh s2 = fresh s" by (simp_all add: s2_def)
  have k: "set keep \<subseteq> {p}" by (simp add: keep_def)
  have u: "nfy_loop D w sem1 key cnt pv (p # l) num s =
      (if key = NFY_NFY \<and> num1 \<ge> cnt then (keep @ l, num1, s2)
       else case nfy_loop D w sem1 key cnt pv l num1 s2 of (l2, n, s3) \<Rightarrow> (keep @ l2, n, s3))"
    by (simp add: Let_def hit_def num1_def s2_def keep_def)
  show ?case
  proof (cases "key = NFY_NFY \<and> num1 \<ge> cnt")
    case True
    then show ?thesis using Cons.prems [unfolded u if_P [OF True]] s2 k by auto
  next
    case False
    then obtain l2 where l2: "nfy_loop D w sem1 key cnt pv l num1 s2 = (l2, n, s1)" "l1 = keep @ l2"
      using Cons.prems [unfolded u if_not_P [OF False]] by (metis (no_types, lifting) case_prod_conv prod.collapse prod.inject)
    from Cons.IH [OF l2(1)] show ?thesis using l2(2) s2 k by auto
  qed
qed simp

lemma nfy_que_waits: "waits_from s (snd (nfy_que D w sem1 key cnt pv s))"
proof -
  obtain str o1 fl a where g: "atr_get D (w_g w) sem1 A_SEMAPHORE (adb (pst s)) = ((str, o1, fl), a)"
    by (metis prod.collapse)
  let ?s = "s\<lparr>pst := (pst s)\<lparr>adb := a\<rparr>\<rparr>"
  obtain l num s2 where l: "(if atoi str > 0 then nfy_loop D w sem1 key cnt pv (qsem ?s) 0 ?s else (qsem ?s, 0, ?s)) = (l, num, s2)"
    by (metis prod.collapse)
  have "set l \<subseteq> set (qsem s) \<and> qwait s2 = qwait s \<and> fresh s2 = fresh s"
    using l nfy_loop_waits [of D w sem1 key cnt pv "qsem s" 0 ?s l num s2] by (cases "atoi str > 0") auto
  then show ?thesis using l
    by (intro waits_from_subset) (auto simp: nfy_que_def g Let_def)
qed

lemma do_notify_waits: "waits_from s (do_notify D w thing allowed key0 cnt s)"
proof -
  have n: "waits_from s (snd (if b then nfy_que D w s1 k1 c1 p1 s else nfy_que D w s1 k1 c2 p2 s))" for b s1 k1 c1 p1 c2 p2
    by (cases b) (simp_all add: nfy_que_waits)
  have a: "waits_from s s' \<Longrightarrow> waits_from s (sem_add D w thing (- 1) s')" for s' by (simp add: sem_add_eq)
  show ?thesis unfolding do_notify_def Let_def split_def by (intro if_both [of "waits_from s"] a n waits_from_refl)
qed

lemma do_freeze_waits: "waits_from s (do_freeze D w tm junk plr what s)"
  by (simp add: do_freeze_def freeze_pid_waits)

lemma thaw_pid_waits: "waits_from s (snd (thaw_pid D w tm plr k key s))"
proof -
  define looked where "looked = (case with_pid k (fqwait s) of
               Some p \<Rightarrow>
                 if may_touch w plr p then
                   (True, bad_entry w p, Some (p\<lparr>waittime := waittime p - pid p + tm\<rparr>), s\<lparr>fqwait := unlink p (fqwait s)\<rparr>)
                 else (False, False, None, s)
             | None \<Rightarrow>
                 (case find (\<lambda>p. pid p = k \<and> pid p \<noteq> kick_pid s) (fqsem s) of
                    Some p \<Rightarrow>
                      if may_touch w plr p then
                        (True, bad_entry w p,
                         Some (p\<lparr>waittime := (if waittime p \<noteq> 0 then waittime p - pid p + tm else 0)\<rparr>),
                         sem_add D w (sem p) 1 (s\<lparr>fqsem := unlink p (fqsem s)\<rparr>))
                      else (False, False, None, s)
                  | None \<Rightarrow> (False, False, None, s)))"
  obtain found badpid entry s1 where l: "looked = (found, badpid, entry, s1)" by (metis prod.collapse)
  have same: "qwait s1 = qwait s \<and> qsem s1 = qsem s \<and> fresh s1 = fresh s"
    using l by (simp add: looked_def split: option.splits if_splits) auto
  have s1: "waits_from s s1" by (rule waits_from_subset) (simp_all add: same)
  show ?thesis
  proof (cases entry)
    case None
    then show ?thesis using s1 by (simp add: thaw_pid_def Let_def looked_def [symmetric] l)
  next
    case (Some p)
    show ?thesis
    proof (cases "find_pid s1")
      case None
      then show ?thesis using s1 by (simp add: thaw_pid_def Let_def looked_def [symmetric] l Some)
    next
      case (Some tpid)
      show ?thesis
      proof (cases "key AND THAW_DEL = 0 \<and> \<not> badpid")
        case False
        then show ?thesis using s1 by (auto simp: thaw_pid_def Let_def looked_def [symmetric] l \<open>entry = Some p\<close> Some)
      next
        case True
        show ?thesis
          by (rule waits_fromI) (use same True in \<open>auto simp: thaw_pid_def Let_def looked_def [symmetric] l \<open>entry = Some p\<close> Some split: if_splits\<close>)
      qed
    qed
  qed
qed

lemma kl_nodes_subset: "K + kl l1 \<subseteq># kl l \<Longrightarrow> node ` set l1 \<subseteq> node ` set l"
proof -
  assume "K + kl l1 \<subseteq># kl l"
  then have "kl l1 \<subseteq># kl l" by (metis mset_subset_eq_add_right subset_mset.order_trans)
  then have "set_mset (image_mset fst (kl l1)) \<subseteq> set_mset (image_mset fst (kl l))"
    by (intro set_mset_mono image_mset_subseteq_mono)
  then show ?thesis by simp
qed

lemma do_second_waits: "waits_from s (do_second D w s)"
proof (cases "dequeue s")
  case True
  define s1 where "s1 = (if qlfirst s \<noteq> [] then
                    s\<lparr>qfirst := (if qlast s then qfirst s @ qlfirst s else qlfirst s), qlast := qllast s,
                      qlfirst := [], qllast := False\<rparr>
                  else s)"
  have s1: "qwait s1 = qwait s" "qsem s1 = qsem s" "fresh s1 = fresh s" by (simp_all add: s1_def)
  obtain wl s2 where 2: "second_wait w (q_now s1) (q_now s1 - q_lastnow s1) (qwait s1) s1 = (wl, s2)" by (metis prod.collapse)
  then obtain K where K: "runs_more K s1 s2" "K + kl wl \<subseteq># kl (qwait s1)" using second_wait_more by blast
  define s3 where "s3 = s2\<lparr>qwait := wl\<rparr>"
  obtain sl s4 where 4: "second_sem D w (q_now s3) (q_now s1 - q_lastnow s1) (qsem s3) s3 = (sl, s4)" by (metis prod.collapse)
  then obtain L where L: "runs_more L s3 s4" "L + kl sl \<subseteq># kl (qsem s3)" using second_sem_more by blast
  have q: "node ` set wl \<subseteq> node ` set (qwait s)" "node ` set sl \<subseteq> node ` set (qsem s)"
    using kl_nodes_subset [OF K(2)] kl_nodes_subset [OF L(2)] K(1) by (simp_all add: s1 s3_def runs_more_def)
  have "qwait s4 = wl" "fresh s4 = fresh s" using L(1) K(1) s1 by (simp_all add: runs_more_def s3_def)
  moreover have "qwait (do_second D w s) = qwait s4" "qsem (do_second D w s) = sl" "fresh (do_second D w s) = fresh s4"
    using True 2 4 by (simp_all add: do_second_def Let_def s1_def [symmetric] s3_def)
  ultimately show ?thesis using q by (intro waits_from_subset) simp_all
qed (simp add: do_second_def)

lemma warp_waits: "waits_from s (warp D w i s)"
proof -
  let ?s = "s\<lparr>qwait := map (\<lambda>p. p\<lparr>waittime := - i\<rparr>) (qwait s),
                 qsem := map (\<lambda>p. if waittime p > 0 then
                                 (if waittime p - i \<le> 0 then p\<lparr>waittime := - 1\<rparr> else p\<lparr>waittime := waittime p - i\<rparr>)
                               else p) (qsem s), dequeue := True\<rparr>"
  have "waits_from s ?s" by (rule waits_from_subset) (auto simp: image_image)
  from waits_from_trans [OF this do_second_waits [of ?s D w]]
  show ?thesis by (simp add: warp_def Let_def waits_from_def)
qed

end
