(* ===== verification/Cque_Run.thy ===== *)
theory Cque_Run
  imports Cque_Inv Attrs_Laws
begin

section \<open>The command queue: running entries\<close>

text \<open>
  What commands may do to the queues while entries are being run, and the states that a run of
  the server can reach: live entries never share a process id.
\<close>

subsection \<open>Commands that are run\<close>

text \<open>
  What a command does to the queues, while the entries of \<open>X\<close> are being run, is a sequence of
  these operations of cque.c; everything else it does changes other parts of the state. The guards
  are about \<open>GOD\<close>, who owns \<open>NOTHING\<close> and object 0 in the server (\<open>db_grow\<close> in db.c): a halt of everything that
  \<open>GOD\<close> owns takes entries that are marked already, or being run, for live ones, and frees their process ids
  again (\<open>god_halt_frees_taken_pid\<close> below). So a halt is one of these steps when it is of somebody else, or when there is no
  such entry; the same holds for a command of \<open>GOD\<close> that is queued when there are too many already, since
  all of them are halted then, and for halting one entry by somebody with rights over the entries of \<open>GOD\<close>. (\<open>@queue/kick\<close> is
  not for commands that are run from the queue: \<open>execute_entry\<close> clears \<open>desc_in_use\<close>.)
\<close>

inductive command_step :: "nat set \<Rightarrow> 'c acache \<Rightarrow> world \<Rightarrow> bool \<Rightarrow> 'c queue_state \<Rightarrow> 'c queue_state \<Rightarrow> bool"
  for X D w sc where
  wait: "plr \<noteq> NOTHING \<Longrightarrow> ordinary w (Owner w plr) \<or> room D w rnd plr s \<or> halts_live X w (Owner w plr) NOTHING s \<Longrightarrow>
    command_step X D w sc s (wait_que D w tm rnd plr cau secs sem1 command args n sargs names s)"
| wait_command: "plr \<noteq> NOTHING \<Longrightarrow> ordinary w (Owner w plr) \<or> room D w rnd plr s \<or> halts_live X w (Owner w plr) NOTHING s \<Longrightarrow>
    command_step X D w sc s (do_wait D w sc found tm rnd plr cau key event cmd cargs n s)"
| notify: "command_step X D w sc s (do_notify D w thing allowed key0 cnt s)"
| halt: "ordinary w plr \<or> obj \<noteq> NOTHING \<and> obj \<noteq> 0 \<or> halts_live X w plr obj s \<Longrightarrow>
    command_step X D w sc s (snd (halt_que D w plr obj s))"
| halt_all: "command_step X D w sc s (snd (halt_que_all D w s))"
| halt_pid: "no_power w plr \<or> pid_live X w plr k s \<Longrightarrow> command_step X D w sc s (snd (halt_que_pid D w plr k key s))"
| freeze: "no_power w plr \<or> (\<forall>p\<in>set (qwait s). node p \<notin> X) \<Longrightarrow> command_step X D w sc s (do_freeze D w tm junk plr what s)"
| thaw: "\<not> Good_obj w NOTHING \<Longrightarrow> command_step X D w sc s (do_thaw D w tm plr key what s)"
| warp: "command_step X D w sc s (warp D w i s)"
| others: "command_step X D w sc s
    (s\<lparr>pst := q, breakst := b, force_halt := fh, curr_enactor := ce, curr_player := cp, global_regs := gr,
       global_regsname := gn, dequeue := dq, interp := ip, counters := ct\<rparr>)"

lemma command_step_inv:
  "command_step X D w sc s s' \<Longrightarrow> queue_inv X s \<Longrightarrow> queue_inv X s'"
proof (induction rule: command_step.induct)
  case (others s q b fh ce cp gr gn dq ip ct)
  then show ?case by (simp add: queue_inv_def keys_def waiters_def frozen_nodes_def)
next
  case (wait plr rnd s)
  then show ?case using ordinary_halts [OF wait(3)] by (intro wait_que_inv) (auto simp: room_def)
next
  case (wait_command plr rnd s)
  then show ?case using ordinary_halts [OF wait_command(3)] by (intro do_wait_inv) auto
next
  case (halt plr obj s)
  then show ?case using ordinary_halts [OF halt(2)] by (intro halt_que_inv) auto
next
  case (halt_pid plr k s)
  then show ?case using no_power_live [OF halt_pid(2)] by (intro halt_que_pid_inv) auto
next
  case (freeze plr s)
  then have "\<forall>p\<in>set (qwait s). may_touch w plr p \<longrightarrow> node p \<notin> X" using no_power_live(2) [OF freeze(2)] by auto
  then show ?case using freeze(2) by (simp add: do_freeze_def freeze_pid_inv)
qed (simp_all add: do_notify_inv halt_que_all_inv do_thaw_def thaw_pid_inv warp_inv)

lemma command_step_waits: "command_step X D w sc s s' \<Longrightarrow> waits_from s s'"
  by (induction rule: command_step.induct)
    (simp_all add: wait_que_waits do_wait_waits do_notify_waits halt_que_waits halt_que_all_waits halt_que_pid_waits
      do_freeze_waits do_thaw_def thaw_pid_waits warp_waits, simp add: waits_from_def)

abbreviation commands_of :: "'c acache \<Rightarrow> world \<Rightarrow> bool \<Rightarrow> nat \<Rightarrow> 'c queue_state \<Rightarrow> 'c queue_state \<Rightarrow> bool" where
  "commands_of D w sc n \<equiv> (command_step {n} D w sc)\<^sup>*\<^sup>*"

lemma command_steps_inv:
  "(command_step X D w sc)\<^sup>*\<^sup>* s s' \<Longrightarrow> queue_inv X s \<Longrightarrow> queue_inv X s' \<and> waits_from s s'"
  by (induction rule: rtranclp_induct) (auto intro: command_step_inv waits_from_trans dest: command_step_waits)

subsection \<open>The commands of an entry\<close>

text \<open>
  The text of an entry is a list of commands between semicolons; they are run one after the other,
  until one of them ends the line.
\<close>

function pieces :: "bool \<Rightarrow> string option \<Rightarrow> string list" where
  "pieces sc command =
     (if command = None then []
      else case parse_to sc command (CHR '';'') 0 of
             (cp, command1) \<Rightarrow> (if cp \<noteq> None \<and> cp \<noteq> Some [] then [the cp] else []) @ pieces sc command1)"
  by pat_completeness auto
termination pieces
proof (relation "measure (\<lambda>(sc, command). left_over command)", goal_cases)
  case (2 sc command cp command1)
  then obtain t where t: "command = Some t" by auto
  from parse_to_bound [OF 2(2) [symmetric, unfolded t]] show ?case using t by auto
qed simp

declare pieces.simps [simp del]

fun perform :: "(string \<Rightarrow> 'c queue_state \<Rightarrow> 'c queue_state) \<Rightarrow> string list \<Rightarrow> 'c queue_state \<Rightarrow> 'c queue_state" where
  "perform run [] s = s"
| "perform run (c # cs) s = (if breakst s then s else perform run cs (run c s))"

lemma perform_break [simp]: "breakst s \<Longrightarrow> perform run cs s = s"
  by (cases cs) simp_all

lemma run_commands_pieces: "run_commands sc run command s = perform run (pieces sc command) s"
proof (induction sc run command s rule: run_commands.induct)
  case (1 sc run command s)
  show ?case
  proof (cases "command = None \<or> breakst s")
    case True
    have "perform run (pieces sc command) s = s" using True by (auto simp: pieces.simps [of sc None])
    then show ?thesis using True by (subst run_commands.simps) simp
  next
    case False
    obtain cp command1 where p: "parse_to sc command (CHR '';'') 0 = (cp, command1)" by (metis prod.collapse)
    have "run_commands sc run command s = run_commands sc run command1 (if cp \<noteq> None \<and> cp \<noteq> Some [] then run (the cp) s else s)"
      by (subst run_commands.simps) (simp only: if_not_P [OF False] p prod.case)
    also have "\<dots> = perform run (pieces sc command1) (if cp \<noteq> None \<and> cp \<noteq> Some [] then run (the cp) s else s)"
      by (rule 1 [OF False p [symmetric]])
    also have "\<dots> = perform run (pieces sc command) s"
    proof -
      have "command \<noteq> None" "\<not> breakst s" using False by simp_all
      then show ?thesis unfolding pieces.simps [of sc command] by (simp del: not_None_eq add: p)
    qed
    finally show ?thesis .
  qed
qed

text \<open>Each command that is really run, in the state in which it is run, is related to its result by \<open>Q\<close>.\<close>

fun calls_ok ::
  "('c queue_state \<Rightarrow> 'c queue_state \<Rightarrow> bool) \<Rightarrow> (string \<Rightarrow> 'c queue_state \<Rightarrow> 'c queue_state) \<Rightarrow> string list \<Rightarrow> 'c queue_state \<Rightarrow> bool" where
  "calls_ok Q run [] s = True"
| "calls_ok Q run (c # cs) s = (breakst s \<or> Q s (run c s) \<and> calls_ok Q run cs (run c s))"

lemma calls_ok_perform: "calls_ok Q run cs s \<Longrightarrow> Q\<^sup>*\<^sup>* s (perform run cs s)"
  by (induction cs arbitrary: s) (auto intro: converse_rtranclp_into_rtranclp)

subsection \<open>Running entries\<close>

lemma kl_set_player: "kl (set_node n (\<lambda>p. p\<lparr>player := x\<rparr>) l) = with_player n x (kl l)"
  by (induction l) (auto simp: set_node_def with_player_def ekey_def)

lemma set_player_eqs [simp]:
  "keys (set_player n x s) = with_player n x (keys s)" "waiters (set_player n x s) = with_player n x (waiters s)"
  "kl (qsem (set_player n x s)) = with_player n x (kl (qsem s))" "kick_pid (set_player n x s) = kick_pid s"
  "frozen_nodes (set_player n x s) = frozen_nodes s" "pid_table (set_player n x s) = pid_table s" "fresh (set_player n x s) = fresh s"
  "last_pid (set_player n x s) = last_pid s"
  by (simp_all add: set_player_def Let_def keys_def waiters_def frozen_nodes_def kl_set_player)

lemma kick_known_player [simp]: "kick_known X (with_player n x K) j = kick_known X K j"
proof -
  have b: "kick_known X L j = (\<forall>k\<in>set_mset L. fst k \<in> X \<longrightarrow> fst (snd k) = j)" for L by (simp only: kick_known_def Ball_def)
  show ?thesis unfolding b with_player_def set_image_mset ball_simps by (intro ball_cong refl) simp
qed

lemma set_player_waits [simp]: "waits_from s (set_player n x s)"
  by (simp add: set_player_def Let_def waits_from_def set_node_nodes)

lemma waiters_ok_player: "waiters_ok X K \<Longrightarrow> waiters_ok (insert n X) (with_player n x K)"
  by (fastforce simp: waiters_ok_def with_player_def split: if_splits)

text \<open>After an entry has been run it is marked; it may still be in the waiting list where it was.\<close>

definition run_inv :: "nat \<Rightarrow> 'c queue_state \<Rightarrow> 'c queue_state \<Rightarrow> bool" where
  "run_inv n s s' \<longleftrightarrow> pid_inv {} (keys s') (frozen_nodes s') (pid_table s') (fresh s') \<and> waiters_ok {n} (waiters s') \<and>
     0 \<le> last_pid s' \<and> n < fresh s \<and> waits_from s s'"

lemma run_inv_absent:
  assumes "run_inv n s s'"
  shows "n \<notin> node ` set (qwait s) \<Longrightarrow> n \<notin> node ` set (qwait s')" "n \<notin> node ` set (qsem s) \<Longrightarrow> n \<notin> node ` set (qsem s')"
  using assms unfolding run_inv_def waits_from_def by auto

lemma keys_fresh: "queue_inv X s \<Longrightarrow> k \<in># keys s \<Longrightarrow> fst k < fresh s"
proof -
  assume i: "queue_inv X s" and k: "k \<in># keys s"
  have "fst k \<in># image_mset fst (keys s)" using k by simp
  then have "0 < count (image_mset fst (keys s)) (fst k)" by (simp only: count_greater_zero_iff)
  then have "0 < (of_bool (fst k < fresh s) :: nat)" using pid_invD(3) [OF queue_invD(1) [OF i], of "fst k"] by linarith
  then show ?thesis by (simp split: if_splits)
qed

text \<open>The state in which the commands of an entry start.\<close>

definition begun :: "'c acache \<Rightarrow> world \<Rightarrow> BQUE \<Rightarrow> 'c queue_state \<Rightarrow> 'c queue_state" where
  "begun D w p s =
     free_pid (pid p) (set_player (node p) 0
       (count_queue D w (Owner w (player p)) (- 1)
         ((refund D w (Owner w (player p)) (player p) (waitcost w) s)\<lparr>curr_enactor := cause p, curr_player := player p\<rparr>)))"

definition with_regs :: "BQUE \<Rightarrow> 'c queue_state \<Rightarrow> 'c queue_state" where
  "with_regs p s = s\<lparr>global_regs := texts (scr p), global_regsname := texts (scrname p), breakst := False, force_halt := False\<rparr>"

abbreviation runs_as :: "'c command \<Rightarrow> BQUE \<Rightarrow> string \<Rightarrow> 'c queue_state \<Rightarrow> 'c queue_state" where
  "runs_as pc p \<equiv> (\<lambda>cp. pc (player p) (cause p) cp (env p) (nargs p) (shellprg p))"

text \<open>The code looks at the object first, and at \<open>HALT\<close> when the payment has been given back.\<close>

definition exists_now :: "world \<Rightarrow> BQUE \<Rightarrow> bool" where
  "exists_now w p \<longleftrightarrow> player p \<ge> 0 \<and> \<not> w_Going w (player p) \<and> \<not> w_Recover w (player p)"

definition awake :: "BQUE \<Rightarrow> 'c queue_state \<Rightarrow> bool" where
  "awake p s \<longleftrightarrow> \<not> Halted (player p) s \<or> force_halt s"

lemma execute_entry_eq:
  "execute_entry D w sc pc p s = set_player (node p) NOTHING
     (if exists_now w p then
        if awake p (begun D w p s) then perform (runs_as pc p) (pieces sc (comm p)) (with_regs p (begun D w p s))
        else begun D w p s
      else s)"
  by (simp add: execute_entry_def Let_def begun_def with_regs_def exists_now_def awake_def run_commands_pieces)

text \<open>
  What is known of the commands that are run: \<open>Q n\<close> relates the states before and after each command that the
  entry with the address \<open>n\<close> runs.
\<close>

type_synonym 'c effects = "nat \<Rightarrow> 'c queue_state \<Rightarrow> 'c queue_state \<Rightarrow> bool"

definition entry_ok :: "'c effects \<Rightarrow> 'c acache \<Rightarrow> world \<Rightarrow> bool \<Rightarrow> 'c command \<Rightarrow> BQUE \<Rightarrow> 'c queue_state \<Rightarrow> bool" where
  "entry_ok Q D w sc pc p s \<longleftrightarrow>
     (exists_now w p \<and> awake p (begun D w p s) \<longrightarrow>
        calls_ok (Q (node p)) (runs_as pc p) (pieces sc (comm p)) (with_regs p (begun D w p s)))"

definition popped :: "'c queue_state \<Rightarrow> 'c queue_state" where
  "popped s = (let s2 = s\<lparr>qfirst := tl (qfirst s)\<rparr> in if qfirst s2 = [] then s2\<lparr>qlast := False\<rparr> else s2)"

lemma top_loop_Suc:
  "qfirst s = q # l \<Longrightarrow> snd (top_loop D w sc pc (Suc n) s) = snd (top_loop D w sc pc n (popped (execute_entry D w sc pc q s)))"
  by (simp add: popped_def Let_def split_def)

fun top_ok :: "'c effects \<Rightarrow> 'c acache \<Rightarrow> world \<Rightarrow> bool \<Rightarrow> 'c command \<Rightarrow> nat \<Rightarrow> 'c queue_state \<Rightarrow> bool" where
  "top_ok Q D w sc pc 0 s = True"
| "top_ok Q D w sc pc (Suc n) s =
     (case qfirst s of
        [] \<Rightarrow> True
      | q # _ \<Rightarrow> entry_ok Q D w sc pc q s \<and> top_ok Q D w sc pc n (popped (execute_entry D w sc pc q s)))"

text \<open>The entry that a kick runs, if there is one.\<close>

definition kick_ok :: "'c effects \<Rightarrow> 'c acache \<Rightarrow> world \<Rightarrow> bool \<Rightarrow> 'c command \<Rightarrow> int \<Rightarrow> 'c queue_state \<Rightarrow> bool" where
  "kick_ok Q D w sc pc k s =
     (case with_pid k (qfirst s @ qlfirst s @ qwait s) of
        Some p \<Rightarrow> entry_ok Q D w sc pc p s
      | None \<Rightarrow>
          (case with_pid k (qsem s) of
             Some p \<Rightarrow> entry_ok Q D w sc pc p (s\<lparr>kick_pid := pid p\<rparr>)
           | None \<Rightarrow> True))"

lemma begun_inv:
  assumes i: "queue_inv {} s" and p: "ekey p \<in># keys s" "player p \<ge> 0" and k: "kick_known {node p} (kl (qsem s)) (kick_pid s)"
  shows "queue_inv {node p} (begun D w p s)" "waits_from s (begun D w p s)"
proof -
  let ?n = "node p"
  have live: "(?n, pid p, player p) \<in># keys s" "player p \<noteq> NOTHING" using p by (simp_all add: ekey_def)
  obtain q where q: "count_queue D w (Owner w (player p)) (- 1)
      ((refund D w (Owner w (player p)) (player p) (waitcost w) s)\<lparr>curr_enactor := cause p, curr_player := player p\<rparr>) =
      s\<lparr>curr_enactor := cause p, curr_player := player p, pst := q\<rparr>"
    by (simp add: pst_only)
  define s3 where "s3 = s\<lparr>curr_enactor := cause p, curr_player := player p, pst := q\<rparr>"
  have s4: "begun D w p s = free_pid (pid p) (set_player ?n 0 s3)" unfolding begun_def q s3_def ..
  show "queue_inv {?n} (begun D w p s)" unfolding s4
    using pid_inv_start [OF queue_invD(1) [OF i] live] waiters_ok_player [OF queue_invD(2) [OF i], of ?n 0] queue_invD(3) [OF i] k
    by (simp add: queue_inv_def s3_def free_pid_def set_player_def Let_def keys_def waiters_def frozen_nodes_def kl_set_player)
  show "waits_from s (begun D w p s)" unfolding s4
    using set_player_waits [of s3 ?n 0] by (simp add: waits_from_def s3_def free_pid_def)
qed

lemma with_regs_inv [simp]: "queue_inv X (with_regs p s) = queue_inv X s" "waits_from s' (with_regs p s) = waits_from s' s"
  "waits_from (with_regs p s) s' = waits_from s s'"
  by (simp_all add: with_regs_def waits_from_def queue_inv_def keys_def waiters_def frozen_nodes_def)

lemma performed_inv:
  assumes "calls_ok (commands_of D w sc n) run cs s" "queue_inv {n} s"
  shows "queue_inv {n} (perform run cs s) \<and> waits_from s (perform run cs s)"
  using calls_ok_perform [OF assms(1)] command_steps_inv [OF _ assms(2)] by (simp only: rtranclp_idemp)

lemma execute_entry_inv:
  assumes i: "queue_inv {} s" and p: "ekey p \<in># keys s" and k: "kick_known {node p} (kl (qsem s)) (kick_pid s)"
    and ok: "entry_ok (commands_of D w sc) D w sc pc p s"
  shows "run_inv (node p) s (execute_entry D w sc pc p s)"
proof -
  let ?n = "node p"
  define s4 where "s4 = begun D w p s"
  have fr: "?n < fresh s" using keys_fresh [OF i p] by (simp add: ekey_def)
  have stop: "run_inv ?n s (set_player ?n NOTHING s1)" if "queue_inv {?n} s1" "waits_from s s1" for s1 :: "'a queue_state"
    using pid_inv_stop [OF queue_invD(1) [OF that(1)]] queue_invD(2,3) [OF that(1)] waiters_ok_player [of "{?n}" "waiters s1" ?n NOTHING]
      waits_from_trans [OF that(2)] fr by (auto simp: run_inv_def)
  have 4: "queue_inv {?n} s4" "waits_from s s4" if "exists_now w p"
    using begun_inv [OF i p _ k] that by (simp_all add: s4_def exists_now_def)
  have 6: "queue_inv {?n} (perform (runs_as pc p) (pieces sc (comm p)) (with_regs p s4))"
      "waits_from s (perform (runs_as pc p) (pieces sc (comm p)) (with_regs p s4))" if "exists_now w p" "awake p s4"
    using performed_inv [of ?n D w sc "runs_as pc p" "pieces sc (comm p)" "with_regs p s4"] ok that 4 waits_from_trans [OF 4(2)]
    by (simp_all add: entry_ok_def s4_def)
  have dead: "run_inv ?n s (set_player ?n NOTHING s)"
    using pid_inv_dead [OF queue_invD(1) [OF i]] queue_invD(2,3) [OF i] waiters_ok_player [of "{}"] fr by (auto simp: run_inv_def)
  show ?thesis unfolding execute_entry_eq s4_def [symmetric] using stop 4 6 dead by simp
qed

lemma node_kl: "n \<in># image_mset fst (kl l) \<longleftrightarrow> n \<in> node ` set l"
  by auto

text \<open>The entry is in no waiting list any more.\<close>

lemma run_inv_done:
  assumes "run_inv n s s'" "n \<notin> node ` set (qwait s')" "n \<notin> node ` set (qsem s')"
  shows "queue_inv {} s'"
proof -
  have "waiters_ok {} (waiters s')"
    unfolding waiters_ok_def
  proof (intro allI impI)
    fix k assume k: "k \<in># waiters s'"
    then have "fst k \<in> node ` set (qwait s') \<union> node ` set (qsem s')"
      by (auto simp: waiters_def ekey_def dest!: kl_memE)
    then have "fst k \<noteq> n" using assms(2,3) by auto
    then show "snd (snd k) \<noteq> NOTHING" using assms(1) k by (cases k) (auto simp: run_inv_def waiters_ok_def)
  qed
  then show ?thesis using assms(1) by (simp add: run_inv_def queue_inv_def)
qed

lemma run_inv_cong:
  assumes "run_inv n s s1" "keys s2 \<subseteq># keys s1" "waiters s2 \<subseteq># waiters s1" "frozen_nodes s2 = frozen_nodes s1"
    "pid_table s2 = pid_table s1" "fresh s2 = fresh s1" "last_pid s2 = last_pid s1" "waits_from s1 s2"
  shows "run_inv n s s2"
proof -
  have "pid_inv {} (keys s2) (frozen_nodes s2) (pid_table s2) (fresh s2)"
    by (rule pid_inv_mono [of "{}" "keys s1" "frozen_nodes s1" "pid_table s1" "fresh s1"]) (use assms in \<open>simp_all add: run_inv_def\<close>)
  then show ?thesis using assms waiters_ok_mono waits_from_trans by (auto simp: run_inv_def)
qed

lemma node_elsewhere:
  assumes i: "queue_inv {} s" and p: "p \<in> set (qfirst s) \<union> set (qlfirst s)"
  shows "node p \<notin> node ` set (qwait s)" "node p \<notin> node ` set (qsem s)"
proof -
  have "1 \<le> count (image_mset node (mset (qfirst s))) (node p) \<or> 1 \<le> count (image_mset node (mset (qlfirst s))) (node p)"
    using p count_node_1 by blast
  then have "count (image_mset node (mset (qwait s))) (node p) = 0" "count (image_mset node (mset (qsem s))) (node p) = 0"
    using nodes_le_1 [OF i, of "node p"] by linarith+
  then show "node p \<notin> node ` set (qwait s)" "node p \<notin> node ` set (qsem s)" by (simp_all only: node_absent not_False_eq_True)
qed

lemma kick_absent: "n \<notin> node ` set l \<Longrightarrow> kick_known {n} (kl l) j"
  by (auto simp: kick_known_def ekey_def dest!: kl_memE)

lemma execute_running:
  assumes i: "queue_inv {} s" and p: "p \<in> set (qfirst s) \<union> set (qlfirst s)" and ok: "entry_ok (commands_of D w sc) D w sc pc p s"
  shows "queue_inv {} (execute_entry D w sc pc p s)"
proof -
  have k: "ekey p \<in># keys s" using p kl_mem by (auto simp: keys_def)
  note n = node_elsewhere [OF i p]
  have r: "run_inv (node p) s (execute_entry D w sc pc p s)" by (rule execute_entry_inv [OF i k kick_absent [OF n(2)] ok])
  show ?thesis using run_inv_done [OF r] run_inv_absent [OF r] n by blast
qed

lemma popped_inv: "queue_inv X s \<Longrightarrow> queue_inv X (popped s)"
proof -
  have "kl (tl m) \<subseteq># kl m" for m by (cases m) simp_all
  then show "queue_inv X s \<Longrightarrow> queue_inv X (popped s)"
    by (elim queue_inv_mono) (auto simp: popped_def Let_def keys_def waiters_def frozen_nodes_def intro!: subset_mset.add_right_mono)
qed

lemma top_loop_inv:
  "queue_inv {} s \<Longrightarrow> top_ok (commands_of D w sc) D w sc pc n s \<Longrightarrow> queue_inv {} (snd (top_loop D w sc pc n s))"
proof (induction n arbitrary: s)
  case (Suc n)
  show ?case
  proof (cases "qfirst s")
    case (Cons p l)
    then have ok: "entry_ok (commands_of D w sc) D w sc pc p s" "top_ok (commands_of D w sc) D w sc pc n (popped (execute_entry D w sc pc p s))"
      using Suc.prems(2) by simp_all
    have "queue_inv {} (execute_entry D w sc pc p s)" using execute_running [OF Suc.prems(1) _ ok(1)] Cons by simp
    from Suc.IH [OF popped_inv [OF this] ok(2)] show ?thesis unfolding top_loop_Suc [OF Cons] .
  qed (simp add: Suc.prems)
qed simp

lemma do_top_inv:
  "queue_inv {} s \<Longrightarrow> (dequeue s \<Longrightarrow> top_ok (commands_of D w sc) D w sc pc (nat n) s) \<Longrightarrow> queue_inv {} (snd (do_top D w sc pc n s))"
proof -
  assume a: "queue_inv {} s" "dequeue s \<Longrightarrow> top_ok (commands_of D w sc) D w sc pc (nat n) s"
  obtain k s1 where t: "top_loop D w sc pc (nat n) s = (k, s1)" by (metis prod.collapse)
  have "queue_inv {} s1" if "dequeue s" using top_loop_inv [OF a(1) a(2) [OF that]] t by simp
  then show ?thesis using a(1) t
    by (auto simp: do_top_def queue_inv_def keys_def waiters_def frozen_nodes_def)
qed

text \<open>What a kick leaves of a waiting list: some of its entries, and not the one that was kicked.\<close>

lemma dropWhile_mset: "mset (dropWhile P l) \<subseteq># mset l"
proof -
  have "mset l = mset (takeWhile P l) + mset (dropWhile P l)" by (metis mset_append takeWhile_dropWhile_id)
  then show ?thesis by simp
qed

lemma relink_mset:
  assumes "relink trail n l = Some l'" "count (image_mset node (mset l)) n \<le> 1"
  shows "mset l' \<subseteq># mset l" "n \<notin> node ` set l'"
proof -
  let ?T = "takeWhile (\<lambda>q. node q \<noteq> n) l"
  obtain q rest where d: "dropWhile (\<lambda>q. node q \<noteq> n) l = q # rest"
    using assms(1) by (auto simp: relink_def split: list.splits)
  have l: "l = ?T @ q # rest" by (metis d takeWhile_dropWhile_id)
  have q: "node q = n" using hd_dropWhile [of "\<lambda>q. node q \<noteq> n" l] d by auto
  have "count (image_mset node (mset rest)) n = 0" using assms(2) q by (subst (asm) l) simp
  then have n: "n \<notin> node ` set rest" by (rule node_absent)
  have t: "n \<notin> node ` set ?T" by (auto dest: set_takeWhileD)
  define front where "front = (case trail of None \<Rightarrow> [] | Some x \<Rightarrow> rev (dropWhile (\<lambda>q. node q \<noteq> x) (rev ?T)))"
  have l': "l' = front @ rest" using assms(1) by (auto simp: relink_def d front_def split: option.splits list.splits)
  have "mset front \<subseteq># mset ?T" using dropWhile_mset [of _ "rev ?T"] by (cases trail) (simp_all add: front_def)
  moreover have "mset l = mset ?T + add_mset q (mset rest)" by (metis l mset_append mset.simps(2))
  ultimately have "mset l' \<subseteq># mset ?T + mset rest" "mset ?T + mset rest \<subseteq># mset l" by (simp_all add: l')
  then show "mset l' \<subseteq># mset l" by (rule subset_mset.order_trans)
  have "set front \<subseteq> set ?T" using \<open>mset front \<subseteq># mset ?T\<close> by (meson set_mset_mono set_mset_mset subset_eq mset_subset_eqD in_multiset_in_set)
  then show "n \<notin> node ` set l'" using n t by (auto simp: l')
qed

lemma relink_keys: "relink trail n l = Some l' \<Longrightarrow> count (image_mset node (mset l)) n \<le> 1 \<Longrightarrow> kl l' \<subseteq># kl l"
  unfolding kl_def by (intro image_mset_subseteq_mono relink_mset(1))

lemma run_inv_once:
  assumes "run_inv m s s'"
  shows "count (image_mset node (mset (qwait s'))) n \<le> 1" "count (image_mset node (mset (qsem s'))) n \<le> 1"
proof -
  have "count (image_mset fst (keys s')) n + count (frozen_nodes s') n \<le> of_bool (n < fresh s')"
    using assms pid_invD(3) unfolding run_inv_def by blast
  also have "\<dots> \<le> (1 :: nat)" by simp
  finally show "count (image_mset node (mset (qwait s'))) n \<le> 1" "count (image_mset node (mset (qsem s'))) n \<le> 1"
    by (simp_all add: keys_def)
qed

lemma with_pid_append: "with_pid k (l @ m) = (case with_pid k l of None \<Rightarrow> with_pid k m | Some p \<Rightarrow> Some p)"
  by (induction l) (simp_all add: with_pid_def)

lemma with_pid_mem: "with_pid k l = Some p \<Longrightarrow> p \<in> set l"
  by (auto simp: with_pid_def find_Some_iff)

lemma kick_inv [simp]: "queue_inv {} (s\<lparr>kick_pid := k\<rparr>) = queue_inv {} s"
  by (simp add: queue_inv_def keys_def waiters_def frozen_nodes_def)

lemma kick_wait_inv:
  assumes i: "queue_inv {} s" and p: "p \<in> set (qwait s)" and ok: "entry_ok (commands_of D w sc) D w sc pc p s"
    and r: "relink trail (node p) (qwait (execute_entry D w sc pc p s)) = Some l"
  shows "queue_inv {} ((execute_entry D w sc pc p s)\<lparr>qwait := l\<rparr>)"
proof -
  define s1 where "s1 = execute_entry D w sc pc p s"
  have k: "ekey p \<in># keys s" using p kl_mem by (auto simp: keys_def)
  have "count (image_mset node (mset (qsem s))) (node p) = 0" using nodes_le_1 [OF i, of "node p"] count_node_1 [OF p] by linarith
  then have ns: "node p \<notin> node ` set (qsem s)" by (rule node_absent)
  have run: "run_inv (node p) s s1" unfolding s1_def by (rule execute_entry_inv [OF i k kick_absent [OF ns] ok])
  note l = relink_keys [OF r [folded s1_def] run_inv_once(1) [OF run]] relink_mset [OF r [folded s1_def] run_inv_once(1) [OF run]]
  have "run_inv (node p) s (s1\<lparr>qwait := l\<rparr>)"
  proof (rule run_inv_cong [OF run])
    show "keys (s1\<lparr>qwait := l\<rparr>) \<subseteq># keys s1" "waiters (s1\<lparr>qwait := l\<rparr>) \<subseteq># waiters s1"
      using l(1) by (simp_all add: keys_def waiters_def)
    show "waits_from s1 (s1\<lparr>qwait := l\<rparr>)" using set_mset_mono [OF l(2)] by (auto simp: waits_from_def)
  qed (simp_all add: frozen_nodes_def)
  from run_inv_done [OF this] run_inv_absent(2) [OF run ns] l(3) show ?thesis by (simp add: s1_def)
qed

lemma kick_sem_inv:
  assumes i: "queue_inv {} s" and p: "p \<in> set (qsem s)" and ok: "entry_ok (commands_of D w sc) D w sc pc p (s\<lparr>kick_pid := pid p\<rparr>)"
    and r: "relink trail (node p) (qsem (execute_entry D w sc pc p (s\<lparr>kick_pid := pid p\<rparr>))) = Some l"
  shows "queue_inv {} ((execute_entry D w sc pc p (s\<lparr>kick_pid := pid p\<rparr>))\<lparr>qsem := l\<rparr>)"
proof -
  let ?s = "s\<lparr>kick_pid := pid p\<rparr>"
  define s1 where "s1 = execute_entry D w sc pc p ?s"
  have k: "ekey p \<in># keys ?s" using p kl_mem by (auto simp: keys_def)
  have "count (image_mset node (mset (qwait s))) (node p) = 0" using nodes_le_1 [OF i, of "node p"] count_node_1 [OF p] by linarith
  then have nw: "node p \<notin> node ` set (qwait ?s)" using node_absent by simp
  have "kick_known {node p} (kl (qsem ?s)) (kick_pid ?s)"
    using once_same [OF p _ nodes_once1(4) [OF i]] by (auto simp: kick_known_def ekey_def dest!: kl_memE)
  then have run: "run_inv (node p) ?s s1" unfolding s1_def by (intro execute_entry_inv k ok) (simp_all add: i)
  note l = relink_keys [OF r [folded s1_def] run_inv_once(2) [OF run]] relink_mset [OF r [folded s1_def] run_inv_once(2) [OF run]]
  have "run_inv (node p) ?s (s1\<lparr>qsem := l\<rparr>)"
  proof (rule run_inv_cong [OF run])
    show "keys (s1\<lparr>qsem := l\<rparr>) \<subseteq># keys s1" "waiters (s1\<lparr>qsem := l\<rparr>) \<subseteq># waiters s1"
      using l(1) by (simp_all add: keys_def waiters_def)
    show "waits_from s1 (s1\<lparr>qsem := l\<rparr>)" using set_mset_mono [OF l(2)] by (auto simp: waits_from_def)
  qed (simp_all add: frozen_nodes_def)
  from run_inv_done [OF this] run_inv_absent(1) [OF run nw] l(3) show ?thesis by (simp add: s1_def)
qed

lemma ind_pid_func_inv:
  assumes i: "queue_inv {} s" and ok: "kick_ok (commands_of D w sc) D w sc pc k s"
    and r: "ind_pid_func D w sc pc plr k s = Some (n, s')"
  shows "queue_inv {} s'"
proof -
  consider p where "with_pid k (qfirst s) = Some p" | p where "with_pid k (qfirst s) = None" "with_pid k (qlfirst s) = Some p"
    | p where "with_pid k (qfirst s) = None" "with_pid k (qlfirst s) = None" "with_pid k (qwait s) = Some p"
    | "with_pid k (qfirst s) = None" "with_pid k (qlfirst s) = None" "with_pid k (qwait s) = None"
    by (cases "with_pid k (qfirst s)"; cases "with_pid k (qlfirst s)"; cases "with_pid k (qwait s)") auto
  then show ?thesis
  proof cases
    case 1
    have "queue_inv {} (execute_entry D w sc pc p s)"
      by (rule execute_running [OF i]) (use 1 ok with_pid_mem [OF 1] in \<open>simp_all add: kick_ok_def with_pid_append\<close>)
    then show ?thesis using r i 1 by (auto simp: ind_pid_func_def split: if_splits)
  next
    case 2
    have "queue_inv {} (execute_entry D w sc pc p s)"
      by (rule execute_running [OF i]) (use 2 ok with_pid_mem [OF 2(2)] in \<open>simp_all add: kick_ok_def with_pid_append\<close>)
    then show ?thesis using r i 2 by (auto simp: ind_pid_func_def split: if_splits)
  next
    case 3
    have e: "entry_ok (commands_of D w sc) D w sc pc p s" using ok 3 by (simp add: kick_ok_def with_pid_append)
    show ?thesis using r i 3 kick_wait_inv [OF i with_pid_mem [OF 3(3)] e]
      by (auto simp: ind_pid_func_def Let_def split: if_splits)
  next
    case 4
    show ?thesis
    proof (cases "with_pid k (qsem s)")
      case (Some p)
      have e: "entry_ok (commands_of D w sc) D w sc pc p (s\<lparr>kick_pid := pid p\<rparr>)" using ok 4 Some by (simp add: kick_ok_def with_pid_append)
      have c: "queue_inv {} (t\<lparr>kick_pid := - 1, qsem := l\<rparr>) = queue_inv {} (t\<lparr>qsem := l\<rparr>)" for t :: "'a queue_state" and l
        by (simp add: queue_inv_def keys_def waiters_def frozen_nodes_def)
      show ?thesis using r i 4 Some kick_sem_inv [OF i with_pid_mem [OF Some] e]
        by (auto simp: ind_pid_func_def Let_def sem_add_eq c split: if_splits)
    qed (use 4 r i in \<open>simp add: ind_pid_func_def\<close>)
  qed
qed

text \<open>What \<open>@queue/kick\<close> runs.\<close>

definition queue_ok :: "'c effects \<Rightarrow> 'c acache \<Rightarrow> world \<Rightarrow> bool \<Rightarrow> 'c command \<Rightarrow> int \<Rightarrow> int \<Rightarrow> 'c queue_state \<Rightarrow> bool" where
  "queue_ok Q D w sc pc key i s \<longleftrightarrow>
     (if key AND QUEUE_KICK_PID \<noteq> 0 then kick_ok Q D w sc pc i s else top_ok Q D w sc pc (nat i) s)"

lemma do_queue_inv:
  assumes i: "queue_inv {} s"
    and ok: "in_use \<Longrightarrow> key AND QUEUE_KICK \<noteq> 0 \<Longrightarrow> queue_ok (commands_of D w sc) D w sc pc key (atoi arg) (s\<lparr>dequeue := True\<rparr>)"
    and r: "do_queue D w sc pc in_use plr key arg s = Some s'"
  shows "queue_inv {} s'"
proof (cases "in_use \<and> key AND QUEUE_KICK \<noteq> 0")
  case True
  let ?s = "s\<lparr>dequeue := True\<rparr>"
  have d: "queue_inv {} t \<Longrightarrow> queue_inv {} (if dequeue s then t else t\<lparr>dequeue := False\<rparr>)" for t :: "'a queue_state"
    by (simp add: do_second_dequeue)
  have q: "queue_ok (commands_of D w sc) D w sc pc key (atoi arg) ?s" using ok True by simp
  show ?thesis
  proof (cases "key AND QUEUE_KICK_PID \<noteq> 0")
    case kick: True
    then obtain n t where t: "ind_pid_func D w sc pc plr (atoi arg) ?s = Some (n, t)" "s' = (if dequeue s then t else t\<lparr>dequeue := False\<rparr>)"
      using r True by (auto simp: do_queue_def Let_def)
    have "queue_inv {} t" by (rule ind_pid_func_inv [OF _ _ t(1)]) (use q kick i in \<open>simp_all add: queue_ok_def do_second_dequeue\<close>)
    then show ?thesis unfolding t(2) by (rule d)
  next
    case False
    have "queue_inv {} (snd (do_top D w sc pc (atoi arg) ?s))"
      by (rule do_top_inv) (use q False i in \<open>simp_all add: queue_ok_def do_second_dequeue\<close>)
    from d [OF this] show ?thesis using r True False by (simp add: do_queue_def Let_def)
  qed
next
  case False
  then show ?thesis using r i warp_inv [OF i] by (auto simp: do_queue_def Let_def split: if_splits)
qed

subsection \<open>Reachable states\<close>

text \<open>
  What changes the queues: commands from the connections, \<open>@queue\<close>, the timer and the run loop. The commands that
  are run by the loop, or by a kick, are sequences of the steps above; this is asked of each of them in
  the state in which it is run, not of \<open>process_command\<close> as a function.
\<close>

inductive queue_step :: "'c acache \<Rightarrow> world \<Rightarrow> bool \<Rightarrow> 'c command \<Rightarrow> 'c queue_state \<Rightarrow> 'c queue_state \<Rightarrow> bool"
  for D w sc pc where
  command: "command_step {} D w sc s s' \<Longrightarrow> queue_step D w sc pc s s'"
| queue_command: "(in_use \<Longrightarrow> key AND QUEUE_KICK \<noteq> 0 \<Longrightarrow>
      queue_ok (commands_of D w sc) D w sc pc key (atoi arg) (s\<lparr>dequeue := True\<rparr>)) \<Longrightarrow>
    do_queue D w sc pc in_use plr key arg s = Some s' \<Longrightarrow> queue_step D w sc pc s s'"
| clock: "queue_step D w sc pc s (s\<lparr>q_lastnow := q_now s, q_now := tm\<rparr>)"
| second: "queue_step D w sc pc s (do_second D w s)"
| run: "(dequeue s \<Longrightarrow> top_ok (commands_of D w sc) D w sc pc (nat n) s) \<Longrightarrow>
    queue_step D w sc pc s (snd (do_top D w sc pc n s))"

inductive queue_reachable :: "'c acache \<Rightarrow> world \<Rightarrow> bool \<Rightarrow> 'c command \<Rightarrow> 'c queue_state \<Rightarrow> bool"
  for D w sc pc where
  start: "qfirst s = [] \<Longrightarrow> qlfirst s = [] \<Longrightarrow> qwait s = [] \<Longrightarrow> qsem s = [] \<Longrightarrow> fqwait s = [] \<Longrightarrow> fqsem s = [] \<Longrightarrow>
    queue_reachable D w sc pc (init_pid_table s)"
| step: "queue_reachable D w sc pc s \<Longrightarrow> queue_step D w sc pc s s' \<Longrightarrow> queue_reachable D w sc pc s'"

lemma queue_step_inv: "queue_step D w sc pc s s' \<Longrightarrow> queue_inv {} s \<Longrightarrow> queue_inv {} s'"
proof (induction rule: queue_step.induct)
  case (clock s tm)
  show ?case by (rule same_keys_inv [OF clock]) (simp_all add: frozen_nodes_def)
next
  case (queue_command in_use key arg s plr s')
  show ?case by (rule do_queue_inv [OF queue_command(3,1,2)])
next
  case (run s n)
  show ?case by (rule do_top_inv [OF run(2,1)])
qed (simp_all add: command_step_inv do_second_inv)

lemma queue_reachable_inv: "queue_reachable D w sc pc s \<Longrightarrow> queue_inv {} s"
proof (induction rule: queue_reachable.induct)
  case (start s)
  then show ?case
    by (simp add: queue_inv_def init_pid_table_def keys_def waiters_def waiters_ok_def frozen_nodes_def pid_inv_def MUMAXPID_def)
next
  case (step s s')
  show ?case by (rule queue_step_inv [OF step(2) step.IH])
qed

text \<open>The process ids of the entries that can run.\<close>

definition live_pids :: "'c queue_state \<Rightarrow> int list" where
  "live_pids s = map pid (filter (\<lambda>p. player p \<noteq> NOTHING) (qfirst s @ qlfirst s @ qwait s @ qsem s))"

lemma kpids_live: "kpids {} (kl l) = mset (map pid (filter (\<lambda>p. player p \<noteq> NOTHING) l))"
  by (induction l) (simp_all add: ekey_def)

lemma live_pids_mset: "mset (live_pids s) = kpids {} (keys s)"
  by (simp add: live_pids_def keys_def kpids_live)

lemma queue_inv_pids:
  assumes "queue_inv {} s"
  shows "distinct (live_pids s) \<and> (\<forall>k\<in>set (live_pids s). 0 \<le> k \<and> k \<le> MUMAXPID \<and> pid_table s k) \<and>
    (\<forall>p\<in>set (qwait s) \<union> set (qsem s). player p \<noteq> NOTHING)"
proof (intro conjI ballI)
  have c: "count (mset (live_pids s)) k \<le> of_bool (0 \<le> k \<and> k \<le> MUMAXPID \<and> pid_table s k)" for k
    using pid_invD(1) [OF queue_invD(1) [OF assms], of k] by (simp add: live_pids_mset)
  have "count (mset (live_pids s)) k \<le> 1" for k by (rule le_trans [OF c]) simp
  then show "distinct (live_pids s)"
    by (metis One_nat_def count_greater_zero_iff distinct_count_atmost_1 le_antisym less_eq_Suc_le set_mset_mset count_eq_zero_iff not_gr_zero)
  show "0 \<le> k" "k \<le> MUMAXPID" "pid_table s k" if "k \<in> set (live_pids s)" for k
    using c [of k] that by (auto simp: of_bool_def count_mset_0_iff split: if_splits)
  show "player p \<noteq> NOTHING" if "p \<in> set (qwait s) \<union> set (qsem s)" for p
    using waiting_live [OF assms that] by simp
qed

text \<open>
  C5: in every state that the server reaches by commands from the connections, \<open>@queue\<close>, the timer and the
  run loop, no two entries of the queues that can still run share a process id; the ids of all of them
  are between 0 and \<open>MUMAXPID\<close> and marked as taken, and no entry that waits for a time or a semaphore is
  marked as halted. The commands, those of the entries included, may queue, wait, notify, halt, freeze, thaw and
  warp in any order, except that what halts the entries of \<open>GOD\<close> must not come upon one that is marked or
  being run (the guards of \<open>command_step\<close>), and that a kick does not end in the use of freed memory.
\<close>

theorem pids_unique:
  assumes "queue_reachable D w sc pc s"
  shows "distinct (live_pids s) \<and> (\<forall>k\<in>set (live_pids s). 0 \<le> k \<and> k \<le> MUMAXPID \<and> pid_table s k) \<and>
    (\<forall>p\<in>set (qwait s) \<union> set (qsem s). player p \<noteq> NOTHING)"
  by (rule queue_inv_pids [OF queue_reachable_inv [OF assms]])

text \<open>
  Two commands of player 5, one of them to be run in ten seconds. The interpreter \<open>again_command\<close> queues
  every command that it is given once more, to be run after twenty seconds.
\<close>

definition sample_world :: world where
  "sample_world = \<lparr>w_g = sample_db\<lparr>g_Owner := (\<lambda>x. if x = 5 then 5 else 1)\<rparr>, w_cf = sample_conf, w_OwnsOthers = (\<lambda>_. False),
     w_Builder = (\<lambda>_. True), w_FreeFlag = (\<lambda>_. True), w_DePrivFree = (\<lambda>_. False), w_Recover = (\<lambda>_. False), w_Going = (\<lambda>_. False),
     w_Typeof = (\<lambda>x. if x = 5 then TYPE_PLAYER else 1), w_InProgram = (\<lambda>_. False), w_Immortal = (\<lambda>_. False),
     w_Controls = (=), w_HaltPriv = (\<lambda>_ _. False), w_db_top = 10, queuemax = 100, wizqueuemax = 1000,
     waitcost = 10, machinecost = 64, queue_compatible = False\<rparr>"

definition empty_queue :: "'c pcache_state \<Rightarrow> 'c queue_state" where
  "empty_queue p = \<lparr>pst = p, qfirst = [], qlast = False, qlfirst = [], qllast = False, qwait = [], qsem = [], fqwait = [],
     fqsem = [], pid_table = (\<lambda>_. False), last_pid = 0, kick_pid = - 1, fresh = 0, q_now = 100, q_lastnow = 100,
     breakst = False, force_halt = False, curr_enactor = - 1, curr_player = - 1, global_regs = [], global_regsname = [],
     dequeue = True, interp = True, counters = []\<rparr>"

definition again_command :: "'c acache \<Rightarrow> 'c command" where
  "again_command D plr cau cp vars n sh s = wait_que D sample_world (q_now s) 1 plr cau 20 NOTHING (Some cp) vars n [] [] s"

definition one_queued :: "'c acache \<Rightarrow> 'c pcache_state \<Rightarrow> 'c queue_state" where
  "one_queued D p = wait_que D sample_world 100 1 5 5 0 NOTHING (Some ''say hi'') [] 0 [] [] (init_pid_table (empty_queue p))"

definition two_queued :: "'c acache \<Rightarrow> 'c pcache_state \<Rightarrow> 'c queue_state" where
  "two_queued D p = wait_que D sample_world 100 1 5 5 10 NOTHING (Some ''look'') [] 0 [] [] (one_queued D p)"

definition sample_entry :: "nat \<Rightarrow> int \<Rightarrow> int \<Rightarrow> string \<Rightarrow> BQUE" where
  "sample_entry n k t c = \<lparr>node = n, player = 5, cause = 5, sem = NOTHING, waittime = t, comm = Some c,
     env = replicate NUM_ENV_VARS None, scr = replicate MAX_GLOBAL_REGS None, scrname = replicate MAX_GLOBAL_REGS None, nargs = 0,
     pid = k, stop_bool = 0, stop_bool_val = 0, shellprg = False, plr_type = 0\<rparr>"

lemmas queue_one = wait_que_def setup_que_def Halted_def q_payfor_def payfor_def no_free_def QueueMax_def q_a_Queue_def a_Queue_def
  find_pid_def MUMAXPID_def first_free.simps give_que_def Let_def

lemma padded_nil: "padded n [] = replicate n None"
  by (simp add: padded_def)

lemma one_queued_is:
  assumes "Flags (adb p) 5 = 0"
  shows "one_queued D p = (empty_queue p)\<lparr>qfirst := [sample_entry 0 0 0 ''say hi''], qlast := True, pid_table := (\<lambda>_. False)(0 := True),
      last_pid := 0, fresh := 1\<rparr>"
  using assms by (simp add: one_queued_def queue_one init_pid_table_def empty_queue_def sample_world_def sample_db_def sample_entry_def padded_nil)

lemma two_queued_is:
  assumes "Flags (adb p) 5 = 0"
  shows "two_queued D p = (empty_queue p)\<lparr>qfirst := [sample_entry 0 0 0 ''say hi''], qlast := True,
      qwait := [sample_entry 1 1 110 ''look''], pid_table := (\<lambda>_. False)(0 := True, 1 := True), last_pid := 1, fresh := 2\<rparr>"
  unfolding two_queued_def one_queued_is [OF assms] using assms
  by (simp add: queue_one empty_queue_def sample_world_def sample_db_def sample_entry_def padded_nil)

lemma say_pieces: "pieces True (Some ''say hi'') = [''say hi'']"
proof -
  have "parse_to True (Some ''say hi'') (CHR '';'') 0 = (Some ''say hi'', None)" by code_simp
  then show ?thesis by (simp add: pieces.simps [of True "Some ''say hi''"] pieces.simps [of True None])
qed

lemma look_pieces: "pieces True (Some ''look'') = [''look'']"
proof -
  have "parse_to True (Some ''look'') (CHR '';'') 0 = (Some ''look'', None)" by code_simp
  then show ?thesis by (simp add: pieces.simps [of True "Some ''look''"] pieces.simps [of True None])
qed

text \<open>One second later the first command is run, and is queued again.\<close>

definition after_clock :: "'c acache \<Rightarrow> 'c pcache_state \<Rightarrow> 'c queue_state" where
  "after_clock D p = (two_queued D p)\<lparr>q_lastnow := q_now (two_queued D p), q_now := 101\<rparr>"

definition requeued :: "'c acache \<Rightarrow> 'c pcache_state \<Rightarrow> 'c queue_state" where
  "requeued D p = snd (do_top D sample_world True (again_command D) 1 (after_clock D p))"

lemma after_clock_is:
  assumes "Flags (adb p) 5 = 0"
  shows "after_clock D p = (empty_queue p)\<lparr>qfirst := [sample_entry 0 0 0 ''say hi''], qlast := True,
      qwait := [sample_entry 1 1 110 ''look''], pid_table := (\<lambda>_. False)(0 := True, 1 := True), last_pid := 1, fresh := 2, q_now := 101\<rparr>"
  by (simp add: after_clock_def two_queued_is [OF assms] empty_queue_def)

lemma sample_entry_fields [simp]:
  "player (sample_entry n k t c) = 5" "cause (sample_entry n k t c) = 5" "env (sample_entry n k t c) = replicate NUM_ENV_VARS None"
  "nargs (sample_entry n k t c) = 0" "shellprg (sample_entry n k t c) = False" "comm (sample_entry n k t c) = Some c"
  "node (sample_entry n k t c) = n" "pid (sample_entry n k t c) = k" "waittime (sample_entry n k t c) = t"
  "stop_bool (sample_entry n k t c) = 0" "scr (sample_entry n k t c) = replicate MAX_GLOBAL_REGS None"
  "scrname (sample_entry n k t c) = replicate MAX_GLOBAL_REGS None" "sem (sample_entry n k t c) = NOTHING"
  by (simp_all add: sample_entry_def)

lemma sample_exists: "exists_now sample_world (sample_entry n k t c)"
  by (simp add: exists_now_def sample_world_def)

lemma sample_begun_is:
  "begun D sample_world (sample_entry n k t c) s = (free_pid k (set_player n 0 s))\<lparr>curr_enactor := 5, curr_player := 5\<rparr>"
  by (simp add: begun_def free_pid_def set_player_def Let_def refund_def count_queue_def q_a_Queue_def a_Queue_def sample_world_def sample_db_def)

lemma sample_run_one:
  assumes "qfirst s = [sample_entry n k t c]" "dequeue s" "Flags (adb (pst s)) 5 = 0" "pieces True (Some c) = [c]"
  shows "snd (do_top D sample_world True pc 1 s) =
    (popped (set_player n NOTHING (pc 5 5 c (replicate NUM_ENV_VARS None) 0 False
      (with_regs (sample_entry n k t c) (begun D sample_world (sample_entry n k t c) s)))))
    \<lparr>global_regs := replicate MAX_GLOBAL_REGS [], global_regsname := replicate MAX_GLOBAL_REGS []\<rparr>"
proof -
  let ?e = "sample_entry n k t c"
  have "awake ?e (begun D sample_world ?e s)"
    using assms(3) by (simp add: awake_def Halted_def sample_begun_is free_pid_def set_player_def Let_def)
  moreover have "\<not> breakst (with_regs ?e u)" for u :: "'a queue_state" by (simp add: with_regs_def)
  ultimately have "execute_entry D sample_world True pc ?e s = set_player n NOTHING (pc 5 5 c (replicate NUM_ENV_VARS None) 0 False
      (with_regs ?e (begun D sample_world ?e s)))"
    using assms(4) by (simp add: execute_entry_eq sample_exists)
  moreover have "top_loop D sample_world True pc (Suc 0) s = (1, popped (execute_entry D sample_world True pc ?e s))"
    using assms(1) by (simp add: popped_def Let_def)
  ultimately show ?thesis using assms(2) by (simp add: do_top_def)
qed

text \<open>The first command, run in the state after the clock.\<close>

definition say_run :: "'c acache \<Rightarrow> 'c pcache_state \<Rightarrow> 'c queue_state" where
  "say_run D p = with_regs (sample_entry 0 0 0 ''say hi'') (begun D sample_world (sample_entry 0 0 0 ''say hi'') (after_clock D p))"

lemma say_again:
  assumes "Flags (adb p) 5 = 0"
  shows "again_command D 5 5 ''say hi'' (replicate NUM_ENV_VARS None) 0 False (say_run D p) =
    (say_run D p)\<lparr>qwait := [sample_entry 1 1 110 ''look'', sample_entry 2 2 121 ''say hi''],
      pid_table := (\<lambda>_. False)(1 := True, 2 := True), last_pid := 2, fresh := 3\<rparr>"
  unfolding say_run_def sample_begun_is after_clock_is [OF assms] using assms
  by (simp add: again_command_def queue_one with_regs_def empty_queue_def sample_world_def sample_db_def sample_entry_def padded_def
    free_pid_def set_player_def set_node_def fun_eq_iff)

lemma requeued_is:
  assumes "Flags (adb p) 5 = 0"
  shows "requeued D p = (empty_queue p)\<lparr>qwait := [sample_entry 1 1 110 ''look'', sample_entry 2 2 121 ''say hi''],
      pid_table := (\<lambda>_. False)(1 := True, 2 := True), last_pid := 2, fresh := 3, q_now := 101, curr_enactor := 5, curr_player := 5,
      global_regs := replicate MAX_GLOBAL_REGS [], global_regsname := replicate MAX_GLOBAL_REGS []\<rparr>"
proof -
  have s: "qfirst (after_clock D p) = [sample_entry 0 0 0 ''say hi'']" "dequeue (after_clock D p)" "Flags (adb (pst (after_clock D p))) 5 = 0"
    using assms by (simp_all add: after_clock_is [OF assms] empty_queue_def)
  show ?thesis
    unfolding requeued_def sample_run_one [OF s say_pieces] say_run_def [symmetric] say_again [OF assms]
    unfolding say_run_def sample_begun_is after_clock_is [OF assms]
    by (simp add: with_regs_def empty_queue_def free_pid_def set_player_def set_node_def Let_def popped_def)
qed

lemma requeued_pids: "Flags (adb p) 5 = 0 \<Longrightarrow> live_pids (requeued D p) = [1, 2]"
  by (simp add: requeued_is empty_queue_def live_pids_def)

lemma sample_ordinary: "ordinary sample_world (Owner sample_world 5)" "Owner sample_world 5 = 5"
  by (simp_all add: ordinary_def sample_world_def sample_db_def)

lemma one_queued_reachable: "queue_reachable D sample_world sc pc (one_queued D p)"
proof -
  have 0: "queue_reachable D sample_world sc pc (init_pid_table (empty_queue p))"
    by (rule queue_reachable.start) (simp_all add: empty_queue_def)
  show ?thesis unfolding one_queued_def
    by (intro queue_reachable.step [OF 0] queue_step.command command_step.wait) (simp_all add: sample_ordinary(1))
qed

lemma two_queued_reachable: "queue_reachable D sample_world sc pc (two_queued D p)"
  unfolding two_queued_def
  by (intro queue_reachable.step [OF one_queued_reachable [where p = p]] queue_step.command command_step.wait) (simp_all add: sample_ordinary(1))

lemma again_ok: "commands_of D sample_world sc n s (again_command D 5 cau cp vars k sh s)"
  unfolding again_command_def by (intro r_into_rtranclp command_step.wait) (simp_all add: sample_ordinary(1))

lemma requeued_reachable:
  assumes "Flags (adb p) 5 = 0"
  shows "queue_reachable D sample_world True (again_command D) (requeued D p)"
  unfolding requeued_def
proof (rule queue_reachable.step [OF queue_reachable.step [OF two_queued_reachable [where p = p] queue_step.clock [where tm = 101]],
      folded after_clock_def], rule queue_step.run)
  have "entry_ok (commands_of D sample_world True) D sample_world True (again_command D) (sample_entry 0 0 0 ''say hi'') (after_clock D p)"
    by (simp add: entry_ok_def say_pieces again_ok)
  then show "top_ok (commands_of D sample_world True) D sample_world True (again_command D) (nat 1) (after_clock D p)"
    by (simp add: after_clock_is [OF assms] empty_queue_def)
qed

theorem pids_unique_witness:
  "distinct (live_pids (requeued cached (pcache_init attrs_start))) \<and> live_pids (requeued cached (pcache_init attrs_start)) = [1, 2] \<and>
   pid_table (requeued cached (pcache_init attrs_start)) 2"
proof -
  let ?p = "pcache_init attrs_start"
  have f: "Flags (adb ?p) 5 = 0" by (simp add: attrs_start_def pcache_init_def)
  show ?thesis using pids_unique [OF requeued_reachable [OF f, where D = cached]] requeued_pids [OF f, where D = cached] by simp
qed

text \<open>
  The guards are needed. A command of player 5 is halted with all the others, and the next one gets its
  process id, since the numbers begin again; a halt of \<open>GOD\<close> then finds the halted entry, which is still in its
  list, and gives the process id back that the waiting command has.
\<close>

definition after_halt :: "'c acache \<Rightarrow> 'c pcache_state \<Rightarrow> 'c queue_state" where
  "after_halt D p = wait_que D sample_world 100 1 5 5 10 NOTHING (Some ''look'') [] 0 [] [] (snd (halt_que_all D sample_world (one_queued D p)))"

lemma god_halt_frees_taken_pid:
  assumes "Flags (adb p) 5 = 0"
  shows "queue_reachable D sample_world sc pc (after_halt D p)" "live_pids (after_halt D p) = [0]"
    "live_pids (snd (halt_que D sample_world (Owner sample_world NOTHING) NOTHING (after_halt D p))) = [0]"
    "\<not> pid_table (snd (halt_que D sample_world (Owner sample_world NOTHING) NOTHING (after_halt D p))) 0"
proof -
  have 1: "queue_reachable D sample_world sc pc (snd (halt_que_all D sample_world (one_queued D p)))"
    by (rule queue_reachable.step [OF one_queued_reachable queue_step.command [OF command_step.halt_all]])
  show "queue_reachable D sample_world sc pc (after_halt D p)" unfolding after_halt_def
    by (intro queue_reachable.step [OF 1] queue_step.command command_step.wait) (simp_all add: sample_ordinary(1))
  define e where "e = sample_entry 0 0 0 ''say hi''"
  have h: "snd (halt_que_all D sample_world (one_queued D p)) =
      (empty_queue p)\<lparr>qfirst := [e\<lparr>player := NOTHING\<rparr>], last_pid := MUMAXPID, fresh := 1\<rparr>"
    unfolding one_queued_is [OF assms]
    by (simp add: halt_que_all_def Let_def init_pid_table_def mark_dead_def empty_queue_def e_def sample_entry_def refund_def count_queue_def
      q_a_Queue_def a_Queue_def sample_world_def sample_db_def)
  have a: "after_halt D p = (empty_queue p)\<lparr>qfirst := [e\<lparr>player := NOTHING\<rparr>], qwait := [sample_entry 1 0 110 ''look''],
      pid_table := (\<lambda>_. False)(0 := True), last_pid := 0, fresh := 2\<rparr>"
    unfolding after_halt_def h using assms
    by (simp add: queue_one empty_queue_def sample_world_def sample_db_def sample_entry_def padded_nil)
  show "live_pids (after_halt D p) = [0]" by (simp add: a live_pids_def empty_queue_def sample_entry_def)
  have w: "que_want sample_world (Owner sample_world NOTHING) NOTHING (e\<lparr>player := NOTHING\<rparr>)"
    "\<not> que_want sample_world (Owner sample_world NOTHING) NOTHING (sample_entry 1 0 110 ''look'')"
    by (simp_all add: que_want_def sample_world_def sample_db_def sample_entry_def)
  show "live_pids (snd (halt_que D sample_world (Owner sample_world NOTHING) NOTHING (after_halt D p))) = [0]"
    "\<not> pid_table (snd (halt_que D sample_world (Owner sample_world NOTHING) NOTHING (after_halt D p))) 0"
    using w by (simp_all add: a halt_que_def halt_entries_def Let_def empty_queue_def mark_dead_def pst_only free_pid_def live_pids_def
      e_def sample_entry_def)
qed

end
