(* ===== verification/Cque_Live.thy ===== *)
theory Cque_Live
  imports Cque_Run
begin

section \<open>The command queue: waiting commands are run\<close>

text \<open>
  The turns of the main loop (\<open>shovechars\<close> of bsd.c): \<open>dispatch\<close> of timer.c, which calls \<open>do_second\<close> after
  an alarm, and then \<open>do_top\<close>. An entry whose time has come moves to a run queue and forward in
  it until it is run; entries that wait for a semaphore are released in their order.
\<close>

subsection \<open>Turns\<close>

text \<open>
  The timer counts in \<open>counters\<close>. \<open>dispatch\<close> runs the tasks that are due: a check of the database,
  a dump and a look for idle players, which are functions of the configuration here, as is
  \<open>local_second\<close>. The statistics of \<open>getrusage\<close> and the RWHO client are left out.
\<close>

definition DUMP_COUNTER :: nat where "DUMP_COUNTER = 0"
definition IDLE_COUNTER :: nat where "IDLE_COUNTER = 1"
definition CHECK_COUNTER :: nat where "CHECK_COUNTER = 2"
definition MSTATS_COUNTER :: nat where "MSTATS_COUNTER = 3"
definition RWHO_COUNTER :: nat where "RWHO_COUNTER = 4"

record 'c timer_conf =
  cf_dbcheck :: bool
  cf_checkpoint :: bool
  cf_idlecheck :: bool
  dump_interval :: int
  dump_offset :: int
  check_interval :: int
  check_offset :: int
  idle_interval :: int
  rwho_interval :: int
  local_second :: "'c queue_state \<Rightarrow> 'c queue_state"
  check_task :: "'c queue_state \<Rightarrow> 'c queue_state"
  dump_task :: "'c queue_state \<Rightarrow> 'c queue_state"
  idle_task :: "'c queue_state \<Rightarrow> 'c queue_state"

text \<open>The code says \<open>result =- mudstate.now\<close>, which throws the least counter away.\<close>

definition next_timer :: "'c queue_state \<Rightarrow> int" where
  "next_timer s =
     (let result = counters s ! DUMP_COUNTER;
          result = (if counters s ! CHECK_COUNTER < result then counters s ! CHECK_COUNTER else result);
          result = (if counters s ! IDLE_COUNTER < result then counters s ! IDLE_COUNTER else result);
          result = (if counters s ! RWHO_COUNTER < result then counters s ! RWHO_COUNTER else result);
          result = (if counters s ! MSTATS_COUNTER < result then counters s ! MSTATS_COUNTER else result);
          result = - q_now s
      in if result \<le> 0 then 1 else result)"

lemma next_timer_one: "0 \<le> q_now s \<Longrightarrow> next_timer s = 1"
  by (simp add: next_timer_def Let_def)

definition init_timer :: "'c timer_conf \<Rightarrow> int \<Rightarrow> 'c queue_state \<Rightarrow> 'c queue_state" where
  "init_timer cf tm s =
     s\<lparr>q_lastnow := q_now s, q_now := tm,
       counters := (counters s)
         [DUMP_COUNTER := (if dump_offset cf = 0 then dump_interval cf else dump_offset cf) + tm,
          CHECK_COUNTER := (if check_offset cf = 0 then check_interval cf else check_offset cf) + tm,
          IDLE_COUNTER := idle_interval cf + tm, RWHO_COUNTER := rwho_interval cf + tm, MSTATS_COUNTER := 15 + tm]\<rparr>"

definition when_due ::
  "bool \<Rightarrow> nat \<Rightarrow> int \<Rightarrow> ('c queue_state \<Rightarrow> 'c queue_state) \<Rightarrow> 'c queue_state \<Rightarrow> 'c queue_state" where
  "when_due on c interval task s =
     (if on \<and> counters s ! c \<le> q_now s then task (s\<lparr>counters := (counters s)[c := interval + q_now s]\<rparr>) else s)"

definition timer_tasks :: "'c timer_conf \<Rightarrow> 'c queue_state \<Rightarrow> 'c queue_state" where
  "timer_tasks cf s =
     when_due (cf_idlecheck cf) IDLE_COUNTER (idle_interval cf) (idle_task cf)
       (when_due (cf_checkpoint cf) DUMP_COUNTER (dump_interval cf) (dump_task cf)
         (when_due (cf_dbcheck cf) CHECK_COUNTER (check_interval cf) (check_task cf) (local_second cf s)))"


subsection \<open>What leaves an entry alone\<close>

definition linked :: "'c queue_state \<Rightarrow> bool" where
  "linked s \<longleftrightarrow> (qlast s \<longleftrightarrow> qfirst s \<noteq> []) \<and> (qllast s \<longleftrightarrow> qlfirst s \<noteq> [])"

definition stays :: "nat \<Rightarrow> BQUE list \<Rightarrow> BQUE list \<Rightarrow> bool" where
  "stays n l l' \<longleftrightarrow> (\<forall>i<length l. node (l ! i) = n \<longrightarrow> i < length l' \<and> l' ! i = l ! i)"

definition spares :: "nat \<Rightarrow> 'c queue_state \<Rightarrow> 'c queue_state \<Rightarrow> bool" where
  "spares n s s' \<longleftrightarrow> (linked s \<longrightarrow> linked s' \<and> stays n (qfirst s) (qfirst s') \<and> stays n (qlfirst s) (qlfirst s') \<and>
     (\<forall>p\<in>set (qwait s). node p = n \<longrightarrow> p \<in> set (qwait s')) \<and> dequeue s' = dequeue s)"

lemma stays_refl [simp]: "stays n l l"
  by (simp add: stays_def)

lemma stays_append [simp]: "stays n l (l @ m)"
  by (simp add: stays_def nth_append)

lemma stays_trans: "stays n l l1 \<Longrightarrow> stays n l1 l2 \<Longrightarrow> stays n l l2"
  by (auto simp: stays_def)

lemma spares_refl [simp]: "spares n s s"
  by (simp add: spares_def)

lemma spares_trans: "spares n s s1 \<Longrightarrow> spares n s1 s2 \<Longrightarrow> spares n s s2"
  unfolding spares_def using stays_trans by blast



lemma spares_same:
  "qfirst s' = qfirst s \<Longrightarrow> qlfirst s' = qlfirst s \<Longrightarrow> qlast s' = qlast s \<Longrightarrow> qllast s' = qllast s \<Longrightarrow> qwait s' = qwait s \<Longrightarrow>
    dequeue s' = dequeue s \<Longrightarrow> spares n s s'"
  by (simp add: spares_def linked_def)





subsection \<open>The run loop\<close>





lemma popped_fields [simp]:
  "qfirst (popped s) = tl (qfirst s)" "qlfirst (popped s) = qlfirst s" "qwait (popped s) = qwait s" "dequeue (popped s) = dequeue s"
  by (simp_all add: popped_def Let_def)


text \<open>What the run loop needs to know: the invariants, and that the entry is run by nothing else.\<close>

definition queues_ok :: "'c queue_state \<Rightarrow> bool" where
  "queues_ok s \<longleftrightarrow> queue_inv {} s \<and> linked s \<and> dequeue s"



text \<open>Where the entry can be: in the wait queue, or at a place of a run queue.\<close>





subsection \<open>The timer\<close>

lemma give_que_places:
  assumes "linked s"
  shows "linked (give_que w q s)" "\<exists>m. qfirst (give_que w q s) = qfirst s @ m" "\<exists>m. qlfirst (give_que w q s) = qlfirst s @ m"
    "q\<lparr>waittime := 0\<rparr> \<in> set (qfirst (give_que w q s)) \<union> set (qlfirst (give_que w q s))" "dequeue (give_que w q s) = dequeue s"
  using assms by (auto simp: give_que_def Let_def linked_def)








subsection \<open>A turn of the main loop\<close>


text \<open>What the periodic tasks, and the commands of the connections, do: they leave the entry alone.\<close>

definition harmless :: "'c acache \<Rightarrow> world \<Rightarrow> bool \<Rightarrow> nat \<Rightarrow> 'c queue_state \<Rightarrow> 'c queue_state \<Rightarrow> bool" where
  "harmless D w sc n s s' \<longleftrightarrow> (command_step {} D w sc)\<^sup>*\<^sup>* s s' \<and> spares n s s'"

lemma harmless_refl [simp]: "harmless D w sc n s s"
  by (simp add: harmless_def)




lemma queues_ok_regs [simp]: "queues_ok (s\<lparr>global_regs := gr, global_regsname := gn\<rparr>) = queues_ok s"
  by (simp add: queues_ok_def linked_def queue_inv_def keys_def waiters_def frozen_nodes_def)



subsection \<open>Operations that leave other entries alone\<close>

text \<open>
  Queueing and notifying, and halting another owner or object, leave an entry alone. Queueing
  halts the entries of the same owner when there are too many of them, and everything when
  no process id is left.
\<close>

lemma pay_run_fields [simp]:
  "qfirst (refund D w o1 o2 m s) = qfirst s" "qlfirst (refund D w o1 o2 m s) = qlfirst s" "qlast (refund D w o1 o2 m s) = qlast s"
  "qllast (refund D w o1 o2 m s) = qllast s" "dequeue (refund D w o1 o2 m s) = dequeue s"
  "qfirst (count_queue D w o1 k s) = qfirst s" "qlfirst (count_queue D w o1 k s) = qlfirst s" "qlast (count_queue D w o1 k s) = qlast s"
  "qllast (count_queue D w o1 k s) = qllast s" "dequeue (count_queue D w o1 k s) = dequeue s"
  "qfirst (sem_add D w th k s) = qfirst s" "qlfirst (sem_add D w th k s) = qlfirst s" "qlast (sem_add D w th k s) = qlast s"
  "qllast (sem_add D w th k s) = qllast s" "dequeue (sem_add D w th k s) = dequeue s"
  "qfirst (free_pid j s) = qfirst s" "qlfirst (free_pid j s) = qlfirst s" "qlast (free_pid j s) = qlast s"
  "qllast (free_pid j s) = qllast s" "dequeue (free_pid j s) = dequeue s"
  by (simp_all add: pst_only free_pid_def)

lemma fold_sem_free_runs:
  "qfirst (fold (\<lambda>p s. sem_add D w (sem p) (- 1) (free_pid (pid p) s)) l s) = qfirst s"
  "qlfirst (fold (\<lambda>p s. sem_add D w (sem p) (- 1) (free_pid (pid p) s)) l s) = qlfirst s"
  "qlast (fold (\<lambda>p s. sem_add D w (sem p) (- 1) (free_pid (pid p) s)) l s) = qlast s"
  "qllast (fold (\<lambda>p s. sem_add D w (sem p) (- 1) (free_pid (pid p) s)) l s) = qllast s"
  "dequeue (fold (\<lambda>p s. sem_add D w (sem p) (- 1) (free_pid (pid p) s)) l s) = dequeue s"
  by (induction l arbitrary: s) simp_all

lemma stays_mark_dead: "\<forall>p\<in>set l. node p = n \<longrightarrow> \<not> P p \<Longrightarrow> stays n l (mark_dead P l)"
  by (simp add: stays_def mark_dead_def)

lemma mark_dead_nil [simp]: "mark_dead P l = [] \<longleftrightarrow> l = []"
  by (simp add: mark_dead_def)

lemma halt_que_spares:
  assumes "\<forall>p\<in>set (qfirst s) \<union> set (qlfirst s) \<union> set (qwait s). node p = n \<longrightarrow> \<not> que_want w plr obj p"
  shows "spares n s (snd (halt_que D w plr obj s))"
  using assms
  by (auto simp: spares_def linked_def stays_mark_dead halt_que_def halt_entries_def Let_def split_def fold_free fold_sem_free_runs
    fold_sem_free_waits)

lemma give_que_spares: "spares n s s' \<Longrightarrow> spares n s (give_que w p s')"
  unfolding spares_def using give_que_places [of s'] stays_trans stays_append by (metis give_que_fields(1))

lemma nfy_loop_spares:
  "nfy_loop D w sem1 key cnt pv l num s = (l1, n1, s1) \<Longrightarrow> spares n s s1"
proof (induction l arbitrary: num s l1 n1 s1)
  case (Cons p l)
  define hit where "hit \<longleftrightarrow> sem p = sem1 \<and> (pv = - 1 \<or> pid p = pv) \<and> pid p \<noteq> kick_pid s"
  define num1 where "num1 = (if hit then num + 1 else num)"
  define s2 where "s2 = (if \<not> hit then s
                else if key \<noteq> NFY_DRAIN then give_que w p s
                else free_pid (pid p) (if player p \<noteq> NOTHING then
                              count_queue D w (Owner w (player p)) (- 1)
                                (refund D w (Owner w (player p)) (player p) (waitcost w) s)
                            else s))"
  define keep where "keep = (if hit then [] else [p])"
  have s2: "spares n s s2" unfolding s2_def by (auto intro: give_que_spares spares_same)
  have u: "nfy_loop D w sem1 key cnt pv (p # l) num s =
      (if key = NFY_NFY \<and> num1 \<ge> cnt then (keep @ l, num1, s2)
       else case nfy_loop D w sem1 key cnt pv l num1 s2 of (l2, n, s3) \<Rightarrow> (keep @ l2, n, s3))"
    by (simp add: Let_def hit_def num1_def s2_def keep_def)
  show ?case
  proof (cases "key = NFY_NFY \<and> num1 \<ge> cnt")
    case True
    then show ?thesis using Cons.prems [unfolded u if_P [OF True]] s2 by auto
  next
    case False
    then obtain l2 where l2: "nfy_loop D w sem1 key cnt pv l num1 s2 = (l2, n1, s1)"
      using Cons.prems [unfolded u if_not_P [OF False]] by (metis (no_types, lifting) case_prod_conv prod.collapse prod.inject)
    from Cons.IH [OF l2] show ?thesis using s2 spares_trans by blast
  qed
qed simp

lemma nfy_que_spares: "spares n s (snd (nfy_que D w sem1 key cnt pv s))"
proof -
  obtain str o1 fl a where g: "atr_get D (w_g w) sem1 A_SEMAPHORE (adb (pst s)) = ((str, o1, fl), a)"
    by (metis prod.collapse)
  let ?s = "s\<lparr>pst := (pst s)\<lparr>adb := a\<rparr>\<rparr>"
  obtain l num s2 where l: "(if atoi str > 0 then nfy_loop D w sem1 key cnt pv (qsem ?s) 0 ?s else (qsem ?s, 0, ?s)) = (l, num, s2)"
    by (metis prod.collapse)
  have "spares n ?s s2" using l nfy_loop_spares by (cases "atoi str > 0") auto
  then have "spares n s (s2\<lparr>qsem := l\<rparr>)" by (simp add: spares_def linked_def)
  then show ?thesis by (rule spares_trans) (use l in \<open>auto simp: nfy_que_def g Let_def intro: spares_same\<close>)
qed

lemma wait_que_spares:
  assumes other: "\<forall>p\<in>set (qfirst s) \<union> set (qlfirst s) \<union> set (qwait s). node p = n \<longrightarrow> Owner w (player p) \<noteq> Owner w plr"
    and own: "Owner w plr \<noteq> NOTHING" and pids: "find_pid s \<noteq> None"
  shows "spares n s (wait_que D w tm rnd plr cau wait sem1 c args k sargs names s)"
proof -
  have q: "spares n (s\<lparr>pst := p\<rparr>) s' = spares n s s'" for p s' by (simp add: spares_def linked_def)
  have h: "spares n s (snd (halt_que D w (Owner w plr) NOTHING (s\<lparr>pst := p\<rparr>)))" for p
  proof -
    have "\<forall>p\<in>set (qfirst s) \<union> set (qlfirst s) \<union> set (qwait s). node p = n \<longrightarrow> \<not> que_want w (Owner w plr) NOTHING p"
      using other own unfolding que_want_def by metis
    then show ?thesis using halt_que_spares [of "s\<lparr>pst := p\<rparr>" n w "Owner w plr" NOTHING D] by (simp add: q)
  qed
  have hs: "spares n s (s_Halted x s') = spares n s s'" for x s' by (simp add: spares_def linked_def s_Halted_def)
  have fp: "find_pid (s\<lparr>pst := p\<rparr>) = find_pid s" for p by (simp add: find_pid_def split: option.split)
  have queued: "spares n s s'" if e: "setup_que D w rnd plr cau c args k sargs names s = (e, s')" for e s'
  proof -
    obtain paid q1 where 1: "q_payfor D w plr (waitcost w + (if rnd mod machinecost w = 0 then 1 else 0)) s = (paid, s\<lparr>pst := q1\<rparr>)"
      by (metis q_payfor_split)
    obtain a q2 where 2: "QueueMax D w (Owner w plr) q1 = (a, q2)" by (metis prod.collapse)
    obtain m q3 where 3: "q_a_Queue D w (Owner w plr) 1 (s\<lparr>pst := q2\<rparr>) = (m, s\<lparr>pst := q3\<rparr>)"
      using q_a_Queue_split [of D w "Owner w plr" 1 "s\<lparr>pst := q2\<rparr>"] by auto
    have r: "spares n s (s\<lparr>pst := x, pid_table := t, last_pid := y, fresh := z\<rparr>)" "spares n s (s\<lparr>pst := x\<rparr>)" for x t y z
      by (simp_all add: spares_same)
    show ?thesis using e pids h
      by (auto simp: setup_que_def Let_def 1 2 3 split_def fp hs r count_queue_eq split: if_splits option.splits)
  qed
  show ?thesis
  proof (cases "interp s")
    case True
    obtain e s' where e: "setup_que D w rnd plr cau c args k sargs names s = (e, s')" by (metis prod.collapse)
    have w: "spares n s (s'\<lparr>qwait := insert_wait p (qwait s')\<rparr>)" "spares n s (s'\<lparr>qsem := qsem s' @ [p]\<rparr>)" for p
      using queued [OF e] by (simp_all add: spares_def linked_def)
    show ?thesis using queued [OF e] True w by (cases e) (auto simp: wait_que_def e Let_def give_que_spares)
  qed (simp add: wait_que_def)
qed

subsection \<open>Semaphores are first in, first out\<close>

text \<open>What is left of a list without the first \<open>k\<close> entries that are hit.\<close>

fun drop_hits :: "(BQUE \<Rightarrow> bool) \<Rightarrow> nat \<Rightarrow> BQUE list \<Rightarrow> BQUE list" where
  "drop_hits P k [] = []"
| "drop_hits P k (p # l) =
     (if k = 0 then p # l else if P p then drop_hits P (k - 1) l else p # drop_hits P k l)"

lemma drop_hits_0 [simp]: "drop_hits P 0 l = l"
  by (cases l) simp_all

lemma drop_hits_all: "length (filter P l) \<le> k \<Longrightarrow> drop_hits P k l = filter (\<lambda>p. \<not> P p) l"
proof (induction P k l rule: drop_hits.induct)
  case (2 P k p l)
  then show ?case by (cases "P p"; cases "k = 0") (auto simp: filter_empty_conv filter_id_conv)
qed simp

definition runnable :: "BQUE list \<Rightarrow> BQUE list" where
  "runnable = map (\<lambda>p. p\<lparr>waittime := 0\<rparr>)"

definition by_player :: "world \<Rightarrow> BQUE \<Rightarrow> bool" where
  "by_player w p \<longleftrightarrow> w_Typeof w (cause p) = TYPE_PLAYER"

lemma runnable_simps [simp]: "runnable [] = []" "runnable (p # l) = p\<lparr>waittime := 0\<rparr> # runnable l"
  by (simp_all add: runnable_def)

lemma give_que_eqs:
  assumes "linked s"
  shows "qfirst (give_que w p s) = qfirst s @ runnable (if by_player w p then [p] else [])"
    "qlfirst (give_que w p s) = qlfirst s @ runnable (if by_player w p then [] else [p])"
    "kick_pid (give_que w p s) = kick_pid s"
  using assms by (simp_all add: give_que_def Let_def linked_def by_player_def)

definition semhit :: "int \<Rightarrow> int \<Rightarrow> 'c queue_state \<Rightarrow> BQUE \<Rightarrow> bool" where
  "semhit sem1 pv s p \<longleftrightarrow> sem p = sem1 \<and> (pv = - 1 \<or> pid p = pv) \<and> pid p \<noteq> kick_pid s"

definition nfy_max :: "int \<Rightarrow> int \<Rightarrow> BQUE list \<Rightarrow> nat" where
  "nfy_max key cnt l = (if key = NFY_NFY then nat cnt else length l)"

lemma nfy_loop_order:
  assumes key: "key \<noteq> NFY_DRAIN"
  shows "nfy_loop D w sem1 key cnt pv l num s = (l1, num1, s1) \<Longrightarrow> linked s \<Longrightarrow>
    k = (if key = NFY_NFY then nat (cnt - num) else length l) \<Longrightarrow> (key = NFY_NFY \<Longrightarrow> num < cnt) \<Longrightarrow>
    T = take k (filter (semhit sem1 pv s) l) \<Longrightarrow>
    l1 = drop_hits (semhit sem1 pv s) k l \<and> num1 = num + int (length T) \<and>
    qfirst s1 = qfirst s @ runnable (filter (by_player w) T) \<and>
    qlfirst s1 = qlfirst s @ runnable (filter (\<lambda>p. \<not> by_player w p) T)"
proof (induction l arbitrary: num s l1 num1 s1 k T)
  case (Cons p l)
  define hit where "hit \<longleftrightarrow> semhit sem1 pv s p"
  define num2 where "num2 = (if hit then num + 1 else num)"
  define s2 where "s2 = (if hit then give_que w p s else s)"
  define keep where "keep = (if hit then [] else [p])"
  define k2 where "k2 = (if key = NFY_NFY then nat (cnt - num2) else length l)"
  define T2 where "T2 = take k2 (filter (semhit sem1 pv s2) l)"
  have kick: "semhit sem1 pv s2 = semhit sem1 pv s" using give_que_eqs(3) [OF Cons.prems(2)] by (simp add: s2_def semhit_def fun_eq_iff)
  have lk: "linked s2" using give_que_places(1) [OF Cons.prems(2)] Cons.prems(2) by (simp add: s2_def)
  have u: "nfy_loop D w sem1 key cnt pv (p # l) num s =
      (if key = NFY_NFY \<and> num2 \<ge> cnt then (keep @ l, num2, s2)
       else case nfy_loop D w sem1 key cnt pv l num2 s2 of (l2, n, s3) \<Rightarrow> (keep @ l2, n, s3))"
    using key by (simp add: Let_def hit_def semhit_def num2_def s2_def keep_def)
  have k0: "k \<noteq> 0" using Cons.prems(3,4) by auto
  have T: "T = (if hit then p # take (k - 1) (filter (semhit sem1 pv s) l) else take k (filter (semhit sem1 pv s) l))"
    using Cons.prems(5) k0 by (cases k) (simp_all add: hit_def)
  have d: "drop_hits (semhit sem1 pv s) k (p # l) =
      (if hit then drop_hits (semhit sem1 pv s) (k - 1) l else p # drop_hits (semhit sem1 pv s) k l)"
    using k0 by (simp add: hit_def)
  have q2: "qfirst s2 = qfirst s @ runnable (if hit \<and> by_player w p then [p] else [])"
    "qlfirst s2 = qlfirst s @ runnable (if hit \<and> \<not> by_player w p then [p] else [])"
    using give_que_eqs(1,2) [OF Cons.prems(2)] by (simp_all add: s2_def)
  show ?case
  proof (cases "key = NFY_NFY \<and> num2 \<ge> cnt")
    case True
    have "hit" "k = 1" using True Cons.prems(3,4) by (auto simp: num2_def split: if_splits)
    then show ?thesis using Cons.prems(1) [unfolded u if_P [OF True]] T d q2 by (auto simp: keep_def num2_def)
  next
    case False
    then obtain l2 where l2: "nfy_loop D w sem1 key cnt pv l num2 s2 = (l2, num1, s1)" "l1 = keep @ l2"
      using Cons.prems(1) [unfolded u if_not_P [OF False]] by (metis (no_types, lifting) case_prod_conv prod.collapse prod.inject)
    have ih: "l2 = drop_hits (semhit sem1 pv s2) k2 l \<and> num1 = num2 + int (length T2) \<and>
        qfirst s1 = qfirst s2 @ runnable (filter (by_player w) T2) \<and>
        qlfirst s1 = qlfirst s2 @ runnable (filter (\<lambda>p. \<not> by_player w p) T2)"
      by (rule Cons.IH [OF l2(1) lk k2_def _ T2_def]) (use False in auto)
    let ?P = "semhit sem1 pv s"
    have f: "length (filter ?P l) \<le> length l" by simp
    have k2: "k2 = (if hit then k - 1 else k) \<or> k2 = length l \<and> k = Suc (length l)"
      using Cons.prems(3,4) by (auto simp: k2_def num2_def nat_diff_distrib')
    have Tk: "T = (if hit then [p] else []) @ T2"
      using T k2 f le_SucI [OF f] by (auto simp: T2_def kick)
    have dk: "drop_hits ?P k (p # l) = keep @ l2"
      using d k2 ih drop_hits_all [OF f] drop_hits_all [OF le_SucI [OF f]] by (auto simp: keep_def kick)
    show ?thesis using ih Tk dk l2(2) q2 by (auto simp: num2_def)
  qed
qed simp

text \<open>
  C10: a \<open>@notify\<close> of a semaphore that counts waiting commands releases the entries that wait for it
  in the order in which they were queued: the first \<open>cnt\<close> of them, or all with \<open>NFY_NFYALL\<close>. Each goes to
  the end of the run queue of its cause, the others stay as they are, and the number of released
  entries is the result.
\<close>

theorem notify_in_order:
  assumes "key \<noteq> NFY_DRAIN" "linked s" "1 \<le> cnt"
    and "0 < atoi (fst (fst (atr_get D (w_g w) sem1 A_SEMAPHORE (adb (pst s)))))"
    and "nfy_que D w sem1 key cnt pv s = (num, s')"
  shows "(let released = take (nfy_max key cnt (qsem s)) (filter (semhit sem1 pv s) (qsem s))
          in num = int (length released) \<and>
             qsem s' = drop_hits (semhit sem1 pv s) (nfy_max key cnt (qsem s)) (qsem s) \<and>
             qfirst s' = qfirst s @ runnable (filter (by_player w) released) \<and>
             qlfirst s' = qlfirst s @ runnable (filter (\<lambda>p. \<not> by_player w p) released))"
proof -
  obtain str o1 fl a where g: "atr_get D (w_g w) sem1 A_SEMAPHORE (adb (pst s)) = ((str, o1, fl), a)"
    by (metis prod.collapse)
  let ?s = "s\<lparr>pst := (pst s)\<lparr>adb := a\<rparr>\<rparr>"
  obtain l num1 s2 where l: "nfy_loop D w sem1 key cnt pv (qsem s) 0 ?s = (l, num1, s2)" by (metis prod.collapse)
  have "linked ?s" using assms(2) by (simp add: linked_def)
  from nfy_loop_order [OF assms(1) l this refl _ refl] assms(3)
  have "l = drop_hits (semhit sem1 pv ?s) (nfy_max key cnt (qsem s)) (qsem s) \<and>
      num1 = int (length (take (nfy_max key cnt (qsem s)) (filter (semhit sem1 pv ?s) (qsem s)))) \<and>
      qfirst s2 = qfirst ?s @ runnable (filter (by_player w) (take (nfy_max key cnt (qsem s)) (filter (semhit sem1 pv ?s) (qsem s)))) \<and>
      qlfirst s2 = qlfirst ?s @ runnable (filter (\<lambda>p. \<not> by_player w p) (take (nfy_max key cnt (qsem s)) (filter (semhit sem1 pv ?s) (qsem s))))"
    by (simp add: nfy_max_def)
  moreover have "semhit sem1 pv ?s = semhit sem1 pv s" by (simp add: semhit_def fun_eq_iff)
  moreover have "num = num1" "qsem s' = l" "qfirst s' = qfirst s2" "qlfirst s' = qlfirst s2"
    using assms(4,5) l by (auto simp: nfy_que_def g Let_def)
  ultimately show ?thesis by (simp add: Let_def)
qed

text \<open>Three commands of player 5 wait for object 7, and two of them are released.\<close>

definition sem_entry :: "nat \<Rightarrow> string \<Rightarrow> BQUE" where
  "sem_entry k c = \<lparr>node = k, player = 5, cause = 5, sem = 7, waittime = 0, comm = Some c, env = [], scr = [], scrname = [],
     nargs = 0, pid = int k, stop_bool = 0, stop_bool_val = 0, shellprg = False, plr_type = 0\<rparr>"

text \<open>A store in which every attribute is \<open>3\<close>.\<close>

definition const_cache :: "'c acache" where
  "const_cache = \<lparr>FETCH = \<lambda>_ c. (Some (''3'' @ [NUL]), c), STORE = \<lambda>_ _ c. c, DELETE = \<lambda>_ c. c\<rparr>"

definition three_waiting :: "(ocache \<times> store) queue_state" where
  "three_waiting = (empty_queue (pcache_init attrs_start))\<lparr>qsem := [sem_entry 0 ''one'', sem_entry 1 ''two'', sem_entry 2 ''three'']\<rparr>"

lemma three_there: "0 < atoi (fst (fst (atr_get const_cache g th n a)))"
proof -
  have "0 < atoi ''3''" by code_simp
  then show ?thesis
    by (simp add: atr_get_def atr_get_raw_def const_cache_def c_text_def atr_decode_def ATR_INFO_CHAR_def)
qed

theorem notify_in_order_witness:
  "\<exists>num s'. nfy_que const_cache sample_world 7 NFY_NFY 2 (- 1) three_waiting = (num, s') \<and> num = 2 \<and>
     map comm (qfirst s') = [Some ''one'', Some ''two''] \<and> map comm (qsem s') = [Some ''three'']"
proof -
  obtain num s' where n: "nfy_que const_cache sample_world 7 NFY_NFY 2 (- 1) three_waiting = (num, s')" by (metis prod.collapse)
  have "linked three_waiting" by (simp add: three_waiting_def empty_queue_def linked_def)
  from notify_in_order [OF _ this _ three_there n] show ?thesis unfolding n
    by (simp add: NFY_NFY_def NFY_DRAIN_def nfy_max_def three_waiting_def empty_queue_def sem_entry_def semhit_def Let_def
      runnable_def by_player_def sample_world_def)
qed

subsection \<open>Waiting commands are run\<close>

text \<open>The entry is in the wait queue, or in a run queue.\<close>

definition queued :: "nat \<Rightarrow> 'c queue_state \<Rightarrow> bool" where
  "queued n s \<longleftrightarrow> n \<in> node ` (set (qwait s) \<union> set (qfirst s) \<union> set (qlfirst s))"





















end
