(* ===== verification/Funlist.thy ===== *)
theory Funlist
  imports Stringutil "HOL-Library.Char_ord" "HOL-Library.List_Lexorder"
begin

section \<open>Lists of words in softcode (src/Server/src/functions.c)\<close>

text \<open>
  Softcode keeps its lists in strings: words with a separator between them. When the
  separator is a space, several of them in a row count as one and those around the list do not
  count. This theory holds the routines of functions.c that take such lists apart and put them
  together, and the softcode functions on them.

  A function takes its evaluated arguments, \<open>fargs\<close>, and the text that is in the buffer so far;
  \<open>nfargs\<close> is their number. The buffers of the arguments are the callee's own; where a routine
  cuts one that is read again later, the definition says so. A pointer is the text
  from there on, NULL is \<open>None\<close>.
\<close>

subsection \<open>Arguments\<close>

definition ival :: "int \<Rightarrow> string \<Rightarrow> string" where
  "ival result buff = safe_str (sprintf_d result) buff"

definition fn_range_check :: "string \<Rightarrow> nat \<Rightarrow> nat \<Rightarrow> nat \<Rightarrow> string \<Rightarrow> string option" where
  "fn_range_check fname nfargs minargs maxargs result =
     (if nfargs \<ge> minargs \<and> nfargs \<le> maxargs then None
      else if maxargs = minargs + 1 then
        Some (safe_chr (CHR '']'') (ival (int nfargs) (safe_str '' ARGUMENTS [RECEIVED '' (ival (int maxargs)
          (safe_str '' OR '' (ival (int minargs) (safe_str '') EXPECTS '' (safe_str fname (safe_str ''#-1 FUNCTION ('' result)))))))))
      else
        Some (safe_chr (CHR '']'') (ival (int nfargs) (safe_str '' ARGUMENTS [RECEIVED '' (ival (int maxargs)
          (safe_str '' AND '' (ival (int minargs) (safe_str '') EXPECTS BETWEEN '' (safe_str fname (safe_str ''#-1 FUNCTION ('' result))))))))))"

text \<open>\<open>delim_check\<close> without evaluation: the separator, or nothing when it is longer than a character.\<close>

definition delim_check :: "string list \<Rightarrow> nat \<Rightarrow> char option" where
  "delim_check fargs sep_arg =
     (if length fargs \<ge> sep_arg then
        case fargs ! (sep_arg - 1) of [] \<Rightarrow> Some (CHR '' '') | [c] \<Rightarrow> Some c | _ \<Rightarrow> None
      else Some (CHR '' ''))"

definition delim_error :: "string \<Rightarrow> string" where
  "delim_error buff = safe_str ''#-1 SEPARATOR MUST BE ONE CHARACTER'' buff"

definition varargs_preamble :: "string \<Rightarrow> nat \<Rightarrow> string list \<Rightarrow> (char \<Rightarrow> string \<Rightarrow> string) \<Rightarrow> string \<Rightarrow> string" where
  "varargs_preamble xname xnargs fargs body buff =
     (case fn_range_check xname (length fargs) (xnargs - 1) xnargs buff of
        Some err \<Rightarrow> err
      | None \<Rightarrow> (case delim_check fargs xnargs of None \<Rightarrow> delim_error buff | Some sep \<Rightarrow> body sep buff))"

definition svarargs_preamble :: "string \<Rightarrow> nat \<Rightarrow> string list \<Rightarrow> (char \<Rightarrow> char \<Rightarrow> string \<Rightarrow> string) \<Rightarrow> string \<Rightarrow> string" where
  "svarargs_preamble xname xnargs fargs body buff =
     (case fn_range_check xname (length fargs) (xnargs - 2) xnargs buff of
        Some err \<Rightarrow> err
      | None \<Rightarrow>
          (case delim_check fargs (xnargs - 1) of
             None \<Rightarrow> delim_error buff
           | Some sep \<Rightarrow>
               if length fargs < xnargs then body sep sep buff
               else (case delim_check fargs xnargs of None \<Rightarrow> delim_error buff | Some osep \<Rightarrow> body sep osep buff)))"

subsection \<open>Words\<close>

text \<open>Spaces at the end, but for the first character.\<close>

definition strip_back :: "string \<Rightarrow> string" where
  "strip_back s = (case s of [] \<Rightarrow> [] | c # t \<Rightarrow> c # rev (dropWhile (\<lambda>c. c = CHR '' '') (rev t)))"

definition trim_space_sep :: "string \<Rightarrow> char \<Rightarrow> string" where
  "trim_space_sep str sep = (if sep \<noteq> CHR '' '' then str else strip_back (dropWhile (\<lambda>c. c = CHR '' '') str))"

text \<open>What the argument of \<open>trim_space_sep\<close> holds afterwards: it is cut at the end, in place.\<close>

definition trimmed_in_place :: "string \<Rightarrow> char \<Rightarrow> string" where
  "trimmed_in_place str sep =
     (if sep \<noteq> CHR '' '' then str else takeWhile (\<lambda>c. c = CHR '' '') str @ trim_space_sep str sep)"

definition next_token :: "string \<Rightarrow> char \<Rightarrow> string option" where
  "next_token str sep =
     (case dropWhile (\<lambda>c. c \<noteq> sep) str of
        [] \<Rightarrow> None
      | _ # s \<Rightarrow> Some (if sep = CHR '' '' then dropWhile (\<lambda>c. c = sep) s else s))"

text \<open>The token and the rest.\<close>

definition split_token :: "string option \<Rightarrow> char \<Rightarrow> string option \<times> string option" where
  "split_token sp sep =
     (case sp of None \<Rightarrow> (None, None) | Some str \<Rightarrow> (Some (takeWhile (\<lambda>c. c \<noteq> sep) str), next_token str sep))"

lemma next_token_shorter: "next_token str sep = Some s \<Longrightarrow> length s < length str"
proof -
  assume n: "next_token str sep = Some s"
  obtain c t where d: "dropWhile (\<lambda>c. c \<noteq> sep) str = c # t" using n by (auto simp: next_token_def split: list.splits)
  have "length (c # t) \<le> length str" unfolding d [symmetric] by (rule length_dropWhile_le)
  moreover have "length s \<le> length t" using n d length_dropWhile_le [of "\<lambda>c. c = sep" t] by (auto simp: next_token_def split: if_splits)
  ultimately show ?thesis by simp
qed

function count_tokens :: "string option \<Rightarrow> char \<Rightarrow> nat" where
  "count_tokens None sep = 0"
| "count_tokens (Some str) sep = Suc (count_tokens (next_token str sep) sep)"
  by pat_completeness auto
termination count_tokens
proof (relation "measure (\<lambda>(s, sep). case s of None \<Rightarrow> 0 | Some s \<Rightarrow> Suc (length s))", goal_cases)
  case (2 str sep)
  then show ?case using next_token_shorter [of str sep] by (auto split: option.splits)
qed simp

definition countwords :: "string \<Rightarrow> char \<Rightarrow> nat" where
  "countwords str sep = (let str = trim_space_sep str sep in if str = [] then 0 else count_tokens (Some str) sep)"

subsection \<open>Arrays of words\<close>

fun list2arr_loop :: "nat \<Rightarrow> string option \<Rightarrow> char \<Rightarrow> string list" where
  "list2arr_loop 0 list sep = []"
| "list2arr_loop (Suc n) list sep =
     (case split_token list sep of (None, _) \<Rightarrow> [] | (Some p, list') \<Rightarrow> p # list2arr_loop n list' sep)"

definition list2arr :: "nat \<Rightarrow> string \<Rightarrow> char \<Rightarrow> string list" where
  "list2arr maxlen list sep = list2arr_loop maxlen (Some (trim_space_sep list sep)) sep"

fun arr2list_loop :: "string list \<Rightarrow> bool \<Rightarrow> char \<Rightarrow> string \<Rightarrow> string" where
  "arr2list_loop [] gotone sep list = list"
| "arr2list_loop (p # arr) gotone sep list = arr2list_loop arr True sep (safe_str p (if gotone then safe_chr sep list else list))"

definition arr2list :: "string list \<Rightarrow> char \<Rightarrow> string \<Rightarrow> string" where
  "arr2list arr sep list = arr2list_loop arr False sep list"

subsection \<open>Functions on words\<close>

text \<open>The first word, the words after it and the number of words.\<close>

definition fun_words :: "string list \<Rightarrow> string \<Rightarrow> string" where
  "fun_words fargs buff =
     (if fargs = [] then safe_str ''0'' buff
      else varargs_preamble ''WORDS'' 2 fargs (\<lambda>sep. ival (int (countwords (fargs ! 0) sep))) buff)"

definition safe_str_opt :: "string option \<Rightarrow> string \<Rightarrow> string" where
  "safe_str_opt p buff = (case p of None \<Rightarrow> buff | Some s \<Rightarrow> safe_str s buff)"

definition fun_first :: "string list \<Rightarrow> string \<Rightarrow> string" where
  "fun_first fargs buff =
     (if fargs = [] then buff
      else varargs_preamble ''FIRST'' 2 fargs
             (\<lambda>sep. safe_str_opt (fst (split_token (Some (trim_space_sep (fargs ! 0) sep)) sep))) buff)"

definition fun_rest :: "string list \<Rightarrow> string \<Rightarrow> string" where
  "fun_rest fargs buff =
     (if fargs = [] then buff
      else varargs_preamble ''REST'' 2 fargs
             (\<lambda>sep. safe_str_opt (snd (split_token (Some (trim_space_sep (fargs ! 0) sep)) sep))) buff)"

fun skip_tokens :: "nat \<Rightarrow> string option \<Rightarrow> char \<Rightarrow> string option" where
  "skip_tokens 0 s sep = s"
| "skip_tokens (Suc n) s sep = (case s of None \<Rightarrow> None | Some s \<Rightarrow> skip_tokens n (next_token s sep) sep)"

text \<open>The text from \<open>r\<close> to the end of the token at \<open>e\<close>, which points into it, once it has been split there.\<close>

definition upto_token :: "string \<Rightarrow> string \<Rightarrow> char \<Rightarrow> string" where
  "upto_token r e sep = take (length r - length e) r @ takeWhile (\<lambda>c. c \<noteq> sep) e"

definition extract_words :: "string \<Rightarrow> int \<Rightarrow> int \<Rightarrow> char \<Rightarrow> string \<Rightarrow> string" where
  "extract_words s start len sep buff =
     (if start < 1 \<or> len < 1 then buff
      else case skip_tokens (nat (start - 1)) (Some (trim_space_sep s sep)) sep of
             Some (c # r) \<Rightarrow>
               (case skip_tokens (nat (len - 1)) (Some (c # r)) sep of
                  Some (d # e) \<Rightarrow> safe_str (upto_token (c # r) (d # e) sep) buff
                | _ \<Rightarrow> safe_str (c # r) buff)
           | _ \<Rightarrow> buff)"

definition fun_extract :: "string list \<Rightarrow> string \<Rightarrow> string" where
  "fun_extract fargs buff =
     varargs_preamble ''EXTRACT'' 4 fargs (\<lambda>sep. extract_words (fargs ! 0) (atoi (fargs ! 1)) (atoi (fargs ! 2)) sep) buff"

text \<open>The number of the first word that is equal to one, or 0; the loop has its test at the end.\<close>

function member_loop :: "string \<Rightarrow> nat \<Rightarrow> string \<Rightarrow> char \<Rightarrow> nat" where
  "member_loop word wcount s sep =
     (if word = takeWhile (\<lambda>c. c \<noteq> sep) s then wcount
      else case next_token s sep of None \<Rightarrow> 0 | Some s' \<Rightarrow> member_loop word (wcount + 1) s' sep)"
  by pat_completeness auto
termination member_loop
  by (relation "measure (\<lambda>(w, n, s, sep). length s)") (simp_all add: next_token_shorter)

declare member_loop.simps [simp del]

definition fun_member :: "string list \<Rightarrow> string \<Rightarrow> string" where
  "fun_member fargs buff =
     varargs_preamble ''MEMBER'' 3 fargs
       (\<lambda>sep. case member_loop (fargs ! 1) 1 (trim_space_sep (fargs ! 0) sep) sep of
                0 \<Rightarrow> safe_str ''0'' | n \<Rightarrow> ival (int n)) buff"

text \<open>\<open>remove\<close> takes the first word that is equal to one out of a list, without trimming the list.\<close>

function remove_loop :: "string \<Rightarrow> bool \<Rightarrow> bool \<Rightarrow> string option \<Rightarrow> char \<Rightarrow> string \<Rightarrow> string" where
  "remove_loop word found first None sep buff = buff"
| "remove_loop word found first (Some s) sep buff =
     (let sp = takeWhile (\<lambda>c. c \<noteq> sep) s
      in if found \<or> sp \<noteq> word then
           remove_loop word found False (next_token s sep) sep (safe_str sp (if first then buff else safe_chr sep buff))
         else remove_loop word True first (next_token s sep) sep buff)"
  by pat_completeness auto
termination remove_loop
proof (relation "measure (\<lambda>(w, f, g, s, sep, b). case s of None \<Rightarrow> 0 | Some s \<Rightarrow> Suc (length s))", goal_cases)
  case (2 word found first s sep buff sp)
  then show ?case using next_token_shorter [of s sep] by (auto split: option.splits)
next
  case (3 word found first s sep buff sp)
  then show ?case using next_token_shorter [of s sep] by (auto split: option.splits)
qed simp

definition fun_remove :: "string list \<Rightarrow> string \<Rightarrow> string" where
  "fun_remove fargs buff =
     varargs_preamble ''REMOVE'' 3 fargs
       (\<lambda>sep buff. if sep \<in> set (fargs ! 1) then safe_str ''#-1 CAN ONLY DELETE ONE ELEMENT'' buff
                   else remove_loop (fargs ! 1) False True (Some (fargs ! 0)) sep buff) buff"

definition do_reverse :: "string \<Rightarrow> string \<Rightarrow> string" where
  "do_reverse from to = foldl (\<lambda>b c. safe_chr c b) to (rev from)"

definition fun_reverse :: "string list \<Rightarrow> string \<Rightarrow> string" where
  "fun_reverse fargs buff = do_reverse (fargs ! 0) buff"

text \<open>The words in reverse order: the text backwards, and then each word again.\<close>

function revwords_loop :: "bool \<Rightarrow> string option \<Rightarrow> char \<Rightarrow> string \<Rightarrow> string" where
  "revwords_loop first None sep buff = buff"
| "revwords_loop first (Some tp) sep buff =
     revwords_loop False (next_token tp sep) sep
       (do_reverse (takeWhile (\<lambda>c. c \<noteq> sep) tp) (if first then buff else safe_chr sep buff))"
  by pat_completeness auto
termination revwords_loop
proof (relation "measure (\<lambda>(f, s, sep, b). case s of None \<Rightarrow> 0 | Some s \<Rightarrow> Suc (length s))", goal_cases)
  case (2 first tp sep buff)
  then show ?case using next_token_shorter [of tp sep] by (auto split: option.splits)
qed simp

definition fun_revwords :: "string list \<Rightarrow> string \<Rightarrow> string" where
  "fun_revwords fargs buff =
     (if fargs = [] then buff
      else varargs_preamble ''REVWORDS'' 2 fargs
             (\<lambda>sep. revwords_loop True (Some (do_reverse (fargs ! 0) [])) sep) buff)"

text \<open>\<open>splice\<close> counts the words of trimmed lists and then splits the lists as they are.\<close>

fun splice_loop :: "nat \<Rightarrow> bool \<Rightarrow> string option \<Rightarrow> string option \<Rightarrow> string \<Rightarrow> char \<Rightarrow> char \<Rightarrow> string \<Rightarrow> string" where
  "splice_loop 0 first p1 q1 word sep osep buff = buff"
| "splice_loop (Suc n) first p1 q1 word sep osep buff =
     (let (p2, p1') = split_token p1 sep;
          (q2, q1') = split_token q1 sep;
          buff1 = (if first then buff else safe_chr osep buff)
      in splice_loop n False p1' q1' word sep osep (safe_str_opt (if p2 = Some word then q2 else p2) buff1))"

definition fun_splice :: "string list \<Rightarrow> string \<Rightarrow> string" where
  "fun_splice fargs buff =
     svarargs_preamble ''SPLICE'' 5 fargs
       (\<lambda>sep osep buff.
          if countwords (fargs ! 2) sep > 1 then safe_str ''#-1 TOO MANY WORDS'' buff
          else let words = countwords (fargs ! 0) sep
               in if words \<noteq> countwords (fargs ! 1) sep then safe_str ''#-1 NUMBER OF WORDS MUST BE EQUAL'' buff
                  else splice_loop words True (Some (trimmed_in_place (fargs ! 0) sep)) (Some (trimmed_in_place (fargs ! 1) sep))
                         (trimmed_in_place (fargs ! 2) sep) sep osep buff) buff"

subsection \<open>Changing single words\<close>

datatype itemfun = IF_DELETE | IF_REPLACE | IF_INSERT

text \<open>
  \<open>do_itemfuns\<close> writes to the start of a buffer that holds \<open>old\<close>, as its callers have it; the
  buffer stays as it is when nothing is written at all. \<open>sptr\<close>, \<open>eptr\<close> and \<open>iptr\<close> are the words
  before the place, those behind it and the word itself.
\<close>

definition item_text :: "string \<Rightarrow> itemfun \<Rightarrow> string option \<Rightarrow> string option \<Rightarrow> string option \<Rightarrow> string \<Rightarrow> char \<Rightarrow> string" where
  "item_text old fl sptr iptr eptr word sep =
     (case fl of
        IF_DELETE \<Rightarrow>
          if sptr = None \<and> eptr = None then old
          else safe_str_opt eptr (if sptr \<noteq> None \<and> eptr \<noteq> None then safe_chr sep (safe_str_opt sptr []) else safe_str_opt sptr [])
      | IF_REPLACE \<Rightarrow>
          (let b = safe_str word (if sptr \<noteq> None then safe_chr sep (safe_str_opt sptr []) else [])
           in if eptr \<noteq> None then safe_str_opt eptr (safe_chr sep b) else b)
      | IF_INSERT \<Rightarrow>
          (let b = safe_str word (if sptr \<noteq> None then safe_chr sep (safe_str_opt sptr []) else []);
               b1 = (if iptr \<noteq> None then safe_str_opt iptr (safe_chr sep b) else b)
           in if eptr \<noteq> None then safe_str_opt eptr (safe_chr sep b1) else b1))"

definition do_itemfuns :: "string \<Rightarrow> string \<Rightarrow> int \<Rightarrow> string \<Rightarrow> char \<Rightarrow> itemfun \<Rightarrow> string" where
  "do_itemfuns old str0 el0 word sep fl =
     (if str0 = [] \<and> (fl \<noteq> IF_INSERT \<or> \<bar>el0\<bar> \<noteq> 1) then old
      else
        let str = (if el0 < 0 \<and> str0 \<noteq> [] then trimmed_in_place str0 sep else str0);
            el = (if el0 < 0 then
                    if str0 = [] then 1 else int (countwords str0 sep) + (if fl = IF_INSERT then 2 else 1) + el0
                  else el0)
        in if str = [] \<and> (fl \<noteq> IF_INSERT \<or> el \<noteq> 1) then old
           else if el < 1 then safe_str str []
           else if el = 1 then
             (if str = [] then item_text old fl None None None word sep
              else let (iptr, eptr) = split_token (Some (trim_space_sep str sep)) sep
                   in item_text old fl None iptr eptr word sep)
           else
             let start = trim_space_sep str sep
             in case skip_tokens (nat (el - 2)) (Some start) sep of
                  None \<Rightarrow> safe_str (trimmed_in_place str sep) []
                | Some e \<Rightarrow>
                    (case next_token e sep of
                       None \<Rightarrow>
                         if fl = IF_INSERT then item_text old fl (Some (upto_token start e sep)) None None word sep
                         else safe_str (trimmed_in_place str sep) []
                     | Some e1 \<Rightarrow>
                         let (iptr, eptr) = split_token (Some e1) sep
                         in item_text old fl (Some (upto_token start e sep)) iptr eptr word sep))"

text \<open>The words of \<open>strtok_r(s, " \t", ...)\<close>.\<close>

function strtok_blanks :: "string \<Rightarrow> string list" where
  "strtok_blanks s =
     (case dropWhile (\<lambda>c. c = CHR '' '' \<or> c = CHR 0x09) s of
        [] \<Rightarrow> []
      | c # t \<Rightarrow> (c # takeWhile (\<lambda>c. c \<noteq> CHR '' '' \<and> c \<noteq> CHR 0x09) t) #
                 strtok_blanks (dropWhile (\<lambda>c. c \<noteq> CHR '' '' \<and> c \<noteq> CHR 0x09) t))"
  by pat_completeness auto
termination strtok_blanks
proof (relation "measure length", goal_cases)
  case (2 s c t)
  have "length (c # t) \<le> length s" unfolding 2 [symmetric] by (rule length_dropWhile_le)
  then show ?case using length_dropWhile_le [of "\<lambda>c. c \<noteq> CHR '' '' \<and> c \<noteq> CHR 0x09" t] by simp
qed simp

declare strtok_blanks.simps [simp del]

text \<open>The number of words, and the positions that are marked in \<open>i_pos\<close>.\<close>

definition sanitize_input_cnt :: "string \<Rightarrow> string \<Rightarrow> char \<Rightarrow> itemfun \<Rightarrow> nat \<times> int list" where
  "sanitize_input_cnt s_base_str s_in_str sep i_key =
     (let n = countwords s_base_str sep;
          i_len = (if n > LBUF_SIZE - 10 then LBUF_SIZE - 10 else n);
          pos = map (\<lambda>tok. let i = atoi tok in if i < 0 then i + int i_len + (if i_key = IF_INSERT then 2 else 1) else i)
                  (strtok_blanks s_in_str)
      in if n = 0 then (0, [])
         else (i_len, filter (\<lambda>i. (i \<le> int i_len \<or> i \<le> int i_len + 1 \<and> i_key = IF_INSERT) \<and> i \<ge> 0) pos))"

fun item_loop :: "nat \<Rightarrow> int list \<Rightarrow> string \<Rightarrow> string \<Rightarrow> string \<Rightarrow> char \<Rightarrow> itemfun \<Rightarrow> string" where
  "item_loop 0 pos old str word sep fl = (if 0 \<in> set pos then do_itemfuns old str 0 word sep fl else old)"
| "item_loop (Suc i) pos old str word sep fl =
     (if int (Suc i) \<in> set pos then
        let new = do_itemfuns old str (int (Suc i)) word sep fl in item_loop i pos new new word sep fl
      else item_loop i pos old str word sep fl)"

text \<open>The common body of \<open>replace\<close>, \<open>ldelete\<close> and \<open>insert\<close>; \<open>st_tmp\<close> is empty at first.\<close>

definition edit_words :: "string \<Rightarrow> string \<Rightarrow> string \<Rightarrow> itemfun \<Rightarrow> char \<Rightarrow> string \<Rightarrow> string" where
  "edit_words str places word fl sep buff =
     (case sanitize_input_cnt str places sep fl of
        (i_len, pos) \<Rightarrow>
          if pos = [] then safe_str (trimmed_in_place str sep) buff
          else safe_str (item_loop (i_len + 2) pos [] (trimmed_in_place str sep) word sep fl) buff)"

definition fun_replace :: "string list \<Rightarrow> string \<Rightarrow> string" where
  "fun_replace fargs buff =
     varargs_preamble ''REPLACE'' 4 fargs (edit_words (fargs ! 0) (fargs ! 1) (fargs ! 2) IF_REPLACE) buff"

definition fun_ldelete :: "string list \<Rightarrow> string \<Rightarrow> string" where
  "fun_ldelete fargs buff = varargs_preamble ''LDELETE'' 3 fargs (edit_words (fargs ! 0) (fargs ! 1) [] IF_DELETE) buff"

definition fun_insert :: "string list \<Rightarrow> string \<Rightarrow> string" where
  "fun_insert fargs buff =
     varargs_preamble ''INSERT'' 4 fargs (edit_words (fargs ! 0) (fargs ! 1) (fargs ! 2) IF_INSERT) buff"

subsection \<open>Sorting\<close>

datatype list_type = ALPHANUM_LIST | NUMERIC_LIST | DBREF_LIST | FLOAT_LIST

text \<open>The argument \<open>first\<close> is \<open>i == 0\<close>.\<close>

fun autodetect_loop :: "bool \<Rightarrow> list_type \<Rightarrow> string list \<Rightarrow> list_type" where
  "autodetect_loop first sort_type [] = sort_type"
| "autodetect_loop first NUMERIC_LIST (p # ps) =
     (if \<not> is_number p then
        (if first then
           (if deref p \<noteq> CHR ''#'' then ALPHANUM_LIST
            else if is_integer (tl p) then autodetect_loop False DBREF_LIST ps
            else ALPHANUM_LIST)
         else ALPHANUM_LIST)
      else if CHR ''.'' \<in> set p then autodetect_loop False FLOAT_LIST ps
      else autodetect_loop False NUMERIC_LIST ps)"
| "autodetect_loop first FLOAT_LIST (p # ps) = (if \<not> is_number p then ALPHANUM_LIST else autodetect_loop False FLOAT_LIST ps)"
| "autodetect_loop first DBREF_LIST (p # ps) =
     (if deref p \<noteq> CHR ''#'' then ALPHANUM_LIST
      else if \<not> is_integer (tl p) then ALPHANUM_LIST
      else autodetect_loop False DBREF_LIST ps)"
| "autodetect_loop first ALPHANUM_LIST (p # ps) = ALPHANUM_LIST"

definition autodetect_list :: "string list \<Rightarrow> list_type" where
  "autodetect_list ptrs = autodetect_loop True NUMERIC_LIST ptrs"

definition get_list_type :: "string list \<Rightarrow> nat \<Rightarrow> string list \<Rightarrow> list_type" where
  "get_list_type fargs type_pos ptrs =
     (if length fargs \<ge> type_pos then
        (let c = ToLower (deref (fargs ! (type_pos - 1)))
         in if c = CHR ''d'' then DBREF_LIST
            else if c = CHR ''n'' then NUMERIC_LIST
            else if c = CHR ''f'' then FLOAT_LIST
            else if c = NUL then autodetect_list ptrs
            else ALPHANUM_LIST)
      else autodetect_list ptrs)"

definition dbnum :: "string \<Rightarrow> int" where
  "dbnum dbr = (if length dbr < 2 \<and> deref dbr \<noteq> CHR ''#'' then 0 else atoi (tl dbr))"

text \<open>
  The sign of \<open>strcmp\<close>; strings hold no NUL. \<open>qsort\<close> of the C library is a stable sort (that
  of the GNU library is a merge sort, for arrays of this size); when words are compared as texts
  equal ones cannot be told apart. \<open>safe_atof\<close>, which reads a floating point number, is a
  parameter.
\<close>

fun strcmp :: "string \<Rightarrow> string \<Rightarrow> int" where
  "strcmp [] [] = 0"
| "strcmp [] (d # t) = - 1"
| "strcmp (c # s) [] = 1"
| "strcmp (c # s) (d # t) = (if c = d then strcmp s t else if ccode c < ccode d then - 1 else 1)"

definition do_asort :: "(string \<Rightarrow> 'f::linorder) \<Rightarrow> string list \<Rightarrow> list_type \<Rightarrow> string list" where
  "do_asort safe_atof s sort_type =
     (case sort_type of
        ALPHANUM_LIST \<Rightarrow> sort s
      | NUMERIC_LIST \<Rightarrow> sort_key atoi s
      | DBREF_LIST \<Rightarrow> sort_key dbnum s
      | FLOAT_LIST \<Rightarrow> sort_key safe_atof s)"

definition fun_sort :: "(string \<Rightarrow> 'f::linorder) \<Rightarrow> string list \<Rightarrow> string \<Rightarrow> string" where
  "fun_sort safe_atof fargs buff =
     (if fargs = [] then buff
      else case fn_range_check ''SORT'' (length fargs) 1 4 buff of
        Some err \<Rightarrow> err
      | None \<Rightarrow>
          (case delim_check fargs 3 of
             None \<Rightarrow> delim_error buff
           | Some sep \<Rightarrow>
               (case (if length fargs < 4 then Some sep else delim_check fargs 4) of
                  None \<Rightarrow> delim_error buff
                | Some osep \<Rightarrow>
                    let ptrs = list2arr (LBUF_SIZE div 2) (fargs ! 0) sep
                    in arr2list (do_asort safe_atof ptrs (get_list_type fargs 2 ptrs)) osep buff)))"

text \<open>
  \<open>sane_qsort\<close>, which \<open>sortby\<close> calls: the comparison evaluates softcode, so it changes the state
  of the server and need not be an order; \<open>rnd\<close> is \<open>random()\<close>.
\<close>

definition swap :: "'a list \<Rightarrow> int \<Rightarrow> int \<Rightarrow> 'a list" where
  "swap a i j = a[nat i := a ! nat j, nat j := a ! nat i]"

fun qsort_loop :: "('a \<Rightarrow> 'a \<Rightarrow> 's \<Rightarrow> int \<times> 's) \<Rightarrow> int \<Rightarrow> int list \<Rightarrow> 'a list \<Rightarrow> int \<Rightarrow> 's \<Rightarrow> 'a list \<times> int \<times> 's" where
  "qsort_loop compare left [] a lastp s = (a, lastp, s)"
| "qsort_loop compare left (i # is) a lastp s =
     (case compare (a ! nat i) (a ! nat left) s of
        (v, s1) \<Rightarrow>
          if v < 0 then
            (if lastp + 1 = i then qsort_loop compare left is a (lastp + 1) s1
             else qsort_loop compare left is (swap a (lastp + 1) i) (lastp + 1) s1)
          else qsort_loop compare left is a lastp s1)"

lemma qsort_loop_last:
  "qsort_loop compare left is a lastp s = (a', lastp', s') \<Longrightarrow> lastp \<le> lastp' \<and> lastp' \<le> lastp + int (length is)"
  by (induction "is" arbitrary: a lastp s) (fastforce split: prod.splits if_splits)+

definition qsort_pass ::
  "('a \<Rightarrow> 'a \<Rightarrow> 's \<Rightarrow> int \<times> 's) \<Rightarrow> ('s \<Rightarrow> int \<times> 's) \<Rightarrow> 'a list \<Rightarrow> int \<Rightarrow> int \<Rightarrow> 's \<Rightarrow> 'a list \<times> int \<times> 's" where
  "qsort_pass compare rnd a left right s =
     (let (r, s1) = rnd s;
          (a1, lastp, s2) = qsort_loop compare left [left + 1..right] (swap a left (left + r mod (right - left))) left s1
      in (swap a1 lastp left, lastp, s2))"

lemma qsort_pass_last: "left < right \<Longrightarrow> qsort_pass compare rnd a left right s = (a', lastp, s') \<Longrightarrow> left \<le> lastp \<and> lastp \<le> right"
  using qsort_loop_last [of compare left "[left + 1..right]"] by (fastforce simp: qsort_pass_def Let_def split: prod.splits)

function sane_qsort ::
  "('a \<Rightarrow> 'a \<Rightarrow> 's \<Rightarrow> int \<times> 's) \<Rightarrow> ('s \<Rightarrow> int \<times> 's) \<Rightarrow> 'a list \<Rightarrow> int \<Rightarrow> int \<Rightarrow> 's \<Rightarrow> 'a list \<times> 's" where
  "sane_qsort compare rnd a left right s =
     (if left \<ge> right then (a, s)
      else case qsort_pass compare rnd a left right s of
        (a1, lastp, s1) \<Rightarrow>
          if lastp - left < right - lastp then
            (case sane_qsort compare rnd a1 left (lastp - 1) s1 of
               (a2, s2) \<Rightarrow> sane_qsort compare rnd a2 (lastp + 1) right s2)
          else
            (case sane_qsort compare rnd a1 (lastp + 1) right s1 of
               (a2, s2) \<Rightarrow> sane_qsort compare rnd a2 left (lastp - 1) s2))"
  by pat_completeness auto
termination sane_qsort
  by (relation "measure (\<lambda>(compare, rnd, a, left, right, s). nat (right - left + 1))")
    (auto dest!: qsort_pass_last [OF _ sym, rotated])

declare sane_qsort.simps [simp del]

text \<open>The last part of \<open>sortby\<close>, when the attribute has been found and may be read.\<close>

definition sortby_words ::
  "(string \<Rightarrow> string \<Rightarrow> 's \<Rightarrow> int \<times> 's) \<Rightarrow> ('s \<Rightarrow> int \<times> 's) \<Rightarrow> string \<Rightarrow> char \<Rightarrow> char \<Rightarrow> string \<Rightarrow> 's \<Rightarrow> string \<times> 's" where
  "sortby_words u_comp rnd str sep osep buff s =
     (let ptrs = list2arr (LBUF_SIZE div 2) str sep;
          (ptrs1, s1) = (if length ptrs > 1 then sane_qsort u_comp rnd ptrs 0 (int (length ptrs) - 1) s else (ptrs, s))
      in (arr2list ptrs1 osep buff, s1))"

subsection \<open>Sets\<close>

datatype set_oper = SET_UNION | SET_INTERSECT | SET_DIFF

definition put_word :: "char \<Rightarrow> bool \<Rightarrow> string \<Rightarrow> string \<Rightarrow> string" where
  "put_word osep first x buff = safe_str x (if first then buff else safe_chr osep buff)"

abbreviation skip_word :: "string \<Rightarrow> string list \<Rightarrow> string list" where
  "skip_word oldp \<equiv> dropWhile (\<lambda>x. x = oldp)"

text \<open>
  The arrays from \<open>i1\<close> and from \<open>i2\<close> on; \<open>started\<close> is \<open>i1 > 0 || i2 > 0\<close>. The results of the
  first loop are what is left of both arrays, \<open>oldp\<close>, \<open>first\<close> and the text.
\<close>

function union_loop ::
  "char \<Rightarrow> bool \<Rightarrow> string list \<Rightarrow> string list \<Rightarrow> string \<Rightarrow> bool \<Rightarrow> string \<Rightarrow> string list \<times> string list \<times> string \<times> bool \<times> string" where
  "union_loop osep started l1 l2 oldp first buff =
     (if l1 = [] \<or> l2 = [] then (l1, l2, oldp, first, buff)
      else
        let m1 = (if started then skip_word oldp l1 else l1);
            m2 = (if started then skip_word oldp l2 else l2)
        in if m1 = [] \<or> m2 = [] then (m1, m2, oldp, first, buff)
           else if strcmp (hd m1) (hd m2) < 0 then
             union_loop osep True (tl m1) m2 (hd m1) (hd m1 = []) (put_word osep first (hd m1) buff)
           else
             union_loop osep True m1 (tl m2) (hd m2) (hd m2 = []) (put_word osep first (hd m2) buff))"
  by pat_completeness auto
termination union_loop
proof (relation "measure (\<lambda>(c, st, l1, l2, o', f, b). length l1 + length l2)", goal_cases)
  case (2 osep started l1 l2 oldp first buff m1 m2)
  then have "length m1 \<le> length l1" "length m2 \<le> length l2" "m1 \<noteq> []" by (auto simp: length_dropWhile_le)
  then show ?case by (cases m1) auto
next
  case (3 osep started l1 l2 oldp first buff m1 m2)
  then have "length m1 \<le> length l1" "length m2 \<le> length l2" "m2 \<noteq> []" by (auto simp: length_dropWhile_le)
  then show ?case by (cases m2) auto
qed simp

declare union_loop.simps [simp del]

fun union_rest :: "char \<Rightarrow> string list \<Rightarrow> string \<Rightarrow> bool \<Rightarrow> string \<Rightarrow> string \<times> bool \<times> string" where
  "union_rest osep [] oldp first buff = (oldp, first, buff)"
| "union_rest osep (x # l) oldp first buff =
     (if oldp \<noteq> x then union_rest osep l x (x = []) (put_word osep first x buff)
      else union_rest osep l oldp (if oldp = [] then True else first) buff)"

function inter_loop :: "char \<Rightarrow> string list \<Rightarrow> string list \<Rightarrow> bool \<Rightarrow> string \<Rightarrow> string" where
  "inter_loop osep l1 l2 first buff =
     (if l1 = [] \<or> l2 = [] then buff
      else let val = strcmp (hd l1) (hd l2)
           in if val = 0 then
                inter_loop osep (skip_word (hd l1) (tl l1)) (skip_word (hd l1) (tl l2)) False (put_word osep first (hd l1) buff)
              else if val < 0 then inter_loop osep (tl l1) l2 first buff
              else inter_loop osep l1 (tl l2) first buff)"
  by pat_completeness auto
termination inter_loop
proof (relation "measure (\<lambda>(c, l1, l2, f, b). length l1 + length l2)", goal_cases)
  case (2 osep l1 l2 first buff x)
  have "length (skip_word (hd l1) (tl l1)) \<le> length (tl l1)" "length (skip_word (hd l1) (tl l2)) \<le> length (tl l2)"
    by (rule length_dropWhile_le)+
  moreover have "length (tl l1) < length l1" using 2 by (cases l1) auto
  ultimately show ?case using length_tl [of l2] by simp
next
  case (3 osep l1 l2 first buff x)
  then show ?case by (cases l1) auto
next
  case (4 osep l1 l2 first buff x)
  then show ?case by (cases l2) auto
qed simp

declare inter_loop.simps [simp del]

fun diff_rest :: "char \<Rightarrow> string list \<Rightarrow> string option \<Rightarrow> bool \<Rightarrow> string \<Rightarrow> string" where
  "diff_rest osep [] oldp first buff = buff"
| "diff_rest osep (x # l) oldp first buff =
     (if oldp = Some x then diff_rest osep l oldp first buff
      else diff_rest osep l (Some x) False (put_word osep first x buff))"

function diff_loop :: "char \<Rightarrow> string list \<Rightarrow> string list \<Rightarrow> bool \<Rightarrow> string \<Rightarrow> string" where
  "diff_loop osep l1 l2 first buff =
     (if l1 = [] \<or> l2 = [] then diff_rest osep l1 None first buff
      else let val = strcmp (hd l1) (hd l2)
           in if val = 0 then diff_loop osep (skip_word (hd l1) l1) (skip_word (hd l1) l2) first buff
              else if val < 0 then diff_loop osep (skip_word (hd l1) (tl l1)) l2 False (put_word osep first (hd l1) buff)
              else diff_loop osep l1 (skip_word (hd l2) (tl l2)) first buff)"
  by pat_completeness auto
termination diff_loop
proof (relation "measure (\<lambda>(c, l1, l2, f, b). length l1 + length l2)", goal_cases)
  case (2 osep l1 l2 first buff x)
  have "length (skip_word (hd l1) l1) \<le> length (tl l1)" using 2 by (cases l1) (auto simp: length_dropWhile_le)
  moreover have "length (tl l1) < length l1" "length (skip_word (hd l1) l2) \<le> length l2" using 2 by (cases l1; auto simp: length_dropWhile_le)+
  ultimately show ?case by simp
next
  case (3 osep l1 l2 first buff x)
  have "length (skip_word (hd l1) (tl l1)) \<le> length (tl l1)" by (rule length_dropWhile_le)
  moreover have "length (tl l1) < length l1" using 3 by (cases l1) auto
  ultimately show ?case by simp
next
  case (4 osep l1 l2 first buff x)
  have "length (skip_word (hd l2) (tl l2)) \<le> length (tl l2)" by (rule length_dropWhile_le)
  moreover have "length (tl l2) < length l2" using 4 by (cases l2) auto
  ultimately show ?case by simp
qed simp

declare diff_loop.simps [simp del]

definition handle_sets :: "string list \<Rightarrow> set_oper \<Rightarrow> char \<Rightarrow> char \<Rightarrow> string \<Rightarrow> string" where
  "handle_sets fargs oper sep osep buff =
     (let ptrs1 = do_asort atoi (list2arr LBUF_SIZE (fargs ! 0) sep) ALPHANUM_LIST;
          ptrs2 = do_asort atoi (list2arr LBUF_SIZE (fargs ! 1) sep) ALPHANUM_LIST
      in case oper of
           SET_UNION \<Rightarrow>
             if length ptrs1 = 1 \<and> length ptrs2 = 1 \<and> ptrs1 ! 0 = ptrs2 ! 0 then safe_str (ptrs1 ! 0) buff
             else (case union_loop osep False ptrs1 ptrs2 [] True buff of
                     (l1, l2, oldp, first, buff1) \<Rightarrow>
                       (case union_rest osep l1 oldp first buff1 of
                          (oldp1, first1, buff2) \<Rightarrow> snd (snd (union_rest osep l2 oldp1 first1 buff2))))
         | SET_INTERSECT \<Rightarrow> inter_loop osep ptrs1 ptrs2 True buff
         | SET_DIFF \<Rightarrow> diff_loop osep ptrs1 ptrs2 True buff)"

definition fun_setunion :: "string list \<Rightarrow> string \<Rightarrow> string" where
  "fun_setunion fargs = svarargs_preamble ''SETUNION'' 4 fargs (handle_sets fargs SET_UNION)"

definition fun_setdiff :: "string list \<Rightarrow> string \<Rightarrow> string" where
  "fun_setdiff fargs = svarargs_preamble ''SETDIFF'' 4 fargs (handle_sets fargs SET_DIFF)"

definition fun_setinter :: "string list \<Rightarrow> string \<Rightarrow> string" where
  "fun_setinter fargs = svarargs_preamble ''SETINTER'' 4 fargs (handle_sets fargs SET_INTERSECT)"

end
