(* ===== verification/Funlist_Laws.thy ===== *)
theory Funlist_Laws
  imports Funlist Nametab "HOL-Library.Multiset"
begin

section \<open>Lists of words in softcode: laws\<close>

text \<open>
  The sort of \<open>sortby\<close> keeps the words whatever the comparison does, and sorts when the
  comparison is an order; the set functions compute sets; and the functions on words agree with
  functions on the list of the words.
\<close>

subsection \<open>Rearranging a part of an array\<close>

text \<open>The elements between \<open>l\<close> and \<open>r\<close> are permuted and the others stay.\<close>

definition rearr :: "int \<Rightarrow> int \<Rightarrow> 'a list \<Rightarrow> 'a list \<Rightarrow> bool" where
  "rearr l r a a' \<longleftrightarrow> mset a' = mset a \<and>
     (\<forall>k. 0 \<le> k \<longrightarrow> k < int (length a) \<longrightarrow> k < l \<or> r < k \<longrightarrow> a' ! nat k = a ! nat k) \<and>
     (\<forall>k. l \<le> k \<longrightarrow> k \<le> r \<longrightarrow> (\<exists>m. l \<le> m \<and> m \<le> r \<and> a' ! nat k = a ! nat m))"

lemma rearr_length: "rearr l r a a' \<Longrightarrow> length a' = length a"
  unfolding rearr_def by (metis size_mset)

lemma rearr_refl [simp]: "rearr l r a a"
  by (auto simp: rearr_def)

lemma rearr_trans: "rearr l r a a1 \<Longrightarrow> rearr l r a1 a2 \<Longrightarrow> rearr l r a a2"
  using rearr_length [of l r a a1] unfolding rearr_def by metis

lemma rearr_stays: "rearr l r a a' \<Longrightarrow> 0 \<le> k \<Longrightarrow> k < int (length a) \<Longrightarrow> k < l \<or> r < k \<Longrightarrow> a' ! nat k = a ! nat k"
  unfolding rearr_def by blast

lemma rearr_from: "rearr l r a a' \<Longrightarrow> l \<le> k \<Longrightarrow> k \<le> r \<Longrightarrow> \<exists>m. l \<le> m \<and> m \<le> r \<and> a' ! nat k = a ! nat m"
  unfolding rearr_def by blast

lemma rearr_mono:
  assumes "rearr l r a a'" "0 \<le> l'" "l' \<le> l" "r \<le> r'" "r' < int (length a)"
  shows "rearr l' r' a a'"
proof -
  have "\<exists>m. l' \<le> m \<and> m \<le> r' \<and> a' ! nat k = a ! nat m" if k: "l' \<le> k" "k \<le> r'" for k
  proof (cases "l \<le> k \<and> k \<le> r")
    case True
    then obtain m where "l \<le> m" "m \<le> r" "a' ! nat k = a ! nat m" using rearr_from [OF assms(1)] by blast
    then show ?thesis using assms(3,4) by (intro exI [of _ m]) simp
  next
    case False
    then have "a' ! nat k = a ! nat k" using rearr_stays [OF assms(1), of k] k assms by auto
    then show ?thesis using k by blast
  qed
  moreover have "mset a' = mset a" using assms(1) by (simp add: rearr_def)
  moreover have "a' ! nat k = a ! nat k" if "0 \<le> k" "k < int (length a)" "k < l' \<or> r' < k" for k
    by (rule rearr_stays [OF assms(1) that(1,2)]) (use that(3) assms(3,4) in linarith)
  ultimately show ?thesis unfolding rearr_def by blast
qed

lemma rearr_all:
  assumes "rearr l r a a'" "\<forall>k. l \<le> k \<and> k \<le> r \<longrightarrow> P (a ! nat k)" "l \<le> k" "k \<le> r"
  shows "P (a' ! nat k)"
  using assms unfolding rearr_def by metis

lemma swap_nth:
  assumes "0 \<le> i" "i < int (length a)" "0 \<le> j" "j < int (length a)" "0 \<le> k" "k < int (length a)"
  shows "swap a i j ! nat k = (if k = i then a ! nat j else if k = j then a ! nat i else a ! nat k)"
  using assms by (auto simp: swap_def nth_list_update nat_eq_iff)

lemma swap_rearr:
  assumes "0 \<le> l" "l \<le> i" "i \<le> r" "l \<le> j" "j \<le> r" "r < int (length a)"
  shows "rearr l r a (swap a i j)"
proof -
  have "mset (swap a i j) = mset a" using assms by (simp add: swap_def mset_swap)
  moreover have "swap a i j ! nat k = a ! nat k" if "0 \<le> k" "k < int (length a)" "k < l \<or> r < k" for k
    using swap_nth [of i a j k] assms that by auto
  moreover have "\<exists>m. l \<le> m \<and> m \<le> r \<and> swap a i j ! nat k = a ! nat m" if "l \<le> k" "k \<le> r" for k
    using swap_nth [of i a j k] assms that by auto
  ultimately show ?thesis unfolding rearr_def by blast
qed

subsection \<open>The sort of sortby\<close>

lemma upto_step: "i \<le> right \<Longrightarrow> [i..right] = i # [i + 1..right]" "right < i \<Longrightarrow> [i..right] = []"
  by (simp_all add: upto.simps)

lemma qsort_loop_ok:
  assumes "qsort_loop compare left [i..right] a lastp s = (a', lastp', s')"
    and "0 \<le> left" "left \<le> lastp" "lastp < i" "i \<le> right + 1" "right < int (length a)"
  shows "rearr (left + 1) right a a'" "lastp \<le> lastp'" "lastp' \<le> right"
    and "\<lbrakk>\<forall>x y s. fst (compare x y s) < 0 \<longleftrightarrow> lt x y; \<forall>k. left < k \<and> k \<le> lastp \<longrightarrow> lt (a ! nat k) (a ! nat left);
          \<forall>k. lastp < k \<and> k < i \<longrightarrow> \<not> lt (a ! nat k) (a ! nat left)\<rbrakk> \<Longrightarrow>
      (\<forall>k. left < k \<and> k \<le> lastp' \<longrightarrow> lt (a' ! nat k) (a ! nat left)) \<and>
      (\<forall>k. lastp' < k \<and> k \<le> right \<longrightarrow> \<not> lt (a' ! nat k) (a ! nat left))"
proof -
  have "rearr (left + 1) right a a' \<and> lastp \<le> lastp' \<and> lastp' \<le> right \<and>
    ((\<forall>x y s. fst (compare x y s) < 0 \<longleftrightarrow> lt x y) \<and> (\<forall>k. left < k \<and> k \<le> lastp \<longrightarrow> lt (a ! nat k) (a ! nat left)) \<and>
     (\<forall>k. lastp < k \<and> k < i \<longrightarrow> \<not> lt (a ! nat k) (a ! nat left)) \<longrightarrow>
      (\<forall>k. left < k \<and> k \<le> lastp' \<longrightarrow> lt (a' ! nat k) (a ! nat left)) \<and>
      (\<forall>k. lastp' < k \<and> k \<le> right \<longrightarrow> \<not> lt (a' ! nat k) (a ! nat left)))"
    using assms
  proof (induction "nat (right - i + 1)" arbitrary: i a lastp s)
    case 0
    then show ?case by (simp add: upto_step(2))
  next
    case (Suc n)
    then have i: "i \<le> right" "n = nat (right - (i + 1) + 1)" by linarith+
    obtain v s1 where c: "compare (a ! nat i) (a ! nat left) s = (v, s1)" by (metis prod.collapse)
    define a1 where "a1 = (if v < 0 \<and> lastp + 1 \<noteq> i then swap a (lastp + 1) i else a)"
    define l1 where "l1 = (if v < 0 then lastp + 1 else lastp)"
    have e: "qsort_loop compare left [i + 1..right] a1 l1 s1 = (a', lastp', s')"
      using Suc.prems(1) i(1) by (simp add: upto_step(1) c a1_def l1_def split: if_splits)
    have r1: "rearr (left + 1) right a a1" using Suc.prems i(1) swap_rearr [of "left + 1" "lastp + 1" right i a] by (simp add: a1_def)
    note len = rearr_length [OF r1]
    have piv: "a1 ! nat left = a ! nat left" by (rule rearr_stays [OF r1]) (use Suc.prems in simp_all)
    have IH: "rearr (left + 1) right a1 a' \<and> l1 \<le> lastp' \<and> lastp' \<le> right \<and>
      ((\<forall>x y s. fst (compare x y s) < 0 \<longleftrightarrow> lt x y) \<and> (\<forall>k. left < k \<and> k \<le> l1 \<longrightarrow> lt (a1 ! nat k) (a1 ! nat left)) \<and>
       (\<forall>k. l1 < k \<and> k < i + 1 \<longrightarrow> \<not> lt (a1 ! nat k) (a1 ! nat left)) \<longrightarrow>
        (\<forall>k. left < k \<and> k \<le> lastp' \<longrightarrow> lt (a' ! nat k) (a1 ! nat left)) \<and>
        (\<forall>k. lastp' < k \<and> k \<le> right \<longrightarrow> \<not> lt (a' ! nat k) (a1 ! nat left)))"
      by (rule Suc.hyps(1) [OF i(2) e]) (use Suc.prems i(1) len in \<open>auto simp: l1_def\<close>)
    moreover have "(\<forall>k. left < k \<and> k \<le> l1 \<longrightarrow> lt (a1 ! nat k) (a ! nat left)) \<and> (\<forall>k. l1 < k \<and> k < i + 1 \<longrightarrow> \<not> lt (a1 ! nat k) (a ! nat left))"
      if p: "\<forall>x y s. fst (compare x y s) < 0 \<longleftrightarrow> lt x y" "\<forall>k. left < k \<and> k \<le> lastp \<longrightarrow> lt (a ! nat k) (a ! nat left)"
        "\<forall>k. lastp < k \<and> k < i \<longrightarrow> \<not> lt (a ! nat k) (a ! nat left)"
    proof -
      have v: "v < 0 \<longleftrightarrow> lt (a ! nat i) (a ! nat left)" using p(1) c by (metis fst_conv)
      have nth: "a1 ! nat k = (if v < 0 then (if k = lastp + 1 then a ! nat i else if k = i then a ! nat (lastp + 1) else a ! nat k) else a ! nat k)"
        if "left < k" "k \<le> right" for k
        using that Suc.prems i(1) swap_nth [of "lastp + 1" a i k] by (auto simp: a1_def)
      show ?thesis
      proof (intro conjI allI impI)
        fix k assume k: "left < k \<and> k \<le> l1"
        then have "k \<le> right" using Suc.prems i(1) by (auto simp: l1_def split: if_splits)
        then show "lt (a1 ! nat k) (a ! nat left)" using k nth [of k] v p(2) Suc.prems by (auto simp: l1_def split: if_splits)
      next
        fix k assume k: "l1 < k \<and> k < i + 1"
        then have "left < k" "k \<le> right" using Suc.prems i(1) by (auto simp: l1_def split: if_splits)
        then show "\<not> lt (a1 ! nat k) (a ! nat left)" using k nth [of k] v p(3) Suc.prems by (auto simp: l1_def split: if_splits)
      qed
    qed
    moreover have "lastp \<le> l1" by (simp add: l1_def)
    ultimately show ?case using rearr_trans [OF r1] piv by auto
  qed
  then show "rearr (left + 1) right a a'" "lastp \<le> lastp'" "lastp' \<le> right"
    and "\<lbrakk>\<forall>x y s. fst (compare x y s) < 0 \<longleftrightarrow> lt x y; \<forall>k. left < k \<and> k \<le> lastp \<longrightarrow> lt (a ! nat k) (a ! nat left);
          \<forall>k. lastp < k \<and> k < i \<longrightarrow> \<not> lt (a ! nat k) (a ! nat left)\<rbrakk> \<Longrightarrow>
      (\<forall>k. left < k \<and> k \<le> lastp' \<longrightarrow> lt (a' ! nat k) (a ! nat left)) \<and>
      (\<forall>k. lastp' < k \<and> k \<le> right \<longrightarrow> \<not> lt (a' ! nat k) (a ! nat left))" by blast+
qed

text \<open>What the comparison decides, when it does not depend on the state.\<close>

definition decides :: "('a \<Rightarrow> 'a \<Rightarrow> 's \<Rightarrow> int \<times> 's) \<Rightarrow> ('a \<Rightarrow> 'a \<Rightarrow> bool) \<Rightarrow> bool" where
  "decides compare lt \<longleftrightarrow> (\<forall>x y s. fst (compare x y s) < 0 \<longleftrightarrow> lt x y)"

definition weak_order :: "('a \<Rightarrow> 'a \<Rightarrow> bool) \<Rightarrow> bool" where
  "weak_order lt \<longleftrightarrow> (\<forall>x y. lt x y \<longrightarrow> \<not> lt y x) \<and> (\<forall>x y z. \<not> lt x y \<longrightarrow> \<not> lt y z \<longrightarrow> \<not> lt x z)"

lemma weak_orderD:
  assumes "weak_order lt"
  shows "lt x y \<Longrightarrow> \<not> lt y x" "\<not> lt x x" "\<not> lt x y \<Longrightarrow> \<not> lt y z \<Longrightarrow> \<not> lt x z"
  using assms unfolding weak_order_def by blast+

lemma qsort_pass_ok:
  assumes p: "qsort_pass compare rnd a left right s = (a', lastp, s')"
    and b: "0 \<le> left" "left < right" "right < int (length a)"
  shows "rearr left right a a'" "left \<le> lastp" "lastp \<le> right"
    and "decides compare lt \<Longrightarrow> weak_order lt \<Longrightarrow>
      (\<forall>k. left \<le> k \<and> k \<le> lastp - 1 \<longrightarrow> \<not> lt (a' ! nat lastp) (a' ! nat k)) \<and>
      (\<forall>k. lastp + 1 \<le> k \<and> k \<le> right \<longrightarrow> \<not> lt (a' ! nat k) (a' ! nat lastp))"
proof -
  obtain r s1 where r: "rnd s = (r, s1)" by (metis prod.collapse)
  define a0 where "a0 = swap a left (left + r mod (right - left))"
  obtain a1 s2 where l: "qsort_loop compare left [left + 1..right] a0 left s1 = (a1, lastp, s2)" and a': "a' = swap a1 lastp left"
    using p by (auto simp: qsort_pass_def r a0_def Let_def split: prod.splits)
  have "0 \<le> r mod (right - left)" "r mod (right - left) < right - left" using b by simp_all
  then have "left \<le> left + r mod (right - left)" "left + r mod (right - left) \<le> right" by linarith+
  then have r0: "rearr left right a a0" unfolding a0_def using b by (intro swap_rearr) simp_all
  note len0 = rearr_length [OF r0]
  have r': "left \<le> left" "left < left + 1" "left + 1 \<le> right + 1" "right < int (length a0)" using b len0 by simp_all
  note q = qsort_loop_ok [OF l b(1) r']
  have r1: "rearr left right a0 a1" by (rule rearr_mono [OF q(1)]) (use b len0 in simp_all)
  note len1 = rearr_length [OF r1]
  have "rearr left right a1 a'" unfolding a' by (rule swap_rearr) (use b q(2,3) len0 len1 in simp_all)
  then show "rearr left right a a'" using rearr_trans [OF rearr_trans [OF r0 r1]] by blast
  show "left \<le> lastp" "lastp \<le> right" by (rule q(2,3))+
  assume d: "decides compare lt" and w: "weak_order lt"
  have piv: "a1 ! nat left = a0 ! nat left" by (rule rearr_stays [OF q(1)]) (use b len0 in simp_all)
  have "(\<forall>k. left < k \<and> k \<le> lastp \<longrightarrow> lt (a1 ! nat k) (a0 ! nat left)) \<and>
      (\<forall>k. lastp < k \<and> k \<le> right \<longrightarrow> \<not> lt (a1 ! nat k) (a0 ! nat left))"
    by (rule q(4)) (use d in \<open>auto simp: decides_def\<close>)
  then have part: "left < k \<Longrightarrow> k \<le> lastp \<Longrightarrow> lt (a1 ! nat k) (a0 ! nat left)"
    and part2: "lastp < k \<Longrightarrow> k \<le> right \<Longrightarrow> \<not> lt (a1 ! nat k) (a0 ! nat left)" for k by blast+
  have nth: "a' ! nat k = (if k = lastp then a0 ! nat left else if k = left then a1 ! nat lastp else a1 ! nat k)"
    if "left \<le> k" "k \<le> right" for k
    unfolding a' using swap_nth [of lastp a1 left k] that b q(2,3) len0 len1 piv by simp
  show "(\<forall>k. left \<le> k \<and> k \<le> lastp - 1 \<longrightarrow> \<not> lt (a' ! nat lastp) (a' ! nat k)) \<and>
      (\<forall>k. lastp + 1 \<le> k \<and> k \<le> right \<longrightarrow> \<not> lt (a' ! nat k) (a' ! nat lastp))"
  proof (intro conjI allI impI)
    fix k assume k: "left \<le> k \<and> k \<le> lastp - 1"
    have "lt (a' ! nat k) (a0 ! nat left)" using k nth [of k] part [of k] part [of lastp] q(2,3) by auto
    then show "\<not> lt (a' ! nat lastp) (a' ! nat k)" using weak_orderD(1) [OF w] nth [of lastp] q(2,3) by simp
  next
    fix k assume k: "lastp + 1 \<le> k \<and> k \<le> right"
    then show "\<not> lt (a' ! nat k) (a' ! nat lastp)" using nth [of k] nth [of lastp] part2 [of k] q(2,3) by simp
  qed
qed

definition sorted_part :: "('a \<Rightarrow> 'a \<Rightarrow> bool) \<Rightarrow> int \<Rightarrow> int \<Rightarrow> 'a list \<Rightarrow> bool" where
  "sorted_part lt l r a \<longleftrightarrow> (\<forall>i j. l \<le> i \<longrightarrow> i < j \<longrightarrow> j \<le> r \<longrightarrow> \<not> lt (a ! nat j) (a ! nat i))"

text \<open>Two sorted parts with an element between them that separates them.\<close>

lemma sorted_join:
  assumes "sorted_part lt l (m - 1) a" "sorted_part lt (m + 1) r a" "weak_order lt"
    "\<forall>k. l \<le> k \<and> k \<le> m - 1 \<longrightarrow> \<not> lt (a ! nat m) (a ! nat k)" "\<forall>k. m + 1 \<le> k \<and> k \<le> r \<longrightarrow> \<not> lt (a ! nat k) (a ! nat m)"
  shows "sorted_part lt l r a"
  unfolding sorted_part_def
proof (intro allI impI)
  fix i j assume ij: "l \<le> i" "i < j" "j \<le> r"
  consider "j < m" | "j = m" | "i < m" "m < j" | "i = m" "m < j" | "m < i" "m < j" using ij by linarith
  then show "\<not> lt (a ! nat j) (a ! nat i)"
  proof cases
    case 3
    then have "\<not> lt (a ! nat j) (a ! nat m)" "\<not> lt (a ! nat m) (a ! nat i)" using ij assms(4,5) by auto
    then show ?thesis by (rule weak_orderD(3) [OF assms(3)])
  qed (use ij assms(1,2,4,5) in \<open>auto simp: sorted_part_def\<close>)
qed

lemma sorted_part_stays:
  assumes "sorted_part lt l r a" "rearr l' r' a a'" "0 \<le> l" "r < int (length a)" "r < l' \<or> r' < l"
  shows "sorted_part lt l r a'"
  unfolding sorted_part_def
proof (intro allI impI)
  fix i j assume ij: "l \<le> i" "i < j" "j \<le> r"
  have "a' ! nat i = a ! nat i" "a' ! nat j = a ! nat j" by (rule rearr_stays [OF assms(2)]; use ij assms in linarith)+
  then show "\<not> lt (a' ! nat j) (a' ! nat i)" using assms(1) ij by (simp add: sorted_part_def)
qed

lemma rearr_range:
  assumes "rearr l r a a'" "l = u \<and> r = v \<or> r < u \<or> v < l" "0 \<le> u" "v < int (length a)"
    "\<forall>k. u \<le> k \<and> k \<le> v \<longrightarrow> P (a ! nat k)"
  shows "\<forall>k. u \<le> k \<and> k \<le> v \<longrightarrow> P (a' ! nat k)"
proof (intro allI impI)
  fix k assume k: "u \<le> k \<and> k \<le> v"
  show "P (a' ! nat k)"
  proof (cases "l = u \<and> r = v")
    case True
    then obtain m where "u \<le> m" "m \<le> v" "a' ! nat k = a ! nat m" using rearr_from [OF assms(1), of k] k by blast
    then show ?thesis using assms(5) by simp
  next
    case False
    then have "a' ! nat k = a ! nat k" using assms(2-4) k by (intro rearr_stays [OF assms(1)]) auto
    then show ?thesis using assms(5) k by simp
  qed
qed

lemma two_parts:
  assumes r1: "rearr l1 r1 a1 a2" "sorted_part lt l1 r1 a2" and r2: "rearr l2 r2 a2 a3" "sorted_part lt l2 r2 a3"
    and lr: "l1 = left \<and> r1 = m - 1 \<and> l2 = m + 1 \<and> r2 = right \<or> l2 = left \<and> r2 = m - 1 \<and> l1 = m + 1 \<and> r1 = right"
    and b: "0 \<le> left" "left \<le> m" "m \<le> right" "right < int (length a1)" and w: "weak_order lt"
    and sep: "\<forall>k. left \<le> k \<and> k \<le> m - 1 \<longrightarrow> \<not> lt (a1 ! nat m) (a1 ! nat k)" "\<forall>k. m + 1 \<le> k \<and> k \<le> right \<longrightarrow> \<not> lt (a1 ! nat k) (a1 ! nat m)"
  shows "sorted_part lt left right a3"
proof -
  have len: "length a2 = length a1" using rearr_length [OF r1(1)] .
  have "a2 ! nat m = a1 ! nat m" by (rule rearr_stays [OF r1(1)]) (use lr b in auto)
  moreover have "a3 ! nat m = a2 ! nat m" by (rule rearr_stays [OF r2(1)]) (use lr b len in auto)
  ultimately have m: "a3 ! nat m = a1 ! nat m" by simp
  have lo: "l1 = left \<and> r1 = m - 1 \<or> r1 < left \<or> m - 1 < l1" "l2 = left \<and> r2 = m - 1 \<or> r2 < left \<or> m - 1 < l2"
    "l1 = m + 1 \<and> r1 = right \<or> r1 < m + 1 \<or> right < l1" "l2 = m + 1 \<and> r2 = right \<or> r2 < m + 1 \<or> right < l2" using lr by auto
  have i: "0 \<le> left" "m - 1 < int (length a1)" "m - 1 < int (length a2)" "0 \<le> m + 1" "right < int (length a1)" "right < int (length a2)"
    using b len by simp_all
  have s1: "\<forall>k. left \<le> k \<and> k \<le> m - 1 \<longrightarrow> \<not> lt (a3 ! nat m) (a3 ! nat k)"
    unfolding m by (rule rearr_range [OF r2(1) lo(2) i(1,3) rearr_range [OF r1(1) lo(1) i(1,2) sep(1)]])
  have s2: "\<forall>k. m + 1 \<le> k \<and> k \<le> right \<longrightarrow> \<not> lt (a3 ! nat k) (a3 ! nat m)"
    unfolding m by (rule rearr_range [OF r2(1) lo(4) i(4,6) rearr_range [OF r1(1) lo(3) i(4,5) sep(2)]])
  have "sorted_part lt l1 r1 a3" by (rule sorted_part_stays [OF r1(2) r2(1)]) (use lr b len in auto)
  then have "sorted_part lt left (m - 1) a3" "sorted_part lt (m + 1) right a3" using lr r2(2) by auto
  then show ?thesis by (rule sorted_join [OF _ _ w s1 s2])
qed

lemma sane_qsort_ok:
  assumes "sane_qsort compare rnd a left right s = (a', s')" "0 \<le> left" "right < int (length a)"
  shows "rearr left right a a' \<and> (decides compare lt \<longrightarrow> weak_order lt \<longrightarrow> sorted_part lt left right a')"
  using assms
proof (induction compare rnd a left right s arbitrary: a' s' rule: sane_qsort.induct)
  case (1 compare rnd a left right s)
  show ?case
  proof (cases "left \<ge> right")
    case True
    then show ?thesis using "1.prems"(1) by (auto simp: sane_qsort.simps [of _ _ a] sorted_part_def)
  next
    case False
    then have lr: "left < right" by simp
    obtain a1 m s1 where p: "qsort_pass compare rnd a left right s = (a1, m, s1)" by (metis prod.collapse)
    note pass = qsort_pass_ok(1-3) [OF p "1.prems"(2) lr "1.prems"(3)] qsort_pass_ok(4) [where lt = lt, OF p "1.prems"(2) lr "1.prems"(3)]
    define l1 r1 l2 r2 where "l1 = (if m - left < right - m then left else m + 1)" and "r1 = (if m - left < right - m then m - 1 else right)"
      and "l2 = (if m - left < right - m then m + 1 else left)" and "r2 = (if m - left < right - m then right else m - 1)"
    note d = l1_def r1_def l2_def r2_def
    obtain a2 s2 where q: "sane_qsort compare rnd a1 l1 r1 s1 = (a2, s2)" by (metis prod.collapse)
    have q2: "sane_qsort compare rnd a2 l2 r2 s2 = (a', s')"
      using "1.prems"(1) False p q by (auto simp: sane_qsort.simps [of _ _ a] d split: if_splits)
    have b: "0 \<le> l1" "r1 < int (length a1)" "0 \<le> l2" "r2 < int (length a1)"
      using pass(2,3) "1.prems"(2,3) rearr_length [OF pass(1)] by (auto simp: d)
    have IH1: "rearr l1 r1 a1 a2 \<and> (decides compare lt \<longrightarrow> weak_order lt \<longrightarrow> sorted_part lt l1 r1 a2)"
      using "1.IH"(1) [OF False p [symmetric] refl] "1.IH"(3) [OF False p [symmetric] refl] q b(1,2) by (auto simp: d split: if_splits)
    have b2: "r2 < int (length a2)" using b(4) IH1 rearr_length by fastforce
    have IH2: "rearr l2 r2 a2 a' \<and> (decides compare lt \<longrightarrow> weak_order lt \<longrightarrow> sorted_part lt l2 r2 a')"
      using "1.IH"(2) [OF False p [symmetric] refl] "1.IH"(4) [OF False p [symmetric] refl] q q2 b(3) b2 by (auto simp: d split: if_splits)
    have part: "l1 = left \<and> r1 = m - 1 \<and> l2 = m + 1 \<and> r2 = right \<or> l2 = left \<and> r2 = m - 1 \<and> l1 = m + 1 \<and> r1 = right"
      by (simp add: d)
    have w: "rearr left right a1 a2" "rearr left right a2 a'"
      by (rule rearr_mono [OF conjunct1 [OF IH1]] rearr_mono [OF conjunct1 [OF IH2]];
          use part pass(2,3) "1.prems"(2,3) rearr_length [OF pass(1)] rearr_length [OF conjunct1 [OF IH1]] in auto)+
    have "rearr left right a a'" by (rule rearr_trans [OF pass(1) rearr_trans [OF w]])
    moreover have "sorted_part lt left right a'" if "decides compare lt" "weak_order lt"
      by (rule two_parts [OF conjunct1 [OF IH1] _ conjunct1 [OF IH2] _ part "1.prems"(2) pass(2,3) _ that(2)])
        (use IH1 IH2 that pass(4) "1.prems"(3) rearr_length [OF pass(1)] in auto)
    ultimately show ?thesis by blast
  qed
qed

subsection \<open>Texts made of words\<close>

text \<open>The words \<open>ws\<close> with separators between them, and one in front unless they come first.\<close>

definition with_sep :: "char \<Rightarrow> bool \<Rightarrow> string list \<Rightarrow> string" where
  "with_sep osep first ws = (if ws = [] then [] else if first then joined [osep] ws else osep # joined [osep] ws)"

lemma with_sep_Nil [simp]: "with_sep osep first [] = []"
  by (simp add: with_sep_def)

lemma with_sep_Cons: "with_sep osep first (x # ws) = (if first then x else osep # x) @ with_sep osep False ws"
  by (cases ws) (simp_all add: with_sep_def)

lemma with_sep_True: "with_sep osep True ws = joined [osep] ws"
  by (simp add: with_sep_def)

lemma put_word_cap: "put_word osep first x (cap b) = cap (b @ (if first then x else osep # x))"
  by (simp add: put_word_def)

lemma arr2list_cap: "arr2list arr sep (cap b) = cap (b @ joined [sep] arr)"
proof -
  have "arr2list_loop arr g sep (cap b) = cap (b @ with_sep sep (\<not> g) arr)" for g
    by (induction arr arbitrary: g b) (simp_all add: with_sep_Cons)
  then show ?thesis by (simp add: arr2list_def with_sep_True)
qed

subsection \<open>Sets\<close>

lemma strcmp_less: "strcmp s t < 0 \<longleftrightarrow> s < t" "strcmp s t = 0 \<longleftrightarrow> s = t"
proof -
  have "(strcmp s t < 0 \<longleftrightarrow> s < t) \<and> (strcmp s t = 0 \<longleftrightarrow> s = t)"
    by (induction s t rule: strcmp.induct) (auto simp: less_char_def)
  then show "strcmp s t < 0 \<longleftrightarrow> s < t" "strcmp s t = 0 \<longleftrightarrow> s = t" by blast+
qed

text \<open>The ordered list of a set, after its least element.\<close>

lemma sorted_list_insert_least:
  fixes x :: "'a::linorder"
  assumes "finite A" "\<forall>y\<in>A. x < y"
  shows "sorted_list_of_set (insert x A) = x # sorted_list_of_set A"
proof -
  have "x \<notin> A" using assms(2) by auto
  moreover have "insort x (sorted_list_of_set A) = x # sorted_list_of_set A"
    by (rule insort_is_Cons) (use assms in \<open>auto intro: less_imp_le\<close>)
  ultimately show ?thesis using assms(1) by simp
qed

lemma skip_word_sorted:
  assumes "sorted l" "\<forall>y\<in>set l. x \<le> y"
  shows "sorted (skip_word x l)" "set (skip_word x l) = set l - {x}" "\<forall>y\<in>set (skip_word x l). x < y"
proof -
  have "set (skip_word x l) = set l - {x} \<and> (\<forall>y\<in>set (skip_word x l). x < y)"
    using assms by (induction l) auto
  then show "set (skip_word x l) = set l - {x}" "\<forall>y\<in>set (skip_word x l). x < y" by blast+
  show "sorted (skip_word x l)" using assms(1) by (rule sorted_dropWhile)
qed

lemma inter_loop_cap:
  assumes "sorted l1" "sorted l2"
  shows "inter_loop osep l1 l2 first (cap b) = cap (b @ with_sep osep first (sorted_list_of_set (set l1 \<inter> set l2)))"
  using assms
proof (induction "length l1 + length l2" arbitrary: l1 l2 first b rule: less_induct)
  case less
  show ?case
  proof (cases "l1 = [] \<or> l2 = []")
    case True
    then show ?thesis by (auto simp: inter_loop.simps)
  next
    case False
    then obtain x m1 y m2 where l: "l1 = x # m1" "l2 = y # m2" by (meson list.exhaust)
    have s: "sorted m1" "sorted m2" "\<forall>z\<in>set m1. x \<le> z" "\<forall>z\<in>set m2. y \<le> z" using less.prems l by auto
    note e = inter_loop.simps [of osep l1 l2 first "cap b"]
    consider "x = y" | "x < y" | "y < x" by (rule linorder_cases)
    then show ?thesis
    proof cases
      case 1
      note k1 = skip_word_sorted [OF s(1,3)] and k2 = skip_word_sorted [OF s(2,4)]
      have lt: "length (skip_word x m1) + length (skip_word x m2) < length l1 + length l2"
        using length_dropWhile_le [of "\<lambda>z. z = x" m1] length_dropWhile_le [of "\<lambda>z. z = x" m2] by (simp add: l)
      have "set l1 \<inter> set l2 = insert x (set (skip_word x m1) \<inter> set (skip_word x m2))" using k1(2) k2(2) 1 by (auto simp: l)
      then have "sorted_list_of_set (set l1 \<inter> set l2) = x # sorted_list_of_set (set (skip_word x m1) \<inter> set (skip_word x m2))"
        using k1(3) by (simp only:) (rule sorted_list_insert_least; simp)
      then show ?thesis using less.hyps [OF lt, of False] k1(1) k2(1) 1 e by (simp add: l strcmp_less put_word_cap with_sep_Cons)
    next
      case 2
      then have "set l1 \<inter> set l2 = set m1 \<inter> set l2" using s(4) by (auto simp: l)
      then show ?thesis using less.hyps [of m1 l2] less.prems s(1) 2 e strcmp_less [of x y] by (simp add: l)
    next
      case 3
      then have "\<not> strcmp x y < 0" "strcmp x y \<noteq> 0" by (auto simp: strcmp_less)
      moreover have "set l1 \<inter> set l2 = set l1 \<inter> set m2" using s(3) 3 by (auto simp: l)
      ultimately show ?thesis using less.hyps [of l1 m2] less.prems s(2) e by (simp add: l)
    qed
  qed
qed

lemma diff_rest_cap:
  assumes "sorted l" "\<forall>x. oldp = Some x \<longrightarrow> (\<forall>y\<in>set l. x \<le> y)"
  shows "diff_rest osep l oldp first (cap b) = cap (b @ with_sep osep first (sorted_list_of_set (set l - set_option oldp)))"
  using assms
proof (induction l arbitrary: oldp first b)
  case (Cons x l)
  show ?case
  proof (cases "oldp = Some x")
    case True
    then show ?thesis using Cons by simp
  next
    case False
    have IH: "diff_rest osep l (Some x) False (cap b') = cap (b' @ with_sep osep False (sorted_list_of_set (set l - {x})))" for b'
      using Cons.IH [of "Some x" False b'] Cons.prems(1) by simp
    have old: "set (x # l) - set_option oldp = insert x (set l - {x})"
    proof (cases oldp)
      case (Some o')
      then have "o' \<le> x" "o' \<noteq> x" using Cons.prems(2) False by auto
      moreover have "\<forall>y\<in>set l. x \<le> y" using Cons.prems(1) by simp
      ultimately show ?thesis using Some by auto
    qed auto
    have "sorted_list_of_set (insert x (set l - {x})) = x # sorted_list_of_set (set l - {x})"
      by (rule sorted_list_insert_least) (use Cons.prems(1) in \<open>auto simp: less_le\<close>)
    then show ?thesis using False IH old by (simp add: put_word_cap with_sep_Cons)
  qed
qed simp

lemma diff_loop_cap:
  assumes "sorted l1" "sorted l2"
  shows "diff_loop osep l1 l2 first (cap b) = cap (b @ with_sep osep first (sorted_list_of_set (set l1 - set l2)))"
  using assms
proof (induction "length l1 + length l2" arbitrary: l1 l2 first b rule: less_induct)
  case less
  show ?case
  proof (cases "l1 = [] \<or> l2 = []")
    case True
    then show ?thesis using diff_rest_cap [of l1 None] less.prems by (auto simp: diff_loop.simps)
  next
    case False
    then obtain x m1 y m2 where l: "l1 = x # m1" "l2 = y # m2" by (meson list.exhaust)
    have s: "sorted m1" "sorted m2" "\<forall>z\<in>set m1. x \<le> z" "\<forall>z\<in>set m2. y \<le> z" using less.prems l by auto
    note e = diff_loop.simps [of osep l1 l2 first "cap b"]
    have len: "length (skip_word x m1) \<le> length m1" "length (skip_word y m2) \<le> length m2" "length (skip_word x m2) \<le> length m2"
      by (rule length_dropWhile_le)+
    note k1 = skip_word_sorted [OF s(1,3)] and k2 = skip_word_sorted [OF s(2,4)]
    consider "x = y" | "x < y" | "y < x" by (rule linorder_cases)
    then show ?thesis
    proof cases
      case 1
      have "set l1 - set l2 = set (skip_word x m1) - set (skip_word x m2)" using k1(2) k2(2) 1 by (auto simp: l)
      then show ?thesis using less.hyps [of "skip_word x m1" "skip_word x m2"] k1(1) k2(1) 1 e len by (simp add: l strcmp_less)
    next
      case 2
      have "set l1 - set l2 = insert x (set (skip_word x m1) - set l2)" using k1(2) s(4) 2 by (auto simp: l)
      then have "sorted_list_of_set (set l1 - set l2) = x # sorted_list_of_set (set (skip_word x m1) - set l2)"
        using k1(3) by (simp only:) (rule sorted_list_insert_least; simp)
      then show ?thesis using less.hyps [of "skip_word x m1" l2 False] less.prems k1(1) 2 e len strcmp_less [of x y]
        by (simp add: l put_word_cap with_sep_Cons)
    next
      case 3
      then have "\<not> strcmp x y < 0" "strcmp x y \<noteq> 0" by (auto simp: strcmp_less)
      moreover have "set l1 - set l2 = set l1 - set (skip_word y m2)" using k2(2) s(3) 3 by (auto simp: l)
      ultimately show ?thesis using less.hyps [of l1 "skip_word y m2"] less.prems k2(1) e len by (simp add: l)
    qed
  qed
qed

text \<open>In a union the empty word is not shown; \<open>first\<close> is true as long as nothing was.\<close>

lemma union_rest_cap:
  assumes "sorted l" "\<forall>y\<in>set l. oldp \<le> y" "union_rest osep l oldp (oldp = []) (cap b) = (oldp', first', buff)"
  shows "buff = cap (b @ with_sep osep (oldp = []) (sorted_list_of_set (set l - {oldp, []}))) \<and> first' = (oldp' = []) \<and>
    (l = [] \<longrightarrow> oldp' = oldp)"
  using assms
proof (induction l arbitrary: oldp b)
  case (Cons x l)
  have x: "oldp \<le> x" "\<forall>y\<in>set l. x \<le> y" using Cons.prems by auto
  show ?case
  proof (cases "oldp = x")
    case True
    then have "union_rest osep l x (x = []) (cap b) = (oldp', first', buff)" using Cons.prems(3) by (simp split: if_splits)
    then show ?thesis using Cons.IH [of x b] Cons.prems(1) x True by (auto simp: insert_commute)
  next
    case False
    then have ne: "x \<noteq> []" using x(1) by (cases x) auto
    have r: "union_rest osep l x (x = []) (cap (b @ (if oldp = [] then x else osep # x))) = (oldp', first', buff)"
      using Cons.prems(3) False by (simp add: put_word_cap)
    have IH: "buff = cap ((b @ (if oldp = [] then x else osep # x)) @ with_sep osep (x = []) (sorted_list_of_set (set l - {x, []})))"
        "first' = (oldp' = [])"
      using Cons.IH [OF _ x(2) r] Cons.prems(1) by simp_all
    have "set (x # l) - {oldp, []} = insert x (set l - {x, []})"
    proof -
      have "oldp < x" using x(1) False by simp
      then have "oldp \<notin> set l" using x(2) by auto
      then show ?thesis using ne False by auto
    qed
    moreover have "sorted_list_of_set (insert x (set l - {x, []})) = x # sorted_list_of_set (set l - {x, []})"
      by (rule sorted_list_insert_least) (use x(2) in \<open>auto simp: less_le\<close>)
    ultimately show ?thesis using IH ne by (simp add: with_sep_Cons)
  qed
qed simp

text \<open>The union from its first loop on.\<close>

definition union_from :: "char \<Rightarrow> bool \<Rightarrow> string list \<Rightarrow> string list \<Rightarrow> string \<Rightarrow> string \<Rightarrow> string" where
  "union_from osep started l1 l2 oldp buff =
     (case union_loop osep started l1 l2 oldp (oldp = []) buff of
        (l1, l2, oldp, first, buff1) \<Rightarrow>
          (case union_rest osep l1 oldp first buff1 of
             (oldp1, first1, buff2) \<Rightarrow> snd (snd (union_rest osep l2 oldp1 first1 buff2))))"

lemma union_rests:
  assumes "m1 = [] \<or> m2 = []" "sorted m1" "sorted m2" "\<forall>y\<in>set m1 \<union> set m2. oldp \<le> y"
  shows "(case union_rest osep m1 oldp (oldp = []) (cap b) of
      (oldp1, first1, buff2) \<Rightarrow> snd (snd (union_rest osep m2 oldp1 first1 buff2))) =
    cap (b @ with_sep osep (oldp = []) (sorted_list_of_set (set m1 \<union> set m2 - {oldp, []})))"
proof -
  obtain o1 f1 b1 where r1: "union_rest osep m1 oldp (oldp = []) (cap b) = (o1, f1, b1)" by (metis prod.collapse)
  obtain o2 f2 b2 where r2: "union_rest osep m2 o1 f1 b1 = (o2, f2, b2)" by (metis prod.collapse)
  show ?thesis
  proof (cases "m1 = []")
    case True
    then have r2': "union_rest osep m2 oldp (oldp = []) (cap b) = (o2, f2, b2)" using r1 r2 by auto
    then show ?thesis using union_rest_cap [OF assms(3) _ r2'] assms(4) True by simp
  next
    case False
    then show ?thesis using union_rest_cap [OF assms(2) _ r1] assms r1 by simp
  qed
qed

lemma union_from_cap:
  assumes "sorted l1" "sorted l2" "\<forall>y\<in>set l1 \<union> set l2. oldp \<le> y" "\<not> started \<longrightarrow> oldp = []"
  shows "union_from osep started l1 l2 oldp (cap b) =
    cap (b @ with_sep osep (oldp = []) (sorted_list_of_set (set l1 \<union> set l2 - {oldp, []})))"
  using assms
proof (induction "length l1 + length l2" arbitrary: started l1 l2 oldp b rule: less_induct)
  case less
  define m1 where "m1 = (if started then skip_word oldp l1 else l1)"
  define m2 where "m2 = (if started then skip_word oldp l2 else l2)"
  have l: "\<forall>y\<in>set l1. oldp \<le> y" "\<forall>y\<in>set l2. oldp \<le> y" using less.prems(3) by auto
  note sk1 = skip_word_sorted [OF less.prems(1) l(1)] and sk2 = skip_word_sorted [OF less.prems(2) l(2)]
  have s1: "sorted m1" "set m1 = (if started then set l1 - {oldp} else set l1)" "length m1 \<le> length l1"
    using less.prems(1) sk1 length_dropWhile_le [of "\<lambda>x. x = oldp" l1] by (simp_all add: m1_def)
  have s2: "sorted m2" "set m2 = (if started then set l2 - {oldp} else set l2)" "length m2 \<le> length l2"
    using less.prems(2) sk2 length_dropWhile_le [of "\<lambda>x. x = oldp" l2] by (simp_all add: m2_def)
  have m: "sorted m1" "sorted m2" "\<forall>y\<in>set m1 \<union> set m2. oldp \<le> y" "length m1 \<le> length l1" "length m2 \<le> length l2"
    using s1 s2 l by (auto split: if_splits)
  have sm: "set l1 \<union> set l2 - {oldp, []} = set m1 \<union> set m2 - {oldp, []}" using s1(2) s2(2) by auto
  have new: "\<forall>y\<in>set m1 \<union> set m2. started \<longrightarrow> oldp < y" using s1(2) s2(2) l by (auto simp: less_le)
  show ?case
  proof (cases "l1 = [] \<or> l2 = []")
    case True
    then have "union_loop osep started l1 l2 oldp (oldp = []) (cap b) = (l1, l2, oldp, oldp = [], cap b)" by (simp add: union_loop.simps)
    then show ?thesis using union_rests [OF True less.prems(1-3)] by (simp add: union_from_def)
  next
    case F: False
    show ?thesis
    proof (cases "m1 = [] \<or> m2 = []")
      case True
      have "union_loop osep started l1 l2 oldp (oldp = []) (cap b) = (m1, m2, oldp, oldp = [], cap b)"
        using F True by (simp add: union_loop.simps [of osep started] m1_def [symmetric] m2_def [symmetric] Let_def)
      then show ?thesis using union_rests [OF True m(1-3)] by (simp add: union_from_def sm)
    next
      case False
      then obtain x n1 y n2 where n: "m1 = x # n1" "m2 = y # n2" by (meson list.exhaust)
      define z where "z = (if x < y then x else y)"
      define k1 where "k1 = (if x < y then n1 else m1)"
      define k2 where "k2 = (if x < y then m2 else n2)"
      have step: "union_loop osep started l1 l2 oldp (oldp = []) (cap b) =
          union_loop osep True k1 k2 z (z = []) (cap (b @ (if oldp = [] then z else osep # z)))"
        using F False by (subst union_loop.simps)
          (simp add: m1_def [symmetric] m2_def [symmetric] Let_def n strcmp_less put_word_cap z_def k1_def k2_def)
      have sk: "sorted k1" "sorted k2" "\<forall>u\<in>set k1 \<union> set k2. z \<le> u" "length k1 + length k2 < length l1 + length l2"
        using m by (auto simp: n z_def k1_def k2_def)
      have IH: "union_from osep True k1 k2 z (cap b') = cap (b' @ with_sep osep (z = []) (sorted_list_of_set (set k1 \<union> set k2 - {z, []})))" for b'
        by (rule less.hyps [OF sk(4,1,2,3)]) simp
      have u: "set m1 \<union> set m2 = insert z (set k1 \<union> set k2)" by (auto simp: n z_def k1_def k2_def)
      have e: "union_from osep started l1 l2 oldp (cap b) = union_from osep True k1 k2 z (cap (b @ (if oldp = [] then z else osep # z)))"
        by (simp only: union_from_def step)
      show ?thesis
      proof (cases "z = []")
        case True
        then have "oldp = []" using m(3) u by (cases oldp) auto
        then show ?thesis unfolding e IH sm u using True by simp
      next
        case ne: False
        have "oldp < z \<or> oldp = [] \<and> \<not> started" using new u less.prems(4) by auto
        then have "oldp \<noteq> z" "oldp \<notin> set k1 \<union> set k2 \<or> oldp = []" using ne sk(3) leD by (fastforce, metis)
        then have "oldp \<noteq> z" "oldp \<notin> set k1 \<union> set k2 - {z, []}" by auto
        then have "set m1 \<union> set m2 - {oldp, []} = insert z (set k1 \<union> set k2 - {z, []})" unfolding u using ne by auto
        moreover have "sorted_list_of_set (insert z (set k1 \<union> set k2 - {z, []})) = z # sorted_list_of_set (set k1 \<union> set k2 - {z, []})"
          by (rule sorted_list_insert_least) (use sk(3) in \<open>auto simp: less_le\<close>)
        ultimately show ?thesis unfolding e IH sm using ne by (simp add: with_sep_Cons)
      qed
    qed
  qed
qed

lemma handle_sets_cap:
  "handle_sets fargs oper sep osep (cap b) = cap (b @ joined [osep] (sorted_list_of_set
     (let A = set (list2arr LBUF_SIZE (fargs ! 0) sep); B = set (list2arr LBUF_SIZE (fargs ! 1) sep)
      in case oper of SET_UNION \<Rightarrow> A \<union> B - {[]} | SET_INTERSECT \<Rightarrow> A \<inter> B | SET_DIFF \<Rightarrow> A - B)))"
proof -
  define p1 where "p1 = sort (list2arr LBUF_SIZE (fargs ! 0) sep)"
  define p2 where "p2 = sort (list2arr LBUF_SIZE (fargs ! 1) sep)"
  have p: "sorted p1" "sorted p2" "set p1 = set (list2arr LBUF_SIZE (fargs ! 0) sep)" "set p2 = set (list2arr LBUF_SIZE (fargs ! 1) sep)"
    by (simp_all add: p1_def p2_def)
  have h: "handle_sets fargs oper sep osep (cap b) =
    (case oper of
       SET_UNION \<Rightarrow> if length p1 = 1 \<and> length p2 = 1 \<and> p1 ! 0 = p2 ! 0 then safe_str (p1 ! 0) (cap b) else union_from osep False p1 p2 [] (cap b)
     | SET_INTERSECT \<Rightarrow> inter_loop osep p1 p2 True (cap b)
     | SET_DIFF \<Rightarrow> diff_loop osep p1 p2 True (cap b))"
    by (simp only: handle_sets_def do_asort_def p1_def p2_def union_from_def Let_def list_type.case simp_thms)
  show ?thesis
  proof (cases oper)
    case SET_UNION
    have u: "union_from osep False p1 p2 [] (cap b) = cap (b @ joined [osep] (sorted_list_of_set (set p1 \<union> set p2 - {[]})))"
      using union_from_cap [OF p(1,2), of "[]" False osep b] by (simp add: with_sep_True)
    show ?thesis
    proof (cases "length p1 = 1 \<and> length p2 = 1 \<and> p1 ! 0 = p2 ! 0")
      case True
      then obtain x where x: "p1 = [x]" "p2 = [x]" by (cases p1; cases p2) auto
      have "sorted_list_of_set (set p1 \<union> set p2 - {[]}) = (if x = [] then [] else [x])" using x by simp
      then have "safe_str (p1 ! 0) (cap b) = cap (b @ joined [osep] (sorted_list_of_set (set p1 \<union> set p2 - {[]})))" using x by simp
      moreover have "handle_sets fargs oper sep osep (cap b) = safe_str (p1 ! 0) (cap b)" using h True by (simp add: SET_UNION)
      ultimately show ?thesis using SET_UNION by (simp only: p(3,4) [symmetric] Let_def set_oper.case)
    next
      case False
      then have "handle_sets fargs oper sep osep (cap b) = union_from osep False p1 p2 [] (cap b)"
        unfolding h unfolding SET_UNION set_oper.case by (simp only: if_False)
      then show ?thesis using SET_UNION u by (simp only: p(3,4) [symmetric] Let_def set_oper.case)
    qed
  next
    case SET_INTERSECT
    have "handle_sets fargs oper sep osep (cap b) = inter_loop osep p1 p2 True (cap b)"
      unfolding h unfolding SET_INTERSECT set_oper.case by (rule refl)
    then show ?thesis using SET_INTERSECT inter_loop_cap [OF p(1,2), of osep True b]
      by (simp only: p(3,4) [symmetric] Let_def set_oper.case with_sep_True)
  next
    case SET_DIFF
    have "handle_sets fargs oper sep osep (cap b) = diff_loop osep p1 p2 True (cap b)"
      unfolding h unfolding SET_DIFF set_oper.case by (rule refl)
    then show ?thesis using SET_DIFF diff_loop_cap [OF p(1,2), of osep True b]
      by (simp only: p(3,4) [symmetric] Let_def set_oper.case with_sep_True)
  qed
qed

subsection \<open>Words\<close>

text \<open>All words of a trimmed list.\<close>

definition tokens :: "string \<Rightarrow> char \<Rightarrow> string list" where
  "tokens s sep = list2arr_loop (Suc (length s)) (Some s) sep"

lemma list2arr_loop_enough:
  "length s < n \<Longrightarrow> length s < m \<Longrightarrow> list2arr_loop n (Some s) sep = list2arr_loop m (Some s) sep"
proof (induction n arbitrary: s m)
  case (Suc n)
  obtain k where m: "m = Suc k" using Suc.prems(2) by (cases m) auto
  show ?case
  proof (cases "next_token s sep")
    case None
    then show ?thesis by (cases n; cases k) (simp_all add: m split_token_def)
  next
    case (Some s')
    then show ?thesis using Suc.IH [of s' k] Suc.prems next_token_shorter [OF Some] by (simp add: m split_token_def)
  qed
qed simp

lemma tokens_step:
  "tokens s sep = takeWhile (\<lambda>c. c \<noteq> sep) s # (case next_token s sep of None \<Rightarrow> [] | Some s' \<Rightarrow> tokens s' sep)"
proof (cases "next_token s sep")
  case None
  then show ?thesis by (cases "length s") (simp_all add: tokens_def split_token_def)
next
  case (Some s')
  have "list2arr_loop (length s) (Some s') sep = tokens s' sep"
    unfolding tokens_def by (rule list2arr_loop_enough) (use next_token_shorter [OF Some] in simp_all)
  then show ?thesis using Some by (simp add: tokens_def split_token_def)
qed

lemma tokens_ne [simp]: "tokens s sep \<noteq> []"
  by (subst tokens_step) simp

lemma list2arr_loop_take: "list2arr_loop n (Some s) sep = take n (tokens s sep)"
proof (induction n arbitrary: s)
  case (Suc n)
  show ?case
  proof (cases "next_token s sep")
    case None
    then show ?thesis by (subst tokens_step, cases n) (simp_all add: split_token_def)
  next
    case (Some s')
    then show ?thesis using Suc.IH [of s'] by (subst tokens_step) (simp add: split_token_def)
  qed
qed simp

lemma list2arr_words: "list2arr n s sep = take n (tokens (trim_space_sep s sep) sep)"
  by (simp add: list2arr_def list2arr_loop_take)

lemma count_tokens_words: "count_tokens (Some s) sep = length (tokens s sep)"
proof (induction "length s" arbitrary: s rule: less_induct)
  case less
  show ?case
  proof (cases "next_token s sep")
    case None
    then show ?thesis by (subst tokens_step) simp
  next
    case (Some s')
    then show ?thesis using less [OF next_token_shorter [OF Some]] by (subst tokens_step) simp
  qed
qed

lemma tokens_next: "next_token s sep = Some s' \<Longrightarrow> tokens s sep = takeWhile (\<lambda>c. c \<noteq> sep) s # tokens s' sep"
  by (subst tokens_step) simp

lemma tokens_last: "next_token s sep = None \<Longrightarrow> tokens s sep = [s]"
proof -
  assume n: "next_token s sep = None"
  then have "dropWhile (\<lambda>c. c \<noteq> sep) s = []" by (auto simp: next_token_def split: list.splits)
  then have "takeWhile (\<lambda>c. c \<noteq> sep) s = s" by (metis append_Nil2 takeWhile_dropWhile_id)
  then show ?thesis using n by (subst tokens_step) simp
qed

lemma skip_tokens_words:
  "skip_tokens n (Some s) sep = Some r \<Longrightarrow> n < length (tokens s sep) \<and> tokens r sep = drop n (tokens s sep)"
proof (induction n arbitrary: s)
  case (Suc n)
  show ?case
  proof (cases "next_token s sep")
    case None
    then show ?thesis using Suc.prems by (cases n) simp_all
  next
    case (Some s')
    then show ?thesis using Suc tokens_next [OF Some] by simp
  qed
qed simp

lemma skip_tokens_some: "skip_tokens n (Some s) sep = None \<longleftrightarrow> length (tokens s sep) \<le> n"
proof (induction n arbitrary: s)
  case (Suc n)
  show ?case
  proof (cases "next_token s sep")
    case None
    then show ?thesis by (subst tokens_step, cases n) simp_all
  next
    case (Some s')
    then show ?thesis using Suc.IH [of s'] by (subst tokens_step) simp
  qed
qed simp

subsection \<open>Texts and their words\<close>

text \<open>What separates words, and texts that neither start nor end with a space.\<close>

definition gap :: "char \<Rightarrow> string \<Rightarrow> bool" where
  "gap sep g \<longleftrightarrow> g \<noteq> [] \<and> (\<forall>c\<in>set g. c = sep) \<and> (sep \<noteq> CHR '' '' \<longrightarrow> g = [sep])"

definition starts_ok :: "char \<Rightarrow> string \<Rightarrow> bool" where
  "starts_ok sep s \<longleftrightarrow> (sep = CHR '' '' \<longrightarrow> s = [] \<or> hd s \<noteq> sep)"

definition ends_ok :: "char \<Rightarrow> string \<Rightarrow> bool" where
  "ends_ok sep s \<longleftrightarrow> (sep = CHR '' '' \<longrightarrow> s \<noteq> [] \<and> last s \<noteq> sep)"

lemma gap_one [simp]: "gap sep [sep]"
  by (simp add: gap_def)

lemma next_token_gap:
  assumes "next_token s sep = Some s'"
  shows "\<exists>g. gap sep g \<and> s = takeWhile (\<lambda>c. c \<noteq> sep) s @ g @ s'" "starts_ok sep s'"
proof -
  obtain t where t: "dropWhile (\<lambda>c. c \<noteq> sep) s = sep # t"
    using assms by (auto simp: next_token_def split: list.splits dest: dropWhile_eq_Cons_conv [THEN iffD1])
  have s': "s' = (if sep = CHR '' '' then dropWhile (\<lambda>c. c = sep) t else t)" using assms t by (simp add: next_token_def)
  let ?g = "sep # (if sep = CHR '' '' then takeWhile (\<lambda>c. c = sep) t else [])"
  have "gap sep ?g" by (auto simp: gap_def dest: set_takeWhileD)
  moreover have "?g @ s' = sep # t" by (simp add: s')
  then have "s = takeWhile (\<lambda>c. c \<noteq> sep) s @ ?g @ s'" using t by (metis takeWhile_dropWhile_id)
  ultimately show "\<exists>g. gap sep g \<and> s = takeWhile (\<lambda>c. c \<noteq> sep) s @ g @ s'" by blast
  show "starts_ok sep s'" using hd_dropWhile [of "\<lambda>c. c = sep" t] by (auto simp: starts_ok_def s')
qed

lemma gap_next_token:
  assumes "gap sep g" "sep \<notin> set w" "starts_ok sep u"
  shows "next_token (w @ g @ u) sep = Some u" "takeWhile (\<lambda>c. c \<noteq> sep) (w @ g @ u) = w" "tokens (w @ g @ u) sep = w # tokens u sep"
proof -
  obtain d where g: "g = sep # d" "\<forall>c\<in>set d. c = sep" "sep \<noteq> CHR '' '' \<longrightarrow> d = []" using assms(1) by (cases g) (auto simp: gap_def)
  have w: "\<forall>c\<in>set w. c \<noteq> sep" using assms(2) by auto
  have "dropWhile (\<lambda>c. c \<noteq> sep) (w @ g @ u) = sep # d @ u" using w g(1) by (simp add: dropWhile_append2)
  moreover have "dropWhile (\<lambda>c. c = sep) (d @ u) = u" if "sep = CHR '' ''"
    using g(2) assms(3) that by (cases u) (auto simp: dropWhile_append2 starts_ok_def)
  ultimately show n: "next_token (w @ g @ u) sep = Some u" using g(3) by (simp add: next_token_def)
  show t: "takeWhile (\<lambda>c. c \<noteq> sep) (w @ g @ u) = w" using w g(1) by (simp add: takeWhile_append2)
  show "tokens (w @ g @ u) sep = w # tokens u sep" using tokens_next [OF n] t by simp
qed

lemma tokens_one: "sep \<notin> set w \<Longrightarrow> tokens w sep = [w]"
proof -
  assume "sep \<notin> set w"
  then have d: "dropWhile (\<lambda>c. c \<noteq> sep) w = []" by (auto simp: dropWhile_eq_Nil_conv)
  show ?thesis by (rule tokens_last) (simp only: next_token_def d list.case)
qed

lemma ends_ok_next:
  assumes "next_token s sep = Some s'" "ends_ok sep s"
  shows "ends_ok sep s'"
proof -
  obtain g where g: "gap sep g" "s = takeWhile (\<lambda>c. c \<noteq> sep) s @ g @ s'" using next_token_gap(1) [OF assms(1)] by blast
  show ?thesis
  proof (cases "s' = []")
    case True
    have "last s = last g" by (subst g(2)) (use g(1) True in \<open>simp add: gap_def\<close>)
    moreover have "last g = sep" using g(1) by (simp add: gap_def)
    ultimately show ?thesis using assms(2) by (simp add: ends_ok_def)
  next
    case False
    have "last s = last s'" by (subst g(2)) (use False in simp)
    then show ?thesis using assms(2) False by (simp add: ends_ok_def)
  qed
qed

lemma tokens_append:
  assumes "ends_ok sep s" "starts_ok sep u" "gap sep g"
  shows "tokens (s @ g @ u) sep = tokens s sep @ tokens u sep"
  using assms(1)
proof (induction "length s" arbitrary: s rule: less_induct)
  case less
  show ?case
  proof (cases "next_token s sep")
    case None
    then have "sep \<notin> set s" by (auto simp: next_token_def dropWhile_eq_Nil_conv split: list.splits)
    then show ?thesis using gap_next_token(3) [OF assms(3) _ assms(2)] tokens_last [OF None] by simp
  next
    case (Some s')
    obtain h where h: "gap sep h" "s = takeWhile (\<lambda>c. c \<noteq> sep) s @ h @ s'" using next_token_gap(1) [OF Some] by blast
    have e: "ends_ok sep s'" by (rule ends_ok_next [OF Some less.prems])
    have st: "starts_ok sep (s' @ g @ u)" using next_token_gap(2) [OF Some] e by (cases s') (auto simp: starts_ok_def ends_ok_def)
    have "sep \<notin> set (takeWhile (\<lambda>c. c \<noteq> sep) s)" by (auto dest: set_takeWhileD)
    then have "tokens (takeWhile (\<lambda>c. c \<noteq> sep) s @ h @ (s' @ g @ u)) sep = takeWhile (\<lambda>c. c \<noteq> sep) s # tokens (s' @ g @ u) sep"
      by (rule gap_next_token(3) [OF h(1) _ st])
    moreover have "s @ g @ u = takeWhile (\<lambda>c. c \<noteq> sep) s @ h @ (s' @ g @ u)" by (subst h(2)) simp
    ultimately have "tokens (s @ g @ u) sep = takeWhile (\<lambda>c. c \<noteq> sep) s # tokens (s' @ g @ u) sep" by metis
    then show ?thesis using less.hyps [OF next_token_shorter [OF Some] e] tokens_next [OF Some] by simp
  qed
qed


text \<open>The text up to the end of a word.\<close>

lemma upto_token_ok:
  assumes "skip_tokens k (Some s) sep = Some e" "ends_ok sep s" "starts_ok sep s"
  shows "length e \<le> length s" "ends_ok sep e" "starts_ok sep e"
    "tokens (upto_token s e sep) sep = take (Suc k) (tokens s sep)" "next_token e sep \<noteq> None \<Longrightarrow> ends_ok sep (upto_token s e sep)"
    "starts_ok sep (upto_token s e sep)"
proof -
  have "length e \<le> length s \<and> ends_ok sep e \<and> starts_ok sep e \<and> tokens (upto_token s e sep) sep = take (Suc k) (tokens s sep) \<and>
    (next_token e sep \<noteq> None \<longrightarrow> ends_ok sep (upto_token s e sep)) \<and> starts_ok sep (upto_token s e sep) \<and>
    (\<exists>r. s = upto_token s e sep @ r)"
    using assms
  proof (induction k arbitrary: s)
    case 0
    then have e: "e = s" by simp
    let ?w = "takeWhile (\<lambda>c. c \<noteq> sep) s"
    have w: "sep \<notin> set ?w" by (auto dest: set_takeWhileD)
    have "tokens s sep = ?w # tl (tokens s sep)" by (metis tokens_step list.sel(3))
    then have "take (Suc 0) (tokens s sep) = [?w]" by (metis take_Suc_Cons take0)
    moreover have "starts_ok sep ?w" using w by (cases ?w) (auto simp: starts_ok_def)
    moreover have "ends_ok sep ?w" using "0.prems"(2,3) w by (cases s) (auto simp: ends_ok_def starts_ok_def dest: last_in_set)
    ultimately show ?case using 0 e tokens_one [OF w] by (auto simp: upto_token_def intro!: exI [of _ "dropWhile (\<lambda>c. c \<noteq> sep) s"])
  next
    case (Suc k)
    obtain s' where n: "next_token s sep = Some s'" using Suc.prems(1) by (cases "next_token s sep"; cases k) auto
    obtain g where g: "gap sep g" "s = takeWhile (\<lambda>c. c \<noteq> sep) s @ g @ s'" using next_token_gap(1) [OF n] by blast
    let ?w = "takeWhile (\<lambda>c. c \<noteq> sep) s"
    have w: "sep \<notin> set ?w" by (auto dest: set_takeWhileD)
    have IH: "length e \<le> length s'" "ends_ok sep e" "starts_ok sep e" "tokens (upto_token s' e sep) sep = take (Suc k) (tokens s' sep)"
        "next_token e sep \<noteq> None \<Longrightarrow> ends_ok sep (upto_token s' e sep)" "starts_ok sep (upto_token s' e sep)" "\<exists>r. s' = upto_token s' e sep @ r"
      using Suc.IH [of s'] Suc.prems n ends_ok_next [OF n] next_token_gap(2) [OF n] by auto
    have u: "upto_token s e sep = ?w @ g @ upto_token s' e sep"
    proof -
      have "take (length s - length e) s = ?w @ g @ take (length s' - length e) s'"
      proof -
        have "take (length s - length e) (?w @ g @ s') = ?w @ g @ take (length s' - length e) s'"
          using IH(1) arg_cong [OF g(2), of length] by simp
        then show ?thesis using g(2) by metis
      qed
      then show ?thesis by (simp add: upto_token_def)
    qed
    have t: "tokens (upto_token s e sep) sep = take (Suc (Suc k)) (tokens s sep)"
      unfolding u gap_next_token(3) [OF g(1) w IH(6)] using IH(4) tokens_next [OF n] by simp
    have "ends_ok sep (?w @ g @ upto_token s' e sep)" if "next_token e sep \<noteq> None"
      using IH(5) [OF that] by (auto simp: ends_ok_def)
    moreover have "starts_ok sep (?w @ g @ upto_token s' e sep)"
    proof (cases "sep = CHR '' ''")
      case True
      then have "?w \<noteq> []" using Suc.prems(2,3) by (cases s) (auto simp: ends_ok_def starts_ok_def)
      then show ?thesis using w by (cases ?w) (auto simp: starts_ok_def)
    qed (simp add: starts_ok_def)
    moreover have "length s' \<le> length s" using next_token_shorter [OF n] by simp
    moreover obtain r where "s' = upto_token s' e sep @ r" using IH(7) by blast
    then have "s = upto_token s e sep @ r" unfolding u using g(2) by simp
    ultimately show ?case using IH(1-3) t u by auto
  qed
  then show "length e \<le> length s" "ends_ok sep e" "starts_ok sep e"
    "tokens (upto_token s e sep) sep = take (Suc k) (tokens s sep)" "next_token e sep \<noteq> None \<Longrightarrow> ends_ok sep (upto_token s e sep)"
    "starts_ok sep (upto_token s e sep)" by blast+
qed

lemma trim_blanks:
  fixes s :: string
  defines "P \<equiv> \<lambda>c. c = CHR '' ''"
  assumes "dropWhile P s = c # t"
  shows "\<exists>u. trim_space_sep s (CHR '' '') = c # u \<and> (u = [] \<or> last u \<noteq> CHR '' '') \<and> c \<noteq> CHR '' ''"
proof -
  have "\<not> P c" using hd_dropWhile [of P s] assms(2) by simp
  moreover have "trim_space_sep s (CHR '' '') = c # rev (dropWhile P (rev t))"
    using assms(2) by (simp add: trim_space_sep_def strip_back_def P_def)
  moreover have "rev (dropWhile P (rev t)) = [] \<or> \<not> P (last (rev (dropWhile P (rev t))))"
    using hd_dropWhile [of P "rev t"] by (cases "dropWhile P (rev t) = []") (simp_all add: last_rev)
  ultimately show ?thesis by (auto simp: P_def)
qed

lemma trim_blanks_again:
  assumes "u = [] \<or> last u \<noteq> CHR '' ''" "c \<noteq> CHR '' ''" "\<forall>x\<in>set w. x = CHR '' ''"
  shows "trim_space_sep (w @ c # u) (CHR '' '') = c # u"
proof -
  have "dropWhile (\<lambda>c. c = CHR '' '') (w @ c # u) = c # u" using assms(2,3) by (simp add: dropWhile_append2)
  moreover have "dropWhile (\<lambda>c. c = CHR '' '') (rev u) = rev u" using assms(1) by (cases u rule: rev_cases) simp_all
  ultimately show ?thesis by (simp add: trim_space_sep_def strip_back_def)
qed

lemma trim_space_ok:
  assumes "trim_space_sep s sep \<noteq> []"
  shows "ends_ok sep (trim_space_sep s sep)" "starts_ok sep (trim_space_sep s sep)" "trim_space_sep (trimmed_in_place s sep) sep = trim_space_sep s sep"
proof -
  have "ends_ok sep (trim_space_sep s sep) \<and> starts_ok sep (trim_space_sep s sep) \<and> trim_space_sep (trimmed_in_place s sep) sep = trim_space_sep s sep"
  proof (cases "sep = CHR '' ''")
    case True
    have "dropWhile (\<lambda>c. c = CHR '' '') s \<noteq> []"
    proof
      assume e: "dropWhile (\<lambda>c. c = CHR '' '') s = []"
      have "trim_space_sep s sep = strip_back (dropWhile (\<lambda>c. c = CHR '' '') s)" unfolding trim_space_sep_def True by (rule if_not_P) simp
      then show False using assms unfolding e by (simp add: strip_back_def)
    qed
    then obtain c t where "dropWhile (\<lambda>c. c = CHR '' '') s = c # t" by (meson list.exhaust)
    from trim_blanks [OF this] obtain u where
      u: "trim_space_sep s (CHR '' '') = c # u" "u = [] \<or> last u \<noteq> CHR '' ''" "c \<noteq> CHR '' ''" by blast
    have "\<forall>x\<in>set (takeWhile (\<lambda>c. c = CHR '' '') s). x = CHR '' ''" by (auto dest: set_takeWhileD)
    from trim_blanks_again [OF u(2,3) this] have "trim_space_sep (trimmed_in_place s sep) sep = c # u"
      by (simp add: True trimmed_in_place_def u(1))
    then show ?thesis using u by (auto simp: True ends_ok_def starts_ok_def)
  qed (simp add: ends_ok_def starts_ok_def trim_space_sep_def trimmed_in_place_def)
  then show "ends_ok sep (trim_space_sep s sep)" "starts_ok sep (trim_space_sep s sep)" "trim_space_sep (trimmed_in_place s sep) sep = trim_space_sep s sep"
    by blast+
qed

subsection \<open>Functions on words\<close>



lemma varargs_given:
  "length fargs = n \<Longrightarrow> 0 < n \<Longrightarrow> fargs ! (n - 1) = [sep] \<Longrightarrow> varargs_preamble f n fargs body buff = body sep buff"
  by (simp add: varargs_preamble_def fn_range_check_def delim_check_def)



text \<open>\<open>k\<close> is the number of the word that is changed.\<close>

definition edited :: "itemfun \<Rightarrow> nat \<Rightarrow> string \<Rightarrow> string list \<Rightarrow> string list" where
  "edited fl k w ws = take (k - 1) ws @ (if fl = IF_DELETE then [] else [w]) @ drop (if fl = IF_INSERT then k - 1 else k) ws"

definition word_ok :: "char \<Rightarrow> string \<Rightarrow> bool" where
  "word_ok sep w \<longleftrightarrow> sep \<notin> set w \<and> (sep = CHR '' '' \<longrightarrow> w \<noteq> [])"

lemma word_okD: "word_ok sep w \<Longrightarrow> ends_ok sep w" "word_ok sep w \<Longrightarrow> starts_ok sep w" "word_ok sep w \<Longrightarrow> tokens w sep = [w]"
  "starts_ok sep w \<Longrightarrow> ends_ok sep w \<Longrightarrow> starts_ok sep (w @ u)"
  by (auto simp: word_ok_def ends_ok_def starts_ok_def tokens_one dest: last_in_set hd_in_set)

lemma first_word_ok: "ends_ok sep s \<Longrightarrow> starts_ok sep s \<Longrightarrow> word_ok sep (takeWhile (\<lambda>c. c \<noteq> sep) s)"
  by (cases s) (auto simp: word_ok_def ends_ok_def starts_ok_def dest: set_takeWhileD)

subsection \<open>Changing words\<close>

text \<open>The text that \<open>item_text\<close> makes, as far as it fits.\<close>

definition item_parts :: "itemfun \<Rightarrow> string option \<Rightarrow> string option \<Rightarrow> string option \<Rightarrow> string \<Rightarrow> string list" where
  "item_parts fl sptr iptr eptr word =
     (case sptr of None \<Rightarrow> [] | Some t \<Rightarrow> [t]) @ (if fl = IF_DELETE then [] else [word]) @
     (if fl = IF_INSERT then case iptr of None \<Rightarrow> [] | Some t \<Rightarrow> [t] else []) @ (case eptr of None \<Rightarrow> [] | Some t \<Rightarrow> [t])"

lemma item_text_cap:
  assumes "fl \<noteq> IF_DELETE \<or> sptr \<noteq> None \<or> eptr \<noteq> None"
  shows "item_text old fl sptr iptr eptr word sep = cap (joined [sep] (item_parts fl sptr iptr eptr word))"
proof -
  have c: "safe_str t [] = cap t" for t using safe_str_cap [of t "[]"] by simp
  show ?thesis using assms
    by (cases fl; cases sptr; cases iptr; cases eptr) (simp_all add: item_text_def item_parts_def safe_str_opt_def c Let_def)
qed

lemma item_text_words:
  assumes "fl \<noteq> IF_DELETE \<or> sptr \<noteq> None \<or> eptr \<noteq> None" "tokens (joined [sep] (item_parts fl sptr iptr eptr word)) sep = ws"
  shows "\<exists>t. item_text old fl sptr iptr eptr word sep = cap t \<and> tokens t sep = ws"
  using item_text_cap [OF assms(1)] assms(2) by blast

lemma trimmed_ne: "trim_space_sep s sep \<noteq> [] \<Longrightarrow> s \<noteq> []"
  by (auto simp: trim_space_sep_def strip_back_def)

lemma do_itemfuns_ok:
  assumes ne: "trim_space_sep s sep \<noteq> []" and ws: "ws = tokens (trim_space_sep s sep) sep"
    and k: "1 \<le> k" "k \<le> length ws" and w: "word_ok sep w" and d: "fl = IF_DELETE \<Longrightarrow> length ws > 1"
  shows "\<exists>t. do_itemfuns old s (int k) w sep fl = cap t \<and> tokens t sep = edited fl k w ws"
proof -
  let ?s = "trim_space_sep s sep"
  note sok = trim_space_ok(1,2) [OF ne]
  have s: "s \<noteq> []" by (rule trimmed_ne [OF ne])
  have app: "tokens (a @ sep # u) sep = tokens a sep @ tokens u sep" if "ends_ok sep a" "starts_ok sep u" for a u
    using tokens_append [OF that gap_one] by simp
  show ?thesis
  proof (cases "k = 1")
    case True
    let ?i = "takeWhile (\<lambda>c. c \<noteq> sep) ?s"
    have e: "do_itemfuns old s (int k) w sep fl = item_text old fl None (Some ?i) (next_token ?s sep) w sep"
      using True s by (simp add: do_itemfuns_def split_token_def)
    have i: "word_ok sep ?i" by (rule first_word_ok [OF sok])
    show ?thesis
    proof (cases "next_token ?s sep")
      case None
      then have "ws = [?i]" using ws by (subst (asm) tokens_step) simp
      then show ?thesis unfolding e None using d True w i
        by (intro item_text_words; cases fl) (simp_all add: item_parts_def edited_def word_okD app)
    next
      case (Some u)
      have ws': "ws = ?i # tokens u sep" using ws tokens_next [OF Some] by simp
      have u: "starts_ok sep u" by (rule next_token_gap(2) [OF Some])
      have iu: "tokens (?i @ sep # u) sep = ?i # tokens u sep" "starts_ok sep (?i @ sep # u)" using app u i word_okD by simp_all
      show ?thesis unfolding e Some using True w u iu ws'
        by (intro item_text_words; cases fl) (simp_all add: item_parts_def edited_def word_okD app)
    qed
  next
    case False
    then have k2: "2 \<le> k" using k by simp
    obtain e where e: "skip_tokens (k - 2) (Some ?s) sep = Some e"
      using skip_tokens_some [of "k - 2" ?s sep] ws k k2 by (cases "skip_tokens (k - 2) (Some ?s) sep") simp_all
    note t = conjunct2 [OF skip_tokens_words [OF e]]
    note u = upto_token_ok [OF e sok]
    let ?b = "upto_token ?s e sep"
    have kk: "Suc (k - 2) = k - 1" "nat (int k - 2) = k - 2" using k2 by simp_all
    have "length (tokens e sep) \<ge> 2" using t ws k k2 by simp
    then obtain e1 where e1: "next_token e sep = Some e1" by (cases "next_token e sep") (simp_all add: tokens_last)
    have te: "tokens e1 sep = drop (k - 1) ws"
    proof -
      have "tokens e1 sep = tl (tokens e sep)" using tokens_next [OF e1] by simp
      then show ?thesis using t ws kk by (simp add: drop_Suc [symmetric] tl_drop [symmetric]) (metis drop_Suc kk(1) tl_drop)
    qed
    have e1ok: "starts_ok sep e1" "ends_ok sep e1" using next_token_gap(2) [OF e1] ends_ok_next [OF e1 u(2)] by simp_all
    let ?i = "takeWhile (\<lambda>c. c \<noteq> sep) e1"
    have i: "word_ok sep ?i" by (rule first_word_ok [OF e1ok(2,1)])
    have b: "ends_ok sep ?b" "tokens ?b sep = take (k - 1) ws" using u(5) e1 u(4) ws kk by simp_all
    have r: "do_itemfuns old s (int k) w sep fl = item_text old fl (Some ?b) (Some ?i) (next_token e1 sep) w sep"
      using s k2 kk e e1 by (simp add: do_itemfuns_def split_token_def Let_def)
    show ?thesis
    proof (cases "next_token e1 sep")
      case None
      then have n: "drop (k - 1) ws = [?i]" using te by (subst (asm) tokens_step) simp
      then have "drop k ws = []" by (metis Suc_diff_1 drop_Suc k(1) less_le_trans list.sel(3) tl_drop zero_less_one)
      then show ?thesis unfolding r None using w i n b
        by (intro item_text_words; cases fl) (simp_all add: item_parts_def edited_def word_okD app)
    next
      case (Some v)
      have n: "drop (k - 1) ws = ?i # tokens v sep" using te tokens_next [OF Some] by simp
      then have n': "drop k ws = tokens v sep" by (metis Suc_diff_1 drop_Suc k(1) less_le_trans list.sel(3) tl_drop zero_less_one)
      have v: "starts_ok sep v" by (rule next_token_gap(2) [OF Some])
      have iv: "tokens (?i @ sep # v) sep = ?i # tokens v sep" "starts_ok sep (?i @ sep # v)" using app v i word_okD by simp_all
      show ?thesis unfolding r Some using w v iv b n n'
        by (intro item_text_words; cases fl) (simp_all add: item_parts_def edited_def word_okD app)
    qed
  qed
qed

text \<open>A list that was put together from words is taken apart into them.\<close>

lemma tokens_joined:
  assumes "ws \<noteq> []" "list_all (word_ok sep) ws"
  shows "tokens (joined [sep] ws) sep = ws"
proof -
  have "tokens (joined [sep] ws) sep = ws \<and> starts_ok sep (joined [sep] ws)"
    using assms
  proof (induction "[sep]" ws rule: joined.induct)
    case (2 w)
    then show ?case by (simp add: word_okD)
  next
    case (3 w v ws)
    then have IH: "tokens (joined [sep] (v # ws)) sep = v # ws" "starts_ok sep (joined [sep] (v # ws))" and w: "word_ok sep w" by simp_all
    have "tokens (w @ [sep] @ joined [sep] (v # ws)) sep = tokens w sep @ tokens (joined [sep] (v # ws)) sep"
      by (rule tokens_append [OF word_okD(1) [OF w] IH(2) gap_one])
    then show ?case using IH(1) word_okD(3) [OF w] word_okD(4) [OF word_okD(2) [OF w] word_okD(1) [OF w]] by simp
  qed simp
  then show ?thesis ..
qed

text \<open>One position only.\<close>

lemma item_loop_one:
  "1 \<le> k \<Longrightarrow> item_loop m [int k] old str w sep fl = (if k \<le> m then do_itemfuns old str (int k) w sep fl else old)"
proof (induction m arbitrary: old str)
  case (Suc m)
  then show ?case by (auto simp: Let_def le_Suc_eq)
qed simp

lemma strtok_blanks_number:
  assumes "0 \<le> n"
  shows "strtok_blanks (sprintf_d n) = [sprintf_d n]"
proof -
  obtain c t where ct: "sprintf_d n = c # t" using sprintf_d_digits(1) [OF assms] by (cases "sprintf_d n") auto
  have d: "\<forall>x\<in>set (c # t). x \<noteq> CHR '' '' \<and> x \<noteq> CHR 0x09"
    using sprintf_d_digits(2) [OF assms] by (auto simp: ct is_digit_def)
  have d1: "dropWhile (\<lambda>c. c = CHR '' '' \<or> c = CHR 0x09) (c # t) = c # t" using d by simp
  have t1: "takeWhile (\<lambda>c. c \<noteq> CHR '' '' \<and> c \<noteq> CHR 0x09) t = t" and t2: "dropWhile (\<lambda>c. c \<noteq> CHR '' '' \<and> c \<noteq> CHR 0x09) t = []"
    using d by auto
  have e: "strtok_blanks [] = []" by (simp add: strtok_blanks.simps)
  show ?thesis unfolding ct by (subst strtok_blanks.simps) (simp only: d1 list.case t1 t2 e)
qed

lemma edit_words_ok:
  assumes ws: "ws = tokens (trim_space_sep s sep) sep" "trim_space_sep s sep \<noteq> []"
    and k: "1 \<le> k" "k \<le> length ws" "length ws \<le> LBUF_SIZE - 10"
    and w: "word_ok sep w" "fl = IF_DELETE \<Longrightarrow> length ws > 1"
  shows "\<exists>t. edit_words s (sprintf_d (int k)) w fl sep (cap b) = cap (b @ cap t) \<and> tokens t sep = edited fl k w ws"
proof -
  let ?s = "trimmed_in_place s sep"
  have n: "countwords s sep = length ws" using ws by (simp add: countwords_def Let_def count_tokens_words del: count_tokens.simps)
  have at: "atoi (sprintf_d (int k)) = int k"
    by (rule sprintf_d_digits(3)) (use k in \<open>simp_all add: LBUF_SIZE_def INT_MAX_def\<close>)
  have "length ws \<noteq> 0" "\<not> length ws > LBUF_SIZE - 10" using k by linarith+
  then have pos: "sanitize_input_cnt s (sprintf_d (int k)) sep fl = (length ws, [int k])"
    using k(1,2) by (simp add: sanitize_input_cnt_def Let_def n strtok_blanks_number at)
  have trim: "trim_space_sep ?s sep = trim_space_sep s sep" by (rule trim_space_ok(3) [OF ws(2)])
  then have ne: "trim_space_sep ?s sep \<noteq> []" "ws = tokens (trim_space_sep ?s sep) sep" using ws by simp_all
  obtain t where t: "do_itemfuns [] ?s (int k) w sep fl = cap t" "tokens t sep = edited fl k w ws"
    using do_itemfuns_ok [OF ne k(1,2) w] by blast
  have "item_loop (length ws + 2) [int k] [] ?s w sep fl = cap t"
    using item_loop_one [OF k(1), of "length ws + 2" "[]" ?s w sep fl] k(2) t(1) by simp
  then have "edit_words s (sprintf_d (int k)) w fl sep (cap b) = cap (b @ cap t)" by (simp add: edit_words_def pos)
  then show ?thesis using t(2) by blast
qed

lemma delete_word: "do_itemfuns old s k v sep IF_DELETE = do_itemfuns old s k w sep IF_DELETE"
  unfolding do_itemfuns_def Let_def item_text_def itemfun.case itemfun.distinct if_False by (rule refl)

lemma delete_words: "edit_words s places v IF_DELETE sep buff = edit_words s places w IF_DELETE sep buff"
proof -
  have "item_loop m pos old str v sep IF_DELETE = item_loop m pos old str w sep IF_DELETE" for m pos old str
    by (induction m arbitrary: old str) (simp_all add: delete_word [where v = v and w = w] Let_def)
  then show ?thesis by (simp add: edit_words_def split: prod.splits)
qed

text \<open>
  When every word is deleted, the last call of \<open>do_itemfuns\<close> writes nothing, and the buffer
  keeps the text before it: one word is left.
\<close>

lemma ldelete_all_leaves_one: "fun_ldelete [''a b'', ''1 2''] [] = ''a''"
  by code_simp

text \<open>\<open>splice\<close> splits the untrimmed lists, so that a space in front shifts them.\<close>

lemma splice_leading_space: "fun_splice ['' a b'', ''c d'', ''b''] [] = '' a''"
  by code_simp

subsection \<open>Properties\<close>

text \<open>
  C14: \<open>sane_qsort\<close>, which \<open>sortby\<close> calls with a comparison that evaluates softcode, returns the
  same words however the comparison behaves and whatever it does to the state; and when the
  comparison is a strict weak order, the words are in this order.
\<close>

theorem sane_qsort_sorts:
  assumes "sane_qsort compare rnd a 0 (int (length a) - 1) s = (a', s')"
  shows "mset a' = mset a \<and> (decides compare lt \<longrightarrow> weak_order lt \<longrightarrow> sorted_wrt (\<lambda>x y. \<not> lt y x) a')"
proof -
  have ok: "rearr 0 (int (length a) - 1) a a' \<and> (decides compare lt \<longrightarrow> weak_order lt \<longrightarrow> sorted_part lt 0 (int (length a) - 1) a')"
    by (rule sane_qsort_ok [OF assms]) simp_all
  then have l: "length a' = length a" by (auto dest: rearr_length)
  have "sorted_wrt (\<lambda>x y. \<not> lt y x) a'" if "sorted_part lt 0 (int (length a) - 1) a'"
    unfolding sorted_wrt_iff_nth_less
  proof (intro allI impI)
    fix i j assume "i < j" "j < length a'"
    then show "\<not> lt (a' ! j) (a' ! i)" using that [unfolded sorted_part_def, rule_format, of "int i" "int j"] l by simp
  qed
  then show ?thesis using ok by (auto simp: rearr_def)
qed

theorem sane_qsort_sorts_witness:
  "\<exists>a' s'. sane_qsort (\<lambda>x y s. (x - y, s + 1)) (\<lambda>s. (int s, s)) [5, 3, 9] 0 2 (7::nat) = (a', s') \<and> a' = [3, 5, 9::int]"
proof -
  let ?c = "\<lambda>x y (s::nat). (x - y :: int, s + 1)"
  obtain a' s' where q: "sane_qsort ?c (\<lambda>s. (int s, s)) [5, 3, 9] 0 (int (length [5, 3, 9::int]) - 1) 7 = (a', s')" by (rule prod.exhaust)
  have o: "decides ?c (<)" "weak_order ((<) :: int \<Rightarrow> int \<Rightarrow> bool)" by (auto simp: decides_def weak_order_def)
  note m = sane_qsort_sorts [OF q, of "(<)"]
  have "mset a' = mset [5, 3, 9]" by (rule conjunct1 [OF m])
  moreover have "sorted_wrt (\<lambda>x y. \<not> y < x) a'" by (rule conjunct2 [OF m, rule_format, OF o])
  ultimately have "sort [5, 3, 9] = a'" by (intro properties_for_sort) (simp_all add: not_less)
  then have "a' = [3, 5, 9]" by simp
  then show ?thesis using q by simp
qed

text \<open>
  C13: \<open>setunion\<close>, \<open>setinter\<close> and \<open>setdiff\<close> compute the union, the intersection and the
  difference of the sets of the words of two lists: each word comes once, in the order of
  \<open>strcmp\<close>, with the output separator between the words, as far as it fits into the buffer. A
  union leaves out the empty word.
\<close>

theorem set_functions:
  "let A = set (list2arr LBUF_SIZE a sep); B = set (list2arr LBUF_SIZE c sep);
       out = (\<lambda>S. cap (b @ joined [osep] (sorted_list_of_set S)))
   in fun_setunion [a, c, [sep], [osep]] (cap b) = out (A \<union> B - {[]}) \<and>
      fun_setinter [a, c, [sep], [osep]] (cap b) = out (A \<inter> B) \<and>
      fun_setdiff [a, c, [sep], [osep]] (cap b) = out (A - B)"
proof -
  have "svarargs_preamble f 4 [a, c, [sep], [osep]] body buff = body sep osep buff" for f body buff
    by (simp add: svarargs_preamble_def fn_range_check_def delim_check_def numeral_eq_Suc)
  then show ?thesis
    by (simp add: fun_setunion_def fun_setinter_def fun_setdiff_def handle_sets_cap Let_def)
qed



text \<open>
  C15: \<open>replace\<close>, \<open>insert\<close> and \<open>ldelete\<close> at the place \<open>k\<close> of a list with the words \<open>ws\<close> write a
  text whose words are \<open>ws\<close> with the word at this place replaced, with a word put in before it,
  and without it (when it is not the only one); the other words stay as they are.
\<close>

theorem edits_change_words:
  assumes ws: "ws = tokens (trim_space_sep s sep) sep" "trim_space_sep s sep \<noteq> []"
    and k: "1 \<le> k" "k \<le> length ws" "length ws \<le> LBUF_SIZE - 10" and w: "word_ok sep w"
  shows "(\<exists>t. fun_replace [s, sprintf_d (int k), w, [sep]] (cap b) = cap (b @ cap t) \<and> tokens t sep = ws[k - 1 := w]) \<and>
    (\<exists>t. fun_insert [s, sprintf_d (int k), w, [sep]] (cap b) = cap (b @ cap t) \<and>
         tokens t sep = take (k - 1) ws @ w # drop (k - 1) ws) \<and>
    (length ws > 1 \<longrightarrow> (\<exists>t. fun_ldelete [s, sprintf_d (int k), [sep]] (cap b) = cap (b @ cap t) \<and>
         tokens t sep = take (k - 1) ws @ drop k ws))"
proof -
  have p4: "varargs_preamble f 4 [s, sprintf_d (int k), w, [sep]] body buff = body sep buff" for f body buff by (rule varargs_given) simp_all
  have p3: "varargs_preamble f 3 [s, sprintf_d (int k), [sep]] body buff = body sep buff" for f body buff by (rule varargs_given) simp_all
  have upd: "ws[k - 1 := w] = edited IF_REPLACE k w ws"
    using upd_conv_take_nth_drop [of "k - 1" ws w] k by (simp add: edited_def)
  have "\<exists>t. fun_replace [s, sprintf_d (int k), w, [sep]] (cap b) = cap (b @ cap t) \<and> tokens t sep = ws[k - 1 := w]"
    unfolding upd using edit_words_ok [OF ws k w, of IF_REPLACE b] by (simp add: fun_replace_def p4)
  moreover have "\<exists>t. fun_insert [s, sprintf_d (int k), w, [sep]] (cap b) = cap (b @ cap t) \<and>
      tokens t sep = take (k - 1) ws @ w # drop (k - 1) ws"
    using edit_words_ok [OF ws k w, of IF_INSERT b] by (simp add: fun_insert_def p4 edited_def)
  moreover have "\<exists>t. fun_ldelete [s, sprintf_d (int k), [sep]] (cap b) = cap (b @ cap t) \<and> tokens t sep = take (k - 1) ws @ drop k ws"
    if "length ws > 1"
    using edit_words_ok [OF ws k w, of IF_DELETE b] that by (simp add: fun_ldelete_def p3 edited_def delete_words [where v = "[]" and w = w])
  ultimately show ?thesis by blast
qed

theorem edits_change_words_witness:
  "\<exists>t. fun_replace [''  a b  c '', ''2'', ''xy'', '' ''] (cap []) = cap ([] @ cap t) \<and> tokens t (CHR '' '') = [''a'', ''xy'', ''c'']"
proof -
  have t: "tokens (trim_space_sep ''  a b  c '' (CHR '' '')) (CHR '' '') = [''a'', ''b'', ''c'']" by code_simp
  have "trim_space_sep ''  a b  c '' (CHR '' '') \<noteq> []" "word_ok (CHR '' '') ''xy''" "sprintf_d (int 2) = ''2''" by code_simp+
  then show ?thesis using edits_change_words [OF t [symmetric], of 2 "''xy''" "[]"] by (simp add: LBUF_SIZE_def)
qed

end
