(* ===== verification/Spec2Isabelle.thy ===== *)
theory Spec2Isabelle
  imports Stringutil Htab_Laws Nametab Wild_Laws Boolexp_Laws Udb_ochunk_Laws Udb_ocache_Laws Attrs_Laws Parse_to_Laws
  Pcache_Laws Cque_Live Funlist_Laws
begin

text \<open>
  A verification development of the RhostMUSH server (src/Server), a multi-user game in C. The
  server reads lines from its connections, runs each as a command, queues the commands that
  objects trigger, and keeps all state of the game as text attributes of numbered objects, which
  are cached in memory and written to a chunk file. Modelled are the layers below the command
  handlers: everything between the text of a command and the bytes on the disk that does not
  depend on the several hundred commands, functions and flags.

  \<^bold>\<open>The parts and how they interact.\<close>
  \<^item> \<open>Prelude\<close>: the C library as the sources use it (\<open>ctype.h\<close>, \<open>atoi\<close>, \<open>sprintf\<close> of an int, 32-bit
    arithmetic with wrap-around, bounded buffers of hdrs/alloc.h: \<open>LBUF_SIZE\<close> 4000) and list lemmas.
  \<^item> \<open>Stringutil\<close>: stringutil.c, in the order of the file, with its laws.
  \<^item> \<open>Htab\<close>, \<open>Htab_Laws\<close>: the string-keyed and number-keyed hash tables of htab.c; \<open>Nametab\<close>: the
    tables of names of the same file. Every table of commands, flags and players is one of them.
  \<^item> \<open>Wild\<close>, \<open>Wild_Laws\<close>: the wildcard matcher of wild.c.
  \<^item> \<open>Boolexp\<close>, \<open>Boolexp_Laws\<close>: locks; the parser and evaluator of boolexp.c and the printer of
    unparse.c. They use \<open>Wild\<close> to compare attributes.
  \<^item> \<open>Parse_to\<close>, \<open>Parse_to_Laws\<close>: the splitting of commands and arguments in eval.c.
  \<^item> \<open>Udb_obj\<close> (udb_obj.c: one object as bytes), \<open>Udb_ochunk\<close>, \<open>Udb_ochunk_Laws\<close> (udb_ochunk.c: the
    chunk file, its bitmap and the index in a dbm file) and \<open>Udb_ocache\<close>, \<open>Udb_ocache_Laws\<close>
    (udb_ocache.c: the cache of objects), each on top of the one before.
  \<^item> \<open>Vattr\<close>, \<open>Vattr_Laws\<close>: user-defined attributes, vattr.c with the table of attribute numbers
    and \<open>mkattr\<close> of db.c.
  \<^item> \<open>Alist\<close>, \<open>Attrs\<close>, \<open>Attrs_Laws\<close>: the attributes of an object in db.c: the coded list of their
    numbers, which is itself an attribute, the encoded owner and flags, and \<open>atr_add\<close>, \<open>atr_get\<close>,
    \<open>atr_head\<close>, \<open>atr_next\<close>, \<open>atr_free\<close> over the cache.
  \<^item> \<open>Pcache\<close>: player_c.c, the blocks that hold money and the number of queued commands of a player, with
    \<open>payfor\<close>, \<open>payfor_force\<close>, \<open>payfor_give\<close> and \<open>giveto\<close> of predicates.c, over the attributes of db.c;
    \<open>Pcache_Laws\<close>: the blocks against a ledger.
  \<^item> \<open>Cque\<close>, \<open>Cque_pid\<close>: cque.c, the command queues with the payments of \<open>Pcache\<close>, the splitting of a line
    of \<open>Parse_to\<close> and the counts of semaphores kept as attributes; \<open>Cque_Laws\<close>, \<open>Cque_Inv\<close>,
    \<open>Cque_Run\<close>: the invariant of the process ids, for every operation; \<open>Cque_Live\<close>: the timer (timer.c), the turn of the
    main loop (\<open>shovechars\<close> in bsd.c), and that waiting commands are run.
  \<^item> \<open>Funlist\<close>, \<open>Funlist_Laws\<close>: the softcode functions of functions.c on lists of words in a text: splitting,
    counting and changing words, sets of words and the sorts. They take evaluated arguments and write to a buffer.

  \<^bold>\<open>How state corresponds to the code.\<close> A structure is a record with the names of its fields, and
  the global variables that a file works on are the record of its theory. A C string is a list
  of characters without the terminating zero, a pointer into it the rest of the list from there,
  and a write into a buffer says what is cut off. Linked chains are lists; where two pointers to
  one entry matter the entry carries an address (\<open>node\<close>) or a number. A function that may not
  return has an option type (below). Disk operations take the outcome of
  each system call from a list of faults in the state, so that every error branch is part of the
  model.

  \<^bold>\<open>Interfaces.\<close> Three locales state what one layer promises another. \<open>chunk_store\<close> (theory
  \<open>Chunk_Store\<close>) says that get, put and delete act on a finite map of objects and that a failed
  call changes nothing it should not; the laws of the cache are proved in it, and \<open>Udb_ochunk_Laws\<close>
  interprets it on the chunk file. \<open>attr_cache\<close> says the same of the cache for the attributes of
  db.c, and is interpreted on cache and file together. \<open>map_table\<close> is what a hash table promises,
  interpreted on both kinds of tables.

  \<^bold>\<open>What the lemmas show.\<close> Each \<open>_Laws\<close> theory, and each theory without one, goes from an
  invariant and its preservation by every operation to the abstract view: hash tables, the chunk
  store, the cache, the table of user attributes and the attributes of an object are maps under
  every sequence of their operations, with the number of lookups, error results and walks
  included. What a \<open>cache_sync\<close> that reports success has written survives a restart
  (\<open>sync_survives_restart\<close> below). Locks print and parse back; locks that need each other
  in a circle deny, and indirections in a circle end by the limit on nesting. The matcher \<open>quick_wild\<close> agrees with a declarative meaning of patterns. String functions
  are equal to specifications without buffers, up to the length of a buffer. Arguments split at
  the commas that no bracket protects. Functions on lists of words agree with functions on the list of the words
  (\<open>tokens\<close>), those on sets with sets, and the quicksort of \<open>sortby\<close> keeps the words under any comparison and sorts
  under an order. Money and counts of commands are those of a ledger,
  whatever blocks of players are dropped and written back, down to the files (\<open>money_is_ledger\<close>). Process ids
  of queued commands are unique in every state that connections, timer and run loop can reach
  (an inductive step relation, \<open>queue_step\<close>), except by a halt of what \<open>GOD\<close> owns that comes upon a halted or
  running entry (\<open>god_halt_frees_taken_pid\<close>); commands that wait are run in the end, each piece of their text with
  their player and registers, and semaphores release in order.

  \<^bold>\<open>Bounds and fuel.\<close> No definition has fuel. The parsers, matchers and loops are structural or come
  with a measure: the text that is left (wild.c, eval.c, the coded lists), for locks together with
  the nesting that is left (\<open>lock_nest_lim\<close>, a parameter of the server). Three loops of the code need
  not end and are partial functions to an option: \<open>get_hashmask\<close> (does not end above \<open>2 ^ 30\<close>),
  \<open>hash_nextentry\<close> and \<open>interp_nametab\<close> (does not end for a player who may not see every name); their
  theorems say when there is a result. The calls of the matcher are counted against
  \<open>wildmatch_lim\<close> as in the code, and its completeness is stated for runs within that limit. The
  text of an object's list of attributes is measured with a 32-bit int: \<open>object_attributes_are_map\<close> holds for
  fewer than \<open>10 ^ 8\<close> operations, each of which stores at most four attributes, and an object with fewer than
  \<open>LIMIT\<close> attributes (four times as many) has a list of less than \<open>2 ^ 31\<close> characters, five for a number. The loop over
  the commands of a queued line (\<open>run_commands\<close>) ends because each piece and what is left are shorter
  than the line. Times, money and counts of the queue are unbounded integers; \<open>money_is_ledger\<close> asks that the amounts
  add up to no more than an int can hold. It pays for the attributes that a changed block may still
  add with twice the number of changed blocks, so that each operation costs at most two. The liveness of the
  queue assumes that alarms go on, that the clock does not jump, that infinitely many turns may run a command
  (a turn with input from the network runs none by default) and that as long as the entry is queued nothing that is really run in
  a turn touches it (\<open>quiet_turn\<close>); \<open>wait_que_spares\<close>, \<open>nfy_que_spares\<close> and \<open>halt_que_spares\<close> show which operations
  do not. Sizes and offsets of the chunk file and the statistics are unbounded numbers, where the code has an int:
  a file of 2 GB or more is outside the model. Outside the invariant of its table \<open>vattr_next\<close> differs from the code.

  \<^bold>\<open>Not modelled.\<close> \<open>process_command\<close> of command.c is a parameter of the queue. The two theorems on
  runs of the queue ask of each command, in the state in which it is run, that it changes the queues only by the operations
  of cque.c (\<open>command_step\<close>, \<open>top_ok\<close>). \<open>@queue/kick\<close> has no result where the code uses an entry that the kicked commands
  have freed. Of the softcode functions only those on
  lists of words are modelled; \<open>delim_check\<close> evaluates a separator for none of them, \<open>qsort\<close> of the C library is
  a stable sort, and \<open>safe_atof\<close>, \<open>random\<close> and the comparison of \<open>sortby\<close>, which evaluates softcode, are parameters.
  The handlers of commands, the other softcode functions, flags, moving and looking, mail,
  news and help are several hundred functions over the whole state of the server, most of them
  with direct output; \<open>exec\<close> of eval.c calls them all, and is a parameter where locks and arguments
  need it. Sockets and processes (bsd.c, netcommon.c, door*.c, mysql.c) are system calls. The
  regular expressions, the dbm libraries and the hash functions come from other projects; the
  chunk store sees a dbm file as a finite map whose writes may fail. The files with the prefix
  \<open>sa-\<close> repeat the modelled code for the database tools, and the attribute-cache variant
  (udb_a*.c) is not built by the Makefile. Statistics that are only printed, log lines, messages
  to players and the checks of the allocator are left out of the functions that are modelled.
  Single places where the model differs from the code, such as reads of memory that was not
  initialised, are named in the theories, next to the definition.
\<close>

text \<open>
  C2: after a \<open>cache_sync\<close> that returns 0, a server that starts afresh on the same files,
  with an empty cache, shows every attribute of every object as the old server did.
\<close>

theorem sync_survives_restart:
  assumes "cache_good c s" "\<not> cache_frozen c" "cache_sync dddb cf c s = (0, c', s')" "bsiz s = DDDB_BLOCK"
    and "all_open sys" "dddb_init sys (dddb_var_init s') = (rc, s2)"
    and "cache_init width depth (cache_var_init c0) = (rc2, c2)"
  shows "rc = 0 \<and> cache_good c2 s2 \<and> cview c2 (chunk_contents s2) = cview c (chunk_contents s)"
proof -
  have sync: "cache_good c' s'" "bsiz s' = DDDB_BLOCK" "disk (chunk_contents s') = cview c (chunk_contents s)"
    using default.cache_sync_ok [of c s cf c' s'] assms(1-4) by (simp_all add: cache_good_def default.good_def)
  obtain s3 where s3: "dddb_init sys (dddb_var_init s') = (0, s3)" "chunk_ok s3" "chunk_contents s3 = chunk_contents s'"
    using reopen_ok [of s' sys] sync(1,2) assms(5) by (auto simp: cache_good_def)
  have "disk_ok (chunk_contents s2)" using sync(1) s3 assms(6) by (simp add: cache_good_def cache_inv_def)
  moreover have "sys_c (cache_var_init c0) = None" "\<not> cache_initted (cache_var_init c0)"
      "width \<noteq> 0 \<or> cwidth (cache_var_init c0) \<noteq> 0" by (simp_all add: cache_var_init_def CACHE_WIDTH_def)
  ultimately have "cache_inv c2 (chunk_contents s2) \<and> cview c2 (chunk_contents s2) = disk (chunk_contents s2)"
    using cache_init_ok assms(7) by blast
  then show ?thesis using s3 assms(6) sync(3) by (simp add: cache_good_def)
qed

theorem sync_survives_restart_witness:
  "\<exists>c' s' rc s2. cache_sync dddb True start_cache fresh_store = (0, c', s') \<and>
     dddb_init \<lparr>chunk_opens = True, dir_opens = True, pag_opens = True, dbm_opens = True, stat_works = True\<rparr>
       (dddb_var_init s') = (rc, s2) \<and> rc = 0 \<and> chunk_ok s2"
proof -
  let ?sys = "\<lparr>chunk_opens = True, dir_opens = True, pag_opens = True, dbm_opens = True, stat_works = True\<rparr>"
  obtain c' s' where r: "cache_sync dddb True start_cache fresh_store = (0, c', s')"
    using chunk.cache_sync_succeeds [of start_cache fresh_store True] start_cache_ok(1) fresh_store_ok(2)
    by (metis cache_good_chunk prod.collapse)
  have nf: "\<not> cache_frozen start_cache" by (simp add: start_cache_def cache_init_def cache_var_init_def Let_def)
  obtain rc s2 where i: "dddb_init ?sys (dddb_var_init s') = (rc, s2)" by (metis prod.collapse)
  obtain rc2 c2 where c: "cache_init 0 0 (cache_var_init start_cache) = (rc2, c2)" by (metis prod.collapse)
  from sync_survives_restart [OF start_cache_ok(1) nf r fresh_store_ok(4) _ i c] have "rc = 0 \<and> cache_good c2 s2"
    by (simp add: all_open_def)
  then show ?thesis using r i by (auto simp: cache_good_def)
qed

end
